(* ===== verification/Prelude.thy ===== *)
theory Prelude
  imports Main "HOL-Library.Word"
begin

text \<open>
  The material every component of the development shares: counted loops and their invariant
  rules, results that are either an error or a value together with the rules for sequencing
  them, and facts on lists written by index and on machine words.
\<close>

unbundle bit_operations_syntax

named_theorems outcome_intros \<open>how each operation can end: an error it may raise, or a result\<close>
named_theorems digit_laws \<open>the arithmetic of single digits and of loops over digits\<close>


section \<open>Counted loops\<close>

text \<open>
  \<^verbatim>\<open>for (i = lo; i < hi; i++) s = f(i, s);\<close> and the loop that counts down,
  \<^verbatim>\<open>for (i = hi - 1; i >= lo; i--) s = f(i, s);\<close>.
\<close>

definition for_up :: "nat \<Rightarrow> nat \<Rightarrow> (nat \<Rightarrow> 's \<Rightarrow> 's) \<Rightarrow> 's \<Rightarrow> 's" where
  "for_up lo hi f s = fold f [lo..<hi] s"

definition for_down :: "nat \<Rightarrow> nat \<Rightarrow> (nat \<Rightarrow> 's \<Rightarrow> 's) \<Rightarrow> 's \<Rightarrow> 's" where
  "for_down hi lo f s = fold f (rev [lo..<hi]) s"

lemma for_up_empty [simp]: "hi \<le> lo \<Longrightarrow> for_up lo hi f s = s"
  by (simp add: for_up_def)

lemma for_up_last: "lo \<le> hi \<Longrightarrow> for_up lo (Suc hi) f s = f hi (for_up lo hi f s)"
  by (simp add: for_up_def)

lemma for_up_first: "lo < hi \<Longrightarrow> for_up lo hi f s = for_up (Suc lo) hi f (f lo s)"
  by (simp add: for_up_def upt_conv_Cons)

lemma for_up_inv:
  assumes "I lo s"
    and "\<And>i t. \<lbrakk>lo \<le> i; i < hi; I i t\<rbrakk> \<Longrightarrow> I (Suc i) (f i t)"
    and "lo \<le> hi"
  shows "I hi (for_up lo hi f s)"
  using assms(3,2)
proof (induction hi rule: dec_induct)
  case base
  then show ?case using assms(1) by simp
next
  case (step k)
  then show ?case by (simp add: for_up_last)
qed

lemma for_down_inv:
  assumes "I hi s"
    and "\<And>i t. \<lbrakk>lo \<le> i; i < hi; I (Suc i) t\<rbrakk> \<Longrightarrow> I i (f i t)"
    and "lo \<le> hi"
  shows "I lo (for_down hi lo f s)"
  using assms(3,1,2)
proof (induction hi arbitrary: s rule: dec_induct)
  case base
  then show ?case by (simp add: for_down_def)
next
  case (step k)
  have "I k (f k s)" using step.hyps step.prems by simp
  then have "I lo (for_down k lo f (f k s))"
    using step.IH step.prems by simp
  moreover have "for_down (Suc k) lo f s = for_down k lo f (f k s)"
    using step.hyps by (simp add: for_down_def)
  ultimately show ?case by simp
qed


section \<open>Results\<close>

text \<open>
  The C++ code signals failure by a thrown exception (and a null result), checked after each
  call by \<^verbatim>\<open>RETURN_IF_EXCEPTION\<close>. Here an operation returns \<open>Inl\<close> of the error or \<open>Inr\<close>
  of its value, and \<open>andThen\<close> is the call followed by that check.
\<close>

type_synonym ('e, 'a) result = "'e + 'a"

fun andThen :: "('e, 'a) result \<Rightarrow> ('a \<Rightarrow> ('e, 'b) result) \<Rightarrow> ('e, 'b) result" where
  "andThen (Inl e) f = Inl e"
| "andThen (Inr a) f = f a"

definition outcome :: "('e \<Rightarrow> bool) \<Rightarrow> ('a \<Rightarrow> bool) \<Rightarrow> ('e, 'a) result \<Rightarrow> bool" where
  "outcome E Q r = (case r of Inl e \<Rightarrow> E e | Inr a \<Rightarrow> Q a)"

lemma outcome_simps [simp]:
  "outcome E Q (Inl e) = E e"
  "outcome E Q (Inr a) = Q a"
  by (simp_all add: outcome_def)

lemma outcome_andThen:
  assumes "outcome E P r" and "\<And>a. P a \<Longrightarrow> outcome E Q (f a)"
  shows "outcome E Q (andThen r f)"
  using assms by (cases r) auto

lemma outcome_mono:
  assumes "outcome E P r" and "\<And>e. E e \<Longrightarrow> E' e" and "\<And>a. P a \<Longrightarrow> Q a"
  shows "outcome E' Q r"
  using assms by (cases r) auto

lemma outcome_andThenE:
  assumes "outcome E P r" and "\<And>e. E e \<Longrightarrow> E' e" and "\<And>a. P a \<Longrightarrow> outcome E' Q (f a)"
  shows "outcome E' Q (andThen r f)"
  using assms by (cases r) auto

lemma outcome_no_error: "outcome E Q r \<Longrightarrow> (\<And>e. \<not> E e) \<Longrightarrow> \<exists>a. r = Inr a \<and> Q a"
  by (cases r) auto

lemma outcome_InrD: "outcome E Q r \<Longrightarrow> r = Inr a \<Longrightarrow> Q a"
  by simp

lemma outcome_InlD: "outcome E Q r \<Longrightarrow> r = Inl e \<Longrightarrow> E e"
  by simp


section \<open>Lists written by index\<close>

lemma take_Suc_update: "i < length xs \<Longrightarrow> take (Suc i) (xs[i := v]) = take i xs @ [v]"
  by (simp add: take_Suc_conv_app_nth)

lemma drop_take_update_last:
  assumes "k + i < length xs"
  shows "take (Suc i) (drop k (xs[k + i := v])) = take i (drop k xs) @ [v]"
  using assms by (simp add: drop_update_swap take_Suc_update)

lemma nth_take_drop: "k + i < length xs \<Longrightarrow> i < n \<Longrightarrow> take n (drop k xs) ! i = xs ! (k + i)"
  by simp

lemma last_eq_nth: "xs \<noteq> [] \<Longrightarrow> xs ! (length xs - 1) = last xs"
  by (simp add: last_conv_nth)


section \<open>Integer division\<close>

lemma le_div_iff:
  fixes q n v :: int
  assumes "0 < v"
  shows "q \<le> n div v \<longleftrightarrow> q * v \<le> n"
proof
  assume "q \<le> n div v"
  then have "q * v \<le> n div v * v" using assms by (intro mult_right_mono) auto
  then show "q * v \<le> n" using div_mult_mod_eq [of n v] pos_mod_sign [OF assms, of n] by linarith
next
  assume "q * v \<le> n"
  then show "q \<le> n div v" using assms zdiv_mono1 [of "q * v" n v] by simp
qed

lemma div_less_iff: "0 < v \<Longrightarrow> n div v < q \<longleftrightarrow> n < q * v" for q n v :: int
  using le_div_iff [of v q n] by linarith

lemma div_unique_bounds: "0 < v \<Longrightarrow> q * v \<le> n \<Longrightarrow> n < q * v + v \<Longrightarrow> n div v = q" for q n v :: int
  using le_div_iff [of v q n] div_less_iff [of v n "q + 1"] by (simp add: distrib_right)


section \<open>Machine words\<close>

lemma uint_lt_64: "uint (w :: 64 word) < 18446744073709551616"
  using uint_lt2p [of w] by simp

lemma uint_nonneg: "0 \<le> uint (w :: 'a::len word)"
  by simp

lemma uint_ge_1: "w \<noteq> 0 \<Longrightarrow> 1 \<le> uint (w :: 'a::len word)"
proof -
  assume "w \<noteq> 0"
  then have "uint w \<noteq> 0" by (simp add: uint_0_iff)
  then show "1 \<le> uint w" using uint_nonneg [of w] by linarith
qed

lemma uint_drop_bit: "uint (drop_bit n w) = uint w div 2 ^ n" for w :: "'a::len word"
  by (simp add: unsigned_drop_bit_eq take_bit_int_eq_self flip: drop_bit_eq_div)

lemma unat_drop_bit: "unat (drop_bit n w) = unat w div 2 ^ n" for w :: "'a::len word"
proof -
  have "int (unat (drop_bit n w)) = int (unat w) div 2 ^ n"
    by (simp add: uint_drop_bit)
  also have "\<dots> = int (unat w div 2 ^ n)" by (simp add: zdiv_int)
  finally show ?thesis by (simp only: of_nat_eq_iff)
qed

lemma and_one_odd: "w AND 1 \<noteq> 0 \<longleftrightarrow> odd (unat w)" for w :: "'a::len word"
proof -
  have "odd (unat w) \<longleftrightarrow> odd w" by (simp add: bit_unsigned_iff flip: bit_0)
  then show ?thesis by (simp add: and_one_eq flip: even_iff_mod_2_eq_zero)
qed

lemma uint_push_bit: "uint (push_bit n w) = (uint w * 2 ^ n) mod 2 ^ LENGTH('a)" for w :: "'a::len word"
  by (simp add: unsigned_push_bit_eq flip: push_bit_eq_mult take_bit_eq_mod)

lemma uint_2_power: "m < 64 \<Longrightarrow> uint (2 ^ m :: 64 word) = 2 ^ m"
  using power_strict_increasing [of m 64 "2 :: int"] uint_push_bit [of m "1 :: 64 word"] by simp

lemma uint_1_iff: "uint w = 1 \<longleftrightarrow> w = 1" for w :: "64 word"
  by (metis uint_1 word_uint_eq_iff)

lemma uint_scast: "uint (scast w :: 'b::len word) = sint w mod 2 ^ LENGTH('b)" for w :: "'a::len word"
  by (metis of_int_sint uint_word_of_int)

lemma uint_ucast: "uint (ucast w :: 'b::len word) = uint w mod 2 ^ LENGTH('b)" for w :: "'a::len word"
  by (simp add: unsigned_ucast_eq take_bit_eq_mod)

lemma sint_range: "- (2 ^ (LENGTH('a) - 1)) \<le> sint w \<and> sint w < 2 ^ (LENGTH('a) - 1)" for w :: "'a::len word"
  using sint_greater_eq [of w] sint_less [of w] by simp

lemma sint_eq_0_iff: "sint w = 0 \<longleftrightarrow> w = 0" for w :: "'a::len word"
  by (simp add: signed_eq_0_iff)

lemma uint_eq_sint_mod: "uint w = sint w mod 2 ^ LENGTH('a)" for w :: "'a::len word"
  by (metis uint_scast scast_id)

lemma uint_negate: "sint w < 0 \<Longrightarrow> uint (- w) = - sint w" for w :: "'a::len word"
proof -
  assume neg: "sint w < 0"
  have "uint (- w) = (- sint w) mod 2 ^ LENGTH('a)"
    by (simp add: uint_word_ariths uint_eq_sint_mod [of w] mod_minus_eq)
  moreover have "- sint w < 2 ^ LENGTH('a)"
  proof -
    have "- sint w \<le> 2 ^ (LENGTH('a) - 1)" using sint_range [of w] by simp
    also have "(2 :: int) ^ (LENGTH('a) - 1) < 2 ^ LENGTH('a)" by (rule power_strict_increasing) simp_all
    finally show ?thesis .
  qed
  ultimately show "uint (- w) = - sint w" using neg by simp
qed

lemma uint_sint_nonneg: "0 \<le> sint w \<Longrightarrow> uint w = sint w" for w :: "'a::len word"
proof -
  assume pos: "0 \<le> sint w"
  have "sint w < 2 ^ (LENGTH('a) - 1)" using sint_range [of w] by simp
  also have "(2 :: int) ^ (LENGTH('a) - 1) < 2 ^ LENGTH('a)" by (rule power_strict_increasing) simp_all
  finally show "uint w = sint w" using pos by (simp add: uint_eq_sint_mod [of w])
qed

lemma uint_and_mask: "uint (w AND mask n) = uint w mod 2 ^ n" if "n \<le> LENGTH('a)" for w :: "'a::len word"
  using that by (simp add: unsigned_take_bit_eq min_absorb2 flip: take_bit_eq_mask take_bit_eq_mod)

text \<open>Joining two words whose set bits do not overlap adds them.\<close>

lemma int_or_shift_add:
  assumes "0 \<le> a" and "a < 2 ^ n"
  shows "(b * 2 ^ n) OR a = b * 2 ^ n + (a :: int)"
proof -
  have "(b * 2 ^ n) AND a = 0"
  proof (rule bit_eqI)
    fix k
    have "a = take_bit n a" using assms by (simp add: take_bit_int_eq_self)
    then have "bit a k \<Longrightarrow> k < n" by (metis bit_take_bit_iff)
    then show "bit ((b * 2 ^ n) AND a) k = bit 0 k"
      by (auto simp: bit_and_iff bit_push_bit_iff simp flip: push_bit_eq_mult)
  qed
  then show ?thesis by (simp add: disjunctive_add_eq_or)
qed

end
