(* ===== verification/Digits.thy ===== *)
theory Digits
  imports Prelude
begin

text \<open>
  The digits of a BigInt and the arithmetic on single digits
  (\<^verbatim>\<open>digitAdd\<close> to \<^verbatim>\<open>digitPow\<close> of \<^verbatim>\<open>runtime/JSBigInt.cpp\<close>; \<^verbatim>\<open>digitDiv\<close> is in
  \<^verbatim>\<open>Digit_Division\<close>), the value of a little-endian list of digits, and the loops over digits.

  A \<^verbatim>\<open>Digit\<close> is a \<^verbatim>\<open>UCPURegister\<close>; the model takes the 64-bit targets, where it is a
  \<^verbatim>\<open>uint64_t\<close>. The C++ functions return their second result through a reference parameter
  (\<^verbatim>\<open>carry\<close>, \<^verbatim>\<open>borrow\<close>, \<^verbatim>\<open>high\<close>, \<^verbatim>\<open>remainder\<close>); here it is the second component of a pair.
\<close>

type_synonym digit = "64 word"

definition digitBits :: nat where
  "digitBits = 64"

definition halfDigitBits :: nat where
  "halfDigitBits = digitBits div 2"

definition halfDigitMask :: digit where
  "halfDigitMask = push_bit halfDigitBits 1 - 1"

definition digitMax :: digit where
  "digitMax = - 1"


section \<open>Digit arithmetic\<close>

definition digitAdd :: "digit \<Rightarrow> digit \<Rightarrow> digit \<Rightarrow> digit \<times> digit" where
  "digitAdd a b carry = (let result = a + b in (result, carry + of_bool (result < a)))"

definition digitSub :: "digit \<Rightarrow> digit \<Rightarrow> digit \<Rightarrow> digit \<times> digit" where
  "digitSub a b borrow = (let result = a - b in (result, borrow + of_bool (result > a)))"

text \<open>With a 128-bit \<^verbatim>\<open>TwoDigit\<close> type.\<close>

definition digitMul :: "digit \<Rightarrow> digit \<Rightarrow> digit \<times> digit" where
  "digitMul a b =
     (let result = (ucast a :: 128 word) * ucast b
      in (ucast result, ucast (drop_bit digitBits result)))"

function digitPowLoop :: "digit \<Rightarrow> digit \<Rightarrow> digit \<Rightarrow> digit" where
  "digitPowLoop result base exponent =
     (if exponent > 0
      then digitPowLoop (if exponent AND 1 \<noteq> 0 then result * base else result) (base * base) (drop_bit 1 exponent)
      else result)"
  by pat_completeness auto
termination
proof (relation "measure (\<lambda>(result, base, exponent). unat exponent)")
  fix result base exponent :: digit
  assume "exponent > 0"
  then have "0 < uint exponent" by (simp add: word_less_def)
  then have "drop_bit 1 exponent < exponent"
    by (simp add: word_less_def uint_drop_bit)
  then show "((if exponent AND 1 \<noteq> 0 then result * base else result, base * base, drop_bit 1 exponent),
      result, base, exponent) \<in> measure (\<lambda>(result, base, exponent). unat exponent)"
    by (simp add: word_less_nat_alt)
qed simp

declare digitPowLoop.simps [simp del]

definition digitPow :: "digit \<Rightarrow> digit \<Rightarrow> digit" where
  "digitPow base exponent = digitPowLoop 1 base exponent"


section \<open>The value of a list of digits\<close>

definition digitBase :: int where
  "digitBase = 2 ^ 64"

lemma digitBase_num: "digitBase = 18446744073709551616"
  by (simp add: digitBase_def)

lemma digitBase_pos [simp]: "0 < digitBase" "0 \<le> digitBase" "1 < digitBase" "digitBase \<noteq> 0" "1 \<le> digitBase"
  by (simp_all add: digitBase_num)

lemma digitBase_power_pos [simp]: "0 < digitBase ^ n" "0 \<le> digitBase ^ n" "1 \<le> digitBase ^ n"
  by simp_all

lemma uint_less_digitBase [simp]: "uint (d :: digit) < digitBase"
  using uint_lt_64 [of d] by (simp add: digitBase_num)

fun dval :: "digit list \<Rightarrow> int" where
  "dval [] = 0"
| "dval (d # ds) = uint d + digitBase * dval ds"

lemma digitBase_power_2: "digitBase ^ n = 2 ^ (64 * n)"
  by (simp add: digitBase_def power_mult)

lemma dval_nonneg [simp]: "0 \<le> dval ds"
  by (induction ds) auto

lemma dval_append: "dval (xs @ ys) = dval xs + digitBase ^ length xs * dval ys"
  by (induction xs) (auto simp: algebra_simps)

lemma dval_snoc: "dval (xs @ [d]) = dval xs + digitBase ^ length xs * uint d"
  by (simp add: dval_append)

lemma dval_bound: "dval ds < digitBase ^ length ds"
proof (induction ds)
  case (Cons d ds)
  have "uint d + digitBase * dval ds < digitBase + digitBase * dval ds" by simp
  also have "\<dots> = digitBase * (dval ds + 1)" by (simp add: algebra_simps)
  also have "\<dots> \<le> digitBase * digitBase ^ length ds"
    using Cons by (intro mult_left_mono) auto
  finally show ?case by simp
qed simp

lemma dval_replicate_0 [simp]: "dval (replicate n 0) = 0"
  by (induction n) auto

lemma dval_eq_0_iff: "dval ds = 0 \<longleftrightarrow> (\<forall>d \<in> set ds. d = 0)"
proof (induction ds)
  case (Cons d ds)
  have "uint d + digitBase * dval ds = 0 \<longleftrightarrow> uint d = 0 \<and> dval ds = 0"
  proof
    assume h: "uint d + digitBase * dval ds = 0"
    have "0 \<le> uint d" "0 \<le> digitBase * dval ds" by simp_all
    with h have "uint d = 0" "digitBase * dval ds = 0" by linarith+
    then show "uint d = 0 \<and> dval ds = 0" by simp
  qed simp
  with Cons show ?case by (simp add: uint_0_iff)
qed simp

lemma dval_take_Suc: "i < length ds \<Longrightarrow> dval (take (Suc i) ds) = dval (take i ds) + digitBase ^ i * uint (ds ! i)"
  by (simp add: take_Suc_conv_app_nth dval_snoc)

lemma dval_take_drop: "dval ds = dval (take k ds) + digitBase ^ min k (length ds) * dval (drop k ds)"
  by (metis append_take_drop_id dval_append length_take min.commute)

lemma dval_update:
  assumes "i < length ds"
  shows "dval (ds[i := d]) = dval ds + digitBase ^ i * uint d - digitBase ^ i * uint (ds ! i)"
proof -
  have "dval (ds[i := d]) = dval (take i ds) + digitBase ^ i * (uint d + digitBase * dval (drop (Suc i) ds))"
    using assms by (simp add: upd_conv_take_nth_drop dval_append min_absorb2)
  moreover have "dval ds = dval (take i ds) + digitBase ^ i * (uint (ds ! i) + digitBase * dval (drop (Suc i) ds))"
    using assms dval_append [of "take i ds" "ds ! i # drop (Suc i) ds"] by (simp add: min_absorb2 id_take_nth_drop [symmetric])
  ultimately show ?thesis by (simp add: distrib_left)
qed

lemma dval_split_last: "ds \<noteq> [] \<Longrightarrow> dval ds = dval (butlast ds) + digitBase ^ (length ds - 1) * uint (last ds)"
  by (metis append_butlast_last_id dval_snoc length_butlast)

text \<open>A difference that is not negative leaves no borrow.\<close>

lemma dval_no_borrow:
  assumes "0 \<le> dval ds - digitBase ^ length ds * uint (b :: digit)"
  shows "b = 0"
proof (rule ccontr)
  assume "b \<noteq> 0"
  then have "digitBase ^ length ds * 1 \<le> digitBase ^ length ds * uint b"
    by (intro mult_left_mono uint_ge_1) auto
  then show False using assms dval_bound [of ds] by linarith
qed

text \<open>Quotient and remainder by a power of the base select digits.\<close>

lemma dval_mod_base_power: "k \<le> length ds \<Longrightarrow> dval ds mod digitBase ^ k = dval (take k ds)"
  using dval_take_drop [of ds k] dval_bound [of "take k ds"]
  by (simp add: min_absorb1)

lemma dval_div_base_power: "k \<le> length ds \<Longrightarrow> dval ds div digitBase ^ k = dval (drop k ds)"
  using dval_take_drop [of ds k] dval_bound [of "take k ds"]
  by (simp add: min_absorb1)

lemma dval_inj: "length xs = length ys \<Longrightarrow> dval xs = dval ys \<Longrightarrow> xs = ys"
proof (induction xs ys rule: list_induct2)
  case (Cons x xs y ys)
  have "uint x = (uint x + digitBase * dval xs) mod digitBase" by simp
  also have "\<dots> = (uint y + digitBase * dval ys) mod digitBase" using Cons.prems by simp
  also have "\<dots> = uint y" by simp
  finally have "x = y" by (simp add: word_uint_eqI)
  with Cons show ?case by simp
qed simp


section \<open>Laws of the digit operations\<close>

lemma uint_of_bool: "uint (of_bool b :: digit) = of_bool b"
  by (cases b) auto

lemma digitAdd_law [digit_laws]:
  assumes "digitAdd a b carry = (r, carry')" and "uint carry + 1 < digitBase"
  shows "uint r + digitBase * uint carry' = uint a + uint b + digitBase * uint carry"
    and "uint carry' \<le> uint carry + 1"
proof -
  have r: "r = a + b" and c: "carry' = carry + of_bool (r < a)"
    using assms(1) by (auto simp: digitAdd_def Let_def)
  have "uint carry' = uint carry + of_bool (r < a)"
    using assms(2) by (simp add: c digitBase_num uint_plus_if' uint_of_bool)
  moreover have "uint r = uint a + uint b - digitBase * of_bool (r < a)"
    using uint_lt_64 [of a] uint_lt_64 [of b]
    by (simp add: r digitBase_num word_less_def uint_plus_if')
  ultimately show "uint r + digitBase * uint carry' = uint a + uint b + digitBase * uint carry"
    and "uint carry' \<le> uint carry + 1"
    by (auto simp: algebra_simps)
qed

lemma digitSub_law [digit_laws]:
  assumes "digitSub a b borrow = (r, borrow')" and "uint borrow + 1 < digitBase"
  shows "uint r - digitBase * uint borrow' = uint a - uint b - digitBase * uint borrow"
    and "uint borrow' \<le> uint borrow + 1"
proof -
  have r: "r = a - b" and c: "borrow' = borrow + of_bool (r > a)"
    using assms(1) by (auto simp: digitSub_def Let_def)
  have "uint borrow' = uint borrow + of_bool (r > a)"
    using assms(2) by (simp add: c digitBase_num uint_plus_if' uint_of_bool)
  moreover have "uint r = uint a - uint b + digitBase * of_bool (r > a)"
    using uint_lt_64 [of a] uint_lt_64 [of b] uint_nonneg [of a] uint_nonneg [of b]
    by (simp add: r digitBase_num word_less_def uint_sub_if')
  ultimately show "uint r - digitBase * uint borrow' = uint a - uint b - digitBase * uint borrow"
    and "uint borrow' \<le> uint borrow + 1"
    by (auto simp: algebra_simps)
qed

lemma uint_product_bound: "uint (a :: digit) * uint (b :: digit) \<le> (digitBase - 1) * (digitBase - 1)"
  by (rule mult_mono) (use uint_less_digitBase [of a] uint_less_digitBase [of b] in auto)

lemma digitMul_law [digit_laws]:
  assumes "digitMul a b = (low, high)"
  shows "uint low + digitBase * uint high = uint a * uint b"
    and "uint high \<le> digitBase - 2"
proof -
  define result where "result = (ucast a :: 128 word) * ucast b"
  have lt: "uint a * uint b < 2 ^ 128"
    using uint_product_bound [of a b] by (simp add: digitBase_num)
  moreover have wide: "uint (ucast d :: 128 word) = uint d" for d :: digit
    using uint_lt_64 [of d] by (simp add: unsigned_ucast_eq take_bit_int_eq_self)
  ultimately have res: "uint result = uint a * uint b"
    by (simp add: result_def uint_word_ariths)
  have "uint low = uint a * uint b mod digitBase"
    using assms by (auto simp: digitMul_def Let_def res digitBase_num take_bit_eq_mod unsigned_ucast_eq
        simp flip: result_def)
  moreover have "uint high = uint a * uint b div digitBase"
  proof -
    have "uint a * uint b div 18446744073709551616 < 18446744073709551616"
      using lt by (simp add: div_less_iff_less_mult)
    then show ?thesis
      using assms
      by (auto simp: digitMul_def Let_def digitBits_def uint_drop_bit res digitBase_num unsigned_ucast_eq
          take_bit_int_eq_self pos_imp_zdiv_nonneg_iff simp flip: result_def)
  qed
  ultimately show law: "uint low + digitBase * uint high = uint a * uint b"
    by simp
  show "uint high \<le> digitBase - 2"
  proof (rule ccontr)
    assume "\<not> uint high \<le> digitBase - 2"
    then have "digitBase * (digitBase - 1) \<le> digitBase * uint high"
      by (intro mult_left_mono) auto
    then have "digitBase * (digitBase - 1) \<le> (digitBase - 1) * (digitBase - 1)"
      using law uint_product_bound [of a b] uint_nonneg [of low] by linarith
    then show False by (simp add: digitBase_num)
  qed
qed


text \<open>A pair of digits is determined by its value.\<close>

lemma digit_pair_unique:
  assumes "uint (l :: digit) + digitBase * uint (h :: digit) = uint l' + digitBase * uint h'"
  shows "l = l' \<and> h = h'"
proof -
  have "dval [l, h] = dval [l', h']" using assms by simp
  then have "[l, h] = [l', h']" by (intro dval_inj) simp_all
  then show ?thesis by simp
qed

text \<open>Square and multiply, modulo the base.\<close>

lemma digitPowLoop_law: "uint (digitPowLoop result base exponent) = uint result * uint base ^ unat exponent mod digitBase"
proof (induction result base exponent rule: digitPowLoop.induct)
  case (1 result base exponent)
  show ?case
  proof (cases "exponent > 0")
    case True
    define e where "e = unat exponent"
    have bit0: "exponent AND 1 \<noteq> 0 \<longleftrightarrow> odd e"
      by (simp add: e_def and_one_odd)
    have half: "unat (drop_bit 1 exponent) = e div 2"
      by (simp only: e_def unat_drop_bit power_one_right)
    have sq: "(uint base * uint base mod digitBase) ^ k mod digitBase = (uint base ^ (2 * k)) mod digitBase" for k
      by (simp add: power_mod power_mult power2_eq_square)
    have square: "uint (base * base) = uint base * uint base mod digitBase"
      by (simp add: uint_word_ariths digitBase_def)
    define result' where "result' = (if exponent AND 1 \<noteq> 0 then result * base else result)"
    have res: "uint result' mod digitBase = uint result * uint base ^ (e mod 2) mod digitBase"
      using bit0 by (auto simp: result'_def uint_word_ariths digitBase_def odd_iff_mod_2_eq_one)
    have "uint (digitPowLoop result base exponent) = uint result' * uint (base * base) ^ (e div 2) mod digitBase"
      using "1.IH" [OF True] half True by (subst digitPowLoop.simps) (simp add: result'_def)
    also have "\<dots> = (uint result' mod digitBase) * ((uint base * uint base mod digitBase) ^ (e div 2) mod digitBase) mod digitBase"
      by (simp add: square mod_mult_eq mod_mult_right_eq)
    also have "\<dots> = (uint result * uint base ^ (e mod 2) mod digitBase) * (uint base ^ (2 * (e div 2)) mod digitBase) mod digitBase"
      by (simp only: res sq)
    also have "\<dots> = uint result * (uint base ^ (e mod 2) * uint base ^ (2 * (e div 2))) mod digitBase"
      by (simp add: mod_simps mult.assoc)
    also have "uint base ^ (e mod 2) * uint base ^ (2 * (e div 2)) = uint base ^ e"
      by (simp flip: power_add)
    finally show ?thesis by (simp add: e_def)
  next
    case False
    then show ?thesis
      by (subst digitPowLoop.simps) (simp add: word_gt_0)
  qed
qed

lemma digitPow_law: "uint (digitPow base exponent) = uint base ^ unat exponent mod digitBase"
  by (simp add: digitPow_def digitPowLoop_law)


lemma dval_sum:
  "lo + n \<le> length ds \<Longrightarrow> (\<Sum>i<n. digitBase ^ i * uint (ds ! (lo + i))) = dval (take n (drop lo ds))"
  by (induction n) (auto simp: dval_take_Suc)

lemma dval_sum_scaled:
  "lo + n \<le> length ds \<Longrightarrow> (\<Sum>i<n. digitBase ^ i * (k * uint (ds ! (lo + i)))) = k * dval (take n (drop lo ds))"
  by (simp add: dval_sum [symmetric] sum_distrib_left mult.left_commute)

lemma dval_take_add:
  "lo + n \<le> length ds \<Longrightarrow> dval (take (lo + n) ds) = dval (take lo ds) + digitBase ^ lo * dval (take n (drop lo ds))"
  by (simp add: take_add dval_append min_absorb2)


text \<open>What changes in a number when only the digits of a window change.\<close>

lemma dval_window:
  assumes "length r = length r0" and "off + k \<le> length r0"
    and "\<And>i. i < off \<or> off + k \<le> i \<Longrightarrow> r ! i = r0 ! i"
  shows "dval r = dval r0 + digitBase ^ off * dval (take k (drop off r)) - digitBase ^ off * dval (take k (drop off r0))"
proof -
  have split: "dval ds = dval (take off ds) + digitBase ^ off * dval (take k (drop off ds))
      + digitBase ^ (off + k) * dval (drop (off + k) ds)" if "length ds = length r0" for ds
    using dval_take_drop [of ds "off + k"] dval_take_add [of off k ds] that assms(2) by (simp add: min_absorb1)
  have "take off r = take off r0" "drop (off + k) r = drop (off + k) r0"
    using assms by (intro nth_equalityI; simp)+
  then show ?thesis using split [OF assms(1)] split [OF refl] by simp
qed


section \<open>Halves and shifts of a digit\<close>

lemma halfDigit_split:
  fixes a :: digit
  shows "uint (a AND halfDigitMask) = uint a mod 2 ^ 32"
    and "uint (drop_bit halfDigitBits a) = uint a div 2 ^ 32"
proof -
  have "halfDigitMask = mask 32" by (simp add: halfDigitMask_def halfDigitBits_def digitBits_def mask_numeral)
  then show "uint (a AND halfDigitMask) = uint a mod 2 ^ 32" using uint_and_mask [of 32 a] by simp
qed (simp add: halfDigitBits_def digitBits_def uint_drop_bit)

text \<open>A digit shifted left, joined with bits that fit into the gap.\<close>

lemma push_bit_or:
  fixes d w :: digit
  assumes "s \<le> 64" and "uint w < 2 ^ s"
  shows "uint (push_bit s d OR w) = uint d * 2 ^ s mod digitBase + uint w"
proof -
  have "digitBase = 2 ^ (64 - s) * 2 ^ s" using assms(1) by (simp add: digitBase_def flip: power_add)
  then have "uint d * 2 ^ s mod digitBase = uint d mod 2 ^ (64 - s) * 2 ^ s"
    by (simp add: mult_mod_left)
  then show ?thesis
    using int_or_shift_add [of "uint w" s "uint d mod 2 ^ (64 - s)"] assms(2)
    by (simp add: unsigned_or_eq uint_push_bit digitBase_num)
qed

text \<open>The bits a digit loses when it is shifted left.\<close>

lemma shifted_digit_split:
  fixes d :: digit
  assumes "s \<le> 64"
  shows "uint d * 2 ^ s mod digitBase + digitBase * (uint d div 2 ^ (64 - s)) = uint d * 2 ^ s"
    and "uint d div 2 ^ (64 - s) < 2 ^ s"
proof -
  have b: "digitBase = 2 ^ s * 2 ^ (64 - s)" using assms by (simp add: digitBase_def flip: power_add)
  have "uint d * 2 ^ s div digitBase = uint d div 2 ^ (64 - s)"
    unfolding b by (simp add: mult.commute)
  then show "uint d * 2 ^ s mod digitBase + digitBase * (uint d div 2 ^ (64 - s)) = uint d * 2 ^ s"
    using mod_mult_div_eq [of "uint d * 2 ^ s" digitBase] by simp
  have "uint d < 2 ^ s * 2 ^ (64 - s)" using b uint_less_digitBase [of d] by simp
  then show "uint d div 2 ^ (64 - s) < 2 ^ s"
    by (simp add: div_less_iff)
qed


section \<open>Loops over digits\<close>

text \<open>
  The loops of the BigInt operations run an index over the digits, compute one digit of the
  result from the digits of the inputs and a state carried from digit to digit (a carry, a
  borrow, the bits shifted out), and store it with \<^verbatim>\<open>setDigit\<close>. \<open>digitLoop off lo hi step\<close> is
  \<^verbatim>\<open>for (i = lo; i < hi; i++)\<close> with the step's digit stored at \<open>off + i\<close>; the step also sees
  the digit stored there before, for the operations that work in place.
\<close>

definition digitLoop ::
  "nat \<Rightarrow> nat \<Rightarrow> nat \<Rightarrow> (nat \<Rightarrow> digit \<Rightarrow> 'c \<Rightarrow> digit \<times> 'c) \<Rightarrow> digit list \<times> 'c \<Rightarrow> digit list \<times> 'c" where
  "digitLoop off lo hi step =
     for_up lo hi (\<lambda>i (r, c). let (d, c') = step i (r ! (off + i)) c in (r[off + i := d], c'))"

lemma digitLoop_empty [simp]: "hi \<le> lo \<Longrightarrow> digitLoop off lo hi step rc = rc"
  by (simp add: digitLoop_def)

lemma digitLoop_Suc:
  "lo \<le> hi \<Longrightarrow> digitLoop off lo (Suc hi) step rc =
     (let (r, c) = digitLoop off lo hi step rc; (d, c') = step hi (r ! (off + hi)) c in (r[off + hi := d], c'))"
  by (simp add: digitLoop_def for_up_last split: prod.splits)

lemma digitLoop_frame:
  assumes "digitLoop off lo hi step (r0, c0) = (r, c)" and "lo \<le> hi"
  shows "length r = length r0"
    and "k < off + lo \<or> off + hi \<le> k \<Longrightarrow> r ! k = r0 ! k"
proof -
  let ?I = "\<lambda>i rc. length (fst rc) = length r0 \<and> (\<forall>k. k < off + lo \<or> off + i \<le> k \<longrightarrow> fst rc ! k = r0 ! k)"
  have "?I hi (digitLoop off lo hi step (r0, c0))"
    unfolding digitLoop_def
  proof (rule for_up_inv [where I = ?I])
    fix i and rc :: "digit list \<times> 'a"
    assume "lo \<le> i" "i < hi" "?I i rc"
    then show "?I (Suc i) (case rc of (r, c) \<Rightarrow> let (d, c') = step i (r ! (off + i)) c in (r[off + i := d], c'))"
      by (auto simp: nth_list_update split: prod.splits)
  qed (use assms in auto)
  then show "length r = length r0" "k < off + lo \<or> off + hi \<le> k \<Longrightarrow> r ! k = r0 ! k"
    using assms(1) by auto
qed

text \<open>
  What the steps of such a loop have to promise: the digit produced and the state handed on are
  worth what the step added and the state handed in were worth. Addition, subtraction,
  multiplication by a digit and both shifts are such steps; the value of a whole loop then
  follows once and for all.
\<close>

locale carry_chain =
  fixes step :: "nat \<Rightarrow> digit \<Rightarrow> 'c \<Rightarrow> digit \<times> 'c"
    and cinv :: "'c \<Rightarrow> bool"
    and cval :: "'c \<Rightarrow> int"
    and addend :: "nat \<Rightarrow> digit \<Rightarrow> int"
  assumes step_law: "\<lbrakk>cinv c; step i old c = (d, c')\<rbrakk> \<Longrightarrow>
      uint d + digitBase * cval c' = addend i old + cval c \<and> cinv c'"
begin

lemma loop_value:
  assumes "digitLoop off lo hi step (r0, c0) = (r, c)"
    and "cinv c0" and "lo \<le> hi" and "off + hi \<le> length r0"
  shows "dval (take (hi - lo) (drop (off + lo) r)) + digitBase ^ (hi - lo) * cval c
           = (\<Sum>i<hi - lo. digitBase ^ i * addend (lo + i) (r0 ! (off + lo + i))) + cval c0
         \<and> cinv c"
  using assms(3,1,4)
proof (induction hi arbitrary: r c rule: dec_induct)
  case base
  then show ?case using assms(2) by simp
next
  case (step k)
  obtain r1 c1 where l1: "digitLoop off lo k step (r0, c0) = (r1, c1)" by fastforce
  obtain d c2 where s1: "step k (r1 ! (off + k)) c1 = (d, c2)" by fastforce
  have out: "r = r1[off + k := d]" "c = c2"
    using step.prems(1) step.hyps l1 s1 by (simp_all add: digitLoop_Suc)
  note fr = digitLoop_frame [OF l1 step.hyps(1)]
  have ih: "dval (take (k - lo) (drop (off + lo) r1)) + digitBase ^ (k - lo) * cval c1
      = (\<Sum>i<k - lo. digitBase ^ i * addend (lo + i) (r0 ! (off + lo + i))) + cval c0 \<and> cinv c1"
    using step.IH [OF l1] step.prems by simp
  have law: "uint d + digitBase * cval c2 = addend k (r0 ! (off + k)) + cval c1 \<and> cinv c2"
    using step_law [OF _ s1] ih fr(2) [of "off + k"] by simp
  have k: "off + k = (off + lo) + (k - lo)" "Suc k - lo = Suc (k - lo)" "lo + (k - lo) = k"
    using step.hyps by simp_all
  have "take (Suc (k - lo)) (drop (off + lo) r) = take (k - lo) (drop (off + lo) r1) @ [d]"
    unfolding out k(1) by (rule drop_take_update_last) (use step.prems fr(1) step.hyps in simp)
  then have "dval (take (Suc k - lo) (drop (off + lo) r))
      = dval (take (k - lo) (drop (off + lo) r1)) + digitBase ^ (k - lo) * uint d"
    using step.prems fr(1) by (simp add: k(2) dval_snoc min_absorb2)
  moreover have "digitBase ^ (k - lo) * uint d + digitBase ^ (Suc k - lo) * cval c2
      = digitBase ^ (k - lo) * addend k (r0 ! (off + k)) + digitBase ^ (k - lo) * cval c1"
    using law by (metis distrib_left k(2) mult.assoc power_Suc2)
  moreover have "(\<Sum>i<Suc k - lo. digitBase ^ i * addend (lo + i) (r0 ! (off + lo + i)))
      = (\<Sum>i<k - lo. digitBase ^ i * addend (lo + i) (r0 ! (off + lo + i)))
        + digitBase ^ (k - lo) * addend k (r0 ! (off + k))"
    using k by simp
  ultimately show ?case
    using ih law out(2) by simp
qed

text \<open>The digits written so far, together with what is carried, after a loop without offset.\<close>

lemma loop_prefix:
  assumes "digitLoop 0 lo hi step (r0, c0) = (r, c)"
    and "cinv c0" and "lo \<le> hi" and "hi \<le> length r0"
  shows "dval (take hi r) + digitBase ^ hi * cval c
           = dval (take lo r0) + digitBase ^ lo * cval c0
             + digitBase ^ lo * (\<Sum>i<hi - lo. digitBase ^ i * addend (lo + i) (r0 ! (lo + i)))"
    and "cinv c"
proof -
  note fr = digitLoop_frame [OF assms(1,3)]
  have val: "dval (take (hi - lo) (drop lo r)) + digitBase ^ (hi - lo) * cval c
      = (\<Sum>i<hi - lo. digitBase ^ i * addend (lo + i) (r0 ! (lo + i))) + cval c0 \<and> cinv c"
    using loop_value [OF assms(1,2,3)] assms(4) by simp
  then show "cinv c" by simp
  have same: "take lo r = take lo r0"
    using fr assms(3,4) by (intro nth_equalityI) auto
  have "dval (take hi r) = dval (take lo r) + digitBase ^ lo * dval (take (hi - lo) (drop lo r))"
    using dval_take_add [of lo "hi - lo" r] assms(3,4) fr(1) by simp
  moreover have "digitBase ^ hi = digitBase ^ lo * digitBase ^ (hi - lo)"
    using assms(3) by (simp flip: power_add)
  ultimately have "dval (take hi r) + digitBase ^ hi * cval c = dval (take lo r0)
      + digitBase ^ lo * (dval (take (hi - lo) (drop lo r)) + digitBase ^ (hi - lo) * cval c)"
    by (simp add: same algebra_simps)
  also have "\<dots> = dval (take lo r0) + digitBase ^ lo
      * ((\<Sum>i<hi - lo. digitBase ^ i * addend (lo + i) (r0 ! (lo + i))) + cval c0)"
    using val by simp
  finally show "dval (take hi r) + digitBase ^ hi * cval c
           = dval (take lo r0) + digitBase ^ lo * cval c0
             + digitBase ^ lo * (\<Sum>i<hi - lo. digitBase ^ i * addend (lo + i) (r0 ! (lo + i)))"
    by (simp add: distrib_left)
qed

text \<open>
  What the loop changes in the whole number, for the operations that work in place: the digits
  outside the range of the loop stay as they were.
\<close>

lemma loop_change:
  assumes loop: "digitLoop off lo hi step (r0, c0) = (r, c)"
    and "cinv c0" and "lo \<le> hi" and len: "off + hi \<le> length r0"
  shows "dval r + digitBase ^ (off + hi) * cval c = dval r0 + digitBase ^ (off + lo)
           * ((\<Sum>i<hi - lo. digitBase ^ i * (addend (lo + i) (r0 ! (off + lo + i)) - uint (r0 ! (off + lo + i)))) + cval c0)"
proof -
  note fr = digitLoop_frame [OF loop assms(3)]
  have val: "dval (take (hi - lo) (drop (off + lo) r)) + digitBase ^ (hi - lo) * cval c
      = (\<Sum>i<hi - lo. digitBase ^ i * addend (lo + i) (r0 ! (off + lo + i))) + cval c0"
    using loop_value [OF loop assms(2-)] by simp
  have old: "(\<Sum>i<hi - lo. digitBase ^ i * uint (r0 ! (off + lo + i))) = dval (take (hi - lo) (drop (off + lo) r0))"
    using len assms(3) by (intro dval_sum) simp
  have pow: "digitBase ^ (off + hi) = digitBase ^ (off + lo) * digitBase ^ (hi - lo)"
    using assms(3) by (simp flip: power_add)
  have "dval r + digitBase ^ (off + hi) * cval c - dval r0 = digitBase ^ (off + lo)
      * (dval (take (hi - lo) (drop (off + lo) r)) + digitBase ^ (hi - lo) * cval c - dval (take (hi - lo) (drop (off + lo) r0)))"
    using dval_window [of r r0 "off + lo" "hi - lo"] fr len assms(3)
    unfolding pow by (simp add: distrib_left right_diff_distrib mult.assoc)
  then show ?thesis
    unfolding val by (simp add: right_diff_distrib distrib_left sum_subtractf old)
qed

end

end
