(* ===== verification/BigInt_Core.thy ===== *)
theory BigInt_Core
  imports Digits
begin

text \<open>
  The BigInt object of \<^verbatim>\<open>runtime/JSBigInt.h\<close>, its allocation and its conversions from machine
  integers: \<^verbatim>\<open>createWithLength\<close>, \<^verbatim>\<open>createZero\<close>, the integer overloads of \<^verbatim>\<open>createFrom\<close>,
  \<^verbatim>\<open>initialize\<close>, \<^verbatim>\<open>rightTrim\<close>, \<^verbatim>\<open>copy\<close>, \<^verbatim>\<open>unaryMinusImpl\<close>.

  The build has \<^verbatim>\<open>USE(BIGINT32)\<close> off (\<^verbatim>\<open>WTF/wtf/PlatformUse.h\<close>), so every BigInt value is a
  heap BigInt, \<^verbatim>\<open>ImplResult\<close> holds one, and \<^verbatim>\<open>tryConvertToBigInt32\<close> is the identity.
\<close>


section \<open>Errors and the environment\<close>

text \<open>
  \<open>NullResult\<close> is the null pointer a function returns without throwing when it was called
  without a global object. \<open>AssertionFailed\<close> is a failing \<^verbatim>\<open>ASSERT\<close>; the theorems show that it
  never happens. \<open>UndefinedBehaviour\<close> is an operation that the language leaves undefined.
\<close>

datatype js_error =
    OutOfMemoryError string
  | RangeError string
  | SyntaxError string
  | TypeError string
  | NullResult
  | AssertionFailed
  | UndefinedBehaviour

text \<open>
  What the code is given by the virtual machine: whether there is a global object to throw
  into, for which byte counts \<^verbatim>\<open>primitiveGigacageAuxiliarySpace().allocate\<close> returns storage,
  and what fresh storage contains before it is written.
\<close>

record js_env =
  hasGlobalObject :: bool
  allocates :: "nat \<Rightarrow> bool"
  freshDigit :: "nat \<Rightarrow> digit"

definition throwOutOfMemoryError :: "js_env \<Rightarrow> string \<Rightarrow> (js_error, 'a) result" where
  "throwOutOfMemoryError env message =
     Inl (if hasGlobalObject env then OutOfMemoryError message else NullResult)"

definition assertThat :: "bool \<Rightarrow> (js_error, unit) result" where
  "assertThat P = (if P then Inr () else Inl AssertionFailed)"

lemma assertThat_True [simp]: "P \<Longrightarrow> andThen (assertThat P) f = f ()"
  by (simp add: assertThat_def)


section \<open>The object\<close>

record jsBigInt =
  m_sign :: bool
  m_data :: "digit list"

definition maxLengthBits :: nat where
  "maxLengthBits = 1024 * 1024"

definition maxLength :: nat where
  "maxLength = maxLengthBits div digitBits"

definition maxInt :: nat where
  "maxInt = 0x7FFFFFFF"

abbreviation bigLength :: "jsBigInt \<Rightarrow> nat" where
  "bigLength x \<equiv> length (m_data x)"

text \<open>
  The accessors. Their debug assertions are not part of the model: that a zero has no sign (\<^verbatim>\<open>isZero\<close>) is a clause of \<open>canonical\<close> below, and
  \<open>digitAt\<close> and \<open>setDigit\<close> say nothing of an index out of range, so the theorems on the values of the results need the indices in range.
\<close>

definition isZero :: "jsBigInt \<Rightarrow> bool" where
  "isZero x = (bigLength x = 0)"

definition digitAt :: "jsBigInt \<Rightarrow> nat \<Rightarrow> digit" where
  "digitAt x n = m_data x ! n"

definition setDigit :: "jsBigInt \<Rightarrow> nat \<Rightarrow> digit \<Rightarrow> jsBigInt" where
  "setDigit x n v = x\<lparr>m_data := (m_data x)[n := v]\<rparr>"

definition setSign :: "jsBigInt \<Rightarrow> bool \<Rightarrow> jsBigInt" where
  "setSign x sign = x\<lparr>m_sign := sign\<rparr>"

definition createWithLength :: "js_env \<Rightarrow> nat \<Rightarrow> (js_error, jsBigInt) result" where
  "createWithLength env len =
     (if len > maxLength
      then throwOutOfMemoryError env ''BigInt generated from this operation is too big''
      else if \<not> allocates env (len * 8)
      then throwOutOfMemoryError env ''''
      else Inr \<lparr>m_sign = False, m_data = map (freshDigit env) [0..<len]\<rparr>)"

definition createZero :: "js_env \<Rightarrow> (js_error, jsBigInt) result" where
  "createZero env = createWithLength env 0"

definition zeroImpl :: "js_env \<Rightarrow> (js_error, jsBigInt) result" where
  "zeroImpl env = createZero env"

definition initializeWithZero :: "jsBigInt \<Rightarrow> jsBigInt" where
  "initializeWithZero x = x\<lparr>m_data := replicate (bigLength x) 0\<rparr>"

text \<open>
  \<^verbatim>\<open>int nonZeroIndex = m_length - 1; while (nonZeroIndex >= 0 && !digit(nonZeroIndex)) nonZeroIndex--;\<close>
  counted one higher, as the number of digits left.
\<close>

fun significantDigits :: "digit list \<Rightarrow> nat \<Rightarrow> nat" where
  "significantDigits ds 0 = 0"
| "significantDigits ds (Suc n) = (if ds ! n = 0 then significantDigits ds n else Suc n)"

definition rightTrim :: "js_env \<Rightarrow> jsBigInt \<Rightarrow> (js_error, jsBigInt) result" where
  "rightTrim env x =
     (if isZero x then andThen (assertThat (\<not> m_sign x)) (\<lambda>_. Inr x)
      else let newLength = significantDigits (m_data x) (bigLength x)
        in if newLength = 0 then createZero env
           else if newLength = bigLength x then Inr x
           else andThen (createWithLength env newLength) (\<lambda>trimmed.
             Inr (setSign (trimmed\<lparr>m_data := take newLength (m_data x)\<rparr>) (m_sign x))))"


section \<open>Conversions from machine integers\<close>

definition createFromInt32 :: "js_env \<Rightarrow> 32 word \<Rightarrow> (js_error, jsBigInt) result" where
  "createFromInt32 env value =
     (if value = 0 then createZero env
      else andThen (createWithLength env 1) (\<lambda>bigInt.
        if sint value < 0
        then Inr (setSign (setDigit bigInt 0 (- 1 * scast value)) True)
        else Inr (setDigit bigInt 0 (scast value))))"

definition createFromUint32 :: "js_env \<Rightarrow> 32 word \<Rightarrow> (js_error, jsBigInt) result" where
  "createFromUint32 env value =
     (if value = 0 then createZero env
      else andThen (createWithLength env 1) (\<lambda>bigInt. Inr (setDigit bigInt 0 (ucast value))))"

text \<open>A digit has eight bytes, so the two-digit path of \<^verbatim>\<open>createFromImpl\<close> is never taken.\<close>

definition createFromImpl :: "js_env \<Rightarrow> 64 word \<Rightarrow> bool \<Rightarrow> (js_error, jsBigInt) result" where
  "createFromImpl env value sign =
     (if value = 0 then createZero env
      else andThen (createWithLength env 1) (\<lambda>bigInt. Inr (setSign (setDigit bigInt 0 value) sign)))"

definition createFromUint64 :: "js_env \<Rightarrow> 64 word \<Rightarrow> (js_error, jsBigInt) result" where
  "createFromUint64 env value = createFromImpl env value False"

definition createFromInt64 :: "js_env \<Rightarrow> 64 word \<Rightarrow> (js_error, jsBigInt) result" where
  "createFromInt64 env value =
     (let (unsignedValue, sign) = (if sint value < 0 then (- (value + 1) + 1, True) else (value, False))
      in createFromImpl env unsignedValue sign)"

definition createFromInt128 :: "js_env \<Rightarrow> 128 word \<Rightarrow> (js_error, jsBigInt) result" where
  "createFromInt128 env value =
     (if value = 0 then createZero env
      else let (unsignedValue, sign) = (if sint value < 0 then (- (value + 1) + 1, True) else (value, False))
        in if unsignedValue \<le> 0xFFFFFFFFFFFFFFFF then createFromImpl env (ucast unsignedValue) sign
           else andThen (createWithLength env 2) (\<lambda>bigInt.
             let lowBits = ucast unsignedValue; highBits = ucast (drop_bit 64 unsignedValue)
             in andThen (assertThat (highBits \<noteq> 0)) (\<lambda>_.
               Inr (setSign (setDigit (setDigit bigInt 0 lowBits) 1 highBits) sign))))"

definition createFromBool :: "js_env \<Rightarrow> bool \<Rightarrow> (js_error, jsBigInt) result" where
  "createFromBool env value =
     (if \<not> value then createZero env
      else andThen (createWithLength env 1) (\<lambda>bigInt. Inr (setDigit bigInt 0 (of_bool value))))"

definition copyBigInt :: "js_env \<Rightarrow> jsBigInt \<Rightarrow> (js_error, jsBigInt) result" where
  "copyBigInt env x =
     andThen (assertThat (\<not> isZero x)) (\<lambda>_.
     andThen (createWithLength env (bigLength x)) (\<lambda>result.
       Inr (setSign (for_up 0 (bigLength result) (\<lambda>i r. setDigit r i (digitAt x i)) result) (m_sign x))))"

definition unaryMinusImpl :: "js_env \<Rightarrow> jsBigInt \<Rightarrow> (js_error, jsBigInt) result" where
  "unaryMinusImpl env x =
     (if isZero x then zeroImpl env
      else andThen (copyBigInt env x) (\<lambda>result. Inr (setSign result (\<not> m_sign x))))"



section \<open>Canonical BigInts and what they denote\<close>

definition bval :: "jsBigInt \<Rightarrow> int" where
  "bval x = (if m_sign x then - dval (m_data x) else dval (m_data x))"

text \<open>
  The invariant of every BigInt the program can see: no leading zero digit, no negative zero,
  at most \<^verbatim>\<open>maxLength\<close> digits.
\<close>

definition canonical :: "jsBigInt \<Rightarrow> bool" where
  "canonical x \<longleftrightarrow> (m_data x \<noteq> [] \<longrightarrow> last (m_data x) \<noteq> 0) \<and> (m_data x = [] \<longrightarrow> \<not> m_sign x)
     \<and> bigLength x \<le> maxLength"

definition represents :: "jsBigInt \<Rightarrow> int \<Rightarrow> bool" where
  "represents x v \<longleftrightarrow> canonical x \<and> bval x = v"

definition grants :: "js_env \<Rightarrow> nat \<Rightarrow> bool" where
  "grants env n \<longleftrightarrow> n \<le> maxLength \<and> allocates env (n * 8)"

definition outOfMemory :: "js_env \<Rightarrow> js_error \<Rightarrow> bool" where
  "outOfMemory env e \<longleftrightarrow> (if hasGlobalObject env then \<exists>message. e = OutOfMemoryError message else e = NullResult)"

text \<open>
  \<open>oom env L e\<close>: the error is an out-of-memory error, and it has a cause: a BigInt of at most
  \<open>L\<close> digits that is too long or that the allocator refuses.
\<close>

definition oom :: "js_env \<Rightarrow> nat \<Rightarrow> js_error \<Rightarrow> bool" where
  "oom env L e \<longleftrightarrow> outOfMemory env e \<and> (\<exists>n \<le> L. \<not> grants env n)"

text \<open>
  The contract of an operation: it returns the canonical BigInt of value \<open>v\<close>, or it fails
  because a BigInt of at most \<open>L\<close> digits cannot be had. In particular it returns the value
  whenever the allocator grants every length up to \<open>L\<close>.
\<close>

definition computes :: "js_env \<Rightarrow> nat \<Rightarrow> (js_error, jsBigInt) result \<Rightarrow> int \<Rightarrow> bool" where
  "computes env L res v = outcome (oom env L) (\<lambda>r. represents r v) res"

lemma oom_mono: "oom env L e \<Longrightarrow> L \<le> L' \<Longrightarrow> oom env L' e"
  by (auto simp: oom_def intro: le_trans)

lemma computes_mono: "computes env L res v \<Longrightarrow> L \<le> L' \<Longrightarrow> computes env L' res v"
  unfolding computes_def by (erule outcome_mono) (auto intro: oom_mono)

lemma computes_Inr [simp]: "computes env L (Inr r) v = represents r v"
  by (simp add: computes_def)

lemma computes_Inl [simp]: "computes env L (Inl e) v = oom env L e"
  by (simp add: computes_def)

lemma computes_total:
  assumes "computes env L res v" and "\<And>n. n \<le> L \<Longrightarrow> grants env n"
  shows "\<exists>r. res = Inr r \<and> represents r v"
  using assms unfolding computes_def by (rule_tac outcome_no_error) (auto simp: oom_def)

lemma maxLength_eq: "maxLength = 16384"
  by (simp add: maxLength_def maxLengthBits_def digitBits_def)

lemma bval_zero [simp]: "m_data x = [] \<Longrightarrow> bval x = 0"
  by (simp add: bval_def)

lemma bval_setSign [simp]: "bval (setSign x s) = (if s then - dval (m_data x) else dval (m_data x))"
  by (simp add: bval_def setSign_def)

lemma setters [simp]:
  "m_sign (setSign x s) = s" "m_data (setSign x s) = m_data x"
  "m_sign (setDigit x n v) = m_sign x" "m_data (setDigit x n v) = (m_data x)[n := v]"
  "m_sign (initializeWithZero x) = m_sign x" "m_data (initializeWithZero x) = replicate (bigLength x) 0"
  by (simp_all add: setSign_def setDigit_def initializeWithZero_def)

lemma canonical_setSign: "canonical x \<Longrightarrow> \<not> isZero x \<or> \<not> s \<Longrightarrow> canonical (setSign x s)"
  by (auto simp: canonical_def isZero_def)

lemma abs_bval: "\<bar>bval x\<bar> = dval (m_data x)"
  by (simp add: bval_def)

text \<open>In a canonical BigInt the most significant digit gives a lower bound.\<close>

lemma dval_lower:
  assumes "ds \<noteq> []" and "last ds \<noteq> 0"
  shows "digitBase ^ (length ds - 1) \<le> dval ds"
proof -
  have "1 \<le> uint (last ds)" using assms(2) by (rule uint_ge_1)
  then have "digitBase ^ (length ds - 1) * 1 \<le> digitBase ^ (length ds - 1) * uint (last ds)"
    by (intro mult_left_mono) auto
  then show ?thesis using dval_split_last [OF assms(1)] dval_nonneg [of "butlast ds"] by linarith
qed

lemma dval_pos:
  assumes "ds \<noteq> []" and "last ds \<noteq> 0"
  shows "0 < dval ds" "dval ds \<noteq> 0"
  using dval_lower [OF assms] digitBase_power_pos(1) [of "length ds - 1"] by linarith+

lemma canonical_dval_pos: "canonical x \<Longrightarrow> \<not> isZero x \<Longrightarrow> 0 < dval (m_data x)"
  by (auto simp: canonical_def isZero_def intro: dval_pos)

lemma canonical_bval_0: "canonical x \<Longrightarrow> bval x = 0 \<longleftrightarrow> isZero x"
  using canonical_dval_pos [of x] by (cases "isZero x") (auto simp: bval_def isZero_def)

lemma canonical_sign: "canonical x \<Longrightarrow> m_sign x \<longleftrightarrow> bval x < 0"
  using canonical_dval_pos [of x] dval_nonneg [of "m_data x"]
  by (cases "isZero x") (auto simp: canonical_def bval_def isZero_def)

text \<open>A value has only one canonical BigInt.\<close>

lemma canonical_digits_unique:
  assumes "xs \<noteq> [] \<longrightarrow> last xs \<noteq> 0" and "ys \<noteq> [] \<longrightarrow> last ys \<noteq> 0" and "dval xs = dval ys"
  shows "xs = ys"
proof -
  have shorter: False if lt: "length as < length bs" and b: "bs \<noteq> [] \<longrightarrow> last bs \<noteq> 0" and eq: "dval as = dval bs" for as bs
  proof -
    have "dval as < digitBase ^ length as" by (rule dval_bound)
    also have "\<dots> \<le> digitBase ^ (length bs - 1)" using lt by (intro power_increasing) auto
    also have "\<dots> \<le> dval bs" using lt b by (intro dval_lower) auto
    finally show False using eq by simp
  qed
  from shorter [of xs ys] shorter [of ys xs] assms have "length xs = length ys"
    by (metis linorder_neqE_nat)
  then show ?thesis using assms(3) by (rule dval_inj)
qed

lemma canonical_unique:
  assumes "canonical x" and "canonical y" and "bval x = bval y"
  shows "x = y"
proof -
  have "m_sign x = m_sign y" using assms by (simp add: canonical_sign)
  moreover have "m_data x = m_data y"
    using assms \<open>m_sign x = m_sign y\<close>
    by (intro canonical_digits_unique) (auto simp: canonical_def bval_def split: if_splits)
  ultimately show ?thesis by simp
qed



section \<open>Allocation and trimming\<close>

text \<open>Sequencing: each step may need at most the memory the whole operation may need.\<close>

lemma oom_andThen:
  assumes "outcome (oom env L) P r" and "L \<le> L'" and "\<And>a. P a \<Longrightarrow> outcome (oom env L') Q (f a)"
  shows "outcome (oom env L') Q (andThen r f)"
  using assms(1) by (rule outcome_andThenE) (use assms(2,3) in \<open>auto intro: oom_mono\<close>)

lemma computes_andThen:
  assumes "outcome (oom env L) P r" and "L \<le> L'" and "\<And>a. P a \<Longrightarrow> computes env L' (f a) v"
  shows "computes env L' (andThen r f) v"
  unfolding computes_def
  by (rule oom_andThen [OF assms(1,2)]) (use assms(3) in \<open>simp add: computes_def\<close>)

definition fresh :: "nat \<Rightarrow> jsBigInt \<Rightarrow> bool" where
  "fresh n x \<longleftrightarrow> bigLength x = n \<and> n \<le> maxLength \<and> \<not> m_sign x"

lemma throwOutOfMemoryError_outcome: "n \<le> L \<Longrightarrow> \<not> grants env n \<Longrightarrow> outcome (oom env L) Q (throwOutOfMemoryError env message)"
  by (auto simp: throwOutOfMemoryError_def oom_def outOfMemory_def)

lemma createWithLength_outcome [outcome_intros]: "outcome (oom env n) (fresh n) (createWithLength env n)"
proof -
  have "\<not> grants env n" if "maxLength < n \<or> \<not> allocates env (n * 8)"
    using that by (auto simp: grants_def)
  then show ?thesis
    by (auto simp: createWithLength_def fresh_def intro: throwOutOfMemoryError_outcome)
qed

lemma createZero_computes [outcome_intros]: "computes env L (createZero env) 0"
  unfolding createZero_def computes_def
  using createWithLength_outcome [of env 0]
  by (rule outcome_mono) (auto simp: fresh_def represents_def canonical_def intro: oom_mono)

lemma significantDigits_le: "significantDigits ds n \<le> n"
  by (induction n) auto

lemma significantDigits_dval: "n \<le> length ds \<Longrightarrow> dval (take (significantDigits ds n) ds) = dval (take n ds)"
  by (induction n) (auto simp: dval_take_Suc)

lemma significantDigits_last: "n \<le> length ds \<Longrightarrow> significantDigits ds n \<noteq> 0 \<Longrightarrow> last (take (significantDigits ds n) ds) \<noteq> 0"
  by (induction n) (auto simp: take_Suc_conv_app_nth)

lemma rightTrim_computes [outcome_intros]:
  assumes "bigLength x \<le> maxLength" and "bigLength x = 0 \<Longrightarrow> \<not> m_sign x" and "bval x = v" and "bigLength x \<le> L"
  shows "computes env L (rightTrim env x) v"
proof (cases "isZero x")
  case True
  then show ?thesis using assms by (simp add: rightTrim_def represents_def canonical_def isZero_def)
next
  case False
  define n where "n = significantDigits (m_data x) (bigLength x)"
  have n: "n \<le> bigLength x" "dval (take n (m_data x)) = dval (m_data x)" "n \<noteq> 0 \<Longrightarrow> last (take n (m_data x)) \<noteq> 0"
    using significantDigits_le [of "m_data x" "bigLength x"] significantDigits_dval [of "bigLength x" "m_data x"]
      significantDigits_last [of "bigLength x" "m_data x"] by (simp_all add: n_def)
  consider "n = 0" | "n = bigLength x" "n \<noteq> 0" | "n \<noteq> bigLength x" "n \<noteq> 0" by blast
  then show ?thesis
  proof cases
    case 1
    then have "v = 0" using n(2) assms(3) by (auto simp: bval_def)
    then show ?thesis using 1 False by (simp add: rightTrim_def createZero_computes flip: n_def)
  next
    case 2
    then have "canonical x" using n(3) assms by (auto simp: canonical_def)
    then show ?thesis using 2 False assms by (simp add: rightTrim_def represents_def flip: n_def)
  next
    case 3
    have "computes env L (andThen (createWithLength env n) (\<lambda>trimmed.
        Inr (setSign (trimmed\<lparr>m_data := take n (m_data x)\<rparr>) (m_sign x)))) v"
      by (rule computes_andThen [OF createWithLength_outcome])
        (use 3 n assms in \<open>auto simp: represents_def canonical_def bval_def\<close>)
    then show ?thesis using 3 False by (simp add: rightTrim_def flip: n_def)
  qed
qed

text \<open>A BigInt that fits its storage; what is trimmed at the end of an operation.\<close>

lemma rightTrim_setSign [outcome_intros]:
  assumes "fresh n x" and "bigLength y = n" and "n \<noteq> 0" and "n \<le> L"
    and "v = (if s then - dval (m_data y) else dval (m_data y))"
  shows "computes env L (rightTrim env (setSign y s)) v"
  using assms by (intro rightTrim_computes) (auto simp: fresh_def)


section \<open>Conversions from machine integers denote the integer\<close>

lemma list_single: "length xs = Suc 0 \<Longrightarrow> xs[0 := a] = [a]"
  by (cases xs) auto

lemma one_digit_represents:
  assumes "fresh 1 x" and "d \<noteq> 0" and "v = (if s then - uint d else uint d)"
  shows "represents (setSign (setDigit x 0 d) s) v"
  using assms by (auto simp: represents_def canonical_def fresh_def list_single)

lemma one_digit_positive:
  assumes "fresh 1 x" and "d \<noteq> 0"
  shows "represents (setDigit x 0 d) (uint d)"
  using assms by (auto simp: represents_def canonical_def fresh_def list_single bval_def)

lemma createFromInt32_computes [outcome_intros]: "computes env 1 (createFromInt32 env w) (sint w)"
proof (cases "w = 0")
  case True
  then show ?thesis by (simp add: createFromInt32_def createZero_computes)
next
  case False
  have rng: "- 2147483648 \<le> sint w" "sint w < 2147483648" using sint_range [of w] by simp_all
  have ne: "sint w \<noteq> 0" using False by (simp add: sint_eq_0_iff)
  have wide: "uint (scast w :: digit) = sint w mod 2 ^ 64" by (simp add: uint_scast)
  show ?thesis
  proof (cases "sint w < 0")
    case neg: True
    have "uint (- scast w :: digit) = (- sint w) mod 2 ^ 64"
      by (simp add: uint_word_ariths wide mod_minus_eq)
    also have "\<dots> = - sint w" using neg rng by simp
    finally have u: "uint (- scast w :: digit) = - sint w" .
    then have "(- scast w :: digit) \<noteq> 0" using ne by (metis neg_equal_0_iff_equal unsigned_0)
    with False neg u show ?thesis
      unfolding createFromInt32_def
      by (auto intro!: computes_andThen [OF createWithLength_outcome] one_digit_represents)
  next
    case nneg: False
    then have u: "uint (scast w :: digit) = sint w" using rng by (simp add: wide)
    then have "(scast w :: digit) \<noteq> 0" using ne by (metis unsigned_0)
    with False nneg u one_digit_positive show ?thesis
      unfolding createFromInt32_def
      by (fastforce intro!: computes_andThen [OF createWithLength_outcome])
  qed
qed


lemma createFromUint32_computes [outcome_intros]: "computes env 1 (createFromUint32 env w) (uint w)"
proof -
  have u: "uint (ucast w :: digit) = uint w"
    using uint_lt2p [of w] by (simp add: uint_ucast)
  then have "w \<noteq> 0 \<Longrightarrow> (ucast w :: digit) \<noteq> 0" by (metis uint_0_iff)
  then show ?thesis
    unfolding createFromUint32_def
    using u one_digit_positive [where d = "ucast w"]
    by (auto intro!: createZero_computes computes_andThen [OF createWithLength_outcome])
qed

lemma createFromImpl_computes [outcome_intros]:
  "computes env 1 (createFromImpl env w s) (if s then - uint w else uint w)"
  unfolding createFromImpl_def
  by (auto intro!: createZero_computes computes_andThen [OF createWithLength_outcome] one_digit_represents)

lemma createFromUint64_computes [outcome_intros]: "computes env 1 (createFromUint64 env w) (uint w)"
  using createFromImpl_computes [of env w False] by (simp add: createFromUint64_def)

lemma createFromInt64_computes [outcome_intros]: "computes env 1 (createFromInt64 env w) (sint w)"
  using createFromImpl_computes [of env "- w" True] createFromImpl_computes [of env w False]
  by (auto simp: createFromInt64_def uint_negate uint_sint_nonneg not_less)

lemma createFromBool_computes [outcome_intros]: "computes env 1 (createFromBool env b) (of_bool b)"
  using one_digit_positive [where d = 1]
  by (auto simp: createFromBool_def intro!: createZero_computes computes_andThen [OF createWithLength_outcome])

lemma createFromInt128_computes [outcome_intros]: "computes env 2 (createFromInt128 env w) (sint w)"
proof (cases "w = 0")
  case True
  then show ?thesis by (simp add: createFromInt128_def createZero_computes)
next
  case False
  define s where "s = (sint w < 0)"
  define u where "u = (if s then - w else w)"
  have val: "sint w = (if s then - uint u else uint u)"
    by (auto simp: s_def u_def uint_negate uint_sint_nonneg)
  have def: "createFromInt128 env w =
     (if u \<le> 0xFFFFFFFFFFFFFFFF then createFromImpl env (ucast u) s
      else andThen (createWithLength env 2) (\<lambda>bigInt.
        andThen (assertThat ((ucast (drop_bit 64 u) :: digit) \<noteq> 0)) (\<lambda>_.
          Inr (setSign (setDigit (setDigit bigInt 0 (ucast u)) 1 (ucast (drop_bit 64 u))) s))))"
    using False by (simp add: createFromInt128_def u_def s_def Let_def)
  have low: "uint (ucast u :: digit) = uint u mod digitBase"
    by (simp add: uint_ucast digitBase_num)
  have high: "uint (ucast (drop_bit 64 u) :: digit) = uint u div digitBase"
  proof -
    have "uint u div 18446744073709551616 < 18446744073709551616"
      using uint_lt2p [of u] by (simp add: div_less_iff_less_mult)
    then show ?thesis by (simp add: uint_ucast uint_drop_bit digitBase_num pos_imp_zdiv_nonneg_iff)
  qed
  show ?thesis
  proof (cases "u \<le> 0xFFFFFFFFFFFFFFFF")
    case True
    then have "uint (ucast u :: digit) = uint u" by (simp add: low word_le_def digitBase_num)
    then show ?thesis
      using True val createFromImpl_computes [of env "ucast u" s] by (auto simp: def intro: computes_mono)
  next
    case big: False
    then have "digitBase \<le> uint u" by (simp add: word_le_def digitBase_num)
    then have "1 \<le> uint u div digitBase"
      using zdiv_mono1 [of digitBase "uint u" digitBase] by simp
    then have nz: "(ucast (drop_bit 64 u) :: digit) \<noteq> 0" using high by (metis unsigned_0 not_one_le_zero)
    have two: "xs[0 := a, Suc 0 := b] = [a, b]" if "length xs = 2" for xs and a b :: digit
      using that by (cases xs; cases "tl xs") auto
    have "dval [ucast u, ucast (drop_bit 64 u)] = uint u" by (simp add: low high)
    then show ?thesis
      using big nz val unfolding def
      by (auto intro!: computes_andThen [OF createWithLength_outcome]
          simp: represents_def canonical_def fresh_def two)
  qed
qed

text \<open>A loop that writes one digit after the other.\<close>

lemma write_loop:
  assumes "lo \<le> hi" and "hi \<le> bigLength r"
  shows "for_up lo hi (\<lambda>i r. setDigit r i (f i)) r
    = r\<lparr>m_data := take lo (m_data r) @ map f [lo..<hi] @ drop hi (m_data r)\<rparr>"
proof -
  let ?I = "\<lambda>i t. t = r\<lparr>m_data := take lo (m_data r) @ map f [lo..<i] @ drop i (m_data r)\<rparr>"
  show "?I hi (for_up lo hi (\<lambda>i r. setDigit r i (f i)) r)"
  proof (rule for_up_inv [where I = ?I])
    fix i t assume "lo \<le> i" and "i < hi" and "?I i t"
    then show "?I (Suc i) (setDigit t i (f i))"
      using assms by (simp add: setDigit_def list_update_append Cons_nth_drop_Suc [symmetric])
  qed (use assms in simp_all)
qed

lemma copy_loop:
  assumes "n \<le> bigLength r" and "n \<le> bigLength x"
  shows "for_up 0 n (\<lambda>i r. setDigit r i (digitAt x i)) r = r\<lparr>m_data := take n (m_data x) @ drop n (m_data r)\<rparr>"
proof -
  have "map (digitAt x) [0..<n] = take n (m_data x)"
    using assms(2) by (intro nth_equalityI) (auto simp: digitAt_def)
  then show ?thesis using write_loop [of 0 n r "digitAt x"] assms(1) by simp
qed

lemma copyBigInt_outcome [outcome_intros]:
  assumes "\<not> isZero x"
  shows "outcome (oom env (bigLength x)) (\<lambda>r. r = x) (copyBigInt env x)"
  unfolding copyBigInt_def
  using assms
  by (auto intro!: oom_andThen [OF createWithLength_outcome] simp: copy_loop fresh_def setSign_def)

lemma unaryMinusImpl_computes [outcome_intros]:
  assumes "canonical x"
  shows "computes env (bigLength x) (unaryMinusImpl env x) (- bval x)"
proof (cases "isZero x")
  case True
  then show ?thesis
    by (simp add: unaryMinusImpl_def zeroImpl_def createZero_computes isZero_def)
next
  case False
  then show ?thesis
    using assms unfolding unaryMinusImpl_def
    by (auto intro!: computes_andThen [OF copyBigInt_outcome] canonical_setSign simp: represents_def bval_def)
qed


section \<open>A heap with room\<close>

text \<open>
  An environment for the worked examples: a global object, and an allocator that grants every
  request. There an operation that meets its contract returns the canonical BigInt itself.
\<close>

definition roomyHeap :: js_env where
  "roomyHeap = \<lparr>hasGlobalObject = True, allocates = (\<lambda>_. True), freshDigit = (\<lambda>_. 0)\<rparr>"

lemma roomyHeap_result:
  assumes "computes roomyHeap L res v" and "L \<le> maxLength" and "represents w v"
  shows "res = Inr w"
proof -
  have "grants roomyHeap n" if "n \<le> L" for n
    using that assms(2) by (simp add: grants_def roomyHeap_def)
  then obtain r where "res = Inr r" "represents r v" using computes_total [OF assms(1)] by blast
  then show ?thesis using assms(3) canonical_unique [of r w] by (simp add: represents_def)
qed

abbreviation posBig :: "digit list \<Rightarrow> jsBigInt" where
  "posBig ds \<equiv> \<lparr>m_sign = False, m_data = ds\<rparr>"

abbreviation negBig :: "digit list \<Rightarrow> jsBigInt" where
  "negBig ds \<equiv> \<lparr>m_sign = True, m_data = ds\<rparr>"

lemmas example_simps = represents_def canonical_def maxLength_eq bval_def digitBase_num

end
