(* ===== verification/BigInt_Compare.thy ===== *)
theory BigInt_Compare
  imports BigInt_Core
begin

text \<open>
  Comparison of BigInts: \<^verbatim>\<open>absoluteCompare\<close>, \<^verbatim>\<open>compareImpl\<close> and the \<^verbatim>\<open>compare\<close> overloads,
  \<^verbatim>\<open>equals\<close> and \<^verbatim>\<open>equalsToInt32\<close> of \<^verbatim>\<open>runtime/JSBigInt.cpp\<close>.

  \<^verbatim>\<open>compareImpl\<close> is a template over \<^verbatim>\<open>HeapBigIntImpl\<close> and \<^verbatim>\<open>Int32BigIntImpl\<close>, two views with
  the same interface; the datatype \<open>bigIntImpl\<close> has one constructor for each.
\<close>

datatype ComparisonResult = Equal | Undefined | GreaterThan | LessThan

datatype bigIntImpl = HeapBigIntImpl jsBigInt | Int32BigIntImpl "32 word"

fun implIsZero :: "bigIntImpl \<Rightarrow> bool" where
  "implIsZero (HeapBigIntImpl x) = isZero x"
| "implIsZero (Int32BigIntImpl m_value) = (m_value = 0)"

fun implSign :: "bigIntImpl \<Rightarrow> bool" where
  "implSign (HeapBigIntImpl x) = m_sign x"
| "implSign (Int32BigIntImpl m_value) = (sint m_value < 0)"

fun implLength :: "bigIntImpl \<Rightarrow> nat" where
  "implLength (HeapBigIntImpl x) = bigLength x"
| "implLength (Int32BigIntImpl m_value) = (if m_value = 0 then 0 else 1)"

fun implDigit :: "bigIntImpl \<Rightarrow> nat \<Rightarrow> digit" where
  "implDigit (HeapBigIntImpl x) i = digitAt x i"
| "implDigit (Int32BigIntImpl m_value) i = (if sint m_value < 0 then - scast m_value else scast m_value)"

fun implToHeapBigInt :: "js_env \<Rightarrow> bigIntImpl \<Rightarrow> (js_error, jsBigInt) result" where
  "implToHeapBigInt env (HeapBigIntImpl x) = Inr x"
| "implToHeapBigInt env (Int32BigIntImpl m_value) = createFromInt32 env m_value"

text \<open>
  \<^verbatim>\<open>while (i >= 0 && x.digit(i) == y.digit(i)) i--;\<close> and the comparison after it, with the index
  counted one higher.
\<close>

fun compareDigits :: "bigIntImpl \<Rightarrow> bigIntImpl \<Rightarrow> nat \<Rightarrow> ComparisonResult" where
  "compareDigits x y 0 = Equal"
| "compareDigits x y (Suc i) =
     (if implDigit x i = implDigit y i then compareDigits x y i
      else if implDigit x i > implDigit y i then GreaterThan else LessThan)"

text \<open>
  The assertions that the most significant digits are not zero hold of canonical objects, for which \<open>absoluteCompare\<close> is shown to be right.
\<close>

definition absoluteCompare :: "bigIntImpl \<Rightarrow> bigIntImpl \<Rightarrow> ComparisonResult" where
  "absoluteCompare x y =
     (let diff = int (implLength x) - int (implLength y)
      in if diff \<noteq> 0 then (if diff < 0 then LessThan else GreaterThan)
         else compareDigits x y (implLength x))"

definition compareImpl :: "bigIntImpl \<Rightarrow> bigIntImpl \<Rightarrow> ComparisonResult" where
  "compareImpl x y =
     (let xSign = implSign x
      in if xSign \<noteq> implSign y then (if xSign then LessThan else GreaterThan)
         else let result = absoluteCompare x y
           in if result = GreaterThan then (if xSign then LessThan else GreaterThan)
              else if result = LessThan then (if xSign then GreaterThan else LessThan)
              else Equal)"

definition compare :: "jsBigInt \<Rightarrow> jsBigInt \<Rightarrow> ComparisonResult" where
  "compare x y = compareImpl (HeapBigIntImpl x) (HeapBigIntImpl y)"

definition compareInt32BigInt :: "32 word \<Rightarrow> jsBigInt \<Rightarrow> ComparisonResult" where
  "compareInt32BigInt x y = compareImpl (Int32BigIntImpl x) (HeapBigIntImpl y)"

definition compareBigIntInt32 :: "jsBigInt \<Rightarrow> 32 word \<Rightarrow> ComparisonResult" where
  "compareBigIntInt32 x y = compareImpl (HeapBigIntImpl x) (Int32BigIntImpl y)"

definition compareInt32Int32 :: "32 word \<Rightarrow> 32 word \<Rightarrow> ComparisonResult" where
  "compareInt32Int32 x y = (if x = y then Equal else if sint x < sint y then LessThan else GreaterThan)"

fun invertBigIntCompareResult :: "ComparisonResult \<Rightarrow> ComparisonResult" where
  "invertBigIntCompareResult GreaterThan = LessThan"
| "invertBigIntCompareResult LessThan = GreaterThan"
| "invertBigIntCompareResult r = r"

fun equalDigits :: "jsBigInt \<Rightarrow> jsBigInt \<Rightarrow> nat list \<Rightarrow> bool" where
  "equalDigits x y [] = True"
| "equalDigits x y (i # is) = (if digitAt x i \<noteq> digitAt y i then False else equalDigits x y is)"

definition equals :: "jsBigInt \<Rightarrow> jsBigInt \<Rightarrow> bool" where
  "equals x y =
     (if m_sign x \<noteq> m_sign y then False
      else if bigLength x \<noteq> bigLength y then False
      else equalDigits x y [0..<bigLength x])"

definition equalsToInt32 :: "jsBigInt \<Rightarrow> 32 word \<Rightarrow> bool" where
  "equalsToInt32 x w =
     (if w = 0 then isZero x
      else bigLength x = 1 \<and> m_sign x = (sint w < 0) \<and> digitAt x 0 = word_of_int \<bar>sint w\<bar>)"


section \<open>Comparison is comparison of the values\<close>

text \<open>The outcome a comparison of two integers should have.\<close>

definition comparison :: "int \<Rightarrow> int \<Rightarrow> ComparisonResult" where
  "comparison a b = (if a = b then Equal else if a < b then LessThan else GreaterThan)"

definition implDigits :: "bigIntImpl \<Rightarrow> digit list" where
  "implDigits x = map (implDigit x) [0..<implLength x]"

definition implVal :: "bigIntImpl \<Rightarrow> int" where
  "implVal x = (case x of HeapBigIntImpl b \<Rightarrow> bval b | Int32BigIntImpl w \<Rightarrow> sint w)"

definition implValid :: "bigIntImpl \<Rightarrow> bool" where
  "implValid x = (case x of HeapBigIntImpl b \<Rightarrow> canonical b | Int32BigIntImpl w \<Rightarrow> True)"

lemma uint_scast_abs:
  fixes w :: "32 word"
  shows "sint w < 0 \<Longrightarrow> uint (- scast w :: digit) = - sint w"
    and "0 \<le> sint w \<Longrightarrow> uint (scast w :: digit) = sint w"
proof -
  have rng: "- 2147483648 \<le> sint w" "sint w < 2147483648" using sint_range [of w] by simp_all
  show "sint w < 0 \<Longrightarrow> uint (- scast w :: digit) = - sint w"
    using rng by (simp add: uint_word_ariths uint_scast mod_minus_eq)
  show "0 \<le> sint w \<Longrightarrow> uint (scast w :: digit) = sint w"
    using rng by (simp add: uint_scast)
qed

text \<open>Both views are a sign and a list of digits with no leading zero.\<close>

lemma implDigits_Heap [simp]: "implDigits (HeapBigIntImpl b) = m_data b"
  by (rule nth_equalityI) (simp_all add: implDigits_def digitAt_def)

lemma impl_view:
  assumes "implValid x"
  shows "implDigits x \<noteq> [] \<longrightarrow> last (implDigits x) \<noteq> 0"
    and "implVal x = (if implSign x then - dval (implDigits x) else dval (implDigits x))"
    and "implDigits x = [] \<longrightarrow> \<not> implSign x"
    and "length (implDigits x) = implLength x"
    and "i < implLength x \<Longrightarrow> implDigit x i = implDigits x ! i"
proof -
  show len: "length (implDigits x) = implLength x" by (simp add: implDigits_def)
  show "i < implLength x \<Longrightarrow> implDigit x i = implDigits x ! i" by (simp add: implDigits_def)
  have "(implDigits x \<noteq> [] \<longrightarrow> last (implDigits x) \<noteq> 0)
      \<and> implVal x = (if implSign x then - dval (implDigits x) else dval (implDigits x))
      \<and> (implDigits x = [] \<longrightarrow> \<not> implSign x)"
  proof (cases x)
    case (HeapBigIntImpl b)
    then show ?thesis using assms by (simp add: implValid_def canonical_def implVal_def bval_def)
  next
    case (Int32BigIntImpl w)
    then show ?thesis
      using uint_scast_abs [of w] sint_eq_0_iff [of w]
      by (cases "sint w < 0"; cases "w = 0") (auto simp: implDigits_def implVal_def)
  qed
  then show "implDigits x \<noteq> [] \<longrightarrow> last (implDigits x) \<noteq> 0"
    and "implVal x = (if implSign x then - dval (implDigits x) else dval (implDigits x))"
    and "implDigits x = [] \<longrightarrow> \<not> implSign x" by simp_all
qed

lemma implSign_iff: "implValid x \<Longrightarrow> implSign x \<longleftrightarrow> implVal x < 0"
  using impl_view [of x] dval_pos [of "implDigits x"] dval_nonneg [of "implDigits x"]
  by (cases "implDigits x = []") auto

text \<open>Digit by digit from the top: the first difference decides.\<close>

lemma digit_order_step:
  assumes "0 \<le> a" "a < P" "0 \<le> b" "b < P" "uint (d :: digit) < uint e"
  shows "a + P * uint d < b + P * uint e"
proof -
  have "P * (uint d + 1) \<le> P * uint e" using assms by (intro mult_left_mono) auto
  then show ?thesis using assms by (simp add: algebra_simps)
qed

lemma compareDigits_correct:
  assumes "implValid x" "implValid y" "n \<le> implLength x" "n \<le> implLength y"
  shows "compareDigits x y n = comparison (dval (take n (implDigits x))) (dval (take n (implDigits y)))"
  using assms(3,4)
proof (induction n)
  case 0
  then show ?case by (simp add: comparison_def)
next
  case (Suc i)
  let ?a = "dval (take i (implDigits x))" and ?b = "dval (take i (implDigits y))"
  have lens: "i < length (implDigits x)" "i < length (implDigits y)"
    using Suc.prems impl_view(4) assms(1,2) by auto
  then have bnd: "?a < digitBase ^ i" "?b < digitBase ^ i"
    using dval_bound [of "take i (implDigits x)"] dval_bound [of "take i (implDigits y)"]
    by (simp_all add: min_absorb2)
  have split: "dval (take (Suc i) (implDigits x)) = ?a + digitBase ^ i * uint (implDigit x i)"
    "dval (take (Suc i) (implDigits y)) = ?b + digitBase ^ i * uint (implDigit y i)"
    using lens impl_view(4,5) assms(1,2) by (simp_all add: dval_take_Suc)
  consider "implDigit x i = implDigit y i" | "implDigit x i > implDigit y i" | "implDigit x i < implDigit y i"
    by force
  then show ?case
  proof cases
    case 1
    then show ?thesis using Suc by (simp add: split comparison_def)
  next
    case 2
    then have "dval (take (Suc i) (implDigits y)) < dval (take (Suc i) (implDigits x))"
      unfolding split by (intro digit_order_step) (use bnd in \<open>simp_all add: word_less_def\<close>)
    then show ?thesis using 2 by (auto simp: comparison_def)
  next
    case 3
    then have "dval (take (Suc i) (implDigits x)) < dval (take (Suc i) (implDigits y))"
      unfolding split by (intro digit_order_step) (use bnd in \<open>simp_all add: word_less_def\<close>)
    then show ?thesis using 3 by (auto simp: comparison_def)
  qed
qed

lemma dval_less_length:
  assumes "length xs < length ys" and "last ys \<noteq> 0"
  shows "dval xs < dval ys"
proof -
  have "dval xs < digitBase ^ length xs" by (rule dval_bound)
  also have "\<dots> \<le> digitBase ^ (length ys - 1)" using assms by (intro power_increasing) auto
  also have "\<dots> \<le> dval ys" using assms by (intro dval_lower) auto
  finally show ?thesis .
qed

lemma absoluteCompare_correct:
  assumes "implValid x" "implValid y"
  shows "absoluteCompare x y = comparison (dval (implDigits x)) (dval (implDigits y))"
proof (cases "implLength x" "implLength y" rule: linorder_cases)
  case less
  then have "dval (implDigits x) < dval (implDigits y)"
    using impl_view [OF assms(1)] impl_view [OF assms(2)] by (intro dval_less_length) auto
  then show ?thesis using less by (simp add: absoluteCompare_def comparison_def)
next
  case greater
  then have "dval (implDigits y) < dval (implDigits x)"
    using impl_view [OF assms(1)] impl_view [OF assms(2)] by (intro dval_less_length) auto
  then show ?thesis using greater by (simp add: absoluteCompare_def comparison_def)
next
  case equal
  then show ?thesis
    using compareDigits_correct [OF assms, of "implLength x"] impl_view(4) [OF assms(1)] impl_view(4) [OF assms(2)]
    by (simp add: absoluteCompare_def)
qed

lemma absoluteCompare_heap:
  assumes "canonical x" "canonical y"
  shows "absoluteCompare (HeapBigIntImpl x) (HeapBigIntImpl y) = comparison (dval (m_data x)) (dval (m_data y))"
  using absoluteCompare_correct [of "HeapBigIntImpl x" "HeapBigIntImpl y"] assms by (simp add: implValid_def)

lemma compareImpl_comparison:
  assumes "implValid x" "implValid y"
  shows "compareImpl x y = comparison (implVal x) (implVal y)"
proof (cases "implSign x = implSign y")
  case True
  then show ?thesis
    using absoluteCompare_correct [OF assms] impl_view(2) [OF assms(1)] impl_view(2) [OF assms(2)]
    by (auto simp: compareImpl_def comparison_def)
next
  case False
  then show ?thesis
    using implSign_iff [OF assms(1)] implSign_iff [OF assms(2)]
    by (auto simp: compareImpl_def comparison_def)
qed

lemma equalDigits_iff: "equalDigits x y is \<longleftrightarrow> (\<forall>i \<in> set is. digitAt x i = digitAt y i)"
  by (induction "is") auto

lemma equals_iff: "equals x y \<longleftrightarrow> x = y"
proof
  assume "equals x y"
  then have "m_sign x = m_sign y" and "m_data x = m_data y"
    by (auto simp: equals_def equalDigits_iff digitAt_def intro: nth_equalityI split: if_splits)
  then show "x = y" by simp
qed (simp add: equals_def equalDigits_iff)

text \<open>
  C9. Comparing BigInts compares the integers they denote, for every mix of heap BigInts and
  32-bit integers: \<^verbatim>\<open>compareImpl\<close> of canonical operands returns \<^verbatim>\<open>Equal\<close>, \<^verbatim>\<open>LessThan\<close> or
  \<^verbatim>\<open>GreaterThan\<close> exactly as the values compare, and never \<^verbatim>\<open>Undefined\<close>.
\<close>

theorem compareImpl_correct:
  assumes "implValid x" and "implValid y"
  shows "compareImpl x y =
    (if implVal x = implVal y then Equal else if implVal x < implVal y then LessThan else GreaterThan)"
  using compareImpl_comparison [OF assms] by (simp add: comparison_def)

theorem compareImpl_correct_witness:
  "compareImpl (Int32BigIntImpl (- 5)) (HeapBigIntImpl \<lparr>m_sign = True, m_data = [7, 1]\<rparr>) = GreaterThan"
  using compareImpl_correct [of "Int32BigIntImpl (- 5)" "HeapBigIntImpl \<lparr>m_sign = True, m_data = [7, 1]\<rparr>"]
  by (simp add: implValid_def implVal_def canonical_def maxLength_eq bval_def digitBase_num)

lemma equalsToInt32_iff:
  assumes "canonical x"
  shows "equalsToInt32 x w \<longleftrightarrow> bval x = sint w"
proof (cases "w = 0")
  case True
  then show ?thesis using canonical_bval_0 [OF assms] by (simp add: equalsToInt32_def)
next
  case False
  have "- 2147483648 \<le> sint w" "sint w < 2147483648" using sint_range [of w] by simp_all
  then have u: "uint (word_of_int \<bar>sint w\<bar> :: digit) = \<bar>sint w\<bar>" by (simp add: uint_word_of_int)
  have nz: "sint w \<noteq> 0" using False by (simp add: sint_eq_0_iff)
  let ?y = "\<lparr>m_sign = sint w < 0, m_data = [word_of_int \<bar>sint w\<bar>]\<rparr>"
  have "bval ?y = sint w" by (simp add: bval_def uint_scast_abs)
  moreover have "canonical ?y" using u nz by (auto simp: canonical_def maxLength_eq)
  ultimately have "bval x = sint w \<longleftrightarrow> x = ?y" using canonical_unique [OF assms] by metis
  also have "\<dots> \<longleftrightarrow> equalsToInt32 x w"
    using False by (cases x) (auto simp: equalsToInt32_def digitAt_def length_Suc_conv)
  finally show ?thesis by simp
qed

text \<open>
  Equality tests agree with the values: on canonical BigInts \<^verbatim>\<open>equals\<close> holds exactly when both
  denote the same integer, and \<^verbatim>\<open>equalsToInt32\<close> exactly when the BigInt denotes the 32-bit
  integer.
\<close>

lemma equals_correct:
  assumes "canonical x" and "canonical y"
  shows "(equals x y \<longleftrightarrow> bval x = bval y) \<and> (equalsToInt32 x w \<longleftrightarrow> bval x = sint w)"
  using canonical_unique [OF assms] equalsToInt32_iff [OF assms(1)] by (auto simp: equals_iff)

end
