(* ===== verification/BigInt_AddSub.thy ===== *)
theory BigInt_AddSub
  imports BigInt_Compare
begin

text \<open>
  Addition and subtraction of \<^verbatim>\<open>runtime/JSBigInt.cpp\<close>: \<^verbatim>\<open>absoluteAdd\<close>, \<^verbatim>\<open>absoluteSub\<close>,
  \<^verbatim>\<open>addImpl\<close>, \<^verbatim>\<open>subImpl\<close>, \<^verbatim>\<open>absoluteAddOne\<close>, \<^verbatim>\<open>absoluteSubOne\<close>, \<^verbatim>\<open>incImpl\<close>, \<^verbatim>\<open>decImpl\<close>.
\<close>

section \<open>The operations\<close>

definition addPairStep :: "jsBigInt \<Rightarrow> jsBigInt \<Rightarrow> nat \<Rightarrow> digit \<Rightarrow> digit \<Rightarrow> digit \<times> digit" where
  "addPairStep x y i _ carry =
     (let newCarry = 0;
          (sum, newCarry) = digitAdd (digitAt x i) (digitAt y i) newCarry;
          (sum, newCarry) = digitAdd sum carry newCarry
      in (sum, newCarry))"

definition addCarryStep :: "jsBigInt \<Rightarrow> nat \<Rightarrow> digit \<Rightarrow> digit \<Rightarrow> digit \<times> digit" where
  "addCarryStep x i _ carry = (let newCarry = 0 in digitAdd (digitAt x i) carry newCarry)"

function absoluteAdd :: "js_env \<Rightarrow> jsBigInt \<Rightarrow> jsBigInt \<Rightarrow> bool \<Rightarrow> (js_error, jsBigInt) result" where
  "absoluteAdd env x y resultSign =
     (if bigLength x < bigLength y then absoluteAdd env y x resultSign
      else if isZero x then andThen (assertThat (isZero y)) (\<lambda>_. Inr x)
      else if isZero y then (if resultSign = m_sign x then Inr x else unaryMinusImpl env x)
      else andThen (createWithLength env (bigLength x + 1)) (\<lambda>result.
        let carry = 0;
            (digits, carry) = digitLoop 0 0 (bigLength y) (addPairStep x y) (m_data result, carry);
            (digits, carry) = digitLoop 0 (bigLength y) (bigLength x) (addCarryStep x) (digits, carry);
            result = setDigit (result\<lparr>m_data := digits\<rparr>) (bigLength x) carry
        in rightTrim env (setSign result resultSign)))"
  by pat_completeness auto
termination
  by (relation "measure (\<lambda>(env, x, y, resultSign). bigLength y - bigLength x)") auto

declare absoluteAdd.simps [simp del]

definition subPairStep :: "jsBigInt \<Rightarrow> jsBigInt \<Rightarrow> nat \<Rightarrow> digit \<Rightarrow> digit \<Rightarrow> digit \<times> digit" where
  "subPairStep x y i _ borrow =
     (let newBorrow = 0;
          (difference, newBorrow) = digitSub (digitAt x i) (digitAt y i) newBorrow;
          (difference, newBorrow) = digitSub difference borrow newBorrow
      in (difference, newBorrow))"

definition subBorrowStep :: "jsBigInt \<Rightarrow> nat \<Rightarrow> digit \<Rightarrow> digit \<Rightarrow> digit \<times> digit" where
  "subBorrowStep x i _ borrow = (let newBorrow = 0 in digitSub (digitAt x i) borrow newBorrow)"

definition absoluteSub :: "js_env \<Rightarrow> jsBigInt \<Rightarrow> jsBigInt \<Rightarrow> bool \<Rightarrow> (js_error, jsBigInt) result" where
  "absoluteSub env x y resultSign =
     (let comparisonResult = absoluteCompare (HeapBigIntImpl x) (HeapBigIntImpl y) in
      andThen (assertThat (bigLength x \<ge> bigLength y)) (\<lambda>_.
      andThen (assertThat (comparisonResult = GreaterThan \<or> comparisonResult = Equal)) (\<lambda>_.
      if isZero x then andThen (assertThat (isZero y)) (\<lambda>_. Inr x)
      else if isZero y then (if resultSign = m_sign x then Inr x else unaryMinusImpl env x)
      else if comparisonResult = Equal then zeroImpl env
      else andThen (createWithLength env (bigLength x)) (\<lambda>result.
        let borrow = 0;
            (digits, borrow) = digitLoop 0 0 (bigLength y) (subPairStep x y) (m_data result, borrow);
            (digits, borrow) = digitLoop 0 (bigLength y) (bigLength x) (subBorrowStep x) (digits, borrow)
        in andThen (assertThat (borrow = 0)) (\<lambda>_.
             rightTrim env (setSign (result\<lparr>m_data := digits\<rparr>) resultSign))))))"

definition addImpl :: "js_env \<Rightarrow> jsBigInt \<Rightarrow> jsBigInt \<Rightarrow> (js_error, jsBigInt) result" where
  "addImpl env x y =
     (let xSign = m_sign x
      in if xSign = m_sign y then absoluteAdd env x y xSign
         else let comparisonResult = absoluteCompare (HeapBigIntImpl x) (HeapBigIntImpl y)
           in if comparisonResult = GreaterThan \<or> comparisonResult = Equal
              then absoluteSub env x y xSign
              else absoluteSub env y x (\<not> xSign))"

definition subImpl :: "js_env \<Rightarrow> jsBigInt \<Rightarrow> jsBigInt \<Rightarrow> (js_error, jsBigInt) result" where
  "subImpl env x y =
     (let xSign = m_sign x
      in if xSign \<noteq> m_sign y then absoluteAdd env x y xSign
         else let comparisonResult = absoluteCompare (HeapBigIntImpl x) (HeapBigIntImpl y)
           in if comparisonResult = GreaterThan \<or> comparisonResult = Equal
              then absoluteSub env x y xSign
              else absoluteSub env y x (\<not> xSign))"

datatype SignOption = Signed | Unsigned

fun allMax :: "jsBigInt \<Rightarrow> nat list \<Rightarrow> bool" where
  "allMax x [] = True"
| "allMax x (i # is) = (if digitMax \<noteq> digitAt x i then False else allMax x is)"

definition absoluteAddOne :: "js_env \<Rightarrow> jsBigInt \<Rightarrow> SignOption \<Rightarrow> (js_error, jsBigInt) result" where
  "absoluteAddOne env x signOption =
     (let inputLength = bigLength x;
          willOverflow = allMax x [0..<inputLength];
          resultLength = inputLength + of_bool willOverflow
      in andThen (createWithLength env resultLength) (\<lambda>result.
        let carry = 1;
            (digits, carry) = digitLoop 0 0 inputLength (addCarryStep x) (m_data result, carry);
            result = result\<lparr>m_data := digits\<rparr>
        in andThen
             (if resultLength > inputLength then Inr (setDigit result inputLength carry)
              else andThen (assertThat (carry = 0)) (\<lambda>_. Inr result)) (\<lambda>result.
             rightTrim env (setSign result (signOption = Signed)))))"

definition absoluteSubOne :: "js_env \<Rightarrow> jsBigInt \<Rightarrow> nat \<Rightarrow> (js_error, jsBigInt) result" where
  "absoluteSubOne env x resultLength =
     andThen (assertThat (\<not> isZero x)) (\<lambda>_.
     andThen (assertThat (resultLength \<ge> bigLength x)) (\<lambda>_.
     andThen (createWithLength env resultLength) (\<lambda>result.
       let borrow = 1;
           (digits, borrow) = digitLoop 0 0 (bigLength x) (subBorrowStep x) (m_data result, borrow)
       in andThen (assertThat (borrow = 0)) (\<lambda>_.
            rightTrim env (for_up (bigLength x) resultLength (\<lambda>i r. setDigit r i borrow) (result\<lparr>m_data := digits\<rparr>))))))"

definition incImpl :: "js_env \<Rightarrow> jsBigInt \<Rightarrow> (js_error, jsBigInt) result" where
  "incImpl env x =
     (if \<not> m_sign x then absoluteAddOne env x Unsigned
      else andThen (absoluteSubOne env x (bigLength x)) (\<lambda>result.
        if isZero result then Inr result else Inr (setSign result True)))"

definition decImpl :: "js_env \<Rightarrow> jsBigInt \<Rightarrow> (js_error, jsBigInt) result" where
  "decImpl env x =
     (if isZero x then createFromInt32 env (- 1)
      else if \<not> m_sign x then absoluteSubOne env x (bigLength x)
      else absoluteAddOne env x Signed)"



section \<open>Carries and borrows\<close>

interpretation addPair: carry_chain "addPairStep x y" "\<lambda>_. True" uint
    "\<lambda>i _. uint (digitAt x i) + uint (digitAt y i)" for x y
proof
  fix c d c' old :: digit and i
  assume "addPairStep x y i old c = (d, c')"
  then obtain s1 n1 where e1: "digitAdd (digitAt x i) (digitAt y i) 0 = (s1, n1)" and e2: "digitAdd s1 c n1 = (d, c')"
    by (auto simp: addPairStep_def Let_def split: prod.splits)
  note l1 = digitAdd_law [OF e1]
  have "uint n1 \<le> 1" using l1(2) by simp
  then show "uint d + digitBase * uint c' = uint (digitAt x i) + uint (digitAt y i) + uint c \<and> True"
    using l1(1) digitAdd_law(1) [OF e2] by (simp add: digitBase_num)
qed

interpretation addCarry: carry_chain "addCarryStep x" "\<lambda>_. True" uint "\<lambda>i _. uint (digitAt x i)" for x
proof
  fix c d c' old :: digit and i
  assume "addCarryStep x i old c = (d, c')"
  then show "uint d + digitBase * uint c' = uint (digitAt x i) + uint c \<and> True"
    using digitAdd_law(1) [of "digitAt x i" c 0 d c'] by (simp add: addCarryStep_def)
qed

interpretation subPair: carry_chain "subPairStep x y" "\<lambda>_. True" "\<lambda>b. - uint b"
    "\<lambda>i _. uint (digitAt x i) - uint (digitAt y i)" for x y
proof
  fix c d c' old :: digit and i
  assume "subPairStep x y i old c = (d, c')"
  then obtain s1 n1 where e1: "digitSub (digitAt x i) (digitAt y i) 0 = (s1, n1)" and e2: "digitSub s1 c n1 = (d, c')"
    by (auto simp: subPairStep_def Let_def split: prod.splits)
  note l1 = digitSub_law [OF e1]
  have "uint n1 \<le> 1" using l1(2) by simp
  then show "uint d + digitBase * - uint c' = uint (digitAt x i) - uint (digitAt y i) + - uint c \<and> True"
    using l1(1) digitSub_law(1) [OF e2] by (simp add: digitBase_num)
qed

interpretation subBorrow: carry_chain "subBorrowStep x" "\<lambda>_. True" "\<lambda>b. - uint b" "\<lambda>i _. uint (digitAt x i)" for x
proof
  fix c d c' old :: digit and i
  assume "subBorrowStep x i old c = (d, c')"
  then show "uint d + digitBase * - uint c' = uint (digitAt x i) + - uint c \<and> True"
    using digitSub_law(1) [of "digitAt x i" c 0 d c'] by (simp add: subBorrowStep_def)
qed

lemma digitAt_sum:
  assumes "lo + n \<le> bigLength x"
  shows "(\<Sum>i<n. digitBase ^ i * uint (digitAt x (lo + i))) = dval (take n (drop lo (m_data x)))"
  using dval_sum [OF assms] by (simp add: digitAt_def)

lemma digitAt_pair_sum:
  assumes "n \<le> bigLength x" and "n \<le> bigLength y"
  shows "(\<Sum>i<n. digitBase ^ i * (uint (digitAt x i) + uint (digitAt y i))) = dval (take n (m_data x)) + dval (take n (m_data y))"
    and "(\<Sum>i<n. digitBase ^ i * (uint (digitAt x i) - uint (digitAt y i))) = dval (take n (m_data x)) - dval (take n (m_data y))"
  using digitAt_sum [of 0 n x] digitAt_sum [of 0 n y] assms
  by (simp_all add: distrib_left right_diff_distrib sum.distrib sum_subtractf)

lemma absoluteAdd_loops:
  assumes len: "length r0 = bigLength x + 1" and le: "bigLength y \<le> bigLength x"
    and l1: "digitLoop 0 0 (bigLength y) (addPairStep x y) (r0, 0) = (r1, c1)"
    and l2: "digitLoop 0 (bigLength y) (bigLength x) (addCarryStep x) (r1, c1) = (r2, c2)"
  shows "length r2 = bigLength x + 1" and "dval (r2[bigLength x := c2]) = dval (m_data x) + dval (m_data y)"
proof -
  have len1: "length r1 = bigLength x + 1" using digitLoop_frame(1) [OF l1] len by simp
  show len2: "length r2 = bigLength x + 1" using digitLoop_frame(1) [OF l2 le] len1 by simp
  have v1: "dval (take (bigLength y) r1) + digitBase ^ bigLength y * uint c1
      = dval (take (bigLength y) (m_data x)) + dval (m_data y)"
    using addPair.loop_prefix(1) [OF l1] len le digitAt_pair_sum(1) [OF le order_refl] by simp
  have v2: "dval (take (bigLength x) r2) + digitBase ^ bigLength x * uint c2
      = dval (take (bigLength y) r1) + digitBase ^ bigLength y * uint c1
        + digitBase ^ bigLength y * dval (drop (bigLength y) (m_data x))"
    using addCarry.loop_prefix(1) [OF l2 TrueI le] len1 le digitAt_sum [of "bigLength y" "bigLength x - bigLength y" x]
    by simp
  have "dval (r2[bigLength x := c2]) = dval (take (bigLength x) r2) + digitBase ^ bigLength x * uint c2"
    using take_Suc_update [of "bigLength x" r2 c2] len2 by (simp add: dval_snoc)
  also have "\<dots> = dval (m_data x) + dval (m_data y)"
    using v1 v2 dval_take_drop [of "m_data x" "bigLength y"] le by (simp add: min_absorb1)
  finally show "dval (r2[bigLength x := c2]) = dval (m_data x) + dval (m_data y)" .
qed

lemma absoluteSub_loops:
  assumes len: "length r0 = bigLength x" and le: "bigLength y \<le> bigLength x" and ge: "dval (m_data y) \<le> dval (m_data x)"
    and l1: "digitLoop 0 0 (bigLength y) (subPairStep x y) (r0, 0) = (r1, b1)"
    and l2: "digitLoop 0 (bigLength y) (bigLength x) (subBorrowStep x) (r1, b1) = (r2, b2)"
  shows "length r2 = bigLength x" and "b2 = 0" and "dval r2 = dval (m_data x) - dval (m_data y)"
proof -
  have len1: "length r1 = bigLength x" using digitLoop_frame(1) [OF l1] len by simp
  show len2: "length r2 = bigLength x" using digitLoop_frame(1) [OF l2 le] len1 by simp
  have v1: "dval (take (bigLength y) r1) - digitBase ^ bigLength y * uint b1
      = dval (take (bigLength y) (m_data x)) - dval (m_data y)"
    using subPair.loop_prefix(1) [OF l1] len le digitAt_pair_sum(2) [OF le order_refl] by simp
  have v2: "dval (take (bigLength x) r2) - digitBase ^ bigLength x * uint b2
      = dval (take (bigLength y) r1) - digitBase ^ bigLength y * uint b1
        + digitBase ^ bigLength y * dval (drop (bigLength y) (m_data x))"
    using subBorrow.loop_prefix(1) [OF l2 TrueI le] len1 le digitAt_sum [of "bigLength y" "bigLength x - bigLength y" x]
    by simp
  have total: "dval r2 - digitBase ^ length r2 * uint b2 = dval (m_data x) - dval (m_data y)"
    using v1 v2 len2 dval_take_drop [of "m_data x" "bigLength y"] le by (simp add: min_absorb1)
  show "b2 = 0"
    using total ge dval_no_borrow [of r2 b2] by simp
  then show "dval r2 = dval (m_data x) - dval (m_data y)" using total by simp
qed



section \<open>Addition and subtraction are exact\<close>

lemma absoluteAdd_computes [outcome_intros]:
  assumes "canonical x" and "canonical y" and "resultSign \<Longrightarrow> \<not> isZero x \<or> \<not> isZero y"
  shows "computes env (max (bigLength x) (bigLength y) + 1) (absoluteAdd env x y resultSign)
     (if resultSign then - (dval (m_data x) + dval (m_data y)) else dval (m_data x) + dval (m_data y))"
  using assms
proof (induction env x y resultSign rule: absoluteAdd.induct)
  case (1 env x y resultSign)
  show ?case
  proof (cases "bigLength x < bigLength y")
    case True
    then have "absoluteAdd env x y resultSign = absoluteAdd env y x resultSign"
      by (simp add: absoluteAdd.simps [of env x y])
    then show ?thesis
      using "1.IH" [OF True "1.prems"(2,1)] "1.prems"(3) by (auto simp: max.commute add.commute)
  next
    case ge: False
    consider (x0) "isZero x" | (y0) "\<not> isZero x" "isZero y" | (both) "\<not> isZero x" "\<not> isZero y" by blast
    then show ?thesis
    proof cases
      case x0
      then show ?thesis
        using ge "1.prems" by (auto simp: absoluteAdd.simps [of env x y] isZero_def represents_def bval_def)
    next
      case y0
      then show ?thesis
        using ge "1.prems"(1) unaryMinusImpl_computes [OF "1.prems"(1), of env]
        by (auto simp: absoluteAdd.simps [of env x y] isZero_def represents_def bval_def intro: computes_mono)
    next
      case both
      have le: "bigLength y \<le> bigLength x" using ge by simp
      have eq: "absoluteAdd env x y resultSign =
          andThen (createWithLength env (bigLength x + 1)) (\<lambda>result.
            let (digits, carry) = digitLoop 0 0 (bigLength y) (addPairStep x y) (m_data result, 0);
                (digits, carry) = digitLoop 0 (bigLength y) (bigLength x) (addCarryStep x) (digits, carry)
            in rightTrim env (setSign (setDigit (result\<lparr>m_data := digits\<rparr>) (bigLength x) carry) resultSign))"
        using ge both by (subst absoluteAdd.simps) (simp add: Let_def)
      have "computes env (bigLength x + 1) (absoluteAdd env x y resultSign)
          (if resultSign then - (dval (m_data x) + dval (m_data y)) else dval (m_data x) + dval (m_data y))"
        unfolding eq
      proof (rule computes_andThen [OF createWithLength_outcome order_refl])
        fix result assume fr: "fresh (bigLength x + 1) result"
        obtain r1 c1 where l1: "digitLoop 0 0 (bigLength y) (addPairStep x y) (m_data result, 0) = (r1, c1)" by fastforce
        obtain r2 c2 where l2: "digitLoop 0 (bigLength y) (bigLength x) (addCarryStep x) (r1, c1) = (r2, c2)" by fastforce
        note loops = absoluteAdd_loops [OF _ le l1 l2]
        show "computes env (bigLength x + 1)
            (let (digits, carry) = digitLoop 0 0 (bigLength y) (addPairStep x y) (m_data result, 0);
                 (digits, carry) = digitLoop 0 (bigLength y) (bigLength x) (addCarryStep x) (digits, carry)
             in rightTrim env (setSign (setDigit (result\<lparr>m_data := digits\<rparr>) (bigLength x) carry) resultSign))
            (if resultSign then - (dval (m_data x) + dval (m_data y)) else dval (m_data x) + dval (m_data y))"
          unfolding l1 l2 Let_def prod.case
          by (rule rightTrim_setSign [OF fr]) (use loops fr in \<open>simp_all add: fresh_def\<close>)
      qed
      then show ?thesis using ge by (simp add: max_absorb1)
    qed
  qed
qed

lemma absoluteSub_computes [outcome_intros]:
  assumes "canonical x" and "canonical y" and "dval (m_data y) \<le> dval (m_data x)"
  shows "computes env (bigLength x) (absoluteSub env x y resultSign)
     (if resultSign then - (dval (m_data x) - dval (m_data y)) else dval (m_data x) - dval (m_data y))"
proof -
  have le: "bigLength y \<le> bigLength x"
    using assms dval_less_length [of "m_data x" "m_data y"] by (fastforce simp: canonical_def not_le)
  have cmp: "absoluteCompare (HeapBigIntImpl x) (HeapBigIntImpl y) =
      (if dval (m_data x) = dval (m_data y) then Equal else GreaterThan)"
    using absoluteCompare_heap [OF assms(1,2)] assms(3) by (auto simp: comparison_def)
  consider (x0) "isZero x" | (y0) "\<not> isZero x" "isZero y"
    | (eq) "\<not> isZero x" "\<not> isZero y" "dval (m_data x) = dval (m_data y)"
    | (gt) "\<not> isZero x" "\<not> isZero y" "dval (m_data x) \<noteq> dval (m_data y)" by blast
  then show ?thesis
  proof cases
    case x0
    then show ?thesis
      using assms le by (auto simp: absoluteSub_def cmp isZero_def represents_def bval_def canonical_def)
  next
    case y0
    then show ?thesis
      using assms unaryMinusImpl_computes [OF assms(1), of env] canonical_dval_pos [OF assms(1)] le
      by (auto simp: absoluteSub_def cmp isZero_def represents_def bval_def)
  next
    case eq
    then show ?thesis
      using le by (simp add: absoluteSub_def cmp zeroImpl_def createZero_computes)
  next
    case gt
    then have eq: "absoluteSub env x y resultSign =
        andThen (createWithLength env (bigLength x)) (\<lambda>result.
          let (digits, borrow) = digitLoop 0 0 (bigLength y) (subPairStep x y) (m_data result, 0);
              (digits, borrow) = digitLoop 0 (bigLength y) (bigLength x) (subBorrowStep x) (digits, borrow)
          in andThen (assertThat (borrow = 0)) (\<lambda>_.
               rightTrim env (setSign (result\<lparr>m_data := digits\<rparr>) resultSign)))"
      using le by (simp add: absoluteSub_def cmp Let_def)
    show ?thesis
      unfolding eq
    proof (rule computes_andThen [OF createWithLength_outcome order_refl])
      fix result assume fr: "fresh (bigLength x) result"
      obtain r1 b1 where l1: "digitLoop 0 0 (bigLength y) (subPairStep x y) (m_data result, 0) = (r1, b1)" by fastforce
      obtain r2 b2 where l2: "digitLoop 0 (bigLength y) (bigLength x) (subBorrowStep x) (r1, b1) = (r2, b2)" by fastforce
      have len: "length (m_data result) = bigLength x" using fr by (simp add: fresh_def)
      note loops = absoluteSub_loops [OF len le assms(3) l1 l2]
      have "computes env (bigLength x) (rightTrim env (setSign (result\<lparr>m_data := r2\<rparr>) resultSign))
          (if resultSign then - (dval (m_data x) - dval (m_data y)) else dval (m_data x) - dval (m_data y))"
        by (rule rightTrim_setSign [OF fr]) (use loops gt in \<open>simp_all add: isZero_def\<close>)
      then show "computes env (bigLength x)
          (let (digits, borrow) = digitLoop 0 0 (bigLength y) (subPairStep x y) (m_data result, 0);
               (digits, borrow) = digitLoop 0 (bigLength y) (bigLength x) (subBorrowStep x) (digits, borrow)
           in andThen (assertThat (borrow = 0)) (\<lambda>_.
                rightTrim env (setSign (result\<lparr>m_data := digits\<rparr>) resultSign)))
          (if resultSign then - (dval (m_data x) - dval (m_data y)) else dval (m_data x) - dval (m_data y))"
        unfolding l1 l2 Let_def prod.case using loops(2) by simp
    qed
  qed
qed


lemma computes_value: "computes env L res v \<Longrightarrow> v = w \<Longrightarrow> L \<le> L' \<Longrightarrow> computes env L' res w"
  by (auto intro: computes_mono)

lemma comparison_ge: "comparison a b = GreaterThan \<or> comparison a b = Equal \<longleftrightarrow> b \<le> a"
  by (auto simp: comparison_def)

lemma addImpl_computes [outcome_intros]:
  assumes "canonical x" and "canonical y"
  shows "computes env (max (bigLength x) (bigLength y) + 1) (addImpl env x y) (bval x + bval y)"
proof (cases "m_sign x = m_sign y")
  case True
  then show ?thesis
    using absoluteAdd_computes [OF assms, of "m_sign x" env] assms
    by (auto simp: addImpl_def bval_def canonical_def isZero_def)
next
  case signs: False
  show ?thesis
  proof (cases "dval (m_data y) \<le> dval (m_data x)")
    case True
    then show ?thesis
      using signs comparison_ge [of "dval (m_data x)" "dval (m_data y)"]
      by (auto simp: addImpl_def Let_def absoluteCompare_heap [OF assms] bval_def
          intro!: computes_value [OF absoluteSub_computes [OF assms True]])
  next
    case False
    then have "dval (m_data x) \<le> dval (m_data y)" by simp
    then show ?thesis
      using signs False comparison_ge [of "dval (m_data x)" "dval (m_data y)"]
      by (auto simp: addImpl_def Let_def absoluteCompare_heap [OF assms] bval_def
          intro!: computes_value [OF absoluteSub_computes [OF assms(2,1)]])
  qed
qed

lemma subImpl_computes [outcome_intros]:
  assumes "canonical x" and "canonical y"
  shows "computes env (max (bigLength x) (bigLength y) + 1) (subImpl env x y) (bval x - bval y)"
proof (cases "m_sign x = m_sign y")
  case False
  then show ?thesis
    using absoluteAdd_computes [OF assms, of "m_sign x" env] assms
    by (auto simp: subImpl_def bval_def canonical_def isZero_def)
next
  case signs: True
  show ?thesis
  proof (cases "dval (m_data y) \<le> dval (m_data x)")
    case True
    then show ?thesis
      using signs comparison_ge [of "dval (m_data x)" "dval (m_data y)"]
      by (auto simp: subImpl_def Let_def absoluteCompare_heap [OF assms] bval_def
          intro!: computes_value [OF absoluteSub_computes [OF assms True]])
  next
    case False
    then have "dval (m_data x) \<le> dval (m_data y)" by simp
    then show ?thesis
      using signs False comparison_ge [of "dval (m_data x)" "dval (m_data y)"]
      by (auto simp: subImpl_def Let_def absoluteCompare_heap [OF assms] bval_def
          intro!: computes_value [OF absoluteSub_computes [OF assms(2,1)]])
  qed
qed


section \<open>Adding and subtracting one\<close>

lemma allMax_iff: "allMax x is \<longleftrightarrow> (\<forall>i \<in> set is. digitAt x i = digitMax)"
  by (induction "is") auto

text \<open>The largest list of digits of a given length is all ones.\<close>

lemma uint_digitMax: "uint digitMax = digitBase - 1"
  by (simp add: digitMax_def digitBase_num unsigned_minus_1_eq_mask mask_eq_exp_minus_1)

lemma dval_all_max: "dval (replicate n digitMax) = digitBase ^ n - 1"
  by (induction n) (simp_all add: uint_digitMax right_diff_distrib)

lemma dval_max_iff: "dval ds + 1 = digitBase ^ length ds \<longleftrightarrow> (\<forall>d \<in> set ds. d = digitMax)"
proof
  assume "dval ds + 1 = digitBase ^ length ds"
  then have "dval ds = dval (replicate (length ds) digitMax)" by (simp add: dval_all_max)
  then have "ds = replicate (length ds) digitMax" by (intro dval_inj) simp_all
  then show "\<forall>d \<in> set ds. d = digitMax" by (metis in_set_replicate)
next
  assume "\<forall>d \<in> set ds. d = digitMax"
  then have "ds = replicate (length ds) digitMax" by (simp add: replicate_eqI)
  then show "dval ds + 1 = digitBase ^ length ds" using dval_all_max [of "length ds"] by simp
qed

lemma willOverflow_iff: "allMax x [0..<bigLength x] \<longleftrightarrow> dval (m_data x) + 1 = digitBase ^ bigLength x"
  by (auto simp: dval_max_iff allMax_iff digitAt_def all_set_conv_all_nth)

lemma absoluteAddOne_computes [outcome_intros]:
  assumes "bigLength x \<le> maxLength"
  shows "computes env (bigLength x + of_bool (dval (m_data x) + 1 = digitBase ^ bigLength x)) (absoluteAddOne env x signOption)
      (if signOption = Signed then - (dval (m_data x) + 1) else dval (m_data x) + 1)"
proof -
  define n where "n = bigLength x"
  define ov where "ov = allMax x [0..<n]"
  have ov: "ov \<longleftrightarrow> dval (m_data x) + 1 = digitBase ^ n" by (simp add: ov_def n_def willOverflow_iff)
  have "computes env (n + of_bool ov) (absoluteAddOne env x signOption)
      (if signOption = Signed then - (dval (m_data x) + 1) else dval (m_data x) + 1)"
    unfolding absoluteAddOne_def Let_def n_def [symmetric] ov_def [symmetric]
  proof (rule computes_andThen [OF createWithLength_outcome order_refl])
    fix result assume fr: "fresh (n + of_bool ov) result"
    obtain r c where l: "digitLoop 0 0 n (addCarryStep x) (m_data result, 1) = (r, c)" by fastforce
    have len: "length r = n + of_bool ov" using digitLoop_frame(1) [OF l] fr by (simp add: fresh_def)
    have v: "dval (take n r) + digitBase ^ n * uint c = dval (m_data x) + 1"
      using addCarry.loop_prefix(1) [OF l] digitAt_sum [of 0 n x] fr by (simp add: fresh_def n_def)
    have full: "ov \<Longrightarrow> dval (r[n := c]) = dval (m_data x) + 1"
      using take_Suc_update [of n r c] len v by (simp add: dval_snoc)
    have nz: "n + of_bool ov \<noteq> 0" by (cases "n = 0") (auto simp: ov_def)
    have c0: "c = 0" if "\<not> ov"
    proof (rule ccontr)
      assume "c \<noteq> 0"
      then have "digitBase ^ n * 1 \<le> digitBase ^ n * uint c" by (intro mult_left_mono uint_ge_1) auto
      then have "digitBase ^ n \<le> dval (m_data x) + 1" using v dval_nonneg [of "take n r"] by linarith
      moreover have "dval (m_data x) < digitBase ^ n" using dval_bound [of "m_data x"] by (simp add: n_def)
      ultimately show False using that ov by simp
    qed
    show "computes env (n + of_bool ov)
       (case digitLoop 0 0 n (addCarryStep x) (m_data result, 1) of (digits, carry) \<Rightarrow>
          andThen (if n < n + of_bool ov then Inr (setDigit (result\<lparr>m_data := digits\<rparr>) n carry)
                   else andThen (assertThat (carry = 0)) (\<lambda>_. Inr (result\<lparr>m_data := digits\<rparr>)))
           (\<lambda>result. rightTrim env (setSign result (signOption = Signed))))
       (if signOption = Signed then - (dval (m_data x) + 1) else dval (m_data x) + 1)"
      unfolding l prod.case
      by (cases ov) (use nz len full v c0 in \<open>auto intro!: rightTrim_setSign [OF fr]\<close>)
  qed
  then show ?thesis by (simp add: n_def ov)
qed


lemma fill_zero:
  assumes "m_data x = ds" and "lo \<le> hi" and "hi = length ds"
  shows "for_up lo hi (\<lambda>i r. setDigit r i 0) x = x\<lparr>m_data := take lo ds @ replicate (hi - lo) 0\<rparr>"
proof -
  let ?I = "\<lambda>i t. t = x\<lparr>m_data := take lo ds @ replicate (i - lo) 0 @ drop i ds\<rparr>"
  have "?I hi (for_up lo hi (\<lambda>i r. setDigit r i 0) x)"
  proof (rule for_up_inv [where I = ?I])
    show "?I lo x" using assms by simp
    fix i t assume "lo \<le> i" "i < hi" "?I i t"
    then show "?I (Suc i) (setDigit t i 0)"
      using assms by (simp add: setDigit_def list_update_append Suc_diff_le replicate_append_same
          Cons_nth_drop_Suc [symmetric] flip: replicate_append_same)
  qed (use assms in auto)
  then show ?thesis using assms by simp
qed

lemma absoluteSubOne_computes [outcome_intros]:
  assumes "canonical x" and "\<not> isZero x" and "bigLength x \<le> n"
  shows "computes env n (absoluteSubOne env x n) (dval (m_data x) - 1)"
proof -
  have "computes env n (andThen (createWithLength env n) (\<lambda>result.
      let (digits, borrow) = digitLoop 0 0 (bigLength x) (subBorrowStep x) (m_data result, 1)
      in andThen (assertThat (borrow = 0)) (\<lambda>_.
           rightTrim env (for_up (bigLength x) n (\<lambda>i r. setDigit r i borrow) (result\<lparr>m_data := digits\<rparr>)))))
      (dval (m_data x) - 1)"
  proof (rule computes_andThen [OF createWithLength_outcome order_refl])
    fix result assume fr: "fresh n result"
    obtain r b where l: "digitLoop 0 0 (bigLength x) (subBorrowStep x) (m_data result, 1) = (r, b)" by fastforce
    have len: "length r = n" using digitLoop_frame(1) [OF l] fr by (simp add: fresh_def)
    have v: "dval (take (bigLength x) r) - digitBase ^ bigLength x * uint b = dval (m_data x) - 1"
      using subBorrow.loop_prefix(1) [OF l] digitAt_sum [of 0 "bigLength x" x] fr assms(3) by (simp add: fresh_def)
    have "0 < dval (m_data x)" using assms(1,2) by (rule canonical_dval_pos)
    then have b: "b = 0" using v dval_no_borrow [of "take (bigLength x) r" b] len assms(3) by (simp add: min_absorb2)
    define y where "y = for_up (bigLength x) n (\<lambda>i r. setDigit r i 0) (result\<lparr>m_data := r\<rparr>)"
    have y: "y = result\<lparr>m_data := take (bigLength x) r @ replicate (n - bigLength x) 0\<rparr>"
      unfolding y_def
      by (subst fill_zero [where ds = r]) (use len assms(3) in simp_all)
    have "computes env n (rightTrim env y) (dval (m_data x) - 1)"
      by (rule rightTrim_computes) (use fr len v b assms(3) in \<open>auto simp: y fresh_def bval_def dval_append\<close>)
    then show "computes env n
       (let (digits, borrow) = digitLoop 0 0 (bigLength x) (subBorrowStep x) (m_data result, 1)
        in andThen (assertThat (borrow = 0)) (\<lambda>_.
             rightTrim env (for_up (bigLength x) n (\<lambda>i r. setDigit r i borrow) (result\<lparr>m_data := digits\<rparr>))))
       (dval (m_data x) - 1)"
      by (simp add: l b y_def)
  qed
  then show ?thesis using assms by (simp add: absoluteSubOne_def Let_def)
qed

lemma incImpl_computes [outcome_intros]:
  assumes "canonical x"
  shows "computes env (bigLength x + 1) (incImpl env x) (bval x + 1)"
proof (cases "m_sign x")
  case False
  then show ?thesis
    using absoluteAddOne_computes [of x env Unsigned] assms
    by (auto simp: incImpl_def bval_def canonical_def elim!: computes_mono)
next
  case True
  then have nz: "\<not> isZero x" using assms by (auto simp: canonical_def isZero_def)
  have "computes env (bigLength x) (absoluteSubOne env x (bigLength x)) (dval (m_data x) - 1)"
    using assms nz by (intro absoluteSubOne_computes) auto
  then have "computes env (bigLength x + 1) (andThen (absoluteSubOne env x (bigLength x)) (\<lambda>result.
      if isZero result then Inr result else Inr (setSign result True))) (bval x + 1)"
    unfolding computes_def
  proof (rule oom_andThen)
    fix a assume a: "represents a (dval (m_data x) - 1)"
    then have "\<not> m_sign a"
      using canonical_sign [of a] canonical_dval_pos [OF assms nz] by (simp add: represents_def)
    then show "outcome (oom env (bigLength x + 1)) (\<lambda>r. represents r (bval x + 1))
        (if isZero a then Inr a else Inr (setSign a True))"
      using a True by (auto simp: represents_def bval_def isZero_def canonical_def)
  qed simp
  then show ?thesis using True by (simp add: incImpl_def)
qed

lemma decImpl_computes [outcome_intros]:
  assumes "canonical x"
  shows "computes env (bigLength x + 1) (decImpl env x) (bval x - 1)"
proof -
  consider "isZero x" | "\<not> isZero x" "\<not> m_sign x" | "\<not> isZero x" "m_sign x" by blast
  then show ?thesis
  proof cases
    case 1
    then show ?thesis
      using createFromInt32_computes [of env "- 1"] by (simp add: decImpl_def isZero_def)
  next
    case 2
    then show ?thesis
      using absoluteSubOne_computes [OF assms, of "bigLength x" env] by (auto simp: decImpl_def bval_def elim: computes_mono)
  next
    case 3
    then show ?thesis
      using absoluteAddOne_computes [of x env Signed] assms
      by (auto simp: decImpl_def bval_def canonical_def elim!: computes_mono)
  qed
qed

end
