(* ===== verification/BigInt_Mul.thy ===== *)
theory BigInt_Mul
  imports BigInt_AddSub
begin

text \<open>
  Multiplication and exponentiation of \<^verbatim>\<open>runtime/JSBigInt.cpp\<close>: \<^verbatim>\<open>internalMultiplyAdd\<close>,
  \<^verbatim>\<open>inplaceMultiplyAdd\<close>, \<^verbatim>\<open>multiplyAccumulate\<close>, \<^verbatim>\<open>multiplyImpl\<close>, \<^verbatim>\<open>exponentiateImpl\<close>.
\<close>

section \<open>The operations\<close>

text \<open>
  The state carried from digit to digit is the pair of \<^verbatim>\<open>carry\<close> and \<^verbatim>\<open>high\<close>. \<open>source\<close> is \<open>None\<close>
  when it is the same BigInt as \<open>result\<close>: then the digit read is the one about to be overwritten.
\<close>

definition multiplyAddStep :: "digit list option \<Rightarrow> digit \<Rightarrow> nat \<Rightarrow> digit \<Rightarrow> digit \<times> digit \<Rightarrow> digit \<times> (digit \<times> digit)" where
  "multiplyAddStep source factor i old st =
     (let (carry, high) = st;
          current = (case source of None \<Rightarrow> old | Some ds \<Rightarrow> ds ! i);
          newCarry = 0;
          (current, newHigh) = digitMul current factor;
          (current, newCarry) = digitAdd current high newCarry;
          (current, newCarry) = digitAdd current carry newCarry
      in (current, (newCarry, newHigh)))"

definition internalMultiplyAdd ::
  "digit list option \<Rightarrow> digit \<Rightarrow> digit \<Rightarrow> nat \<Rightarrow> digit list \<Rightarrow> (js_error, digit list) result" where
  "internalMultiplyAdd source factor summand n result =
     andThen (assertThat (length (case source of None \<Rightarrow> result | Some ds \<Rightarrow> ds) \<ge> n)) (\<lambda>_.
     andThen (assertThat (length result \<ge> n)) (\<lambda>_.
       let (digits, (carry, high)) = digitLoop 0 0 n (multiplyAddStep source factor) (result, (summand, 0))
       in if length digits > n
          then Inr (for_up (Suc n) (length digits) (\<lambda>k r. r[k := 0]) (digits[n := carry + high]))
          else andThen (assertThat (carry + high = 0)) (\<lambda>_. Inr digits)))"

definition inplaceMultiplyAdd :: "jsBigInt \<Rightarrow> digit \<Rightarrow> digit \<Rightarrow> (js_error, jsBigInt) result" where
  "inplaceMultiplyAdd x factor summand =
     andThen (internalMultiplyAdd None factor summand (bigLength x) (m_data x)) (\<lambda>digits.
       Inr (x\<lparr>m_data := digits\<rparr>))"

definition multiplyAccumulateStep :: "jsBigInt \<Rightarrow> digit \<Rightarrow> nat \<Rightarrow> digit \<Rightarrow> digit \<times> digit \<Rightarrow> digit \<times> (digit \<times> digit)" where
  "multiplyAccumulateStep multiplicand multiplier i old st =
     (let (carry, high) = st;
          acc = old;
          newCarry = 0;
          (acc, newCarry) = digitAdd acc high newCarry;
          (acc, newCarry) = digitAdd acc carry newCarry;
          multiplicandDigit = digitAt multiplicand i;
          (low, high) = digitMul multiplier multiplicandDigit;
          (acc, newCarry) = digitAdd acc low newCarry
      in (acc, (newCarry, high)))"

function accumulateCarry :: "digit list \<Rightarrow> nat \<Rightarrow> digit \<Rightarrow> digit \<Rightarrow> (js_error, digit list) result" where
  "accumulateCarry accumulator accumulatorIndex carry high =
     (if carry \<noteq> 0 \<or> high \<noteq> 0
      then if accumulatorIndex < length accumulator
        then let acc = accumulator ! accumulatorIndex;
                 newCarry = 0;
                 (acc, newCarry) = digitAdd acc high newCarry;
                 high = 0;
                 (acc, newCarry) = digitAdd acc carry newCarry
             in accumulateCarry (accumulator[accumulatorIndex := acc]) (Suc accumulatorIndex) newCarry high
        else Inl AssertionFailed
      else Inr accumulator)"
  by pat_completeness auto
termination
  by (relation "measure (\<lambda>(accumulator, accumulatorIndex, carry, high). length accumulator - accumulatorIndex)") auto

declare accumulateCarry.simps [simp del]

definition multiplyAccumulate :: "jsBigInt \<Rightarrow> digit \<Rightarrow> digit list \<Rightarrow> nat \<Rightarrow> (js_error, digit list) result" where
  "multiplyAccumulate multiplicand multiplier accumulator accumulatorIndex =
     andThen (assertThat (length accumulator > bigLength multiplicand + accumulatorIndex)) (\<lambda>_.
     if multiplier = 0 then Inr accumulator
     else let (digits, (carry, high)) =
                digitLoop accumulatorIndex 0 (bigLength multiplicand)
                  (multiplyAccumulateStep multiplicand multiplier) (accumulator, (0, 0))
       in accumulateCarry digits (accumulatorIndex + bigLength multiplicand) carry high)"

definition multiplyImpl :: "js_env \<Rightarrow> jsBigInt \<Rightarrow> jsBigInt \<Rightarrow> (js_error, jsBigInt) result" where
  "multiplyImpl env x y =
     (if isZero x then Inr x
      else if isZero y then Inr y
      else let resultLength = bigLength x + bigLength y
        in andThen (createWithLength env resultLength) (\<lambda>result.
           let result = initializeWithZero result
           in andThen (for_up 0 (bigLength x)
                (\<lambda>i acc. andThen acc (\<lambda>digits. multiplyAccumulate y (digitAt x i) digits i))
                (Inr (m_data result))) (\<lambda>digits.
              rightTrim env (setSign (result\<lparr>m_data := digits\<rparr>) (m_sign x \<noteq> m_sign y)))))"

function exponentiateLoop :: "js_env \<Rightarrow> jsBigInt option \<Rightarrow> jsBigInt \<Rightarrow> nat \<Rightarrow> (js_error, jsBigInt option) result" where
  "exponentiateLoop env result runningSquare n =
     (if n = 0 then Inr result
      else andThen (multiplyImpl env runningSquare runningSquare) (\<lambda>runningSquare.
        if n mod 2 = 1
        then (case result of
                None \<Rightarrow> exponentiateLoop env (Some runningSquare) runningSquare (n div 2)
              | Some r \<Rightarrow> andThen (multiplyImpl env r runningSquare) (\<lambda>r.
                  exponentiateLoop env (Some r) runningSquare (n div 2)))
        else exponentiateLoop env result runningSquare (n div 2)))"
  by pat_completeness auto
termination
  by (relation "measure (\<lambda>(env, result, runningSquare, n). n)") auto

declare exponentiateLoop.simps [simp del]

text \<open>The part of \<^verbatim>\<open>exponentiateImpl\<close> after the checks on the exponent: the fast path for \<^verbatim>\<open>2^n\<close>, then repeated squaring.\<close>

definition exponentiateSmall :: "js_env \<Rightarrow> jsBigInt \<Rightarrow> nat \<Rightarrow> (js_error, jsBigInt) result" where
  "exponentiateSmall env base n =
     (if bigLength base = 1 \<and> digitAt base 0 = 2
      then let neededDigits = 1 + n div digitBits
        in andThen (createWithLength env neededDigits) (\<lambda>result.
           let result = initializeWithZero result;
               msd = push_bit (n mod digitBits) 1;
               result = setDigit result (neededDigits - 1) msd
           in Inr (if m_sign base then setSign result (n mod 2 = 1) else result))
      else let result = (if n mod 2 = 1 then Some base else None)
        in andThen (exponentiateLoop env result base (n div 2)) (\<lambda>result.
           case result of Some r \<Rightarrow> Inr r | None \<Rightarrow> Inl NullResult))"

definition exponentiateImpl :: "js_env \<Rightarrow> jsBigInt \<Rightarrow> jsBigInt \<Rightarrow> (js_error, jsBigInt) result" where
  "exponentiateImpl env base exponent =
     (if m_sign exponent then Inl (RangeError ''Negative exponent is not allowed'')
      else if isZero exponent then createFromInt32 env 1
      else if isZero base then Inr base
      else if bigLength base = 1 \<and> digitAt base 0 = 1
      then if m_sign base \<and> digitAt exponent 0 AND 1 = 0 then unaryMinusImpl env base else Inr base
      else if bigLength exponent > 1
      then throwOutOfMemoryError env ''BigInt generated from this operation is too big''
      else let expValue = digitAt exponent 0
        in if expValue = 1 then Inr base
           else if unat expValue \<ge> maxLengthBits
           then throwOutOfMemoryError env ''BigInt generated from this operation is too big''
           else let n = unat expValue
             in exponentiateSmall env base n)"


section \<open>Multiplying by a digit\<close>

interpretation multiplyAdd: carry_chain "multiplyAddStep source factor" "\<lambda>_. True" "\<lambda>(carry, high). uint carry + uint high"
    "\<lambda>i old. uint (case source of None \<Rightarrow> old | Some ds \<Rightarrow> ds ! i) * uint factor" for source factor
proof
  fix c c' :: "digit \<times> digit" and d old i
  define current where "current = (case source of None \<Rightarrow> old | Some ds \<Rightarrow> ds ! i)"
  obtain carry high where c: "c = (carry, high)" by fastforce
  assume "multiplyAddStep source factor i old c = (d, c')"
  then obtain low newHigh s1 n1 n2 where e: "digitMul current factor = (low, newHigh)"
      "digitAdd low high 0 = (s1, n1)" "digitAdd s1 carry n1 = (d, n2)" "c' = (n2, newHigh)"
    by (auto simp: multiplyAddStep_def Let_def c current_def split: prod.splits)
  note l1 = digitAdd_law [OF e(2)]
  have "uint n1 \<le> 1" using l1(2) by simp
  then have "uint d + digitBase * uint n2 = uint s1 + uint carry + digitBase * uint n1"
    using digitAdd_law(1) [OF e(3)] by (simp add: digitBase_num)
  then show "uint d + digitBase * (case c' of (carry, high) \<Rightarrow> uint carry + uint high)
      = uint (case source of None \<Rightarrow> old | Some ds \<Rightarrow> ds ! i) * uint factor
        + (case c of (carry, high) \<Rightarrow> uint carry + uint high) \<and> True"
    using l1(1) digitMul_law(1) [OF e(1)] by (simp add: c e(4) distrib_left flip: current_def)
qed

interpretation multiplyAccumulate: carry_chain "multiplyAccumulateStep y m" "\<lambda>_. True" "\<lambda>(carry, high). uint carry + uint high"
    "\<lambda>i old. uint old + uint m * uint (digitAt y i)" for y m
proof
  fix c c' :: "digit \<times> digit" and d old i
  obtain carry high where c: "c = (carry, high)" by fastforce
  assume "multiplyAccumulateStep y m i old c = (d, c')"
  then obtain a1 n1 a2 n2 low h n3 where e: "digitAdd old high 0 = (a1, n1)" "digitAdd a1 carry n1 = (a2, n2)"
      "digitMul m (digitAt y i) = (low, h)" "digitAdd a2 low n2 = (d, n3)" "c' = (n3, h)"
    by (auto simp: multiplyAccumulateStep_def Let_def c split: prod.splits)
  note l1 = digitAdd_law [OF e(1)]
  have n1: "uint n1 \<le> 1" using l1(2) by simp
  note l2 = digitAdd_law [OF e(2)]
  have n2: "uint n2 \<le> 2" "uint a2 + digitBase * uint n2 = uint a1 + uint carry + digitBase * uint n1"
    using l2 n1 by (auto simp: digitBase_num)
  have "uint d + digitBase * uint n3 = uint a2 + uint low + digitBase * uint n2"
    using digitAdd_law(1) [OF e(4)] n2(1) by (auto simp: digitBase_num)
  then show "uint d + digitBase * (case c' of (carry, high) \<Rightarrow> uint carry + uint high)
      = uint old + uint m * uint (digitAt y i) + (case c of (carry, high) \<Rightarrow> uint carry + uint high) \<and> True"
    using l1(1) n2(2) digitMul_law(1) [OF e(3)] by (simp add: c e(5) distrib_left)
qed

text \<open>What is left of carry and high after the last digit is one digit: it does not wrap.\<close>

lemma multiplyAdd_top:
  assumes v: "v + digitBase ^ n * (uint (carry :: digit) + uint (high :: digit)) = s * uint (factor :: digit) + uint (summand :: digit)"
    and "0 \<le> v" and "0 \<le> s" and "s < digitBase ^ n"
  shows "uint (carry + high) = uint carry + uint high"
proof -
  have "s * uint factor \<le> (digitBase ^ n - 1) * (digitBase - 1)"
    using assms(3,4) uint_less_digitBase [of factor] by (intro mult_mono) auto
  then have "s * uint factor + uint summand \<le> digitBase ^ n * (digitBase - 1)"
    using uint_less_digitBase [of summand] by (simp add: algebra_simps del: uint_less_digitBase)
  then have "digitBase ^ n * (uint carry + uint high) \<le> digitBase ^ n * (digitBase - 1)"
    using v assms(2) by linarith
  then have "uint carry + uint high \<le> digitBase - 1"
    by (simp add: mult_le_cancel_left)
  then show ?thesis by (simp add: uint_word_ariths digitBase_num)
qed

lemma fill_zeros_for_up:
  "k \<le> length r \<Longrightarrow> for_up k (length r) (\<lambda>k r. r[k := 0]) r = take k r @ replicate (length r - k) 0" for r :: "digit list"
proof -
  assume k: "k \<le> length r"
  have "for_up k (length r) (\<lambda>k r. r[k := 0]) r = take k r @ replicate (length r - k) 0 @ drop (length r) r"
    by (rule for_up_inv [where I = "\<lambda>i t. t = take k r @ replicate (i - k) 0 @ drop i r"])
      (auto simp: k list_update_append Suc_diff_le replicate_append_same list_update_beyond min_absorb2
        simp flip: Cons_nth_drop_Suc replicate_Suc)
  then show ?thesis by simp
qed

lemma internalMultiplyAdd_correct:
  fixes result :: "digit list" and n :: nat
  defines "S \<equiv> \<lambda>source. take n (case source of None \<Rightarrow> result | Some ds \<Rightarrow> ds)"
  assumes "n \<le> length (case source of None \<Rightarrow> result | Some ds \<Rightarrow> ds)" and n: "n \<le> length result"
    and fits: "dval (S source) * uint factor + uint summand < digitBase ^ length result"
  shows "\<exists>digits. internalMultiplyAdd source factor summand n result = Inr digits \<and> length digits = length result
     \<and> dval digits = dval (S source) * uint factor + uint summand"
proof -
  obtain r carry high where loop: "digitLoop 0 0 n (multiplyAddStep source factor) (result, (summand, 0)) = (r, (carry, high))"
    by (metis prod.exhaust)
  have len: "length r = length result" using digitLoop_frame(1) [OF loop] by simp
  have sum: "(\<Sum>i<n. digitBase ^ i * (uint (case source of None \<Rightarrow> result ! i | Some ds \<Rightarrow> ds ! i) * uint factor))
      = dval (S source) * uint factor"
    using dval_sum_scaled [of 0 n "case source of None \<Rightarrow> result | Some ds \<Rightarrow> ds" "uint factor"] assms(2)
    by (cases source) (simp_all add: S_def mult.commute)
  have v: "dval (take n r) + digitBase ^ n * (uint carry + uint high) = dval (S source) * uint factor + uint summand"
    using multiplyAdd.loop_prefix(1) [OF loop] n sum by (simp add: option.case_distrib)
  have top: "uint (carry + high) = uint carry + uint high"
    using v by (rule multiplyAdd_top) (use dval_bound [of "S source"] assms(2) in \<open>auto simp: S_def split: option.splits\<close>)
  show ?thesis
  proof (cases "length result > n")
    case True
    let ?r = "take n r @ [carry + high] @ replicate (length result - Suc n) 0"
    have "internalMultiplyAdd source factor summand n result = Inr ?r"
      using assms(2) n True len fill_zeros_for_up [of "Suc n" "r[n := carry + high]"]
      by (simp add: internalMultiplyAdd_def loop take_Suc_update)
    then show ?thesis using v top True len by (simp add: dval_append)
  next
    case False
    then have n': "n = length r" using n len by simp
    have "dval r + digitBase ^ length r * uint (carry + high) < digitBase ^ length r"
      using v fits len n' top by simp
    then have zero: "carry + high = 0"
      using dval_nonneg [of r] mult_left_mono [OF uint_ge_1, of "carry + high" "digitBase ^ length r"]
      by fastforce
    then have "internalMultiplyAdd source factor summand n result = Inr r"
      using assms(2) n n' len unfolding internalMultiplyAdd_def loop by simp
    then show ?thesis
      using v len n' top zero by simp
  qed
qed


section \<open>Long multiplication\<close>

lemma accumulateCarry_correct:
  assumes "dval acc + digitBase ^ i * (uint carry + uint high) < digitBase ^ length acc" and "i \<le> length acc"
  shows "\<exists>digits. accumulateCarry acc i carry high = Inr digits \<and> length digits = length acc
     \<and> dval digits = dval acc + digitBase ^ i * (uint carry + uint high)"
  using assms
proof (induction acc i carry high rule: accumulateCarry.induct)
  case (1 acc i carry high)
  show ?case
  proof (cases "carry = 0 \<and> high = 0")
    case True
    then show ?thesis by (simp add: accumulateCarry.simps [of acc i])
  next
    case False
    then have pos: "1 \<le> uint carry + uint high"
      using uint_ge_1 [of carry] uint_ge_1 [of high] uint_nonneg [of carry] uint_nonneg [of high] by linarith
    have i: "i < length acc"
    proof (rule ccontr)
      assume "\<not> i < length acc"
      then have "digitBase ^ length acc * 1 \<le> digitBase ^ i * (uint carry + uint high)"
        using "1.prems"(2) pos by (intro mult_mono) auto
      then show False using "1.prems"(1) dval_nonneg [of acc] by linarith
    qed
    obtain a1 n1 where e1: "digitAdd (acc ! i) high 0 = (a1, n1)" by fastforce
    obtain a2 n2 where e2: "digitAdd a1 carry n1 = (a2, n2)" by fastforce
    note l1 = digitAdd_law [OF e1]
    have "uint n1 \<le> 1" using l1(2) by simp
    then have "uint a2 + digitBase * uint n2 = uint (acc ! i) + (uint carry + uint high)"
      using l1(1) digitAdd_law(1) [OF e2] by (simp add: digitBase_num)
    then have "digitBase ^ i * uint a2 + digitBase ^ Suc i * uint n2
        = digitBase ^ i * uint (acc ! i) + digitBase ^ i * (uint carry + uint high)"
      by (metis distrib_left mult.assoc power_Suc2)
    then have step: "dval (acc[i := a2]) + digitBase ^ Suc i * uint n2 = dval acc + digitBase ^ i * (uint carry + uint high)"
      using dval_update [OF i, of a2] by simp
    have "accumulateCarry acc i carry high = accumulateCarry (acc[i := a2]) (Suc i) n2 0"
      using False i e1 e2 by (simp add: accumulateCarry.simps [of acc i])
    moreover have "carry \<noteq> 0 \<or> high \<noteq> 0" using False by simp
    ultimately show ?thesis
      using "1.IH" [OF _ i refl refl e1 [symmetric] refl refl e2 [symmetric] refl] "1.prems"(1) step i by simp
  qed
qed

lemma multiplyAccumulate_correct:
  assumes "length acc > bigLength y + i"
    and fits: "dval acc + digitBase ^ i * (uint m * dval (m_data y)) < digitBase ^ length acc"
  shows "\<exists>digits. multiplyAccumulate y m acc i = Inr digits \<and> length digits = length acc
     \<and> dval digits = dval acc + digitBase ^ i * (uint m * dval (m_data y))"
proof (cases "m = 0")
  case True
  then show ?thesis using assms by (simp add: multiplyAccumulate_def)
next
  case False
  obtain r carry high where loop:
      "digitLoop i 0 (bigLength y) (multiplyAccumulateStep y m) (acc, (0, 0)) = (r, (carry, high))"
    by (metis prod.exhaust)
  have len: "length r = length acc" using digitLoop_frame(1) [OF loop] by simp
  have v: "dval r + digitBase ^ (i + bigLength y) * (uint carry + uint high) = dval acc + digitBase ^ i * (uint m * dval (m_data y))"
    using multiplyAccumulate.loop_change [OF loop] assms(1) dval_sum_scaled [of 0 "bigLength y" "m_data y" "uint m"]
    by (simp add: digitAt_def)
  have "multiplyAccumulate y m acc i = accumulateCarry r (i + bigLength y) carry high"
    using assms(1) False by (simp add: multiplyAccumulate_def loop)
  then show ?thesis
    using accumulateCarry_correct [of r "i + bigLength y" carry high] v fits len assms(1) by simp
qed

text \<open>After \<open>i\<close> rounds the accumulator holds the product of the low \<open>i\<close> digits; it never overflows.\<close>

lemma multiply_loop:
  assumes "\<not> isZero y" and "i \<le> bigLength x"
  shows "\<exists>digits. for_up 0 i (\<lambda>i acc. andThen acc (\<lambda>digits. multiplyAccumulate y (digitAt x i) digits i))
       (Inr (replicate (bigLength x + bigLength y) 0)) = Inr digits
     \<and> length digits = bigLength x + bigLength y \<and> dval digits = dval (take i (m_data x)) * dval (m_data y)"
  using assms(2)
proof (induction i)
  case 0
  then show ?case by simp
next
  case (Suc i)
  then obtain digits where ih: "for_up 0 i (\<lambda>i acc. andThen acc (\<lambda>digits. multiplyAccumulate y (digitAt x i) digits i))
       (Inr (replicate (bigLength x + bigLength y) 0)) = Inr digits"
     "length digits = bigLength x + bigLength y" "dval digits = dval (take i (m_data x)) * dval (m_data y)"
    by auto
  have grow: "dval digits + digitBase ^ i * (uint (digitAt x i) * dval (m_data y)) = dval (take (Suc i) (m_data x)) * dval (m_data y)"
    using Suc.prems by (simp add: ih(3) dval_take_Suc digitAt_def algebra_simps)
  have "dval (take (Suc i) (m_data x)) < digitBase ^ bigLength x"
    using dval_bound [of "take (Suc i) (m_data x)"] Suc.prems
      power_increasing [of "Suc i" "bigLength x" digitBase] by (simp add: min_absorb2)
  then have "dval (take (Suc i) (m_data x)) * dval (m_data y) < digitBase ^ bigLength x * digitBase ^ bigLength y"
    using dval_bound [of "m_data y"] by (intro mult_strict_mono') auto
  then show ?case
    using multiplyAccumulate_correct [of y i digits "digitAt x i"] Suc.prems assms(1) grow ih
    by (simp add: for_up_last power_add isZero_def)
qed

lemma multiplyImpl_computes [outcome_intros]:
  assumes "canonical x" and "canonical y"
  shows "computes env (bigLength x + bigLength y) (multiplyImpl env x y) (bval x * bval y)"
proof -
  consider (zero) "isZero x \<or> isZero y" | (both) "\<not> isZero x" "\<not> isZero y" by blast
  then show ?thesis
  proof cases
    case zero
    then show ?thesis using assms by (auto simp: multiplyImpl_def represents_def isZero_def)
  next
    case both
    let ?n = "bigLength x + bigLength y"
    obtain digits where loop: "for_up 0 (bigLength x) (\<lambda>i acc. andThen acc (\<lambda>digits. multiplyAccumulate y (digitAt x i) digits i))
         (Inr (replicate ?n 0)) = Inr digits" "length digits = ?n" "dval digits = dval (m_data x) * dval (m_data y)"
      using multiply_loop [OF both(2), of "bigLength x" x] by auto
    have "computes env ?n (andThen (createWithLength env ?n) (\<lambda>result.
           let result = initializeWithZero result
           in andThen (for_up 0 (bigLength x)
                (\<lambda>i acc. andThen acc (\<lambda>digits. multiplyAccumulate y (digitAt x i) digits i))
                (Inr (m_data result))) (\<lambda>digits.
              rightTrim env (setSign (result\<lparr>m_data := digits\<rparr>) (m_sign x \<noteq> m_sign y))))) (bval x * bval y)"
    proof (rule computes_andThen [OF createWithLength_outcome order_refl])
      fix result assume fr: "fresh ?n result"
      then have "bigLength result = ?n" by (simp add: fresh_def)
      then show "computes env ?n (let result = initializeWithZero result
           in andThen (for_up 0 (bigLength x)
                (\<lambda>i acc. andThen acc (\<lambda>digits. multiplyAccumulate y (digitAt x i) digits i))
                (Inr (m_data result))) (\<lambda>digits.
              rightTrim env (setSign (result\<lparr>m_data := digits\<rparr>) (m_sign x \<noteq> m_sign y)))) (bval x * bval y)"
        using loop both by (simp add: isZero_def bval_def rightTrim_setSign [OF fr])
    qed
    then show ?thesis using both by (simp add: multiplyImpl_def)
  qed
qed


section \<open>Exponentiation\<close>

lemma canonical_length_le:
  assumes "canonical x" and "\<bar>bval x\<bar> < digitBase ^ n"
  shows "bigLength x \<le> n"
proof (cases "isZero x")
  case False
  then have "digitBase ^ (bigLength x - 1) < digitBase ^ n"
    using assms dval_lower [of "m_data x"] by (simp add: canonical_def isZero_def abs_bval del: power_strict_increasing_iff)
  then show ?thesis using False by (simp add: isZero_def)
qed (simp add: isZero_def)

lemma product_length:
  assumes "canonical x" and "canonical y" and "\<not> isZero x" and "\<not> isZero y" and "\<bar>bval x * bval y\<bar> < digitBase ^ n"
  shows "bigLength x + bigLength y \<le> n + 1"
proof -
  have "digitBase ^ (bigLength x - 1) * digitBase ^ (bigLength y - 1) \<le> dval (m_data x) * dval (m_data y)"
    using assms by (intro mult_mono dval_lower) (auto simp: canonical_def isZero_def)
  then have "digitBase ^ (bigLength x - 1 + (bigLength y - 1)) < digitBase ^ n"
    using assms(5) by (simp add: abs_mult abs_bval power_add)
  then show ?thesis using assms(3,4) by (simp add: isZero_def)
qed

lemma multiplyImpl_fits:
  assumes "represents x a" and "represents y b" and "\<bar>a * b\<bar> < digitBase ^ n"
  shows "computes env (n + 1) (multiplyImpl env x y) (a * b)"
proof (cases "isZero x \<or> isZero y")
  case True
  then show ?thesis using assms by (auto simp: multiplyImpl_def represents_def isZero_def)
next
  case False
  then show ?thesis
    using assms multiplyImpl_computes [of x y env] product_length [of x y n]
    by (auto simp: represents_def intro: computes_mono)
qed

lemma abs_le_mult: "a \<noteq> 0 \<Longrightarrow> \<bar>b\<bar> \<le> \<bar>a * b\<bar>" for a b :: int
  using mult_right_mono [of 1 "\<bar>a\<bar>" "\<bar>b\<bar>"] by (simp add: abs_mult)

lemma odd_even_power: "(s :: int) ^ n = (if n mod 2 = 1 then s * (s * s) ^ (n div 2) else (s * s) ^ (n div 2))"
proof -
  have "s ^ n = s ^ (2 * (n div 2) + n mod 2)" by simp
  also have "\<dots> = (s * s) ^ (n div 2) * s ^ (n mod 2)" by (simp only: power_add power_mult power2_eq_square)
  finally show ?thesis by (cases "n mod 2 = 1") auto
qed

lemma exponentiateLoop_correct:
  assumes "represents rs s" and "s \<noteq> 0"
    and "case res of None \<Rightarrow> r = 1 | Some a \<Rightarrow> represents a r" and "r \<noteq> 0"
    and "\<bar>r * (s * s) ^ n\<bar> < digitBase ^ L"
  shows "outcome (oom env (L + 1))
     (\<lambda>res'. (res' = None \<longrightarrow> res = None \<and> n = 0) \<and> (\<forall>a. res' = Some a \<longrightarrow> represents a (r * (s * s) ^ n)))
     (exponentiateLoop env res rs n)"
  using assms
proof (induction env res rs n arbitrary: s r rule: exponentiateLoop.induct)
  case (1 env res rs n)
  show ?case
  proof (cases "n = 0")
    case True
    then show ?thesis using "1.prems" by (auto simp: exponentiateLoop.simps [of env res rs 0] split: option.splits)
  next
    case False
    define q where "q = s * s"
    have q: "q \<noteq> 0" using "1.prems"(2) by (simp add: q_def)
    have rest: "q ^ n = (if n mod 2 = 1 then q * (q * q) ^ (n div 2) else (q * q) ^ (n div 2))"
      by (rule odd_even_power)
    have "\<bar>q\<bar> \<le> \<bar>(r * q ^ (n - 1)) * q\<bar>" using q "1.prems"(4) by (intro abs_le_mult) auto
    also have "(r * q ^ (n - 1)) * q = r * q ^ n" using False by (cases n) auto
    finally have qL: "\<bar>q\<bar> < digitBase ^ L" using "1.prems"(5) by (simp add: q_def)
    have step: "outcome (oom env (L + 1)) Q (andThen (multiplyImpl env rs rs) f)"
      if "\<And>rs'. represents rs' q \<Longrightarrow> outcome (oom env (L + 1)) Q (f rs')" for f and Q :: "jsBigInt option \<Rightarrow> bool"
      using multiplyImpl_fits [OF "1.prems"(1,1), of L env, folded q_def, OF qL] that
      unfolding computes_def by (rule oom_andThen [OF _ order_refl])
    show ?thesis
      unfolding exponentiateLoop.simps [of env res rs n] q_def [symmetric]
    proof (simp only: False if_False, rule step)
      fix rs' assume rs': "represents rs' q"
      consider (even) "n mod 2 \<noteq> 1" | (first) "n mod 2 = 1" "res = None"
        | (later) a where "n mod 2 = 1" "res = Some a" by blast
      then show "outcome (oom env (L + 1))
          (\<lambda>res'. (res' = None \<longrightarrow> res = None \<and> False) \<and> (\<forall>a. res' = Some a \<longrightarrow> represents a (r * q ^ n)))
          (if n mod 2 = 1
           then case res of None \<Rightarrow> exponentiateLoop env (Some rs') rs' (n div 2)
              | Some a \<Rightarrow> andThen (multiplyImpl env a rs') (\<lambda>a. exponentiateLoop env (Some a) rs' (n div 2))
           else exponentiateLoop env res rs' (n div 2))"
      proof cases
        case even
        then have "n div 2 \<noteq> 0" using False by presburger
        with even show ?thesis
          using "1.IH"(3) [OF False even rs' q "1.prems"(3,4)] "1.prems"(5)
          unfolding q_def [symmetric] rest by simp
      next
        case first
        then have r: "r = 1" using "1.prems"(3) by simp
        show ?thesis
          using "1.IH"(1) [OF False first rs' q, of q] rs' q "1.prems"(5) first
          unfolding q_def [symmetric] rest r by simp
      next
        case later
        then have a: "represents a r" using "1.prems"(3) by simp
        have rq: "r * q ^ n = r * q * (q * q) ^ (n div 2)" using rest later by simp
        have "\<bar>r * q\<bar> \<le> \<bar>(q * q) ^ (n div 2) * (r * q)\<bar>" using q by (intro abs_le_mult) auto
        also have "(q * q) ^ (n div 2) * (r * q) = r * q ^ n" using rq by (simp only: mult.commute)
        finally have rqL: "\<bar>r * q\<bar> < digitBase ^ L" using "1.prems"(5) by (simp add: q_def)
        have "outcome (oom env (L + 1))
            (\<lambda>res'. (res' = None \<longrightarrow> res = None \<and> False) \<and> (\<forall>a. res' = Some a \<longrightarrow> represents a (r * q ^ n)))
            (andThen (multiplyImpl env a rs') (\<lambda>a. exponentiateLoop env (Some a) rs' (n div 2)))"
        proof (rule oom_andThen [OF multiplyImpl_fits [OF a rs' rqL, unfolded computes_def] order_refl])
          fix a' assume a': "represents a' (r * q)"
          show "outcome (oom env (L + 1))
              (\<lambda>res'. (res' = None \<longrightarrow> res = None \<and> False) \<and> (\<forall>a. res' = Some a \<longrightarrow> represents a (r * q ^ n)))
              (exponentiateLoop env (Some a') rs' (n div 2))"
            using "1.IH"(2) [OF False later rs' q, of "r * q" a'] a' q "1.prems"(4,5)
            unfolding q_def [symmetric] rq by simp
        qed
        then show ?thesis using later by simp
      qed
    qed
  qed
qed

text \<open>
  For a base of magnitude at least two, an exponent that the code refuses has a result that no
  BigInt can hold.
\<close>

lemma digitBase_maxLength: "digitBase ^ maxLength = 2 ^ maxLengthBits"
proof -
  have "maxLengthBits = 64 * maxLength" by (simp add: maxLength_eq maxLengthBits_def)
  then show ?thesis unfolding digitBase_def by (metis power_mult)
qed

lemma power_too_big:
  assumes "2 \<le> \<bar>b\<bar>" and "maxLengthBits \<le> e"
  shows "digitBase ^ maxLength \<le> \<bar>b ^ e\<bar>"
proof -
  have "2 ^ maxLengthBits \<le> (2 :: int) ^ e" using assms(2) by (intro power_increasing) auto
  also have "\<dots> \<le> \<bar>b\<bar> ^ e" using assms(1) by (intro power_mono) auto
  finally show ?thesis by (simp add: power_abs digitBase_maxLength)
qed

lemma refuse_too_big:
  assumes "digitBase ^ maxLength \<le> v" and "v < digitBase ^ L"
  shows "computes env (L + 1) (throwOutOfMemoryError env message) w"
proof -
  have "digitBase ^ maxLength < digitBase ^ L" using assms by (rule le_less_trans)
  then have "\<not> grants env L" by (simp add: grants_def)
  then show ?thesis unfolding computes_def by (intro throwOutOfMemoryError_outcome [of L]) auto
qed

lemma canonical_single:
  assumes "canonical x" and "bigLength x = 1"
  shows "m_data x = [digitAt x 0]" "digitAt x 0 \<noteq> 0" "\<bar>bval x\<bar> = uint (digitAt x 0)"
proof -
  obtain d where "m_data x = [d]" using assms(2) by (cases "m_data x") auto
  then show "m_data x = [digitAt x 0]" "digitAt x 0 \<noteq> 0" "\<bar>bval x\<bar> = uint (digitAt x 0)"
    using assms(1) by (simp_all add: digitAt_def canonical_def abs_bval)
qed

lemma bval_parity:
  assumes "\<not> isZero x"
  shows "digitAt x 0 AND 1 = 0 \<longleftrightarrow> even (bval x)"
proof -
  obtain d ds where ds: "m_data x = d # ds" using assms by (cases "m_data x") (auto simp: isZero_def)
  have "even digitBase" by (simp add: digitBase_num)
  then have "even (dval (m_data x)) \<longleftrightarrow> even (uint d)" by (simp add: ds)
  moreover have "even (bval x) \<longleftrightarrow> even (dval (m_data x))" by (simp add: bval_def)
  moreover have "d AND 1 = 0 \<longleftrightarrow> even (uint d)"
    using and_one_odd [of d] even_nat_iff [OF uint_nonneg, of d] unfolding unat_eq_nat_uint by blast
  ultimately show ?thesis by (simp only: digitAt_def ds nth_Cons_0)
qed

lemma minus_one_power:
  fixes b :: int
  assumes "\<bar>b\<bar> = 1" and "e \<noteq> 0"
  shows "b ^ e = (if b < 0 \<and> even e then - b else b)"
proof -
  consider "b = 1" | "b = - 1" using assms(1) by linarith
  then show ?thesis using assms(2) by cases (simp_all add: minus_one_power_iff)
qed

lemma dval_single_bit: "m < 64 \<Longrightarrow> dval ((replicate (Suc k) 0)[k := push_bit m 1]) = digitBase ^ k * 2 ^ m"
  using dval_update [of k "replicate (Suc k) 0" "push_bit m 1"]
  by (simp add: uint_2_power del: replicate_Suc)

lemma exponentiateSmall_computes [outcome_intros]:
  assumes "canonical base" and "\<not> isZero base" and "2 \<le> n" and fits: "\<bar>bval base ^ n\<bar> < digitBase ^ L"
  shows "computes env (L + 1) (exponentiateSmall env base n) (bval base ^ n)"
proof (cases "bigLength base = 1 \<and> digitAt base 0 = 2")
  case True
  define k where "k = n div digitBits"
  have k: "digitBase ^ k * 2 ^ (n mod digitBits) = 2 ^ n"
    unfolding digitBase_def k_def digitBits_def power_mult [symmetric] power_add [symmetric] by simp
  have b: "bval base = (if m_sign base then - 2 else 2)"
    using True canonical_single(1) [OF assms(1)] by (simp add: bval_def)
  then have "\<bar>bval base ^ n\<bar> = 2 ^ n" by (simp add: power_abs)
  then have "digitBase ^ k * 2 ^ (n mod digitBits) < digitBase ^ L" using fits k by simp
  moreover have "digitBase ^ k * 1 \<le> digitBase ^ k * 2 ^ (n mod digitBits)" by (intro mult_left_mono) auto
  ultimately have "digitBase ^ k < digitBase ^ L" by linarith
  then have "k < L" by simp
  have "computes env (1 + k) (andThen (createWithLength env (1 + k)) (\<lambda>result.
      let result = initializeWithZero result; msd = push_bit (n mod digitBits) 1; result = setDigit result (1 + k - 1) msd
      in Inr (if m_sign base then setSign result (n mod 2 = 1) else result))) (bval base ^ n)"
  proof (rule computes_andThen [OF createWithLength_outcome order_refl])
    fix result assume fr: "fresh (1 + k) result"
    define r where "r = setDigit (initializeWithZero result) k (push_bit (n mod digitBits) 1)"
    have data: "m_data r = (replicate (Suc k) 0)[k := push_bit (n mod digitBits) 1]"
      using fr by (simp add: r_def fresh_def del: replicate_Suc)
    have val: "dval (m_data r) = 2 ^ n"
      using dval_single_bit [of "n mod digitBits" k] k unfolding data by (simp add: digitBits_def)
    have "last (m_data r) \<noteq> 0"
      unfolding data by (simp add: last_conv_nth digitBits_def del: replicate_Suc)
    moreover have "bigLength r = Suc k" "m_data r \<noteq> []" unfolding data by (simp_all del: replicate_Suc)
    moreover have "\<not> m_sign r" "Suc k \<le> maxLength" using fr by (simp_all add: r_def fresh_def)
    moreover have "bval base ^ n = (if m_sign base \<and> n mod 2 = 1 then - (2 ^ n) else 2 ^ n)"
      unfolding b by (cases "even n") (auto simp: odd_iff_mod_2_eq_one)
    ultimately have "represents (if m_sign base then setSign r (n mod 2 = 1) else r) (bval base ^ n)"
      using val by (simp add: represents_def canonical_def bval_def)
    then show "computes env (1 + k) (let result = initializeWithZero result; msd = push_bit (n mod digitBits) 1; result = setDigit result (1 + k - 1) msd
      in Inr (if m_sign base then setSign result (n mod 2 = 1) else result)) (bval base ^ n)"
      by (simp only: r_def Let_def add_diff_cancel_left' computes_Inr)
  qed
  then show ?thesis
    using True \<open>k < L\<close> by (auto simp: exponentiateSmall_def k_def [symmetric] intro: computes_mono)
next
  case False
  have b: "bval base \<noteq> 0" using canonical_bval_0 [OF assms(1)] assms(2) by simp
  let ?r = "if n mod 2 = 1 then bval base else 1"
  have v: "?r * (bval base * bval base) ^ (n div 2) = bval base ^ n"
    using odd_even_power [of "bval base" n] by simp
  have "outcome (oom env (L + 1))
     (\<lambda>res'. (res' = None \<longrightarrow> (if n mod 2 = 1 then Some base else None) = None \<and> n div 2 = 0)
        \<and> (\<forall>a. res' = Some a \<longrightarrow> represents a (?r * (bval base * bval base) ^ (n div 2))))
     (exponentiateLoop env (if n mod 2 = 1 then Some base else None) base (n div 2))"
    by (rule exponentiateLoop_correct) (use assms b v in \<open>auto simp: represents_def\<close>)
  then have "computes env (L + 1) (andThen (exponentiateLoop env (if n mod 2 = 1 then Some base else None) base (n div 2))
      (\<lambda>result. case result of Some r \<Rightarrow> Inr r | None \<Rightarrow> Inl NullResult)) (bval base ^ n)"
    unfolding v by (rule computes_andThen [OF _ order_refl]) (use assms(3) in \<open>auto split: option.splits if_splits\<close>)
  then show ?thesis using False by (simp only: exponentiateSmall_def Let_def if_False)
qed

lemma exponentiateImpl_large:
  assumes "canonical base" and "canonical exponent"
    and big: "\<not> isZero exponent" "\<not> isZero base" "\<not> (bigLength base = 1 \<and> digitAt base 0 = 1)"
    and sign: "\<not> m_sign exponent"
    and fits: "\<bar>bval base ^ nat (bval exponent)\<bar> < digitBase ^ L"
  shows "computes env (L + 1) (exponentiateImpl env base exponent) (bval base ^ nat (bval exponent))"
proof -
  let ?e = "nat (bval exponent)"
  have two: "2 \<le> \<bar>bval base\<bar>"
  proof (rule ccontr)
    assume "\<not> 2 \<le> \<bar>bval base\<bar>"
    moreover have "bval base \<noteq> 0" using canonical_bval_0 [OF assms(1)] big(2) by simp
    ultimately have one: "\<bar>bval base\<bar> = 1" by linarith
    then have "bigLength base \<le> 1" by (intro canonical_length_le [OF assms(1)]) simp
    then have "bigLength base = 1" using big(2) unfolding isZero_def by linarith
    moreover from this have "uint (digitAt base 0) = 1" using canonical_single(3) [OF assms(1)] one by simp
    ultimately show False using big(3) uint_1_iff [of "digitAt base 0"] by simp
  qed
  have refuse: "computes env (L + 1) (throwOutOfMemoryError env message) w" if "maxLengthBits \<le> ?e" for message w
    using power_too_big [OF two that] fits by (rule refuse_too_big)
  show ?thesis
  proof (cases "bigLength exponent > 1")
    case True
    have "digitBase ^ 1 \<le> digitBase ^ (bigLength exponent - 1)" using True by (intro power_increasing) auto
    also have "\<dots> \<le> bval exponent"
      using dval_lower [of "m_data exponent"] big(1) sign assms(2) by (auto simp: canonical_def isZero_def bval_def)
    finally have "maxLengthBits \<le> ?e" by (simp add: digitBase_num maxLengthBits_def)
    then show ?thesis
      using big sign True refuse by (simp only: exponentiateImpl_def if_True if_False simp_thms)
  next
    case False
    then have len: "bigLength exponent = 1" using big(1) by (cases "bigLength exponent") (auto simp: isZero_def)
    define n where "n = unat (digitAt exponent 0)"
    have "bval exponent = uint (digitAt exponent 0)"
      using canonical_single(3) [OF assms(2) len] sign by (simp add: bval_def)
    then have e: "?e = n" by (simp add: n_def)
    consider (one) "digitAt exponent 0 = 1" | (refused) "digitAt exponent 0 \<noteq> 1" "maxLengthBits \<le> n"
      | (go) "digitAt exponent 0 \<noteq> 1" "\<not> maxLengthBits \<le> n" by blast
    then show ?thesis
    proof cases
      case one
      then have "exponentiateImpl env base exponent = Inr base"
        using big sign False by (simp only: exponentiateImpl_def Let_def if_True if_False simp_thms)
      then show ?thesis using assms(1) e one by (simp add: n_def represents_def)
    next
      case refused
      then have "exponentiateImpl env base exponent = throwOutOfMemoryError env ''BigInt generated from this operation is too big''"
        using big sign False by (simp only: exponentiateImpl_def Let_def n_def if_True if_False)
      then show ?thesis using refuse refused(2) e by simp
    next
      case go
      have "n \<noteq> 0" "n \<noteq> 1"
        using canonical_single(2) [OF assms(2) len] go(1) unfolding n_def by (metis unat_0_iff, metis unat_1 word_unat_eq_iff)
      then have "2 \<le> n" by linarith
      then have "computes env (L + 1) (exponentiateSmall env base n) (bval base ^ n)"
        using exponentiateSmall_computes [OF assms(1) big(2) _ fits [unfolded e]] by simp
      moreover have "exponentiateImpl env base exponent = exponentiateSmall env base n"
        using big sign False go by (simp only: exponentiateImpl_def Let_def n_def if_True if_False)
      ultimately show ?thesis by (simp only: e)
    qed
  qed
qed

lemma exponentiateImpl_computes [outcome_intros]:
  assumes "canonical base" and "canonical exponent" and "0 \<le> bval exponent"
    and fits: "\<bar>bval base ^ nat (bval exponent)\<bar> < digitBase ^ L"
  shows "computes env (L + 1) (exponentiateImpl env base exponent) (bval base ^ nat (bval exponent))"
proof -
  have sign: "\<not> m_sign exponent" using assms(2,3) canonical_sign by simp
  consider (e0) "isZero exponent" | (b0) "\<not> isZero exponent" "isZero base"
    | (b1) "\<not> isZero exponent" "bigLength base = 1" "digitAt base 0 = 1"
    | (big) "\<not> isZero exponent" "\<not> isZero base" "\<not> (bigLength base = 1 \<and> digitAt base 0 = 1)"
    by blast
  then show ?thesis
  proof cases
    case e0
    then have "exponentiateImpl env base exponent = createFromInt32 env 1" "bval exponent = 0"
      using sign by (simp_all only: exponentiateImpl_def if_True if_False) (simp add: isZero_def)
    then show ?thesis using computes_mono [OF createFromInt32_computes [of env 1], of "L + 1"] by simp
  next
    case b0
    then have "bval exponent \<noteq> 0" using canonical_bval_0 [OF assms(2)] by simp
    moreover have "exponentiateImpl env base exponent = Inr base"
      using b0 sign by (simp only: exponentiateImpl_def if_True if_False)
    ultimately show ?thesis
      using b0(2) assms(1,3) by (simp add: represents_def isZero_def power_0_left)
  next
    case b1
    note one = canonical_single [OF assms(1) b1(2)]
    have b: "\<bar>bval base\<bar> = 1" using one(3) b1(3) by simp
    have e: "nat (bval exponent) \<noteq> 0" using canonical_bval_0 [OF assms(2)] b1(1) assms(3) by simp
    have v: "bval base ^ nat (bval exponent) = (if bval base < 0 \<and> even (bval exponent) then - bval base else bval base)"
      using minus_one_power [OF b e] assms(3) by (simp add: even_nat_iff)
    have "computes env (L + 1) (unaryMinusImpl env base) (- bval base)"
      by (rule computes_mono [OF unaryMinusImpl_computes [OF assms(1)]]) (simp add: b1(2))
    moreover have "exponentiateImpl env base exponent = (if m_sign base \<and> digitAt exponent 0 AND 1 = 0 then unaryMinusImpl env base else Inr base)"
      using b1 sign by (simp only: exponentiateImpl_def isZero_def if_True if_False) simp
    ultimately show ?thesis
      using assms(1) bval_parity [OF b1(1)] canonical_sign [OF assms(1)] by (simp add: v represents_def)
  next
    case big
    note exponentiateImpl_large [OF assms(1,2) big sign fits]
    then show ?thesis .
  qed
qed

end
