(* ===== verification/MathExtras.thy ===== *)
theory MathExtras
  imports Prelude
begin

text \<open>
  Bit scanning from \<^verbatim>\<open>wtf/MathExtras.h\<close>: the portable \<^verbatim>\<open>clzConstexpr\<close> and \<^verbatim>\<open>ctzConstexpr\<close>, which \<^verbatim>\<open>clz\<close> and
  \<^verbatim>\<open>ctz\<close> fall back to and which the compiler builtins agree with, and \<^verbatim>\<open>hasOneBitSet\<close>.
\<close>

fun clzLoop :: "'a::len word \<Rightarrow> nat \<Rightarrow> nat" where
  "clzLoop uValue 0 = 0"
| "clzLoop uValue (Suc i) = (if drop_bit i uValue \<noteq> 0 then 0 else Suc (clzLoop uValue i))"

definition clz :: "'a::len word \<Rightarrow> nat" where
  "clz value = clzLoop value LENGTH('a)"

fun ctzLoop :: "'a::len word \<Rightarrow> nat \<Rightarrow> nat" where
  "ctzLoop uValue 0 = 0"
| "ctzLoop uValue (Suc i) = (if uValue AND 1 \<noteq> 0 then 0 else Suc (ctzLoop (drop_bit 1 uValue) i))"

definition ctz :: "'a::len word \<Rightarrow> nat" where
  "ctz value = ctzLoop value LENGTH('a)"

definition hasOneBitSet :: "'a::len word \<Rightarrow> bool" where
  "hasOneBitSet value \<longleftrightarrow> (value - 1) AND value = 0 \<and> value \<noteq> 0"

lemma drop_bit_eq_0_iff: "drop_bit i w = 0 \<longleftrightarrow> uint w < 2 ^ i" for w :: "'a::len word"
proof -
  have "drop_bit i w = 0 \<longleftrightarrow> uint w div 2 ^ i = 0"
    by (metis uint_0_iff uint_drop_bit)
  also have "\<dots> \<longleftrightarrow> uint w < 2 ^ i"
    using uint_nonneg [of w] pos_imp_zdiv_nonneg_iff [of "2 ^ i" "uint w"] zdiv_eq_0_iff [of "uint w" "2 ^ i"]
    by (smt (verit) zero_less_power)
  finally show ?thesis .
qed

lemma clzLoop_bounds:
  assumes "uint w < 2 ^ n"
  shows "clzLoop w n \<le> n" and "uint w < 2 ^ (n - clzLoop w n)"
    and "clzLoop w n < n \<Longrightarrow> 2 ^ (n - clzLoop w n - 1) \<le> uint w"
  using assms
  by (induction n) (auto simp: drop_bit_eq_0_iff not_less)

text \<open>Shifting a nonzero word left by its leading zeros puts its highest set bit on top.\<close>

lemma clz_normalises:
  fixes w :: "'a::len word"
  assumes "w \<noteq> 0"
  shows "clz w < LENGTH('a)" and "uint w * 2 ^ clz w < 2 ^ LENGTH('a)"
    and "2 ^ (LENGTH('a) - 1) \<le> uint w * 2 ^ clz w"
proof -
  have w: "uint w < 2 ^ LENGTH('a)" by (rule uint_lt2p)
  note b = clzLoop_bounds [OF w, folded clz_def]
  show lt: "clz w < LENGTH('a)"
    using b(1,2) assms uint_ge_1 [of w] by (cases "clz w = LENGTH('a)") auto
  have "uint w * 2 ^ clz w < 2 ^ (LENGTH('a) - clz w) * 2 ^ clz w"
    using b(2) by simp
  then show "uint w * 2 ^ clz w < 2 ^ LENGTH('a)"
    using lt by (simp flip: power_add)
  have "2 ^ (LENGTH('a) - clz w - 1) * 2 ^ clz w \<le> uint w * 2 ^ clz w"
    using b(3) lt by (intro mult_right_mono) auto
  moreover have "LENGTH('a) - clz w - 1 + clz w = LENGTH('a) - 1" using lt by simp
  ultimately show "2 ^ (LENGTH('a) - 1) \<le> uint w * 2 ^ clz w"
    by (metis power_add)
qed

lemma ctzLoop_power: "b < n \<Longrightarrow> b < LENGTH('a) \<Longrightarrow> ctzLoop (2 ^ b :: 'a::len word) n = b"
proof (induction b arbitrary: n)
  case 0
  then show ?case by (cases n) simp_all
next
  case (Suc b)
  then obtain m where n: "n = Suc m" "b < m" by (cases n) auto
  have "(2 ^ Suc b :: 'a word) AND 1 = 0" by (simp add: and_one_eq mod_2_eq_odd)
  moreover have "drop_bit 1 (2 ^ Suc b :: 'a word) = 2 ^ b"
    using Suc.prems by (intro bit_word_eqI) (auto simp: bit_simps)
  ultimately show ?case using Suc n by simp
qed

lemma ctz_power: "b < LENGTH('a) \<Longrightarrow> ctz (2 ^ b :: 'a::len word) = b"
  by (simp add: ctz_def ctzLoop_power)

end
