(* ===== verification/Digit_Division.thy ===== *)
theory Digit_Division
  imports Digits MathExtras
begin

text \<open>
  \<^verbatim>\<open>JSBigInt::digitDiv\<close>, the division of a two-digit number by a digit, in the portable form of
  the code (after Warren, Hacker's Delight), and \<^verbatim>\<open>productGreaterThan\<close>.
\<close>

definition halfDigitBase :: digit where
  "halfDigitBase = push_bit halfDigitBits 1"

text \<open>The loop that lowers an estimated half digit until it is not too large.\<close>

function digitDivAdjust :: "digit \<Rightarrow> digit \<Rightarrow> digit \<Rightarrow> digit \<Rightarrow> digit \<Rightarrow> digit" where
  "digitDivAdjust vn1 vn0 un q rhat =
     (if q \<ge> halfDigitBase \<or> q * vn0 > rhat * halfDigitBase + un
      then let q = q - 1;
               rhat = rhat + vn1
           in if rhat \<ge> halfDigitBase then q else digitDivAdjust vn1 vn0 un q rhat
      else q)"
  by pat_completeness auto
termination
proof (relation "measure (\<lambda>(vn1, vn0, un, q, rhat). unat q)")
  fix vn1 vn0 un q rhat x xa :: digit
  assume "q \<ge> halfDigitBase \<or> q * vn0 > rhat * halfDigitBase + un" and x: "x = q - 1"
  then have "q \<noteq> 0" by (auto simp: halfDigitBase_def halfDigitBits_def digitBits_def)
  then have "unat (q - 1) < unat q" by (simp add: unat_minus_one unat_gt_0)
  then show "((vn1, vn0, un, x, xa), (vn1, vn0, un, q, rhat)) \<in> measure (\<lambda>(vn1, vn0, un, q, rhat). unat q)"
    using x by simp
qed simp

declare digitDivAdjust.simps [simp del]

text \<open>
  The assertion \<^verbatim>\<open>high < divisor\<close> at the entry of \<^verbatim>\<open>digitDiv\<close>, which also makes the divisor nonzero and \<^verbatim>\<open>s != digitBits\<close>, is not a branch of the
  model but the premise of \<open>digitDiv_law\<close> below; every caller discharges it.
\<close>

definition digitDiv :: "digit \<Rightarrow> digit \<Rightarrow> digit \<Rightarrow> digit \<times> digit" where
  "digitDiv high low divisor =
     (let s = clz divisor;
          divisor = push_bit s divisor;
          vn1 = drop_bit halfDigitBits divisor;
          vn0 = divisor AND halfDigitMask;
          sZeroMask = signed_drop_bit (digitBits - 1) (- word_of_nat s);
          shiftMask = digitBits - 1;
          un32 = push_bit s high OR (drop_bit ((digitBits - s) AND shiftMask) low AND sZeroMask);
          un10 = push_bit s low;
          un1 = drop_bit halfDigitBits un10;
          un0 = un10 AND halfDigitMask;
          q1 = un32 div vn1;
          rhat = un32 - q1 * vn1;
          q1 = digitDivAdjust vn1 vn0 un1 q1 rhat;
          un21 = un32 * halfDigitBase + un1 - q1 * divisor;
          q0 = un21 div vn1;
          rhat = un21 - q0 * vn1;
          q0 = digitDivAdjust vn1 vn0 un0 q0 rhat;
          remainder = drop_bit s (un21 * halfDigitBase + un0 - q0 * divisor)
      in (q1 * halfDigitBase + q0, remainder))"

definition productGreaterThan :: "digit \<Rightarrow> digit \<Rightarrow> digit \<Rightarrow> digit \<Rightarrow> bool" where
  "productGreaterThan factor1 factor2 high low =
     (let (resultLow, resultHigh) = digitMul factor1 factor2
      in resultHigh > high \<or> (resultHigh = high \<and> resultLow > low))"


section \<open>The comparison of a product\<close>

lemma digit_pair_less:
  "uint (l :: digit) + digitBase * uint (h :: digit) < uint (l' :: digit) + digitBase * uint (h' :: digit)
     \<longleftrightarrow> h < h' \<or> (h = h' \<and> l < l')"
proof -
  note b = uint_less_digitBase [of l] uint_less_digitBase [of l'] uint_nonneg [of l] uint_nonneg [of l']
  consider "uint h < uint h'" | "uint h = uint h'" | "uint h' < uint h" by linarith
  then show ?thesis
  proof cases
    case 1
    then have "digitBase * (uint h + 1) \<le> digitBase * uint h'" by (intro mult_left_mono) auto
    then have "uint l + digitBase * uint h < uint l' + digitBase * uint h'"
      using b unfolding distrib_left by linarith
    then show ?thesis using 1 by (simp add: word_less_def)
  next
    case 2
    then show ?thesis by (simp add: word_less_def word_uint_eq_iff)
  next
    case 3
    then have "digitBase * (uint h' + 1) \<le> digitBase * uint h" by (intro mult_left_mono) auto
    then have "\<not> uint l + digitBase * uint h < uint l' + digitBase * uint h'"
      using b unfolding distrib_left by linarith
    then show ?thesis using 3 by (auto simp: word_less_def)
  qed
qed

lemma productGreaterThan_iff:
  "productGreaterThan factor1 factor2 high low \<longleftrightarrow> uint low + digitBase * uint high < uint factor1 * uint factor2"
proof -
  obtain l h where m: "digitMul factor1 factor2 = (l, h)" by fastforce
  show ?thesis
    using digitMul_law(1) [OF m, symmetric] by (auto simp: productGreaterThan_def m digit_pair_less)
qed


section \<open>Dividing two digits by one\<close>

lemma uint_halfDigitBase [simp]: "uint halfDigitBase = 2 ^ 32"
  by (simp add: halfDigitBase_def halfDigitBits_def digitBits_def)

lemma uint_mult_small: "uint a * uint b < 2 ^ 64 \<Longrightarrow> uint (a * b) = uint a * uint b" for a b :: digit
  by (simp add: uint_word_ariths)

lemma uint_plus_small: "uint a + uint b < 2 ^ 64 \<Longrightarrow> uint (a + b) = uint a + uint b" for a b :: digit
  by (simp add: uint_word_ariths)

lemma uint_minus_small: "uint b \<le> uint a \<Longrightarrow> uint (a - b) = uint a - uint b" for a b :: digit
  by (simp add: uint_sub_if_size)

text \<open>
  One half digit of the quotient, over the integers: \<open>v1\<close> and \<open>v0\<close> are the halves of the
  normalised divisor, \<open>u\<close> the next half digit of the dividend, \<open>q\<close> the estimate and \<open>r\<close> its
  remainder with respect to \<open>v1\<close>.
\<close>

lemma estimate_too_large:
  fixes v1 v0 u q r n :: int
  assumes "q * v1 + r = n" and "n < v1 * 2 ^ 32 + v0" and "2 ^ 32 \<le> q \<or> r * 2 ^ 32 + u < q * v0"
    and "0 \<le> v0" and "0 < v1" and "0 \<le> u" and "u < 2 ^ 32"
  shows "(n * 2 ^ 32 + u) div (v1 * 2 ^ 32 + v0) \<le> q - 1"
proof -
  let ?v = "v1 * 2 ^ 32 + v0"
  have v: "0 < ?v" using assms(4,5) by simp
  have "n * 2 ^ 32 + u < q * ?v"
  proof (cases "2 ^ 32 \<le> q")
    case True
    have "(n + 1) * 2 ^ 32 \<le> ?v * 2 ^ 32" using assms(2) by (intro mult_right_mono) auto
    also have "\<dots> \<le> ?v * q" using True v by (intro mult_left_mono) auto
    finally show ?thesis using assms(7) by (simp add: algebra_simps)
  next
    case False
    then have "r * 2 ^ 32 + u < q * v0" using assms(3) by simp
    moreover have "n * 2 ^ 32 = q * v1 * 2 ^ 32 + r * 2 ^ 32" using assms(1) by (simp flip: distrib_right)
    ultimately show ?thesis by (simp add: distrib_left mult.assoc)
  qed
  then have "(n * 2 ^ 32 + u) div ?v < q" using v by (simp only: div_less_iff)
  then show ?thesis by simp
qed

lemma estimate_good:
  fixes v1 v0 u q r n :: int
  assumes "q * v1 + r = n" and "q * v0 \<le> r * 2 ^ 32 + u" and "0 \<le> v0" and "0 < v1"
    and "(n * 2 ^ 32 + u) div (v1 * 2 ^ 32 + v0) \<le> q"
  shows "q = (n * 2 ^ 32 + u) div (v1 * 2 ^ 32 + v0)"
proof -
  have "n * 2 ^ 32 = q * v1 * 2 ^ 32 + r * 2 ^ 32" using assms(1) by (simp flip: distrib_right)
  then have "q * (v1 * 2 ^ 32 + v0) \<le> n * 2 ^ 32 + u" using assms(2) by (simp add: distrib_left mult.assoc)
  then have "q \<le> (n * 2 ^ 32 + u) div (v1 * 2 ^ 32 + v0)"
    using assms(3,4) by (subst le_div_iff) auto
  then show ?thesis using assms(5) by simp
qed

lemma digitDivAdjust_correct:
  fixes n :: int and vn1 vn0 un q rhat :: digit
  assumes "2 ^ 31 \<le> uint vn1" and "uint vn1 < 2 ^ 32" and "uint vn0 < 2 ^ 32" and "uint un < 2 ^ 32"
    and "n < uint vn1 * 2 ^ 32 + uint vn0"
    and "uint q * uint vn1 + uint rhat = n" and "uint rhat < 2 ^ 32" and "uint q \<le> 2 ^ 32 + 1"
    and "(n * 2 ^ 32 + uint un) div (uint vn1 * 2 ^ 32 + uint vn0) \<le> uint q"
  shows "uint (digitDivAdjust vn1 vn0 un q rhat) = (n * 2 ^ 32 + uint un) div (uint vn1 * 2 ^ 32 + uint vn0)"
  using assms
proof (induction vn1 vn0 un q rhat rule: digitDivAdjust.induct)
  case (1 vn1 vn0 un q rhat)
  note nonneg = uint_nonneg [of vn0] uint_nonneg [of un] uint_nonneg [of q]
  have "uint q * uint vn0 \<le> (2 ^ 32 + 1) * (2 ^ 32 - 1)" using "1.prems"(3,8) by (intro mult_mono) auto
  then have m: "uint (q * vn0) = uint q * uint vn0" by (intro uint_mult_small) simp
  have r: "uint (rhat * halfDigitBase) = uint rhat * 2 ^ 32" using "1.prems"(7) by (subst uint_mult_small) auto
  have r2: "uint (rhat * halfDigitBase + un) = uint rhat * 2 ^ 32 + uint un"
    using "1.prems"(4,7) by (subst uint_plus_small) (auto simp: r)
  have cond: "(halfDigitBase \<le> q \<or> rhat * halfDigitBase + un < q * vn0)
      \<longleftrightarrow> 2 ^ 32 \<le> uint q \<or> uint rhat * 2 ^ 32 + uint un < uint q * uint vn0"
    by (simp only: word_le_def word_less_def m r2 uint_halfDigitBase)
  show ?case
  proof (cases "halfDigitBase \<le> q \<or> rhat * halfDigitBase + un < q * vn0")
    case False
    then show ?thesis
      using cond estimate_good [OF "1.prems"(6) _ nonneg(1) _ "1.prems"(9)] "1.prems"(1)
      by (simp add: digitDivAdjust.simps [of vn1 vn0 un q rhat])
  next
    case True
    have low: "(n * 2 ^ 32 + uint un) div (uint vn1 * 2 ^ 32 + uint vn0) \<le> uint q - 1"
      using estimate_too_large [OF "1.prems"(6,5) True [unfolded cond]] "1.prems"(1,4) by simp
    have "q \<noteq> 0"
    proof
      assume "q = 0"
      then have "uint rhat * 2 ^ 32 + uint un < 0" using True [unfolded cond] by simp
      moreover have "0 \<le> uint rhat * 2 ^ 32" by simp
      ultimately show False using nonneg by linarith
    qed
    then have q1: "uint (q - 1) = uint q - 1" using uint_ge_1 [of q] by (subst uint_minus_small) auto
    have r1: "uint (rhat + vn1) = uint rhat + uint vn1" using "1.prems"(2,7) by (intro uint_plus_small) simp
    have inv: "uint (q - 1) * uint vn1 + uint (rhat + vn1) = n"
      using "1.prems"(6) by (simp add: q1 r1 left_diff_distrib)
    show ?thesis
    proof (cases "halfDigitBase \<le> rhat + vn1")
      case break: True
      have "uint (q - 1) * uint vn0 \<le> 2 ^ 32 * 2 ^ 32" using "1.prems"(3,8) nonneg q1 by (intro mult_mono) auto
      also have "\<dots> \<le> uint (rhat + vn1) * 2 ^ 32" using break by (simp add: word_le_def)
      finally have "uint (q - 1) * uint vn0 \<le> uint (rhat + vn1) * 2 ^ 32 + uint un" using nonneg by linarith
      then have "uint (q - 1) = (n * 2 ^ 32 + uint un) div (uint vn1 * 2 ^ 32 + uint vn0)"
        using estimate_good [OF inv] nonneg(1) "1.prems"(1) low q1 by simp
      then show ?thesis using True break by (simp add: digitDivAdjust.simps [of vn1 vn0 un q rhat])
    next
      case go: False
      have "uint (digitDivAdjust vn1 vn0 un (q - 1) (rhat + vn1)) = (n * 2 ^ 32 + uint un) div (uint vn1 * 2 ^ 32 + uint vn0)"
        by (rule "1.IH" [OF True refl refl go "1.prems"(1-5) inv])
          (use go low q1 "1.prems"(8) in \<open>simp_all add: word_le_def\<close>)
      then show ?thesis using True go by (simp add: digitDivAdjust.simps [of vn1 vn0 un q rhat])
    qed
  qed
qed

text \<open>A half digit of the quotient, and the remainder that goes into the next one.\<close>

lemma digitDiv_half:
  fixes v un u :: digit
  defines "vn1 \<equiv> drop_bit halfDigitBits v" and "vn0 \<equiv> v AND halfDigitMask"
  defines "q \<equiv> digitDivAdjust vn1 vn0 u (un div vn1) (un - un div vn1 * vn1)"
  assumes v: "2 ^ 63 \<le> uint v" and un: "uint un < uint v" and u: "uint u < 2 ^ 32"
  shows "uint q = (uint un * 2 ^ 32 + uint u) div uint v"
    and "uint (un * halfDigitBase + u - q * v) = (uint un * 2 ^ 32 + uint u) mod uint v"
proof -
  have v1: "uint vn1 = uint v div 2 ^ 32" and v0: "uint vn0 = uint v mod 2 ^ 32"
    by (simp_all add: vn1_def vn0_def halfDigit_split)
  have vsplit: "uint vn1 * 2 ^ 32 + uint vn0 = uint v" unfolding v1 v0 by simp
  have b1: "2 ^ 31 \<le> uint vn1" using v unfolding v1 by (simp add: le_div_iff)
  have b2: "uint vn1 < 2 ^ 32" using uint_lt_64 [of v] unfolding v1 by (simp add: div_less_iff)
  have b0: "uint vn0 < 2 ^ 32" unfolding v0 by simp
  have q0: "uint (un div vn1) = uint un div uint vn1" by (rule uint_div)
  have "un - un div vn1 * vn1 = un mod vn1" by (rule minus_div_mult_eq_mod)
  then have r0: "uint (un - un div vn1 * vn1) = uint un mod uint vn1" by (simp add: uint_mod)
  have hi: "uint un div uint vn1 \<le> 2 ^ 32 + 1"
  proof -
    have "uint un < (2 ^ 32 + 2) * uint vn1" using un vsplit b0 b1 by (simp add: distrib_right)
    then have "uint un div uint vn1 < 2 ^ 32 + 2" using b1 by (subst div_less_iff) auto
    then show ?thesis by simp
  qed
  have lo: "(uint un * 2 ^ 32 + uint u) div uint v \<le> uint un div uint vn1"
  proof -
    define a b where "a = uint un div uint vn1" and "b = uint un mod uint vn1"
    have ab: "uint un = a * uint vn1 + b" "b < uint vn1" "0 \<le> a"
      using b1 by (simp_all add: a_def b_def pos_imp_zdiv_nonneg_iff)
    have "(b + 1) * 2 ^ 32 \<le> uint vn1 * 2 ^ 32" using ab(2) by (intro mult_right_mono) auto
    then have "uint un * 2 ^ 32 + uint u < (a + 1) * (uint vn1 * 2 ^ 32)"
      using u by (simp add: ab(1) algebra_simps)
    also have "\<dots> \<le> (a + 1) * uint v" using ab(3) vsplit uint_nonneg [of vn0] by (intro mult_left_mono) linarith+
    finally have "(uint un * 2 ^ 32 + uint u) div uint v < a + 1" using v by (subst div_less_iff) auto
    then show ?thesis by (simp add: a_def)
  qed
  show q: "uint q = (uint un * 2 ^ 32 + uint u) div uint v"
    unfolding q_def vsplit [symmetric]
    by (rule digitDivAdjust_correct [OF b1 b2 b0 u])
      (use un vsplit hi lo b1 b2 in \<open>simp_all add: q0 r0 order.strict_trans [OF pos_mod_bound]\<close>)
  have "uint (un * halfDigitBase + u - q * v) = (uint un * 2 ^ 32 + uint u - uint q * uint v) mod 2 ^ 64"
    by (simp add: uint_word_ariths mod_simps)
  also have "uint un * 2 ^ 32 + uint u - uint q * uint v = (uint un * 2 ^ 32 + uint u) mod uint v"
    unfolding q by (simp add: minus_div_mult_eq_mod)
  also have "\<dots> mod 2 ^ 64 = (uint un * 2 ^ 32 + uint u) mod uint v"
    using v uint_lt_64 [of v] by (intro mod_pos_pos_trivial) (auto intro: order.strict_trans [OF pos_mod_bound])
  finally show "uint (un * halfDigitBase + u - q * v) = (uint un * 2 ^ 32 + uint u) mod uint v" .
qed

lemma sZeroMask_value:
  assumes "s < 64"
  shows "signed_drop_bit 63 (- word_of_nat s :: digit) = (if s = 0 then 0 else - 1)"
proof -
  have "sint (- word_of_nat s :: digit) = - int s"
    using assms int_word_sint [of "- int s", where 'a = 64] by simp
  moreover have "- int s div 2 ^ 63 = (if s = 0 then 0 else - 1)"
    using assms by (auto intro!: div_unique_bounds)
  ultimately have "sint (signed_drop_bit 63 (- word_of_nat s :: digit)) = sint (if s = 0 then 0 else - 1 :: digit)"
    by (simp add: sint_signed_drop_bit_eq drop_bit_eq_div)
  then show ?thesis by (simp only: signed_word_eqI)
qed

text \<open>The two digits of the dividend, shifted by the normalisation of the divisor.\<close>

lemma normalised_dividend:
  fixes high low divisor :: digit
  defines "s \<equiv> clz divisor"
  defines "un32 \<equiv> push_bit s high OR (drop_bit ((digitBits - s) AND (digitBits - 1)) low
                    AND signed_drop_bit (digitBits - 1) (- word_of_nat s))"
  assumes "uint high < uint divisor"
  shows "2 ^ 63 \<le> uint (push_bit s divisor)" and "uint (push_bit s divisor) = uint divisor * 2 ^ s"
    and "uint un32 < uint (push_bit s divisor)"
    and "uint un32 * digitBase + uint (push_bit s low) = (uint high * digitBase + uint low) * 2 ^ s"
    and "s < 64"
proof -
  have "divisor \<noteq> 0" using assms(3) uint_nonneg [of high] by fastforce
  note c = clz_normalises [OF this, folded s_def, simplified]
  show s: "s < 64" by (rule c(1))
  show d: "uint (push_bit s divisor) = uint divisor * 2 ^ s" using c(2) by (simp add: uint_push_bit)
  show "2 ^ 63 \<le> uint (push_bit s divisor)" unfolding d using c(3) by simp
  have mask: "un32 = push_bit s high OR (if s = 0 then 0 else drop_bit (64 - s) low)"
  proof -
    have "63 = (mask 6 :: nat)" by (simp add: mask_eq_exp_minus_1)
    then have "(64 - s) AND 63 = (64 - s) mod 64" using take_bit_eq_mask [of 6 "64 - s"] by (simp add: take_bit_eq_mod)
    then show ?thesis using s by (simp add: un32_def digitBits_def sZeroMask_value)
  qed
  have wrap: "(uint high + 1) * 2 ^ s \<le> uint divisor * 2 ^ s" using assms(3) by (intro mult_right_mono) auto
  then have "uint high * 2 ^ s < digitBase" using d uint_less_digitBase [of "push_bit s divisor"] zero_less_power [of "2 :: int" s]
    by (simp add: distrib_right del: zero_less_power)
  then have h: "uint high * 2 ^ s mod digitBase = uint high * 2 ^ s" by simp
  have u: "uint un32 = uint high * 2 ^ s + uint low div 2 ^ (64 - s)"
  proof (cases "s = 0")
    case True
    have "uint low div 2 ^ 64 = 0" using uint_lt_64 [of low] by simp
    then show ?thesis using True by (simp add: mask)
  next
    case False
    have "uint (drop_bit (64 - s) low) < 2 ^ s"
      using shifted_digit_split(2) [of s low] s by (simp add: uint_drop_bit)
    then show ?thesis
      using False s push_bit_or [of s "drop_bit (64 - s) low" high] by (simp add: mask uint_drop_bit h)
  qed
  show "uint un32 < uint (push_bit s divisor)"
    using wrap shifted_digit_split(2) [of s low] s unfolding u d by (simp add: distrib_right)
  show "uint un32 * digitBase + uint (push_bit s low) = (uint high * digitBase + uint low) * 2 ^ s"
    using shifted_digit_split(1) [of s low] s unfolding u by (simp add: uint_push_bit digitBase_num distrib_right)
qed

lemma digitDiv_law:
  assumes "digitDiv high low divisor = (q, r)" and "uint high < uint divisor"
  shows "uint q = (uint high * digitBase + uint low) div uint divisor"
    and "uint r = (uint high * digitBase + uint low) mod uint divisor"
proof -
  define s where "s = clz divisor"
  define v where "v = push_bit s divisor"
  define un32 where "un32 = push_bit s high OR (drop_bit ((digitBits - s) AND (digitBits - 1)) low
                    AND signed_drop_bit (digitBits - 1) (- word_of_nat s))"
  define vn1 vn0 where "vn1 = drop_bit halfDigitBits v" and "vn0 = v AND halfDigitMask"
  define un10 where "un10 = push_bit s low"
  define un1 un0 where "un1 = drop_bit halfDigitBits un10" and "un0 = un10 AND halfDigitMask"
  define q1 where "q1 = digitDivAdjust vn1 vn0 un1 (un32 div vn1) (un32 - un32 div vn1 * vn1)"
  define un21 where "un21 = un32 * halfDigitBase + un1 - q1 * v"
  define q0 where "q0 = digitDivAdjust vn1 vn0 un0 (un21 div vn1) (un21 - un21 div vn1 * vn1)"
  note defs = s_def v_def un32_def vn1_def vn0_def un10_def un1_def un0_def q1_def un21_def q0_def
  have out: "q = q1 * halfDigitBase + q0" "r = drop_bit s (un21 * halfDigitBase + un0 - q0 * v)"
    using assms(1) unfolding defs by (simp_all add: digitDiv_def Let_def)
  note norm = normalised_dividend(1,2) [OF assms(2), folded s_def, folded v_def]
    normalised_dividend(3,4) [OF assms(2), of low, folded s_def, folded un32_def v_def un10_def]
  have u: "uint un1 * 2 ^ 32 + uint un0 = uint un10" "uint un1 < 2 ^ 32" "uint un0 < 2 ^ 32"
    using uint_lt_64 [of un10] by (simp_all add: un1_def un0_def halfDigit_split div_less_iff)
  note h1 = digitDiv_half [OF norm(1,3) u(2), folded vn1_def vn0_def, folded q1_def, folded un21_def]
  have un21: "uint un21 < uint v" using h1(2) norm(1) by simp
  note h0 = digitDiv_half [OF norm(1) un21 u(3), folded vn1_def vn0_def, folded q0_def]
  define N where "N = uint un32 * digitBase + uint un10"
  have V: "0 < uint v" using norm(1) by simp
  have N: "N = (uint un32 * 2 ^ 32 + uint un1) * 2 ^ 32 + uint un0" using u(1) by (simp add: N_def digitBase_num)
  have step: "N = (uint q1 * 2 ^ 32 + uint q0) * uint v + (uint un21 * 2 ^ 32 + uint un0) mod uint v"
  proof -
    have "uint un32 * 2 ^ 32 + uint un1 = uint q1 * uint v + uint un21" unfolding h1 by simp
    moreover have "uint un21 * 2 ^ 32 + uint un0 = uint q0 * uint v + (uint un21 * 2 ^ 32 + uint un0) mod uint v"
      unfolding h0(1) by simp
    ultimately show ?thesis unfolding N by (simp add: algebra_simps)
  qed
  have rem: "(uint un21 * 2 ^ 32 + uint un0) mod uint v = N mod uint v"
    using step V by (metis mod_mult_self3 mod_mod_trivial)
  have quo: "uint q1 * 2 ^ 32 + uint q0 = N div uint v"
    using step V pos_mod_bound [OF V] pos_mod_sign [OF V] by (intro div_unique_bounds [symmetric]) (auto simp: rem)
  have "N < digitBase * uint v"
  proof -
    have "(uint un32 + 1) * digitBase \<le> uint v * digitBase" using norm(3) by (intro mult_right_mono) auto
    then show ?thesis using uint_less_digitBase [of un10] unfolding N_def distrib_right mult.commute [of digitBase] by linarith
  qed
  then have qlt: "uint q1 * 2 ^ 32 + uint q0 < 2 ^ 64" unfolding quo using V by (simp add: div_less_iff digitBase_num)
  have NU: "N = (uint high * digitBase + uint low) * 2 ^ s" unfolding N_def by (rule norm(4))
  show "uint q = (uint high * digitBase + uint low) div uint divisor"
  proof -
    have "uint q = uint q1 * 2 ^ 32 + uint q0"
      using qlt by (simp add: out uint_word_ariths mod_simps)
    then show ?thesis unfolding quo NU norm(2) by simp
  qed
  have "uint r = (N mod uint v) div 2 ^ s" unfolding out uint_drop_bit h0(2) rem ..
  then show "uint r = (uint high * digitBase + uint low) mod uint divisor"
    by (simp add: NU norm(2) mult_mod_left)
qed

end
