(* ===== verification/Digit_Shift.thy ===== *)
theory Digit_Shift
  imports BigInt_Core
begin

text \<open>
  The digit loops of the shift operations: \<^verbatim>\<open>absoluteLeftShiftAlwaysCopy\<close> and \<^verbatim>\<open>inplaceRightShift\<close>
  of \<^verbatim>\<open>runtime/JSBigInt.cpp\<close>, which division uses, and the step that \<^verbatim>\<open>leftShiftByAbsolute\<close> and
  \<^verbatim>\<open>rightShiftByAbsolute\<close> share with them.
\<close>

definition shiftLeftStep :: "nat \<Rightarrow> digit list \<Rightarrow> nat \<Rightarrow> digit \<Rightarrow> digit \<Rightarrow> digit \<times> digit" where
  "shiftLeftStep shift ds i old carry =
     (let d = ds ! i in (push_bit shift d OR carry, drop_bit (digitBits - shift) d))"

definition shiftRightStep :: "nat \<Rightarrow> digit list \<Rightarrow> nat \<Rightarrow> digit \<Rightarrow> digit \<Rightarrow> digit \<times> digit" where
  "shiftRightStep shift ds i old carry =
     (let d = ds ! (i + 1) in (push_bit (digitBits - shift) d OR carry, drop_bit shift d))"

datatype LeftShiftMode = SameSizeResult | AlwaysAddOneDigit

definition absoluteLeftShiftAlwaysCopy :: "js_env \<Rightarrow> jsBigInt \<Rightarrow> nat \<Rightarrow> LeftShiftMode \<Rightarrow> (js_error, jsBigInt) result" where
  "absoluteLeftShiftAlwaysCopy env x shift mode =
     andThen (assertThat (shift < digitBits)) (\<lambda>_.
     andThen (assertThat (\<not> isZero x)) (\<lambda>_.
     let n = bigLength x;
         resultLength = (if mode = AlwaysAddOneDigit then n + 1 else n)
     in andThen (createWithLength env resultLength) (\<lambda>result.
        if shift = 0
        then let result = for_up 0 n (\<lambda>i r. setDigit r i (digitAt x i)) result
             in Inr (if mode = AlwaysAddOneDigit then setDigit result n 0 else result)
        else let carry = 0;
                 (digits, carry) = digitLoop 0 0 n (shiftLeftStep shift (m_data x)) (m_data result, carry);
                 result = result\<lparr>m_data := digits\<rparr>
             in if mode = AlwaysAddOneDigit then Inr (setDigit result n carry)
                else andThen (assertThat (mode = SameSizeResult)) (\<lambda>_.
                     andThen (assertThat (carry = 0)) (\<lambda>_. Inr result)))))"

text \<open>In place: the digit above is read before it is overwritten.\<close>

definition inplaceRightShift :: "digit list \<Rightarrow> nat \<Rightarrow> (js_error, digit list) result" where
  "inplaceRightShift digits shift =
     andThen (assertThat (shift < digitBits)) (\<lambda>_.
     andThen (assertThat (digits ! 0 AND (push_bit shift 1 - 1) = 0)) (\<lambda>_.
     if shift = 0 then Inr digits
     else let carry = drop_bit shift (digits ! 0);
              last = length digits - 1;
              (digits, carry) = for_up 0 last (\<lambda>i (r, carry).
                 let d = r ! (i + 1) in (r[i := push_bit (digitBits - shift) d OR carry], drop_bit shift d)) (digits, carry)
          in Inr (digits[last := carry])))"


section \<open>The value of the loops\<close>

interpretation shiftLeft: carry_chain "shiftLeftStep s ds" "\<lambda>c. 0 < s \<and> s < 64 \<and> uint c < 2 ^ s" uint
    "\<lambda>i _. 2 ^ s * uint (ds ! i)" for s ds
proof
  fix c d c' old :: digit and i
  assume inv: "0 < s \<and> s < 64 \<and> uint c < 2 ^ s" and "shiftLeftStep s ds i old c = (d, c')"
  then have d: "d = push_bit s (ds ! i) OR c" and c': "c' = drop_bit (64 - s) (ds ! i)"
    by (simp_all add: shiftLeftStep_def digitBits_def Let_def)
  have "uint d = uint (ds ! i) * 2 ^ s mod digitBase + uint c" unfolding d using inv by (intro push_bit_or) auto
  moreover have "uint c' = uint (ds ! i) div 2 ^ (64 - s)" by (simp add: c' uint_drop_bit)
  ultimately show "uint d + digitBase * uint c' = 2 ^ s * uint (ds ! i) + uint c \<and> 0 < s \<and> s < 64 \<and> uint c' < 2 ^ s"
    using shifted_digit_split [of s "ds ! i"] inv by (simp add: mult.commute)
qed

lemma shiftRightStep_eq: "0 < s \<Longrightarrow> s < 64 \<Longrightarrow> Suc i < length ds \<Longrightarrow> shiftRightStep s ds i = shiftLeftStep (64 - s) (tl ds) i"
  by (simp add: fun_eq_iff shiftRightStep_def shiftLeftStep_def digitBits_def nth_tl)

lemma digitLoop_cong:
  assumes "\<And>i. lo \<le> i \<Longrightarrow> i < hi \<Longrightarrow> step i = step' i"
  shows "digitLoop off lo hi step rc = digitLoop off lo hi step' rc"
  unfolding digitLoop_def for_up_def by (rule fold_cong) (auto simp: assms)

text \<open>Shifting a number left by less than a digit.\<close>

lemma shiftLeft_value:
  assumes loop: "digitLoop 0 0 (length ds) (shiftLeftStep s ds) (r0, 0) = (r, c)"
    and "0 < s" and "s < 64" and "length ds \<le> length r0"
  shows "dval (take (length ds) r) + digitBase ^ length ds * uint c = 2 ^ s * dval ds"
    and "uint c < 2 ^ s" and "length r = length r0"
  using shiftLeft.loop_prefix [OF loop] assms(2-) dval_sum_scaled [of 0 "length ds" ds "2 ^ s"] digitLoop_frame(1) [OF loop]
  by simp_all

text \<open>Shifting a number right by less than a digit; the bits of the lowest digit fall off.\<close>

lemma shiftRight_value:
  assumes loop: "digitLoop 0 0 (length ds - 1) (shiftRightStep s ds) (r0, drop_bit s (ds ! 0)) = (r, c)"
    and s: "0 < s" "s < 64" and "ds \<noteq> []" and "length ds - 1 \<le> length r0"
  shows "dval (take (length ds - 1) r) + digitBase ^ (length ds - 1) * uint c = dval ds div 2 ^ s"
    and "length r = length r0"
proof -
  obtain d es where ds: "ds = d # es" using assms(4) by (cases ds) auto
  have loop': "digitLoop 0 0 (length es) (shiftLeftStep (64 - s) es) (r0, drop_bit s d) = (r, c)"
    using loop digitLoop_cong [of 0 "length es" "shiftRightStep s ds" "shiftLeftStep (64 - s) es"]
      shiftRightStep_eq [OF s, of _ ds] by (simp add: ds)
  have "uint d < 2 ^ (64 - s) * 2 ^ s" using uint_less_digitBase [of d] s by (simp add: digitBase_def flip: power_add)
  then have "uint (drop_bit s d) < 2 ^ (64 - s)" by (simp add: uint_drop_bit div_less_iff)
  then have "dval (take (length es) r) + digitBase ^ length es * uint c = uint d div 2 ^ s + 2 ^ (64 - s) * dval es"
    using shiftLeft.loop_prefix(1) [OF loop'] s assms(5) dval_sum_scaled [of 0 "length es" es "2 ^ (64 - s)"]
    by (simp add: ds uint_drop_bit)
  moreover have "dval ds div 2 ^ s = uint d div 2 ^ s + 2 ^ (64 - s) * dval es"
  proof -
    have "digitBase = 2 ^ (64 - s) * 2 ^ s" using s by (simp add: digitBase_def flip: power_add)
    then have "dval ds = uint d + 2 ^ (64 - s) * dval es * 2 ^ s" by (simp add: ds)
    then show ?thesis by (simp add: add.commute)
  qed
  ultimately show "dval (take (length ds - 1) r) + digitBase ^ (length ds - 1) * uint c = dval ds div 2 ^ s"
    by (simp add: ds)
  show "length r = length r0" using digitLoop_frame(1) [OF loop'] by simp
qed

lemma absoluteLeftShiftAlwaysCopy_outcome:
  fixes mode :: LeftShiftMode
  defines "n x \<equiv> (if mode = AlwaysAddOneDigit then bigLength x + 1 else bigLength x)"
  assumes s: "s < 64" and x: "\<not> isZero x" and fits: "mode = SameSizeResult \<Longrightarrow> 2 ^ s * dval (m_data x) < digitBase ^ bigLength x"
  shows "outcome (oom env (n x)) (\<lambda>r. fresh (n x) r \<and> dval (m_data r) = 2 ^ s * dval (m_data x))
    (absoluteLeftShiftAlwaysCopy env x s mode)"
proof -
  have len: "bigLength x \<le> n x" by (simp add: n_def)
  have "outcome (oom env (n x)) (\<lambda>r. fresh (n x) r \<and> dval (m_data r) = 2 ^ s * dval (m_data x))
     (andThen (createWithLength env (n x)) (\<lambda>result.
        if s = 0
        then let result = for_up 0 (bigLength x) (\<lambda>i r. setDigit r i (digitAt x i)) result
             in Inr (if mode = AlwaysAddOneDigit then setDigit result (bigLength x) 0 else result)
        else let carry = 0;
                 (digits, carry) = digitLoop 0 0 (bigLength x) (shiftLeftStep s (m_data x)) (m_data result, carry);
                 result = result\<lparr>m_data := digits\<rparr>
             in if mode = AlwaysAddOneDigit then Inr (setDigit result (bigLength x) carry)
                else andThen (assertThat (mode = SameSizeResult)) (\<lambda>_.
                     andThen (assertThat (carry = 0)) (\<lambda>_. Inr result))))"
    (is "outcome _ ?Q (andThen _ ?f)")
  proof (rule oom_andThen [OF createWithLength_outcome order_refl])
    fix result assume fr: "fresh (n x) result"
    show "outcome (oom env (n x)) ?Q (?f result)"
    proof (cases "s = 0")
      case True
      have "for_up 0 (bigLength x) (\<lambda>i r. setDigit r i (digitAt x i)) result
          = result\<lparr>m_data := m_data x @ drop (bigLength x) (m_data result)\<rparr>"
        using copy_loop [of "bigLength x" result x] fr len by (simp add: fresh_def)
      moreover have "(drop (bigLength x) (m_data result))[0 := 0] = [0]" if "mode = AlwaysAddOneDigit"
        using that fr by (intro list_single) (simp add: fresh_def n_def)
      ultimately show ?thesis
        using True fr by (auto simp: fresh_def n_def dval_append list_update_append Let_def)
    next
      case False
      obtain r c where loop: "digitLoop 0 0 (bigLength x) (shiftLeftStep s (m_data x)) (m_data result, 0) = (r, c)" by fastforce
      note v = shiftLeft_value [OF loop _ s]
      show ?thesis
      proof (cases mode)
        case AlwaysAddOneDigit
        have "dval (r[bigLength x := c]) = dval (take (bigLength x) r) + digitBase ^ bigLength x * uint c"
          using take_Suc_update [of "bigLength x" r c] v(3) fr False AlwaysAddOneDigit len by (simp add: dval_snoc fresh_def n_def)
        then show ?thesis
          using False AlwaysAddOneDigit fr v len by (simp add: loop fresh_def n_def)
      next
        case SameSizeResult
        have "length r = bigLength x" and "dval r + digitBase ^ bigLength x * uint c = 2 ^ s * dval (m_data x)"
          using v fr False SameSizeResult by (simp_all add: fresh_def n_def)
        moreover from this have "c = 0" 
          using fits [OF SameSizeResult] mult_left_mono [OF uint_ge_1, of c "digitBase ^ bigLength x"] dval_nonneg [of r] by fastforce
        ultimately show ?thesis
          using False SameSizeResult fr by (simp add: loop fresh_def n_def)
      qed
    qed
  qed
  then show ?thesis
    using s x unfolding absoluteLeftShiftAlwaysCopy_def n_def
    by (simp only: digitBits_def assertThat_True Let_def simp_thms)
qed

lemma inplaceRightShift_loop:
  assumes "k < length ds"
  shows "for_up 0 k (\<lambda>i (r, carry). let d = r ! (i + 1) in (r[i := push_bit (digitBits - s) d OR carry], drop_bit s d)) (ds, c)
    = digitLoop 0 0 k (shiftRightStep s ds) (ds, c)"
  using assms
proof (induction k)
  case (Suc k)
  obtain r c' where l: "digitLoop 0 0 k (shiftRightStep s ds) (ds, c) = (r, c')" by fastforce
  have "r ! Suc k = ds ! Suc k" using digitLoop_frame(2) [OF l] by simp
  then show ?case
    using Suc l by (simp add: for_up_last digitLoop_Suc) (simp add: shiftRightStep_def Let_def)
qed simp

lemma inplaceRightShift_correct:
  assumes "s < 64" and "ds \<noteq> []" and dv: "2 ^ s dvd dval ds"
  shows "\<exists>r. inplaceRightShift ds s = Inr r \<and> length r = length ds \<and> dval r = dval ds div 2 ^ s"
proof -
  obtain d es where ds: "ds = d # es" using assms(2) by (cases ds) auto
  have "2 ^ s dvd digitBase" unfolding digitBase_def by (rule le_imp_power_dvd) (use assms(1) in simp)
  then have "2 ^ s dvd uint d" using dv by (simp add: ds dvd_add_left_iff)
  then have low: "d AND (push_bit s 1 - 1) = 0"
    using uint_and_mask [of s d] assms(1) by (simp add: mask_eq_exp_minus_1 flip: uint_0_iff)
  show ?thesis
  proof (cases "s = 0")
    case True
    then show ?thesis using low by (simp add: inplaceRightShift_def ds digitBits_def)
  next
    case False
    obtain r c where loop: "digitLoop 0 0 (length ds - 1) (shiftRightStep s ds) (ds, drop_bit s (ds ! 0)) = (r, c)" by fastforce
    note v = shiftRight_value [OF loop _ assms(1,2)]
    have "inplaceRightShift ds s = Inr (r[length ds - 1 := c])"
      using assms(1) low False loop inplaceRightShift_loop [of "length ds - 1" ds s] assms(2)
      by (simp add: inplaceRightShift_def digitBits_def ds)
    moreover have "dval (r[length ds - 1 := c]) = dval ds div 2 ^ s"
      using take_Suc_update [of "length ds - 1" r c] v False assms(2) by (simp add: dval_snoc)
    ultimately show ?thesis using v False by simp
  qed
qed

end
