(* ===== verification/BigInt_Division.thy ===== *)
theory BigInt_Division
  imports BigInt_Mul Digit_Division Digit_Shift "HOL-Library.Signed_Division"
begin

text \<open>
  Division and remainder of \<^verbatim>\<open>runtime/JSBigInt.cpp\<close>: schoolbook division by a digit
  (\<^verbatim>\<open>absoluteDivWithDigitDivisor\<close>), Knuth's Algorithm D (\<^verbatim>\<open>absoluteDivWithBigIntDivisor\<close> with
  \<^verbatim>\<open>absoluteInplaceAdd\<close> and \<^verbatim>\<open>absoluteInplaceSub\<close>), \<^verbatim>\<open>divideImpl\<close> and \<^verbatim>\<open>remainderImpl\<close>.
\<close>

section \<open>The operations\<close>

text \<open>The \<^verbatim>\<open>JSBigInt** quotient\<close> argument: not wanted, to be allocated, or storage to write to.\<close>

datatype quotientArg = NoQuotient | NewQuotient | QuotientIn jsBigInt

text \<open>
  One pass from the most significant digit down. A quotient that is the dividend itself is
  written at an index only after the dividend was read there.
\<close>

definition divideDigits :: "jsBigInt \<Rightarrow> digit \<Rightarrow> jsBigInt \<Rightarrow> jsBigInt \<times> digit" where
  "divideDigits x divisor quot =
     for_down (bigLength x) 0 (\<lambda>i (quot, remainder).
       let (q, remainder) = digitDiv remainder (digitAt x i) divisor
       in (setDigit quot i q, remainder)) (quot, 0)"

definition remainderDigits :: "jsBigInt \<Rightarrow> digit \<Rightarrow> digit" where
  "remainderDigits x divisor =
     for_down (bigLength x) 0 (\<lambda>i remainder.
       let (q, remainder) = digitDiv remainder (digitAt x i) divisor in remainder) 0"

definition absoluteDivWithDigitDivisor ::
  "js_env \<Rightarrow> jsBigInt \<Rightarrow> digit \<Rightarrow> quotientArg \<Rightarrow> (js_error, jsBigInt option \<times> digit) result" where
  "absoluteDivWithDigitDivisor env x divisor quot =
     andThen (assertThat (divisor \<noteq> 0)) (\<lambda>_.
     andThen (assertThat (\<not> isZero x)) (\<lambda>_.
     if divisor = 1 then Inr (if quot = NoQuotient then None else Some x, 0)
     else case quot of
         NoQuotient \<Rightarrow> Inr (None, remainderDigits x divisor)
       | NewQuotient \<Rightarrow> andThen (createWithLength env (bigLength x)) (\<lambda>result.
           let (q, remainder) = divideDigits x divisor result in Inr (Some q, remainder))
       | QuotientIn result \<Rightarrow>
           let (q, remainder) = divideDigits x divisor result in Inr (Some q, remainder)))"

definition inplaceAddStep :: "digit list \<Rightarrow> nat \<Rightarrow> digit \<Rightarrow> digit \<Rightarrow> digit \<times> digit" where
  "inplaceAddStep summand i old carry =
     (let newCarry = 0;
          (sum, newCarry) = digitAdd old (summand ! i) newCarry;
          (sum, newCarry) = digitAdd sum carry newCarry
      in (sum, newCarry))"

definition absoluteInplaceAdd :: "digit list \<Rightarrow> digit list \<Rightarrow> nat \<Rightarrow> (js_error, digit list \<times> digit) result" where
  "absoluteInplaceAdd digits summand startIndex =
     (let n = length summand
      in andThen (assertThat (length digits \<ge> startIndex + n)) (\<lambda>_.
         Inr (digitLoop startIndex 0 n (inplaceAddStep summand) (digits, 0))))"

definition inplaceSubStep :: "digit list \<Rightarrow> nat \<Rightarrow> digit \<Rightarrow> digit \<Rightarrow> digit \<times> digit" where
  "inplaceSubStep subtrahend i old borrow =
     (let newBorrow = 0;
          (difference, newBorrow) = digitSub old (subtrahend ! i) newBorrow;
          (difference, newBorrow) = digitSub difference borrow newBorrow
      in (difference, newBorrow))"

definition absoluteInplaceSub :: "digit list \<Rightarrow> digit list \<Rightarrow> nat \<Rightarrow> (js_error, digit list \<times> digit) result" where
  "absoluteInplaceSub digits subtrahend startIndex =
     (let n = length subtrahend
      in andThen (assertThat (length digits \<ge> startIndex + n)) (\<lambda>_.
         Inr (digitLoop startIndex 0 n (inplaceSubStep subtrahend) (digits, 0))))"

text \<open>Step D3: the estimate of a quotient digit and the loop that corrects it.\<close>

function adjustQhat :: "digit \<Rightarrow> digit \<Rightarrow> digit \<Rightarrow> digit \<Rightarrow> digit \<Rightarrow> digit" where
  "adjustQhat vn1 vn2 ujn2 qhat rhat =
     (if productGreaterThan qhat vn2 rhat ujn2
      then let qhat = qhat - 1;
               prevRhat = rhat;
               rhat = rhat + vn1
           in if rhat < prevRhat then qhat else adjustQhat vn1 vn2 ujn2 qhat rhat
      else qhat)"
  by pat_completeness auto
termination
proof (relation "measure (\<lambda>(vn1, vn2, ujn2, qhat, rhat). unat qhat)")
  fix vn1 vn2 ujn2 qhat rhat x xa xb :: digit
  assume p: "productGreaterThan qhat vn2 rhat ujn2" and x: "x = qhat - 1"
  have "0 < uint qhat * uint vn2"
    using p [unfolded productGreaterThan_iff] uint_nonneg [of ujn2] mult_nonneg_nonneg [OF digitBase_pos(2) uint_nonneg [of rhat]]
    by linarith
  then have "qhat \<noteq> 0" by auto
  then have "unat (qhat - 1) < unat qhat" by (simp add: unat_minus_one unat_gt_0)
  then show "((vn1, vn2, ujn2, x, xb), (vn1, vn2, ujn2, qhat, rhat)) \<in> measure (\<lambda>(vn1, vn2, ujn2, qhat, rhat). unat qhat)"
    using x by simp
qed simp

declare adjustQhat.simps [simp del]

definition estimateQhat :: "digit list \<Rightarrow> digit list \<Rightarrow> nat \<Rightarrow> nat \<Rightarrow> digit" where
  "estimateQhat divisor u n j =
     (let vn1 = divisor ! (n - 1);
          qhat = digitMax;
          ujn = u ! (j + n)
      in if ujn \<noteq> vn1
         then let (qhat, rhat) = digitDiv ujn (u ! (j + n - 1)) vn1;
                  vn2 = divisor ! (n - 2);
                  ujn2 = u ! (j + n - 2)
              in adjustQhat vn1 vn2 ujn2 qhat rhat
         else qhat)"

text \<open>
  One iteration of Algorithm D. The state is the running dividend \<^verbatim>\<open>u\<close>, the scratch number
  \<^verbatim>\<open>qhatv\<close> and the quot, if it is wanted.
\<close>

definition knuthStep ::
  "digit list \<Rightarrow> nat \<Rightarrow> nat \<Rightarrow> digit list \<times> digit list \<times> digit list option
     \<Rightarrow> (js_error, digit list \<times> digit list \<times> digit list option) result" where
  "knuthStep divisor n j = (\<lambda>(u, qhatv, q).
     let qhat = estimateQhat divisor u n j
     in andThen (internalMultiplyAdd (Some divisor) qhat 0 n qhatv) (\<lambda>qhatv.
        andThen (absoluteInplaceSub u qhatv j) (\<lambda>(u, c).
        andThen (if c \<noteq> 0
                 then andThen (absoluteInplaceAdd u divisor j) (\<lambda>(u, c).
                        Inr (u[j + n := u ! (j + n) + c], qhat - 1))
                 else Inr (u, qhat)) (\<lambda>(u, qhat).
        Inr (u, qhatv, map_option (\<lambda>q. q[j := qhat]) q)))))"

text \<open>Step D2: from the top quotient digit down.\<close>

definition knuthLoop ::
  "digit list \<Rightarrow> nat \<Rightarrow> nat \<Rightarrow> digit list \<times> digit list \<times> digit list option
     \<Rightarrow> (js_error, digit list \<times> digit list \<times> digit list option) result" where
  "knuthLoop divisor n m st = for_down (m + 1) 0 (\<lambda>j st. andThen st (knuthStep divisor n j)) (Inr st)"

definition absoluteDivWithBigIntDivisor ::
  "js_env \<Rightarrow> jsBigInt \<Rightarrow> jsBigInt \<Rightarrow> bool \<Rightarrow> bool \<Rightarrow> (js_error, jsBigInt option \<times> jsBigInt option) result" where
  "absoluteDivWithBigIntDivisor env dividend divisor wantQuotient wantRemainder =
     andThen (assertThat (bigLength divisor \<ge> 2)) (\<lambda>_.
     andThen (assertThat (bigLength dividend \<ge> bigLength divisor)) (\<lambda>_.
     let n = bigLength divisor;
         m = bigLength dividend - n
     in andThen (if wantQuotient then andThen (createWithLength env (m + 1)) (\<lambda>q. Inr (Some q)) else Inr None) (\<lambda>q.
        andThen (createWithLength env (n + 1)) (\<lambda>qhatv.
        let lastDigit = digitAt divisor (n - 1);
            shift = clz lastDigit
        in andThen (if shift > 0 then absoluteLeftShiftAlwaysCopy env divisor shift SameSizeResult else Inr divisor) (\<lambda>divisor.
           andThen (absoluteLeftShiftAlwaysCopy env dividend shift AlwaysAddOneDigit) (\<lambda>u.
           andThen (knuthLoop (m_data divisor) n m (m_data u, m_data qhatv, map_option m_data q)) (\<lambda>(udigits, qhatv, qdigits).
           let quot = (case q of Some qobj \<Rightarrow> map_option (\<lambda>ds. qobj\<lparr>m_data := ds\<rparr>) qdigits | None \<Rightarrow> None)
           in if wantRemainder
              then andThen (inplaceRightShift udigits shift) (\<lambda>udigits. Inr (quot, Some (u\<lparr>m_data := udigits\<rparr>)))
              else Inr (quot, None))))))))"

definition divideImpl :: "js_env \<Rightarrow> jsBigInt \<Rightarrow> jsBigInt \<Rightarrow> (js_error, jsBigInt) result" where
  "divideImpl env x y =
     (if isZero y then Inl (RangeError ''0 is an invalid divisor value.'')
      else if absoluteCompare (HeapBigIntImpl x) (HeapBigIntImpl y) = LessThan then zeroImpl env
      else let resultSign = (m_sign x \<noteq> m_sign y)
        in if bigLength y = 1 \<and> digitAt y 0 = 1
           then if resultSign = m_sign x then Inr x else unaryMinusImpl env x
           else andThen
             (if bigLength y = 1
              then andThen (absoluteDivWithDigitDivisor env x (digitAt y 0) NewQuotient) (\<lambda>(quot, remainder). Inr quot)
              else andThen (absoluteDivWithBigIntDivisor env x y True False) (\<lambda>(quot, remainder). Inr quot)) (\<lambda>quot.
             case quot of
               None \<Rightarrow> Inl NullResult
             | Some quot \<Rightarrow> rightTrim env (setSign quot resultSign)))"

definition remainderImpl :: "js_env \<Rightarrow> jsBigInt \<Rightarrow> jsBigInt \<Rightarrow> (js_error, jsBigInt) result" where
  "remainderImpl env x y =
     (if isZero y then Inl (RangeError ''0 is an invalid divisor value.'')
      else if absoluteCompare (HeapBigIntImpl x) (HeapBigIntImpl y) = LessThan then Inr x
      else if bigLength y = 1
      then let divisor = digitAt y 0
        in if divisor = 1 then zeroImpl env
           else andThen (absoluteDivWithDigitDivisor env x divisor NoQuotient) (\<lambda>(quot, remainderDigit).
             if remainderDigit = 0 then zeroImpl env
             else andThen (createWithLength env 1) (\<lambda>remainder.
               rightTrim env (setSign (setDigit remainder 0 remainderDigit) (m_sign x))))
      else andThen (absoluteDivWithBigIntDivisor env x y False True) (\<lambda>(quot, remainder).
        case remainder of
          None \<Rightarrow> Inl NullResult
        | Some remainder \<Rightarrow> rightTrim env (setSign remainder (m_sign x))))"


section \<open>Division by a digit\<close>

lemma divideDigits_correct:
  assumes "divideDigits x divisor q0 = (q, r)" and "divisor \<noteq> 0" and "bigLength x \<le> bigLength q0"
  shows "dval (m_data x) = uint divisor * dval (take (bigLength x) (m_data q)) + uint r"
    and "uint r < uint divisor" and "bigLength q = bigLength q0" and "m_sign q = m_sign q0"
    and "drop (bigLength x) (m_data q) = drop (bigLength x) (m_data q0)"
    and "r = remainderDigits x divisor"
proof -
  let ?n = "bigLength x"
  let ?f = "\<lambda>i (quot, remainder). let (q, remainder) = digitDiv remainder (digitAt x i) divisor
       in (setDigit quot i q, remainder)"
  let ?g = "\<lambda>i remainder. let (q, remainder) = digitDiv remainder (digitAt x i) divisor in remainder"
  let ?I = "\<lambda>i qr. bigLength (fst qr) = bigLength q0 \<and> m_sign (fst qr) = m_sign q0 \<and> uint (snd qr) < uint divisor
     \<and> drop ?n (m_data (fst qr)) = drop ?n (m_data q0)
     \<and> dval (drop i (m_data x)) = uint divisor * dval (take (?n - i) (drop i (m_data (fst qr)))) + uint (snd qr)"
  have "?I 0 (for_down ?n 0 ?f (q0, 0))"
  proof (rule for_down_inv [where I = ?I])
    show "?I ?n (q0, 0)" using assms(2) uint_ge_1 [of divisor] by simp
  next
    fix i and qr :: "jsBigInt \<times> digit"
    assume i: "i < ?n" and inv: "?I (Suc i) qr"
    obtain qs rem where qr: "qr = (qs, rem)" by fastforce
    obtain d rem' where dd: "digitDiv rem (digitAt x i) divisor = (d, rem')" by fastforce
    have lt: "uint rem < uint divisor" using inv qr by simp
    note law = digitDiv_law [OF dd lt]
    have eq: "uint rem * digitBase + uint (digitAt x i) = uint divisor * uint d + uint rem'"
      unfolding law by simp
    have "dval (drop i (m_data x)) = uint (digitAt x i) + digitBase * dval (drop (Suc i) (m_data x))"
      using i by (simp add: digitAt_def flip: Cons_nth_drop_Suc)
    moreover have "take (?n - i) (drop i ((m_data qs)[i := d])) = d # take (?n - Suc i) (drop (Suc i) (m_data qs))"
    proof -
      have "drop i ((m_data qs)[i := d]) = d # drop (Suc i) (m_data qs)"
        using i assms(3) inv qr by (simp add: drop_update_swap Cons_nth_drop_Suc [symmetric])
      then show ?thesis using i by (simp add: Suc_diff_Suc [symmetric])
    qed
    moreover have "uint (digitAt x i) + digitBase * (uint divisor * y + uint rem) = uint divisor * (uint d + digitBase * y) + uint rem'" for y
      using eq by (simp add: algebra_simps)
    moreover have "uint rem' < uint divisor" unfolding law(2) using lt uint_nonneg [of rem] by (intro pos_mod_bound) linarith
    ultimately show "?I i (?f i qr)"
      using inv i by (simp add: qr dd)
  qed simp
  then show "dval (m_data x) = uint divisor * dval (take (bigLength x) (m_data q)) + uint r"
    and "uint r < uint divisor" and "bigLength q = bigLength q0" and "m_sign q = m_sign q0"
    and "drop (bigLength x) (m_data q) = drop (bigLength x) (m_data q0)"
    using assms(1) by (simp_all add: divideDigits_def)
  have "snd (fold ?f is qr) = fold ?g is (snd qr)" for "is" qr
    by (induction "is" arbitrary: qr) (auto split: prod.splits)
  then show "r = remainderDigits x divisor"
    using assms(1) unfolding divideDigits_def remainderDigits_def for_down_def by (metis (no_types, lifting) snd_conv)
qed


section \<open>Algorithm D\<close>

text \<open>
  Knuth's bounds on the estimate of a quotient digit. \<open>X\<close> is the running dividend, \<open>V\<close> the
  normalised divisor; \<open>x3\<close> and \<open>v2\<close> are their top three and top two digits, the rest lies below \<open>P\<close>.
\<close>

lemma knuth_true_digit:
  fixes X V x3 v2 P q lx lv :: int
  assumes "X = x3 * P + lx" and "lx < P" and "V = v2 * P + lv" and "0 \<le> lv" and "0 < P" and "0 < V" and "0 \<le> q"
    and "q \<le> X div V"
  shows "q * v2 \<le> x3"
proof -
  have "q * V \<le> X" using assms(8) by (simp add: le_div_iff [OF assms(6)])
  moreover have "q * (v2 * P) \<le> q * V" using assms(3,4,7) by (intro mult_left_mono) auto
  ultimately have "q * v2 * P < (x3 + 1) * P" using assms(1,2) by (simp add: distrib_right mult.assoc)
  then have "q * v2 < x3 + 1" using assms(5) by simp
  then show ?thesis by simp
qed

lemma knuth_estimate_bound:
  fixes X V x3 v2 P q lx lv :: int
  assumes X: "X = x3 * P + lx" "0 \<le> lx" and V: "V = v2 * P + lv" "0 \<le> lv" "lv < P" and "0 < V"
    and q: "q * v2 \<le> x3" "0 \<le> q" "q \<le> v2 + 1"
  shows "q \<le> X div V + 1"
proof (cases "q = 0")
  case True
  have "0 \<le> x3" using q(1) True by simp
  then have "0 \<le> X" using X V by simp
  then show ?thesis using True assms(6) by (simp add: pos_imp_zdiv_nonneg_iff)
next
  case False
  have "(q - 1) * V \<le> (q - 1) * (v2 * P + P)" using V(1,3) q(2) False by (intro mult_left_mono) auto
  also have "\<dots> = q * v2 * P + (q - 1 - v2) * P" by (simp add: algebra_simps)
  also have "\<dots> \<le> q * v2 * P" using q(3) V(2,3) by (simp add: mult_nonpos_nonneg)
  also have "\<dots> \<le> x3 * P" using q(1) V(2,3) by (intro mult_right_mono) auto
  also have "\<dots> \<le> X" using X by simp
  finally have "q - 1 \<le> X div V" by (simp add: le_div_iff [OF assms(6)])
  then show ?thesis by simp
qed

text \<open>When the top digits agree the estimate is the largest digit, and is at most one too large.\<close>

lemma knuth_max_digit:
  fixes X V v1 P lx lv B :: int
  assumes "X = v1 * (B * P) + lx" and "0 \<le> lx" and "V = v1 * P + lv" and "lv < P" and "0 < V" and "0 < P"
    and "B \<le> 2 * v1" and "2 \<le> B"
  shows "B - 1 \<le> X div V + 1"
proof -
  have "(B - 2) * V \<le> (B - 2) * (v1 * P + P)" using assms(3,4,8) by (intro mult_left_mono) auto
  also have "\<dots> = v1 * (B * P) + (B - 2 - 2 * v1) * P" by (simp add: algebra_simps)
  also have "\<dots> \<le> X"
    using assms(1,2) mult_nonpos_nonneg [of "B - 2 - 2 * v1" P] assms(6,7) by linarith
  finally have "B - 2 \<le> X div V" by (simp add: le_div_iff [OF assms(5)])
  then show ?thesis by simp
qed

text \<open>The top digit of the running dividend is never above the top digit of the divisor.\<close>

lemma knuth_top_le:
  fixes X V u0 u1 u2 v1 v2 P lx lv B :: int
  assumes "X = ((u0 * B + u1) * B + u2) * P + lx" and "V = (v1 * B + v2) * P + lv" and "X < B * V"
    and "lv < P" and "v2 < B" and "0 \<le> lx" and "0 \<le> u1" and "0 \<le> u2" and "0 < P" and "0 < B"
  shows "u0 \<le> v1"
proof (rule ccontr)
  assume "\<not> u0 \<le> v1"
  then have "(v1 + 1) * (B * B * P) \<le> u0 * (B * B * P)" using assms(9,10) by (intro mult_right_mono) auto
  moreover have "0 \<le> u1 * (B * P)" "0 \<le> u2 * P" using assms(7-10) by auto
  ultimately have X: "(v1 + 1) * (B * B * P) \<le> X" using assms(1,6) by (simp add: algebra_simps)
  have "(v2 + 1) * P \<le> B * P" using assms(5,9) by (intro mult_right_mono) auto
  then have "V \<le> (v1 + 1) * (B * P)" using assms(2,4) by (simp add: algebra_simps)
  then have "B * V \<le> B * ((v1 + 1) * (B * P))" using assms(10) by (intro mult_left_mono) auto
  then show False using X assms(3) by (simp add: algebra_simps)
qed

lemma adjustQhat_correct:
  fixes x2 Q :: int
  assumes "uint qhat * uint vn1 + uint rhat = x2"
    and "\<And>q. 0 \<le> q \<Longrightarrow> q \<le> Q \<Longrightarrow> q * (uint vn1 * digitBase + uint vn2) \<le> x2 * digitBase + uint ujn2"
    and "0 \<le> Q" and "Q \<le> uint qhat"
  shows "Q \<le> uint (adjustQhat vn1 vn2 ujn2 qhat rhat)"
    and "uint (adjustQhat vn1 vn2 ujn2 qhat rhat) * (uint vn1 * digitBase + uint vn2) \<le> x2 * digitBase + uint ujn2"
proof -
  have "Q \<le> uint (adjustQhat vn1 vn2 ujn2 qhat rhat)
    \<and> uint (adjustQhat vn1 vn2 ujn2 qhat rhat) * (uint vn1 * digitBase + uint vn2) \<le> x2 * digitBase + uint ujn2"
    using assms
  proof (induction vn1 vn2 ujn2 qhat rhat rule: adjustQhat.induct)
    case (1 vn1 vn2 ujn2 qhat rhat)
    have expand: "x2 * digitBase = uint qhat * (uint vn1 * digitBase) + uint rhat * digitBase"
      using "1.prems"(1) by (simp add: distrib_right mult.assoc flip: "1.prems"(1))
    show ?case
    proof (cases "productGreaterThan qhat vn2 rhat ujn2")
      case False
      then have "uint qhat * uint vn2 \<le> uint ujn2 + digitBase * uint rhat" by (simp add: productGreaterThan_iff)
      then show ?thesis
        using False "1.prems"(4) expand by (simp add: adjustQhat.simps [of vn1 vn2] distrib_left mult.commute [of digitBase])
    next
      case True
      then have gt: "uint ujn2 + digitBase * uint rhat < uint qhat * uint vn2" by (simp add: productGreaterThan_iff)
      then have "x2 * digitBase + uint ujn2 < uint qhat * (uint vn1 * digitBase + uint vn2)"
        unfolding expand distrib_left by (simp add: mult.commute)
      then have "Q \<noteq> uint qhat" using "1.prems"(2) [of Q] "1.prems"(3) by auto
      then have Q: "Q \<le> uint qhat - 1" using "1.prems"(4) by simp
      have q1: "uint (qhat - 1) = uint qhat - 1" using Q "1.prems"(3) by (subst uint_minus_small) auto
      show ?thesis
      proof (cases "rhat + vn1 < rhat")
        case over: True
        have "uint rhat + uint vn1 \<ge> digitBase"
          using over uint_plus_small [of rhat vn1] uint_nonneg [of vn1]
          by (force simp: word_less_def digitBase_num)
        then have "digitBase * digitBase \<le> (uint rhat + uint vn1) * digitBase" by (intro mult_right_mono) auto
        moreover have "(uint qhat - 1) * uint vn2 \<le> digitBase * digitBase"
          using uint_less_digitBase [of qhat] uint_less_digitBase [of vn2] uint_nonneg [of vn2] digitBase_pos(2) Q "1.prems"(3)
          by (intro mult_mono) linarith+
        ultimately have "(uint qhat - 1) * (uint vn1 * digitBase + uint vn2) \<le> x2 * digitBase + uint ujn2"
          using uint_nonneg [of ujn2] unfolding expand distrib_left distrib_right left_diff_distrib mult_1 by linarith
        then show ?thesis using True over Q by (simp add: adjustQhat.simps [of vn1 vn2] q1)
      next
        case go: False
        have r1: "uint (rhat + vn1) = uint rhat + uint vn1"
          using go uint_lt_64 [of rhat] uint_lt_64 [of vn1] uint_nonneg [of rhat] uint_nonneg [of vn1]
          by (simp add: word_less_def uint_plus_if_size word_size not_less split: if_splits)
        have "uint (qhat - 1) * uint vn1 + uint (rhat + vn1) = x2"
          using "1.prems"(1) by (simp add: q1 r1 left_diff_distrib)
        then show ?thesis
          using "1.IH" [OF True refl refl refl go _ "1.prems"(2,3)] Q True go
          by (simp add: adjustQhat.simps [of vn1 vn2 ujn2 qhat] q1)
      qed
    qed
  qed
  then show "Q \<le> uint (adjustQhat vn1 vn2 ujn2 qhat rhat)"
    "uint (adjustQhat vn1 vn2 ujn2 qhat rhat) * (uint vn1 * digitBase + uint vn2) \<le> x2 * digitBase + uint ujn2"
    by simp_all
qed

lemma dval_top_digits:
  "k + 2 \<le> length ds \<Longrightarrow> dval (take (k + 2) ds) = (uint (ds ! (k + 1)) * digitBase + uint (ds ! k)) * digitBase ^ k + dval (take k ds)"
  "k + 3 \<le> length ds \<Longrightarrow> dval (take (k + 3) ds) = ((uint (ds ! (k + 2)) * digitBase + uint (ds ! (k + 1))) * digitBase
     + uint (ds ! k)) * digitBase ^ k + dval (take k ds)"
  by (simp_all add: numeral_2_eq_2 numeral_3_eq_3 dval_take_Suc algebra_simps)

lemma estimateQhat_correct:
  fixes u v :: "digit list" and n j :: nat
  defines "X \<equiv> dval (take (n + 1) (drop j u))"
  assumes n: "2 \<le> n" "length v = n" and norm: "2 ^ 63 \<le> uint (v ! (n - 1))" and u: "j + n < length u"
    and X: "X < digitBase * dval v"
  shows "X div dval v \<le> uint (estimateQhat v u n j)" and "uint (estimateQhat v u n j) \<le> X div dval v + 1"
proof -
  define k where "k = n - 2"
  have nk: "n = k + 2" "n - 1 = k + 1" "n - 2 = k" "n + 1 = k + 3" using n by (simp_all add: k_def)
  let ?P = "digitBase ^ k"
  define v1 v2 where "v1 = v ! (k + 1)" and "v2 = v ! k"
  define u0 u1 u2 where "u0 = u ! (j + n)" and "u1 = u ! (j + n - 1)" and "u2 = u ! (j + n - 2)"
  define lx lv where "lx = dval (take k (drop j u))" and "lv = dval (take k v)"
  have low: "0 \<le> lx" "lx < ?P" "0 \<le> lv" "lv < ?P"
    using dval_bound [of "take k (drop j u)"] dval_bound [of "take k v"] u n by (simp_all add: lx_def lv_def nk)
  have V: "dval v = (uint v1 * digitBase + uint v2) * ?P + lv"
    using dval_top_digits(1) [of k v] n by (simp add: nk v1_def v2_def lv_def)
  have drop: "drop j u ! (k + 2) = u0" "drop j u ! (k + 1) = u1" "drop j u ! k = u2"
    using u by (simp_all add: u0_def u1_def u2_def nk)
  have X3: "X = ((uint u0 * digitBase + uint u1) * digitBase + uint u2) * ?P + lx"
    using dval_top_digits(2) [of k "drop j u"] u unfolding drop X_def lx_def nk(4) by (simp add: nk(1))
  have v1: "2 ^ 63 \<le> uint v1" using norm by (simp add: nk v1_def)
  have V0: "0 < dval v"
  proof -
    have "0 < uint v1 * digitBase" using v1 by simp
    then have "0 < (uint v1 * digitBase + uint v2) * ?P" using uint_nonneg [of v2] by (intro mult_pos_pos) (linarith, simp)
    then show ?thesis unfolding V using low(3) by linarith
  qed
  have Q: "0 \<le> X div dval v" "X div dval v < digitBase"
    using V0 X dval_nonneg [of "take (n + 1) (drop j u)"] by (simp_all add: X_def pos_imp_zdiv_nonneg_iff div_less_iff)
  have est: "estimateQhat v u n j = (if u0 \<noteq> v1 then case digitDiv u0 u1 v1 of (qhat, rhat) \<Rightarrow> adjustQhat v1 v2 u2 qhat rhat else digitMax)"
    by (simp add: estimateQhat_def Let_def u0_def u1_def u2_def v1_def v2_def nk)
  show "X div dval v \<le> uint (estimateQhat v u n j)" "uint (estimateQhat v u n j) \<le> X div dval v + 1"
  proof -
    have "X div dval v \<le> uint (estimateQhat v u n j) \<and> uint (estimateQhat v u n j) \<le> X div dval v + 1"
    proof (cases "u0 = v1")
      case True
      have "uint (estimateQhat v u n j) = digitBase - 1" using True by (simp add: est uint_digitMax)
      moreover have "digitBase - 1 \<le> X div dval v + 1"
      proof (rule knuth_max_digit)
        show "X = uint v1 * (digitBase * (digitBase * ?P)) + ((uint u1 * digitBase + uint u2) * ?P + lx)"
          unfolding X3 True by (simp add: algebra_simps)
        show "dval v = uint v1 * (digitBase * ?P) + (uint v2 * ?P + lv)" unfolding V by (simp add: algebra_simps)
        have "(uint v2 + 1) * ?P \<le> digitBase * ?P" using uint_less_digitBase [of v2] by (intro mult_right_mono) (linarith, simp)
        then show "uint v2 * ?P + lv < digitBase * ?P" using low by (simp add: distrib_right)
      qed (use V0 low v1 in \<open>auto simp: digitBase_num\<close>)
      ultimately show ?thesis using Q by simp
    next
      case False
      have v1pos: "0 < uint v1" using v1 by simp
      have "uint u0 < uint v1"
        using knuth_top_le [OF X3 V X low(4)] low(1) False
        by (simp add: word_uint_eq_iff)
      obtain qh rh where d: "digitDiv u0 u1 v1 = (qh, rh)" by fastforce
      note law = digitDiv_law [OF d \<open>uint u0 < uint v1\<close>]
      have *: "uint qh * uint v1 + uint rh = uint u0 * digitBase + uint u1" unfolding law by simp
      have Qd: "q * (uint v1 * digitBase + uint v2) \<le> (uint u0 * digitBase + uint u1) * digitBase + uint u2"
        if "0 \<le> q" "q \<le> X div dval v" for q
        using knuth_true_digit [OF X3 low(2) V low(3) _ V0 that] by simp
      have "X div dval v \<le> uint qh"
      proof -
        have "(X div dval v) * (uint v1 * digitBase) \<le> (X div dval v) * (uint v1 * digitBase + uint v2)"
          using Q(1) by (intro mult_left_mono) auto
        also have "\<dots> \<le> (uint u0 * digitBase + uint u1) * digitBase + uint u2" using Qd Q(1) by simp
        finally have "X div dval v * uint v1 * digitBase < (uint u0 * digitBase + uint u1 + 1) * digitBase"
          using uint_less_digitBase [of u2] by (simp add: distrib_right mult.assoc del: uint_less_digitBase)
        then have "X div dval v * uint v1 \<le> uint u0 * digitBase + uint u1" by simp
        then show ?thesis unfolding law(1) by (simp add: le_div_iff [OF v1pos])
      qed
      then have adj: "X div dval v \<le> uint (adjustQhat v1 v2 u2 qh rh)"
          "uint (adjustQhat v1 v2 u2 qh rh) * (uint v1 * digitBase + uint v2) \<le> (uint u0 * digitBase + uint u1) * digitBase + uint u2"
        using adjustQhat_correct [OF * _ Q(1)] Qd by blast+
      have "uint (adjustQhat v1 v2 u2 qh rh) \<le> X div dval v + 1"
      proof (rule knuth_estimate_bound [OF X3 low(1) V low(3,4) V0 adj(2)])
        have "digitBase \<le> uint v1 * digitBase" using v1pos by simp
        then show "uint (adjustQhat v1 v2 u2 qh rh) \<le> uint v1 * digitBase + uint v2 + 1"
          using uint_less_digitBase [of "adjustQhat v1 v2 u2 qh rh"] uint_nonneg [of v2] by linarith
      qed (rule uint_nonneg)
      then show ?thesis using adj(1) False d by (simp add: est)
    qed
    then show "X div dval v \<le> uint (estimateQhat v u n j)" "uint (estimateQhat v u n j) \<le> X div dval v + 1" by simp_all
  qed
qed

interpretation inplaceAdd: carry_chain "inplaceAddStep ys" "\<lambda>_. True" uint "\<lambda>i old. uint old + uint (ys ! i)" for ys
proof
  fix c d c' old :: digit and i
  assume "inplaceAddStep ys i old c = (d, c')"
  then obtain s1 n1 where e1: "digitAdd old (ys ! i) 0 = (s1, n1)" and e2: "digitAdd s1 c n1 = (d, c')"
    by (auto simp: inplaceAddStep_def Let_def split: prod.splits)
  note l1 = digitAdd_law [OF e1]
  have "uint n1 \<le> 1" using l1(2) by simp
  then show "uint d + digitBase * uint c' = uint old + uint (ys ! i) + uint c \<and> True"
    using l1(1) digitAdd_law(1) [OF e2] by (simp add: digitBase_num)
qed

interpretation inplaceSub: carry_chain "inplaceSubStep ys" "\<lambda>_. True" "\<lambda>b. - uint b" "\<lambda>i old. uint old - uint (ys ! i)" for ys
proof
  fix c d c' old :: digit and i
  assume "inplaceSubStep ys i old c = (d, c')"
  then obtain s1 n1 where e1: "digitSub old (ys ! i) 0 = (s1, n1)" and e2: "digitSub s1 c n1 = (d, c')"
    by (auto simp: inplaceSubStep_def Let_def split: prod.splits)
  note l1 = digitSub_law [OF e1]
  have "uint n1 \<le> 1" using l1(2) by simp
  then show "uint d + digitBase * - uint c' = uint old - uint (ys ! i) + - uint c \<and> True"
    using l1(1) digitSub_law(1) [OF e2] by (simp add: digitBase_num)
qed

lemma absoluteInplaceAdd_value:
  assumes "j + length ys \<le> length u"
  obtains u' c where "absoluteInplaceAdd u ys j = Inr (u', c)" and "length u' = length u"
    and "\<And>k. k < j \<or> j + length ys \<le> k \<Longrightarrow> u' ! k = u ! k"
    and "dval (take (length ys) (drop j u')) + digitBase ^ length ys * uint c = dval (take (length ys) (drop j u)) + dval ys"
proof -
  obtain u' c where loop: "digitLoop j 0 (length ys) (inplaceAddStep ys) (u, 0) = (u', c)" by fastforce
  note fr = digitLoop_frame [OF loop]
  have "dval (take (length ys) (drop j u')) + digitBase ^ length ys * uint c = dval (take (length ys) (drop j u)) + dval ys"
    using inplaceAdd.loop_value [OF loop] assms dval_sum [of j "length ys" u] dval_sum [of 0 "length ys" ys]
    by (simp add: distrib_left sum.distrib)
  moreover have "absoluteInplaceAdd u ys j = Inr (u', c)"
    using assms by (simp add: absoluteInplaceAdd_def loop)
  ultimately show ?thesis using fr by (intro that) auto
qed

lemma absoluteInplaceSub_value:
  assumes "j + length ys \<le> length u"
  obtains u' c where "absoluteInplaceSub u ys j = Inr (u', c)" and "length u' = length u"
    and "\<And>k. k < j \<or> j + length ys \<le> k \<Longrightarrow> u' ! k = u ! k"
    and "dval (take (length ys) (drop j u')) - digitBase ^ length ys * uint c = dval (take (length ys) (drop j u)) - dval ys"
proof -
  obtain u' c where loop: "digitLoop j 0 (length ys) (inplaceSubStep ys) (u, 0) = (u', c)" by fastforce
  note fr = digitLoop_frame [OF loop]
  have "dval (take (length ys) (drop j u')) - digitBase ^ length ys * uint c = dval (take (length ys) (drop j u)) - dval ys"
    using inplaceSub.loop_value [OF loop] assms dval_sum [of j "length ys" u] dval_sum [of 0 "length ys" ys]
    by (simp add: right_diff_distrib sum_subtractf)
  moreover have "absoluteInplaceSub u ys j = Inr (u', c)"
    using assms by (simp add: absoluteInplaceSub_def loop)
  ultimately show ?thesis using fr by (intro that) auto
qed

text \<open>Adding the divisor back, modulo the window: what the carry into the top digit does.\<close>

lemma add_back_window:
  assumes "absoluteInplaceAdd u1 v j = Inr (u2, c2)" and "length v = n" and "j + n < length u1"
  defines "u3 \<equiv> u2[j + n := u2 ! (j + n) + c2]"
  shows "length u3 = length u1" and "\<And>k. k < j \<or> j + (n + 1) \<le> k \<Longrightarrow> u3 ! k = u1 ! k"
    and "dval (take (n + 1) (drop j u3)) = (dval (take (n + 1) (drop j u1)) + dval v) mod digitBase ^ (n + 1)"
proof -
  obtain u2' c2' where "absoluteInplaceAdd u1 v j = Inr (u2', c2')" and len: "length u2' = length u1"
    and fr: "\<And>k. k < j \<or> j + n \<le> k \<Longrightarrow> u2' ! k = u1 ! k"
    and val: "dval (take n (drop j u2')) + digitBase ^ n * uint c2' = dval (take n (drop j u1)) + dval v"
    by (rule absoluteInplaceAdd_value [of j v u1]) (use assms(2,3) in auto)
  then have eq: "u2' = u2" "c2' = c2" using assms(1) by simp_all
  show "length u3 = length u1" using len by (simp add: u3_def eq)
  show "u3 ! k = u1 ! k" if "k < j \<or> j + (n + 1) \<le> k" for k using that fr [of k] by (auto simp: u3_def eq)
  let ?a = "uint (u1 ! (j + n)) + uint c2"
  have top: "uint (u2 ! (j + n) + c2) = ?a - digitBase * (?a div digitBase)"
    using fr [of "j + n"] by (simp add: eq uint_word_ariths minus_mult_div_eq_mod digitBase_num)
  have "dval (take (n + 1) (drop j u3)) = dval (take n (drop j u2)) + digitBase ^ n * uint (u2 ! (j + n) + c2)"
    using drop_take_update_last [of j n u2 "u2 ! (j + n) + c2"] len assms(3)
    by (simp add: u3_def eq dval_snoc min_absorb2)
  also have "\<dots> = dval (take n (drop j u1)) + digitBase ^ n * uint (u1 ! (j + n)) + dval v
      - digitBase ^ (n + 1) * (?a div digitBase)"
    using val unfolding top eq by (simp add: algebra_simps)
  also have "dval (take n (drop j u1)) + digitBase ^ n * uint (u1 ! (j + n)) = dval (take (n + 1) (drop j u1))"
    using dval_take_Suc [of n "drop j u1"] assms(3) by simp
  finally have W: "dval (take (n + 1) (drop j u3)) = dval (take (n + 1) (drop j u1)) + dval v - digitBase ^ (n + 1) * (?a div digitBase)" .
  have "dval (take (n + 1) (drop j u3)) mod digitBase ^ (n + 1) = dval (take (n + 1) (drop j u3))"
    using dval_bound [of "take (n + 1) (drop j u3)"] \<open>length u3 = length u1\<close> assms(3)
    by (intro mod_pos_pos_trivial) (auto simp: min_absorb2)
  moreover have "dval (take (n + 1) (drop j u1)) + dval v
      = dval (take (n + 1) (drop j u3)) + digitBase ^ (n + 1) * (?a div digitBase)" using W by linarith
  ultimately show "dval (take (n + 1) (drop j u3)) = (dval (take (n + 1) (drop j u1)) + dval v) mod digitBase ^ (n + 1)"
    by (simp only: mod_mult_self2)
qed

text \<open>Once the window holds the remainder, the iteration has done its work.\<close>

lemma window_remainder:
  assumes "length u' = length u" and "\<And>k. k < j \<or> j + (n + 1) \<le> k \<Longrightarrow> u' ! k = u ! k" and "j + n < length u"
    and zero: "dval (drop (j + (n + 1)) u) = 0"
    and "dval (take (n + 1) (drop j u')) = X mod V" and "dval (take (n + 1) (drop j u)) = X" and "0 < V" and "d = X div V"
  shows "dval u' = dval u - digitBase ^ j * (d * V)" and "dval (drop j u') < V"
proof -
  have "dval u' = dval u + digitBase ^ j * dval (take (n + 1) (drop j u')) - digitBase ^ j * dval (take (n + 1) (drop j u))"
    by (rule dval_window) (use assms in auto)
  moreover have "digitBase ^ j * X = digitBase ^ j * (X div V * V) + digitBase ^ j * (X mod V)"
    by (simp flip: distrib_left)
  ultimately show "dval u' = dval u - digitBase ^ j * (d * V)" using assms(5,6,8) by simp
  have "drop (j + (n + 1)) u' = drop (j + (n + 1)) u" using assms(1-3) by (intro nth_equalityI) auto
  then have "dval (drop j u') = X mod V"
    using dval_take_drop [of "drop j u'" "n + 1"] zero assms(5) by (simp add: add.commute)
  then show "dval (drop j u') < V" using assms(7) by simp
qed

lemma knuth_borrow:
  fixes W X V Q c q M :: int
  assumes "W - M * c = X - q * V" and "0 \<le> W" and "W < M" and "0 \<le> c" and "V < M" and "0 < V"
    and "X div V \<le> q" and "q \<le> X div V + 1"
  shows "c = 0 \<Longrightarrow> q = X div V \<and> W = X mod V"
    and "c \<noteq> 0 \<Longrightarrow> q = X div V + 1 \<and> W + V = X mod V + M"
proof -
  define Q R where "Q = X div V" and "R = X mod V"
  have X: "X = Q * V + R" "0 \<le> R" "R < V" using assms(6) by (simp_all add: Q_def R_def)
  consider "q = Q" | "q = Q + 1" using assms(7,8) unfolding Q_def by linarith
  note q = this
  show "q = X div V \<and> W = X mod V" if "c = 0"
    using q
  proof cases
    case 1
    then have "W = R" using assms(1) that X(1) by simp
    then show ?thesis using 1 unfolding Q_def R_def by simp
  next
    case 2
    then have "W = R - V" using assms(1) that X(1) by (simp add: distrib_right)
    then show ?thesis using assms(2) X(3) by simp
  qed
  show "q = X div V + 1 \<and> W + V = X mod V + M" if "c \<noteq> 0"
  proof -
    have big: "M * 2 \<le> M * c" if "c \<noteq> 1" using that \<open>c \<noteq> 0\<close> assms(2,3,4) by (intro mult_left_mono) auto
    show ?thesis using q
    proof cases
      case 1
      have "M * 1 \<le> M * c" using that assms(2,3,4) by (intro mult_left_mono) auto
      then have "0 \<le> W - M" using assms(1) X(1,2) 1 by simp
      then show ?thesis using assms(3) by simp
    next
      case 2
      then have "W = R - V + M * c" using assms(1) X(1) by (simp add: distrib_right)
      then have "c = 1" using big assms(3,5) X(2) by linarith
      then have "W + V = R + M" using \<open>W = R - V + M * c\<close> by simp
      then show ?thesis using 2 unfolding Q_def R_def by simp
    qed
  qed
qed

lemma knuthStep_correct:
  assumes n: "2 \<le> n" "length v = n" and norm: "2 ^ 63 \<le> uint (v ! (n - 1))" and u: "j + n < length u"
    and qv: "length qhatv = n + 1" and rem: "dval (drop (Suc j) u) < dval v"
  shows "\<exists>u' qhatv' d. knuthStep v n j (u, qhatv, q) = Inr (u', qhatv', map_option (\<lambda>q. q[j := d]) q)
     \<and> length u' = length u \<and> length qhatv' = n + 1
     \<and> dval u' = dval u - digitBase ^ j * (uint d * dval v) \<and> dval (drop j u') < dval v"
proof -
  define X where "X = dval (take (n + 1) (drop j u))"
  let ?V = "dval v" and ?M = "digitBase ^ (n + 1)"
  have V: "0 < ?V" "?V < digitBase ^ n" using rem dval_nonneg [of "drop (Suc j) u"] dval_bound [of v] n(2) by (linarith, simp)
  have D: "dval (drop j u) < digitBase * ?V"
  proof -
    have "dval (drop j u) = uint (u ! j) + digitBase * dval (drop (Suc j) u)"
      using u by (simp flip: Cons_nth_drop_Suc)
    moreover have "digitBase * (dval (drop (Suc j) u) + 1) \<le> digitBase * ?V" using rem by (intro mult_left_mono) auto
    ultimately show ?thesis using uint_less_digitBase [of "u ! j"] unfolding distrib_left by linarith
  qed
  have VM: "digitBase * ?V < ?M" "?V < ?M" using V by (auto simp: digitBase_num intro: order.strict_trans)
  have split: "dval (drop j u) = X + ?M * dval (drop (j + (n + 1)) u)"
    using dval_take_drop [of "drop j u" "n + 1"] u by (simp add: X_def min_absorb1 add.commute)
  have zero: "dval (drop (j + (n + 1)) u) = 0"
  proof (rule ccontr)
    assume "dval (drop (j + (n + 1)) u) \<noteq> 0"
    then have "?M * 1 \<le> ?M * dval (drop (j + (n + 1)) u)"
      using dval_nonneg [of "drop (j + (n + 1)) u"] by (intro mult_left_mono) (linarith, simp)
    moreover have "0 \<le> X" by (simp add: X_def)
    ultimately show False using split D VM by linarith
  qed
  then have X: "X < digitBase * ?V" using split D by simp
  define qhat where "qhat = estimateQhat v u n j"
  note est = estimateQhat_correct [OF n norm u, folded X_def, OF X, folded qhat_def]
  have fits: "dval (take n v) * uint qhat + uint (0 :: digit) < digitBase ^ length qhatv"
  proof -
    have "dval v * uint qhat \<le> dval v * digitBase" using uint_less_digitBase [of qhat] by (intro mult_left_mono) (linarith, simp)
    then have "dval v * uint qhat < ?M" using VM(1) by (simp only: mult.commute)
    then show ?thesis using n(2) qv by simp
  qed
  obtain qhatv' where mul: "internalMultiplyAdd (Some v) qhat 0 n qhatv = Inr qhatv'" "length qhatv' = n + 1"
      "dval qhatv' = ?V * uint qhat"
    using internalMultiplyAdd_correct [of n qhatv "Some v" qhat 0] fits n(2) qv by auto
  obtain u1 c where sub: "absoluteInplaceSub u qhatv' j = Inr (u1, c)" "length u1 = length u"
      "\<And>k. k < j \<or> j + (n + 1) \<le> k \<Longrightarrow> u1 ! k = u ! k"
      "dval (take (n + 1) (drop j u1)) - ?M * uint c = X - uint qhat * ?V"
    by (rule absoluteInplaceSub_value [of j qhatv' u]) (use u mul in \<open>auto simp: X_def mult.commute\<close>)
  have W: "dval (take (n + 1) (drop j u1)) < ?M" using dval_bound [of "take (n + 1) (drop j u1)"] sub(2) u by simp
  note borrow = knuth_borrow [OF sub(4) dval_nonneg W uint_nonneg VM(2) V(1) est]
  show ?thesis
  proof (cases "c = 0")
    case True
    then have "knuthStep v n j (u, qhatv, q) = Inr (u1, qhatv', map_option (\<lambda>q. q[j := qhat]) q)"
      by (simp add: knuthStep_def mul sub(1) flip: qhat_def)
    moreover have "uint qhat = X div ?V" "dval (take (n + 1) (drop j u1)) = X mod ?V" using borrow(1) True by simp_all
    ultimately show ?thesis
      using window_remainder [OF sub(2,3) u zero _ X_def [symmetric] V(1)] sub(2) mul(2) by auto
  next
    case False
    then have q: "uint qhat = X div ?V + 1" and w: "dval (take (n + 1) (drop j u1)) + ?V = X mod ?V + ?M"
      using borrow(2) by (simp_all add: unsigned_eq_0_iff)
    have "j + length v \<le> length u1" using n(2) u sub(2) by simp
    then obtain u2 c2 where add: "absoluteInplaceAdd u1 v j = Inr (u2, c2)"
      by (rule absoluteInplaceAdd_value)
    define u3 where "u3 = u2[j + n := u2 ! (j + n) + c2]"
    have u1: "j + n < length u1" using u sub(2) by simp
    note added = add_back_window [OF add n(2) u1, folded u3_def]
    have "knuthStep v n j (u, qhatv, q) = Inr (u3, qhatv', map_option (\<lambda>q. q[j := qhat - 1]) q)"
      using False by (simp add: knuthStep_def mul sub(1) add u3_def flip: qhat_def)
    moreover have "uint (qhat - 1) = X div ?V"
      using q V(1) X_def dval_nonneg by (subst uint_minus_small) (auto simp: pos_imp_zdiv_nonneg_iff)
    moreover have lenu3: "length u3 = length u" and same: "\<And>k. k < j \<or> j + (n + 1) \<le> k \<Longrightarrow> u3 ! k = u ! k"
      using added(1,2) sub(2,3) by simp_all
    moreover have "dval (take (n + 1) (drop j u3)) = X mod ?V"
    proof -
      have "X mod ?V < ?M" "0 \<le> X mod ?V" using pos_mod_bound [OF V(1), of X] pos_mod_sign [OF V(1), of X] VM(2) by linarith+
      then show ?thesis unfolding added(3) w by simp
    qed
    ultimately show ?thesis
      using window_remainder [OF lenu3 same u zero _ X_def [symmetric] V(1)] lenu3 mul(2) by auto
  qed
qed

lemma knuth_loop:
  assumes n: "2 \<le> n" "length v = n" and norm: "2 ^ 63 \<le> uint (v ! (n - 1))" and len: "length u0 = m + n + 1"
    and qv: "length qhatv0 = n + 1" and rem: "dval (drop (m + 1) u0) < dval v"
    and q0: "\<forall>qs. q0 = Some qs \<longrightarrow> length qs = m + 1"
  shows "\<exists>u qhatv q. knuthLoop v n m (u0, qhatv0, q0) = Inr (u, qhatv, q)
     \<and> length u = length u0 \<and> dval u = dval u0 mod dval v
     \<and> (\<forall>qs0. q0 = Some qs0 \<longrightarrow> (\<exists>qs. q = Some qs \<and> length qs = m + 1 \<and> dval qs = dval u0 div dval v))"
proof -
  let ?I = "\<lambda>j st. \<exists>u qhatv q Q. st = Inr (u, qhatv, q) \<and> length u = length u0 \<and> length qhatv = n + 1
     \<and> dval u0 = dval u + digitBase ^ j * (Q * dval v) \<and> dval (drop j u) < dval v
     \<and> (\<forall>qs0. q0 = Some qs0 \<longrightarrow> (\<exists>qs. q = Some qs \<and> length qs = m + 1 \<and> dval (drop j qs) = Q))"
  have "?I 0 (for_down (m + 1) 0 (\<lambda>j st. andThen st (knuthStep v n j)) (Inr (u0, qhatv0, q0)))"
  proof (rule for_down_inv [where I = ?I])
    show "?I (m + 1) (Inr (u0, qhatv0, q0))"
      using qv rem q0 by (intro exI [of _ u0] exI [of _ qhatv0] exI [of _ q0] exI [of _ 0]) auto
  next
    fix j and st :: "(js_error, digit list \<times> digit list \<times> digit list option) result"
    assume j: "j < m + 1" and "?I (Suc j) st"
    then obtain u qhatv q Q where st: "st = Inr (u, qhatv, q)" "length u = length u0" "length qhatv = n + 1"
        "dval u0 = dval u + digitBase ^ Suc j * (Q * dval v)" "dval (drop (Suc j) u) < dval v"
        "\<And>qs0. q0 = Some qs0 \<Longrightarrow> \<exists>qs. q = Some qs \<and> length qs = m + 1 \<and> dval (drop (Suc j) qs) = Q"
      by blast
    have "j + n < length u" using j st(2) len by simp
    from knuthStep_correct [OF n norm this st(3,5), of q] obtain u' qhatv' d where
      k: "knuthStep v n j (u, qhatv, q) = Inr (u', qhatv', map_option (\<lambda>q. q[j := d]) q)"
        "length u' = length u" "length qhatv' = n + 1" "dval u' = dval u - digitBase ^ j * (uint d * dval v)"
        "dval (drop j u') < dval v" by blast
    have "dval u0 = dval u' + digitBase ^ j * ((uint d + digitBase * Q) * dval v)"
      using st(4) k(4) by (simp add: algebra_simps)
    moreover have "\<exists>qs. map_option (\<lambda>q. q[j := d]) q = Some qs \<and> length qs = m + 1 \<and> dval (drop j qs) = uint d + digitBase * Q"
      if ex: "q0 = Some qs0" for qs0
    proof -
      obtain qs where qs: "q = Some qs" "length qs = m + 1" "dval (drop (Suc j) qs) = Q" using st(6) [OF ex] by blast
      have "drop j (qs[j := d]) = d # drop (Suc j) qs"
        using j qs(2) by (simp add: drop_update_swap Cons_nth_drop_Suc [symmetric])
      then show ?thesis using qs by simp
    qed
    ultimately show "?I j (andThen st (knuthStep v n j))"
      using st(1,2) k by (intro exI [of _ u'] exI [of _ qhatv'] exI [of _ "map_option (\<lambda>q. q[j := d]) q"]
          exI [of _ "uint d + digitBase * Q"]) auto
  qed simp
  then obtain u qhatv q Q where r:
      "knuthLoop v n m (u0, qhatv0, q0) = Inr (u, qhatv, q)"
      "length u = length u0" "dval u0 = dval u + Q * dval v" "dval u < dval v"
      "\<forall>qs0. q0 = Some qs0 \<longrightarrow> (\<exists>qs. q = Some qs \<and> length qs = m + 1 \<and> dval qs = Q)"
    unfolding power_0 mult_1 drop_0 knuthLoop_def by (elim exE conjE)
  have V: "0 < dval v" using r(4) dval_nonneg [of u] by linarith
  have Q: "dval u0 div dval v = Q" using r(3,4) V by (intro div_unique_bounds) auto
  then have "dval u0 mod dval v = dval u" using r(3) by (simp add: mod_div_mult_eq minus_div_mult_eq_mod [symmetric])
  then show ?thesis using r Q by auto
qed

lemma normalised_top:
  assumes "canonical y" and "2 \<le> bigLength y"
  defines "s \<equiv> clz (digitAt y (bigLength y - 1))"
  shows "s < 64" and "2 ^ s * dval (m_data y) < digitBase ^ bigLength y"
    and "\<And>v. length v = bigLength y \<Longrightarrow> dval v = 2 ^ s * dval (m_data y) \<Longrightarrow> 2 ^ 63 \<le> uint (v ! (bigLength y - 1))"
proof -
  let ?n = "bigLength y" and ?P = "digitBase ^ (bigLength y - 1)"
  define t where "t = digitAt y (?n - 1)"
  have ne: "m_data y \<noteq> []" using assms(2) by auto
  have t: "t = last (m_data y)" "t \<noteq> 0" using assms(1) ne by (auto simp: t_def digitAt_def canonical_def last_conv_nth)
  note c = clz_normalises [OF t(2), unfolded t_def, folded s_def, folded t_def, simplified]
  show "s < 64" by (rule c(1))
  have y: "dval (m_data y) = dval (butlast (m_data y)) + ?P * uint t" using dval_split_last [OF ne] t(1) by simp
  have pow: "digitBase ^ ?n = ?P * digitBase" using assms(2) by (cases ?n) auto
  have low: "dval (butlast (m_data y)) < ?P" using dval_bound [of "butlast (m_data y)"] by simp
  have t1: "(uint t + 1) * 2 ^ s \<le> digitBase"
  proof -
    have "digitBase = 2 ^ (64 - s) * 2 ^ s" using c(1) by (simp add: digitBase_def flip: power_add)
    moreover have "uint t < 2 ^ (64 - s)"
      using c(2) calculation mult_less_cancel_right_pos [of "2 ^ s" "uint t" "2 ^ (64 - s)"] by (simp add: digitBase_num)
    then have "(uint t + 1) * 2 ^ s \<le> 2 ^ (64 - s) * 2 ^ s" by (intro mult_right_mono) auto
    ultimately show ?thesis by simp
  qed
  have "2 ^ s * dval (m_data y) < 2 ^ s * (?P * (uint t + 1))" using low unfolding y by (simp add: distrib_left)
  also have "\<dots> = ?P * ((uint t + 1) * 2 ^ s)" by (simp only: mult.commute mult.left_commute)
  also have "\<dots> \<le> ?P * digitBase" using t1 by (intro mult_left_mono) auto
  finally show "2 ^ s * dval (m_data y) < digitBase ^ ?n" unfolding pow .
  fix v :: "digit list" assume v: "length v = ?n" "dval v = 2 ^ s * dval (m_data y)"
  then have vne: "v \<noteq> []" using assms(2) by auto
  have "?P * 2 ^ 63 \<le> ?P * (uint t * 2 ^ s)" using c(3) by (intro mult_left_mono) auto
  also have "\<dots> \<le> dval v" unfolding v(2) y by (simp add: distrib_left mult.commute mult.left_commute)
  also have "\<dots> < ?P * (uint (last v) + 1)"
    using dval_split_last [OF vne] dval_bound [of "butlast v"] v(1) by (simp add: distrib_left)
  finally have "2 ^ 63 < uint (last v) + 1" by simp
  then show "2 ^ 63 \<le> uint (v ! (?n - 1))" using vne v(1) by (simp add: last_conv_nth)
qed

text \<open>The shifted dividend starts below the divisor, so every quotient digit is a digit.\<close>

lemma shifted_dividend_small:
  assumes "length us = l + 1" and "dval us = 2 ^ s * x" and "x < digitBase ^ l" and "s < 64"
    and "length v = n" and "2 \<le> n" and "n \<le> l" and "2 ^ 63 \<le> uint (v ! (n - 1))"
  shows "dval (drop (l - n + 1) us) < dval v"
proof -
  let ?k = "l - n + 1"
  have "(2 :: int) ^ s \<le> 2 ^ 63" using assms(4) by (intro power_increasing) auto
  then have "2 ^ s * x < 2 ^ 63 * digitBase ^ l"
    using assms(3) mult_le_less_imp_less [of "2 ^ s" "2 ^ 63 :: int" x "digitBase ^ l"] dval_nonneg [of us] assms(2)
    by (cases "0 \<le> x") (auto simp: zero_le_mult_iff)
  also have "\<dots> = digitBase ^ ?k * (2 ^ 63 * digitBase ^ (n - 1))"
    using power_add [of digitBase ?k "n - 1"] assms(6,7) by simp
  finally have "dval us < digitBase ^ ?k * (2 ^ 63 * digitBase ^ (n - 1))" using assms(2) by simp
  then have "dval us div digitBase ^ ?k < 2 ^ 63 * digitBase ^ (n - 1)"
    by (subst div_less_iff) (auto simp: mult.commute)
  then have "dval (drop ?k us) < digitBase ^ (n - 1) * 2 ^ 63"
    using dval_div_base_power [of ?k us] assms(1,6,7) by (simp add: mult.commute)
  also have "\<dots> \<le> digitBase ^ (n - 1) * uint (v ! (n - 1))" using assms(8) by (intro mult_left_mono) auto
  also have "\<dots> \<le> dval v"
    using dval_split_last [of v] dval_nonneg [of "butlast v"] assms(5,6) by (cases v) (auto simp: last_conv_nth)
  finally show ?thesis .
qed

lemma absoluteDivWithBigIntDivisor_outcome:
  fixes x y :: jsBigInt and wantQ wantR :: bool
  defines "post \<equiv> (\<lambda>(q, r). (wantQ \<longrightarrow> (\<exists>qb. q = Some qb \<and> fresh (bigLength x - bigLength y + 1) qb \<and> dval (m_data qb) = dval (m_data x) div dval (m_data y)))
       \<and> (wantR \<longrightarrow> (\<exists>rb. r = Some rb \<and> fresh (bigLength x + 1) rb \<and> dval (m_data rb) = dval (m_data x) mod dval (m_data y))))"
  assumes y: "canonical y" "2 \<le> bigLength y" and le: "bigLength y \<le> bigLength x"
  shows "outcome (oom env (bigLength x + 1)) post (absoluteDivWithBigIntDivisor env x y wantQ wantR)"
proof -
  define n m s where "n = bigLength y" and "m = bigLength x - n" and "s = clz (digitAt y (n - 1))"
  let ?L = "bigLength x + 1"
  note norm = normalised_top [OF y, folded n_def, folded s_def]
  have yz: "\<not> isZero y" "\<not> isZero x" using y(2) le by (auto simp: isZero_def)
  have mn: "bigLength x = m + n" using le by (simp add: m_def n_def)
  have core: "outcome (oom env ?L) post
      (andThen (absoluteLeftShiftAlwaysCopy env x s AlwaysAddOneDigit) (\<lambda>u.
           andThen (knuthLoop (m_data v) n m (m_data u, m_data qhatv, map_option m_data q)) (\<lambda>(udigits, qhatv, qdigits).
           let quot = (case q of Some qobj \<Rightarrow> map_option (\<lambda>ds. qobj\<lparr>m_data := ds\<rparr>) qdigits | None \<Rightarrow> None)
           in if wantR
              then andThen (inplaceRightShift udigits s) (\<lambda>udigits. Inr (quot, Some (u\<lparr>m_data := udigits\<rparr>)))
              else Inr (quot, None))))" (is "outcome _ _ (andThen _ ?f)")
    if v: "bigLength v = n" "dval (m_data v) = 2 ^ s * dval (m_data y)" and qv: "fresh (n + 1) qhatv"
      and q: "wantQ \<Longrightarrow> \<exists>qb. q = Some qb \<and> fresh (m + 1) qb" "\<not> wantQ \<Longrightarrow> q = None" for v qhatv q
  proof (rule oom_andThen [OF absoluteLeftShiftAlwaysCopy_outcome [OF norm(1) yz(2)]])
    fix u assume "fresh (if AlwaysAddOneDigit = AlwaysAddOneDigit then bigLength x + 1 else bigLength x) u
        \<and> dval (m_data u) = 2 ^ s * dval (m_data x)"
    then have u: "fresh ?L u" "bigLength u = m + n + 1" "dval (m_data u) = 2 ^ s * dval (m_data x)"
      using mn by (auto simp: fresh_def)
    have v63: "2 ^ 63 \<le> uint (m_data v ! (n - 1))" using norm(3) v by simp
    have small: "dval (drop (m + 1) (m_data u)) < dval (m_data v)"
      using shifted_dividend_small [OF _ u(3) dval_bound norm(1) v(1) _ _ v63] u(2) mn y(2) by (simp add: n_def)
    have n2: "2 \<le> n" using y(2) by (simp add: n_def)
    have qs: "\<forall>qs. map_option m_data q = Some qs \<longrightarrow> length qs = m + 1"
      using q by (cases wantQ) (auto simp: fresh_def)
    have qvl: "bigLength qhatv = n + 1" using qv by (simp add: fresh_def)
    from knuth_loop [OF n2 v(1) v63 u(2) qvl small qs] obtain ud qhatv' qd where
      loop: "knuthLoop (m_data v) n m (m_data u, m_data qhatv, map_option m_data q) = Inr (ud, qhatv', qd)"
      "length ud = bigLength u" "dval ud = dval (m_data u) mod dval (m_data v)"
      "\<forall>qs0. map_option m_data q = Some qs0 \<longrightarrow> (\<exists>qs. qd = Some qs \<and> length qs = m + 1 \<and> dval qs = dval (m_data u) div dval (m_data v))"
      by (elim exE conjE)
    have dm: "dval (m_data u) mod dval (m_data v) = 2 ^ s * (dval (m_data x) mod dval (m_data y))"
      "dval (m_data u) div dval (m_data v) = dval (m_data x) div dval (m_data y)"
      unfolding u(3) v(2) by (simp_all only: mult_mod_right) simp
    have "2 ^ s dvd dval ud" "ud \<noteq> []" using loop(2,3) dm u(2) by auto
    then obtain rd where rd: "inplaceRightShift ud s = Inr rd" "length rd = length ud" "dval rd = dval (m_data x) mod dval (m_data y)"
      using inplaceRightShift_correct [OF norm(1), of ud] loop(3) dm by auto
    let ?quot = "case q of Some qobj \<Rightarrow> map_option (\<lambda>ds. qobj\<lparr>m_data := ds\<rparr>) qd | None \<Rightarrow> None"
    have "\<exists>qb. ?quot = Some qb \<and> fresh (m + 1) qb \<and> dval (m_data qb) = dval (m_data x) div dval (m_data y)" if wq: "wantQ"
    proof -
      obtain qb where qb: "q = Some qb" "fresh (m + 1) qb" using q(1) [OF wq] by blast
      then obtain qs where "qd = Some qs" "length qs = m + 1" "dval qs = dval (m_data x) div dval (m_data y)"
        using loop(4) dm(2) by auto
      then show ?thesis using qb by (simp add: fresh_def)
    qed
    moreover have "fresh ?L (u\<lparr>m_data := rd\<rparr>) \<and> dval (m_data (u\<lparr>m_data := rd\<rparr>)) = dval (m_data x) mod dval (m_data y)"
      using u(1,2) rd(2,3) loop(2) by (simp add: fresh_def)
    ultimately have "post (?quot, if wantR then Some (u\<lparr>m_data := rd\<rparr>) else None)"
      unfolding post_def m_def n_def by simp
    then show "outcome (oom env ?L) post (?f u)"
      unfolding loop(1) by (cases wantR) (simp_all add: rd(1) Let_def)
  qed auto
  have shifted: "outcome (oom env ?L) (\<lambda>v. bigLength v = n \<and> dval (m_data v) = 2 ^ s * dval (m_data y))
      (if s > 0 then absoluteLeftShiftAlwaysCopy env y s SameSizeResult else Inr y)"
  proof (cases "s > 0")
    case True
    have "outcome (oom env (bigLength y)) (\<lambda>r. fresh (bigLength y) r \<and> dval (m_data r) = 2 ^ s * dval (m_data y))
        (absoluteLeftShiftAlwaysCopy env y s SameSizeResult)"
      using absoluteLeftShiftAlwaysCopy_outcome [OF norm(1) yz(1), of SameSizeResult env] norm(2) by (simp add: n_def)
    then have "outcome (oom env ?L) (\<lambda>v. bigLength v = n \<and> dval (m_data v) = 2 ^ s * dval (m_data y))
        (absoluteLeftShiftAlwaysCopy env y s SameSizeResult)"
      by (rule outcome_mono) (use le in \<open>simp_all add: oom_mono [where L = "bigLength y"] fresh_def n_def\<close>)
    then show ?thesis using True by simp
  qed (simp add: n_def)
  have quot: "outcome (oom env ?L) (\<lambda>q. (wantQ \<longrightarrow> (\<exists>qb. q = Some qb \<and> fresh (m + 1) qb)) \<and> (\<not> wantQ \<longrightarrow> q = None))
      (if wantQ then andThen (createWithLength env (m + 1)) (\<lambda>q. Inr (Some q)) else Inr None)"
    using oom_andThen [OF createWithLength_outcome [of env "m + 1"], of ?L "\<lambda>q. \<exists>qb. q = Some qb \<and> fresh (m + 1) qb"] mn
    by (cases wantQ) simp_all
  have qhv: "outcome (oom env ?L) (fresh (n + 1)) (createWithLength env (n + 1))"
    using createWithLength_outcome [of env "n + 1"]
    by (rule outcome_mono) (simp_all add: oom_mono [where L = "n + 1"] mn)
  have eq: "absoluteDivWithBigIntDivisor env x y wantQ wantR =
     andThen (if wantQ then andThen (createWithLength env (m + 1)) (\<lambda>q. Inr (Some q)) else Inr None) (\<lambda>q.
        andThen (createWithLength env (n + 1)) (\<lambda>qhatv.
        andThen (if s > 0 then absoluteLeftShiftAlwaysCopy env y s SameSizeResult else Inr y) (\<lambda>v.
           andThen (absoluteLeftShiftAlwaysCopy env x s AlwaysAddOneDigit) (\<lambda>u.
           andThen (knuthLoop (m_data v) n m (m_data u, m_data qhatv, map_option m_data q)) (\<lambda>(udigits, qhatv, qdigits).
           let quot = (case q of Some qobj \<Rightarrow> map_option (\<lambda>ds. qobj\<lparr>m_data := ds\<rparr>) qdigits | None \<Rightarrow> None)
           in if wantR
              then andThen (inplaceRightShift udigits s) (\<lambda>udigits. Inr (quot, Some (u\<lparr>m_data := udigits\<rparr>)))
              else Inr (quot, None))))))"
    unfolding absoluteDivWithBigIntDivisor_def Let_def s_def m_def n_def using y(2) le by (simp only: assertThat_True)
  show ?thesis
    unfolding eq
    by (rule oom_andThen [OF quot order_refl], rule oom_andThen [OF qhv order_refl],
        rule oom_andThen [OF shifted order_refl], rule core) simp_all
qed


section \<open>Quotient and remainder, truncated towards zero\<close>

lemma bval_sdiv_smod:
  assumes "canonical x" and "canonical y" and "\<not> isZero y"
  shows "bval x sdiv bval y = (if m_sign x \<noteq> m_sign y then - (dval (m_data x) div dval (m_data y)) else dval (m_data x) div dval (m_data y))"
    and "bval x smod bval y = (if m_sign x then - (dval (m_data x) mod dval (m_data y)) else dval (m_data x) mod dval (m_data y))"
proof -
  have y: "0 < dval (m_data y)" using assms by (intro canonical_dval_pos)
  consider "isZero x" "dval (m_data x) = 0" "\<not> m_sign x" | "0 < dval (m_data x)"
    using assms(1) canonical_dval_pos [of x] by (auto simp: isZero_def canonical_def)
  then show "bval x sdiv bval y = (if m_sign x \<noteq> m_sign y then - (dval (m_data x) div dval (m_data y)) else dval (m_data x) div dval (m_data y))"
    "bval x smod bval y = (if m_sign x then - (dval (m_data x) mod dval (m_data y)) else dval (m_data x) mod dval (m_data y))"
    using y by (cases; simp add: signed_divide_int_def signed_modulo_int_def bval_def)+
qed

lemma zeroImpl_computes [outcome_intros]: "v = 0 \<Longrightarrow> computes env L (zeroImpl env) v"
  by (simp add: zeroImpl_def createZero_computes)

lemma absoluteDivWithDigitDivisor_outcome:
  assumes "canonical x" and "\<not> isZero x" and "d \<noteq> 0" and "d \<noteq> 1"
  shows "outcome (oom env (bigLength x)) (\<lambda>(q, r). \<exists>qb. q = Some qb \<and> fresh (bigLength x) qb \<and> dval (m_data qb) = dval (m_data x) div uint d)
     (absoluteDivWithDigitDivisor env x d NewQuotient)"
    and "absoluteDivWithDigitDivisor env x d NoQuotient = Inr (None, remainderDigits x d)"
    and "uint (remainderDigits x d) = dval (m_data x) mod uint d"
proof -
  have d: "0 < uint d" using uint_ge_1 [OF assms(3)] by linarith
  have div: "dval (m_data q) = dval (m_data x) div uint d \<and> fresh (bigLength x) q" if "divideDigits x d q0 = (q, r)" "fresh (bigLength x) q0" for q0 q r
  proof -
    note dd = divideDigits_correct [OF that(1) assms(3)]
    have "dval (m_data x) = uint d * dval (m_data q) + uint r" "uint r < uint d" using dd that(2) by (simp_all add: fresh_def)
    then have "dval (m_data x) div uint d = dval (m_data q)" using d by (intro div_unique_bounds) (auto simp: mult.commute)
    then show ?thesis using dd(3,4) that(2) by (simp add: fresh_def)
  qed
  have "absoluteDivWithDigitDivisor env x d NewQuotient = andThen (createWithLength env (bigLength x)) (\<lambda>result.
           let (q, remainder) = divideDigits x d result in Inr (Some q, remainder))"
    using assms by (simp add: absoluteDivWithDigitDivisor_def)
  then show "outcome (oom env (bigLength x)) (\<lambda>(q, r). \<exists>qb. q = Some qb \<and> fresh (bigLength x) qb \<and> dval (m_data qb) = dval (m_data x) div uint d)
     (absoluteDivWithDigitDivisor env x d NewQuotient)"
    by (simp, intro oom_andThen [OF createWithLength_outcome order_refl]) (use div in \<open>auto split: prod.splits\<close>)
  show "absoluteDivWithDigitDivisor env x d NoQuotient = Inr (None, remainderDigits x d)"
    using assms by (simp add: absoluteDivWithDigitDivisor_def)
  obtain q r where dv: "divideDigits x d x = (q, r)" by fastforce
  note dd = divideDigits_correct [OF dv assms(3) order_refl]
  have "dval (m_data x) mod uint d = uint r"
    unfolding dd(1) using dd(2) by simp
  then show "uint (remainderDigits x d) = dval (m_data x) mod uint d" using dd(6) by simp
qed

lemma fresh_rightTrim:
  assumes "fresh n q" and "n \<noteq> 0" and "n \<le> L" and "v = (if s then - dval (m_data q) else dval (m_data q))"
  shows "computes env L (rightTrim env (setSign q s)) v"
  using assms by (intro rightTrim_setSign) (auto simp: fresh_def)

text \<open>The three ways \<^verbatim>\<open>divideImpl\<close> and \<^verbatim>\<open>remainderImpl\<close> go once the divisor is known to be in range.\<close>

lemma length_cases:
  assumes "canonical y" and "\<not> isZero y"
  obtains (one) "bigLength y = 1" "digitAt y 0 = 1" "dval (m_data y) = 1"
    | (digit) "bigLength y = 1" "digitAt y 0 \<noteq> 1" "digitAt y 0 \<noteq> 0" "dval (m_data y) = uint (digitAt y 0)"
    | (long) "2 \<le> bigLength y"
proof (cases "bigLength y = 1")
  case True
  note s = canonical_single [OF assms(1) True]
  have "dval (m_data y) = uint (digitAt y 0)" using s(3) by (simp add: abs_bval)
  then show ?thesis using one digit True s(2) by (cases "digitAt y 0 = 1") auto
next
  case False
  then have "2 \<le> bigLength y" using assms(2) by (cases "bigLength y") (auto simp: isZero_def)
  then show ?thesis by (rule long)
qed

lemma not_less_facts:
  assumes "canonical x" and "canonical y" and "\<not> isZero y"
    and "absoluteCompare (HeapBigIntImpl x) (HeapBigIntImpl y) \<noteq> LessThan"
  shows "dval (m_data y) \<le> dval (m_data x)" and "\<not> isZero x" and "bigLength y \<le> bigLength x"
proof -
  show le: "dval (m_data y) \<le> dval (m_data x)"
    using assms(4) absoluteCompare_heap [OF assms(1,2)] by (auto simp: comparison_def split: if_splits)
  then show "\<not> isZero x" using canonical_dval_pos [OF assms(2,3)] by (auto simp: isZero_def)
  show "bigLength y \<le> bigLength x"
    using le dval_less_length [of "m_data x" "m_data y"] assms(2) by (fastforce simp: canonical_def not_le)
qed

lemma less_facts:
  assumes "canonical x" and "canonical y"
    and "absoluteCompare (HeapBigIntImpl x) (HeapBigIntImpl y) = LessThan"
  shows "dval (m_data x) < dval (m_data y)"
  using assms(3) absoluteCompare_heap [OF assms(1,2)] by (auto simp: comparison_def split: if_splits)

lemma divideImpl_computes [outcome_intros]:
  assumes "canonical x" and "canonical y" and "\<not> isZero y"
  shows "computes env (bigLength x + 1) (divideImpl env x y) (bval x sdiv bval y)"
proof (cases "absoluteCompare (HeapBigIntImpl x) (HeapBigIntImpl y) = LessThan")
  case True
  have "dval (m_data x) div dval (m_data y) = 0" using less_facts [OF assms(1,2) True] by simp
  then show ?thesis
    using True assms by (simp add: divideImpl_def bval_sdiv_smod(1) zeroImpl_computes)
next
  case ge: False
  note f = not_less_facts [OF assms ge]
  let ?s = "m_sign x \<noteq> m_sign y"
  let ?v = "bval x sdiv bval y"
  note v = bval_sdiv_smod(1) [OF assms]
  note unfold = divideImpl_def Let_def assms(3) ge if_False simp_thms
  from assms(2,3) show ?thesis
  proof (cases rule: length_cases)
    case one
    have "computes env (bigLength x + 1) (unaryMinusImpl env x) (- bval x)"
      by (rule computes_mono [OF unaryMinusImpl_computes [OF assms(1)]]) simp
    moreover have "?v = (if ?s = m_sign x then bval x else - bval x)" using one v by (auto simp: bval_def)
    ultimately show ?thesis using one assms by (simp add: divideImpl_def ge represents_def)
  next
    case digit
    have "divideImpl env x y = andThen (andThen (absoluteDivWithDigitDivisor env x (digitAt y 0) NewQuotient) (\<lambda>(quot, remainder). Inr quot))
        (\<lambda>quot. case quot of None \<Rightarrow> Inl NullResult | Some quot \<Rightarrow> rightTrim env (setSign quot ?s))"
      using digit by (simp only: unfold if_True)
    moreover have "computes env (bigLength x + 1) \<dots> ?v"
    proof (rule computes_andThen [OF oom_andThen [OF absoluteDivWithDigitDivisor_outcome(1) [OF assms(1) f(2) digit(3,2)] order_refl]])
      fix q assume "\<exists>qb. q = Some qb \<and> fresh (bigLength x) qb \<and> dval (m_data qb) = dval (m_data x) div uint (digitAt y 0)"
      then show "computes env (bigLength x + 1) (case q of None \<Rightarrow> Inl NullResult | Some quot \<Rightarrow> rightTrim env (setSign quot ?s)) ?v"
        using digit(4) f(2) v by (auto simp: isZero_def intro!: fresh_rightTrim)
    qed auto
    ultimately show ?thesis by simp
  next
    case long
    then have "bigLength y \<noteq> 1" by simp
    then have "divideImpl env x y = andThen (andThen (absoluteDivWithBigIntDivisor env x y True False) (\<lambda>(quot, remainder). Inr quot))
        (\<lambda>quot. case quot of None \<Rightarrow> Inl NullResult | Some quot \<Rightarrow> rightTrim env (setSign quot ?s))"
      by (simp only: unfold)
    moreover have "computes env (bigLength x + 1) \<dots> ?v"
    proof (rule computes_andThen [OF oom_andThen [OF absoluteDivWithBigIntDivisor_outcome [OF assms(2) long f(3)] order_refl] order_refl])
      fix q assume "\<exists>qb. q = Some qb \<and> fresh (bigLength x - bigLength y + 1) qb \<and> dval (m_data qb) = dval (m_data x) div dval (m_data y)"
      then show "computes env (bigLength x + 1) (case q of None \<Rightarrow> Inl NullResult | Some quot \<Rightarrow> rightTrim env (setSign quot ?s)) ?v"
        using v by (auto intro!: fresh_rightTrim)
    qed auto
    ultimately show ?thesis by simp
  qed
qed

lemma remainderImpl_computes [outcome_intros]:
  assumes "canonical x" and "canonical y" and "\<not> isZero y"
  shows "computes env (bigLength x + 1) (remainderImpl env x y) (bval x smod bval y)"
proof (cases "absoluteCompare (HeapBigIntImpl x) (HeapBigIntImpl y) = LessThan")
  case True
  have "dval (m_data x) mod dval (m_data y) = dval (m_data x)" using less_facts [OF assms(1,2) True] by simp
  then have "bval x smod bval y = bval x" using bval_sdiv_smod(2) [OF assms] by (simp add: bval_def)
  then show ?thesis
    using True assms by (simp add: remainderImpl_def represents_def)
next
  case ge: False
  note f = not_less_facts [OF assms ge]
  let ?v = "bval x smod bval y"
  note v = bval_sdiv_smod(2) [OF assms]
  note unfold = remainderImpl_def Let_def assms(3) ge if_False simp_thms
  from assms(2,3) show ?thesis
  proof (cases rule: length_cases)
    case one
    then show ?thesis using v by (simp add: remainderImpl_def assms(3) ge zeroImpl_computes)
  next
    case digit
    define r where "r = remainderDigits x (digitAt y 0)"
    note dd = absoluteDivWithDigitDivisor_outcome [OF assms(1) f(2) digit(3,2)]
    have r: "uint r = dval (m_data x) mod dval (m_data y)" using dd(3) digit(4) by (simp add: r_def)
    have eq: "remainderImpl env x y = (if r = 0 then zeroImpl env
        else andThen (createWithLength env 1) (\<lambda>remainder. rightTrim env (setSign (setDigit remainder 0 r) (m_sign x))))"
      using digit by (simp only: unfold if_True dd(2) andThen.simps prod.case r_def)
    show ?thesis
    proof (cases "r = 0")
      case True
      then show ?thesis using r v by (simp add: eq zeroImpl_computes)
    next
      case False
      have "computes env (bigLength x + 1) (andThen (createWithLength env 1) (\<lambda>remainder. rightTrim env (setSign (setDigit remainder 0 r) (m_sign x)))) ?v"
      proof (rule computes_andThen [OF createWithLength_outcome])
        fix rb assume fr: "fresh 1 rb"
        then have "m_data (setDigit rb 0 r) = [r]" by (simp add: fresh_def list_single)
        then show "computes env (bigLength x + 1) (rightTrim env (setSign (setDigit rb 0 r) (m_sign x))) ?v"
          by (intro rightTrim_setSign [OF fr]) (simp_all add: v r)
      qed simp
      then show ?thesis using False by (simp add: eq)
    qed
  next
    case long
    then have "bigLength y \<noteq> 1" by simp
    then have "remainderImpl env x y = andThen (absoluteDivWithBigIntDivisor env x y False True) (\<lambda>(quot, remainder).
        case remainder of None \<Rightarrow> Inl NullResult | Some remainder \<Rightarrow> rightTrim env (setSign remainder (m_sign x)))"
      by (simp only: unfold)
    moreover have "computes env (bigLength x + 1) \<dots> ?v"
      by (rule computes_andThen [OF absoluteDivWithBigIntDivisor_outcome [OF assms(2) long f(3), of env False True] order_refl])
        (auto simp: v intro!: fresh_rightTrim)
    ultimately show ?thesis by simp
  qed
qed

end
