(* ===== verification/BigInt_API.thy ===== *)
theory BigInt_API
  imports BigInt_Division
begin

text \<open>
  The entry points of \<^verbatim>\<open>runtime/JSBigInt.cpp\<close> that the rest of the engine calls (\<^verbatim>\<open>JSBigInt::add\<close>,
  \<^verbatim>\<open>JSBigInt::multiply\<close>, \<^verbatim>\<open>JSBigInt::divide\<close>, and so on), and what they promise. Each is the
  \<^verbatim>\<open>Impl\<close> function followed by \<^verbatim>\<open>tryConvertToBigInt32\<close>, which returns its argument in this build.

  The contract of a two-operand entry point is the locale \<open>bigint_binop\<close>: on canonical
  operands it computes an integer function exactly. Determinism, commutativity and
  associativity of the results follow from it because a value has only one canonical BigInt.
\<close>

section \<open>Entry points\<close>

definition tryConvertToBigInt32 :: "(js_error, jsBigInt) result \<Rightarrow> (js_error, jsBigInt) result" where
  "tryConvertToBigInt32 implResult = andThen implResult Inr"

definition exponentiateBigInt :: "js_env \<Rightarrow> jsBigInt \<Rightarrow> jsBigInt \<Rightarrow> (js_error, jsBigInt) result" where
  "exponentiateBigInt env base exponent = tryConvertToBigInt32 (exponentiateImpl env base exponent)"

definition multiplyBigInt :: "js_env \<Rightarrow> jsBigInt \<Rightarrow> jsBigInt \<Rightarrow> (js_error, jsBigInt) result" where
  "multiplyBigInt env x y = tryConvertToBigInt32 (multiplyImpl env x y)"

definition divideBigInt :: "js_env \<Rightarrow> jsBigInt \<Rightarrow> jsBigInt \<Rightarrow> (js_error, jsBigInt) result" where
  "divideBigInt env x y = tryConvertToBigInt32 (divideImpl env x y)"

definition unaryMinusBigInt :: "js_env \<Rightarrow> jsBigInt \<Rightarrow> (js_error, jsBigInt) result" where
  "unaryMinusBigInt env x = tryConvertToBigInt32 (unaryMinusImpl env x)"

definition remainderBigInt :: "js_env \<Rightarrow> jsBigInt \<Rightarrow> jsBigInt \<Rightarrow> (js_error, jsBigInt) result" where
  "remainderBigInt env x y = tryConvertToBigInt32 (remainderImpl env x y)"

definition incBigInt :: "js_env \<Rightarrow> jsBigInt \<Rightarrow> (js_error, jsBigInt) result" where
  "incBigInt env x = tryConvertToBigInt32 (incImpl env x)"

definition decBigInt :: "js_env \<Rightarrow> jsBigInt \<Rightarrow> (js_error, jsBigInt) result" where
  "decBigInt env x = tryConvertToBigInt32 (decImpl env x)"

definition addBigInt :: "js_env \<Rightarrow> jsBigInt \<Rightarrow> jsBigInt \<Rightarrow> (js_error, jsBigInt) result" where
  "addBigInt env x y = tryConvertToBigInt32 (addImpl env x y)"

definition subBigInt :: "js_env \<Rightarrow> jsBigInt \<Rightarrow> jsBigInt \<Rightarrow> (js_error, jsBigInt) result" where
  "subBigInt env x y = tryConvertToBigInt32 (subImpl env x y)"

lemma tryConvertToBigInt32_id [simp]: "tryConvertToBigInt32 r = r"
  by (cases r) (simp_all add: tryConvertToBigInt32_def)

lemmas api_defs = exponentiateBigInt_def multiplyBigInt_def divideBigInt_def unaryMinusBigInt_def
  remainderBigInt_def incBigInt_def decBigInt_def addBigInt_def subBigInt_def


section \<open>The contract of a two-operand entry point\<close>

locale bigint_binop =
  fixes operation :: "js_env \<Rightarrow> jsBigInt \<Rightarrow> jsBigInt \<Rightarrow> (js_error, jsBigInt) result"
    and valid :: "int \<Rightarrow> int \<Rightarrow> bool"
    and spec :: "int \<Rightarrow> int \<Rightarrow> int"
    and need :: "jsBigInt \<Rightarrow> jsBigInt \<Rightarrow> nat"
  assumes operation_computes: "\<lbrakk>canonical x; canonical y; valid (bval x) (bval y)\<rbrakk> \<Longrightarrow>
      computes env (need x y) (operation env x y) (spec (bval x) (bval y))"
begin

lemma result_represents:
  "\<lbrakk>canonical x; canonical y; valid (bval x) (bval y); operation env x y = Inr r\<rbrakk> \<Longrightarrow> represents r (spec (bval x) (bval y))"
  using operation_computes [of x y env] by simp

lemma never_fails:
  "\<lbrakk>canonical x; canonical y; valid (bval x) (bval y); \<And>n. n \<le> need x y \<Longrightarrow> grants env n\<rbrakk> \<Longrightarrow>
     \<exists>r. operation env x y = Inr r \<and> represents r (spec (bval x) (bval y))"
  using operation_computes [of x y env] by (rule computes_total)

text \<open>The result does not depend on the state of the heap.\<close>

lemma heap_independent:
  "\<lbrakk>canonical x; canonical y; valid (bval x) (bval y); operation env x y = Inr r; operation env' x y = Inr r'\<rbrakk> \<Longrightarrow> r = r'"
  using result_represents [of x y env r] result_represents [of x y env' r']
  by (simp add: represents_def canonical_unique)

end

locale bigint_commutative = bigint_binop +
  assumes valid_comm: "valid a b \<Longrightarrow> valid b a" and spec_comm: "spec a b = spec b a"
begin

lemma commutes:
  assumes "canonical x" and "canonical y" and "valid (bval x) (bval y)" and "operation env x y = Inr r" and "operation env' y x = Inr r'"
  shows "r = r'"
  using result_represents [OF assms(1-4)] result_represents [OF assms(2,1) valid_comm [OF assms(3)] assms(5)]
  by (simp add: represents_def spec_comm canonical_unique)

end

locale bigint_total_binop = bigint_binop operation "\<lambda>_ _. True" spec need for operation spec need

locale bigint_associative = bigint_total_binop +
  assumes spec_assoc: "spec (spec a b) c = spec a (spec b c)"
begin

lemma associates:
  assumes "canonical x" and "canonical y" and "canonical z"
    and "operation env x y = Inr xy" and "operation env xy z = Inr l"
    and "operation env y z = Inr yz" and "operation env x yz = Inr r"
  shows "l = r"
proof -
  have xy: "represents xy (spec (bval x) (bval y))" using assms(1,2,4) by (auto intro: result_represents)
  have yz: "represents yz (spec (bval y) (bval z))" using assms(2,3,6) by (auto intro: result_represents)
  have "represents l (spec (bval xy) (bval z))" using xy assms(3,5) unfolding represents_def [of xy] by (intro result_represents) auto
  moreover have "represents r (spec (bval x) (bval yz))" using yz assms(1,7) unfolding represents_def [of yz] by (intro result_represents) auto
  ultimately show ?thesis using xy yz by (simp add: represents_def spec_assoc canonical_unique)
qed

end

interpretation addition: bigint_associative addBigInt "(+)" "\<lambda>x y. max (bigLength x) (bigLength y) + 1"
  by unfold_locales (simp_all add: api_defs addImpl_computes [simplified])

interpretation addition: bigint_commutative addBigInt "\<lambda>_ _. True" "(+)" "\<lambda>x y. max (bigLength x) (bigLength y) + 1"
  by unfold_locales simp_all

interpretation subtraction: bigint_total_binop subBigInt "(-)" "\<lambda>x y. max (bigLength x) (bigLength y) + 1"
  by unfold_locales (simp_all add: api_defs subImpl_computes [simplified])

interpretation multiplication: bigint_associative multiplyBigInt "(*)" "\<lambda>x y. bigLength x + bigLength y"
  by unfold_locales (simp_all add: api_defs multiplyImpl_computes)

interpretation multiplication: bigint_commutative multiplyBigInt "\<lambda>_ _. True" "(*)" "\<lambda>x y. bigLength x + bigLength y"
  by unfold_locales simp_all

interpretation division: bigint_binop divideBigInt "\<lambda>_ b. b \<noteq> 0" "(sdiv)" "\<lambda>x y. bigLength x + 1"
  by unfold_locales (simp add: api_defs divideImpl_computes [simplified] canonical_bval_0)

interpretation remaindering: bigint_binop remainderBigInt "\<lambda>_ b. b \<noteq> 0" "(smod)" "\<lambda>x y. bigLength x + 1"
  by unfold_locales (simp add: api_defs remainderImpl_computes [simplified] canonical_bval_0)


section \<open>Properties\<close>

text \<open>
  C3. Addition is exact: on canonical BigInts \<^verbatim>\<open>JSBigInt::add\<close> returns the canonical BigInt of the
  sum, or an out-of-memory error because a BigInt of at most one digit more than the longer
  operand cannot be had.
\<close>

theorem add_correct:
  assumes "canonical x" and "canonical y"
  shows "computes env (max (bigLength x) (bigLength y) + 1) (addBigInt env x y) (bval x + bval y)"
  using addition.operation_computes [OF assms] by simp

theorem add_correct_witness:
  "addBigInt roomyHeap (posBig [0xFFFFFFFFFFFFFFFF, 3]) (negBig [0xFFFFFFFFFFFFFFFE]) = Inr (posBig [1, 3])
   \<and> addBigInt roomyHeap (posBig [0xFFFFFFFFFFFFFFFF]) (posBig [1]) = Inr (posBig [0, 1])"
  using roomyHeap_result [OF add_correct [of "posBig [0xFFFFFFFFFFFFFFFF, 3]" "negBig [0xFFFFFFFFFFFFFFFE]"], of "posBig [1, 3]"]
    roomyHeap_result [OF add_correct [of "posBig [0xFFFFFFFFFFFFFFFF]" "posBig [1]"], of "posBig [0, 1]"]
  by (simp add: example_simps)

text \<open>
  C4. Subtraction is exact: \<^verbatim>\<open>JSBigInt::sub\<close> returns the canonical BigInt of the difference, or an
  out-of-memory error.
\<close>

theorem sub_correct:
  assumes "canonical x" and "canonical y"
  shows "computes env (max (bigLength x) (bigLength y) + 1) (subBigInt env x y) (bval x - bval y)"
  using subtraction.operation_computes [OF assms] by simp

theorem sub_correct_witness:
  "subBigInt roomyHeap (posBig [0, 1]) (posBig [1]) = Inr (posBig [0xFFFFFFFFFFFFFFFF])
   \<and> subBigInt roomyHeap (posBig [7]) (posBig [7]) = Inr (posBig [])"
  using roomyHeap_result [OF sub_correct [of "posBig [0, 1]" "posBig [1]"], of "posBig [0xFFFFFFFFFFFFFFFF]"]
    roomyHeap_result [OF sub_correct [of "posBig [7]" "posBig [7]"], of "posBig []"]
  by (simp add: example_simps)

text \<open>
  C2. Multiplication is exact: \<^verbatim>\<open>JSBigInt::multiply\<close> returns the canonical BigInt of the product,
  or an out-of-memory error because as many digits as both operands have together cannot be
  had. In particular the accumulator of the long multiplication never overflows.
\<close>

theorem multiply_correct:
  assumes "canonical x" and "canonical y"
  shows "computes env (bigLength x + bigLength y) (multiplyBigInt env x y) (bval x * bval y)"
  using multiplication.operation_computes [OF assms] by simp

theorem multiply_correct_witness:
  "multiplyBigInt roomyHeap (posBig [0xFFFFFFFFFFFFFFFF]) (negBig [0xFFFFFFFFFFFFFFFF]) = Inr (negBig [1, 0xFFFFFFFFFFFFFFFE])"
  using roomyHeap_result [OF multiply_correct [of "posBig [0xFFFFFFFFFFFFFFFF]" "negBig [0xFFFFFFFFFFFFFFFF]"],
      of "negBig [1, 0xFFFFFFFFFFFFFFFE]"]
  by (simp add: example_simps)

text \<open>
  C1. Division: \<^verbatim>\<open>JSBigInt::divide\<close> by zero throws a \<^verbatim>\<open>RangeError\<close>; otherwise it returns the canonical
  BigInt of the quotient truncated towards zero, or an out-of-memory error. This covers the
  single-digit path and Knuth's Algorithm D with its corrected quotient digits.
\<close>

theorem divide_correct:
  assumes "canonical x" and "canonical y"
  shows "if bval y = 0 then divideBigInt env x y = Inl (RangeError ''0 is an invalid divisor value.'')
     else computes env (bigLength x + 1) (divideBigInt env x y) (bval x sdiv bval y)"
  using division.operation_computes [OF assms, of env] canonical_bval_0 [OF assms(2)]
  by (simp add: divideBigInt_def divideImpl_def)

theorem divide_correct_witness:
  "divideBigInt roomyHeap (negBig [0, 0, 1]) (posBig [1, 1]) = Inr (negBig [0xFFFFFFFFFFFFFFFF])
   \<and> divideBigInt roomyHeap (posBig [3]) (posBig []) = Inl (RangeError ''0 is an invalid divisor value.'')"
proof -
  have "bval (negBig [0, 0, 1]) sdiv bval (posBig [1, 1]) = - 0xFFFFFFFFFFFFFFFF"
    by (simp add: bval_def digitBase_num signed_divide_int_def)
  then show ?thesis
    using divide_correct [of "negBig [0, 0, 1]" "posBig [1, 1]" roomyHeap] divide_correct [of "posBig [3]" "posBig []" roomyHeap]
      roomyHeap_result [of "bigLength (negBig [0, 0, 1]) + 1" "divideBigInt roomyHeap (negBig [0, 0, 1]) (posBig [1, 1])" "- 0xFFFFFFFFFFFFFFFF" "negBig [0xFFFFFFFFFFFFFFFF]"]
    by (simp add: example_simps)
qed

text \<open>
  C5. Remainder: \<^verbatim>\<open>JSBigInt::remainder\<close> by zero throws a \<^verbatim>\<open>RangeError\<close>; otherwise it returns the
  canonical BigInt of the remainder of the truncated division, which has the sign of the
  dividend, or an out-of-memory error.
\<close>

theorem remainder_correct:
  assumes "canonical x" and "canonical y"
  shows "if bval y = 0 then remainderBigInt env x y = Inl (RangeError ''0 is an invalid divisor value.'')
     else computes env (bigLength x + 1) (remainderBigInt env x y) (bval x smod bval y)"
  using remaindering.operation_computes [OF assms, of env] canonical_bval_0 [OF assms(2)]
  by (simp add: remainderBigInt_def remainderImpl_def)

theorem remainder_correct_witness:
  "remainderBigInt roomyHeap (negBig [0, 0, 1]) (posBig [1, 1]) = Inr (negBig [1])
   \<and> remainderBigInt roomyHeap (posBig [3]) (posBig []) = Inl (RangeError ''0 is an invalid divisor value.'')"
proof -
  have "bval (negBig [0, 0, 1]) smod bval (posBig [1, 1]) = - 1"
    by (simp add: bval_def digitBase_num signed_modulo_int_def)
  then show ?thesis
    using remainder_correct [of "negBig [0, 0, 1]" "posBig [1, 1]" roomyHeap] remainder_correct [of "posBig [3]" "posBig []" roomyHeap]
      roomyHeap_result [of "bigLength (negBig [0, 0, 1]) + 1" "remainderBigInt roomyHeap (negBig [0, 0, 1]) (posBig [1, 1])" "- 1" "negBig [1]"]
    by (simp add: example_simps)
qed

text \<open>
  C6. Exponentiation: a negative exponent throws a \<^verbatim>\<open>RangeError\<close>; otherwise
  \<^verbatim>\<open>JSBigInt::exponentiate\<close> returns the canonical BigInt of the power whenever a BigInt with one
  digit more than the power needs can be had. An exponent the code refuses outright has a power
  that exceeds the largest BigInt.
\<close>

theorem exponentiate_correct:
  assumes "canonical x" and "canonical y" and "\<bar>bval x ^ nat (bval y)\<bar> < digitBase ^ L"
  shows "if bval y < 0 then exponentiateBigInt env x y = Inl (RangeError ''Negative exponent is not allowed'')
     else computes env (L + 1) (exponentiateBigInt env x y) (bval x ^ nat (bval y))"
proof (cases "bval y < 0")
  case True
  then show ?thesis
    using canonical_sign [OF assms(2)] by (simp add: exponentiateBigInt_def exponentiateImpl_def)
next
  case False
  then show ?thesis
    using exponentiateImpl_computes [OF assms(1,2) _ assms(3), of env] by (simp add: exponentiateBigInt_def)
qed

theorem exponentiate_correct_witness:
  "exponentiateBigInt roomyHeap (negBig [3]) (posBig [41]) = Inr (negBig [18026252303461234787, 1])
   \<and> exponentiateBigInt roomyHeap (posBig [2]) (posBig [70]) = Inr (posBig [0, 64])
   \<and> exponentiateBigInt roomyHeap (posBig [3]) (negBig [1]) = Inl (RangeError ''Negative exponent is not allowed'')"
  using exponentiate_correct [of "negBig [3]" "posBig [41]" 2 roomyHeap]
    roomyHeap_result [of "2 + 1" "exponentiateBigInt roomyHeap (negBig [3]) (posBig [41])" "- (3 ^ 41)" "negBig [18026252303461234787, 1]"]
    exponentiate_correct [of "posBig [2]" "posBig [70]" 2 roomyHeap]
    roomyHeap_result [of "2 + 1" "exponentiateBigInt roomyHeap (posBig [2]) (posBig [70])" "2 ^ 70" "posBig [0, 64]"]
    exponentiate_correct [of "posBig [3]" "negBig [1]" 1 roomyHeap]
  by (simp add: example_simps)

text \<open>
  C7. Negation, increment and decrement are exact: \<^verbatim>\<open>JSBigInt::unaryMinus\<close>, \<^verbatim>\<open>JSBigInt::inc\<close> and
  \<^verbatim>\<open>JSBigInt::dec\<close> return the canonical BigInts of \<open>- x\<close>, \<open>x + 1\<close> and \<open>x - 1\<close>, or an
  out-of-memory error. Negating zero gives zero, not negative zero.
\<close>

theorem unary_operations_correct:
  assumes "canonical x"
  shows "computes env (bigLength x) (unaryMinusBigInt env x) (- bval x)
     \<and> computes env (bigLength x + 1) (incBigInt env x) (bval x + 1)
     \<and> computes env (bigLength x + 1) (decBigInt env x) (bval x - 1)"
  using unaryMinusImpl_computes [OF assms] incImpl_computes [OF assms] decImpl_computes [OF assms]
  by (simp add: api_defs)

theorem unary_operations_correct_witness:
  "unaryMinusBigInt roomyHeap (posBig []) = Inr (posBig [])
   \<and> incBigInt roomyHeap (negBig [1]) = Inr (posBig [])
   \<and> incBigInt roomyHeap (posBig [0xFFFFFFFFFFFFFFFF]) = Inr (posBig [0, 1])
   \<and> decBigInt roomyHeap (posBig []) = Inr (negBig [1])"
proof -
  have z: "represents (posBig []) 0" and o: "represents (negBig [1]) (- 1)" and b: "represents (posBig [0, 1]) 0x10000000000000000"
    by (simp_all add: example_simps)
  show ?thesis
    using unary_operations_correct [of "posBig []" roomyHeap] unary_operations_correct [of "negBig [1]" roomyHeap]
      unary_operations_correct [of "posBig [0xFFFFFFFFFFFFFFFF]" roomyHeap]
      roomyHeap_result [OF _ _ z, of 0 "unaryMinusBigInt roomyHeap (posBig [])"]
      roomyHeap_result [OF _ _ z, of "Suc (Suc 0)" "incBigInt roomyHeap (negBig [1])"]
      roomyHeap_result [OF _ _ b, of "Suc (Suc 0)" "incBigInt roomyHeap (posBig [0xFFFFFFFFFFFFFFFF])"]
      roomyHeap_result [OF _ _ o, of "Suc 0" "decBigInt roomyHeap (posBig [])"]
    by (simp add: canonical_def maxLength_eq bval_def)
qed

text \<open>
  C8. Quotient and remainder fit together: whenever \<^verbatim>\<open>divide\<close> and \<^verbatim>\<open>remainder\<close> of the same operands
  return, and multiplying the quotient by the divisor and adding the remainder return, the
  result is the dividend again, object for object; and the remainder is smaller than the divisor.
\<close>

theorem divide_remainder_reconstruct:
  assumes "canonical x" and "canonical y"
    and "divideBigInt env x y = Inr q" and "remainderBigInt env x y = Inr r"
    and "multiplyBigInt env q y = Inr p" and "addBigInt env p r = Inr s"
  shows "s = x \<and> \<bar>bval r\<bar> < \<bar>bval y\<bar>"
proof -
  have y: "bval y \<noteq> 0"
    using assms(2,3) canonical_bval_0 [OF assms(2)] by (auto simp: divideBigInt_def divideImpl_def)
  have q: "represents q (bval x sdiv bval y)" by (rule division.result_represents [OF assms(1,2) y assms(3)])
  have r: "represents r (bval x smod bval y)" by (rule remaindering.result_represents [OF assms(1,2) y assms(4)])
  have p: "represents p (bval q * bval y)"
    using multiplication.result_represents [OF _ assms(2) TrueI assms(5)] q by (simp add: represents_def)
  have "represents s (bval p + bval r)"
    using addition.result_represents [OF _ _ TrueI assms(6)] p r by (simp add: represents_def)
  then have "represents s (bval x)"
    using q r p sdiv_mult_smod_eq [of "bval x" "bval y"] by (simp add: represents_def)
  moreover have "\<bar>bval x smod bval y\<bar> < \<bar>bval y\<bar>"
    using y by (simp add: signed_modulo_int_def abs_mult)
  ultimately show ?thesis
    using r assms(1) canonical_unique [of s x] by (simp add: represents_def)
qed

theorem divide_remainder_reconstruct_witness:
  "addBigInt roomyHeap (negBig [0xFFFFFFFFFFFFFFFF, 0xFFFFFFFFFFFFFFFF]) (negBig [1]) = Inr (negBig [0, 0, 1])
   \<and> \<bar>bval (negBig [1])\<bar> < \<bar>bval (posBig [1, 1])\<bar>"
proof -
  let ?x = "negBig [0, 0, 1]" and ?y = "posBig [1, 1]" and ?q = "negBig [0xFFFFFFFFFFFFFFFF]"
  let ?p = "negBig [0xFFFFFFFFFFFFFFFF, 0xFFFFFFFFFFFFFFFF]"
  have c: "canonical ?x" "canonical ?y" "canonical ?q" "canonical ?p" "canonical (negBig [1])" by (simp_all add: canonical_def maxLength_eq)
  have y: "bval ?y \<noteq> 0" by (simp add: bval_def digitBase_num)
  have "divideBigInt roomyHeap ?x ?y = Inr ?q"
    by (rule roomyHeap_result [OF division.operation_computes [OF c(1,2) y]])
      (simp_all add: example_simps signed_divide_int_def)
  moreover have "remainderBigInt roomyHeap ?x ?y = Inr (negBig [1])"
    by (rule roomyHeap_result [OF remaindering.operation_computes [OF c(1,2) y]])
      (simp_all add: example_simps signed_modulo_int_def)
  moreover have "multiplyBigInt roomyHeap ?q ?y = Inr ?p"
    by (rule roomyHeap_result [OF multiplication.operation_computes [OF c(3,2) TrueI]]) (simp_all add: example_simps)
  moreover obtain s where s: "addBigInt roomyHeap ?p (negBig [1]) = Inr s"
    using roomyHeap_result [OF addition.operation_computes [OF c(4,5) TrueI], of ?x] by (auto simp: example_simps)
  ultimately show ?thesis using divide_remainder_reconstruct [OF c(1,2), of roomyHeap] by blast
qed

end
