(* ===== verification/Radix.thy ===== *)
theory Radix
  imports MathExtras
begin

text \<open>
  Numerals in a radix between 2 and 36: the table \<^verbatim>\<open>radixDigits\<close> and the character classes of
  \<^verbatim>\<open>runtime/ParseInt.h\<close> and \<^verbatim>\<open>parser/Lexer.h\<close> that number parsing uses, and the reference reading and
  printing of numerals that the optimised routines are measured against. Characters are UTF-16
  code units; 8-bit strings are the ones whose code units are below 256.
\<close>

type_synonym uchar = "16 word"

definition radixDigits :: "uchar list" where
  "radixDigits = map of_char ''0123456789abcdefghijklmnopqrstuvwxyz''"

section \<open>Character classes\<close>

text \<open>
  \<^verbatim>\<open>u_charType(ch) == U_SPACE_SEPARATOR\<close> is the parameter \<open>spaceSeparator\<close>: it is a lookup in the generated
  Unicode data of ICU, consulted for code units above 255 only.
\<close>

definition isLatin1 :: "uchar \<Rightarrow> bool" where
  "isLatin1 ch \<longleftrightarrow> ch \<le> 0xFF"

definition isWhiteSpaceLatin1 :: "uchar \<Rightarrow> bool" where
  "isWhiteSpaceLatin1 ch \<longleftrightarrow> ch = 0x20 \<or> ch = 0x9 \<or> ch = 0xB \<or> ch = 0xC \<or> ch = 0xA0"

definition isWhiteSpace :: "(uchar \<Rightarrow> bool) \<Rightarrow> uchar \<Rightarrow> bool" where
  "isWhiteSpace spaceSeparator ch \<longleftrightarrow>
     (if isLatin1 ch then isWhiteSpaceLatin1 ch else spaceSeparator ch \<or> ch = 0xFEFF)"

definition isLineTerminator :: "uchar \<Rightarrow> bool" where
  "isLineTerminator ch \<longleftrightarrow> ch = 0xD \<or> ch = 0xA \<or> ch AND NOT 1 = 0x2028"

definition isStrWhiteSpace :: "(uchar \<Rightarrow> bool) \<Rightarrow> uchar \<Rightarrow> bool" where
  "isStrWhiteSpace spaceSeparator c \<longleftrightarrow> isWhiteSpace spaceSeparator c \<or> isLineTerminator c"

definition toASCIILowerUnchecked :: "uchar \<Rightarrow> uchar" where
  "toASCIILowerUnchecked character = character OR 0x20"

definition isASCIIAlphaCaselessEqual :: "uchar \<Rightarrow> uchar \<Rightarrow> bool" where
  "isASCIIAlphaCaselessEqual inputCharacter expectedASCIILowercaseLetter \<longleftrightarrow>
     toASCIILowerUnchecked inputCharacter = expectedASCIILowercaseLetter"

lemma unat_radixDigits: "e < 36 \<Longrightarrow> unat (radixDigits ! e) = (if e < 10 then 48 + e else 87 + e)"
proof -
  assume "e < 36"
  moreover have "\<forall>e\<in>set [0..<36]. unat (radixDigits ! e) = (if e < 10 then 48 + e else 87 + e)" by code_simp
  ultimately show ?thesis by auto
qed

lemma radixDigits_zero: "e < 36 \<Longrightarrow> radixDigits ! e = 0x30 \<longleftrightarrow> e = 0"
  using unat_radixDigits [of e] unat_radixDigits [of 0] by (auto simp: word_unat_eq_iff split: if_splits)

section \<open>Reference numerals\<close>

text \<open>The value of digits given least significant first, and the digits of a number, most significant first.\<close>

fun rval :: "nat \<Rightarrow> nat list \<Rightarrow> nat" where
  "rval r [] = 0"
| "rval r (d # ds) = d + r * rval r ds"

function toRadix :: "nat \<Rightarrow> nat \<Rightarrow> nat list" where
  "toRadix r n = (if r < 2 \<or> n < r then [n] else toRadix r (n div r) @ [n mod r])"
  by auto
termination by (relation "measure snd") (auto intro: div_less_dividend)

declare toRadix.simps [simp del]

text \<open>The numeral of an integer: a minus sign for negative numbers, no leading zeros.\<close>

definition radixString :: "nat \<Rightarrow> int \<Rightarrow> uchar list" where
  "radixString r v = (if v < 0 then [0x2D] else []) @ map (nth radixDigits) (toRadix r (nat \<bar>v\<bar>))"

lemma rval_append: "rval r (xs @ ys) = rval r xs + r ^ length xs * rval r ys"
  by (induction xs) (auto simp: algebra_simps)

lemma rval_bound: "\<forall>d\<in>set ds. d < r \<Longrightarrow> rval r ds < r ^ length ds"
proof (induction ds)
  case (Cons d ds)
  then have "rval r ds + 1 \<le> r ^ length ds" by simp
  then have "r * (rval r ds + 1) \<le> r * r ^ length ds" by (rule mult_le_mono2)
  moreover have "d < r" using Cons.prems by simp
  ultimately show ?case by (simp add: algebra_simps)
qed simp

text \<open>Digits below the radix without a leading zero are the numeral of their value.\<close>

lemma toRadix_rval:
  assumes "2 \<le> r" and "\<forall>d\<in>set ds. d < r" and "ds \<noteq> []" and "last ds \<noteq> 0 \<or> length ds = 1"
  shows "toRadix r (rval r ds) = rev ds"
  using assms(2-)
proof (induction ds)
  case (Cons d ds)
  show ?case
  proof (cases "ds = []")
    case True
    then show ?thesis using Cons.prems by (simp add: toRadix.simps)
  next
    case False
    have IH: "toRadix r (rval r ds) = rev ds" using Cons False by auto
    have "rval r ds \<noteq> 0"
    proof -
      have "rval r ds = rval r (butlast ds) + r ^ (length ds - 1) * last ds"
        using rval_append [of r "butlast ds" "[last ds]"] False by simp
      then show ?thesis using Cons.prems False assms(1) by simp
    qed
    then have "r * 1 \<le> r * rval r ds" by (intro mult_le_mono2) simp
    then have "\<not> d + r * rval r ds < r" by linarith
    moreover have "(d + r * rval r ds) div r = rval r ds" "(d + r * rval r ds) mod r = d" using Cons.prems assms(1) by simp_all
    ultimately show ?thesis using IH assms(1) by (simp add: toRadix.simps [of r "d + r * rval r ds"])
  qed
qed simp

lemma toRadix_digits:
  assumes r: "2 \<le> r"
  shows "(\<forall>d\<in>set (toRadix r n). d < r) \<and> rval r (rev (toRadix r n)) = n \<and> toRadix r n \<noteq> [] \<and> (n = 0 \<or> hd (toRadix r n) \<noteq> 0)"
proof (induction n rule: less_induct)
  case (less n)
  show ?case
  proof (cases "n < r")
    case True
    then show ?thesis by (auto simp: toRadix.simps)
  next
    case False
    then have "n div r < n" "n div r \<noteq> 0" using r by (auto intro: div_less_dividend simp: div_eq_0_iff)
    then show ?thesis using less.IH [of "n div r"] False r by (simp add: toRadix.simps [of r n])
  qed
qed

lemmas toRadix_less = toRadix_digits [THEN conjunct1]
lemmas rval_toRadix = toRadix_digits [THEN conjunct2, THEN conjunct1]
lemmas toRadix_nonempty = toRadix_digits [THEN conjunct2, THEN conjunct2, THEN conjunct1]
lemmas hd_toRadix = toRadix_digits [THEN conjunct2, THEN conjunct2, THEN conjunct2]

end
