(* ===== verification/BigInt_ToString.thy ===== *)
theory BigInt_ToString
  imports BigInt_API Radix
begin

text \<open>
  Printing, of \<^verbatim>\<open>runtime/JSBigInt.cpp\<close>: \<^verbatim>\<open>toString\<close> with its two routines \<^verbatim>\<open>toStringBasePowerOfTwo\<close>,
  which takes bits off the digits from the low end, and \<^verbatim>\<open>toStringGeneric\<close>, which divides by the
  largest power of the radix that fits a digit. Both are shown to produce the reference
  numeral \<open>radixString\<close>.
\<close>

section \<open>The operations\<close>

definition maxStringLength :: nat where
  "maxStringLength = 0x7FFFFFFF"

definition maxBitsPerCharTable :: "nat list" where
  "maxBitsPerCharTable =
     [0,   0,   32,  51,  64,  75,  83,  90,  96,
      102, 107, 111, 115, 119, 122, 126, 128,
      131, 134, 136, 139, 141, 143, 145, 147,
      149, 151, 153, 154, 156, 158, 159, 160,
      162, 163, 165, 166]"

definition bitsPerCharTableShift :: nat where
  "bitsPerCharTableShift = 5"

definition bitsPerCharTableMultiplier :: nat where
  "bitsPerCharTableMultiplier = 2 ^ bitsPerCharTableShift"

definition calculateMaximumCharactersRequired :: "nat \<Rightarrow> nat \<Rightarrow> digit \<Rightarrow> bool \<Rightarrow> nat" where
  "calculateMaximumCharactersRequired len radix lastDigit sign =
     (let leadingZeros = clz lastDigit;
          bitLength = len * digitBits - leadingZeros;
          maxBitsPerChar = maxBitsPerCharTable ! radix;
          minBitsPerChar = maxBitsPerChar - 1;
          maximumCharactersRequired = bitLength * bitsPerCharTableMultiplier;
          maximumCharactersRequired = (maximumCharactersRequired + (minBitsPerChar - 1)) div minBitsPerChar
      in maximumCharactersRequired + of_bool sign)"

text \<open>
  The result buffer of \<^verbatim>\<open>toStringBasePowerOfTwo\<close> and the position that is written next, from the end
  to the front: \<^verbatim>\<open>resultString[pos--] = c\<close>.
\<close>

fun emit :: "uchar list \<times> int \<Rightarrow> uchar \<Rightarrow> uchar list \<times> int" where
  "emit (resultString, pos) c = (resultString[nat pos := c], pos - 1)"

text \<open>
  The two inner loops. They end because the radix is at least two, so that every
  turn takes at least one bit; the code asserts that much before it starts.
\<close>

function drainAvailable :: "nat \<Rightarrow> digit \<Rightarrow> digit \<Rightarrow> nat \<Rightarrow> uchar list \<times> int \<Rightarrow> digit \<times> nat \<times> uchar list \<times> int" where
  "drainAvailable bitsPerChar charMask digit availableBits out =
     (if bitsPerChar \<le> availableBits \<and> bitsPerChar \<noteq> 0
      then drainAvailable bitsPerChar charMask (drop_bit bitsPerChar digit) (availableBits - bitsPerChar)
             (emit out (radixDigits ! unat (digit AND charMask)))
      else (digit, availableBits, out))"
  by pat_completeness auto
termination by (relation "measure (\<lambda>(b, m, d, a, out). a)") auto

function drainNonZero :: "nat \<Rightarrow> digit \<Rightarrow> digit \<Rightarrow> uchar list \<times> int \<Rightarrow> uchar list \<times> int" where
  "drainNonZero bitsPerChar charMask digit out =
     (if digit \<noteq> 0 \<and> bitsPerChar \<noteq> 0
      then drainNonZero bitsPerChar charMask (drop_bit bitsPerChar digit) (emit out (radixDigits ! unat (digit AND charMask)))
      else out)"
  by pat_completeness auto
termination
proof (relation "measure (\<lambda>(b, m, d, out). unat d)")
  fix b :: nat and m d :: digit and out
  assume "d \<noteq> 0 \<and> b \<noteq> 0"
  then have "0 < unat d" "1 < (2 :: nat) ^ b" using one_less_power [of "2 :: nat" b] by (auto simp: unat_gt_0)
  then have "unat d div 2 ^ b < unat d" by (intro div_less_dividend)
  moreover have "unat (drop_bit b d) = unat d div 2 ^ b" unfolding unat_drop_bit_eq by (rule drop_bit_eq_div)
  ultimately show "((b, m, drop_bit b d, emit out (radixDigits ! unat (d AND m))), b, m, d, out) \<in> measure (\<lambda>(b, m, d, out). unat d)"
    by simp
qed simp

declare drainAvailable.simps [simp del] drainNonZero.simps [simp del]

definition toStringStep ::
  "jsBigInt \<Rightarrow> nat \<Rightarrow> digit \<Rightarrow> nat \<Rightarrow> digit \<times> nat \<times> uchar list \<times> int \<Rightarrow> digit \<times> nat \<times> uchar list \<times> int" where
  "toStringStep x bitsPerChar charMask i = (\<lambda>(digit, availableBits, out).
     let newDigit = digitAt x i;
         current = (digit OR push_bit availableBits newDigit) AND charMask;
         out = emit out (radixDigits ! unat current);
         consumedBits = bitsPerChar - availableBits;
         digit = drop_bit consumedBits newDigit;
         availableBits = digitBits - consumedBits
     in drainAvailable bitsPerChar charMask digit availableBits out)"

text \<open>All characters of the magnitude, written into the buffer.\<close>

definition toStringBits :: "jsBigInt \<Rightarrow> nat \<Rightarrow> digit \<Rightarrow> uchar list \<times> int \<Rightarrow> uchar list \<times> int" where
  "toStringBits x bitsPerChar charMask out =
     (let len = bigLength x;
          msd = digitAt x (len - 1);
          (digit, availableBits, out) = for_up 0 (len - 1) (toStringStep x bitsPerChar charMask) (0, 0, out);
          current = (digit OR push_bit availableBits msd) AND charMask;
          out = emit out (radixDigits ! unat current);
          digit = drop_bit (bitsPerChar - availableBits) msd
      in drainNonZero bitsPerChar charMask digit out)"

definition toStringBasePowerOfTwo :: "js_env \<Rightarrow> jsBigInt \<Rightarrow> nat \<Rightarrow> (js_error, uchar list) result" where
  "toStringBasePowerOfTwo env x radix =
     andThen (assertThat (hasOneBitSet (of_nat radix :: 32 word))) (\<lambda>_.
     andThen (assertThat (2 \<le> radix \<and> radix \<le> 32)) (\<lambda>_.
     andThen (assertThat (\<not> isZero x)) (\<lambda>_.
     let len = bigLength x;
         sign = m_sign x;
         bitsPerChar = ctz (of_nat radix :: 32 word);
         charMask = of_nat (radix - 1);
         msd = digitAt x (len - 1);
         msdLeadingZeros = clz msd;
         bitLength = len * digitBits - msdLeadingZeros;
         charsRequired = (bitLength + bitsPerChar - 1) div bitsPerChar + of_bool sign
     in if charsRequired > maxStringLength
        then throwOutOfMemoryError env ''''
        else let out = (replicate charsRequired 0, int charsRequired - 1);
                 out = toStringBits x bitsPerChar charMask out;
                 (resultString, pos) = (if sign then emit out 0x2D else out)
             in andThen (assertThat (pos = - 1)) (\<lambda>_. Inr resultString))))"

text \<open>The characters of one chunk, least significant first, and what is left of the chunk.\<close>

fun chunkLoop :: "digit \<Rightarrow> nat \<Rightarrow> digit \<Rightarrow> uchar list \<Rightarrow> digit \<times> uchar list" where
  "chunkLoop radix 0 chunk resultString = (chunk, resultString)"
| "chunkLoop radix (Suc i) chunk resultString =
     chunkLoop radix i (chunk div radix) (resultString @ [radixDigits ! unat (chunk mod radix)])"

text \<open>
  The \<^verbatim>\<open>do ... while (nonZeroDigit > 0)\<close> loop. The first round divides the BigInt itself into a new one, the
  later ones divide that one in place. \<open>fuel\<close> bounds the number of rounds: each of them divides by at
  least two, so that as many rounds as the BigInt has bits are enough.
\<close>

fun toStringChunks ::
  "nat \<Rightarrow> js_env \<Rightarrow> digit \<Rightarrow> nat \<Rightarrow> digit \<Rightarrow> jsBigInt \<Rightarrow> quotientArg \<Rightarrow> nat \<Rightarrow> uchar list \<Rightarrow> (js_error, jsBigInt \<times> uchar list) result" where
  "toStringChunks 0 env chunkDivisor chunkChars radix dividend quot nonZeroDigit resultString = Inl AssertionFailed"
| "toStringChunks (Suc fuel) env chunkDivisor chunkChars radix dividend quot nonZeroDigit resultString =
     andThen (absoluteDivWithDigitDivisor env dividend chunkDivisor quot) (\<lambda>(rest, chunk).
     let rest = the rest;
         (chunk, resultString) = chunkLoop radix chunkChars chunk resultString
     in andThen (assertThat (chunk = 0)) (\<lambda>_.
        let nonZeroDigit = (if digitAt rest nonZeroDigit = 0 then nonZeroDigit - 1 else nonZeroDigit)
        in andThen (assertThat (digitAt rest nonZeroDigit \<noteq> 0)) (\<lambda>_.
           if nonZeroDigit > 0
           then toStringChunks fuel env chunkDivisor chunkChars radix rest (QuotientIn rest) nonZeroDigit resultString
           else Inr (rest, resultString))))"

text \<open>The \<^verbatim>\<open>do ... while (lastDigit > 0)\<close> loop, which ends because the radix is at least two.\<close>

function lastDigitLoop :: "digit \<Rightarrow> digit \<Rightarrow> uchar list \<Rightarrow> uchar list" where
  "lastDigitLoop radix lastDigit resultString =
     (if lastDigit div radix > 0 \<and> radix > 1
      then lastDigitLoop radix (lastDigit div radix) (resultString @ [radixDigits ! unat (lastDigit mod radix)])
      else resultString @ [radixDigits ! unat (lastDigit mod radix)])"
  by pat_completeness auto
termination
proof (relation "measure (\<lambda>(r, d, s). unat d)")
  fix r d :: digit and s
  assume a: "0 < d div r \<and> 1 < r"
  then have "unat (d div r) \<noteq> 0" by (auto simp: unat_eq_zero)
  then have "0 < unat d" by (cases "unat d = 0") (auto simp: unat_div)
  moreover have "1 < unat r" using a by (simp add: word_less_nat_alt)
  ultimately have "unat d div unat r < unat d" by (simp add: div_less_dividend)
  then show "((r, d div r, s @ [radixDigits ! unat (d mod r)]), r, d, s) \<in> measure (\<lambda>(r, d, s). unat d)" by (simp add: unat_div)
qed simp

declare lastDigitLoop.simps [simp del]

text \<open>The size without leading zeros, counting down from the end.\<close>

fun sizeNoLeadingZeroes :: "uchar list \<Rightarrow> nat \<Rightarrow> nat" where
  "sizeNoLeadingZeroes resultString 0 = 0"
| "sizeNoLeadingZeroes resultString (Suc n) =
     (if Suc n > 1 \<and> resultString ! n = 0x30 then sizeNoLeadingZeroes resultString n else Suc n)"

definition toStringGeneric :: "js_env \<Rightarrow> jsBigInt \<Rightarrow> nat \<Rightarrow> (js_error, uchar list) result" where
  "toStringGeneric env x radix =
     andThen (assertThat (2 \<le> radix \<and> radix \<le> 36)) (\<lambda>_.
     andThen (assertThat (\<not> isZero x)) (\<lambda>_.
     let len = bigLength x;
         sign = m_sign x;
         maxBitsPerChar = maxBitsPerCharTable ! radix;
         maximumCharactersRequired = calculateMaximumCharactersRequired len radix (digitAt x (len - 1)) sign
     in if maximumCharactersRequired > maxStringLength
        then throwOutOfMemoryError env ''''
        else andThen
          (if len = 1 then Inr (digitAt x 0, [])
           else let chunkChars = digitBits * bitsPerCharTableMultiplier div maxBitsPerChar;
                    chunkDivisor = digitPow (of_nat radix) (of_nat chunkChars)
             in andThen (assertThat (chunkDivisor \<noteq> 0)) (\<lambda>_.
                let nonZeroDigit = len - 1
                in andThen (assertThat (digitAt x nonZeroDigit \<noteq> 0)) (\<lambda>_.
                   andThen (toStringChunks (len * digitBits) env chunkDivisor chunkChars (of_nat radix) x NewQuotient nonZeroDigit [])
                     (\<lambda>(rest, resultString). Inr (digitAt rest 0, resultString))))) (\<lambda>(lastDigit, resultString).
          let resultString = lastDigitLoop (of_nat radix) lastDigit resultString
          in andThen (assertThat (length resultString \<noteq> 0)) (\<lambda>_.
             andThen (assertThat (length resultString \<le> maximumCharactersRequired)) (\<lambda>_.
               let resultString = take (sizeNoLeadingZeroes resultString (length resultString)) resultString;
                   resultString = (if sign then resultString @ [0x2D] else resultString)
               in Inr (rev resultString))))))"

definition toStringBigInt :: "js_env \<Rightarrow> jsBigInt \<Rightarrow> nat \<Rightarrow> (js_error, uchar list) result" where
  "toStringBigInt env x radix =
     (if isZero x then Inr [0x30]
      else if hasOneBitSet (of_nat radix :: 32 word) then toStringBasePowerOfTwo env x radix
      else toStringGeneric env x radix)"


section \<open>Taking characters off from the low end\<close>

definition emitAll :: "uchar list \<times> int \<Rightarrow> nat list \<Rightarrow> uchar list \<times> int" where
  "emitAll out es = foldl emit out (map (nth radixDigits) es)"

lemma emitAll_append: "emitAll (emitAll out xs) ys = emitAll out (xs @ ys)"
  by (simp add: emitAll_def)

lemma emitAll_Nil [simp]: "emitAll out [] = out"
  by (simp add: emitAll_def)

lemma emit_emitAll: "emit (emitAll out xs) (radixDigits ! e) = emitAll out (xs @ [e])"
  by (simp add: emitAll_def)

text \<open>Writing exactly as many characters as the buffer holds fills it, in reverse order.\<close>

lemma foldl_emit:
  "length cs \<le> length buf \<Longrightarrow> foldl emit (buf, int (length buf) - 1) cs
     = (take (length buf - length cs) buf @ rev cs, int (length buf) - 1 - int (length cs))"
proof (induction cs rule: rev_induct)
  case (snoc c cs)
  define k where "k = length buf - length cs - 1"
  have k: "length buf - length cs = Suc k" "nat (int (length buf) - 1 - int (length cs)) = k" "k < length buf"
    using snoc.prems by (auto simp: k_def)
  have "(take (Suc k) buf @ rev cs)[k := c] = take k buf @ c # rev cs"
    using k(3) by (simp add: take_Suc_conv_app_nth list_update_append)
  moreover have "length buf - length (cs @ [c]) = k" by (simp add: k_def)
  ultimately show ?case using snoc.IH snoc.prems k(1,2) by simp
qed simp

text \<open>
  The numbers are relative to a number of bits per character: \<open>taken b v es w a\<close> says that the characters
  \<open>es\<close> have been taken off the number \<open>v\<close>, leaving \<open>w\<close>, of which \<open>a\<close> bits are known.
\<close>

definition taken :: "nat \<Rightarrow> int \<Rightarrow> nat list \<Rightarrow> int \<Rightarrow> nat \<Rightarrow> bool" where
  "taken b v es w a \<longleftrightarrow> (\<forall>e\<in>set es. e < 2 ^ b) \<and> v = int (rval (2 ^ b) es) + 2 ^ (b * length es) * w \<and> 0 \<le> w \<and> w < 2 ^ a"

lemma taken_Nil: "taken b v [] w a \<longleftrightarrow> v = w \<and> 0 \<le> w \<and> w < 2 ^ a"
  by (auto simp: taken_def)

lemma taken_trans:
  assumes "taken b v es w a" and "taken b w fs u c"
  shows "taken b v (es @ fs) u c"
  using assms by (auto simp: taken_def rval_append power_add power_mult algebra_simps)

lemma taken_snoc:
  assumes "taken b v es w a" and "b \<le> a"
  shows "taken b v (es @ [nat (w mod 2 ^ b)]) (w div 2 ^ b) (a - b)"
proof (rule taken_trans [OF assms(1)])
  have w: "0 \<le> w" "w < 2 ^ a" using assms(1) by (auto simp: taken_def)
  have "(2 :: int) ^ a = 2 ^ (a - b) * 2 ^ b" using assms(2) by (simp flip: power_add)
  then have "w div 2 ^ b < 2 ^ (a - b)" using w by (simp add: div_less_iff)
  moreover have "0 \<le> w div 2 ^ b" using w by (simp add: pos_imp_zdiv_nonneg_iff)
  moreover have "nat (w mod 2 ^ b) < 2 ^ b" by (simp add: nat_less_iff)
  ultimately show "taken b w [nat (w mod 2 ^ b)] (w div 2 ^ b) (a - b)" by (simp add: taken_def)
qed

lemma unat_and_mask: "b \<le> 64 \<Longrightarrow> unat (d AND mask b) = nat (uint (d :: digit) mod 2 ^ b)"
  using arg_cong [OF uint_and_mask [of b d], of nat] by simp

lemma drainAvailable_taken:
  assumes "b \<noteq> 0" and "b \<le> 64" and "uint digit < 2 ^ a"
  shows "\<exists>es digit'. drainAvailable b (mask b) digit a out = (digit', a mod b, emitAll out es)
     \<and> length es = a div b \<and> taken b (uint digit) es (uint digit') (a mod b)"
  using assms(3)
proof (induction a arbitrary: digit out rule: less_induct)
  case (less a)
  show ?case
  proof (cases "b \<le> a")
    case True
    let ?e = "nat (uint digit mod 2 ^ b)"
    have t: "taken b (uint digit) [?e] (uint (drop_bit b digit)) (a - b)"
      using taken_snoc [of b "uint digit" "[]" "uint digit" a] True less.prems by (simp add: taken_Nil uint_drop_bit)
    have "uint (drop_bit b digit) < 2 ^ (a - b)" using t by (simp add: taken_def)
    then obtain es digit' where IH: "drainAvailable b (mask b) (drop_bit b digit) (a - b) (emit out (radixDigits ! ?e))
        = (digit', (a - b) mod b, emitAll (emit out (radixDigits ! ?e)) es)"
      "length es = (a - b) div b" "taken b (uint (drop_bit b digit)) es (uint digit') ((a - b) mod b)"
      using less.IH [of "a - b" "drop_bit b digit" "emit out (radixDigits ! ?e)"] True assms(1) by auto
    have "drainAvailable b (mask b) digit a out = (digit', a mod b, emitAll out (?e # es))"
      using IH(1) True assms(1,2) by (subst drainAvailable.simps) (simp add: unat_and_mask le_mod_geq emitAll_def)
    moreover have "taken b (uint digit) (?e # es) (uint digit') (a mod b)"
      using taken_trans [OF t IH(3)] True by (simp add: le_mod_geq)
    moreover have "length (?e # es) = a div b" using True IH(2) assms(1) by (simp add: le_div_geq)
    ultimately show ?thesis by blast
  next
    case False
    then show ?thesis using less.prems
      by (intro exI [of _ "[]"] exI [of _ digit]) (simp add: drainAvailable.simps [of b] taken_Nil)
  qed
qed

text \<open>The leftover bits and the next digit together: the character taken off and what remains.\<close>

lemma leftover_char:
  fixes d digit :: digit
  assumes "a < b" and "b \<le> 64" and "uint digit < 2 ^ a"
  defines "w \<equiv> uint digit + 2 ^ a * uint d"
  shows "unat ((digit OR push_bit a d) AND mask b) = nat (w mod 2 ^ b)" and "uint (drop_bit (b - a) d) = w div 2 ^ b"
    and "w < 2 ^ (a + 64)" and "0 \<le> w"
proof -
  have "uint (digit OR push_bit a d) = uint d * 2 ^ a mod digitBase + uint digit"
    using push_bit_or [of a digit d] assms(1-3) by (simp add: or.commute)
  moreover have "2 ^ b dvd digitBase" unfolding digitBase_def using assms(2) by (intro le_imp_power_dvd)
  then have "(uint d * 2 ^ a mod digitBase + uint digit) mod 2 ^ b = w mod 2 ^ b"
    using mod_add_left_eq [of "uint d * 2 ^ a mod digitBase" "2 ^ b" "uint digit"] mod_add_left_eq [of "uint d * 2 ^ a" "2 ^ b" "uint digit"]
    by (simp add: mod_mod_cancel w_def ac_simps)
  ultimately show "unat ((digit OR push_bit a d) AND mask b) = nat (w mod 2 ^ b)"
    using unat_and_mask [OF assms(2)] by simp
  have "(2 :: int) ^ b = 2 ^ a * 2 ^ (b - a)" using assms(1) by (simp flip: power_add)
  then have "w div 2 ^ b = w div 2 ^ a div 2 ^ (b - a)" by (simp add: zdiv_zmult2_eq)
  also have "w div 2 ^ a = uint d" using assms(3) by (simp add: w_def)
  finally show "uint (drop_bit (b - a) d) = w div 2 ^ b" by (simp add: uint_drop_bit)
  show "0 \<le> w" by (simp add: w_def)
  have "2 ^ a * (uint d + 1) \<le> 2 ^ a * (2 ^ 64 :: int)"
    using uint_less_digitBase [of d] by (intro mult_left_mono) (simp_all add: digitBase_def)
  then show "w < 2 ^ (a + 64)" using assms(3) unfolding w_def power_add distrib_left by linarith
qed

lemma toStringStep_taken:
  assumes b: "b \<noteq> 0" "b \<le> 64" and i: "i < bigLength x"
    and inv: "taken b (dval (take i (m_data x))) es (uint digit) a" "a < b" "64 * i = b * length es + a"
  shows "\<exists>fs digit' a'. toStringStep x b (mask b) i (digit, a, emitAll out es) = (digit', a', emitAll out fs)
     \<and> taken b (dval (take (Suc i) (m_data x))) fs (uint digit') a' \<and> a' < b \<and> 64 * Suc i = b * length fs + a'"
proof -
  define d where "d = digitAt x i"
  define w where "w = uint digit + 2 ^ a * uint d"
  have dig: "uint digit < 2 ^ a" using inv(1) by (simp add: taken_def)
  note c = leftover_char [OF inv(2) b(2) dig, of d, folded w_def]
  have "dval (take (Suc i) (m_data x)) = dval (take i (m_data x)) + digitBase ^ i * uint d"
    using i by (simp add: dval_take_Suc d_def digitAt_def)
  also have "digitBase ^ i = 2 ^ (b * length es) * 2 ^ a" unfolding digitBase_power_2 inv(3) by (rule power_add)
  finally have t0: "taken b (dval (take (Suc i) (m_data x))) es w (a + 64)"
    using inv(1) c(3,4) by (simp add: taken_def w_def algebra_simps)
  have t1: "taken b (dval (take (Suc i) (m_data x))) (es @ [nat (w mod 2 ^ b)]) (uint (drop_bit (b - a) d)) (64 - (b - a))"
    using taken_snoc [OF t0] b(2) inv(2) c(2) by (simp add: add.commute)
  then have "uint (drop_bit (b - a) d) < 2 ^ (64 - (b - a))" by (simp add: taken_def)
  from drainAvailable_taken [OF b this, of "emitAll out (es @ [nat (w mod 2 ^ b)])"] obtain gs digit' where
    g: "drainAvailable b (mask b) (drop_bit (b - a) d) (64 - (b - a)) (emitAll out (es @ [nat (w mod 2 ^ b)]))
       = (digit', (64 - (b - a)) mod b, emitAll out ((es @ [nat (w mod 2 ^ b)]) @ gs))"
      "length gs = (64 - (b - a)) div b" "taken b (uint (drop_bit (b - a) d)) gs (uint digit') ((64 - (b - a)) mod b)"
    by (auto simp: emitAll_append)
  have "toStringStep x b (mask b) i (digit, a, emitAll out es)
      = (digit', (64 - (b - a)) mod b, emitAll out ((es @ [nat (w mod 2 ^ b)]) @ gs))"
    using g(1) by (simp add: toStringStep_def Let_def c(1) d_def [symmetric] emit_emitAll digitBits_def)
  moreover have "64 * Suc i = b * length ((es @ [nat (w mod 2 ^ b)]) @ gs) + (64 - (b - a)) mod b"
    using inv(2,3) b(2) mult_div_mod_eq [of b "64 - (b - a)"] by (simp add: g(2) algebra_simps)
  ultimately show ?thesis using taken_trans [OF t1 g(3)] b(1) by (metis mod_less_divisor neq0_conv)
qed

lemma toStringLoop_taken:
  assumes b: "b \<noteq> 0" "b \<le> 64" and n: "n \<le> bigLength x"
  shows "\<exists>es digit a. for_up 0 n (toStringStep x b (mask b)) (0, 0, out) = (digit, a, emitAll out es)
     \<and> taken b (dval (take n (m_data x))) es (uint digit) a \<and> a < b \<and> 64 * n = b * length es + a"
proof -
  let ?I = "\<lambda>i st. \<exists>es (digit :: digit) a. st = (digit, a, emitAll out es)
     \<and> taken b (dval (take i (m_data x))) es (uint digit) a \<and> a < b \<and> 64 * i = b * length es + a"
  show "?I n (for_up 0 n (toStringStep x b (mask b)) (0, 0, out))"
  proof (rule for_up_inv [where I = ?I])
    show "?I 0 (0, 0, out)"
      using b by (intro exI [of _ "[]"] exI [of _ "0 :: digit"] exI [of _ "0 :: nat"]) (simp add: taken_Nil)
    fix i t assume "i < n" and "?I i t"
    then show "?I (Suc i) (toStringStep x b (mask b) i t)"
      using toStringStep_taken [OF b, of i x] n by fastforce
  qed simp
qed

text \<open>The last loop takes characters off until nothing is left; the last one is not zero.\<close>

lemma drainNonZero_taken:
  assumes b: "b \<noteq> 0" "b \<le> 64"
  shows "\<exists>es. drainNonZero b (mask b) digit out = emitAll out es \<and> taken b (uint digit) es 0 0 \<and> (es \<noteq> [] \<longrightarrow> last es \<noteq> 0)"
proof (induction "unat digit" arbitrary: digit out rule: less_induct)
  case less
  show ?case
  proof (cases "digit = 0")
    case True
    then show ?thesis by (intro exI [of _ "[]"]) (simp add: drainNonZero.simps [of b] taken_Nil)
  next
    case False
    let ?e = "nat (uint digit mod 2 ^ b)" and ?d = "drop_bit b digit"
    have "uint ?d < uint digit" unfolding uint_drop_bit
      using uint_ge_1 [OF False] one_less_power [of "2 :: int" b] b by (intro int_div_less_self) auto
    then have "unat ?d < unat digit" by (simp add: unat_mono word_less_def)
    from less [OF this, of "emit out (radixDigits ! ?e)"] obtain es where
      IH: "drainNonZero b (mask b) ?d (emit out (radixDigits ! ?e)) = emitAll (emit out (radixDigits ! ?e)) es"
        "taken b (uint ?d) es 0 0" "es \<noteq> [] \<longrightarrow> last es \<noteq> 0" by blast
    have "uint digit < 2 ^ (64 + b)" 
      using uint_less_digitBase [of digit] power_increasing [of 64 "64 + b" "2 :: int"] by (simp add: digitBase_def)
    then have t: "taken b (uint digit) [?e] (uint ?d) 64"
      using taken_snoc [of b "uint digit" "[]" "uint digit" "64 + b"] by (simp add: taken_Nil uint_drop_bit)
    have "0 < ?e" if "es = []"
    proof (rule ccontr)
      assume "\<not> 0 < ?e"
      moreover have "0 \<le> uint digit mod 2 ^ b" by simp
      ultimately have "uint digit mod 2 ^ b = 0" unfolding zero_less_nat_eq by linarith
      moreover have "uint ?d = 0" using IH(2) that by (simp add: taken_Nil)
      ultimately show False using False div_mult_mod_eq [of "uint digit" "2 ^ b"] by (simp add: uint_drop_bit uint_0_iff)
    qed
    moreover have "drainNonZero b (mask b) digit out = emitAll out (?e # es)"
      using IH(1) False b by (subst drainNonZero.simps) (simp add: unat_and_mask emitAll_def)
    moreover have "taken b (uint digit) (?e # es) 0 0" using taken_trans [OF t IH(2)] by simp
    ultimately show ?thesis using IH(3) by (intro exI [of _ "?e # es"]) auto
  qed
qed

section \<open>Lengths\<close>

text \<open>The bit length that both routines compute from the leading zeros of the top digit.\<close>

lemma bitLength_bounds:
  assumes x: "canonical x" "\<not> isZero x"
  defines "bl \<equiv> bigLength x * 64 - clz (digitAt x (bigLength x - 1))"
  shows "dval (m_data x) < 2 ^ bl" and "2 ^ (bl - 1) \<le> dval (m_data x)" and "bl \<noteq> 0" and "bl \<le> bigLength x * 64"
proof -
  define n where "n = bigLength x - 1"
  define t where "t = digitAt x n"
  have ne: "m_data x \<noteq> []" using x(2) by (auto simp: isZero_def)
  then have len: "bigLength x = Suc n" by (simp add: n_def)
  have t: "t = last (m_data x)" "t \<noteq> 0" using x ne by (auto simp: t_def n_def digitAt_def last_conv_nth canonical_def)
  have D: "dval (m_data x) = dval (butlast (m_data x)) + digitBase ^ n * uint t"
    using dval_split_last [OF ne] t(1) by (simp add: len)
  have low: "dval (butlast (m_data x)) < digitBase ^ n" using dval_bound [of "butlast (m_data x)"] by (simp add: n_def)
  have lt: "clz t < 64" using clz_normalises(1) [OF t(2)] by simp
  have tb: "uint t < 2 ^ (64 - clz t)" "2 ^ (64 - clz t - 1) \<le> uint t"
    using clzLoop_bounds(2,3) [of t 64] uint_less_digitBase [of t] lt by (simp_all add: clz_def digitBase_def)
  have bl: "bl = 64 * n + (64 - clz t)" using lt by (simp add: bl_def len t_def)
  show "bl \<noteq> 0" using lt by (simp add: bl)
  show "bl \<le> bigLength x * 64" by (simp add: bl_def)
  have "digitBase ^ n * (uint t + 1) \<le> digitBase ^ n * 2 ^ (64 - clz t)" using tb(1) by (intro mult_left_mono) auto
  then show "dval (m_data x) < 2 ^ bl"
    using low unfolding D bl power_add digitBase_power_2 distrib_left by linarith
  have "64 * n + (64 - clz t) - 1 = 64 * n + (64 - clz t - 1)" using lt by simp
  moreover have "digitBase ^ n * 2 ^ (64 - clz t - 1) \<le> digitBase ^ n * uint t" using tb(2) by (intro mult_left_mono) auto
  ultimately show "2 ^ (bl - 1) \<le> dval (m_data x)"
    using dval_nonneg [of "butlast (m_data x)"] unfolding D bl digitBase_power_2 by (simp only: power_add)
qed

lemma ceil_div_unique: "b * k < bl + b \<Longrightarrow> bl \<le> b * k \<Longrightarrow> b \<noteq> 0 \<Longrightarrow> (bl + b - 1) div b = (k :: nat)"
  by (intro div_nat_eqI) (auto simp: algebra_simps)

text \<open>Characters without a leading zero take the room of the bit length divided by the bits per character, rounded up.\<close>

lemma taken_length:
  assumes "taken b D fs 0 0" and "fs \<noteq> []" and "last fs \<noteq> 0" and "D < 2 ^ bl" and "2 ^ (bl - 1) \<le> D" and "bl \<noteq> 0" and "b \<noteq> 0"
  shows "(bl + b - 1) div b = length fs"
proof (rule ceil_div_unique)
  have D: "D = int (rval (2 ^ b) fs)" and fs: "\<forall>e\<in>set fs. e < 2 ^ b" using assms(1) by (auto simp: taken_def)
  have "int (rval (2 ^ b) fs) < int ((2 ^ b) ^ length fs)" unfolding of_nat_less_iff using fs by (rule rval_bound)
  then have "D < 2 ^ (b * length fs)" by (simp add: D power_mult)
  then have "(2 :: int) ^ (bl - 1) < 2 ^ (b * length fs)" using assms(5) by linarith
  then show "bl \<le> b * length fs" using assms(6) by simp
  have "rval (2 ^ b) fs = rval (2 ^ b) (butlast fs) + (2 ^ b) ^ (length fs - 1) * last fs"
    using rval_append [of "2 ^ b" "butlast fs" "[last fs]"] assms(2) by simp
  then have "(2 ^ b) ^ (length fs - 1) * 1 \<le> rval (2 ^ b) fs" using assms(3) by (simp add: trans_le_add2)
  then have "int ((2 ^ b) ^ (length fs - 1) * 1) \<le> int (rval (2 ^ b) fs)" unfolding of_nat_le_iff .
  then have "(2 :: int) ^ (b * (length fs - 1)) \<le> D" by (simp add: D power_mult)
  then have "(2 :: int) ^ (b * (length fs - 1)) < 2 ^ bl" using assms(4) by linarith
  then show "b * length fs < bl + b" using assms(2) by (cases "length fs") auto
qed fact

section \<open>Powers of two\<close>

lemma radix_power_of_two:
  assumes "2 \<le> radix" and "radix \<le> 36" and "hasOneBitSet (of_nat radix :: 32 word)"
  defines "b \<equiv> ctz (of_nat radix :: 32 word)"
  shows "b \<noteq> 0" and "b \<le> 5" and "radix = 2 ^ b" and "of_nat (radix - 1) = (mask b :: digit)" and "radix \<le> 32"
proof -
  have "\<forall>r\<in>set [2..<37]. hasOneBitSet (of_nat r :: 32 word) \<longrightarrow> r \<in> {2, 4, 8, 16, 32}" by code_simp
  moreover have "radix \<in> set [2..<37]" unfolding set_upt using assms(1,2) by simp
  ultimately have five: "radix \<in> {2, 4, 8, 16, 32}" using assms(3) by blast
  then have "\<exists>k. k \<noteq> 0 \<and> k \<le> 5 \<and> radix = 2 ^ k"
    by (elim insertE emptyE) (rule exI [of _ 1] exI [of _ 2] exI [of _ 3] exI [of _ 4] exI [of _ 5], simp)+
  then obtain k where k: "k \<noteq> 0" "k \<le> 5" "radix = 2 ^ k" by blast
  then have "b = k" using ctz_power [of k, where 'a = 32] by (simp add: b_def)
  then show "b \<noteq> 0" "b \<le> 5" "radix = 2 ^ b" "of_nat (radix - 1) = (mask b :: digit)"
    using k by (simp_all add: mask_eq_exp_minus_1 of_nat_diff)
  show "radix \<le> 32" using five by auto
qed

lemma toRadix_taken:
  assumes "taken b D fs 0 0" and "b \<noteq> 0" and "fs \<noteq> []" and "last fs \<noteq> 0"
  shows "toRadix (2 ^ b) (nat D) = rev fs"
proof -
  have "2 ^ 1 \<le> (2 :: nat) ^ b" using assms(2) by (intro power_increasing) auto
  then show ?thesis using toRadix_rval [of "2 ^ b" fs] assms by (simp add: taken_def)
qed

lemma toStringBits_taken:
  assumes x: "canonical x" "\<not> isZero x" and b: "b \<noteq> 0" "b \<le> 64"
  shows "\<exists>fs. toStringBits x b (mask b) out = emitAll out fs \<and> taken b (dval (m_data x)) fs 0 0 \<and> fs \<noteq> [] \<and> last fs \<noteq> 0"
proof -
  define n where "n = bigLength x - 1"
  define msd where "msd = digitAt x n"
  define D where "D = dval (m_data x)"
  have len: "bigLength x = Suc n" using x(2) by (auto simp: n_def isZero_def)
  have msd: "msd \<noteq> 0" using x by (auto simp: msd_def n_def digitAt_def canonical_def last_conv_nth isZero_def)
  obtain es digit a where loop: "for_up 0 n (toStringStep x b (mask b)) (0, 0, out) = (digit, a, emitAll out es)"
      "taken b (dval (take n (m_data x))) es (uint digit) a" "a < b" "64 * n = b * length es + a"
    using toStringLoop_taken [OF b, of n x out] len by auto
  define w where "w = uint digit + 2 ^ a * uint msd"
  have dig: "uint digit < 2 ^ a" using loop(2) by (simp add: taken_def)
  note c = leftover_char [OF loop(3) b(2) dig, of msd, folded w_def]
  have D: "D = dval (take n (m_data x)) + digitBase ^ n * uint msd"
    using dval_take_Suc [of n "m_data x"] len by (simp add: D_def msd_def digitAt_def)
  have "digitBase ^ n = 2 ^ (b * length es) * 2 ^ a" unfolding digitBase_power_2 loop(4) by (rule power_add)
  then have "taken b D es w (a + 64)"
    using loop(2) c(3,4) by (simp add: D taken_def w_def algebra_simps)
  from taken_snoc [OF this] have t: "taken b D (es @ [nat (w mod 2 ^ b)]) (uint (drop_bit (b - a) msd)) (a + 64 - b)"
    using b(2) c(2) by simp
  obtain gs where g: "drainNonZero b (mask b) (drop_bit (b - a) msd) (emitAll out (es @ [nat (w mod 2 ^ b)]))
        = emitAll (emitAll out (es @ [nat (w mod 2 ^ b)])) gs"
      "taken b (uint (drop_bit (b - a) msd)) gs 0 0" "gs \<noteq> [] \<longrightarrow> last gs \<noteq> 0"
    using drainNonZero_taken [OF b] by metis
  have last: "nat (w mod 2 ^ b) \<noteq> 0" if "gs = []"
  proof -
    have "w div 2 ^ b = 0" using g(2) c(2) that by (simp add: taken_Nil)
    moreover have "0 < w" using uint_ge_1 [OF msd] by (simp add: w_def add_nonneg_pos)
    ultimately show ?thesis using div_mult_mod_eq [of w "2 ^ b"] by simp
  qed
  have "toStringBits x b (mask b) out = emitAll out ((es @ [nat (w mod 2 ^ b)]) @ gs)"
    using loop(1) g(1) unfolding toStringBits_def Let_def n_def [symmetric] msd_def [symmetric]
    by (simp add: c(1) emit_emitAll emitAll_append)
  then show ?thesis using taken_trans [OF t g(2)] last g(3) by (intro exI [of _ "(es @ [nat (w mod 2 ^ b)]) @ gs"]) (auto simp: D_def)
qed

lemma toStringBasePowerOfTwo_correct:
  assumes x: "canonical x" "\<not> isZero x" and radix: "2 \<le> radix" "radix \<le> 36" "hasOneBitSet (of_nat radix :: 32 word)"
  shows "toStringBasePowerOfTwo env x radix = Inr (radixString radix (bval x))"
proof -
  define b where "b = ctz (of_nat radix :: 32 word)"
  note r = radix_power_of_two [OF radix, folded b_def]
  have b: "b \<noteq> 0" "b \<le> 64" using r by auto
  define bl where "bl = bigLength x * 64 - clz (digitAt x (bigLength x - 1))"
  note bl = bitLength_bounds [OF x, folded bl_def]
  define k where "k = (bl + b - 1) div b + of_bool (m_sign x)"
  define out where "out = (replicate k (0 :: uchar), int k - 1)"
  obtain fs where fs: "toStringBits x b (mask b) out = emitAll out fs" "taken b (dval (m_data x)) fs 0 0" "fs \<noteq> []" "last fs \<noteq> 0"
    using toStringBits_taken [OF x b] by blast
  have chars: "(bl + b - 1) div b = length fs" by (rule taken_length [OF fs(2-4) bl(1-3) b(1)])
  define cs where "cs = map (nth radixDigits) fs @ (if m_sign x then [0x2D] else [])"
  have lcs: "length cs = k" unfolding cs_def k_def chars by simp
  have "foldl emit out cs = (rev cs, - 1)"
    using foldl_emit [of cs "replicate (length cs) 0"] unfolding out_def lcs [symmetric] by simp
  then have fin: "(if m_sign x then emit (emitAll out fs) 0x2D else emitAll out fs) = (rev cs, - 1)"
    by (cases "m_sign x") (simp_all add: cs_def emitAll_def)
  have "rev cs = radixString radix (bval x)"
    using toRadix_taken [OF fs(2) b(1) fs(3,4)] canonical_sign [OF x(1)]
    by (simp add: cs_def radixString_def r(3) abs_bval rev_map)
  moreover have "bl + b - 1 \<le> bl * b" using bl(3) b(1) by (cases bl; cases b) auto
  then have "(bl + b - 1) div b \<le> bl" using b(1) by (metis div_le_mono nonzero_mult_div_cancel_right)
  moreover have "bl \<le> maxLength * 64" using bl(4) x(1) by (simp add: canonical_def)
  ultimately have "\<not> k > maxStringLength" by (simp add: k_def maxLength_eq maxStringLength_def)
  then have "toStringBasePowerOfTwo env x radix = Inr (rev cs)"
    unfolding toStringBasePowerOfTwo_def Let_def b_def [symmetric] digitBits_def bl_def [symmetric] k_def [symmetric] out_def [symmetric] r(4) fs(1) fin
    using radix r(5) x(2) by simp
  then show ?thesis using \<open>rev cs = _\<close> by simp
qed


section \<open>Other radices\<close>

text \<open>
  What the comment on \<^verbatim>\<open>maxBitsPerCharTable\<close> promises of its entries: entry \<open>r\<close> is \<open>32 * log2 r\<close>, rounded up. It
  follows that the chunk divisor of a radix that is not a power of two fits a digit.
\<close>

lemma maxBitsPerCharTable_entries:
  assumes "2 \<le> r" and "r \<le> 36"
  defines "m \<equiv> maxBitsPerCharTable ! r"
  shows "(2 :: nat) ^ (m - 1) \<le> r ^ 32" and "r ^ 32 \<le> (2 :: nat) ^ m" and "32 \<le> m" and "m \<le> 166"
proof -
  have "\<forall>r\<in>set [2..<37]. (2 :: nat) ^ (maxBitsPerCharTable ! r - 1) \<le> r ^ 32 \<and> r ^ 32 \<le> (2 :: nat) ^ (maxBitsPerCharTable ! r)
      \<and> 32 \<le> maxBitsPerCharTable ! r \<and> maxBitsPerCharTable ! r \<le> 166"
    by (simp add: maxBitsPerCharTable_def)
  moreover have "r \<in> set [2..<37]" unfolding set_upt using assms(1,2) by simp
  ultimately show "(2 :: nat) ^ (m - 1) \<le> r ^ 32" "r ^ 32 \<le> (2 :: nat) ^ m" "32 \<le> m" "m \<le> 166"
    unfolding m_def by blast+
qed

definition chunkCharsOf :: "nat \<Rightarrow> nat" where
  "chunkCharsOf radix = digitBits * bitsPerCharTableMultiplier div (maxBitsPerCharTable ! radix)"

lemma chunkDivisor_bounds:
  assumes "2 \<le> r" and "r \<le> 36" and "\<not> hasOneBitSet (of_nat r :: 32 word)"
  shows "r ^ chunkCharsOf r < 2 ^ 64" and "2 \<le> r ^ chunkCharsOf r"
proof -
  have "\<forall>r\<in>set [2..<37]. r \<in> {2, 4, 8, 16, 32} \<or> r ^ chunkCharsOf r < 2 ^ 64"
    by (simp add: chunkCharsOf_def digitBits_def bitsPerCharTableMultiplier_def bitsPerCharTableShift_def maxBitsPerCharTable_def)
  moreover have "r \<in> set [2..<37]" unfolding set_upt using assms(1,2) by simp
  moreover have "r \<notin> {2, 4, 8, 16, 32}" using assms(3) by (auto simp: hasOneBitSet_def)
  ultimately show "r ^ chunkCharsOf r < 2 ^ 64" by blast
  have "chunkCharsOf r \<noteq> 0"
    using maxBitsPerCharTable_entries(3,4) [OF assms(1,2)]
    by (simp add: chunkCharsOf_def digitBits_def bitsPerCharTableMultiplier_def bitsPerCharTableShift_def div_eq_0_iff)
  then have "r ^ 1 \<le> r ^ chunkCharsOf r" using assms(1) by (intro power_increasing) auto
  then show "2 \<le> r ^ chunkCharsOf r" using assms(1) by simp
qed

lemma chunkLoop_digits:
  assumes "1 < r"
  shows "\<exists>es chunk'. chunkLoop r n chunk s = (chunk', s @ map (nth radixDigits) es) \<and> length es = n \<and> (\<forall>e\<in>set es. e < unat r)
     \<and> unat chunk = rval (unat r) es + unat r ^ n * unat chunk'"
proof (induction n arbitrary: chunk s)
  case 0
  show ?case by (intro exI [of _ "[]"] exI [of _ chunk]) simp
next
  case (Suc n)
  let ?e = "unat (chunk mod r)"
  obtain es chunk' where IH: "chunkLoop r n (chunk div r) (s @ [radixDigits ! ?e]) = (chunk', (s @ [radixDigits ! ?e]) @ map (nth radixDigits) es)"
      "length es = n" "\<forall>e\<in>set es. e < unat r" "unat (chunk div r) = rval (unat r) es + unat r ^ n * unat chunk'"
    using Suc by metis
  have r: "0 < unat r" using assms by (simp add: word_less_nat_alt)
  have "unat chunk = unat r * unat (chunk div r) + ?e" by (simp add: unat_div unat_mod)
  also have "\<dots> = rval (unat r) (?e # es) + unat r ^ Suc n * unat chunk'" by (simp add: IH(4) algebra_simps)
  finally have "unat chunk = rval (unat r) (?e # es) + unat r ^ Suc n * unat chunk'" .
  moreover have "?e < unat r" using r by (simp add: unat_mod)
  ultimately show ?case using IH(1-3) by (intro exI [of _ "?e # es"] exI [of _ chunk']) simp
qed

lemma lastDigitLoop_digits:
  assumes "1 < r" and "d \<noteq> 0"
  shows "\<exists>es. lastDigitLoop r d s = s @ map (nth radixDigits) es \<and> (\<forall>e\<in>set es. e < unat r) \<and> unat d = rval (unat r) es
     \<and> es \<noteq> [] \<and> last es \<noteq> 0"
  using assms(2)
proof (induction "unat d" arbitrary: d s rule: less_induct)
  case less
  let ?e = "unat (d mod r)"
  have r: "1 < unat r" using assms by (simp add: word_less_nat_alt)
  have e: "?e < unat r" using r by (simp add: unat_mod)
  have d: "unat d = unat r * unat (d div r) + ?e" by (simp add: unat_div unat_mod)
  have d0: "0 < unat d" using less.prems by (simp add: unat_gt_0)
  show ?case
  proof (cases "d div r = 0")
    case True
    then have "unat d = ?e" using d by simp
    then show ?thesis using True e d0 by (intro exI [of _ "[?e]"]) (subst lastDigitLoop.simps, simp)
  next
    case False
    have "unat (d div r) < unat d" using r d0 by (simp add: unat_div div_less_dividend)
    from less.hyps [OF this False, of "s @ [radixDigits ! ?e]"] obtain es where
      IH: "lastDigitLoop r (d div r) (s @ [radixDigits ! ?e]) = (s @ [radixDigits ! ?e]) @ map (nth radixDigits) es"
        "\<forall>e\<in>set es. e < unat r" "unat (d div r) = rval (unat r) es" "es \<noteq> []" "last es \<noteq> 0" by blast
    have "lastDigitLoop r d s = s @ map (nth radixDigits) (?e # es)"
      using False assms(1) IH(1) by (subst lastDigitLoop.simps) (simp add: word_gt_0)
    then show ?thesis using IH(2-) e d by (intro exI [of _ "?e # es"]) (simp add: add.commute)
  qed
qed

text \<open>One division by the chunk divisor, into a new BigInt or in place.\<close>

definition divides_into :: "jsBigInt \<Rightarrow> digit \<Rightarrow> jsBigInt option \<times> digit \<Rightarrow> bool" where
  "divides_into x c = (\<lambda>(q, ch). \<exists>rest. q = Some rest \<and> bigLength rest = bigLength x
     \<and> dval (m_data rest) = dval (m_data x) div uint c \<and> uint ch = dval (m_data x) mod uint c)"

lemma divideDigits_into:
  assumes "divideDigits x c q0 = (q, r)" and "bigLength q0 = bigLength x" and "c \<noteq> 0"
  shows "divides_into x c (Some q, r)"
proof -
  note dd = divideDigits_correct [OF assms(1,3)]
  have "dval (m_data x) = uint c * dval (m_data q) + uint r" "uint r < uint c" "bigLength q = bigLength x"
    using dd(1-3) assms(2) by simp_all
  moreover from this have "dval (m_data x) div uint c = dval (m_data q)"
    using uint_nonneg [of r] uint_ge_1 [OF assms(3)] by (intro div_unique_bounds) (auto simp: mult.commute)
  ultimately show ?thesis using mult_div_mod_eq [of "uint c" "dval (m_data x)"] by (simp add: divides_into_def)
qed

lemma divide_round:
  assumes "\<not> isZero x" and "1 < c"
  shows "outcome (oom env (bigLength x)) (divides_into x c) (absoluteDivWithDigitDivisor env x c NewQuotient)"
    and "\<exists>r. absoluteDivWithDigitDivisor env x c (QuotientIn x) = Inr r \<and> divides_into x c r"
proof -
  have c: "c \<noteq> 0" "c \<noteq> 1" using assms(2) by auto
  have "outcome (oom env (bigLength x)) (divides_into x c)
     (andThen (createWithLength env (bigLength x)) (\<lambda>result. let (q, r) = divideDigits x c result in Inr (Some q, r)))"
    by (rule oom_andThen [OF createWithLength_outcome order_refl])
      (auto simp: fresh_def split: prod.splits intro: divideDigits_into [OF _ _ c(1)])
  then show "outcome (oom env (bigLength x)) (divides_into x c) (absoluteDivWithDigitDivisor env x c NewQuotient)"
    using assms(1) c by (simp add: absoluteDivWithDigitDivisor_def)
  show "\<exists>r. absoluteDivWithDigitDivisor env x c (QuotientIn x) = Inr r \<and> divides_into x c r"
    using assms(1) c divideDigits_into [of x c x] by (auto simp: absoluteDivWithDigitDivisor_def split: prod.splits)
qed

text \<open>
  The invariant of the loop: \<open>top nz x\<close> says that \<open>nz\<close> is the index of the highest non-zero digit.
\<close>

definition top :: "nat \<Rightarrow> jsBigInt \<Rightarrow> bool" where
  "top nz x \<longleftrightarrow> nz < bigLength x \<and> digitBase ^ nz \<le> dval (m_data x) \<and> dval (m_data x) < digitBase ^ Suc nz"

lemma digit_above:
  assumes "nz < length ds" and "dval ds < digitBase ^ Suc nz"
  shows "ds ! nz \<noteq> 0 \<longleftrightarrow> digitBase ^ nz \<le> dval ds"
proof -
  have "drop (Suc nz) ds = replicate (length ds - Suc nz) 0"
  proof -
    have "dval ds div digitBase ^ Suc nz = 0" using assms(2) by simp
    then have "dval (drop (Suc nz) ds) = 0" using assms(1) by (simp add: dval_div_base_power Suc_leI del: power_Suc)
    then show ?thesis by (intro replicate_eqI) (auto simp: dval_eq_0_iff)
  qed
  then have d: "dval ds = dval (take nz ds) + digitBase ^ nz * uint (ds ! nz)"
    using dval_take_drop [of ds "Suc nz"] dval_take_Suc [of nz ds] assms(1) by simp
  have "dval (take nz ds) < digitBase ^ nz" using dval_bound [of "take nz ds"] assms(1) by simp
  show ?thesis
  proof
    assume "ds ! nz \<noteq> 0"
    then have "digitBase ^ nz * 1 \<le> digitBase ^ nz * uint (ds ! nz)" using uint_ge_1 by (intro mult_left_mono) auto
    then show "digitBase ^ nz \<le> dval ds" using dval_nonneg [of "take nz ds"] unfolding d by linarith
  next
    assume "digitBase ^ nz \<le> dval ds"
    then show "ds ! nz \<noteq> 0" using \<open>dval (take nz ds) < _\<close> d by auto
  qed
qed

lemma top_digit: "top nz x \<Longrightarrow> digitAt x nz \<noteq> 0"
  using digit_above [of nz "m_data x"] by (simp add: top_def digitAt_def)

text \<open>Dividing by less than the base clears at most one digit.\<close>

lemma top_divided:
  assumes "top nz x" and "divides_into x c (Some rest, ch)" and "0 < uint c" and "0 < nz"
  shows "top (if digitAt rest nz = 0 then nz - 1 else nz) rest"
proof -
  have t: "nz < bigLength x" "digitBase ^ nz \<le> dval (m_data x)" "dval (m_data x) < digitBase ^ Suc nz"
    using assms(1) by (simp_all add: top_def)
  have r: "bigLength rest = bigLength x" "dval (m_data rest) = dval (m_data x) div uint c"
    using assms(2) by (auto simp: divides_into_def)
  have "dval (m_data rest) \<le> dval (m_data x)" unfolding r(2) using zdiv_mono2 [of "dval (m_data x)" 1 "uint c"] assms(3) by simp
  then have up: "dval (m_data rest) < digitBase ^ Suc nz" using t(3) by linarith
  obtain m where m: "nz = Suc m" using assms(4) by (cases nz) auto
  have "digitBase ^ m * uint c \<le> digitBase ^ m * digitBase"
    using uint_less_digitBase [of c] by (intro mult_left_mono less_imp_le) simp_all
  also have "\<dots> \<le> dval (m_data x)" using t(2) by (simp add: m mult.commute)
  finally have low: "digitBase ^ m \<le> dval (m_data rest)" unfolding r(2) using le_div_iff [OF assms(3)] by simp
  have "digitAt rest nz \<noteq> 0 \<longleftrightarrow> digitBase ^ nz \<le> dval (m_data rest)"
    unfolding digitAt_def using t(1) r(1) up by (intro digit_above) simp_all
  then show ?thesis using t(1) r(1) up low by (auto simp: top_def m)
qed

text \<open>The value of the characters written so far, and of what is left.\<close>

definition printed :: "nat \<Rightarrow> int \<Rightarrow> nat list \<Rightarrow> int \<Rightarrow> bool" where
  "printed r D es V \<longleftrightarrow> (\<forall>e\<in>set es. e < r) \<and> D = int (rval r es) + int r ^ length es * V"

lemma printed_append:
  assumes "printed r D es V" and "printed r V fs W"
  shows "printed r D (es @ fs) W"
  using assms by (auto simp: printed_def rval_append power_add algebra_simps)

lemma printed_chunk:
  assumes "divides_into x c (Some rest, ch)" and c: "uint c = int r ^ n" and r: "1 < r" "r \<le> 36"
  shows "\<exists>es. chunkLoop (of_nat r) n ch s = (0, s @ map (nth radixDigits) es) \<and> printed r (dval (m_data x)) es (dval (m_data rest))"
proof -
  have ur: "unat (of_nat r :: digit) = r" "1 < (of_nat r :: digit)" using r by (simp_all add: unat_of_nat word_less_nat_alt)
  obtain es ch' where es: "chunkLoop (of_nat r) n ch s = (ch', s @ map (nth radixDigits) es)" "length es = n" "\<forall>e\<in>set es. e < r"
      "unat ch = rval r es + r ^ n * unat ch'"
    using chunkLoop_digits [OF ur(2), of n ch s] ur(1) by auto
  have d: "uint ch = dval (m_data x) mod uint c" "dval (m_data rest) = dval (m_data x) div uint c"
    using assms(1) by (auto simp: divides_into_def)
  have "uint ch < int r ^ n" unfolding d(1) c using r by simp
  then have "int (unat ch) < int (r ^ n)" by simp
  then have "unat ch < r ^ n" unfolding of_nat_less_iff .
  then have "r ^ n * unat ch' < r ^ n * 1" using es(4) by linarith
  then have "ch' = 0" by (simp add: unat_eq_zero)
  moreover have "printed r (dval (m_data x)) es (dval (m_data rest))"
  proof -
    have "uint ch = int (rval r es)" using es(4) \<open>ch' = 0\<close> by (metis add.right_neutral mult_zero_right uint_nat unat_0)
    then show ?thesis using es(2,3) d c mult_div_mod_eq [of "uint c" "dval (m_data x)"] by (simp add: printed_def)
  qed
  ultimately show ?thesis using es(1) by auto
qed

text \<open>
  What a call of the loop delivers: the characters of the number but for a last digit, and a BigInt
  whose lowest digit that is.
\<close>

definition chunks_done :: "nat \<Rightarrow> int \<Rightarrow> jsBigInt \<times> uchar list \<Rightarrow> bool" where
  "chunks_done r D = (\<lambda>(rest, s). \<exists>es. s = map (nth radixDigits) es \<and> printed r D es (uint (digitAt rest 0)) \<and> digitAt rest 0 \<noteq> 0)"

lemma top_0: "top 0 x \<Longrightarrow> dval (m_data x) = uint (digitAt x 0) \<and> digitAt x 0 \<noteq> 0"
proof -
  assume t: "top 0 x"
  then have "dval (m_data x) mod digitBase ^ 1 = dval (take 1 (m_data x))" by (intro dval_mod_base_power) (auto simp: top_def Suc_le_eq)
  moreover have "take 1 (m_data x) = [digitAt x 0]" using t by (cases "m_data x") (auto simp: top_def digitAt_def)
  ultimately show ?thesis using t top_digit [OF t] by (simp add: top_def)
qed

lemma toStringChunks_step:
  assumes "divides_into x c (Some rest, ch)" and c: "uint c = int r ^ n" and r: "1 < r" "r \<le> 36"
    and t: "top nz x" "0 < nz" and p: "printed r D es (dval (m_data x))"
    and cont: "\<And>nz' fs. \<lbrakk>top nz' rest; 0 < nz'; printed r D fs (dval (m_data rest))\<rbrakk> \<Longrightarrow>
      outcome E (chunks_done r D) (toStringChunks fuel env c n (of_nat r) rest (QuotientIn rest) nz' (map (nth radixDigits) fs))"
  shows "outcome E (chunks_done r D) (let rest = the (Some rest); (chunk, resultString) = chunkLoop (of_nat r) n ch (map (nth radixDigits) es)
     in andThen (assertThat (chunk = 0)) (\<lambda>_.
        let nonZeroDigit = (if digitAt rest nz = 0 then nz - 1 else nz)
        in andThen (assertThat (digitAt rest nonZeroDigit \<noteq> 0)) (\<lambda>_.
           if nonZeroDigit > 0
           then toStringChunks fuel env c n (of_nat r) rest (QuotientIn rest) nonZeroDigit resultString
           else Inr (rest, resultString))))"
proof -
  obtain fs where fs: "chunkLoop (of_nat r) n ch (map (nth radixDigits) es) = (0, map (nth radixDigits) (es @ fs))"
      "printed r D (es @ fs) (dval (m_data rest))"
    using printed_chunk [OF assms(1) c r] printed_append [OF p] by (metis map_append)
  define nz' where "nz' = (if digitAt rest nz = 0 then nz - 1 else nz)"
  have "0 < uint c" using c r by simp
  then have t': "top nz' rest" unfolding nz'_def by (rule top_divided [OF t(1) assms(1) _ t(2)])
  show ?thesis
    unfolding fs(1) Let_def option.sel prod.case nz'_def [symmetric]
  proof (cases "nz' > 0")
    case True
    then show "outcome E (chunks_done r D) (andThen (assertThat (0 = (0 :: digit))) (\<lambda>_. andThen (assertThat (digitAt rest nz' \<noteq> 0)) (\<lambda>_.
        if nz' > 0 then toStringChunks fuel env c n (of_nat r) rest (QuotientIn rest) nz' (map (nth radixDigits) (es @ fs))
        else Inr (rest, map (nth radixDigits) (es @ fs)))))"
      using cont [OF t' True fs(2)] top_digit [OF t'] by simp
  next
    case False
    then have "dval (m_data rest) = uint (digitAt rest 0)" "digitAt rest 0 \<noteq> 0" using top_0 [of rest] t' by simp_all
    then show "outcome E (chunks_done r D) (andThen (assertThat (0 = (0 :: digit))) (\<lambda>_. andThen (assertThat (digitAt rest nz' \<noteq> 0)) (\<lambda>_.
        if nz' > 0 then toStringChunks fuel env c n (of_nat r) rest (QuotientIn rest) nz' (map (nth radixDigits) (es @ fs))
        else Inr (rest, map (nth radixDigits) (es @ fs)))))"
      using False fs(2) by (auto simp: chunks_done_def intro: exI [of _ "es @ fs"])
  qed
qed

lemma top_pos: "top nz x \<Longrightarrow> 1 \<le> dval (m_data x)"
proof -
  assume "top nz x"
  moreover have "1 \<le> digitBase ^ nz" by simp
  ultimately show ?thesis unfolding top_def by linarith
qed

lemma halved_below:
  assumes "divides_into x c (Some rest, ch)" and "1 < c" and "dval (m_data x) < 2 ^ Suc n"
  shows "dval (m_data rest) < 2 ^ n"
proof -
  have "1 < uint c" using assms(2) by (simp add: word_less_def)
  then have "dval (m_data x) div uint c \<le> dval (m_data x) div 2" by (intro zdiv_mono2) auto
  then show ?thesis using assms(1,3) by (auto simp: divides_into_def)
qed

lemma toStringChunks_inplace:
  assumes c: "uint c = int r ^ n" "1 < c" and r: "1 < r" "r \<le> 36"
    and "top nz x" and "0 < nz" and "printed r D es (dval (m_data x))" and "dval (m_data x) < 2 ^ fuel"
  shows "outcome E (chunks_done r D) (toStringChunks fuel env c n (of_nat r) x (QuotientIn x) nz (map (nth radixDigits) es))"
  using assms(5-)
proof (induction fuel arbitrary: x nz es)
  case 0
  then show ?case using top_pos [OF 0(1)] by simp
next
  case (Suc fuel)
  have "\<not> isZero x" using Suc.prems(1) by (auto simp: top_def isZero_def)
  from divide_round(2) [OF this c(2), of env] obtain rest ch where
    div: "absoluteDivWithDigitDivisor env x c (QuotientIn x) = Inr (Some rest, ch)" "divides_into x c (Some rest, ch)"
    by (auto simp: divides_into_def)
  have "dval (m_data rest) < 2 ^ fuel" by (rule halved_below [OF div(2) c(2) Suc.prems(4)])
  then show ?case
    unfolding toStringChunks.simps(2) div(1) andThen.simps prod.case
    by (intro toStringChunks_step [OF div(2) c(1) r Suc.prems(1-3)] Suc.IH)
qed

lemma toStringChunks_outcome:
  assumes c: "uint c = int r ^ n" "1 < c" and r: "1 < r" "r \<le> 36"
    and t: "top nz x" "0 < nz" and "dval (m_data x) < 2 ^ fuel"
  shows "outcome (oom env (bigLength x)) (chunks_done r (dval (m_data x)))
     (toStringChunks fuel env c n (of_nat r) x NewQuotient nz [])"
proof (cases fuel)
  case 0
  then show ?thesis using top_pos [OF t(1)] assms(7) by simp
next
  case (Suc f)
  have "\<not> isZero x" using t(1) by (auto simp: top_def isZero_def)
  note dr = divide_round(1) [OF this c(2), of env]
  show ?thesis
    unfolding Suc toStringChunks.simps(2)
  proof (rule oom_andThen [OF dr order_refl])
    fix qc assume "divides_into x c qc"
    then obtain rest ch where qc: "qc = (Some rest, ch)" "divides_into x c (Some rest, ch)" by (auto simp: divides_into_def)
    have small: "dval (m_data rest) < 2 ^ f" by (rule halved_below [OF qc(2) c(2)]) (use assms(7) Suc in simp)
    show "outcome (oom env (bigLength x)) (chunks_done r (dval (m_data x))) (case qc of (rest, chunk) \<Rightarrow>
        let rest = the rest; (chunk, resultString) = chunkLoop (of_nat r) n chunk []
        in andThen (assertThat (chunk = 0)) (\<lambda>_.
           let nonZeroDigit = (if digitAt rest nz = 0 then nz - 1 else nz)
           in andThen (assertThat (digitAt rest nonZeroDigit \<noteq> 0)) (\<lambda>_.
              if nonZeroDigit > 0
              then toStringChunks f env c n (of_nat r) rest (QuotientIn rest) nonZeroDigit resultString
              else Inr (rest, resultString))))"
      unfolding qc(1) prod.case
      using toStringChunks_step [OF qc(2) c(1) r t, of "dval (m_data x)" "[]" "oom env (bigLength x)" f env]
        toStringChunks_inplace [OF c r _ _ _ small] by (simp add: printed_def)
  qed
qed

text \<open>The estimate of the length: an over-approximation.\<close>

lemma maximumCharacters_eq:
  "calculateMaximumCharactersRequired len r d sign
     = ((len * 64 - clz d) * 32 + (maxBitsPerCharTable ! r - 1 - 1)) div (maxBitsPerCharTable ! r - 1) + of_bool sign"
  unfolding calculateMaximumCharactersRequired_def Let_def digitBits_def
  by (simp add: bitsPerCharTableMultiplier_def bitsPerCharTableShift_def)

lemma maximumCharacters_bound:
  assumes "canonical x" and r: "2 \<le> r" "r \<le> 36"
  shows "calculateMaximumCharactersRequired (bigLength x) r d sign \<le> maxStringLength"
proof -
  define bl where "bl = bigLength x * 64 - clz d"
  define k where "k = maxBitsPerCharTable ! r"
  have "bl \<le> maxLength * 64" unfolding bl_def using assms(1) by (intro diff_le_self [THEN order_trans]) (simp add: canonical_def)
  moreover have "(bl * 32 + (k - 1 - 1)) div (k - 1) \<le> bl * 32 + (k - 1 - 1)" by (rule div_le_dividend)
  moreover have "of_bool sign \<le> (1 :: nat)" by simp
  ultimately show ?thesis
    using maxBitsPerCharTable_entries(4) [OF r]
    unfolding maximumCharacters_eq bl_def [symmetric] k_def [symmetric] maxLength_eq maxStringLength_def by linarith
qed

lemma maximumCharacters_enough:
  fixes sign :: bool
  assumes x: "canonical x" "\<not> isZero x" and r: "2 \<le> r" "r \<le> 36"
    and p: "printed r (dval (m_data x)) es 0" and "es \<noteq> []" and "last es \<noteq> 0"
  defines "m \<equiv> calculateMaximumCharactersRequired (bigLength x) r (digitAt x (bigLength x - 1)) sign"
  shows "length es \<le> m"
proof -
  define bl where "bl = bigLength x * 64 - clz (digitAt x (bigLength x - 1))"
  define k where "k = maxBitsPerCharTable ! r"
  note bl = bitLength_bounds [OF x, folded bl_def]
  note tab = maxBitsPerCharTable_entries [OF r, folded k_def]
  note m = maximumCharacters_eq [of "bigLength x" r "digitAt x (bigLength x - 1)" sign, folded m_def bl_def k_def]
  define n where "n = length es - 1"
  have "r ^ n * 1 \<le> rval r es"
  proof -
    have "rval r es = rval r (butlast es) + r ^ n * last es"
      using rval_append [of r "butlast es" "[last es]"] assms(6) by (simp add: n_def)
    then show ?thesis using assms(7) by (simp add: trans_le_add2)
  qed
  moreover have "dval (m_data x) = int (rval r es)" using p by (simp add: printed_def)
  then have "rval r es < 2 ^ bl" using bl(1) by simp
  ultimately have rn: "r ^ n < 2 ^ bl" by linarith
  have "((2 :: nat) ^ (k - 1)) ^ n \<le> (r ^ 32) ^ n" using tab(1) by (rule power_mono) simp
  also have "\<dots> = (r ^ n) ^ 32" by (simp flip: power_mult add: mult.commute)
  also have "\<dots> < (2 ^ bl) ^ 32" using rn by (intro power_strict_mono) auto
  finally have "(2 :: nat) ^ ((k - 1) * n) < 2 ^ (bl * 32)" by (simp flip: power_mult)
  then have kn: "(k - 1) * n < bl * 32" by simp
  have "(k - 1) * (n + 1) \<le> bl * 32 + (k - 1 - 1)" using kn tab(3) by simp
  then have "n + 1 \<le> (bl * 32 + (k - 1 - 1)) div (k - 1)" using tab(3) by (simp add: less_eq_div_iff_mult_less_eq mult.commute)
  then show "length es \<le> m" using assms(6) by (simp add: m n_def)
qed

lemma sizeNoLeadingZeroes_id:
  assumes "s \<noteq> []" and "last s \<noteq> 0x30"
  shows "sizeNoLeadingZeroes s (length s) = length s"
  using assms by (cases "length s") (auto simp: last_conv_nth)

lemma toStringGeneric_finish:
  assumes x: "canonical x" "\<not> isZero x" and r: "2 \<le> r" "r \<le> 36"
    and p: "printed r (dval (m_data x)) es (uint d)" and d: "d \<noteq> 0"
  defines "m \<equiv> calculateMaximumCharactersRequired (bigLength x) r (digitAt x (bigLength x - 1)) (m_sign x)"
  shows "(let resultString = lastDigitLoop (of_nat r) d (map (nth radixDigits) es)
          in andThen (assertThat (length resultString \<noteq> 0)) (\<lambda>_.
             andThen (assertThat (length resultString \<le> m)) (\<lambda>_.
               let resultString = take (sizeNoLeadingZeroes resultString (length resultString)) resultString;
                   resultString = (if m_sign x then resultString @ [0x2D] else resultString)
               in Inr (rev resultString)))) = Inr (radixString r (bval x))"
proof -
  have ur: "unat (of_nat r :: digit) = r" "1 < (of_nat r :: digit)" using r by (simp_all add: unat_of_nat word_less_nat_alt)
  obtain fs where fs: "lastDigitLoop (of_nat r) d (map (nth radixDigits) es) = map (nth radixDigits) (es @ fs)"
      "\<forall>e\<in>set fs. e < r" "unat d = rval r fs" "fs \<noteq> []" "last fs \<noteq> 0"
    using lastDigitLoop_digits [OF ur(2) d, of "map (nth radixDigits) es"] ur(1) by auto
  have "uint d = int (rval r fs)" using fs(3) by (metis uint_nat)
  then have all: "printed r (dval (m_data x)) (es @ fs) 0"
    using printed_append [OF p, of fs 0] fs(2) by (simp add: printed_def)
  have ne: "es @ fs \<noteq> []" "last (es @ fs) \<noteq> 0" using fs(4,5) by simp_all
  have "last fs < 36" using fs(2,4) r(2) last_in_set [of fs] by fastforce
  then have "last (map (nth radixDigits) (es @ fs)) \<noteq> 0x30"
    using radixDigits_zero [of "last fs"] fs(4,5) by (simp add: last_map)
  then have sz: "sizeNoLeadingZeroes (map (nth radixDigits) (es @ fs)) (length (map (nth radixDigits) (es @ fs))) = length (es @ fs)"
    using ne(1) sizeNoLeadingZeroes_id [of "map (nth radixDigits) (es @ fs)"] by simp
  have "toRadix r (rval r (es @ fs)) = rev (es @ fs)"
    using all ne r by (intro toRadix_rval) (auto simp: printed_def)
  then have "radixString r (bval x) = (if m_sign x then [0x2D] else []) @ map (nth radixDigits) (rev (es @ fs))"
    using all canonical_sign [OF x(1)] by (simp add: radixString_def abs_bval printed_def)
  moreover have "length (es @ fs) \<le> m" unfolding m_def by (rule maximumCharacters_enough [OF x r all ne])
  ultimately show ?thesis
    unfolding fs(1) Let_def sz using ne(1) by (simp add: rev_map)
qed

lemma top_canonical: "canonical x \<Longrightarrow> \<not> isZero x \<Longrightarrow> top (bigLength x - 1) x"
  using dval_lower [of "m_data x"] dval_bound [of "m_data x"]
  by (auto simp: canonical_def isZero_def top_def)

lemma toStringGeneric_outcome:
  assumes x: "canonical x" "\<not> isZero x" and r: "2 \<le> r" "r \<le> 36" "\<not> hasOneBitSet (of_nat r :: 32 word)"
  shows "outcome (oom env (bigLength x)) (\<lambda>s. s = radixString r (bval x)) (toStringGeneric env x r)"
proof -
  define m where "m = calculateMaximumCharactersRequired (bigLength x) r (digitAt x (bigLength x - 1)) (m_sign x)"
  define n where "n = chunkCharsOf r"
  define c where "c = digitPow (of_nat r) (of_nat n)"
  define finish where "finish = (\<lambda>(d, s). let resultString = lastDigitLoop (of_nat r) d s
          in andThen (assertThat (length resultString \<noteq> 0)) (\<lambda>_.
             andThen (assertThat (length resultString \<le> m)) (\<lambda>_.
               let resultString = take (sizeNoLeadingZeroes resultString (length resultString)) resultString;
                   resultString = (if m_sign x then resultString @ [0x2D] else resultString)
               in Inr (rev resultString))))"
  have fin: "finish (d, map (nth radixDigits) es) = Inr (radixString r (bval x))"
    if "printed r (dval (m_data x)) es (uint d)" "d \<noteq> 0" for d es
    unfolding finish_def m_def prod.case by (rule toStringGeneric_finish [OF x r(1,2) that])
  have mle: "\<not> maxStringLength < m" unfolding m_def not_less by (rule maximumCharacters_bound [OF x(1) r(1,2)])
  have "n \<le> 64"
    using maxBitsPerCharTable_entries(3) [OF r(1,2)] div_le_mono2 [of 32 "maxBitsPerCharTable ! r" 2048]
    by (simp add: n_def chunkCharsOf_def digitBits_def bitsPerCharTableMultiplier_def bitsPerCharTableShift_def)
  then have "unat (of_nat n :: digit) = n" "uint (of_nat r :: digit) = int r"
    using r by (simp_all add: unat_of_nat unsigned_of_nat take_bit_eq_mod)
  moreover have "int (r ^ n) < int (2 ^ 64)" "int 2 \<le> int (r ^ n)"
    unfolding of_nat_less_iff of_nat_le_iff n_def by (rule chunkDivisor_bounds [OF r])+
  ultimately have c: "uint c = int r ^ n" "1 < c"
    by (simp_all add: c_def digitPow_law digitBase_num word_less_def)
  note T = top_canonical [OF x]
  have top: "digitAt x (bigLength x - 1) \<noteq> 0" using top_digit [OF T] by simp
  have dig: "outcome (oom env (bigLength x)) (\<lambda>(d, s). \<exists>es. s = map (nth radixDigits) es \<and> printed r (dval (m_data x)) es (uint d) \<and> d \<noteq> 0)
      (if bigLength x = 1 then Inr (digitAt x 0, [])
       else andThen (toStringChunks (bigLength x * digitBits) env c n (of_nat r) x NewQuotient (bigLength x - 1) [])
              (\<lambda>(rest, s). Inr (digitAt rest 0, s)))" (is "outcome _ ?P _")
  proof (cases "bigLength x = 1")
    case True
    then show ?thesis using top_0 [of x] T by (simp add: printed_def)
  next
    case False
    have "dval (m_data x) < 2 ^ (bigLength x * digitBits)"
      using dval_bound [of "m_data x"] by (simp add: digitBase_power_2 digitBits_def mult.commute)
    moreover have "0 < bigLength x - 1" using False T by (auto simp: top_def)
    ultimately have "outcome (oom env (bigLength x)) (chunks_done r (dval (m_data x)))
       (toStringChunks (bigLength x * digitBits) env c n (of_nat r) x NewQuotient (bigLength x - 1) [])"
      using r by (intro toStringChunks_outcome [OF c _ _ T]) auto
    then show ?thesis unfolding if_not_P [OF False]
      by (rule oom_andThen) (auto simp: chunks_done_def)
  qed
  have "c \<noteq> 0" using c(2) by auto
  then have eq: "toStringGeneric env x r = andThen (if bigLength x = 1 then Inr (digitAt x 0, [])
       else andThen (toStringChunks (bigLength x * digitBits) env c n (of_nat r) x NewQuotient (bigLength x - 1) [])
              (\<lambda>(rest, s). Inr (digitAt rest 0, s))) finish"
    unfolding toStringGeneric_def Let_def chunkCharsOf_def [symmetric] n_def [symmetric] c_def [symmetric] m_def [symmetric] finish_def
    using r x(2) mle top by (simp add: assertThat_def)
  show ?thesis unfolding eq by (rule oom_andThen [OF dig order_refl]) (auto simp: fin)
qed


lemma toStringBigInt_outcome:
  assumes "canonical x" and "2 \<le> radix" and "radix \<le> 36"
  shows "outcome (oom env (bigLength x)) (\<lambda>s. s = radixString radix (bval x)) (toStringBigInt env x radix)"
proof (cases "isZero x")
  case True
  then have "bval x = 0" by (simp add: isZero_def bval_def)
  then show ?thesis using True assms by (simp add: toStringBigInt_def radixString_def toRadix.simps [of radix 0] radixDigits_def)
next
  case False
  then show ?thesis
    using assms toStringBasePowerOfTwo_correct [of x radix env] toStringGeneric_outcome [of x radix env]
    by (auto simp: toStringBigInt_def)
qed


section \<open>The property\<close>

text \<open>
  C16. Printing a BigInt (JSBigInt::toString and JSBigInt::tryGetString): for every canonical BigInt and every
  radix from 2 to 36 the result is the text of its value in that radix, most significant digit first, in lower case,
  without leading zeros and with a minus sign for a negative value, on the path that drains bits as well as on the
  one that divides by a power of the radix. The only failure is that of the allocation of a BigInt as long as
  the operand.\<close>
theorem toString_correct:
  assumes "canonical x" and "2 \<le> radix" and "radix \<le> 36"
  shows "outcome (oom env (bigLength x)) (\<lambda>s. s = radixString radix (bval x)) (toStringBigInt env x radix)"
  using assms by (rule toStringBigInt_outcome)

text \<open>Witness: a two-digit negative value in base 10.\<close>
theorem toString_correct_witness:
  "toStringBigInt roomyHeap (negBig [255, 1]) 10
     = Inr (map (\<lambda>c. of_nat (of_char c)) ''-18446744073709551871'')"
proof -
  have "canonical (negBig [255, 1])" "bval (negBig [255, 1]) = - 18446744073709551871"
    by (simp_all add: example_simps)
  then have "outcome (oom roomyHeap 2) (\<lambda>s. s = radixString 10 (- 18446744073709551871)) (toStringBigInt roomyHeap (negBig [255, 1]) 10)"
    using toString_correct [of "negBig [255, 1]" 10 roomyHeap] by (simp add: numeral_2_eq_2)
  moreover have "radixString 10 (- 18446744073709551871) = map (\<lambda>c. of_nat (of_char c)) ''-18446744073709551871''"
    by (simp add: radixString_def radixDigits_def toRadix.simps)
  ultimately show ?thesis by (auto simp: oom_def roomyHeap_def grants_def maxLength_eq outcome_def split: sum.splits)
qed

end
