(* ===== verification/BigInt_Double.thy ===== *)
theory BigInt_Double
  imports BigInt_ToString
begin

text \<open>
  Doubles and their comparison with BigInts: \<^verbatim>\<open>compareToDouble\<close> and \<^verbatim>\<open>equalsToNumber\<close> of \<^verbatim>\<open>runtime/JSBigInt.cpp\<close>, and the alignment
  of a mantissa with digits that \<^verbatim>\<open>createFrom(double)\<close> shares with them. A double is its 64 bits, as \<^verbatim>\<open>bitwise_cast<uint64_t>\<close> gives them; its value is an integer when it is
  scaled by 2 to the power 1074, the inverse of the smallest positive double.
\<close>

unbundle bit_operations_syntax


section \<open>The bits of a double\<close>

type_synonym double = "64 word"

definition doublePhysicalMantissaSize :: nat where
  "doublePhysicalMantissaSize = 52"

definition doubleMantissaSize :: nat where
  "doubleMantissaSize = 53"

definition doublePhysicalMantissaMask :: "64 word" where
  "doublePhysicalMantissaMask = push_bit doublePhysicalMantissaSize 1 - 1"

definition doubleMantissaHiddenBit :: "64 word" where
  "doubleMantissaHiddenBit = push_bit doublePhysicalMantissaSize 1"

definition rawExponentOf :: "double \<Rightarrow> int" where
  "rawExponentOf doubleBits = uint (drop_bit doublePhysicalMantissaSize doubleBits AND 0x7FF)"

definition mantissaOf :: "double \<Rightarrow> 64 word" where
  "mantissaOf doubleBits = doubleBits AND doublePhysicalMantissaMask"

text \<open>The comparisons of the language with constants.\<close>

definition isNaN :: "double \<Rightarrow> bool" where
  "isNaN y \<longleftrightarrow> rawExponentOf y = 0x7FF \<and> mantissaOf y \<noteq> 0"

definition isZeroDouble :: "double \<Rightarrow> bool" where
  "isZeroDouble y \<longleftrightarrow> push_bit 1 y = 0"

definition lessThanZero :: "double \<Rightarrow> bool" where
  "lessThanZero y \<longleftrightarrow> bit y 63 \<and> \<not> isZeroDouble y \<and> \<not> isNaN y"

definition infinity :: "bool \<Rightarrow> double" where
  "infinity sign = (if sign then 0xFFF0000000000000 else 0x7FF0000000000000)"

definition isFinite :: "double \<Rightarrow> bool" where
  "isFinite y \<longleftrightarrow> rawExponentOf y \<noteq> 0x7FF"

text \<open>The value, scaled.\<close>

definition scale :: int where
  "scale = 2 ^ 1074"

definition magnitude :: "double \<Rightarrow> int" where
  "magnitude y = (if rawExponentOf y = 0 then uint (mantissaOf y) else (2 ^ 52 + uint (mantissaOf y)) * 2 ^ nat (rawExponentOf y - 1))"

definition scaledValue :: "double \<Rightarrow> int" where
  "scaledValue y = (if bit y 63 then - magnitude y else magnitude y)"

definition isIntegerDouble :: "double \<Rightarrow> bool" where
  "isIntegerDouble y \<longleftrightarrow> isFinite y \<and> scale dvd scaledValue y"


section \<open>Aligning a mantissa with digits\<close>

text \<open>
  The first digit, and the rest of the mantissa at the top of a word: the first component counts the bits of the mantissa in it.
\<close>

definition alignMantissa :: "64 word \<Rightarrow> int \<Rightarrow> int \<times> digit \<times> 64 word" where
  "alignMantissa mantissa msdTopBit =
     (let mantissaTopBit = int doubleMantissaSize - 1
      in if msdTopBit < mantissaTopBit
         then let remainingMantissaBits = mantissaTopBit - msdTopBit
              in (remainingMantissaBits, drop_bit (nat remainingMantissaBits) mantissa, push_bit (64 - nat remainingMantissaBits) mantissa)
         else (0, push_bit (nat (msdTopBit - mantissaTopBit)) mantissa, 0))"

text \<open>The next digit.\<close>

definition nextMantissaDigit :: "int \<Rightarrow> 64 word \<Rightarrow> int \<times> digit \<times> 64 word" where
  "nextMantissaDigit remainingMantissaBits mantissa =
     (if remainingMantissaBits > 0 then (remainingMantissaBits - int digitBits, mantissa, 0)
      else (remainingMantissaBits, 0, mantissa))"


section \<open>Comparing a BigInt with a double\<close>

text \<open>\<open>i\<close> digits are left to compare.\<close>

fun compareRest :: "jsBigInt \<Rightarrow> nat \<Rightarrow> int \<Rightarrow> 64 word \<Rightarrow> (js_error, ComparisonResult) result" where
  "compareRest x 0 remainingMantissaBits mantissa =
     (if mantissa \<noteq> 0
      then andThen (assertThat (remainingMantissaBits > 0)) (\<lambda>_. Inr (if m_sign x then GreaterThan else LessThan))
      else Inr Equal)"
| "compareRest x (Suc digitIndex) remainingMantissaBits mantissa =
     (case nextMantissaDigit remainingMantissaBits mantissa of
        (remainingMantissaBits, compareMantissa, mantissa) \<Rightarrow>
          let digit = digitAt x digitIndex
          in if digit > compareMantissa then Inr (if m_sign x then LessThan else GreaterThan)
             else if digit < compareMantissa then Inr (if m_sign x then GreaterThan else LessThan)
             else compareRest x digitIndex remainingMantissaBits mantissa)"

text \<open>The part after the signs are known to be equal and both numbers not to be zero.\<close>

definition compareMagnitudes :: "jsBigInt \<Rightarrow> double \<Rightarrow> (js_error, ComparisonResult) result" where
  "compareMagnitudes x y =
     (let xSign = m_sign x;
          mantissa = mantissaOf y;
          exponent = rawExponentOf y - 0x3FF
      in if exponent < 0 then Inr (if xSign then LessThan else GreaterThan)
      else let xLength = bigLength x;
               xMSD = digitAt x (xLength - 1);
               msdLeadingZeros = clz xMSD;
               xBitLength = int (xLength * digitBits) - int msdLeadingZeros;
               yBitLength = exponent + 1
      in if xBitLength < yBitLength then Inr (if xSign then GreaterThan else LessThan)
      else if xBitLength > yBitLength then Inr (if xSign then LessThan else GreaterThan)
      else let mantissa = mantissa OR doubleMantissaHiddenBit;
               msdTopBit = int digitBits - 1 - int msdLeadingZeros
      in andThen (assertThat (msdTopBit = (xBitLength - 1) mod int digitBits)) (\<lambda>_.
         case alignMantissa mantissa msdTopBit of
           (remainingMantissaBits, compareMantissa, mantissa) \<Rightarrow>
             if xMSD > compareMantissa then Inr (if xSign then LessThan else GreaterThan)
             else if xMSD < compareMantissa then Inr (if xSign then GreaterThan else LessThan)
             else compareRest x (xLength - 1) remainingMantissaBits mantissa))"

definition compareToDouble :: "jsBigInt \<Rightarrow> double \<Rightarrow> (js_error, ComparisonResult) result" where
  "compareToDouble x y =
     (let rawExponent = rawExponentOf y
      in if rawExponent = 0x7FF
         then Inr (if isNaN y then Undefined else if y = infinity False then LessThan else GreaterThan)
      else let xSign = m_sign x;
               ySign = lessThanZero y
      in if xSign \<noteq> ySign then Inr (if xSign then LessThan else GreaterThan)
      else if isZeroDouble y then andThen (assertThat (\<not> xSign)) (\<lambda>_. Inr (if isZero x then Equal else GreaterThan))
      else if isZero x then Inr LessThan
      else compareMagnitudes x y)"

datatype numberValue = Int32Value "32 word" | DoubleValue double

fun equalsToNumber :: "jsBigInt \<Rightarrow> numberValue \<Rightarrow> (js_error, bool) result" where
  "equalsToNumber x (Int32Value value) = Inr (equalsToInt32 x value)"
| "equalsToNumber x (DoubleValue value) = andThen (compareToDouble x value) (\<lambda>r. Inr (r = Equal))"


section \<open>The layout of a double\<close>

lemma double_layout:
  "uint (mantissaOf y) = uint y mod 2 ^ 52" "rawExponentOf y = uint y div 2 ^ 52 mod 2 ^ 11" "bit y 63 \<longleftrightarrow> 2 ^ 63 \<le> uint y"
proof -
  have "doublePhysicalMantissaMask = mask 52" by (simp add: doublePhysicalMantissaMask_def doublePhysicalMantissaSize_def mask_eq_exp_minus_1 push_bit_eq_mult)
  then show "uint (mantissaOf y) = uint y mod 2 ^ 52" using uint_and_mask [of 52 y] by (simp add: mantissaOf_def)
  have "(0x7FF :: 64 word) = mask 11" by (simp add: mask_eq_exp_minus_1)
  then show "rawExponentOf y = uint y div 2 ^ 52 mod 2 ^ 11"
    using uint_and_mask [of 11 "drop_bit 52 y"] by (simp add: rawExponentOf_def doublePhysicalMantissaSize_def uint_drop_bit)
  have "bit (uint y) 63 \<longleftrightarrow> bit y 63" by (simp add: bit_uint_iff)
  then have "bit y 63 \<longleftrightarrow> odd (uint y div 2 ^ 63)" unfolding bit_iff_odd [of "uint y"] by simp
  moreover have "uint y div 2 ^ 63 = (if 2 ^ 63 \<le> uint y then 1 else 0)" using uint_lt_64 [of y] uint_nonneg [of y] by auto
  ultimately show "bit y 63 \<longleftrightarrow> 2 ^ 63 \<le> uint y" by simp
qed

lemma mantissa_bound: "0 \<le> uint (mantissaOf y)" "uint (mantissaOf y) < 2 ^ 52"
  by (simp_all add: double_layout)

lemma exponent_bound: "0 \<le> rawExponentOf y" "rawExponentOf y < 2048"
  by (simp_all add: double_layout)

lemma with_hidden: "uint (mantissaOf y OR doubleMantissaHiddenBit) = 2 ^ 52 + uint (mantissaOf y)"
  using push_bit_or [of 52 "mantissaOf y" 1] mantissa_bound [of y]
  by (simp add: doubleMantissaHiddenBit_def doublePhysicalMantissaSize_def or.commute digitBase_num)

lemma magnitude_nonneg [simp]: "0 \<le> magnitude y"
  using mantissa_bound [of y] by (simp add: magnitude_def)

lemma magnitude_0_iff: "magnitude y = 0 \<longleftrightarrow> isZeroDouble y"
proof -
  have "magnitude y = 0 \<longleftrightarrow> rawExponentOf y = 0 \<and> uint (mantissaOf y) = 0" 
  proof (cases "rawExponentOf y = 0")
    case False
    have "0 < 2 ^ 52 + uint (mantissaOf y)" using mantissa_bound [of y] by linarith
    then show ?thesis using False by (simp add: magnitude_def)
  qed (simp add: magnitude_def)
  also have "\<dots> \<longleftrightarrow> uint y mod 2 ^ 63 = 0"
  proof -
    have "uint y mod 2 ^ 63 = uint y mod 2 ^ 52 + 2 ^ 52 * (uint y div 2 ^ 52 mod 2 ^ 11)" using zmod_zmult2_eq [of "2 ^ 11" "uint y" "2 ^ 52"] by simp
    moreover have "b = 0 \<and> a = 0 \<longleftrightarrow> a + 2 ^ 52 * b = 0" if "0 \<le> a" "0 \<le> b" for a b :: int using that by (auto simp: add_nonneg_eq_0_iff)
    ultimately show ?thesis using mantissa_bound(1) [of y] exponent_bound(1) [of y] unfolding double_layout by metis
  qed
  also have "\<dots> \<longleftrightarrow> isZeroDouble y"
  proof -
    have "2 * (uint y mod 2 ^ 63) = (2 * uint y) mod (2 * 2 ^ 63)" by (rule mult_mod_right)
    also have "\<dots> = uint (push_bit 1 y)" using uint_push_bit [of 1 y] by (simp only: mult.commute [of _ "2 ^ 1"]) simp
    finally have "uint (push_bit 1 y) = 0 \<longleftrightarrow> uint y mod 2 ^ 63 = 0" by (metis mult_eq_0_iff zero_neq_numeral)
    then show ?thesis unfolding isZeroDouble_def uint_0_iff [symmetric] by simp
  qed
  finally show ?thesis .
qed

lemma lessThanZero_iff: "isFinite y \<Longrightarrow> lessThanZero y \<longleftrightarrow> scaledValue y < 0"
proof -
  assume "isFinite y"
  moreover have "0 < magnitude y \<longleftrightarrow> \<not> isZeroDouble y" using magnitude_0_iff [of y] magnitude_nonneg [of y] by linarith
  ultimately show ?thesis using magnitude_nonneg [of y] by (cases "bit y 63") (simp_all add: lessThanZero_def isFinite_def isNaN_def scaledValue_def not_less)
qed

lemma scaledValue_0_iff: "scaledValue y = 0 \<longleftrightarrow> isZeroDouble y"
  by (simp add: scaledValue_def magnitude_0_iff)

text \<open>A double with exponent \<open>e\<close> lies between two powers of two; its mantissa cut at the digit boundaries.\<close>

lemma magnitude_normal:
  assumes "1023 \<le> rawExponentOf y" and "e = nat (rawExponentOf y - 1023)"
  shows "magnitude y = (2 ^ 52 + uint (mantissaOf y)) * 2 ^ (e + 1022)" and "2 ^ e * scale \<le> magnitude y" and "magnitude y < 2 ^ (e + 1) * scale"
proof -
  have "nat (rawExponentOf y - 1) = e + 1022" using assms by simp
  then show m: "magnitude y = (2 ^ 52 + uint (mantissaOf y)) * 2 ^ (e + 1022)" using assms(1) by (simp add: magnitude_def)
  have "e + 1074 = 52 + (e + 1022)" "e + 1 + 1074 = 53 + (e + 1022)" by simp_all
  then have s: "2 ^ e * scale = 2 ^ 52 * 2 ^ (e + 1022)" "2 ^ (e + 1) * scale = 2 ^ 53 * 2 ^ (e + 1022)" unfolding scale_def power_add [symmetric] by metis+
  show "2 ^ e * scale \<le> magnitude y" "magnitude y < 2 ^ (e + 1) * scale"
    unfolding m s using mantissa_bound [of y] by (auto intro!: mult_right_mono mult_strict_right_mono)
qed

lemma magnitude_small: "rawExponentOf y < 1023 \<Longrightarrow> magnitude y < scale"
proof -
  assume small: "rawExponentOf y < 1023"
  show ?thesis
  proof (cases "rawExponentOf y = 0")
    case True
    then have "magnitude y < 2 ^ 52" using mantissa_bound [of y] by (simp add: magnitude_def)
    also have "\<dots> \<le> scale" unfolding scale_def by (rule power_increasing) simp_all
    finally show ?thesis .
  next
    case False
    then have "magnitude y < 2 ^ 53 * 2 ^ nat (rawExponentOf y - 1)" using mantissa_bound [of y] by (simp add: magnitude_def)
    also have "\<dots> = 2 ^ (53 + nat (rawExponentOf y - 1))" by (simp add: power_add)
    also have "\<dots> \<le> scale" unfolding scale_def using small by (intro power_increasing) simp_all
    finally show ?thesis .
  qed
qed

lemma alignMantissa_digits:
  assumes m: "2 ^ 52 \<le> uint m" "uint m < 2 ^ 53" and t: "0 \<le> t" "t < 64" and a: "alignMantissa m t = (r, d, rest)"
  shows "uint d * digitBase + uint rest = uint m * 2 ^ (nat t + 12)" and "r \<le> 0 \<Longrightarrow> rest = 0" and "2 ^ nat t \<le> uint d"
proof -
  have "uint d * digitBase + uint rest = uint m * 2 ^ (nat t + 12) \<and> (r \<le> 0 \<longrightarrow> rest = 0)"
  proof (cases "t < 52")
    case True
    have s: "64 - nat (52 - t) = nat t + 12" "64 - (nat t + 12) = nat (52 - t)" using True t by auto
    have "r = 52 - t" "d = drop_bit (nat (52 - t)) m" "rest = push_bit (nat t + 12) m"
      using a True by (auto simp: alignMantissa_def doubleMantissaSize_def Let_def s)
    moreover have "uint m * 2 ^ (nat t + 12) mod digitBase + digitBase * (uint m div 2 ^ nat (52 - t)) = uint m * 2 ^ (nat t + 12)"
      using shifted_digit_split(1) [of "nat t + 12" m] True t unfolding s(2) by simp
    moreover have "(2 :: int) ^ LENGTH(64) = digitBase" by (simp add: digitBase_def)
    ultimately show ?thesis using True by (simp only: uint_drop_bit uint_push_bit mult.commute [of _ digitBase] add.commute) simp
  next
    case False
    have "uint m * 2 ^ nat (t - 52) < 2 ^ 53 * 2 ^ nat (t - 52)" using m by simp
    also have "\<dots> \<le> 2 ^ 64" unfolding power_add [symmetric] using t False by (intro power_increasing) auto
    finally have "uint (push_bit (nat (t - 52)) m) = uint m * 2 ^ nat (t - 52)" using m by (simp add: uint_push_bit)
    moreover have "nat t + 12 = nat (t - 52) + 64" using False by simp
    ultimately show ?thesis using a False by (auto simp: alignMantissa_def doubleMantissaSize_def Let_def digitBase_def power_add)
  qed
  then show e: "uint d * digitBase + uint rest = uint m * 2 ^ (nat t + 12)" and "r \<le> 0 \<Longrightarrow> rest = 0" by auto
  have "nat t + 64 = 52 + (nat t + 12)" by simp
  then have "2 ^ nat t * digitBase = 2 ^ 52 * 2 ^ (nat t + 12)" unfolding digitBase_def power_add [symmetric] by metis
  also have "\<dots> \<le> uint m * 2 ^ (nat t + 12)" using m(1) by (intro mult_right_mono) auto
  also have "\<dots> < (uint d + 1) * digitBase" using e uint_lt_64 [of rest] by (simp add: digitBase_num algebra_simps)
  finally show "2 ^ nat t \<le> uint d" by simp
qed

section \<open>Comparison with a double\<close>

definition sided :: "jsBigInt \<Rightarrow> ComparisonResult \<Rightarrow> ComparisonResult" where
  "sided x r = (if m_sign x then invertBigIntCompareResult r else r)"

lemma comparison_neg: "comparison (- a) (- b) = invertBigIntCompareResult (comparison a b)"
  by (auto simp: comparison_def)

lemma comparison_less [simp]: "a < b \<Longrightarrow> comparison a b = LessThan" "b < a \<Longrightarrow> comparison a b = GreaterThan"
  by (auto simp: comparison_def)

lemma comparison_scale: "0 < k \<Longrightarrow> comparison (a * k) (b * k) = comparison a b"
  by (auto simp: comparison_def)

lemma sided_simps [simp]:
  "sided x LessThan = (if m_sign x then GreaterThan else LessThan)" "sided x GreaterThan = (if m_sign x then LessThan else GreaterThan)" "sided x Equal = Equal"
  by (auto simp: sided_def)

text \<open>One digit decides, unless it is equal.\<close>

lemma comparison_digit:
  assumes "0 \<le> low" and "low < digitBase ^ i" and "0 \<le> rest" and "rest < digitBase"
  shows "comparison ((low + digitBase ^ i * d) * digitBase) ((m * digitBase + rest) * digitBase ^ i) =
    (if d > m then GreaterThan else if d < m then LessThan else comparison (low * digitBase) (rest * digitBase ^ i))"
proof -
  let ?B = "digitBase ^ i * digitBase"
  have p: "0 < digitBase ^ i" by simp
  have l: "0 \<le> low * digitBase" "low * digitBase < ?B" using assms(1,2) by simp_all
  have r: "0 \<le> rest * digitBase ^ i" "rest * digitBase ^ i < ?B" using assms(3,4) p by (simp_all add: mult.commute [of rest])
  have e: "(low + digitBase ^ i * d) * digitBase = low * digitBase + ?B * d" "(m * digitBase + rest) * digitBase ^ i = rest * digitBase ^ i + ?B * m"
    by (simp_all add: algebra_simps)
  have step: "?B * b + ?B \<le> ?B * a" if "b < a" for a b :: int
  proof -
    have "?B * (b + 1) \<le> ?B * a" using that by (intro mult_left_mono) auto
    then show ?thesis by (simp add: distrib_left)
  qed
  consider "m < d" | "d < m" | "d = m" by linarith
  then show ?thesis
  proof cases
    case 1
    have "rest * digitBase ^ i + ?B * m < low * digitBase + ?B * d" using step [OF 1] l r by linarith
    then show ?thesis using 1 unfolding e by simp
  next
    case 2
    have "low * digitBase + ?B * d < rest * digitBase ^ i + ?B * m" using step [OF 2] l r by linarith
    then show ?thesis using 2 unfolding e by simp
  next
    case 3
    then show ?thesis unfolding e by (simp add: comparison_def)
  qed
qed

lemma compareRest_correct:
  assumes "r \<le> 0 \<Longrightarrow> m = 0" and "i \<le> bigLength x"
  shows "compareRest x i r m = Inr (sided x (comparison (dval (take i (m_data x)) * digitBase) (uint m * digitBase ^ i)))"
  using assms
proof (induction i arbitrary: r m)
  case 0
  show ?case
  proof (cases "m = 0")
    case True
    then show ?thesis by (simp add: comparison_def)
  next
    case False
    then have "0 < r" using "0.prems"(1) by linarith
    then show ?thesis using False uint_ge_1 [OF False] by simp
  qed
next
  case (Suc i)
  obtain r' where n: "nextMantissaDigit r m = (r', m, 0)" using Suc.prems(1) by (cases "r > 0") (auto simp: nextMantissaDigit_def)
  let ?low = "dval (take i (m_data x))" and ?d = "digitAt x i"
  have take: "dval (take (Suc i) (m_data x)) = ?low + digitBase ^ i * uint ?d" using Suc.prems(2) by (simp add: dval_take_Suc digitAt_def)
  have low: "0 \<le> ?low" "?low < digitBase ^ i" using dval_bound [of "take i (m_data x)"] Suc.prems(2) by (simp_all add: min_absorb2)
  have c: "comparison (dval (take (Suc i) (m_data x)) * digitBase) (uint m * digitBase ^ Suc i) =
      (if uint ?d > uint m then GreaterThan else if uint ?d < uint m then LessThan else comparison (?low * digitBase) 0)"
    using comparison_digit [OF low, of 0 "uint ?d" "uint m"] unfolding take power_Suc mult.assoc [symmetric] by simp
  show ?case
    using Suc.IH [of r' 0] Suc.prems(2) n unfolding c by (auto simp: word_less_def Let_def)
qed

lemma compareMagnitudes_correct:
  assumes x: "canonical x" "\<not> isZero x"
  shows "compareMagnitudes x y = Inr (sided x (comparison (dval (m_data x) * scale) (magnitude y)))"
proof (cases "rawExponentOf y < 1023")
  case True
  have "1 \<le> dval (m_data x)" using canonical_dval_pos [OF x] by simp
  then have "scale \<le> dval (m_data x) * scale" by (simp add: scale_def)
  then show ?thesis using True magnitude_small [OF True] by (simp add: compareMagnitudes_def)
next
  case False
  define n e z t where "n = bigLength x - 1" and "e = nat (rawExponentOf y - 1023)" and "z = clz (digitAt x (bigLength x - 1))" and "t = 63 - int z"
  have zn: "clz (digitAt x n) = z" by (simp add: z_def n_def)
  let ?msd = "digitAt x n" and ?D = "dval (m_data x)"
  have ne: "m_data x \<noteq> []" using x(2) by (auto simp: isZero_def)
  then have len: "bigLength x = Suc n" by (simp add: n_def)
  have msd: "?msd = last (m_data x)" "?msd \<noteq> 0" using x ne by (auto simp: n_def digitAt_def last_conv_nth canonical_def)
  have z: "z < 64" using clz_normalises(1) [OF msd(2)] by (simp add: z_def n_def)
  define bl where "bl = bigLength x * 64 - z"
  note bl = bitLength_bounds [OF x, folded z_def, folded bl_def]
  have blI: "int (bigLength x * digitBits) - int z = int bl" using z by (simp add: bl_def len digitBits_def)
  have E: "rawExponentOf y - 1023 = int e" using False by (simp add: e_def)
  note mag = magnitude_normal [OF _ e_def]
  have sc: "0 < scale" by (simp add: scale_def)
  consider "bl < e + 1" | "bl > e + 1" | "bl = e + 1" by linarith
  then show ?thesis
  proof cases
    case 1
    have "?D * scale < 2 ^ bl * scale" using bl(1) sc by simp
    also have "\<dots> \<le> 2 ^ e * scale" using 1 sc by (simp add: power_increasing)
    also have "\<dots> \<le> magnitude y" using mag(2) False by simp
    finally show ?thesis using 1 unfolding compareMagnitudes_def Let_def z_def [symmetric] blI E by simp
  next
    case 2
    have "magnitude y < 2 ^ (e + 1) * scale" using mag(3) False by simp
    also have "\<dots> \<le> 2 ^ (bl - 1) * scale" using 2 sc by (intro mult_right_mono power_increasing) auto
    also have "\<dots> \<le> ?D * scale" using bl(2) sc by simp
    finally show ?thesis using 2 unfolding compareMagnitudes_def Let_def z_def [symmetric] blI E by simp
  next
    case 3
    have t: "0 \<le> t" "t < 64" "e = 64 * n + nat t" using z 3 by (auto simp: t_def bl_def len)
    have eq: "int bl - 1 = t + int n * int digitBits" using t 3 by (simp add: digitBits_def)
    have "(int bl - 1) mod int digitBits = t" unfolding eq using t(1,2) by (simp add: digitBits_def)
    then have top: "int digitBits - 1 - int z = t" "t = (int bl - 1) mod int digitBits" by (simp_all add: t_def digitBits_def)
    let ?m = "mantissaOf y OR doubleMantissaHiddenBit"
    obtain r d rest where al: "alignMantissa ?m t = (r, d, rest)" by (metis prod.exhaust)
    have mb: "2 ^ 52 \<le> uint ?m" "uint ?m < 2 ^ 53" using mantissa_bound [of y] unfolding with_hidden by auto
    note ad = alignMantissa_digits [OF mb t(1,2) al]
    have low: "0 \<le> dval (take n (m_data x))" "dval (take n (m_data x)) < digitBase ^ n" using dval_bound [of "take n (m_data x)"] len by (simp_all add: min_absorb2)
    have D: "?D = dval (take n (m_data x)) + digitBase ^ n * uint ?msd" using dval_take_Suc [of n "m_data x"] len by (simp add: digitAt_def)
    have "e + 1022 = nat t + 12 + (64 * n + 1010)" using t(3) by simp
    then have "magnitude y = uint ?m * 2 ^ (nat t + 12) * (digitBase ^ n * 2 ^ 1010)"
      using mag(1) False unfolding with_hidden digitBase_power_2 by (simp only: power_add mult.assoc not_less)
    then have my: "magnitude y = (uint d * digitBase + uint rest) * digitBase ^ n * 2 ^ 1010" unfolding ad(1) by (simp only: mult.assoc)
    have "scale = digitBase * 2 ^ 1010" unfolding scale_def digitBase_def by (simp flip: power_add)
    then have "comparison (?D * scale) (magnitude y) = comparison (?D * digitBase * 2 ^ 1010) ((uint d * digitBase + uint rest) * digitBase ^ n * 2 ^ 1010)"
      unfolding my by (simp only: mult.assoc)
    also have "\<dots> = comparison (?D * digitBase) ((uint d * digitBase + uint rest) * digitBase ^ n)" by (rule comparison_scale) simp
    also have "\<dots> = (if uint ?msd > uint d then GreaterThan else if uint ?msd < uint d then LessThan else comparison (dval (take n (m_data x)) * digitBase) (uint rest * digitBase ^ n))"
      unfolding D by (rule comparison_digit [OF low uint_nonneg uint_less_digitBase])
    finally have c: "comparison (?D * scale) (magnitude y) = \<dots>" .
    have "compareRest x n r rest = Inr (sided x (comparison (dval (take n (m_data x)) * digitBase) (uint rest * digitBase ^ n)))"
      using ad(2) len by (intro compareRest_correct) auto
    then show ?thesis
      unfolding compareMagnitudes_def Let_def n_def [symmetric] zn blI E c top(1) using 3 top(2) al by (simp add: word_less_def)
  qed
qed

lemma compareToDouble_finite:
  assumes x: "canonical x" and y: "isFinite y"
  shows "compareToDouble x y = Inr (comparison (bval x * scale) (scaledValue y))"
proof -
  have sc: "0 < scale" by (simp add: scale_def)
  have sx: "m_sign x \<longleftrightarrow> bval x * scale < 0" using canonical_sign [OF x] sc by (simp add: mult_less_0_iff)
  have sy: "lessThanZero y \<longleftrightarrow> scaledValue y < 0" by (rule lessThanZero_iff [OF y])
  have zx: "isZero x \<longleftrightarrow> bval x * scale = 0" using canonical_bval_0 [OF x] sc by simp
  have fin: "rawExponentOf y \<noteq> 0x7FF" using y by (simp add: isFinite_def)
  show ?thesis
  proof (cases "m_sign x = lessThanZero y \<and> \<not> isZeroDouble y \<and> \<not> isZero x")
    case True
    then have "comparison (bval x * scale) (scaledValue y) = sided x (comparison (dval (m_data x) * scale) (magnitude y))"
      using comparison_neg [of "dval (m_data x) * scale" "magnitude y"] y
      by (simp add: sided_def bval_def scaledValue_def lessThanZero_def isNaN_def isFinite_def)
    then show ?thesis using True compareMagnitudes_correct [OF x, of y] fin by (simp add: compareToDouble_def Let_def)
  next
    case False
    then show ?thesis using sx sy zx scaledValue_0_iff [of y] fin by (auto simp: compareToDouble_def Let_def comparison_def assertThat_def)
  qed
qed

lemma infinite_sign: "\<not> isFinite y \<Longrightarrow> \<not> isNaN y \<Longrightarrow> bit y 63 \<longleftrightarrow> y \<noteq> infinity False"
proof -
  assume that: "\<not> isFinite y" "\<not> isNaN y"
  have e: "uint y div 2 ^ 52 mod 2 ^ 11 = 2047" and m: "uint y mod 2 ^ 52 = 0"
    using that unfolding isFinite_def isNaN_def double_layout(2) [symmetric] double_layout(1) [symmetric] by (simp_all add: uint_0_iff)
  have d: "uint y = 2 ^ 63 * (uint y div 2 ^ 63) + uint y mod 2 ^ 63" by simp
  have "uint y mod 2 ^ 63 = 2 ^ 52 * (uint y div 2 ^ 52 mod 2 ^ 11) + uint y mod 2 ^ 52" using zmod_zmult2_eq [of "2 ^ 11" "uint y" "2 ^ 52"] by simp
  then have l: "uint y mod 2 ^ 63 = 9218868437227405312" unfolding e m by simp
  have "uint y div 2 ^ 63 = (if bit y 63 then 1 else 0)" using uint_lt_64 [of y] uint_nonneg [of y] unfolding double_layout(3) by auto
  then have "uint y = (if bit y 63 then 18442240474082181120 else 9218868437227405312)" using d unfolding l by simp
  then show ?thesis by (auto simp: infinity_def word_uint_eq_iff)
qed

text \<open>The comparison of an integer with a double.\<close>

definition exactComparison :: "int \<Rightarrow> double \<Rightarrow> ComparisonResult" where
  "exactComparison v y = (if isFinite y then comparison (v * scale) (scaledValue y) else if isNaN y then Undefined else if bit y 63 then GreaterThan else LessThan)"

lemma compareToDouble_exact: "canonical x \<Longrightarrow> compareToDouble x y = Inr (exactComparison (bval x) y)"
  using compareToDouble_finite [of x y] infinite_sign [of y] by (auto simp: exactComparison_def compareToDouble_def isFinite_def)

lemma exactComparison_Equal: "exactComparison v y = Equal \<longleftrightarrow> isFinite y \<and> v * scale = scaledValue y"
  by (auto simp: exactComparison_def comparison_def)

text \<open>
  C34. \<^verbatim>\<open>compareToDouble\<close> compares the exact values, for every BigInt and every double: finite doubles are compared with their fraction, the
  two zeros are equal, the infinities are beyond every BigInt, and NaN is not comparable. \<^verbatim>\<open>equalsToNumber\<close> tests exact equality.
\<close>

theorem compareToDouble_correct:
  assumes "canonical x"
  shows "compareToDouble x y = Inr (if isFinite y then comparison (bval x * scale) (scaledValue y)
      else if isNaN y then Undefined else if bit y 63 then GreaterThan else LessThan)
    \<and> equalsToNumber x (DoubleValue y) = Inr (isFinite y \<and> bval x * scale = scaledValue y)
    \<and> equalsToNumber x (Int32Value w) = Inr (bval x = sint w)"
proof -
  have "equalsToNumber x (DoubleValue y) = Inr (isFinite y \<and> bval x * scale = scaledValue y)"
    unfolding equalsToNumber.simps compareToDouble_exact [OF assms] by (simp add: exactComparison_Equal)
  then show ?thesis using compareToDouble_exact [OF assms, of y] equalsToInt32_iff [OF assms, of w] by (simp add: exactComparison_def)
qed

text \<open>3 and 2.5, the latter by its bits.\<close>

lemma five_halves: "isFinite 0x4004000000000000" "scaledValue 0x4004000000000000 < 3 * scale"
  by (simp_all add: isFinite_def scaledValue_def magnitude_def rawExponentOf_def mantissaOf_def doublePhysicalMantissaMask_def
      doublePhysicalMantissaSize_def scale_def bit_iff_odd)

theorem compareToDouble_correct_witness:
  "compareToDouble (posBig [3]) 0x4004000000000000 = Inr GreaterThan \<and> equalsToNumber (posBig [3]) (DoubleValue 0x4004000000000000) = Inr False
    \<and> equalsToNumber (posBig [3]) (Int32Value 3) = Inr True"
proof -
  have "canonical (posBig [3])" "bval (posBig [3]) = 3" by (simp_all add: example_simps)
  then show ?thesis using compareToDouble_correct [of "posBig [3]" "0x4004000000000000" 3] five_halves by simp
qed

end
