(* ===== verification/BigInt_ToNumber.thy ===== *)
theory BigInt_ToNumber
  imports BigInt_Double
begin

text \<open>
  Conversions between BigInts and numbers: \<^verbatim>\<open>createFrom(double)\<close>, \<^verbatim>\<open>decideRounding\<close> and \<^verbatim>\<open>toNumberHeap\<close> of \<^verbatim>\<open>runtime/JSBigInt.cpp\<close>.
  The number that \<^verbatim>\<open>toNumberHeap\<close> returns is given by the bits of the double; \<^verbatim>\<open>jsNumber\<close> may box the same value as an int32.
\<close>

unbundle bit_operations_syntax


section \<open>From a double to a BigInt\<close>

text \<open>\<open>n\<close> digits are left to fill.\<close>

fun fillDigits :: "nat \<Rightarrow> int \<Rightarrow> 64 word \<Rightarrow> jsBigInt \<Rightarrow> jsBigInt" where
  "fillDigits 0 remainingMantissaBits mantissa result = result"
| "fillDigits (Suc digitIndex) remainingMantissaBits mantissa result =
     (case nextMantissaDigit remainingMantissaBits mantissa of
        (remainingMantissaBits, digit, mantissa) \<Rightarrow>
          fillDigits digitIndex remainingMantissaBits mantissa (setDigit result digitIndex digit))"

definition createFromDouble :: "js_env \<Rightarrow> double \<Rightarrow> (js_error, jsBigInt) result" where
  "createFromDouble env value =
     andThen (assertThat (isIntegerDouble value)) (\<lambda>_.
     if isZeroDouble value then createZero env
     else let sign = lessThanZero value;
              rawExponent = rawExponentOf value
       in andThen (assertThat (rawExponent \<noteq> 0x7FF)) (\<lambda>_.
          andThen (assertThat (rawExponent \<ge> 0x3FF)) (\<lambda>_.
          let exponent = rawExponent - 0x3FF;
              digits = nat (exponent div int digitBits + 1)
          in andThen (createWithLength env digits) (\<lambda>result.
             let result = setSign (initializeWithZero result) sign;
                 mantissa = mantissaOf value OR doubleMantissaHiddenBit;
                 msdTopBit = exponent mod int digitBits
             in case alignMantissa mantissa msdTopBit of
                  (remainingMantissaBits, digit, mantissa) \<Rightarrow>
                    rightTrim env (fillDigits (digits - 1) remainingMantissaBits mantissa (setDigit result (digits - 1) digit))))))"


section \<open>From a BigInt to a double\<close>

datatype RoundingResult = RoundDown | Tie | RoundUp

text \<open>\<^verbatim>\<open>while (digitIndex > 0)\<close>: is any digit below the index set?\<close>

fun anyDigitBelow :: "jsBigInt \<Rightarrow> nat \<Rightarrow> bool" where
  "anyDigitBelow x 0 = False"
| "anyDigitBelow x (Suc digitIndex) = (digitAt x digitIndex \<noteq> 0 \<or> anyDigitBelow x digitIndex)"

definition roundingBits :: "jsBigInt \<Rightarrow> nat \<Rightarrow> nat \<Rightarrow> 64 word \<Rightarrow> RoundingResult" where
  "roundingBits bigInt topUnconsumedBit digitIndex currentDigit =
     (let bitmask = push_bit topUnconsumedBit 1
      in if currentDigit AND bitmask = 0 then RoundDown
         else let bitmask = bitmask - 1
           in if currentDigit AND bitmask \<noteq> 0 then RoundUp
              else if anyDigitBelow bigInt digitIndex then RoundUp else Tie)"

definition decideRounding :: "jsBigInt \<Rightarrow> int \<Rightarrow> nat \<Rightarrow> 64 word \<Rightarrow> RoundingResult" where
  "decideRounding bigInt mantissaBitsUnset digitIndex currentDigit =
     (if mantissaBitsUnset > 0 then RoundDown
      else if mantissaBitsUnset < 0 then roundingBits bigInt (nat (- mantissaBitsUnset - 1)) digitIndex currentDigit
      else if digitIndex = 0 then RoundDown
      else roundingBits bigInt (digitBits - 1) (digitIndex - 1) (digitAt bigInt (digitIndex - 1)))"

definition combineDouble :: "bool \<Rightarrow> nat \<Rightarrow> 64 word \<Rightarrow> (js_error, double) result" where
  "combineDouble sign exponent mantissa =
     (let signBit = (if sign then push_bit 63 1 else 0);
          exponent = push_bit doublePhysicalMantissaSize (of_nat (exponent + 0x3FF));
          doubleBits = signBit OR exponent OR mantissa
      in andThen (assertThat (doubleBits AND push_bit 63 1 = signBit)) (\<lambda>_.
         andThen (assertThat (doubleBits AND push_bit 52 0x7FF = exponent)) (\<lambda>_.
         andThen (assertThat (doubleBits AND (push_bit 52 1 - 1) = mantissa)) (\<lambda>_.
         Inr doubleBits))))"

definition roundMantissa :: "jsBigInt \<Rightarrow> nat \<Rightarrow> 64 word \<Rightarrow> int \<Rightarrow> nat \<Rightarrow> 64 word \<Rightarrow> (js_error, double) result" where
  "roundMantissa bigInt exponent mantissa mantissaBitsUnset digitIndex currentDigit =
     (let sign = m_sign bigInt;
          rounding = decideRounding bigInt mantissaBitsUnset digitIndex currentDigit
      in if rounding = RoundUp \<or> rounding = Tie \<and> mantissa AND 1 = 1
         then let mantissa = mantissa + 1
              in if drop_bit doublePhysicalMantissaSize mantissa \<noteq> 0
                 then let exponent = exponent + 1
                      in if exponent > 1023 then Inr (infinity sign) else combineDouble sign exponent 0
                 else combineDouble sign exponent mantissa
         else combineDouble sign exponent mantissa)"

definition toNumberHeap :: "jsBigInt \<Rightarrow> (js_error, double) result" where
  "toNumberHeap bigInt =
     (if isZero bigInt then Inr 0
      else let len = bigLength bigInt;
               msd = digitAt bigInt (len - 1);
               msdLeadingZeros = clz msd;
               bitLength = len * digitBits - msdLeadingZeros
      in if bitLength > 1024 then Inr (infinity (m_sign bigInt))
      else let exponent = bitLength - 1;
               digitIndex = len - 1;
               shiftAmount = msdLeadingZeros + 1
      in andThen (assertThat (1 \<le> shiftAmount)) (\<lambda>_.
         andThen (assertThat (shiftAmount \<le> 64)) (\<lambda>_.
         let mantissa = drop_bit 12 (if shiftAmount = 64 then 0 else push_bit shiftAmount msd);
             mantissaBitsUnset = int shiftAmount - 12
         in if mantissaBitsUnset > 0 \<and> digitIndex > 0
            then andThen (assertThat (mantissaBitsUnset < int digitBits)) (\<lambda>_.
                 let digitIndex = digitIndex - 1;
                     currentDigit = digitAt bigInt digitIndex;
                     mantissa = mantissa OR drop_bit (digitBits - nat mantissaBitsUnset) currentDigit
                 in roundMantissa bigInt exponent mantissa (mantissaBitsUnset - int digitBits) digitIndex currentDigit)
            else roundMantissa bigInt exponent mantissa mantissaBitsUnset digitIndex msd)))"


section \<open>A double that is an integer\<close>

lemma setDigit_same: "i < bigLength x \<Longrightarrow> digitAt x i = d \<Longrightarrow> setDigit x i d = x"
  by (cases x) (auto simp: setDigit_def digitAt_def)

lemma fillDigits_zero:
  assumes "r \<le> 0 \<Longrightarrow> m = 0" and "n < bigLength x" and "\<And>i. i < n \<Longrightarrow> digitAt x i = 0"
  shows "fillDigits n r m x = (if n = 0 then x else setDigit x (n - 1) m)"
  using assms
proof (induction n arbitrary: r m x)
  case (Suc n)
  obtain r' where next_digit: "nextMantissaDigit r m = (r', m, 0)" using Suc.prems(1) by (cases "r > 0") (auto simp: nextMantissaDigit_def)
  let ?x = "setDigit x n m"
  have z: "digitAt ?x i = 0" if "i < n" for i using that Suc.prems(2,3) by (simp add: digitAt_def setDigit_def)
  have "fillDigits n r' 0 ?x = (if n = 0 then ?x else setDigit ?x (n - 1) 0)" using Suc.prems(2) z by (intro Suc.IH) auto
  also have "\<dots> = ?x" using Suc.prems(2) z by (auto intro: setDigit_same)
  finally show ?case by (simp add: next_digit)
qed simp

lemma isIntegerDouble_value:
  assumes "isIntegerDouble y" and "\<not> isZeroDouble y"
  obtains v where "scaledValue y = v * scale" and "v \<noteq> 0" and "magnitude y = \<bar>v\<bar> * scale" and "lessThanZero y \<longleftrightarrow> v < 0" and "1023 \<le> rawExponentOf y"
proof -
  obtain v where v: "scaledValue y = v * scale" using assms(1) unfolding isIntegerDouble_def dvd_def by (metis mult.commute)
  have s: "0 < scale" by (simp add: scale_def)
  have nz: "v \<noteq> 0" using v assms(2) scaledValue_0_iff [of y] by auto
  have "magnitude y = \<bar>scaledValue y\<bar>" by (simp add: scaledValue_def)
  then have m: "magnitude y = \<bar>v\<bar> * scale" using s by (simp add: v abs_mult)
  have "1 * scale \<le> \<bar>v\<bar> * scale" using nz s by (intro mult_right_mono) auto
  then have "1023 \<le> rawExponentOf y" using magnitude_small [of y] m by fastforce
  moreover have "lessThanZero y \<longleftrightarrow> v < 0" using lessThanZero_iff [of y] assms(1) s by (simp add: isIntegerDouble_def v mult_less_0_iff)
  ultimately show ?thesis using that v nz m by blast
qed

text \<open>The digits of a mantissa that is cut at position \<open>t\<close> of the digit \<open>k\<close>.\<close>

lemma aligned_value:
  assumes y: "magnitude y = V * scale" "1023 \<le> rawExponentOf y" "rawExponentOf y - 1023 = int (64 * k + t)" "t < 64"
    and al: "alignMantissa (mantissaOf y OR doubleMantissaHiddenBit) (int t) = (r, d, rest)"
  shows "(uint d * digitBase + uint rest) * digitBase ^ k = V * digitBase" and "r \<le> 0 \<Longrightarrow> rest = 0"
proof -
  let ?m = "mantissaOf y OR doubleMantissaHiddenBit"
  have mb: "2 ^ 52 \<le> uint ?m" "uint ?m < 2 ^ 53" using mantissa_bound [of y] unfolding with_hidden by auto
  have t: "0 \<le> int t" "int t < 64" using y(4) by simp_all
  note ad = alignMantissa_digits [OF mb t al]
  show "r \<le> 0 \<Longrightarrow> rest = 0" by (rule ad(2))
  have "64 * k + t + 1022 = (nat (int t) + 12) + 64 * k + 1010" by simp
  then have "magnitude y = uint ?m * 2 ^ (nat (int t) + 12) * digitBase ^ k * 2 ^ 1010"
    using magnitude_normal(1) [OF y(2) refl] unfolding y(3) nat_int with_hidden digitBase_power_2 by (simp only: power_add mult.assoc)
  also have "\<dots> = (uint d * digitBase + uint rest) * digitBase ^ k * 2 ^ 1010" unfolding ad(1) by (simp only: mult.assoc)
  finally have "(uint d * digitBase + uint rest) * digitBase ^ k * 2 ^ 1010 = V * digitBase * 2 ^ 1010"
    unfolding y(1) scale_def digitBase_def by (simp flip: power_add)
  then show "(uint d * digitBase + uint rest) * digitBase ^ k = V * digitBase" by simp
qed

lemma createFromDouble_computes:
  assumes y: "isIntegerDouble y" and v: "scaledValue y = v * scale"
  shows "computes env 16 (createFromDouble env y) v"
proof (cases "isZeroDouble y")
  case True
  then have "v = 0" using v scaledValue_0_iff [of y] by (simp add: scale_def)
  then show ?thesis using True y by (simp add: createFromDouble_def assertThat_def createZero_computes)
next
  case False
  have sc: "scale \<noteq> 0" by (simp add: scale_def)
  obtain w where w: "scaledValue y = w * scale" "w \<noteq> 0" "magnitude y = \<bar>w\<bar> * scale" "lessThanZero y \<longleftrightarrow> w < 0" "1023 \<le> rawExponentOf y"
    using isIntegerDouble_value [OF y False] by metis
  have wv: "w = v" using w(1) v sc by simp
  define E where "E = nat (rawExponentOf y - 1023)"
  define k t where "k = E div 64" and "t = E mod 64"
  have E: "rawExponentOf y - 1023 = int E" "E = 64 * k + t" "t < 64" using w(5) by (simp_all add: E_def k_def t_def)
  have fin: "rawExponentOf y \<noteq> 2047" using y by (simp add: isIntegerDouble_def isFinite_def)
  then have "E < 1024" using exponent_bound [of y] by (simp add: E_def)
  then have k16: "k < 16" by (simp add: k_def less_mult_imp_div_less)
  obtain r d rest where al: "alignMantissa (mantissaOf y OR doubleMantissaHiddenBit) (int t) = (r, d, rest)" by (metis prod.exhaust)
  note val = aligned_value [OF w(3)[unfolded wv] w(5) E(1)[unfolded E(2)] E(3) al]
  have idx: "nat (int E div int digitBits + 1) = Suc k" "int E mod int digitBits = int t"
    using zdiv_int [of E 64] zmod_int [of E 64] by (simp_all add: digitBits_def k_def t_def nat_add_distrib)
  have "computes env 16 (andThen (createWithLength env (Suc k)) (\<lambda>result.
      rightTrim env (fillDigits k r rest (setDigit (setSign (initializeWithZero result) (v < 0)) k d)))) v"
  proof (rule computes_andThen [OF createWithLength_outcome])
    fix result assume fr: "fresh (Suc k) result"
    define x where "x = setDigit (setSign (initializeWithZero result) (v < 0)) k d"
    have "replicate (Suc k) 0 = replicate k 0 @ [0 :: digit]" by (simp add: replicate_append_same)
    then have data: "m_data x = replicate k 0 @ [d]" "m_sign x = (v < 0)"
      using fr by (simp_all add: x_def fresh_def setDigit_def setSign_def initializeWithZero_def list_update_append del: replicate.simps)
    have f: "fillDigits k r rest x = (if k = 0 then x else setDigit x (k - 1) rest)"
      using val(2) by (intro fillDigits_zero) (auto simp: data digitAt_def nth_append)
    have "dval (m_data (fillDigits k r rest x)) = \<bar>v\<bar>"
    proof (cases k)
      case 0
      have "uint rest mod digitBase = uint rest" using uint_less_digitBase [of rest] by (simp add: digitBase_def)
      then have "uint d = \<bar>v\<bar>" using arg_cong [OF val(1), of "\<lambda>a. a div digitBase"] uint_less_digitBase [of rest] by (simp add: 0 digitBase_def)
      then show ?thesis by (simp add: 0 data)
    next
      case (Suc j)
      have "m_data (fillDigits k r rest x) = replicate j 0 @ [rest, d]"
        unfolding f data by (simp add: Suc setDigit_def data list_update_append replicate_append_same [symmetric])
      then have "dval (m_data (fillDigits k r rest x)) = (uint d * digitBase + uint rest) * digitBase ^ j"
        by (simp add: dval_append algebra_simps)
      then show ?thesis using val(1) by (simp add: Suc digitBase_def)
    qed
    moreover have "bigLength (fillDigits k r rest x) = Suc k" "m_sign (fillDigits k r rest x) = (v < 0)" unfolding f by (auto simp: data setDigit_def)
    ultimately show "computes env 16 (rightTrim env (fillDigits k r rest (setDigit (setSign (initializeWithZero result) (v < 0)) k d))) v"
      unfolding x_def [symmetric] using fr k16 by (intro rightTrim_computes) (auto simp: fresh_def bval_def)
  qed (use k16 in simp)
  then show ?thesis using y False fin w(4,5) unfolding createFromDouble_def Let_def E(1) idx wv by (simp add: assertThat_def al)
qed


section \<open>Rounding\<close>

text \<open>What is left of a number is compared with half a unit of the last place.\<close>

definition roundingOf :: "int \<Rightarrow> int \<Rightarrow> RoundingResult" where
  "roundingOf r half = (if r < half then RoundDown else if r = half then Tie else RoundUp)"

lemma roundingOf_scale: "0 < f \<Longrightarrow> roundingOf (r * f) (half * f) = roundingOf r half"
  by (simp add: roundingOf_def)

lemma anyDigitBelow_iff: "k \<le> bigLength x \<Longrightarrow> anyDigitBelow x k \<longleftrightarrow> dval (take k (m_data x)) \<noteq> 0"
proof (induction k)
  case (Suc k)
  have "0 \<le> dval (take k (m_data x))" by simp
  moreover have "0 \<le> digitBase ^ k * uint (digitAt x k)" by simp
  ultimately show ?case using Suc by (auto simp: dval_take_Suc digitAt_def add_nonneg_eq_0_iff uint_0_iff)
qed simp

lemma roundingBits_correct:
  assumes "t < 64" and "k \<le> bigLength x"
  shows "roundingBits x t k c = roundingOf ((uint c mod 2 ^ Suc t) * digitBase ^ k + dval (take k (m_data x))) (2 ^ t * digitBase ^ k)"
proof -
  define low a where "low = dval (take k (m_data x))" and "a = uint c mod 2 ^ t"
  have low: "0 \<le> low" "low < digitBase ^ k" using dval_bound [of "take k (m_data x)"] assms(2) by (simp_all add: low_def min_absorb2)
  have a: "0 \<le> a" "a < 2 ^ t" by (simp_all add: a_def)
  have m: "uint c mod 2 ^ Suc t = (if bit c t then 2 ^ t + a else a)"
    using take_bit_Suc_from_most [of t "uint c"] assms(1) by (simp add: a_def take_bit_eq_mod bit_uint_iff)
  have b: "c AND push_bit t 1 = 0 \<longleftrightarrow> \<not> bit c t" using and_exp_eq_0_iff_not_bit [of c t] by simp
  have l: "c AND (push_bit t 1 - 1) = 0 \<longleftrightarrow> a = 0"
    using uint_and_mask [of t c] assms(1) by (simp add: a_def mask_eq_exp_minus_1 uint_0_iff [symmetric])
  have down: "a * digitBase ^ k + low < 2 ^ t * digitBase ^ k"
  proof -
    have "a * digitBase ^ k + low < (a + 1) * digitBase ^ k" using low by (simp add: algebra_simps)
    also have "\<dots> \<le> 2 ^ t * digitBase ^ k" using a by (intro mult_right_mono) auto
    finally show ?thesis .
  qed
  have up: "0 < a * digitBase ^ k" if "a \<noteq> 0" using that a by simp
  show ?thesis
    unfolding roundingBits_def Let_def b l anyDigitBelow_iff [OF assms(2)] m low_def [symmetric]
    using down up low by (auto simp: roundingOf_def distrib_right)
qed

text \<open>\<open>u\<close> bits of the current digit and all digits below it are not consumed.\<close>

lemma decideRounding_correct:
  assumes "u \<le> 64" and k: "k < bigLength x"
  shows "decideRounding x (- int u) k c =
    roundingOf (((uint c mod 2 ^ u) * digitBase ^ k + dval (take k (m_data x))) * scale) (2 ^ (u + 64 * k + 1073))"
proof -
  have step: "roundingBits x t j d = roundingOf (((uint d mod 2 ^ Suc t) * digitBase ^ j + dval (take j (m_data x))) * scale) (2 ^ (Suc t + 64 * j + 1073))"
    if "t < 64" "j \<le> bigLength x" for t j d
  proof -
    have "Suc t + 64 * j + 1073 = t + 64 * j + 1074" by simp
    then have h: "2 ^ (Suc t + 64 * j + 1073) = 2 ^ t * digitBase ^ j * scale" unfolding scale_def digitBase_power_2 power_add [symmetric] by (rule arg_cong)
    show ?thesis unfolding h roundingBits_correct [OF that] by (rule roundingOf_scale [symmetric]) (simp add: scale_def)
  qed
  consider "u \<noteq> 0" | "u = 0" "k = 0" | "u = 0" "k \<noteq> 0" by blast
  then show ?thesis
  proof cases
    case 1
    then obtain t where u: "u = Suc t" by (cases u) auto
    then show ?thesis using step [of t k c] assms by (simp add: decideRounding_def nat_diff_distrib del: power_Suc)
  next
    case 2
    then show ?thesis by (simp add: decideRounding_def roundingOf_def)
  next
    case 3
    then obtain j where j: "k = Suc j" by (cases k) auto
    have d: "uint (digitAt x j) mod 2 ^ Suc 63 * digitBase ^ j + dval (take j (m_data x)) = dval (take k (m_data x))"
      using k uint_less_digitBase [of "digitAt x j"] by (simp add: j dval_take_Suc digitAt_def digitBase_def)
    have "Suc 63 + 64 * j = 64 * k" by (simp add: j)
    then show ?thesis using step [of 63 j "digitAt x j"] 3 j k d by (simp add: decideRounding_def digitBits_def)
  qed
qed

text \<open>A number cut \<open>u\<close> bits above the digit \<open>k\<close>.\<close>

lemma cut_value:
  fixes w low :: int and u k :: nat
  assumes "0 \<le> low" and "low < digitBase ^ k"
  defines "R \<equiv> ((w mod 2 ^ u) * digitBase ^ k + low) * scale"
  shows "(w * digitBase ^ k + low) * scale = (w div 2 ^ u) * 2 ^ (u + 64 * k + 1074) + R" and "0 \<le> R" and "R < 2 ^ (u + 64 * k + 1074)"
proof -
  have p: "2 ^ (u + 64 * k + 1074) = 2 ^ u * digitBase ^ k * scale" unfolding scale_def digitBase_power_2 power_add [symmetric] ..
  have sc: "0 < scale" by (simp add: scale_def)
  have "(w * digitBase ^ k + low) = ((w div 2 ^ u) * 2 ^ u + w mod 2 ^ u) * digitBase ^ k + low" by (simp only: div_mult_mod_eq)
  then show "(w * digitBase ^ k + low) * scale = (w div 2 ^ u) * 2 ^ (u + 64 * k + 1074) + R"
    unfolding R_def p by (simp only: distrib_right mult.assoc add.assoc)
  show "0 \<le> R" using assms(1) sc by (simp add: R_def)
  have "(w mod 2 ^ u) * digitBase ^ k + low < (w mod 2 ^ u + 1) * digitBase ^ k" using assms(2) by (simp add: distrib_right)
  also have "\<dots> \<le> 2 ^ u * digitBase ^ k" using zmod_le_nonneg_dividend pos_mod_bound [of "2 ^ u" w] by (intro mult_right_mono) (simp_all add: zless_imp_add1_zle)
  finally show "R < 2 ^ (u + 64 * k + 1074)" unfolding R_def p using sc by simp
qed

text \<open>The mantissa bits of the most significant digit: its top bit is hidden.\<close>

lemma msd_mantissa:
  fixes d :: digit
  assumes "d \<noteq> 0" and "z = clz d"
  defines "m \<equiv> drop_bit 12 (if z + 1 = 64 then 0 else push_bit (z + 1) d)"
  shows "z \<le> 11 \<Longrightarrow> 2 ^ 52 + uint m = uint d div 2 ^ (11 - z)" and "11 < z \<Longrightarrow> 2 ^ 52 + uint m = uint d * 2 ^ (z - 11)"
    and "uint m < 2 ^ 52" and "11 < z \<Longrightarrow> \<exists>a. uint m = a * 2 ^ (z - 11)"
proof -
  have z: "z < 64" "uint d * 2 ^ z < 2 ^ 64" "2 ^ 63 \<le> uint d * 2 ^ z" using clz_normalises [OF assms(1)] by (simp_all add: assms(2))
  define w where "w = uint d * 2 ^ z - 2 ^ 63"
  have w: "0 \<le> w" "w < 2 ^ 63" using z by (simp_all add: w_def)
  have "uint (if z + 1 = 64 then 0 else push_bit (z + 1) d) = 2 * w"
  proof (cases "z = 63")
    case True
    then have "uint d = 1" using z(2,3) by simp
    then show ?thesis using True by (simp add: w_def)
  next
    case False
    have "uint d * 2 ^ (z + 1) = 2 ^ 64 + 2 * w" by (simp add: w_def)
    then have "uint (push_bit (z + 1) d) = 2 * w" using w unfolding uint_push_bit by simp
    then show ?thesis using False by simp
  qed
  then have m: "uint m = 2 * w div 2 ^ 12" by (simp add: m_def uint_drop_bit)
  show "uint m < 2 ^ 52" using w by (simp add: m)
  have "2 * w div (2 * 2 ^ 11) = w div 2 ^ 11" by (rule div_mult_mult1) simp
  moreover have "(2 ^ 52 * 2 ^ 11 + w) div 2 ^ 11 = 2 ^ 52 + w div 2 ^ 11" by (rule div_mult_self3) simp
  ultimately have q: "2 ^ 52 + uint m = uint d * 2 ^ z div 2 ^ 11" by (simp add: m w_def)
  show "2 ^ 52 + uint m = uint d div 2 ^ (11 - z)" if "z \<le> 11"
  proof -
    have "(2 :: int) ^ 11 = 2 ^ (11 - z) * 2 ^ z" unfolding power_add [symmetric] using that by simp
    then show ?thesis unfolding q using div_mult_mult2 [of "2 ^ z" "uint d" "2 ^ (11 - z)"] by simp
  qed
  show l: "2 ^ 52 + uint m = uint d * 2 ^ (z - 11)" if "11 < z"
  proof -
    have "(2 :: int) ^ z = 2 ^ (z - 11) * 2 ^ 11" unfolding power_add [symmetric] using that by simp
    then show ?thesis unfolding q mult.assoc [symmetric] by simp
  qed
  show "\<exists>a. uint m = a * 2 ^ (z - 11)" if "11 < z"
  proof -
    have "(2 :: int) ^ 52 = 2 ^ (63 - z) * 2 ^ (z - 11)" unfolding power_add [symmetric] using that z(1) by simp
    then have "uint m = (uint d - 2 ^ (63 - z)) * 2 ^ (z - 11)" using l [OF that] by (simp add: left_diff_distrib)
    then show ?thesis by blast
  qed
qed

text \<open>The mantissa, and what is left.\<close>

lemma toNumberHeap_mantissa:
  assumes x: "canonical x" "\<not> isZero x" and e: "e + 1 = bigLength x * 64 - clz (digitAt x (bigLength x - 1))" "e \<le> 1023"
  obtains m unset k c R where "toNumberHeap x = roundMantissa x e m unset k c" and "uint m < 2 ^ 52"
    and "dval (m_data x) * scale = (2 ^ 52 + uint m) * 2 ^ (e + 1022) + R" and "0 \<le> R" and "R < 2 ^ (e + 1022)"
    and "decideRounding x unset k c = roundingOf R (2 ^ (e + 1021))"
proof -
  define n z d where "n = bigLength x - 1" and "z = clz (digitAt x n)" and "d = digitAt x n"
  have "m_data x \<noteq> []" using x(2) by (auto simp: isZero_def)
  then have len: "bigLength x = Suc n" by (simp add: n_def)
  have d0: "d \<noteq> 0" using x len by (auto simp: d_def digitAt_def last_conv_nth canonical_def)
  have zd: "z = clz d" by (simp add: z_def d_def)
  have z: "z < 64" using clz_normalises(1) [OF d0] by (simp add: zd)
  have e': "e = 64 * n + (63 - z)" using e(1) z by (simp add: len z_def [symmetric])
  define m where "m = drop_bit 12 (if z + 1 = 64 then 0 else push_bit (z + 1) d)"
  note mant = msd_mantissa [OF d0 zd, folded m_def]
  let ?low = "\<lambda>k. dval (take k (m_data x))"
  have low: "0 \<le> ?low k" "?low k < digitBase ^ k" if "k \<le> bigLength x" for k
    using dval_bound [of "take k (m_data x)"] that by (simp_all add: min_absorb2)
  have D: "dval (m_data x) = uint d * digitBase ^ n + ?low n" using dval_take_Suc [of n "m_data x"] len by (simp add: digitAt_def d_def)
  have run: "toNumberHeap x = (if 11 < z \<and> 0 < n
      then roundMantissa x e (m OR drop_bit (64 - (z - 11)) (digitAt x (n - 1))) (int z - 75) (n - 1) (digitAt x (n - 1))
      else roundMantissa x e m (int z - 11) n d)"
  proof -
    have s: "bigLength x * digitBits - z = e + 1" using e(1) by (simp add: digitBits_def z_def n_def)
    have u: "nat (int z - 11) = z - 11" "int (z + 1) - 12 = int z - 11" "0 < int z - 11 \<longleftrightarrow> 11 < z" by auto
    show ?thesis
      unfolding toNumberHeap_def Let_def n_def [symmetric] d_def [symmetric] zd [symmetric] s m_def [symmetric] u(2)
      unfolding u using x(2) e(2) z by (simp add: assertThat_def digitBits_def)
  qed
  consider "z \<le> 11" | "11 < z" "n = 0" | j where "11 < z" "n = Suc j" by (metis not_less old.nat.exhaust)
  then show ?thesis
  proof cases
    case 1
    then have "e = (11 - z) + 64 * n + 52" by (simp add: e')
    then have ee: "e + 1022 = (11 - z) + 64 * n + 1074" "e + 1021 = (11 - z) + 64 * n + 1073" by simp_all
    note c = cut_value [OF low(1,2) [of n], of "uint d" "11 - z"]
    show ?thesis
    proof (rule that)
      show "toNumberHeap x = roundMantissa x e m (- int (11 - z)) n d" using 1 by (simp add: run of_nat_diff)
    qed (use mant 1 D c decideRounding_correct [of "11 - z" n x d] len in \<open>simp_all only: ee\<close>)
  next
    case 2
    have "1074 = z - 11 + (e + 1022)" using 2 z by (simp add: e')
    then have "scale = 2 ^ (z - 11) * 2 ^ (e + 1022)" unfolding scale_def power_add [symmetric] by (rule arg_cong)
    then have "dval (m_data x) * scale = (2 ^ 52 + uint m) * 2 ^ (e + 1022) + 0" unfolding mant(2) [OF 2(1)] D using 2(2) by simp
    moreover have "toNumberHeap x = roundMantissa x e m (int z - 11) n d" using 2 by (simp add: run)
    moreover have "decideRounding x (int z - 11) n d = roundingOf 0 (2 ^ (e + 1021))" using 2(1) by (simp add: decideRounding_def roundingOf_def)
    ultimately show ?thesis using that mant(3) by simp
  next
    case 3
    define c u where "c = digitAt x j" and "u = 75 - z"
    have "e = u + 64 * j + 52" using 3 z by (simp add: e' u_def)
    then have ee: "e + 1022 = u + 64 * j + 1074" "e + 1021 = u + 64 * j + 1073" by simp_all
    let ?w = "uint d * digitBase + uint c"
    note cut = cut_value [OF low(1,2) [of j], of ?w u]
    have D': "dval (m_data x) = ?w * digitBase ^ j + ?low j"
      using dval_take_Suc [of j "m_data x"] len unfolding D 3(2) by (simp add: c_def digitAt_def algebra_simps)
    have B: "digitBase = 2 ^ (z - 11) * 2 ^ u" unfolding digitBase_def power_add [symmetric] using 3 z by (simp add: u_def)
    have mod: "?w mod 2 ^ u = uint c mod 2 ^ u" unfolding B mult.assoc [symmetric] by simp
    have "?w div 2 ^ u = uint d * 2 ^ (z - 11) + uint c div 2 ^ u" unfolding B mult.assoc [symmetric] by simp
    then have div: "?w div 2 ^ u = 2 ^ 52 + (uint m + uint c div 2 ^ u)" using mant(2) [OF 3(1)] by simp
    have cu: "uint c div 2 ^ u < 2 ^ (z - 11)" using uint_less_digitBase [of c] unfolding B by (simp add: div_less_iff)
    obtain a where a: "uint m = a * 2 ^ (z - 11)" using mant(4) 3(1) by blast
    have or: "uint (m OR drop_bit u c) = uint m + uint c div 2 ^ u"
      using int_or_shift_add [OF _ cu, of a] by (simp add: unsigned_or_eq uint_drop_bit a pos_imp_zdiv_nonneg_iff)
    have u: "u \<le> 64" "64 - (z - 11) = u" "int z - 75 = - int u" using 3 z by (auto simp: u_def)
    have r: "toNumberHeap x = roundMantissa x e (m OR drop_bit u c) (- int u) j c" using 3 by (simp add: run u c_def)
    have p: "(2 :: int) ^ 52 = 2 ^ (63 - z) * 2 ^ (z - 11)" unfolding power_add [symmetric] using 3 z by simp
    have "a < 2 ^ (63 - z)" using mant(3) unfolding a p by simp
    then have "(a + 1) * 2 ^ (z - 11) \<le> 2 ^ (63 - z) * 2 ^ (z - 11)" by (intro mult_right_mono) auto
    then have b: "uint m + uint c div 2 ^ u < 2 ^ 52" using cu unfolding p a by (simp only: distrib_right)
    show ?thesis
      by (rule that [OF r])
        (use or b D' cut div mod decideRounding_correct [of u j x c] len 3 u in \<open>simp_all only: ee\<close>)
  qed
qed

text \<open>The fields of a double do not overlap.\<close>

lemma disjoint_fields:
  fixes s x m A B C :: "'a::len word"
  assumes "s AND A = s" "x AND B = x" "m AND C = m" and "A AND B = 0" "A AND C = 0" "B AND C = 0"
  shows "(s OR x OR m) AND A = s" "(s OR x OR m) AND B = x" "(s OR x OR m) AND C = m"
proof -
  have z: "x AND A = 0" "m AND A = 0" "s AND B = 0" "m AND B = 0" "s AND C = 0" "x AND C = 0"
    using assms by (metis and.assoc and.commute and_zero_eq)+
  show "(s OR x OR m) AND A = s" "(s OR x OR m) AND B = x" "(s OR x OR m) AND C = m"
    using assms z by (simp_all add: bit.conj_disj_distrib2)
qed

lemma combineDouble_correct:
  assumes "e \<le> 1023" and m: "uint m < 2 ^ 52"
  obtains b where "combineDouble s e m = Inr b" and "isFinite b" and "bit b 63 = s"
    and "magnitude b = (2 ^ 52 + uint m) * 2 ^ (e + 1022)" and "even (uint b) \<longleftrightarrow> even (uint m)"
proof -
  define sb x b :: "64 word" where "sb = (if s then push_bit 63 1 else 0)" and "x = push_bit 52 (of_nat (e + 1023))" and "b = sb OR x OR m"
  define S E :: int where "S = (if s then 1 else 0)" and "E = int (e + 1023)"
  have E: "0 \<le> E" "E < 2 ^ 11" "E \<noteq> 0" "E \<noteq> 2047" using assms(1) by (simp_all add: E_def)
  have eE: "uint (of_nat (e + 1023) :: 64 word) = E" using E unfolding E_def by (simp add: unsigned_of_nat take_bit_eq_mod del: of_nat_add)
  then have words: "uint sb = S * 2 ^ 63" "uint x = E * 2 ^ 52" using E by (simp_all add: sb_def S_def x_def uint_push_bit del: of_nat_add)
  have xm: "E * 2 ^ 52 OR uint m = E * 2 ^ 52 + uint m" by (rule int_or_shift_add [OF _ m]) simp
  have "uint b = S * 2 ^ 63 OR (E * 2 ^ 52 + uint m)" by (simp only: b_def unsigned_or_eq words xm)
  also have "\<dots> = S * 2 ^ 63 + (E * 2 ^ 52 + uint m)" using E m by (intro int_or_shift_add) auto
  finally have b: "uint b = (S * 2 ^ 11 + E) * 2 ^ 52 + uint m" by simp
  have "uint b div 2 ^ 52 = S * 2 ^ 11 + E" unfolding b using m by (intro div_unique_bounds) auto
  moreover have "uint b mod 2 ^ 52 = uint m" using m unfolding b by (simp only: mod_mult_self3) simp
  moreover have "2 ^ 63 \<le> uint b \<longleftrightarrow> s" using E m unfolding b by (simp add: S_def)
  ultimately have d: "uint b div 2 ^ 52 = S * 2 ^ 11 + E" "uint b mod 2 ^ 52 = uint m" "2 ^ 63 \<le> uint b \<longleftrightarrow> s" by blast+
  have m': "mantissaOf b = m" "rawExponentOf b = E" "bit b 63 = s" using d E unfolding double_layout word_uint_eq_iff by simp_all
  have fx: "x AND push_bit 52 0x7FF = x"
  proof -
    have "(0x7FF :: 64 word) = mask 11" by (simp add: mask_eq_exp_minus_1)
    moreover have "of_nat (e + 1023) AND (mask 11 :: 64 word) = of_nat (e + 1023)"
      using uint_and_mask [of 11 "of_nat (e + 1023) :: 64 word"] eE E by (simp add: word_uint_eq_iff del: of_nat_add)
    ultimately have "of_nat (e + 1023) AND (0x7FF :: 64 word) = of_nat (e + 1023)" by (simp only:)
    then show ?thesis unfolding x_def push_bit_and [symmetric] by simp
  qed
  have fm: "m AND (push_bit 52 1 - 1) = m"
    using m uint_and_mask [of 52 m] by (simp add: mask_eq_exp_minus_1 word_uint_eq_iff)
  have fs: "sb AND push_bit 63 1 = sb" by (simp add: sb_def)
  have disjoint: "push_bit 63 1 AND push_bit 52 0x7FF = (0 :: 64 word)" "push_bit 63 1 AND (push_bit 52 1 - 1) = (0 :: 64 word)"
    "push_bit 52 0x7FF AND (push_bit 52 1 - 1) = (0 :: 64 word)" by code_simp+
  note asserts = disjoint_fields [OF fs fx fm disjoint, folded b_def]
  have "combineDouble s e m = Inr b"
    using asserts by (simp add: combineDouble_def doublePhysicalMantissaSize_def Let_def sb_def x_def b_def assertThat_def)
  moreover have "magnitude b = (2 ^ 52 + uint m) * 2 ^ (e + 1022)" using m' E by (simp add: magnitude_def E_def nat_add_distrib)
  moreover have "even (uint b) \<longleftrightarrow> even (uint m)" by (simp add: b)
  ultimately show ?thesis using that m' E by (simp add: isFinite_def)
qed

text \<open>Rounding to a multiple of \<open>2 * H\<close>: half a unit goes to the even multiple.\<close>

definition rounded :: "int \<Rightarrow> int \<Rightarrow> int \<Rightarrow> int" where
  "rounded q R H = (if roundingOf R H = RoundUp \<or> roundingOf R H = Tie \<and> odd q then q + 1 else q)"

lemma rounded_nearest:
  assumes R: "0 \<le> R" "R < 2 * H" and "k \<le> q" and s: "2 * H dvd s \<or> s < k * (2 * H)"
  defines "N \<equiv> q * (2 * H) + R" and "Q \<equiv> rounded q R H"
  shows "\<bar>Q * (2 * H) - N\<bar> < \<bar>s - N\<bar> \<or> \<bar>Q * (2 * H) - N\<bar> = \<bar>s - N\<bar> \<and> (even Q \<or> s = Q * (2 * H))"
proof -
  have H: "0 < H" using R by linarith
  have d: "\<bar>Q * (2 * H) - N\<bar> = (if Q = q then R else 2 * H - R)" "Q = q \<and> 2 * R \<le> 2 * H \<or> Q = q + 1 \<and> 2 * H \<le> 2 * R" "2 * R = 2 * H \<Longrightarrow> even Q"
    using R by (auto simp: N_def Q_def rounded_def roundingOf_def distrib_right)
  consider "s < q * (2 * H)" | "s = q * (2 * H)" | "s = (q + 1) * (2 * H)" | "(q + 1) * (2 * H) < s"
  proof -
    assume *: "s < q * (2 * H) \<Longrightarrow> thesis" "s = q * (2 * H) \<Longrightarrow> thesis" "s = (q + 1) * (2 * H) \<Longrightarrow> thesis" "(q + 1) * (2 * H) < s \<Longrightarrow> thesis"
    have kq: "k * (2 * H) \<le> q * (2 * H)" using assms(3) H by (intro mult_right_mono) auto
    show thesis
    proof (cases "2 * H dvd s")
      case True
      then obtain j where j: "s = j * (2 * H)" by (metis dvd_def mult.commute)
      consider "j < q" | "j = q" | "j = q + 1" | "q + 1 < j" by linarith
      then show thesis using * H unfolding j by cases (simp_all add: mult_strict_right_mono)
    qed (use s kq * in linarith)
  qed
  then show ?thesis using d R H unfolding N_def by cases (auto simp: distrib_right)
qed

lemma roundMantissa_correct:
  assumes e: "e \<le> 1023" and m: "uint m < 2 ^ 52" and D: "decideRounding x unset k c = roundingOf R H"
  defines "Q \<equiv> rounded (2 ^ 52 + uint m) R H"
  shows "if e = 1023 \<and> Q = 2 ^ 53 then roundMantissa x e m unset k c = Inr (infinity (m_sign x))
    else \<exists>b. roundMantissa x e m unset k c = Inr b \<and> isFinite b \<and> bit b 63 = m_sign x \<and> magnitude b = Q * 2 ^ (e + 1022) \<and> (even (uint b) \<longleftrightarrow> even Q)"
proof -
  have one: "m AND 1 = 1 \<longleftrightarrow> odd (uint m)"
    using uint_and_mask [of 1 m] by (auto simp: mask_eq_exp_minus_1 word_uint_eq_iff odd_iff_mod_2_eq_one)
  have ev: "even (2 ^ 52 + uint m) \<longleftrightarrow> even (uint m)" by simp
  define up where "up \<longleftrightarrow> roundingOf R H = RoundUp \<or> roundingOf R H = Tie \<and> odd (uint m)"
  have Q: "Q = (if up then 2 ^ 52 + uint m + 1 else 2 ^ 52 + uint m)" by (simp add: Q_def rounded_def up_def)
  have run: "roundMantissa x e m unset k c = (if up then if drop_bit 52 (m + 1) \<noteq> 0 then if e + 1 > 1023 then Inr (infinity (m_sign x)) else combineDouble (m_sign x) (e + 1) 0
       else combineDouble (m_sign x) e (m + 1) else combineDouble (m_sign x) e m)"
    by (simp add: roundMantissa_def Let_def D up_def one doublePhysicalMantissaSize_def)
  have m1: "uint (m + 1) = uint m + 1" using m by (simp add: uint_word_ariths)
  have top: "drop_bit 52 (m + 1) \<noteq> 0 \<longleftrightarrow> uint m + 1 = 2 ^ 52"
    using m uint_drop_bit [of 52 "m + 1"] unfolding m1 uint_0_iff [symmetric] by (cases "uint m + 1 = 2 ^ 52") (simp_all add: div_pos_pos_trivial)
  consider "\<not> up" | "up" "uint m + 1 = 2 ^ 52" "e = 1023" | "up" "uint m + 1 = 2 ^ 52" "e < 1023" | "up" "uint m + 1 < 2 ^ 52"
    using e m by linarith
  then show ?thesis
  proof cases
    case 1
    obtain b where "combineDouble (m_sign x) e m = Inr b" "isFinite b" "bit b 63 = m_sign x"
      "magnitude b = (2 ^ 52 + uint m) * 2 ^ (e + 1022)" "even (uint b) \<longleftrightarrow> even (uint m)" by (rule combineDouble_correct [OF e m])
    then show ?thesis using 1 m unfolding run Q by simp
  next
    case 2
    then show ?thesis using top unfolding run Q by simp
  next
    case 3
    have "e + 1 \<le> 1023" "uint (0 :: 64 word) < 2 ^ 52" using 3 by simp_all
    then obtain b where b: "combineDouble (m_sign x) (e + 1) 0 = Inr b" "isFinite b" "bit b 63 = m_sign x"
      "magnitude b = (2 ^ 52 + uint (0 :: 64 word)) * 2 ^ (e + 1 + 1022)" "even (uint b) \<longleftrightarrow> even (uint (0 :: 64 word))" by (rule combineDouble_correct)
    have q: "2 ^ 52 + uint m + 1 = 2 ^ 53" using 3(2) by simp
    have "e + 1 + 1022 = Suc (e + 1022)" by simp
    then have "magnitude b = 2 ^ 53 * 2 ^ (e + 1022)" unfolding b(4) by (simp only: power_Suc) simp
    then show ?thesis using 3 top b(1,2,3,5) unfolding run Q q by simp
  next
    case 4
    obtain b where "combineDouble (m_sign x) e (m + 1) = Inr b" "isFinite b" "bit b 63 = m_sign x"
      "magnitude b = (2 ^ 52 + (uint m + 1)) * 2 ^ (e + 1022)" "even (uint b) \<longleftrightarrow> even (uint m + 1)"
      using combineDouble_correct [OF e, of "m + 1" "m_sign x"] 4(2) unfolding m1 by metis
    then show ?thesis using 4 top unfolding run Q by (simp add: add.assoc)
  qed
qed


section \<open>The nearest double\<close>

text \<open>\<open>b\<close> is finite and no finite double is nearer to \<open>v\<close>; when two are equally near, the mantissa of \<open>b\<close> is even.\<close>

definition nearestDouble :: "int \<Rightarrow> double \<Rightarrow> bool" where
  "nearestDouble v b \<longleftrightarrow> isFinite b \<and> (\<forall>y. isFinite y \<longrightarrow>
     \<bar>scaledValue b - v * scale\<bar> < \<bar>scaledValue y - v * scale\<bar>
     \<or> \<bar>scaledValue b - v * scale\<bar> = \<bar>scaledValue y - v * scale\<bar> \<and> (even (uint b) \<or> scaledValue y = scaledValue b))"

lemma magnitude_multiple: "2 ^ (e + 1022) dvd magnitude y \<or> magnitude y < 2 ^ 52 * 2 ^ (e + 1022)"
proof (cases "rawExponentOf y = 0")
  case True
  then have "magnitude y < 2 ^ 52 * 1" using mantissa_bound [of y] by (simp add: magnitude_def)
  also have "\<dots> \<le> 2 ^ 52 * 2 ^ (e + 1022)" by (intro mult_left_mono) simp_all
  finally show ?thesis by simp
next
  case False
  define j where "j = nat (rawExponentOf y - 1)"
  have m: "magnitude y = (2 ^ 52 + uint (mantissaOf y)) * 2 ^ j" using False by (simp add: magnitude_def j_def)
  show ?thesis
  proof (cases "e + 1022 \<le> j")
    case True
    then show ?thesis unfolding m by (intro disjI1 dvd_mult le_imp_power_dvd)
  next
    case False
    have "magnitude y < 2 ^ 53 * 2 ^ j" unfolding m using mantissa_bound [of y] by simp
    also have "\<dots> = 2 ^ (53 + j)" by (simp add: power_add)
    also have "\<dots> \<le> 2 ^ (52 + (e + 1022))" using False by (intro power_increasing) simp_all
    finally show ?thesis unfolding power_add [of 2 52] by simp
  qed
qed

lemma nearestDouble_rounded:
  assumes v: "\<bar>v\<bar> * scale = q * 2 ^ (e + 1022) + R" and R: "0 \<le> R" "R < 2 ^ (e + 1022)" and q: "2 ^ 52 \<le> q"
    and b: "isFinite b" "bit b 63 \<longleftrightarrow> v < 0" "magnitude b = rounded q R (2 ^ (e + 1021)) * 2 ^ (e + 1022)"
      "even (uint b) \<longleftrightarrow> even (rounded q R (2 ^ (e + 1021)))"
  shows "nearestDouble v b"
proof -
  have "e + 1022 = Suc (e + 1021)" by simp
  then have P: "(2 :: int) ^ (e + 1022) = 2 * 2 ^ (e + 1021)" by (simp only: power_Suc)
  have "\<bar>magnitude b - \<bar>v\<bar> * scale\<bar> < \<bar>s - \<bar>v\<bar> * scale\<bar>
      \<or> \<bar>magnitude b - \<bar>v\<bar> * scale\<bar> = \<bar>s - \<bar>v\<bar> * scale\<bar> \<and> (even (uint b) \<or> s = magnitude b)"
    if "2 ^ (e + 1022) dvd s \<or> s < 2 ^ 52 * 2 ^ (e + 1022)" for s
    unfolding v b(3,4) using rounded_nearest [of R "2 ^ (e + 1021)" "2 ^ 52" q s] R q that unfolding P by blast
  moreover have "2 ^ (e + 1022) dvd s \<or> s < 2 ^ 52 * 2 ^ (e + 1022)" if "s = magnitude y \<or> s = - magnitude y" for s y
  proof -
    have "- magnitude y \<le> magnitude y" using magnitude_nonneg [of y] by linarith
    then show ?thesis using that magnitude_multiple [of e y] by (metis dvd_minus_iff le_less_trans)
  qed
  ultimately have near: "\<bar>magnitude b - \<bar>v\<bar> * scale\<bar> < \<bar>s - \<bar>v\<bar> * scale\<bar>
      \<or> \<bar>magnitude b - \<bar>v\<bar> * scale\<bar> = \<bar>s - \<bar>v\<bar> * scale\<bar> \<and> (even (uint b) \<or> s = magnitude b)"
    if "s = magnitude y \<or> s = - magnitude y" for s y using that by blast
  define f where "f t = (if v < 0 then - t else t)" for t :: int
  have f: "\<bar>t - v * scale\<bar> = \<bar>f t - \<bar>v\<bar> * scale\<bar>" "f t = f t' \<longleftrightarrow> t = t'" for t t' by (auto simp: f_def)
  have fb: "f (scaledValue b) = magnitude b" by (simp add: f_def scaledValue_def b(2))
  have "f (scaledValue y) = magnitude y \<or> f (scaledValue y) = - magnitude y" for y by (auto simp: f_def scaledValue_def)
  then show ?thesis using near b(1) unfolding nearestDouble_def f(1) fb f(2) [symmetric, of _ "scaledValue b"] by blast
qed

text \<open>Where the largest exponent overflows.\<close>

lemma rounded_carry_iff:
  assumes R: "0 \<le> R" "R < 2 * H" and q: "q < 2 ^ 53"
  shows "rounded q R H = 2 ^ 53 \<longleftrightarrow> (2 ^ 54 - 1) * H \<le> q * (2 * H) + R"
proof (cases "q = 2 ^ 53 - 1")
  case True
  then show ?thesis by (auto simp: rounded_def roundingOf_def)
next
  case False
  then have q2: "q + 1 \<le> 2 ^ 53 - 1" using q by simp
  have "q * (2 * H) + R < (q + 1) * (2 * H)" using R by (simp add: distrib_right)
  also have "\<dots> \<le> (2 ^ 53 - 1) * (2 * H)" using q2 R by (intro mult_right_mono) auto
  finally have "q * (2 * H) + R < (2 ^ 54 - 1) * H" using R by simp
  then show ?thesis using q2 by (auto simp: rounded_def)
qed

lemma overflow_limit: "(2 ^ 1024 - 2 ^ 970) * scale = (2 ^ 54 - 1) * 2 ^ 2044"
proof -
  have "2 ^ 1024 - 2 ^ 970 = (2 ^ 54 - 1) * (2 ^ 970 :: int)" unfolding left_diff_distrib power_add [symmetric] by simp
  then show ?thesis unfolding scale_def by (simp only: mult.assoc power_add [symmetric]) simp
qed

lemma overflow_iff:
  assumes v: "V * scale = q * 2 ^ (e + 1022) + R" and R: "0 \<le> R" "R < 2 ^ (e + 1022)" and q: "q < 2 ^ 53" and e: "e \<le> 1023"
  shows "e = 1023 \<and> rounded q R (2 ^ (e + 1021)) = 2 ^ 53 \<longleftrightarrow> 2 ^ 1024 - 2 ^ 970 \<le> V"
proof -
  have sc: "0 < scale" by (simp add: scale_def)
  have le: "2 ^ 1024 - 2 ^ 970 \<le> V \<longleftrightarrow> (2 ^ 54 - 1) * 2 ^ 2044 \<le> V * scale" unfolding overflow_limit [symmetric] using sc by simp
  show ?thesis
  proof (cases "e = 1023")
    case True
    have P: "(2 :: int) ^ (e + 1022) = 2 * 2 ^ 2044" "e + 1021 = 2044" unfolding power_Suc [symmetric] using True by simp_all
    show ?thesis unfolding le v P using rounded_carry_iff [of R "2 ^ 2044" q] R q True unfolding P by blast
  next
    case False
    have "V * scale < (q + 1) * 2 ^ (e + 1022)" unfolding v using R by (simp add: distrib_right)
    also have "\<dots> \<le> 2 ^ 53 * 2 ^ (e + 1022)" using q by (intro mult_right_mono) auto
    also have "\<dots> \<le> 2 ^ 53 * 2 ^ 2044" using False e by (intro mult_left_mono power_increasing) auto
    also have "\<dots> \<le> (2 ^ 54 - 1) * 2 ^ 2044" by (intro mult_right_mono) simp_all
    finally show ?thesis unfolding le using False by (simp only: not_le [symmetric]) simp
  qed
qed

lemma toNumberHeap_result:
  assumes x: "canonical x"
  obtains b where "toNumberHeap x = Inr b" and "bit b 63 \<longleftrightarrow> bval x < 0"
    and "if 2 ^ 1024 - 2 ^ 970 \<le> \<bar>bval x\<bar> then b = infinity (m_sign x) else nearestDouble (bval x) b"
proof -
  have inf: "bit (infinity s) 63 = s" for s by (simp add: infinity_def bit_iff_odd)
  have sgn: "m_sign x \<longleftrightarrow> bval x < 0" by (rule canonical_sign [OF x])
  have ab: "\<bar>bval x\<bar> = dval (m_data x)" by (simp add: bval_def)
  show ?thesis
  proof (cases "isZero x")
    case True
    have z: "isFinite 0" "scaledValue 0 = 0" by (simp_all add: isFinite_def rawExponentOf_def scaledValue_0_iff isZeroDouble_def)
    have v0: "bval x = 0" using canonical_bval_0 [OF x] True by simp
    have "nearestDouble 0 0" using z by (auto simp: nearestDouble_def)
    then show ?thesis using that [of 0] True v0 power_strict_increasing [of 970 1024 "2 :: int"] by (simp add: toNumberHeap_def)
  next
    case False
    define bl where "bl = bigLength x * 64 - clz (digitAt x (bigLength x - 1))"
    note bl = bitLength_bounds [OF x False, folded bl_def]
    show ?thesis
    proof (cases "bl > 1024")
      case True
      have "(2 :: int) ^ 1024 - 2 ^ 970 \<le> 2 ^ 1024" by simp
      also have "\<dots> \<le> 2 ^ (bl - 1)" using True by (intro power_increasing) auto
      finally have "2 ^ 1024 - 2 ^ 970 \<le> \<bar>bval x\<bar>" using bl(2) unfolding ab by linarith
      moreover have "toNumberHeap x = Inr (infinity (m_sign x))" using False True by (simp add: toNumberHeap_def Let_def digitBits_def bl_def)
      ultimately show ?thesis using that inf sgn by simp
    next
      case le: False
      define e where "e = bl - 1"
      have e: "e + 1 = bl" "e \<le> 1023" using bl(3) le by (simp_all add: e_def)
      obtain m unset k c R where r: "toNumberHeap x = roundMantissa x e m unset k c" and m: "uint m < 2 ^ 52"
        and v: "dval (m_data x) * scale = (2 ^ 52 + uint m) * 2 ^ (e + 1022) + R" and R: "0 \<le> R" "R < 2 ^ (e + 1022)"
        and d: "decideRounding x unset k c = roundingOf R (2 ^ (e + 1021))"
        by (rule toNumberHeap_mantissa [OF x False e(1)[unfolded bl_def] e(2)])
      have "2 ^ 52 + uint m < 2 ^ 53" "2 ^ 52 \<le> 2 ^ 52 + uint m" using m by simp_all
      then show ?thesis
        using that roundMantissa_correct [OF e(2) m d] overflow_iff [OF v R _ e(2)] nearestDouble_rounded [OF v [folded ab] R] inf sgn
        unfolding r ab by (auto split: if_splits)
    qed
  qed
qed

text \<open>Two doubles of the same sign and the same magnitude are equal.\<close>

lemma magnitude_mono: "rawExponentOf a < rawExponentOf b \<Longrightarrow> magnitude a < magnitude b"
proof -
  assume less: "rawExponentOf a < rawExponentOf b"
  define j where "j = nat (rawExponentOf b - 1)"
  have b: "2 ^ 52 * 2 ^ j \<le> magnitude b"
    using less exponent_bound [of a] mantissa_bound [of b] by (simp add: magnitude_def j_def)
  have "magnitude a < 2 ^ 52 * 2 ^ j"
  proof (cases "rawExponentOf a = 0")
    case True
    then have "magnitude a < 2 ^ 52 * 1" using mantissa_bound [of a] by (simp add: magnitude_def)
    also have "\<dots> \<le> 2 ^ 52 * 2 ^ j" by (intro mult_left_mono) simp_all
    finally show ?thesis .
  next
    case False
    define i where "i = nat (rawExponentOf a - 1)"
    have ij: "Suc i \<le> j" using False less exponent_bound [of a] by (simp add: i_def j_def)
    have "magnitude a < 2 ^ 53 * 2 ^ i" using False mantissa_bound [of a] by (simp add: magnitude_def i_def)
    also have "\<dots> = 2 ^ 52 * 2 ^ Suc i" by simp
    also have "\<dots> \<le> 2 ^ 52 * 2 ^ j" using ij by (intro mult_left_mono power_increasing) simp_all
    finally show ?thesis .
  qed
  then show ?thesis using b by linarith
qed

lemma magnitude_inj:
  assumes "magnitude a = magnitude b" and "bit a 63 = bit b 63"
  shows "a = b"
proof -
  have r: "rawExponentOf a = rawExponentOf b" using assms(1) magnitude_mono [of a b] magnitude_mono [of b a] by linarith
  then have m: "uint (mantissaOf a) = uint (mantissaOf b)" using assms(1) by (cases "rawExponentOf b = 0") (simp_all add: magnitude_def)
  have u: "uint y = (if bit y 63 then 2 ^ 63 else 0) + (rawExponentOf y * 2 ^ 52 + uint (mantissaOf y))" for y :: double
  proof -
    have "uint y mod 2 ^ 63 = 2 ^ 52 * (uint y div 2 ^ 52 mod 2 ^ 11) + uint y mod 2 ^ 52" using zmod_zmult2_eq [of "2 ^ 11" "uint y" "2 ^ 52"] by simp
    moreover have "uint y div 2 ^ 63 = (if 2 ^ 63 \<le> uint y then 1 else 0)" using uint_lt_64 [of y] uint_nonneg [of y] by auto
    moreover have "uint y = 2 ^ 63 * (uint y div 2 ^ 63) + uint y mod 2 ^ 63" by (rule mult_div_mod_eq [symmetric])
    ultimately show ?thesis unfolding double_layout by (simp only: mult.commute [of _ "2 ^ 52"] if_distrib [of "(*) (2 ^ 63)"] mult_1_right mult_zero_right)
  qed
  have "uint a = uint b" unfolding u [of a] u [of b] r m assms(2) ..
  then show ?thesis by (simp only: word_uint_eq_iff)
qed

lemma finite_bound: "isFinite y \<Longrightarrow> magnitude y < (2 ^ 1024 - 2 ^ 970) * scale"
proof -
  assume "isFinite y"
  then have j: "nat (rawExponentOf y - 1) \<le> 2045" using exponent_bound [of y] by (simp add: isFinite_def)
  have "magnitude y \<le> (2 ^ 53 - 1) * 2 ^ nat (rawExponentOf y - 1)"
    using mantissa_bound [of y] by (cases "rawExponentOf y = 0") (simp_all add: magnitude_def)
  also have "\<dots> \<le> (2 ^ 53 - 1) * 2 ^ 2045" using j by (intro mult_left_mono power_increasing) simp_all
  also have "\<dots> = (2 ^ 54 - 2) * 2 ^ 2044" unfolding power_Suc [of 2 2044, simplified] by simp
  also have "\<dots> < (2 ^ 54 - 1) * 2 ^ 2044" by (intro mult_strict_right_mono) simp_all
  finally show ?thesis unfolding overflow_limit .
qed

lemma createFromDouble_toNumberHeap:
  assumes y: "isIntegerDouble y" and x: "canonical x" "bval x * scale = scaledValue y"
  shows "toNumberHeap x = Inr (if isZeroDouble y then 0 else y)"
proof -
  obtain b where b: "toNumberHeap x = Inr b" "bit b 63 \<longleftrightarrow> bval x < 0"
    "if 2 ^ 1024 - 2 ^ 970 \<le> \<bar>bval x\<bar> then b = infinity (m_sign x) else nearestDouble (bval x) b" by (rule toNumberHeap_result [OF x(1)])
  have sc: "0 < scale" by (simp add: scale_def)
  have fin: "isFinite y" using y by (simp add: isIntegerDouble_def)
  have "\<bar>bval x\<bar> * scale = magnitude y" using arg_cong [OF x(2), of abs] sc by (simp add: abs_mult scaledValue_def split: if_splits)
  then have "\<bar>bval x\<bar> * scale < (2 ^ 1024 - 2 ^ 970) * scale" using finite_bound [OF fin] by (simp only:)
  then have "\<not> 2 ^ 1024 - 2 ^ 970 \<le> \<bar>bval x\<bar>" unfolding mult_less_cancel_right_pos [OF sc] not_le .
  then have "nearestDouble (bval x) b" using b(3) by (simp only: if_False)
  then have "\<bar>scaledValue b - bval x * scale\<bar> \<le> \<bar>scaledValue y - bval x * scale\<bar>" using fin unfolding nearestDouble_def by (metis order_le_less)
  then have eq: "scaledValue b = scaledValue y" unfolding x(2) by simp
  show ?thesis
  proof (cases "isZeroDouble y")
    case True
    then have "bval x = 0" using x(2) scaledValue_0_iff [of y] sc by simp
    then show ?thesis using True canonical_bval_0 [OF x(1)] by (simp add: toNumberHeap_def)
  next
    case False
    have "bit y 63 \<longleftrightarrow> lessThanZero y" using False fin by (simp add: lessThanZero_def isNaN_def isFinite_def)
    also have "\<dots> \<longleftrightarrow> bval x < 0" unfolding lessThanZero_iff [OF fin] x(2) [symmetric] using sc by (simp add: mult_less_0_iff)
    finally have "bit y 63 \<longleftrightarrow> bval x < 0" .
    then have "b = y" using b(2) eq by (intro magnitude_inj) (auto simp: scaledValue_def)
    then show ?thesis using b(1) False by simp
  qed
qed

text \<open>
  C35. \<^verbatim>\<open>toNumberHeap\<close> rounds correctly: for every BigInt it returns, without failing an assertion, the finite double nearest to the value, and the
  one with an even mantissa when two are equally near; from 2 to the power 1024 minus 2 to the power 970 on, the infinity of the same sign. The sign bit is
  set exactly for negative BigInts.
\<close>

theorem toNumberHeap_nearest:
  assumes "canonical x"
  shows "\<exists>b. toNumberHeap x = Inr b \<and> (bit b 63 \<longleftrightarrow> bval x < 0)
    \<and> (if 2 ^ 1024 - 2 ^ 970 \<le> \<bar>bval x\<bar> then b = infinity (m_sign x) else nearestDouble (bval x) b)"
  using toNumberHeap_result [OF assms] by metis

text \<open>2 to the power 53 plus 1 lies between two doubles.\<close>

theorem toNumberHeap_nearest_witness:
  "toNumberHeap (posBig [0x20000000000001]) = Inr 0x4340000000000000 \<and> nearestDouble 0x20000000000001 0x4340000000000000"
proof -
  have r: "toNumberHeap (posBig [0x20000000000001]) = Inr 0x4340000000000000" by code_simp
  have x: "canonical (posBig [0x20000000000001])" "bval (posBig [0x20000000000001]) = 0x20000000000001" by (simp_all add: example_simps)
  obtain b where b: "toNumberHeap (posBig [0x20000000000001]) = Inr b"
    "if 2 ^ 1024 - 2 ^ 970 \<le> \<bar>0x20000000000001 :: int\<bar> then b = infinity (m_sign (posBig [0x20000000000001])) else nearestDouble 0x20000000000001 b"
    using toNumberHeap_nearest [OF x(1)] unfolding x(2) by blast
  have "\<not> 2 ^ 1024 - 2 ^ 970 \<le> \<bar>0x20000000000001 :: int\<bar>" by simp
  then have "nearestDouble 0x20000000000001 b" using b(2) by (simp only: if_False)
  then show ?thesis using r b(1) by simp
qed

text \<open>
  C36. A round trip: on a double that is an integer, \<^verbatim>\<open>createFrom(double)\<close> either runs out of memory for at most 16 digits or returns the canonical BigInt
  of exactly this value, which \<^verbatim>\<open>toNumberHeap\<close> converts back to the same double; both zeros become positive zero.
\<close>

theorem createFromDouble_roundtrip:
  assumes "isIntegerDouble y"
  shows "outcome (oom env 16)
    (\<lambda>x. canonical x \<and> bval x * scale = scaledValue y \<and> toNumberHeap x = Inr (if isZeroDouble y then 0 else y)) (createFromDouble env y)"
proof -
  obtain v where v: "scaledValue y = v * scale" using assms unfolding isIntegerDouble_def dvd_def by (metis mult.commute)
  show ?thesis using createFromDouble_computes [OF assms v, of env] createFromDouble_toNumberHeap [OF assms]
    by (auto simp: computes_def represents_def v outcome_def split: sum.splits)
qed

text \<open>Minus 2 to the power 64.\<close>

theorem createFromDouble_roundtrip_witness:
  "outcome (oom roomyHeap 16) (\<lambda>x. canonical x \<and> bval x * scale = scaledValue 0xC3F0000000000000 \<and> toNumberHeap x = Inr 0xC3F0000000000000)
    (createFromDouble roomyHeap 0xC3F0000000000000)"
proof -
  have "isIntegerDouble 0xC3F0000000000000" by code_simp
  moreover have "\<not> isZeroDouble 0xC3F0000000000000" by code_simp
  ultimately show ?thesis using createFromDouble_roundtrip [of "0xC3F0000000000000" roomyHeap] by simp
qed

end
