(* ===== verification/JSValue_Boxing.thy ===== *)
theory JSValue_Boxing
  imports BigInt_Double
begin

text \<open>
  The 64-bit representation of JavaScript values (\<^verbatim>\<open>USE(JSVALUE64)\<close> in \<^verbatim>\<open>runtime/JSCJSValue.h\<close> and \<^verbatim>\<open>runtime/JSCJSValueInlines.h\<close>): 32-bit
  integers, doubles, booleans, \<^verbatim>\<open>undefined\<close>, \<^verbatim>\<open>null\<close> and pointers to cells in one word, with the tests and the accessors. A failing
  \<^verbatim>\<open>ASSERT\<close> is an error.
\<close>


section \<open>Tags\<close>

definition DoubleEncodeOffsetBit :: nat where
  "DoubleEncodeOffsetBit = 49"

definition DoubleEncodeOffset :: "64 word" where
  "DoubleEncodeOffset = push_bit DoubleEncodeOffsetBit 1"

definition NumberTag :: "64 word" where
  "NumberTag = 0xfffe000000000000"

definition OtherTag :: "64 word" where
  "OtherTag = 0x2"

definition BoolTag :: "64 word" where
  "BoolTag = 0x4"

definition UndefinedTag :: "64 word" where
  "UndefinedTag = 0x8"

definition ValueFalse :: "64 word" where
  "ValueFalse = OtherTag OR BoolTag"

definition ValueTrue :: "64 word" where
  "ValueTrue = OtherTag OR BoolTag OR 1"

definition ValueUndefined :: "64 word" where
  "ValueUndefined = OtherTag OR UndefinedTag"

definition ValueNull :: "64 word" where
  "ValueNull = OtherTag"

definition NotCellMask :: "64 word" where
  "NotCellMask = NumberTag OR OtherTag"

definition ValueEmpty :: "64 word" where
  "ValueEmpty = 0"


section \<open>Boxing\<close>

definition pureNaN :: double where
  "pureNaN = 0x7ff8000000000000"

definition isImpureNaN :: "double \<Rightarrow> bool" where
  "isImpureNaN d \<longleftrightarrow> d \<ge> 0xfffe000000000000"

definition purifyNaN :: "double \<Rightarrow> double" where
  "purifyNaN d = (if isNaN d then pureNaN else d)"

definition boxInt32 :: "32 word \<Rightarrow> 64 word" where
  "boxInt32 i = NumberTag OR ucast i"

definition boxDouble :: "double \<Rightarrow> (js_error, 64 word) result" where
  "boxDouble d = andThen (assertThat (\<not> isImpureNaN d)) (\<lambda>_. Inr (d + DoubleEncodeOffset))"

definition isInt32 :: "64 word \<Rightarrow> bool" where
  "isInt32 u \<longleftrightarrow> u AND NumberTag = NumberTag"

definition isNumber :: "64 word \<Rightarrow> bool" where
  "isNumber u \<longleftrightarrow> u AND NumberTag \<noteq> 0"

definition isDouble :: "64 word \<Rightarrow> bool" where
  "isDouble u \<longleftrightarrow> isNumber u \<and> \<not> isInt32 u"

definition isCell :: "64 word \<Rightarrow> bool" where
  "isCell u \<longleftrightarrow> u AND NotCellMask = 0"

definition isUndefined :: "64 word \<Rightarrow> bool" where
  "isUndefined u \<longleftrightarrow> u = ValueUndefined"

definition isNull :: "64 word \<Rightarrow> bool" where
  "isNull u \<longleftrightarrow> u = ValueNull"

definition isUndefinedOrNull :: "64 word \<Rightarrow> bool" where
  "isUndefinedOrNull u \<longleftrightarrow> u AND NOT UndefinedTag = ValueNull"

definition isBoolean :: "64 word \<Rightarrow> bool" where
  "isBoolean u \<longleftrightarrow> u AND NOT 1 = ValueFalse"

definition isTrue :: "64 word \<Rightarrow> bool" where
  "isTrue u \<longleftrightarrow> u = ValueTrue"

definition isEmptyValue :: "64 word \<Rightarrow> bool" where
  "isEmptyValue u \<longleftrightarrow> u = ValueEmpty"

definition asInt32 :: "64 word \<Rightarrow> (js_error, 32 word) result" where
  "asInt32 u = andThen (assertThat (isInt32 u)) (\<lambda>_. Inr (ucast u))"

definition asDouble :: "64 word \<Rightarrow> (js_error, double) result" where
  "asDouble u = andThen (assertThat (isDouble u)) (\<lambda>_. Inr (u - DoubleEncodeOffset))"

definition asBoolean :: "64 word \<Rightarrow> (js_error, bool) result" where
  "asBoolean u = andThen (assertThat (isBoolean u)) (\<lambda>_. Inr (isTrue u))"

definition asCell :: "64 word \<Rightarrow> (js_error, 64 word) result" where
  "asCell u = andThen (assertThat (isCell u)) (\<lambda>_. Inr u)"


section \<open>What a word stands for\<close>

datatype boxed = Int32Box "32 word" | DoubleBox double | BooleanBox bool | UndefinedBox | NullBox | CellBox "64 word"

fun box :: "boxed \<Rightarrow> (js_error, 64 word) result" where
  "box (Int32Box i) = Inr (boxInt32 i)"
| "box (DoubleBox d) = boxDouble d"
| "box (BooleanBox b) = Inr (if b then ValueTrue else ValueFalse)"
| "box UndefinedBox = Inr ValueUndefined"
| "box NullBox = Inr ValueNull"
| "box (CellBox p) = Inr p"

text \<open>
  Doubles that can be boxed, and pointers to cells: not null, in the low 49 bits of the address space, and aligned so that bit 1 is clear.
\<close>

fun boxable :: "boxed \<Rightarrow> bool" where
  "boxable (DoubleBox d) \<longleftrightarrow> d < 0xfffc000000000000"
| "boxable (CellBox p) \<longleftrightarrow> p \<noteq> 0 \<and> p < 2 ^ 49 \<and> p AND 2 = 0"
| "boxable _ \<longleftrightarrow> True"

definition unbox :: "64 word \<Rightarrow> (js_error, boxed) result" where
  "unbox u =
     (if isInt32 u then andThen (asInt32 u) (\<lambda>i. Inr (Int32Box i))
      else if isDouble u then andThen (asDouble u) (\<lambda>d. Inr (DoubleBox d))
      else if isBoolean u then andThen (asBoolean u) (\<lambda>b. Inr (BooleanBox b))
      else if isUndefined u then Inr UndefinedBox
      else if isNull u then Inr NullBox
      else andThen (asCell u) (\<lambda>p. Inr (CellBox p)))"


section \<open>The tests in terms of the value of the word\<close>

lemma NumberTag_mask: "NumberTag = push_bit 49 (mask 15)"
  by (simp add: NumberTag_def push_bit_eq_mult mask_eq_exp_minus_1)

lemma tag_bits: "u AND NumberTag = push_bit 49 (drop_bit 49 u)"
  unfolding NumberTag_mask by (rule bit_word_eqI) (auto simp: bit_simps)

lemma uint_64: "0 \<le> uint (u :: 64 word)" "uint u < 0x10000000000000000"
  using uint_lt2p [of u] by simp_all

lemma div_cut: "0 < k \<Longrightarrow> x div k * k \<le> (x :: int)" "0 < k \<Longrightarrow> (x :: int) < x div k * k + k"
  using div_mult_mod_eq [of x k] pos_mod_sign [of k x] pos_mod_bound [of k x] by linarith+

lemma uint_tag_bits: "uint (u AND NumberTag) = uint u div 0x2000000000000 * 0x2000000000000"
proof -
  have "uint u div 0x2000000000000 * 0x2000000000000 < 0x10000000000000000" using div_cut(1) [of "0x2000000000000" "uint u"] uint_64 [of u] by simp
  moreover have "0 \<le> uint u div 0x2000000000000 * 0x2000000000000" by (simp add: pos_imp_zdiv_nonneg_iff)
  ultimately have "uint u div 0x2000000000000 * 0x2000000000000 mod 0x10000000000000000 = uint u div 0x2000000000000 * 0x2000000000000"
    by (intro mod_pos_pos_trivial)
  moreover have "uint u mod 0x10000000000000000 = uint u" using uint_64 [of u] by (intro mod_pos_pos_trivial)
  ultimately show ?thesis unfolding tag_bits unsigned_push_bit_eq unsigned_drop_bit_eq by (simp add: take_bit_eq_mod push_bit_eq_mult drop_bit_eq_div)
qed

lemma isNumber_iff: "isNumber u \<longleftrightarrow> 0x2000000000000 \<le> uint u"
proof -
  have "u AND NumberTag = 0 \<longleftrightarrow> uint u div 0x2000000000000 * 0x2000000000000 = 0" unfolding uint_tag_bits [symmetric] by (simp add: unsigned_eq_0_iff)
  also have "\<dots> \<longleftrightarrow> \<not> 0 < uint u div 0x2000000000000" using pos_imp_zdiv_nonneg_iff [of "0x2000000000000" "uint u"] uint_64 [of u] by auto
  finally show ?thesis unfolding isNumber_def by (simp add: pos_imp_zdiv_pos_iff)
qed

lemma isInt32_iff: "isInt32 u \<longleftrightarrow> 0xfffe000000000000 \<le> uint u"
proof -
  have "u AND NumberTag = NumberTag \<longleftrightarrow> uint u div 0x2000000000000 * 0x2000000000000 = 0xfffe000000000000"
    unfolding uint_tag_bits [symmetric] by (simp add: NumberTag_def word_uint_eq_iff)
  moreover have "q * 0x2000000000000 = 0xfffe000000000000 \<longleftrightarrow> 0xfffe000000000000 \<le> x"
    if "0 \<le> x" "x < 0x10000000000000000" "q * 0x2000000000000 \<le> x" "x < q * 0x2000000000000 + 0x2000000000000" for q x :: int
    using that by (cases "q \<le> 0x7ffe") simp_all
  ultimately show ?thesis unfolding isInt32_def using uint_64 [of u] div_cut [of "0x2000000000000" "uint u"] by simp
qed

lemma isDouble_iff: "isDouble u \<longleftrightarrow> 0x2000000000000 \<le> uint u \<and> uint u < 0xfffe000000000000"
  by (auto simp: isDouble_def isNumber_iff isInt32_iff)

lemma isCell_iff: "isCell u \<longleftrightarrow> uint u < 0x2000000000000 \<and> u AND 2 = 0"
  using isNumber_iff [of u] by (auto simp: isCell_def NotCellMask_def OtherTag_def isNumber_def bit.conj_disj_distrib or_eq_0_iff)

lemma unset_one:
  fixes u :: "64 word"
  assumes "k < 64" and "\<not> bit v k"
  shows "u AND NOT (push_bit k 1) = v \<longleftrightarrow> u = v \<or> u = v OR push_bit k 1"
proof -
  have "u = (u AND NOT (push_bit k 1)) OR (if bit u k then push_bit k 1 else 0)" by (rule bit_word_eqI) (auto simp: bit_simps)
  moreover have "(v OR push_bit k 1) AND NOT (push_bit k 1) = v" "v AND NOT (push_bit k 1) = v"
    using assms by (auto intro!: bit_word_eqI simp: bit_simps)
  ultimately show ?thesis by (cases "bit u k") auto
qed

lemma isBoolean_iff: "isBoolean u \<longleftrightarrow> u = 6 \<or> u = 7"
  using unset_one [of 0 6 u] by (simp add: isBoolean_def ValueFalse_def OtherTag_def BoolTag_def bit_iff_odd)

lemma isUndefinedOrNull_iff: "isUndefinedOrNull u \<longleftrightarrow> u = 2 \<or> u = 10"
  using unset_one [of 3 2 u] by (simp add: isUndefinedOrNull_def ValueNull_def OtherTag_def UndefinedTag_def push_bit_eq_mult bit_iff_odd)

lemma boxInt32_uint: "uint (boxInt32 i) = 0xfffe000000000000 + uint i"
proof -
  have "NumberTag AND ucast i = 0" unfolding NumberTag_mask by (rule bit_word_eqI) (auto simp: bit_simps dest: bit_imp_le_length)
  then have "boxInt32 i = NumberTag + ucast i" by (simp add: boxInt32_def disjunctive_add_eq_or)
  moreover have "uint (ucast i :: 64 word) = uint i" using uint_lt2p [of i] by (simp add: unsigned_ucast_eq take_bit_int_eq_self)
  ultimately show ?thesis using uint_lt2p [of i] by (simp add: NumberTag_def uint_word_ariths)
qed

lemma boxInt32_low: "ucast (boxInt32 i) = i"
  unfolding boxInt32_def NumberTag_mask by (rule bit_word_eqI) (auto simp: bit_simps)

lemma boxDouble_uint:
  assumes "\<not> isImpureNaN d"
  shows "\<exists>u. boxDouble d = Inr u \<and> uint u = uint d + 0x2000000000000 \<and> u - DoubleEncodeOffset = d"
proof -
  have "uint d < 0xfffe000000000000" using assms by (simp add: isImpureNaN_def word_le_def)
  then have "uint (d + DoubleEncodeOffset) = uint d + 0x2000000000000"
    by (simp add: DoubleEncodeOffset_def DoubleEncodeOffsetBit_def uint_word_ariths push_bit_eq_mult)
  then show ?thesis using assms by (simp add: boxDouble_def)
qed

lemmas value_nums = ValueFalse_def ValueTrue_def ValueUndefined_def ValueNull_def ValueEmpty_def OtherTag_def BoolTag_def UndefinedTag_def

lemmas tests_iff = isInt32_iff isDouble_iff isNumber_iff isCell_iff isBoolean_iff isUndefinedOrNull_iff


section \<open>Properties\<close>

text \<open>
  C39. Boxing is faithful. Every 32-bit integer, double below the range reserved for the tags, boolean, \<^verbatim>\<open>undefined\<close>, \<^verbatim>\<open>null\<close> and pointer to a cell
  is represented by a word from which the tests and the accessors recover it: each test holds for exactly the values of its kind, no accessor
  fails its assertion, and the word is not the one for an empty value.
\<close>

theorem boxing_roundtrip:
  assumes "boxable v"
  shows "\<exists>u. box v = Inr u \<and> unbox u = Inr v \<and> \<not> isEmptyValue u
    \<and> (isInt32 u \<longleftrightarrow> (\<exists>i. v = Int32Box i)) \<and> (isDouble u \<longleftrightarrow> (\<exists>d. v = DoubleBox d)) \<and> (isCell u \<longleftrightarrow> (\<exists>p. v = CellBox p))
    \<and> (isBoolean u \<longleftrightarrow> (\<exists>b. v = BooleanBox b)) \<and> (isUndefinedOrNull u \<longleftrightarrow> v = UndefinedBox \<or> v = NullBox)
    \<and> (isUndefined u \<longleftrightarrow> v = UndefinedBox) \<and> (isNull u \<longleftrightarrow> v = NullBox)"
proof (cases v)
  case (Int32Box i)
  have u: "0xfffe000000000000 \<le> uint (boxInt32 i)" by (simp add: boxInt32_uint)
  then have "boxInt32 i \<notin> {0, 2, 6, 7, 10}" by auto
  then show ?thesis using u boxInt32_low [of i] unfolding Int32Box by (simp add: unbox_def tests_iff isEmptyValue_def isUndefined_def isNull_def value_nums asInt32_def)
next
  case (DoubleBox d)
  then have "\<not> isImpureNaN d" "uint d < 0xfffc000000000000" using assms by (auto simp: isImpureNaN_def word_less_def word_le_def)
  then obtain u where u: "boxDouble d = Inr u" "uint u = uint d + 0x2000000000000" "u - DoubleEncodeOffset = d" using boxDouble_uint by blast
  have "0x2000000000000 \<le> uint u" using u(2) uint_64 [of d] by linarith
  then have "u \<notin> {0, 2, 6, 7, 10}" by auto
  then show ?thesis using u \<open>uint d < _\<close> unfolding DoubleBox by (simp add: unbox_def tests_iff isEmptyValue_def isUndefined_def isNull_def value_nums asDouble_def)
next
  case (CellBox p)
  then have p: "p \<noteq> 0" "uint p < 0x2000000000000" "p AND 2 = 0" using assms by (auto simp: word_less_def)
  then have "p \<notin> {2, 6, 7, 10}" by auto
  then show ?thesis using p unfolding CellBox by (simp add: unbox_def tests_iff isEmptyValue_def isUndefined_def isNull_def value_nums asCell_def)
qed (use assms in \<open>auto simp: unbox_def tests_iff isEmptyValue_def isUndefined_def isNull_def value_nums asBoolean_def isTrue_def\<close>)

theorem boxing_roundtrip_witness:
  "box (Int32Box 0xFFFFFFFF) = Inr 0xfffe0000FFFFFFFF \<and> unbox 0xfffe0000FFFFFFFF = Inr (Int32Box 0xFFFFFFFF)
   \<and> box (DoubleBox pureNaN) = Inr 0x7ffa000000000000 \<and> unbox 0x7ffa000000000000 = Inr (DoubleBox pureNaN)"
proof -
  have "box (Int32Box 0xFFFFFFFF) = Inr 0xfffe0000FFFFFFFF" "box (DoubleBox pureNaN) = Inr 0x7ffa000000000000"
    by (simp_all add: boxInt32_def NumberTag_def boxDouble_def isImpureNaN_def pureNaN_def DoubleEncodeOffset_def DoubleEncodeOffsetBit_def push_bit_eq_mult)
  then show ?thesis using boxing_roundtrip [of "Int32Box 0xFFFFFFFF"] boxing_roundtrip [of "DoubleBox pureNaN"] by (simp add: pureNaN_def)
qed

lemma NaN_range: "0xfffc000000000000 \<le> uint d \<Longrightarrow> isNaN d"
proof -
  assume d: "0xfffc000000000000 \<le> uint d"
  have "uint d div 2 ^ 52 = 0xfff" by (rule int_div_pos_eq [of _ _ _ "uint d - 0xfff0000000000000"]) (use d uint_64 [of d] in simp_all)
  moreover have "uint d mod 2 ^ 52 = uint d - 0xfff0000000000000" by (rule int_mod_pos_eq [of _ _ "0xfff"]) (use d uint_64 [of d] in simp_all)
  ultimately have "rawExponentOf d = 0x7FF" "uint (mantissaOf d) \<noteq> 0" using d by (simp_all add: double_layout)
  then show "isNaN d" by (auto simp: isNaN_def)
qed

text \<open>
  The test for a NaN that cannot be boxed is too weak: it accepts every double whose bits are below \<^verbatim>\<open>0xfffe000000000000\<close>, but a boxed double
  looks like a double only if its bits are below \<^verbatim>\<open>0xfffc000000000000\<close>. The NaNs in between pass the assertion and look like integers once boxed.
\<close>

lemma impure_NaN_accepted:
  assumes "\<not> isImpureNaN d" and "0xfffc000000000000 \<le> d"
  shows "isNaN d \<and> (\<exists>u. boxDouble d = Inr u \<and> \<not> isDouble u \<and> isInt32 u \<and> asInt32 u = Inr (ucast d))"
proof -
  have d: "0xfffc000000000000 \<le> uint d" using assms(2) by (simp add: word_le_def)
  obtain u where u: "boxDouble d = Inr u" "uint u = uint d + 0x2000000000000" using boxDouble_uint [OF assms(1)] by blast
  have "(ucast u :: 32 word) = word_of_int (uint d) + word_of_int 0x2000000000000" unfolding ucast_eq u(2) of_int_add ..
  moreover have "(word_of_int 0x2000000000000 :: 32 word) = 0" by simp
  ultimately have low: "(ucast u :: 32 word) = ucast d" unfolding ucast_eq [of d] by (simp only: add_0_right)
  moreover have "isInt32 u" "\<not> isDouble u" using u(2) d by (simp_all add: isInt32_iff isDouble_iff)
  ultimately show ?thesis using u(1) NaN_range [OF d] by (auto simp: asInt32_def)
qed

end
