(* ===== verification/JS_Number.thy ===== *)
theory JS_Number
  imports BigInt_ToNumber JSValue_Boxing
begin

text \<open>
  Conversions between doubles and 32-bit integers (\<^verbatim>\<open>toInt32\<close>, \<^verbatim>\<open>canBeInt32\<close>, \<^verbatim>\<open>canBeStrictInt32\<close> of \<^verbatim>\<open>runtime/MathCommon.h\<close>), on which the
  operators of the language rest, with the comparisons of doubles.
\<close>


section \<open>Doubles and integers in the language\<close>

text \<open>The integer part of a finite double.\<close>

definition truncated :: "double \<Rightarrow> int" where
  "truncated d = scaledValue d sdiv scale"

text \<open>Comparisons: the bits of doubles are ordered as integers with a sign.\<close>

definition orderKey :: "double \<Rightarrow> int" where
  "orderKey d = (if bit d 63 then - (uint d mod 2 ^ 63) else uint d)"

definition doubleLess :: "double \<Rightarrow> double \<Rightarrow> bool" where
  "doubleLess a b \<longleftrightarrow> \<not> isNaN a \<and> \<not> isNaN b \<and> orderKey a < orderKey b"

definition doubleEqual :: "double \<Rightarrow> double \<Rightarrow> bool" where
  "doubleEqual a b \<longleftrightarrow> \<not> isNaN a \<and> \<not> isNaN b \<and> orderKey a = orderKey b"

definition doubleNegate :: "double \<Rightarrow> double" where
  "doubleNegate d = d XOR push_bit 63 1"

text \<open>The conversion of a 32-bit integer is exact.\<close>

definition int32ToDouble :: "32 word \<Rightarrow> double" where
  "int32ToDouble i =
     (if i = 0 then 0
      else let n = word_of_int \<bar>sint i\<bar> :: 64 word;
               e = 63 - clz n;
               m = push_bit (52 - e) n AND doublePhysicalMantissaMask
           in (if sint i < 0 then push_bit 63 1 else 0) OR push_bit 52 (of_nat (e + 0x3FF)) OR m)"

text \<open>
  \<^verbatim>\<open>static_cast<int32_t>\<close> of a double is undefined if the integer part is not a 32-bit integer; what the machine returns then is a parameter.
\<close>

definition castToInt32 :: "(double \<Rightarrow> 32 word) \<Rightarrow> double \<Rightarrow> 32 word" where
  "castToInt32 outOfRange d =
     (if isFinite d \<and> - (2 ^ 31) \<le> truncated d \<and> truncated d < 2 ^ 31 then word_of_int (truncated d) else outOfRange d)"


section \<open>MathCommon.h\<close>

datatype ToInt32Mode = Generic | AfterSensibleConversionAttempt

text \<open>The negation of the least 32-bit integer overflows.\<close>

definition negateInt32 :: "32 word \<Rightarrow> (js_error, 32 word) result" where
  "negateInt32 i = (if i = 0x80000000 then Inl UndefinedBehaviour else Inr (- i))"

definition toInt32Internal :: "ToInt32Mode \<Rightarrow> double \<Rightarrow> (js_error, 32 word) result" where
  "toInt32Internal Mode number =
     (let bits = number;
          exp = uint (drop_bit 52 bits AND 0x7ff) - 0x3ff
      in if uint (word_of_int exp :: 32 word) > 83 then Inr 0
         else let result = (if exp > 52 then ucast (push_bit (nat (exp - 52)) bits) else ucast (drop_bit (nat (52 - exp)) bits));
                  result = (case Mode of
                      AfterSensibleConversionAttempt \<Rightarrow>
                        (if exp = 31 then (let missingOne = push_bit 31 1 in (result AND (missingOne - 1)) + missingOne) else result)
                    | Generic \<Rightarrow>
                        (if exp < 32 then (let missingOne = push_bit (nat exp) 1 in (result AND (missingOne - 1)) + missingOne) else result))
              in if bit bits 63 then negateInt32 result else Inr result)"

definition toInt32 :: "double \<Rightarrow> (js_error, 32 word) result" where
  "toInt32 number = toInt32Internal Generic number"

definition toUInt32 :: "double \<Rightarrow> (js_error, 32 word) result" where
  "toUInt32 number = toInt32 number"

definition canBeStrictInt32 :: "(double \<Rightarrow> 32 word) \<Rightarrow> double \<Rightarrow> bool" where
  "canBeStrictInt32 outOfRange d =
     (if \<not> isFinite d then False
      else let asInt32 = castToInt32 outOfRange d
           in \<not> (\<not> doubleEqual (int32ToDouble asInt32) d \<or> asInt32 = 0 \<and> bit d 63))"

definition canBeInt32 :: "(double \<Rightarrow> 32 word) \<Rightarrow> double \<Rightarrow> bool" where
  "canBeInt32 outOfRange d = (if \<not> isFinite d then False else doubleEqual (int32ToDouble (castToInt32 outOfRange d)) d)"


section \<open>Comparisons\<close>

abbreviation absKey :: "double \<Rightarrow> int" where
  "absKey d \<equiv> uint d mod 2 ^ 63"

lemma absKey_parts: "absKey d = rawExponentOf d * 2 ^ 52 + uint (mantissaOf d)"
  using mod_mult2_eq' [of "uint d" "2 ^ 52" "2 ^ 11"] by (simp add: double_layout)

lemma absKey_less: "absKey a < absKey b \<longleftrightarrow> magnitude a < magnitude b"
proof -
  have lex: "absKey a < absKey b" "magnitude a < magnitude b" if "rawExponentOf a < rawExponentOf b" for a b
  proof -
    have "(rawExponentOf a + 1) * 2 ^ 52 \<le> rawExponentOf b * 2 ^ 52" using that by (intro mult_right_mono) auto
    then show "absKey a < absKey b" using mantissa_bound [of a] mantissa_bound [of b] unfolding absKey_parts distrib_right mult_1 by linarith
  qed (rule magnitude_mono [OF that])
  show ?thesis
  proof (cases "rawExponentOf a" "rawExponentOf b" rule: linorder_cases)
    case equal
    then show ?thesis unfolding absKey_parts magnitude_def by simp
  next
    case greater
    then show ?thesis using lex [of b a] by linarith
  qed (use lex [of a b] in linarith)
qed

lemma orderKey_sign: "orderKey d = (if bit d 63 then - absKey d else absKey d)"
  using uint_64 [of d] by (simp add: orderKey_def double_layout(3))

lemma signed_order:
  fixes k l m n :: int
  assumes "k < l \<longleftrightarrow> m < n" and "l < k \<longleftrightarrow> n < m" and "0 < k \<longleftrightarrow> 0 < m" and "0 < l \<longleftrightarrow> 0 < n" and "0 \<le> k" "0 \<le> l" "0 \<le> m" "0 \<le> n"
  shows "(if s then - k else k) < (if r then - l else l) \<longleftrightarrow> (if s then - m else m) < (if r then - n else n)"
proof -
  have "- k < l \<longleftrightarrow> 0 < k \<or> 0 < l" "- m < n \<longleftrightarrow> 0 < m \<or> 0 < n" "\<not> k < - l" "\<not> m < - n" using assms(5-8) by linarith+
  then show ?thesis using assms(1-4) by (cases s; cases r) simp_all
qed

lemma orderKey_less: "orderKey a < orderKey b \<longleftrightarrow> scaledValue a < scaledValue b"
proof -
  have z: "absKey 0 = 0" "magnitude 0 = 0" by (simp_all add: magnitude_0_iff isZeroDouble_def)
  have p: "0 < absKey d \<longleftrightarrow> 0 < magnitude d" for d using absKey_less [of 0 d] unfolding z .
  show ?thesis unfolding orderKey_sign scaledValue_def
    by (rule signed_order [OF absKey_less absKey_less p p]) simp_all
qed

lemma orderKey_equal: "orderKey a = orderKey b \<longleftrightarrow> scaledValue a = scaledValue b"
  using orderKey_less [of a b] orderKey_less [of b a] by linarith

lemma finite_not_NaN: "isFinite d \<Longrightarrow> \<not> isNaN d"
  by (simp add: isFinite_def isNaN_def)

lemma doubleEqual_iff: "isFinite a \<Longrightarrow> isFinite b \<Longrightarrow> doubleEqual a b \<longleftrightarrow> scaledValue a = scaledValue b"
  by (simp add: doubleEqual_def finite_not_NaN orderKey_equal)

lemma doubleLess_iff: "isFinite a \<Longrightarrow> isFinite b \<Longrightarrow> doubleLess a b \<longleftrightarrow> scaledValue a < scaledValue b"
  by (simp add: doubleLess_def finite_not_NaN orderKey_less)


section \<open>Integers as doubles\<close>

lemma combineDouble_bits: "combineDouble s e m = Inr b \<Longrightarrow> b = (if s then push_bit 63 1 else 0) OR push_bit 52 (of_nat (e + 0x3FF)) OR m"
  unfolding combineDouble_def Let_def assertThat_def doublePhysicalMantissaSize_def by (simp split: if_splits)

text \<open>A positive integer below \<open>2 ^ 53\<close>, shifted so that its highest bit is the hidden bit.\<close>

lemma normalised_mantissa:
  fixes n :: "64 word"
  assumes "n \<noteq> 0" and "uint n \<le> 2 ^ 52" and "e = 63 - clz n"
  shows "e \<le> 52" and "uint (mantissaOf (push_bit (52 - e) n)) = uint n * 2 ^ (52 - e) - 2 ^ 52"
proof -
  note c = clz_normalises [OF assms(1)]
  have clz: "clz n = 63 - e" "e \<le> 63" using c(1) assms(3) by simp_all
  have split: "(2 :: int) ^ e * 2 ^ (k - e) = 2 ^ k" "(2 :: int) ^ (e + 1) * 2 ^ (k - e) = 2 ^ (k + 1)" if "e \<le> k" for k
    using that by (simp_all flip: power_add)
  have "2 ^ e * 2 ^ clz n \<le> uint n * 2 ^ clz n" "uint n * 2 ^ clz n < 2 ^ (e + 1) * 2 ^ clz n"
    using c(2,3) clz(2) unfolding clz(1) split [OF clz(2)] by simp_all
  then have e: "2 ^ e \<le> uint n" "uint n < 2 ^ (e + 1)" by (simp_all only: mult_le_cancel_right mult_less_cancel_right) simp_all
  then have "(2 :: int) ^ e \<le> 2 ^ 52" using assms(2) by linarith
  then show le: "e \<le> 52" by (rule power_le_imp_le_exp [rotated]) simp
  have "2 ^ e * 2 ^ (52 - e) \<le> uint n * 2 ^ (52 - e)" "uint n * 2 ^ (52 - e) < 2 ^ (e + 1) * 2 ^ (52 - e)"
    using e by (simp_all add: mult_right_mono)
  then have b: "2 ^ 52 \<le> uint n * 2 ^ (52 - e)" "uint n * 2 ^ (52 - e) < 2 ^ 52 + 2 ^ 52" unfolding split [OF le] by simp_all
  then have "uint (push_bit (52 - e) n) = uint n * 2 ^ (52 - e)" unfolding uint_push_bit by (intro mod_pos_pos_trivial) simp_all
  moreover have "uint n * 2 ^ (52 - e) mod 2 ^ 52 = uint n * 2 ^ (52 - e) - 2 ^ 52"
    by (rule int_mod_pos_eq [of _ _ 1]) (use b in linarith)+
  ultimately show "uint (mantissaOf (push_bit (52 - e) n)) = uint n * 2 ^ (52 - e) - 2 ^ 52" unfolding double_layout by simp
qed

lemma int32ToDouble_value: "isFinite (int32ToDouble i)" "scaledValue (int32ToDouble i) = sint i * scale"
proof -
  have "isFinite (int32ToDouble i) \<and> scaledValue (int32ToDouble i) = sint i * scale"
  proof (cases "i = 0")
    case True
    then show ?thesis by (simp add: int32ToDouble_def isFinite_def rawExponentOf_def scaledValue_0_iff isZeroDouble_def)
  next
    case False
    define n :: "64 word" where "n = word_of_int \<bar>sint i\<bar>"
    define e where "e = 63 - clz n"
    define m where "m = mantissaOf (push_bit (52 - e) n)"
    have i: "sint i \<noteq> 0" "\<bar>sint i\<bar> \<le> 2 ^ 31" using False sint_ge [of i] sint_lt [of i] by (simp_all add: abs_le_iff signed_eq_0_iff)
    have n: "uint n = \<bar>sint i\<bar>" using i unfolding n_def by (simp add: uint_word_of_int)
    then have n0: "n \<noteq> 0" "uint n \<le> 2 ^ 52" using i by auto
    note m = normalised_mantissa [OF n0 e_def, folded m_def]
    have "e \<le> 1023" "uint m < 2 ^ 52" using m(1) mantissa_bound [of "push_bit (52 - e) n"] by (simp_all add: m_def)
    then obtain b where b: "combineDouble (sint i < 0) e m = Inr b" "isFinite b" "bit b 63 = (sint i < 0)" "magnitude b = (2 ^ 52 + uint m) * 2 ^ (e + 1022)"
      by (rule combineDouble_correct)
    have "int32ToDouble i = b"
      unfolding combineDouble_bits [OF b(1)] int32ToDouble_def Let_def if_not_P [OF False] n_def [symmetric] e_def [symmetric] m_def mantissaOf_def ..
    moreover have "magnitude b = \<bar>sint i\<bar> * scale"
    proof -
      have "magnitude b = uint n * (2 ^ (52 - e) * 2 ^ (e + 1022))" unfolding b(4) m(2) by simp
      then show ?thesis using m(1) unfolding n scale_def by (simp flip: power_add)
    qed
    ultimately show ?thesis using b(2,3) by (auto simp: scaledValue_def)
  qed
  then show "isFinite (int32ToDouble i)" "scaledValue (int32ToDouble i) = sint i * scale" by blast+
qed

lemma scale_pos: "0 < scale"
  by (simp add: scale_def)

lemma truncated_sign: "truncated d = (if bit d 63 then - (magnitude d div scale) else magnitude d div scale)"
  using scale_pos magnitude_nonneg [of d] by (auto simp: truncated_def scaledValue_def signed_divide_int_def sgn_if)

lemma truncated_exact: "scaledValue d = v * scale \<Longrightarrow> truncated d = v"
  using scale_pos by (simp add: truncated_def signed_divide_int_def abs_mult sgn_mult sgn_mult_abs)

text \<open>What the machine returns for a conversion that is out of range does not matter for the tests.\<close>

lemma castToInt32_exact: "isFinite d \<Longrightarrow> scaledValue d = sint i * scale \<Longrightarrow> castToInt32 outOfRange d = i"
  using sint_ge [of i] sint_lt [of i] truncated_exact [of d "sint i"] by (simp add: castToInt32_def)

lemma canBeInt32_iff: "canBeInt32 outOfRange d \<longleftrightarrow> isFinite d \<and> (\<exists>i :: 32 word. scaledValue d = sint i * scale)"
proof -
  have "canBeInt32 outOfRange d \<longleftrightarrow> isFinite d \<and> scaledValue d = sint (castToInt32 outOfRange d) * scale"
    by (auto simp: canBeInt32_def doubleEqual_iff int32ToDouble_value)
  then show ?thesis using castToInt32_exact by metis
qed


section \<open>The conversion to a 32-bit integer\<close>

text \<open>The 32 bits that the code selects, for a double with exponent \<open>e\<close>.\<close>

lemma selected_bits:
  fixes d :: double
  assumes "e = nat (rawExponentOf d - 1023)" and "1023 \<le> rawExponentOf d"
  shows "magnitude d div scale = (if e \<le> 52 then 2 ^ e + uint d div 2 ^ (52 - e) mod 2 ^ e else (2 ^ 52 + uint (mantissaOf d)) * 2 ^ (e - 52))"
proof -
  let ?M = "uint (mantissaOf d)"
  have m: "magnitude d = (2 ^ 52 + ?M) * 2 ^ (e + 1022)" by (rule magnitude_normal(1) [OF assms(2,1)])
  show ?thesis
  proof (cases "e \<le> 52")
    case True
    have "52 - e + (e + 1022) = 1074" using True by simp
    then have s: "scale = 2 ^ (52 - e) * 2 ^ (e + 1022)" by (simp only: scale_def power_add [symmetric])
    have "magnitude d div scale = (2 ^ 52 + ?M) div 2 ^ (52 - e)" unfolding m s by (rule div_mult_mult2) simp
    also have "(2 :: int) ^ 52 = 2 ^ e * 2 ^ (52 - e)" using True by (simp flip: power_add)
    also have "(2 ^ e * 2 ^ (52 - e) + ?M) div 2 ^ (52 - e) = 2 ^ e + ?M div 2 ^ (52 - e)" by simp
    also have "?M div 2 ^ (52 - e) = uint d div 2 ^ (52 - e) mod 2 ^ e"
      using drop_bit_take_bit [of "52 - e" 52 "uint d"] True by (simp add: double_layout drop_bit_eq_div take_bit_eq_mod)
    finally show ?thesis using True by simp
  next
    case False
    have "e + 1022 = e - 52 + 1074" using False by simp
    then have "2 ^ (e + 1022) = 2 ^ (e - 52) * scale" by (simp only: scale_def power_add [symmetric])
    then show ?thesis using False scale_pos unfolding m by (simp add: mult.assoc [symmetric])
  qed
qed

text \<open>Reducing modulo a higher power of two does not change the low bits.\<close>

lemma take_low: "take_bit n (word_of_int k :: 32 word) = word_of_int (k mod 2 ^ n)"
  by (simp only: take_bit_of_int take_bit_eq_mod [of n k])

lemma low_bits: "32 \<le> n \<Longrightarrow> (word_of_int (k mod 2 ^ n) :: 32 word) = word_of_int k"
  unfolding take_low [symmetric] by (rule take_bit_word_eq_self) simp

lemma low_power: "32 \<le> n \<Longrightarrow> (2 :: 32 word) ^ n = 0"
  using low_bits [of n "2 ^ n"] by simp

lemma ucast_drop_bit: "(ucast (drop_bit n d) :: 32 word) = word_of_int (uint d div 2 ^ n)" for d :: double
  by (simp only: ucast_eq uint_drop_bit)

lemma ucast_push_bit: "(ucast (push_bit n d) :: 32 word) = word_of_int (uint d) * 2 ^ n" for d :: double
proof -
  have "LENGTH(64) = 64" by simp
  then show ?thesis using low_bits [of 64 "uint d * 2 ^ n"] by (simp only: ucast_eq uint_push_bit of_int_mult of_int_power of_int_numeral order.refl)
qed

lemma selected_word:
  fixes d :: double
  assumes "e = nat (rawExponentOf d - 1023)" and "1023 \<le> rawExponentOf d"
    and "r = (if 52 < e then ucast (push_bit (e - 52) d) else ucast (drop_bit (52 - e) d))"
  shows "(if e < 32 then (r AND (push_bit e 1 - 1)) + push_bit e 1 else r) = (word_of_int (magnitude d div scale) :: 32 word)"
proof -
  note sel = selected_bits [OF assms(1,2)]
  have zero: "(0x10000000000000 :: 32 word) = 0" by simp
  consider "e < 32" | "32 \<le> e" "e \<le> 52" | "52 < e" by linarith
  then show ?thesis
  proof cases
    case 1
    have "r AND (push_bit e 1 - 1) = take_bit e r" by (simp add: take_bit_eq_mask mask_eq_exp_minus_1 push_bit_eq_mult)
    then show ?thesis using 1 unfolding sel assms(3) ucast_drop_bit take_low by (simp add: take_low push_bit_eq_mult)
  next
    case 2
    then show ?thesis unfolding sel assms(3) ucast_drop_bit by (simp add: low_bits low_power)
  next
    case 3
    then show ?thesis using low_bits [of 52 "uint d"] unfolding sel assms(3) ucast_push_bit double_layout by (simp add: zero)
  qed
qed

text \<open>Doubles below 1 and from \<open>2 ^ 84\<close> on have no bits among the 32 lowest of their integer part.\<close>

lemma unselected:
  assumes "isFinite d" and "rawExponentOf d < 1023 \<or> 1106 < rawExponentOf d"
  shows "(word_of_int (truncated d) :: 32 word) = 0"
proof (cases "rawExponentOf d < 1023")
  case True
  then have "magnitude d div scale = 0" using magnitude_small [OF True] by simp
  then show ?thesis by (simp add: truncated_sign)
next
  case False
  define e where "e = nat (rawExponentOf d - 1023)"
  have e: "52 \<le> e" "32 \<le> e - 52" using False assms(2) by (simp_all add: e_def)
  then have "(word_of_int (magnitude d div scale) :: 32 word) = 0" using False selected_bits [OF e_def] by (simp add: low_power)
  then show ?thesis by (simp add: truncated_sign)
qed


section \<open>Property\<close>

text \<open>
  C40. \<^verbatim>\<open>toInt32\<close> returns the 32 lowest bits of the integer part of a finite double, and zero for infinities and NaN. In one case the code is
  undefined: if the double is negative and these bits are the least 32-bit integer, it negates the latter, which overflows. The variant for the
  slow path of the just-in-time compiler returns the same for all doubles on which the fast path fails.
\<close>

theorem toInt32_correct:
  "toInt32 d =
     (if \<not> isFinite d then Inr 0
      else if bit d 63 \<and> word_of_int (truncated d) = (0x80000000 :: 32 word) then Inl UndefinedBehaviour
      else Inr (word_of_int (truncated d)))
   \<and> (\<not> isFinite d \<or> \<bar>truncated d\<bar> > 0x7fffffff \<longrightarrow> toInt32Internal AfterSensibleConversionAttempt d = toInt32 d)"
proof -
  define e where "e = nat (rawExponentOf d - 1023)"
  have exp: "uint (drop_bit 52 d AND 0x7ff) - 0x3ff = rawExponentOf d - 1023" by (simp add: rawExponentOf_def doublePhysicalMantissaSize_def)
  have word: "uint (word_of_int k :: 32 word) = k mod 2 ^ 32" for k by (simp add: uint_word_of_int)
  have far: "uint (word_of_int (rawExponentOf d - 1023) :: 32 word) > 83 \<longleftrightarrow> rawExponentOf d < 1023 \<or> 1106 < rawExponentOf d"
    unfolding word
  proof (cases "rawExponentOf d < 1023")
    case True
    have "(rawExponentOf d - 1023) mod 2 ^ 32 = rawExponentOf d - 1023 + 2 ^ 32"
      by (rule int_mod_pos_eq [of _ _ "- 1"]) (use True exponent_bound [of d] in simp_all)
    then show "83 < (rawExponentOf d - 1023) mod 2 ^ 32 \<longleftrightarrow> rawExponentOf d < 1023 \<or> 1106 < rawExponentOf d"
      using True exponent_bound [of d] by simp
  next
    case False
    then have "(rawExponentOf d - 1023) mod 2 ^ 32 = rawExponentOf d - 1023" using exponent_bound [of d] by (intro mod_pos_pos_trivial) simp_all
    then show "83 < (rawExponentOf d - 1023) mod 2 ^ 32 \<longleftrightarrow> rawExponentOf d < 1023 \<or> 1106 < rawExponentOf d"
      using False by simp
  qed
  show ?thesis
  proof (cases "rawExponentOf d < 1023 \<or> 1106 < rawExponentOf d")
    case True
    then have "toInt32Internal m d = Inr 0" for m unfolding toInt32Internal_def Let_def exp far by simp
    moreover have "isFinite d \<Longrightarrow> word_of_int (truncated d) = (0 :: 32 word)" using unselected True by blast
    ultimately show ?thesis by (auto simp: toInt32_def)
  next
    case False
    then have fin: "isFinite d" by (auto simp: isFinite_def)
    have e: "rawExponentOf d - 1023 = int e" "1023 \<le> rawExponentOf d" using False by (simp_all add: e_def)
    have nats: "nat (int e - 52) = e - 52" "nat (52 - int e) = 52 - e" by simp_all
    define r :: "32 word" where "r = (if 52 < e then ucast (push_bit (e - 52) d) else ucast (drop_bit (52 - e) d))"
    have run: "toInt32Internal m d =
       (let x = (if (case m of Generic \<Rightarrow> e < 32 | AfterSensibleConversionAttempt \<Rightarrow> e = 31) then (r AND (push_bit e 1 - 1)) + push_bit e 1 else r)
        in if bit d 63 then negateInt32 x else Inr x)" for m
      using False far nats unfolding toInt32Internal_def Let_def exp e(1) r_def by (cases m) simp_all
    let ?M = "magnitude d div scale"
    have x: "(if e < 32 then (r AND (push_bit e 1 - 1)) + push_bit e 1 else r) = word_of_int ?M" by (rule selected_word [OF e_def e(2) r_def])
    have neg: "negateInt32 (word_of_int ?M) = (if word_of_int (- ?M) = (0x80000000 :: 32 word) then Inl UndefinedBehaviour else Inr (word_of_int (- ?M)))"
      by (simp add: negateInt32_def minus_equation_iff [of _ "0x80000000"] eq_commute)
    have g: "toInt32 d = (if bit d 63 then negateInt32 (word_of_int ?M) else Inr (word_of_int ?M))"
      unfolding toInt32_def run ToInt32Mode.case x Let_def ..
    have "toInt32Internal AfterSensibleConversionAttempt d = toInt32 d" if "\<bar>truncated d\<bar> > 0x7fffffff"
    proof -
      have "0x7fffffff < ?M" using that magnitude_nonneg [of d] scale_pos by (simp add: truncated_sign pos_imp_zdiv_nonneg_iff split: if_splits)
      moreover have "?M < 2 ^ (e + 1)" using le_less_trans [OF div_cut(1) [OF scale_pos] magnitude_normal(3) [OF e(2) e_def]] scale_pos
        by (simp only: mult_less_cancel_right)
      ultimately have "(2 :: int) ^ 31 < 2 ^ (e + 1)" by simp
      then have "31 < e + 1" by (rule power_less_imp_less_exp [rotated]) simp
      then have "e = 31 \<longleftrightarrow> e < 32" by auto
      then show ?thesis unfolding toInt32_def run by simp
    qed
    then show ?thesis using fin unfolding g neg truncated_sign by simp
  qed
qed

theorem toInt32_correct_witness:
  "toInt32 0xC1E0000000000000 = Inl UndefinedBehaviour \<and> toInt32Internal AfterSensibleConversionAttempt 0xC1E0000000000000 = toInt32 0xC1E0000000000000"
proof -
  have r: "rawExponentOf 0xC1E0000000000000 = 1054" "mantissaOf 0xC1E0000000000000 = 0" "bit (0xC1E0000000000000 :: double) 63"
    by (simp_all add: rawExponentOf_def mantissaOf_def doublePhysicalMantissaSize_def doublePhysicalMantissaMask_def drop_bit_eq_div push_bit_eq_mult bit_iff_odd)
  then have "truncated 0xC1E0000000000000 = - (2 ^ 31)" using selected_bits [of 31 "0xC1E0000000000000"] by (simp add: truncated_sign)
  then show ?thesis using toInt32_correct [of "0xC1E0000000000000"] r by (simp add: isFinite_def)
qed

end
