(* ===== verification/BigInt_Bitwise.thy ===== *)
theory BigInt_Bitwise
  imports BigInt_Mul
begin

text \<open>
  Bitwise operations of \<^verbatim>\<open>runtime/JSBigInt.cpp\<close>: the digit-wise operations on magnitudes
  (\<^verbatim>\<open>absoluteBitwiseOp\<close>, \<^verbatim>\<open>absoluteAnd\<close>, \<^verbatim>\<open>absoluteOr\<close>, \<^verbatim>\<open>absoluteAndNot\<close>, \<^verbatim>\<open>absoluteXor\<close>) and the signed
  operations built from them (\<^verbatim>\<open>bitwiseAndImpl\<close>, \<^verbatim>\<open>bitwiseOrImpl\<close>, \<^verbatim>\<open>bitwiseXorImpl\<close>,
  \<^verbatim>\<open>bitwiseNotImpl\<close>), which treat a negative BigInt as an infinite two's complement number.
\<close>

section \<open>The operations\<close>

datatype ExtraDigitsHandling = Copy | Skip

definition absoluteBitwiseOp ::
  "js_env \<Rightarrow> jsBigInt \<Rightarrow> jsBigInt \<Rightarrow> ExtraDigitsHandling \<Rightarrow> (digit \<Rightarrow> digit \<Rightarrow> digit) \<Rightarrow> (js_error, jsBigInt) result" where
  "absoluteBitwiseOp env x y extraDigits oper =
     (let xLength = bigLength x;
          yLength = bigLength y;
          (numPairs, maxLen) = (if xLength < yLength then (xLength, yLength) else (yLength, xLength))
      in andThen (assertThat (numPairs = min xLength yLength)) (\<lambda>_.
         andThen (assertThat (maxLen = max xLength yLength)) (\<lambda>_.
         let resultLength = (if extraDigits = Copy then maxLen else numPairs)
         in andThen (createWithLength env resultLength) (\<lambda>result.
            let result = for_up 0 numPairs (\<lambda>i r. setDigit r i (oper (digitAt x i) (digitAt y i))) result;
                (result, i) = (if extraDigits = Copy
                   then if xLength > yLength
                     then (for_up numPairs xLength (\<lambda>i r. setDigit r i (digitAt x i)) result, max numPairs xLength)
                     else (for_up numPairs yLength (\<lambda>i r. setDigit r i (digitAt y i)) result, max numPairs yLength)
                   else (result, numPairs));
                result = for_up i resultLength (\<lambda>i r. setDigit r i 0) result
            in rightTrim env result))))"

definition absoluteAnd :: "js_env \<Rightarrow> jsBigInt \<Rightarrow> jsBigInt \<Rightarrow> (js_error, jsBigInt) result" where
  "absoluteAnd env x y = absoluteBitwiseOp env x y Skip (\<lambda>a b. a AND b)"

definition absoluteOr :: "js_env \<Rightarrow> jsBigInt \<Rightarrow> jsBigInt \<Rightarrow> (js_error, jsBigInt) result" where
  "absoluteOr env x y = absoluteBitwiseOp env x y Copy (\<lambda>a b. a OR b)"

definition absoluteAndNot :: "js_env \<Rightarrow> jsBigInt \<Rightarrow> jsBigInt \<Rightarrow> (js_error, jsBigInt) result" where
  "absoluteAndNot env x y =
     (let xLength = bigLength x;
          yLength = bigLength y;
          resultLength = xLength
      in andThen (createWithLength env resultLength) (\<lambda>result.
         let result = for_up 0 (min xLength yLength) (\<lambda>i r. setDigit r i (digitAt x i AND NOT (digitAt y i))) result;
             result = for_up (min xLength yLength) resultLength (\<lambda>i r. setDigit r i (digitAt x i)) result
         in rightTrim env result))"

definition absoluteXor :: "js_env \<Rightarrow> jsBigInt \<Rightarrow> jsBigInt \<Rightarrow> (js_error, jsBigInt) result" where
  "absoluteXor env x y = absoluteBitwiseOp env x y Copy (\<lambda>a b. a XOR b)"

definition bitwiseAndImpl :: "js_env \<Rightarrow> jsBigInt \<Rightarrow> jsBigInt \<Rightarrow> (js_error, jsBigInt) result" where
  "bitwiseAndImpl env x y =
     (if \<not> m_sign x \<and> \<not> m_sign y then absoluteAnd env x y
      else if m_sign x \<and> m_sign y
      then let resultLength = max (bigLength x) (bigLength y) + 1
        in andThen (absoluteSubOne env x resultLength) (\<lambda>result.
           andThen (absoluteSubOne env y (bigLength y)) (\<lambda>y1.
           andThen (absoluteOr env result y1) (\<lambda>result.
             absoluteAddOne env result Signed)))
      else andThen (assertThat (m_sign x \<noteq> m_sign y)) (\<lambda>_.
        let computeResult = (\<lambda>x y.
              andThen (assertThat (\<not> m_sign x)) (\<lambda>_.
              andThen (assertThat (m_sign y)) (\<lambda>_.
              andThen (absoluteSubOne env y (bigLength y)) (\<lambda>y1. absoluteAndNot env x y1))))
        in if m_sign x then computeResult y x else computeResult x y))"

definition bitwiseOrImpl :: "js_env \<Rightarrow> jsBigInt \<Rightarrow> jsBigInt \<Rightarrow> (js_error, jsBigInt) result" where
  "bitwiseOrImpl env x y =
     (let resultLength = max (bigLength x) (bigLength y)
      in if \<not> m_sign x \<and> \<not> m_sign y then absoluteOr env x y
         else if m_sign x \<and> m_sign y
         then andThen (absoluteSubOne env x resultLength) (\<lambda>result.
              andThen (absoluteSubOne env y (bigLength y)) (\<lambda>y1.
              andThen (absoluteAnd env result y1) (\<lambda>result.
                absoluteAddOne env result Signed)))
         else andThen (assertThat (m_sign x \<noteq> m_sign y)) (\<lambda>_.
           let computeResult = (\<lambda>x y.
                 andThen (assertThat (\<not> m_sign x)) (\<lambda>_.
                 andThen (assertThat (m_sign y)) (\<lambda>_.
                 andThen (absoluteSubOne env y resultLength) (\<lambda>result.
                 andThen (absoluteAndNot env result x) (\<lambda>result.
                   absoluteAddOne env result Signed)))))
           in if m_sign x then computeResult y x else computeResult x y))"

definition bitwiseXorImpl :: "js_env \<Rightarrow> jsBigInt \<Rightarrow> jsBigInt \<Rightarrow> (js_error, jsBigInt) result" where
  "bitwiseXorImpl env x y =
     (if \<not> m_sign x \<and> \<not> m_sign y then absoluteXor env x y
      else if m_sign x \<and> m_sign y
      then let resultLength = max (bigLength x) (bigLength y)
        in andThen (absoluteSubOne env x resultLength) (\<lambda>result.
           andThen (absoluteSubOne env y (bigLength y)) (\<lambda>y1.
             absoluteXor env result y1))
      else andThen (assertThat (m_sign x \<noteq> m_sign y)) (\<lambda>_.
        let resultLength = max (bigLength x) (bigLength y) + 1;
            computeResult = (\<lambda>x y.
              andThen (assertThat (\<not> m_sign x)) (\<lambda>_.
              andThen (assertThat (m_sign y)) (\<lambda>_.
              andThen (absoluteSubOne env y resultLength) (\<lambda>result.
              andThen (absoluteXor env result x) (\<lambda>result.
                absoluteAddOne env result Signed)))))
        in if m_sign x then computeResult y x else computeResult x y))"

definition bitwiseNotImpl :: "js_env \<Rightarrow> jsBigInt \<Rightarrow> (js_error, jsBigInt) result" where
  "bitwiseNotImpl env x =
     (if m_sign x then absoluteSubOne env x (bigLength x)
      else absoluteAddOne env x Signed)"


section \<open>Digit-wise operations on magnitudes\<close>

definition digitOr0 :: "digit list \<Rightarrow> nat \<Rightarrow> digit" where
  "digitOr0 ds i = (if i < length ds then ds ! i else 0)"

lemma bit_dval: "bit (dval ds) k \<longleftrightarrow> bit (digitOr0 ds (k div 64)) (k mod 64)"
proof (induction ds arbitrary: k)
  case Nil
  then show ?case by (simp add: digitOr0_def)
next
  case (Cons d ds)
  have split: "dval (d # ds) = push_bit 64 (dval ds) OR uint d"
    using int_or_shift_add [of "uint d" 64 "dval ds"] uint_lt_64 [of d]
    by (simp add: push_bit_eq_mult digitBase_num mult.commute)
  show ?case
  proof (cases "k < 64")
    case True
    then show ?thesis unfolding split by (simp add: bit_or_iff bit_push_bit_iff bit_uint_iff digitOr0_def)
  next
    case False
    then have k: "k div 64 = Suc ((k - 64) div 64)" "k mod 64 = (k - 64) mod 64"
      by (simp_all add: div_if [of k 64] le_mod_geq)
    have "bit (dval (d # ds)) k \<longleftrightarrow> bit (dval ds) (k - 64)"
      using False unfolding split by (simp add: bit_or_iff bit_push_bit_iff bit_uint_iff)
    then show ?thesis using Cons.IH [of "k - 64"] by (simp add: k digitOr0_def)
  qed
qed

text \<open>
  The contract between an operation on digits and the operation on integers it implements: both
  act on each bit alone, in the same way, and keep a pair of zero bits zero.
\<close>

locale digitwise =
  fixes oper :: "digit \<Rightarrow> digit \<Rightarrow> digit" and spec :: "int \<Rightarrow> int \<Rightarrow> int" and f :: "bool \<Rightarrow> bool \<Rightarrow> bool"
  assumes bit_oper: "bit (oper a b) k \<longleftrightarrow> k < 64 \<and> f (bit a k) (bit b k)"
    and bit_spec: "bit (spec u v) k \<longleftrightarrow> f (bit u k) (bit v k)"
    and zero_bits: "\<not> f False False"
begin

lemma oper_0: "oper 0 0 = 0"
  by (rule bit_word_eqI) (simp add: bit_oper zero_bits)

lemma digits_value:
  assumes "\<And>i. digitOr0 r i = oper (digitOr0 xs i) (digitOr0 ys i)"
  shows "dval r = spec (dval xs) (dval ys)"
  by (rule bit_eqI) (simp add: bit_dval bit_spec bit_oper assms)

end

interpretation digitAnd: digitwise "\<lambda>a b. a AND b" "\<lambda>u v. u AND v" "(\<and>)"
  by unfold_locales (auto simp: bit_and_iff dest: bit_imp_le_length)

interpretation digitOr: digitwise "\<lambda>a b. a OR b" "\<lambda>u v. u OR v" "(\<or>)"
  by unfold_locales (auto simp: bit_or_iff dest: bit_imp_le_length)

interpretation digitXor: digitwise "\<lambda>a b. a XOR b" "\<lambda>u v. u XOR v" "(\<noteq>)"
  by unfold_locales (auto simp: bit_xor_iff dest: bit_imp_le_length)

interpretation digitAndNot: digitwise "\<lambda>a b. a AND NOT b" "\<lambda>u v. u AND NOT v" "\<lambda>p q. p \<and> \<not> q"
  by unfold_locales (auto simp: bit_and_iff bit_not_iff dest: bit_imp_le_length)

lemma bitwiseOp_digits:
  fixes x y :: jsBigInt
  defines "p \<equiv> min (bigLength x) (bigLength y)" and "n \<equiv> max (bigLength x) (bigLength y)"
  assumes "fresh m result" and "m = (if extra = Copy then n else p)"
  shows "(let result = for_up 0 p (\<lambda>i r. setDigit r i (oper (digitAt x i) (digitAt y i))) result;
                (result, i) = (if extra = Copy
                   then if bigLength x > bigLength y
                     then (for_up p (bigLength x) (\<lambda>i r. setDigit r i (digitAt x i)) result, max p (bigLength x))
                     else (for_up p (bigLength y) (\<lambda>i r. setDigit r i (digitAt y i)) result, max p (bigLength y))
                   else (result, p));
                result = for_up i m (\<lambda>i r. setDigit r i 0) result
            in rightTrim env result)
    = rightTrim env (result\<lparr>m_data := map (\<lambda>i. oper (digitAt x i) (digitAt y i)) [0..<p]
        @ (if extra = Copy then map (digitAt (if bigLength x > bigLength y then x else y)) [p..<n] else [])\<rparr>)"
proof -
  have len: "bigLength result = m" using assms(3) by (simp add: fresh_def)
  have pm: "p \<le> m" "p \<le> n" using assms(4) by (auto simp: p_def n_def)
  define r1 where "r1 = for_up 0 p (\<lambda>i r. setDigit r i (oper (digitAt x i) (digitAt y i))) result"
  have r1: "r1 = result\<lparr>m_data := map (\<lambda>i. oper (digitAt x i) (digitAt y i)) [0..<p] @ drop p (m_data result)\<rparr>"
    unfolding r1_def using write_loop [of 0 p result "\<lambda>i. oper (digitAt x i) (digitAt y i)"] len pm by simp
  show ?thesis
  proof (cases "extra = Copy")
    case True
    have "for_up p n (\<lambda>i r. setDigit r i (digitAt z i)) r1
        = result\<lparr>m_data := map (\<lambda>i. oper (digitAt x i) (digitAt y i)) [0..<p] @ map (digitAt z) [p..<n]\<rparr>" for z
      using write_loop [of p n r1 "digitAt z"] len assms(4) True pm by (simp add: r1)
    moreover have "n = (if bigLength x > bigLength y then bigLength x else bigLength y)" by (simp add: n_def)
    ultimately show ?thesis
      using True assms(4) pm unfolding Let_def r1_def [symmetric] by (cases "bigLength x > bigLength y") simp_all
  next
    case False
    then show ?thesis using assms(4) len unfolding Let_def r1_def [symmetric] by (simp add: r1)
  qed
qed

context digitwise
begin

lemma absoluteBitwiseOp_computes:
  assumes "bigLength x \<le> maxLength" and "bigLength y \<le> maxLength"
    and "extra = Copy \<Longrightarrow> (\<forall>d. oper d 0 = d \<and> oper 0 d = d)" and "extra = Skip \<Longrightarrow> (\<forall>d. oper d 0 = 0 \<and> oper 0 d = 0)"
  shows "computes env (if extra = Copy then max (bigLength x) (bigLength y) else min (bigLength x) (bigLength y))
     (absoluteBitwiseOp env x y extra oper) (spec (dval (m_data x)) (dval (m_data y)))"
proof -
  define p n where "p = min (bigLength x) (bigLength y)" and "n = max (bigLength x) (bigLength y)"
  define m where "m = (if extra = Copy then n else p)"
  define r where "r = map (\<lambda>i. oper (digitAt x i) (digitAt y i)) [0..<p]
        @ (if extra = Copy then map (digitAt (if bigLength x > bigLength y then x else y)) [p..<n] else [])"
  have len: "length r = m" by (simp add: r_def m_def p_def n_def)
  have pm: "p \<le> m" "m \<le> n" by (auto simp: m_def p_def n_def)
  have val: "dval r = spec (dval (m_data x)) (dval (m_data y))"
  proof (rule digits_value)
    fix i
    consider "i < p" | "p \<le> i" "i < n" | "n \<le> i" by linarith
    then show "digitOr0 r i = oper (digitOr0 (m_data x) i) (digitOr0 (m_data y) i)"
    proof cases
      case 1
      then show ?thesis using pm by (simp add: digitOr0_def len) (simp add: r_def nth_append digitAt_def p_def)
    next
      case 2
      then show ?thesis
        using assms(3,4) len by (cases extra) (auto simp: digitOr0_def m_def r_def nth_append digitAt_def p_def n_def)
    next
      case 3
      then have "m \<le> i" "bigLength x \<le> i" "bigLength y \<le> i" using pm by (auto simp: n_def)
      then show ?thesis using len oper_0 by (simp add: digitOr0_def)
    qed
  qed
  have eq: "absoluteBitwiseOp env x y extra oper = andThen (createWithLength env m) (\<lambda>result. 
            let result = for_up 0 p (\<lambda>i r. setDigit r i (oper (digitAt x i) (digitAt y i))) result;
                (result, i) = (if extra = Copy
                   then if bigLength x > bigLength y
                     then (for_up p (bigLength x) (\<lambda>i r. setDigit r i (digitAt x i)) result, max p (bigLength x))
                     else (for_up p (bigLength y) (\<lambda>i r. setDigit r i (digitAt y i)) result, max p (bigLength y))
                   else (result, p));
                result = for_up i m (\<lambda>i r. setDigit r i 0) result
            in rightTrim env result)"
    unfolding absoluteBitwiseOp_def Let_def [of "bigLength x"] Let_def [of "bigLength y"] m_def p_def n_def
    by (cases "bigLength x < bigLength y") (simp_all add: min_def max_def not_less Let_def)
  have "computes env m (absoluteBitwiseOp env x y extra oper) (spec (dval (m_data x)) (dval (m_data y)))"
    unfolding eq
  proof (rule computes_andThen [OF createWithLength_outcome order_refl])
    fix result assume fr: "fresh m result"
    show "computes env m (let result = for_up 0 p (\<lambda>i r. setDigit r i (oper (digitAt x i) (digitAt y i))) result;
                (result, i) = (if extra = Copy
                   then if bigLength x > bigLength y
                     then (for_up p (bigLength x) (\<lambda>i r. setDigit r i (digitAt x i)) result, max p (bigLength x))
                     else (for_up p (bigLength y) (\<lambda>i r. setDigit r i (digitAt y i)) result, max p (bigLength y))
                   else (result, p));
                result = for_up i m (\<lambda>i r. setDigit r i 0) result
            in rightTrim env result) (spec (dval (m_data x)) (dval (m_data y)))"
      unfolding bitwiseOp_digits [OF fr m_def [unfolded p_def n_def], folded p_def n_def] r_def [symmetric]
      by (rule rightTrim_computes) (use fr len val in \<open>simp_all add: fresh_def bval_def\<close>)
  qed
  then show ?thesis unfolding m_def p_def n_def .
qed

end

lemma absoluteAndNot_computes:
  assumes "bigLength x \<le> maxLength"
  shows "computes env (bigLength x) (absoluteAndNot env x y) (dval (m_data x) AND NOT (dval (m_data y)))"
proof -
  define p where "p = min (bigLength x) (bigLength y)"
  define r where "r = map (\<lambda>i. digitAt x i AND NOT (digitAt y i)) [0..<p] @ map (digitAt x) [p..<bigLength x]"
  have len: "length r = bigLength x" by (simp add: r_def p_def)
  have val: "dval r = dval (m_data x) AND NOT (dval (m_data y))"
  proof (rule digitAndNot.digits_value)
    fix i
    consider "i < p" | "p \<le> i" "i < bigLength x" | "bigLength x \<le> i" by linarith
    then show "digitOr0 r i = digitOr0 (m_data x) i AND NOT (digitOr0 (m_data y) i)"
      by cases (auto simp: digitOr0_def len r_def nth_append digitAt_def p_def)
  qed
  have "computes env (bigLength x) (andThen (createWithLength env (bigLength x)) (\<lambda>result.
         let result = for_up 0 p (\<lambda>i r. setDigit r i (digitAt x i AND NOT (digitAt y i))) result;
             result = for_up p (bigLength x) (\<lambda>i r. setDigit r i (digitAt x i)) result
         in rightTrim env result)) (dval (m_data x) AND NOT (dval (m_data y)))"
  proof (rule computes_andThen [OF createWithLength_outcome order_refl])
    fix result assume fr: "fresh (bigLength x) result"
    define r1 where "r1 = for_up 0 p (\<lambda>i r. setDigit r i (digitAt x i AND NOT (digitAt y i))) result"
    have r1: "r1 = result\<lparr>m_data := map (\<lambda>i. digitAt x i AND NOT (digitAt y i)) [0..<p] @ drop p (m_data result)\<rparr>"
      unfolding r1_def using write_loop [of 0 p result] fr by (simp add: p_def fresh_def)
    have "for_up p (bigLength x) (\<lambda>i r. setDigit r i (digitAt x i)) r1 = result\<lparr>m_data := r\<rparr>"
      using write_loop [of p "bigLength x" r1 "digitAt x"] fr by (simp add: r1 p_def r_def fresh_def)
    then show "computes env (bigLength x) (let result = for_up 0 p (\<lambda>i r. setDigit r i (digitAt x i AND NOT (digitAt y i))) result;
             result = for_up p (bigLength x) (\<lambda>i r. setDigit r i (digitAt x i)) result
         in rightTrim env result) (dval (m_data x) AND NOT (dval (m_data y)))"
      unfolding Let_def r1_def [symmetric]
      using fr len val by (auto simp: fresh_def bval_def intro!: rightTrim_computes)
  qed
  then show ?thesis unfolding absoluteAndNot_def Let_def p_def .
qed

lemma absoluteAnd_computes:
  assumes "bigLength x \<le> maxLength" and "bigLength y \<le> maxLength"
  shows "computes env (min (bigLength x) (bigLength y)) (absoluteAnd env x y) (dval (m_data x) AND dval (m_data y))"
  using digitAnd.absoluteBitwiseOp_computes [OF assms, of Skip env] by (simp add: absoluteAnd_def)

lemma absoluteOr_computes:
  assumes "bigLength x \<le> maxLength" and "bigLength y \<le> maxLength"
  shows "computes env (max (bigLength x) (bigLength y)) (absoluteOr env x y) (dval (m_data x) OR dval (m_data y))"
  using digitOr.absoluteBitwiseOp_computes [OF assms, of Copy env] by (simp add: absoluteOr_def)

lemma absoluteXor_computes:
  assumes "bigLength x \<le> maxLength" and "bigLength y \<le> maxLength"
  shows "computes env (max (bigLength x) (bigLength y)) (absoluteXor env x y) (dval (m_data x) XOR dval (m_data y))"
  using digitXor.absoluteBitwiseOp_computes [OF assms, of Copy env] by (simp add: absoluteXor_def)


section \<open>Two's complement\<close>

text \<open>A negative BigInt denotes the complement of its magnitude minus one.\<close>

definition mag1 :: "jsBigInt \<Rightarrow> int" where
  "mag1 x = dval (m_data x) - 1"

lemma negative_mag1:
  assumes "canonical x" and "m_sign x"
  shows "bval x = NOT (mag1 x)" and "0 \<le> mag1 x" and "mag1 x < digitBase ^ bigLength x" and "\<not> isZero x"
proof -
  show nz: "\<not> isZero x" using assms by (auto simp: canonical_def isZero_def)
  show "bval x = NOT (mag1 x)" using assms(2) by (simp add: bval_def mag1_def not_int_def)
  show "0 \<le> mag1 x" using canonical_dval_pos [OF assms(1) nz] by (simp add: mag1_def)
  show "mag1 x < digitBase ^ bigLength x" using dval_bound [of "m_data x"] by (simp add: mag1_def)
qed

lemma represents_nonneg:
  assumes "represents r v" and "0 \<le> v"
  shows "dval (m_data r) = v" and "bigLength r \<le> maxLength" and "v < digitBase ^ n \<Longrightarrow> bigLength r \<le> n"
proof -
  have "\<not> m_sign r" using assms canonical_sign [of r] by (simp add: represents_def)
  then show "dval (m_data r) = v" using assms(1) by (simp add: represents_def bval_def)
  show "bigLength r \<le> maxLength" using assms(1) by (simp add: represents_def canonical_def)
  show "v < digitBase ^ n \<Longrightarrow> bigLength r \<le> n"
    using canonical_length_le [of r n] assms by (simp add: represents_def)
qed

lemma bitwise_bounds:
  assumes "0 \<le> u" and "u < digitBase ^ n" and "0 \<le> v" and "v < digitBase ^ n"
  shows "u OR v < digitBase ^ n" and "u XOR v < digitBase ^ n" and "0 \<le> u OR v" and "0 \<le> u XOR v"
  using assms OR_upper [of u "64 * n" v] XOR_upper [of u "64 * n" v] by (simp_all add: digitBase_power_2)

lemma complement_step:
  assumes "represents r v" and "0 \<le> v" and "v < digitBase ^ n"
  shows "computes env (n + 1) (absoluteAddOne env r Signed) (NOT v)"
proof -
  note r = represents_nonneg [OF assms(1,2)]
  have "computes env (bigLength r + of_bool (v + 1 = digitBase ^ bigLength r)) (absoluteAddOne env r Signed) (- (v + 1))"
    using absoluteAddOne_computes [OF r(2), of env Signed] by (simp add: r(1))
  moreover have "bigLength r + of_bool (v + 1 = digitBase ^ bigLength r) \<le> n + 1" using r(3) [OF assms(3)] by simp
  ultimately show ?thesis unfolding not_int_def using computes_mono by force
qed

lemma mag1_step:
  assumes "canonical x" and "m_sign x" and "bigLength x \<le> n" and "n \<le> L"
    and "\<And>r. represents r (mag1 x) \<Longrightarrow> computes env L (f r) v"
  shows "computes env L (andThen (absoluteSubOne env x n) f) v"
  using absoluteSubOne_computes [OF assms(1) negative_mag1(4) [OF assms(1,2)] assms(3), of env] assms(4,5)
  unfolding computes_def mag1_def by (rule oom_andThen)

lemma digitBase_power_le:
  assumes "v < digitBase ^ a" and "a \<le> b"
  shows "v < digitBase ^ b"
  using less_le_trans [OF assms(1) power_increasing [OF assms(2), of digitBase]] by simp

lemma bitwise_step:
  assumes "computes env k r u" and "k \<le> L" and "\<And>a. represents a u \<Longrightarrow> computes env L (f a) v"
  shows "computes env L (andThen r f) v"
  using assms unfolding computes_def by (rule oom_andThen)

lemma bitwiseAndImpl_computes [outcome_intros]:
  assumes x: "canonical x" and y: "canonical y"
  shows "computes env (max (bigLength x) (bigLength y) + 1) (bitwiseAndImpl env x y) (bval x AND bval y)"
proof -
  let ?n = "max (bigLength x) (bigLength y)"
  have len: "bigLength x \<le> maxLength" "bigLength y \<le> maxLength" using x y by (simp_all add: canonical_def)
  have mixed: "computes env (?n + 1) (andThen (absoluteSubOne env b (bigLength b)) (\<lambda>b1. absoluteAndNot env a b1)) (bval a AND bval b)"
    if a: "canonical a" "\<not> m_sign a" "bigLength a \<le> ?n" and b: "canonical b" "m_sign b" "bigLength b \<le> ?n" for a b
  proof (rule mag1_step [OF b(1,2) order_refl])
    fix r assume r: "represents r (mag1 b)"
    have "bigLength a \<le> maxLength" using a(1) by (simp add: canonical_def)
    from absoluteAndNot_computes [OF this, of env r]
    have "computes env (bigLength a) (absoluteAndNot env a r) (bval a AND bval b)"
      using negative_mag1 [OF b(1,2)] represents_nonneg(1) [OF r] a(2) by (simp add: bval_def [of a])
    then show "computes env (?n + 1) (absoluteAndNot env a r) (bval a AND bval b)"
      by (rule computes_mono) (use a(3) in simp)
  qed (use b(3) in simp)
  consider (pos) "\<not> m_sign x" "\<not> m_sign y" | (neg) "m_sign x" "m_sign y" | (xn) "m_sign x" "\<not> m_sign y" | (yn) "\<not> m_sign x" "m_sign y" by blast
  then show ?thesis
  proof cases
    case pos
    have "computes env (?n + 1) (absoluteAnd env x y) (dval (m_data x) AND dval (m_data y))"
      by (rule computes_mono [OF absoluteAnd_computes [OF len]]) simp
    then show ?thesis using pos by (simp add: bitwiseAndImpl_def bval_def)
  next
    case neg
    note mx = negative_mag1 [OF x neg(1)] and my = negative_mag1 [OF y neg(2)]
    have mxn: "mag1 x < digitBase ^ ?n" "mag1 y < digitBase ^ ?n"
      using mx(3) my(3) by (auto intro: digitBase_power_le)
    note bnd = bitwise_bounds [OF mx(2) mxn(1) my(2) mxn(2)]
    have "computes env (?n + 1) (andThen (absoluteSubOne env x (?n + 1)) (\<lambda>result.
           andThen (absoluteSubOne env y (bigLength y)) (\<lambda>y1.
           andThen (absoluteOr env result y1) (\<lambda>result.
             absoluteAddOne env result Signed)))) (NOT (mag1 x OR mag1 y))"
    proof (rule mag1_step [OF x neg(1)], simp, simp, rule mag1_step [OF y neg(2)], simp, simp)
      fix r s assume r: "represents r (mag1 x)" and s: "represents s (mag1 y)"
      note rr = represents_nonneg [OF r mx(2)] and ss = represents_nonneg [OF s my(2)]
      have "computes env (max (bigLength r) (bigLength s)) (absoluteOr env r s) (mag1 x OR mag1 y)"
        using absoluteOr_computes [OF rr(2) ss(2), of env] by (simp add: rr(1) ss(1))
      then show "computes env (?n + 1) (andThen (absoluteOr env r s) (\<lambda>result. absoluteAddOne env result Signed)) (NOT (mag1 x OR mag1 y))"
        by (rule bitwise_step [OF _ _ complement_step [OF _ bnd(3,1)]]) (use rr(3) [OF mxn(1)] ss(3) [OF mxn(2)] in simp_all)
    qed
    then show ?thesis using neg by (simp add: bitwiseAndImpl_def mx(1) my(1))
  next
    case xn
    then show ?thesis using mixed [of y x] x y by (simp add: bitwiseAndImpl_def and.commute)
  next
    case yn
    then show ?thesis using mixed [of x y] x y by (simp add: bitwiseAndImpl_def)
  qed
qed

lemma bitwiseOrImpl_computes [outcome_intros]:
  assumes x: "canonical x" and y: "canonical y"
  shows "computes env (max (bigLength x) (bigLength y) + 1) (bitwiseOrImpl env x y) (bval x OR bval y)"
proof -
  let ?n = "max (bigLength x) (bigLength y)"
  have len: "bigLength x \<le> maxLength" "bigLength y \<le> maxLength" using x y by (simp_all add: canonical_def)
  have n: "bigLength x \<le> ?n" "bigLength y \<le> ?n + 1" "?n \<le> ?n + 1" by linarith+
  have mixed: "computes env (?n + 1) (andThen (absoluteSubOne env b ?n) (\<lambda>result.
      andThen (absoluteAndNot env result a) (\<lambda>result. absoluteAddOne env result Signed))) (bval a OR bval b)"
    if a: "canonical a" "\<not> m_sign a" and b: "canonical b" "m_sign b" "bigLength b \<le> ?n" for a b
  proof (rule mag1_step [OF b(1,2,3)])
    note mb = negative_mag1 [OF b(1,2)]
    fix r assume r: "represents r (mag1 b)"
    note rr = represents_nonneg [OF r mb(2)]
    have mbn: "mag1 b < digitBase ^ ?n" using mb(3) b(3) by (rule digitBase_power_le)
    let ?v = "mag1 b AND NOT (dval (m_data a))"
    have v: "0 \<le> ?v" "?v < digitBase ^ ?n"
      using mb(2) mbn AND_upper1 [of "mag1 b" "NOT (dval (m_data a))"] by (simp, linarith)
    have "NOT ?v = bval a OR bval b" using a(2) mb(1) by (simp add: bval_def [of a] or.commute)
    moreover have "computes env (bigLength r) (absoluteAndNot env r a) ?v"
      using absoluteAndNot_computes [OF rr(2), of env a] by (simp add: rr(1))
    then have "computes env (?n + 1) (andThen (absoluteAndNot env r a) (\<lambda>result. absoluteAddOne env result Signed)) (NOT ?v)"
      by (rule bitwise_step [OF _ _ complement_step [OF _ v]]) (use rr(3) [OF mbn] in simp_all)
    ultimately show "computes env (?n + 1) (andThen (absoluteAndNot env r a) (\<lambda>result. absoluteAddOne env result Signed)) (bval a OR bval b)"
      by simp
  qed (rule n(3))
  consider (pos) "\<not> m_sign x" "\<not> m_sign y" | (neg) "m_sign x" "m_sign y" | (xn) "m_sign x" "\<not> m_sign y" | (yn) "\<not> m_sign x" "m_sign y" by blast
  then show ?thesis
  proof cases
    case pos
    have "computes env (?n + 1) (absoluteOr env x y) (dval (m_data x) OR dval (m_data y))"
      by (rule computes_mono [OF absoluteOr_computes [OF len] n(3)])
    then show ?thesis using pos by (simp add: bitwiseOrImpl_def bval_def)
  next
    case neg
    note mx = negative_mag1 [OF x neg(1)] and my = negative_mag1 [OF y neg(2)]
    have mxn: "mag1 x < digitBase ^ ?n" "mag1 y < digitBase ^ ?n"
      using mx(3) my(3) by (auto intro: digitBase_power_le)
    have bnd: "0 \<le> mag1 x AND mag1 y" "mag1 x AND mag1 y < digitBase ^ ?n"
      using mx(2) mxn(1) AND_upper1 [of "mag1 x" "mag1 y"] by (simp, linarith)
    have "computes env (?n + 1) (andThen (absoluteSubOne env x ?n) (\<lambda>result.
           andThen (absoluteSubOne env y (bigLength y)) (\<lambda>y1.
           andThen (absoluteAnd env result y1) (\<lambda>result.
             absoluteAddOne env result Signed)))) (NOT (mag1 x AND mag1 y))"
    proof (rule mag1_step [OF x neg(1) n(1,3)], rule mag1_step [OF y neg(2) order_refl n(2)])
      fix r s assume r: "represents r (mag1 x)" and s: "represents s (mag1 y)"
      note rr = represents_nonneg [OF r mx(2)] and ss = represents_nonneg [OF s my(2)]
      have "computes env (min (bigLength r) (bigLength s)) (absoluteAnd env r s) (mag1 x AND mag1 y)"
        using absoluteAnd_computes [OF rr(2) ss(2), of env] by (simp add: rr(1) ss(1))
      then show "computes env (?n + 1) (andThen (absoluteAnd env r s) (\<lambda>result. absoluteAddOne env result Signed)) (NOT (mag1 x AND mag1 y))"
        by (rule bitwise_step [OF _ _ complement_step [OF _ bnd]]) (use rr(3) [OF mxn(1)] ss(3) [OF mxn(2)] in simp_all)
    qed
    then show ?thesis using neg by (simp add: bitwiseOrImpl_def mx(1) my(1))
  next
    case xn
    then show ?thesis using mixed [of y x] x y by (simp add: bitwiseOrImpl_def or.commute)
  next
    case yn
    then show ?thesis using mixed [of x y] x y by (simp add: bitwiseOrImpl_def)
  qed
qed

lemma bitwiseXorImpl_computes [outcome_intros]:
  assumes x: "canonical x" and y: "canonical y"
  shows "computes env (max (bigLength x) (bigLength y) + 1) (bitwiseXorImpl env x y) (bval x XOR bval y)"
proof -
  let ?n = "max (bigLength x) (bigLength y)"
  have len: "bigLength x \<le> maxLength" "bigLength y \<le> maxLength" using x y by (simp_all add: canonical_def)
  have n: "bigLength x \<le> ?n" "bigLength y \<le> ?n + 1" "?n \<le> ?n + 1" by linarith+
  have mixed: "computes env (?n + 1) (andThen (absoluteSubOne env b (?n + 1)) (\<lambda>result.
      andThen (absoluteXor env result a) (\<lambda>result. absoluteAddOne env result Signed))) (bval a XOR bval b)"
    if a: "canonical a" "\<not> m_sign a" "bigLength a \<le> ?n" and b: "canonical b" "m_sign b" "bigLength b \<le> ?n" for a b
  proof (rule mag1_step [OF b(1,2)])
    note mb = negative_mag1 [OF b(1,2)]
    fix r assume r: "represents r (mag1 b)"
    note rr = represents_nonneg [OF r mb(2)]
    have mbn: "mag1 b < digitBase ^ ?n" using mb(3) b(3) by (rule digitBase_power_le)
    have an: "dval (m_data a) < digitBase ^ ?n" using dval_bound [of "m_data a"] a(3) by (rule digitBase_power_le)
    let ?v = "mag1 b XOR dval (m_data a)"
    note v = bitwise_bounds(4,2) [OF mb(2) mbn dval_nonneg an]
    have "NOT ?v = bval a XOR bval b" using a(2) mb(1) by (simp add: bval_def [of a] xor.commute)
    moreover have "computes env (max (bigLength r) (bigLength a)) (absoluteXor env r a) ?v"
      using absoluteXor_computes [OF rr(2), of a env] a(1) by (simp add: rr(1) canonical_def)
    then have "computes env (?n + 1) (andThen (absoluteXor env r a) (\<lambda>result. absoluteAddOne env result Signed)) (NOT ?v)"
      by (rule bitwise_step [OF _ _ complement_step [OF _ v]]) (use rr(3) [OF mbn] a(3) in simp_all)
    ultimately show "computes env (?n + 1) (andThen (absoluteXor env r a) (\<lambda>result. absoluteAddOne env result Signed)) (bval a XOR bval b)"
      by simp
  qed (use b(3) in simp_all)
  consider (pos) "\<not> m_sign x" "\<not> m_sign y" | (neg) "m_sign x" "m_sign y" | (xn) "m_sign x" "\<not> m_sign y" | (yn) "\<not> m_sign x" "m_sign y" by blast
  then show ?thesis
  proof cases
    case pos
    have "computes env (?n + 1) (absoluteXor env x y) (dval (m_data x) XOR dval (m_data y))"
      by (rule computes_mono [OF absoluteXor_computes [OF len] n(3)])
    then show ?thesis using pos by (simp add: bitwiseXorImpl_def bval_def)
  next
    case neg
    note mx = negative_mag1 [OF x neg(1)] and my = negative_mag1 [OF y neg(2)]
    have "computes env (?n + 1) (andThen (absoluteSubOne env x ?n) (\<lambda>result.
           andThen (absoluteSubOne env y (bigLength y)) (\<lambda>y1. absoluteXor env result y1))) (mag1 x XOR mag1 y)"
    proof (rule mag1_step [OF x neg(1) n(1,3)], rule mag1_step [OF y neg(2) order_refl n(2)])
      fix r s assume r: "represents r (mag1 x)" and s: "represents s (mag1 y)"
      note rr = represents_nonneg [OF r mx(2)] and ss = represents_nonneg [OF s my(2)]
      have "computes env (max (bigLength r) (bigLength s)) (absoluteXor env r s) (mag1 x XOR mag1 y)"
        using absoluteXor_computes [OF rr(2) ss(2), of env] by (simp add: rr(1) ss(1))
      then show "computes env (?n + 1) (absoluteXor env r s) (mag1 x XOR mag1 y)"
        by (rule computes_mono) (use rr(3) [OF mx(3)] ss(3) [OF my(3)] in linarith)
    qed
    then show ?thesis using neg by (simp add: bitwiseXorImpl_def mx(1) my(1))
  next
    case xn
    then show ?thesis using mixed [of y x] x y by (simp add: bitwiseXorImpl_def xor.commute)
  next
    case yn
    then show ?thesis using mixed [of x y] x y by (simp add: bitwiseXorImpl_def)
  qed
qed

lemma bitwiseNotImpl_computes [outcome_intros]:
  assumes "canonical x"
  shows "computes env (bigLength x + 1) (bitwiseNotImpl env x) (NOT (bval x))"
proof (cases "m_sign x")
  case True
  note mx = negative_mag1 [OF assms True]
  have "computes env (bigLength x) (absoluteSubOne env x (bigLength x)) (mag1 x)"
    using absoluteSubOne_computes [OF assms mx(4) order_refl] by (simp add: mag1_def)
  then have "computes env (bigLength x + 1) (absoluteSubOne env x (bigLength x)) (mag1 x)"
    by (rule computes_mono) simp
  then show ?thesis using True mx(1) by (simp add: bitwiseNotImpl_def)
next
  case False
  have "computes env (bigLength x + 1) (absoluteAddOne env x Signed) (NOT (dval (m_data x)))"
    by (rule complement_step) (use assms False dval_bound [of "m_data x"] in \<open>simp_all add: represents_def bval_def\<close>)
  then show ?thesis using False by (simp add: bitwiseNotImpl_def bval_def)
qed

end
