(* ===== verification/BigInt_Shift.thy ===== *)
theory BigInt_Shift
  imports BigInt_Bitwise Digit_Shift
begin

text \<open>
  Shifts of \<^verbatim>\<open>runtime/JSBigInt.cpp\<close>: \<^verbatim>\<open>toShiftAmount\<close>, \<^verbatim>\<open>leftShiftByAbsolute\<close>, \<^verbatim>\<open>rightShiftByAbsolute\<close>,
  \<^verbatim>\<open>rightShiftByMaximum\<close>, \<^verbatim>\<open>leftShiftImpl\<close> and \<^verbatim>\<open>signedRightShiftImpl\<close>.
\<close>

section \<open>The operations\<close>

definition toShiftAmount :: "jsBigInt \<Rightarrow> digit option" where
  "toShiftAmount x =
     (if bigLength x > 1 then None
      else let value = digitAt x 0
        in if unat value > maxLengthBits then None else Some value)"

text \<open>The digits of the shifted magnitude, written into fresh storage.\<close>

definition leftShiftDigits :: "jsBigInt \<Rightarrow> nat \<Rightarrow> nat \<Rightarrow> bool \<Rightarrow> nat \<Rightarrow> jsBigInt \<Rightarrow> (js_error, jsBigInt) result" where
  "leftShiftDigits x digitShift bitsShift grow resultLength result =
     (let len = bigLength x
      in if bitsShift = 0
         then let result = for_up 0 digitShift (\<lambda>i r. setDigit r i 0) result
              in Inr (for_up digitShift resultLength (\<lambda>i r. setDigit r i (digitAt x (i - digitShift))) result)
         else let carry = 0;
                  result = for_up 0 digitShift (\<lambda>i r. setDigit r i 0) result;
                  (digits, carry) = digitLoop digitShift 0 len (shiftLeftStep bitsShift (m_data x)) (m_data result, carry);
                  result = result\<lparr>m_data := digits\<rparr>
              in if grow then Inr (setDigit result (len + digitShift) carry)
                 else andThen (assertThat (carry = 0)) (\<lambda>_. Inr result))"

definition leftShiftByAbsolute :: "js_env \<Rightarrow> jsBigInt \<Rightarrow> jsBigInt \<Rightarrow> (js_error, jsBigInt) result" where
  "leftShiftByAbsolute env x y =
     (case toShiftAmount y of
        None \<Rightarrow> throwOutOfMemoryError env ''BigInt generated from this operation is too big''
      | Some shift \<Rightarrow>
        let digitShift = unat shift div digitBits;
            bitsShift = unat shift mod digitBits;
            len = bigLength x;
            grow = (bitsShift \<noteq> 0 \<and> drop_bit (digitBits - bitsShift) (digitAt x (len - 1)) \<noteq> 0);
            resultLength = len + digitShift + of_bool grow
        in if resultLength > maxLength
           then throwOutOfMemoryError env ''BigInt generated from this operation is too big''
           else andThen (createWithLength env resultLength) (\<lambda>result.
             andThen (leftShiftDigits x digitShift bitsShift grow resultLength result) (\<lambda>result.
               rightTrim env (setSign result (m_sign x)))))"

definition rightShiftByMaximum :: "js_env \<Rightarrow> bool \<Rightarrow> (js_error, jsBigInt) result" where
  "rightShiftByMaximum env sign = (if sign then createFromInt32 env (- 1) else createZero env)"

fun anyDigit :: "jsBigInt \<Rightarrow> nat list \<Rightarrow> bool" where
  "anyDigit x [] = False"
| "anyDigit x (i # is) = (if digitAt x i \<noteq> 0 then True else anyDigit x is)"

definition rightShiftStep :: "jsBigInt \<Rightarrow> nat \<Rightarrow> nat \<Rightarrow> nat \<Rightarrow> digit \<Rightarrow> digit \<Rightarrow> digit \<times> digit" where
  "rightShiftStep x digitalShift bitsShift i old carry =
     (let d = digitAt x (i + digitalShift + 1)
      in (push_bit (digitBits - bitsShift) d OR carry, drop_bit bitsShift d))"

definition rightShiftDigits :: "jsBigInt \<Rightarrow> nat \<Rightarrow> nat \<Rightarrow> nat \<Rightarrow> jsBigInt \<Rightarrow> jsBigInt" where
  "rightShiftDigits x digitalShift bitsShift resultLength result =
     (let len = bigLength x
      in if bitsShift = 0
         then let result = setDigit result (resultLength - 1) 0
              in for_up digitalShift len (\<lambda>i r. setDigit r (i - digitalShift) (digitAt x i)) result
         else let carry = drop_bit bitsShift (digitAt x digitalShift);
                  last = len - digitalShift - 1;
                  (digits, carry) = digitLoop 0 0 last (rightShiftStep x digitalShift bitsShift) (m_data result, carry)
              in setDigit (result\<lparr>m_data := digits\<rparr>) last carry)"

definition rightShiftByAbsolute :: "js_env \<Rightarrow> jsBigInt \<Rightarrow> jsBigInt \<Rightarrow> (js_error, jsBigInt) result" where
  "rightShiftByAbsolute env x y =
     (let len = bigLength x;
          sign = m_sign x
      in case toShiftAmount y of
           None \<Rightarrow> rightShiftByMaximum env sign
         | Some shift \<Rightarrow>
           let digitalShift = unat shift div digitBits;
               bitsShift = unat shift mod digitBits
           in if len \<le> digitalShift then rightShiftByMaximum env sign
              else let resultLength = len - digitalShift;
                       mask = push_bit bitsShift 1 - 1;
                       mustRoundDown = (sign \<and> (digitAt x digitalShift AND mask \<noteq> 0 \<or> anyDigit x [0..<digitalShift]));
                       msd = digitAt x (len - 1);
                       roundingCanOverflow = (NOT msd = 0);
                       resultLength = (if mustRoundDown \<and> bitsShift = 0 \<and> roundingCanOverflow then resultLength + 1 else resultLength)
                   in andThen (assertThat (resultLength \<le> len)) (\<lambda>_.
                      andThen (createWithLength env resultLength) (\<lambda>result.
                      let result = rightShiftDigits x digitalShift bitsShift resultLength result
                      in if sign
                         then let result = setSign result True
                              in if mustRoundDown
                                 then andThen (rightTrim env result) (\<lambda>result. absoluteAddOne env result Signed)
                                 else rightTrim env result
                         else rightTrim env result)))"

definition leftShiftImpl :: "js_env \<Rightarrow> jsBigInt \<Rightarrow> jsBigInt \<Rightarrow> (js_error, jsBigInt) result" where
  "leftShiftImpl env x y =
     (if isZero x \<or> isZero y then Inr x
      else if m_sign y then rightShiftByAbsolute env x y
      else leftShiftByAbsolute env x y)"

definition signedRightShiftImpl :: "js_env \<Rightarrow> jsBigInt \<Rightarrow> jsBigInt \<Rightarrow> (js_error, jsBigInt) result" where
  "signedRightShiftImpl env x y =
     (if isZero x \<or> isZero y then Inr x
      else if m_sign y then leftShiftByAbsolute env x y
      else rightShiftByAbsolute env x y)"


section \<open>The shift amount\<close>

lemma toShiftAmount_correct:
  assumes "canonical y" and "\<not> isZero y"
  shows "toShiftAmount y = (if nat (dval (m_data y)) > maxLengthBits then None else Some (digitAt y 0))"
    and "toShiftAmount y = Some s \<Longrightarrow> unat s = nat (dval (m_data y))"
proof -
  show eq: "toShiftAmount y = (if nat (dval (m_data y)) > maxLengthBits then None else Some (digitAt y 0))"
  proof (cases "bigLength y > 1")
    case True
    have "digitBase ^ 1 \<le> digitBase ^ (bigLength y - 1)" using True by (intro power_increasing) auto
    also have "\<dots> \<le> dval (m_data y)" using assms by (intro dval_lower) (auto simp: canonical_def isZero_def)
    finally have "maxLengthBits < nat (dval (m_data y))" by (simp add: digitBase_num maxLengthBits_def)
    then show ?thesis using True by (simp add: toShiftAmount_def)
  next
    case False
    then have one: "bigLength y = 1" using assms(2) by (cases "bigLength y") (auto simp: isZero_def)
    have "dval (m_data y) = uint (digitAt y 0)" using canonical_single(3) [OF assms(1) one] by (simp add: abs_bval)
    then show ?thesis using False by (simp add: toShiftAmount_def)
  qed
  assume s: "toShiftAmount y = Some s"
  then have "\<not> bigLength y > 1" "s = digitAt y 0" by (auto simp: toShiftAmount_def Let_def split: if_splits)
  then have one: "bigLength y = 1" using assms(2) by (cases "bigLength y") (auto simp: isZero_def)
  have "dval (m_data y) = uint (digitAt y 0)" using canonical_single(3) [OF assms(1) one] by (simp add: abs_bval)
  then show "unat s = nat (dval (m_data y))" using \<open>s = digitAt y 0\<close> by simp
qed

lemma shift_split: "(2 :: int) ^ n = digitBase ^ (n div 64) * 2 ^ (n mod 64)"
proof -
  have "(2 :: int) ^ n = 2 ^ (64 * (n div 64) + n mod 64)" by simp
  then show ?thesis unfolding digitBase_power_2 power_add .
qed


section \<open>Shifting left\<close>

text \<open>The carry out of the top digit is what the code tests to decide whether the result grows.\<close>

lemma shiftLeft_carry:
  assumes "digitLoop off 0 (length ds) (shiftLeftStep s ds) (r0, c0) = (r, c)" and "ds \<noteq> []"
  shows "c = drop_bit (digitBits - s) (last ds)"
proof -
  obtain k where k: "length ds = Suc k" using assms(2) by (cases ds) auto
  then show ?thesis
    using assms by (auto simp: digitLoop_Suc shiftLeftStep_def Let_def last_conv_nth split: prod.splits)
qed

lemma leftShift_digits:
  assumes x: "canonical x" "\<not> isZero x" and b: "b < 64"
  defines "grow \<equiv> b \<noteq> 0 \<and> drop_bit (digitBits - b) (digitAt x (bigLength x - 1)) \<noteq> 0"
  assumes fr: "fresh (bigLength x + k + of_bool grow) result"
  shows "\<exists>r. leftShiftDigits x k b grow (bigLength x + k + of_bool grow) result = Inr r
     \<and> bigLength r = bigLength x + k + of_bool grow \<and> dval (m_data r) = digitBase ^ k * (2 ^ b * dval (m_data x))"
proof -
  let ?n = "bigLength x" and ?L = "bigLength x + k + of_bool grow"
  define r0 where "r0 = for_up 0 k (\<lambda>i r. setDigit r i 0) result"
  have len: "bigLength result = ?L" using fr by (simp add: fresh_def)
  have r0: "r0 = result\<lparr>m_data := replicate k 0 @ drop k (m_data result)\<rparr>"
    unfolding r0_def using write_loop [of 0 k result "\<lambda>_. 0"] len by (simp add: map_replicate_const)
  show ?thesis
  proof (cases "b = 0")
    case True
    then have g: "\<not> grow" by (simp add: grow_def)
    have "map (\<lambda>i. digitAt x (i - k)) [k..<?n + k] = m_data x"
      by (rule nth_equalityI) (simp_all add: digitAt_def)
    then have "for_up k ?L (\<lambda>i r. setDigit r i (digitAt x (i - k))) r0 = result\<lparr>m_data := replicate k 0 @ m_data x\<rparr>"
      using write_loop [of k ?L r0 "\<lambda>i. digitAt x (i - k)"] len g by (simp add: r0)
    then show ?thesis using True g by (simp add: leftShiftDigits_def Let_def r0_def [symmetric] dval_append)
  next
    case False
    obtain r c where loop: "digitLoop k 0 ?n (shiftLeftStep b (m_data x)) (m_data r0, 0) = (r, c)" by fastforce
    note fr0 = digitLoop_frame [OF loop]
    have lr: "length r = ?L" using fr0(1) len by (simp add: r0)
    have c: "c = drop_bit (digitBits - b) (digitAt x (?n - 1))"
      using shiftLeft_carry [OF loop] x(2) by (simp add: digitAt_def isZero_def last_conv_nth)
    have v: "dval (take ?n (drop k r)) + digitBase ^ ?n * uint c = 2 ^ b * dval (m_data x)"
      using shiftLeft.loop_value [OF loop] False b len dval_sum_scaled [of 0 ?n "m_data x" "2 ^ b"] by (simp add: r0)
    have "r ! i = 0" if "i < k" for i using fr0(2) [of i] that by (simp add: r0 nth_append)
    then have low: "take k r = replicate k 0" using lr by (intro nth_equalityI) auto
    have drop: "dval (take k r @ xs) = digitBase ^ k * dval xs" for xs using lr unfolding low by (simp add: dval_append)
    show ?thesis
    proof (cases grow)
      case True
      have "r[?n + k := c] = take k r @ take ?n (drop k r) @ [c]"
        using take_Suc_update [of "k + ?n" r c] lr True by (simp add: take_add add.commute)
      then have "dval (r[?n + k := c]) = digitBase ^ k * (2 ^ b * dval (m_data x))"
        using v lr True by (simp add: drop dval_snoc)
      then show ?thesis using False True lr by (simp add: leftShiftDigits_def r0_def [symmetric] loop)
    next
      case g: False
      then have c0: "c = 0" using c False by (simp add: grow_def)
      have "r = take k r @ take ?n (drop k r)" using lr g by simp
      then have "dval r = digitBase ^ k * (2 ^ b * dval (m_data x))" using v c0 drop [of "take ?n (drop k r)"] by simp
      then show ?thesis using False g lr c0 by (simp add: leftShiftDigits_def r0_def [symmetric] loop)
    qed
  qed
qed

text \<open>The length the code allocates is the one the shifted magnitude needs.\<close>

lemma leftShift_length:
  assumes x: "canonical x" "\<not> isZero x" and b: "b < 64"
  defines "grow \<equiv> b \<noteq> 0 \<and> drop_bit (digitBits - b) (digitAt x (bigLength x - 1)) \<noteq> 0"
  shows "digitBase ^ (bigLength x + k + of_bool grow - 1) \<le> digitBase ^ k * (2 ^ b * dval (m_data x))"
proof -
  define t where "t = digitAt x (bigLength x - 1)"
  have ne: "m_data x \<noteq> []" using x(2) by (auto simp: isZero_def)
  have top: "digitBase ^ (bigLength x - 1) * uint t \<le> dval (m_data x)"
    using dval_split_last [OF ne] dval_nonneg [of "butlast (m_data x)"] ne by (simp add: t_def digitAt_def last_conv_nth)
  have x1: "1 \<le> dval (m_data x)" using canonical_dval_pos [OF x] by simp
  have n0: "bigLength x \<noteq> 0" using ne by simp
  show ?thesis
  proof (cases grow)
    case True
    then have "b \<noteq> 0" "1 \<le> uint (drop_bit (64 - b) t)" using uint_ge_1 by (auto simp: grow_def t_def digitBits_def)
    then have "1 * 2 ^ (64 - b) \<le> uint t" using le_div_iff [of "2 ^ (64 - b)" 1 "uint t"] by (simp add: uint_drop_bit)
    then have "2 ^ b * 2 ^ (64 - b) \<le> 2 ^ b * uint t" by (intro mult_left_mono) auto
    then have "digitBase \<le> 2 ^ b * uint t" using b by (simp add: digitBase_def flip: power_add)
    then have "digitBase ^ (bigLength x - 1) * digitBase \<le> digitBase ^ (bigLength x - 1) * (2 ^ b * uint t)"
      by (intro mult_left_mono) auto
    also have "\<dots> = 2 ^ b * (digitBase ^ (bigLength x - 1) * uint t)" by simp
    also have "\<dots> \<le> 2 ^ b * dval (m_data x)" using top by (intro mult_left_mono) auto
    finally have "digitBase ^ bigLength x \<le> 2 ^ b * dval (m_data x)" using n0 by (cases "bigLength x") (auto simp: mult.commute)
    then have "digitBase ^ k * digitBase ^ bigLength x \<le> digitBase ^ k * (2 ^ b * dval (m_data x))" by (intro mult_left_mono) auto
    then show ?thesis using True by (simp add: power_add mult.commute)
  next
    case False
    have "digitBase ^ (bigLength x - 1) \<le> dval (m_data x)" using x ne by (intro dval_lower) (auto simp: canonical_def)
    also have "\<dots> \<le> 2 ^ b * dval (m_data x)" using x1 by simp
    finally have "digitBase ^ k * digitBase ^ (bigLength x - 1) \<le> digitBase ^ k * (2 ^ b * dval (m_data x))" by (intro mult_left_mono) auto
    then show ?thesis using False n0 by (simp flip: power_add add: add.commute)
  qed
qed

lemma leftShiftByAbsolute_computes:
  assumes x: "canonical x" "\<not> isZero x" and y: "canonical y" "\<not> isZero y"
    and fits: "dval (m_data x) * 2 ^ nat (dval (m_data y)) < digitBase ^ L"
  shows "computes env L (leftShiftByAbsolute env x y) (bval x * 2 ^ nat (dval (m_data y)))"
proof -
  let ?s = "nat (dval (m_data y))"
  have x1: "1 \<le> dval (m_data x)" using canonical_dval_pos [OF x] by simp
  show ?thesis
  proof (cases "toShiftAmount y")
    case None
    then have "maxLengthBits \<le> ?s" using toShiftAmount_correct(1) [OF y] by (auto split: if_splits)
    then have "digitBase ^ maxLength \<le> 2 ^ ?s" unfolding digitBase_maxLength by (intro power_increasing) auto
    also have "\<dots> \<le> dval (m_data x) * 2 ^ ?s" using x1 by simp
    finally have "digitBase ^ maxLength \<le> dval (m_data x) * 2 ^ ?s" .
    then have "maxLength < L" using fits le_less_trans by fastforce
    then have "computes env L (throwOutOfMemoryError env ''BigInt generated from this operation is too big'') (bval x * 2 ^ ?s)"
      unfolding computes_def by (intro throwOutOfMemoryError_outcome [of L]) (auto simp: grants_def)
    then show ?thesis using None by (simp add: leftShiftByAbsolute_def)
  next
    case (Some shift)
    define k b where "k = ?s div 64" and "b = ?s mod 64"
    have sh: "unat shift = ?s" by (rule toShiftAmount_correct(2) [OF y Some])
    define grow where "grow \<longleftrightarrow> b \<noteq> 0 \<and> drop_bit (digitBits - b) (digitAt x (bigLength x - 1)) \<noteq> 0"
    let ?R = "bigLength x + k + of_bool grow"
    have v: "dval (m_data x) * 2 ^ ?s = digitBase ^ k * (2 ^ b * dval (m_data x))"
      unfolding shift_split [of ?s] k_def b_def by (simp add: ac_simps)
    have b: "b < 64" by (simp add: b_def)
    have "digitBase ^ (?R - 1) < digitBase ^ L"
      using leftShift_length [OF x b, of k] fits unfolding v grow_def by (rule le_less_trans)
    then have R: "?R \<le> L" by simp
    have sign: "bval x * 2 ^ ?s = (if m_sign x then - (dval (m_data x) * 2 ^ ?s) else dval (m_data x) * 2 ^ ?s)"
      by (simp add: bval_def)
    have n0: "?R \<noteq> 0" using x(2) by (simp add: isZero_def)
    show ?thesis
    proof (cases "?R > maxLength")
      case True
      then have "computes env L (throwOutOfMemoryError env ''BigInt generated from this operation is too big'') (bval x * 2 ^ ?s)"
        unfolding computes_def using R by (intro throwOutOfMemoryError_outcome [of ?R]) (auto simp: grants_def)
      then show ?thesis
        using True by (simp add: leftShiftByAbsolute_def Some sh Let_def k_def b_def grow_def digitBits_def)
    next
      case False
      have "computes env L (andThen (createWithLength env ?R) (\<lambda>result. andThen (leftShiftDigits x k b grow ?R result)
              (\<lambda>result. rightTrim env (setSign result (m_sign x))))) (bval x * 2 ^ ?s)"
      proof (rule computes_andThen [OF createWithLength_outcome R])
        fix result assume fr: "fresh ?R result"
        obtain r where r: "leftShiftDigits x k b grow ?R result = Inr r" "bigLength r = ?R"
            "dval (m_data r) = digitBase ^ k * (2 ^ b * dval (m_data x))"
          using leftShift_digits [OF x b, of k result] fr unfolding grow_def by blast
        have "computes env L (rightTrim env (setSign r (m_sign x))) (bval x * 2 ^ ?s)"
          by (rule rightTrim_setSign [OF fr r(2) n0 R]) (simp only: sign v r(3))
        then show "computes env L (andThen (leftShiftDigits x k b grow ?R result)
            (\<lambda>result. rightTrim env (setSign result (m_sign x)))) (bval x * 2 ^ ?s)" by (simp add: r(1))
      qed
      then show ?thesis
        using False by (simp add: leftShiftByAbsolute_def Some sh Let_def k_def b_def grow_def digitBits_def)
    qed
  qed
qed


section \<open>Shifting right\<close>

lemma for_up_offset: "for_up k (n + k) f = for_up 0 n (\<lambda>i. f (i + k))"
  unfolding for_up_def by (simp add: fun_eq_iff map_add_upt [symmetric] fold_map comp_def)

lemma rightShiftDigits_correct:
  assumes k: "k < bigLength x" and b: "b < 64"
    and R: "R = bigLength x - k \<or> (b = 0 \<and> R = bigLength x - k + 1)" and fr: "fresh R result"
  shows "bigLength (rightShiftDigits x k b R result) = R" and "\<not> m_sign (rightShiftDigits x k b R result)"
    and "dval (m_data (rightShiftDigits x k b R result)) = dval (drop k (m_data x)) div 2 ^ b"
proof -
  let ?m = "bigLength x - k" and ?ds = "drop k (m_data x)"
  have len: "bigLength result = R" "\<not> m_sign result" using fr by (simp_all add: fresh_def)
  have "bigLength (rightShiftDigits x k b R result) = R \<and> \<not> m_sign (rightShiftDigits x k b R result)
    \<and> dval (m_data (rightShiftDigits x k b R result)) = dval ?ds div 2 ^ b"
  proof (cases "b = 0")
    case True
    have m: "map (\<lambda>i. digitAt x (i + k)) [0..<?m] = ?ds"
      by (rule nth_equalityI) (simp_all add: digitAt_def add.commute)
    have "for_up k (?m + k) (\<lambda>i r. setDigit r (i - k) (digitAt x i)) (setDigit result (R - 1) 0)
      = result\<lparr>m_data := ?ds @ drop ?m ((m_data result)[R - 1 := 0])\<rparr>"
      unfolding for_up_offset using write_loop [of 0 ?m "setDigit result (R - 1) 0" "\<lambda>i. digitAt x (i + k)"] R len k
      by (auto simp: m setDigit_def)
    moreover have "drop ?m ((m_data result)[R - 1 := 0]) = replicate (R - ?m) 0"
      using R len k by (auto simp: drop_update_swap intro!: nth_equalityI)
    ultimately show ?thesis using True R k len(2) by (auto simp: rightShiftDigits_def Let_def dval_append)
  next
    case False
    then have R': "R = ?m" using R by simp
    obtain r c where loop: "digitLoop 0 0 (?m - 1) (shiftRightStep b ?ds) (m_data result, drop_bit b (?ds ! 0)) = (r, c)"
      by fastforce
    have "digitLoop 0 0 (?m - 1) (rightShiftStep x k b) = digitLoop 0 0 (?m - 1) (shiftRightStep b ?ds)"
      using k by (intro ext digitLoop_cong) (simp add: rightShiftStep_def shiftRightStep_def digitAt_def add.commute fun_eq_iff)
    then have eq: "rightShiftDigits x k b R result = setDigit (result\<lparr>m_data := r\<rparr>) (?m - 1) c"
      using False loop k by (simp add: rightShiftDigits_def Let_def digitAt_def)
    note v = shiftRight_value [where ds = ?ds and s = b and ?r0.0 = "m_data result" and r = r and c = c]
    have val: "dval (take (?m - 1) r) + digitBase ^ (?m - 1) * uint c = dval ?ds div 2 ^ b" and lr: "length r = ?m"
      using v False b loop k len R' by simp_all
    have "r[?m - 1 := c] = take (?m - 1) r @ [c]" using take_Suc_update [of "?m - 1" r c] lr k by simp
    then show ?thesis unfolding eq using val lr k R' len(2) by (simp add: setDigit_def dval_snoc)
  qed
  then show "bigLength (rightShiftDigits x k b R result) = R" and "\<not> m_sign (rightShiftDigits x k b R result)"
    and "dval (m_data (rightShiftDigits x k b R result)) = dval ?ds div 2 ^ b" by blast+
qed

lemma anyDigit_iff: "k \<le> bigLength x \<Longrightarrow> anyDigit x [0..<k] \<longleftrightarrow> dval (take k (m_data x)) \<noteq> 0"
proof -
  assume k: "k \<le> bigLength x"
  have "anyDigit x is \<longleftrightarrow> (\<exists>i\<in>set is. digitAt x i \<noteq> 0)" for "is" by (induction "is") auto
  then have "anyDigit x [0..<k] \<longleftrightarrow> (\<exists>d\<in>set (take k (m_data x)). d \<noteq> 0)"
    using k by (simp add: digitAt_def nth_image [symmetric] atLeast0LessThan)
  then show ?thesis by (simp add: dval_eq_0_iff)
qed

lemma shifted_quotient:
  assumes "k \<le> length ds"
  shows "dval ds div (digitBase ^ k * 2 ^ b) = dval (drop k ds) div 2 ^ b"
    and "dval ds mod (digitBase ^ k * 2 ^ b) = dval (take k ds) + digitBase ^ k * (dval (drop k ds) mod 2 ^ b)"
proof -
  note q = dval_div_base_power [OF assms] dval_mod_base_power [OF assms]
  show "dval ds div (digitBase ^ k * 2 ^ b) = dval (drop k ds) div 2 ^ b"
    by (simp add: zdiv_zmult2_eq q)
  show "dval ds mod (digitBase ^ k * 2 ^ b) = dval (take k ds) + digitBase ^ k * (dval (drop k ds) mod 2 ^ b)"
    by (simp add: zmod_zmult2_eq q)
qed

text \<open>A negative number is rounded down exactly when some bit is shifted out.\<close>

lemma mustRoundDown_iff:
  assumes k: "k < bigLength x" and b: "b < 64"
  shows "digitAt x k AND (push_bit b 1 - 1) \<noteq> 0 \<or> anyDigit x [0..<k]
    \<longleftrightarrow> dval (m_data x) mod (digitBase ^ k * 2 ^ b) \<noteq> 0"
proof -
  have m: "push_bit b 1 - 1 = (mask b :: digit)" by (simp add: mask_eq_exp_minus_1 push_bit_eq_mult)
  have d: "drop k (m_data x) = digitAt x k # drop (Suc k) (m_data x)" using k by (simp add: Cons_nth_drop_Suc digitAt_def)
  have "2 ^ b dvd digitBase" unfolding digitBase_def using b by (intro le_imp_power_dvd) simp
  then have "dval (drop k (m_data x)) mod 2 ^ b = uint (digitAt x k) mod 2 ^ b"
    unfolding d by (auto simp: mod_add_right_eq [symmetric] elim!: dvdE)
  moreover have "digitAt x k AND (push_bit b 1 - 1) = 0 \<longleftrightarrow> uint (digitAt x k) mod 2 ^ b = 0"
    unfolding m using uint_and_mask [of b "digitAt x k"] b by (simp flip: uint_0_iff)
  moreover have "0 \<le> uint (digitAt x k) mod 2 ^ b" "0 < digitBase ^ k" "0 \<le> dval (take k (m_data x))" by simp_all
  ultimately show ?thesis
    using k by (auto simp: shifted_quotient(2) anyDigit_iff add_nonneg_eq_0_iff)
qed

lemma rightShiftByMaximum_computes: "1 \<le> L \<Longrightarrow> computes env L (rightShiftByMaximum env sign) (if sign then - 1 else 0)"
  using createFromInt32_computes [of env "- 1"] createZero_computes [of env L]
  by (auto simp: rightShiftByMaximum_def elim: computes_mono)

lemma div_all_shifted_out:
  assumes "0 < d" and "d < (w :: int)"
  shows "d div w = 0" and "- d div w = - 1"
proof -
  show "d div w = 0" using assms by simp
  have "- d div w = - 1 \<longleftrightarrow> True" using assms by (simp add: zdiv_zminus1_eq_if)
  then show "- d div w = - 1" by simp
qed

text \<open>Trimming the quotient, and adding one to its magnitude when a negative number is rounded down.\<close>

lemma rightShift_finish:
  fixes D w :: int
  assumes D: "0 < D" "D < digitBase ^ n" and r: "bigLength r = R" "R \<noteq> 0" "R \<le> n" "n \<le> maxLength" "dval (m_data r) = D div w" and w: "0 < w"
  shows "\<not> m_sign r \<Longrightarrow> computes env n (rightTrim env r) (D div w)"
    and "D mod w = 0 \<Longrightarrow> computes env n (rightTrim env (setSign r True)) (- D div w)"
    and "D mod w \<noteq> 0 \<Longrightarrow>
      computes env n (andThen (rightTrim env (setSign r True)) (\<lambda>result. absoluteAddOne env result Signed)) (- D div w)"
proof -
  show "computes env n (rightTrim env r) (D div w)" if "\<not> m_sign r"
    using that r by (intro rightTrim_computes) (auto simp: bval_def)
  have trim: "computes env n (rightTrim env (setSign r True)) (- (D div w))"
    using r by (intro rightTrim_computes) auto
  then show "computes env n (rightTrim env (setSign r True)) (- D div w)" if "D mod w = 0"
    using that by (simp add: zdiv_zminus1_eq_if w [THEN less_imp_neq, symmetric])
  assume m: "D mod w \<noteq> 0"
  define q where "q = D div w"
  have q0: "0 \<le> q" using D(1) w by (simp add: q_def pos_imp_zdiv_nonneg_iff)
  have "1 \<le> D mod w" using m w pos_mod_sign [of w D] by linarith
  moreover have "q * 1 \<le> q * w" using q0 w by (intro mult_left_mono) auto
  ultimately have q1: "q + 1 \<le> D" using div_mult_mod_eq [of D w] unfolding q_def by linarith
  have "- D div w = - (q + 1)" using m w by (simp add: zdiv_zminus1_eq_if q_def)
  moreover have "computes env n (andThen (rightTrim env (setSign r True)) (\<lambda>result. absoluteAddOne env result Signed)) (- (q + 1))"
  proof (rule computes_andThen [OF trim [unfolded computes_def] order_refl])
    fix t assume "represents t (- (D div w))"
    then have t: "canonical t" "dval (m_data t) = q" using q0 abs_bval [of t] by (auto simp: represents_def q_def)
    have tn: "bigLength t \<le> n" using t D(2) q1 q0 by (intro canonical_length_le) (auto simp: abs_bval)
    have "bigLength t + of_bool (dval (m_data t) + 1 = digitBase ^ bigLength t) \<le> n"
    proof (cases "q + 1 = digitBase ^ bigLength t")
      case True
      then have "digitBase ^ bigLength t < digitBase ^ n" using q1 D(2) by linarith
      then show ?thesis using True t(2) by (simp add: Suc_le_eq)
    qed (use tn t(2) in simp)
    then show "computes env n (absoluteAddOne env t Signed) (- (q + 1))"
      using absoluteAddOne_computes [of t env Signed] tn r(4) t(2) by (auto elim: computes_mono)
  qed
  ultimately show "computes env n (andThen (rightTrim env (setSign r True)) (\<lambda>result. absoluteAddOne env result Signed)) (- D div w)"
    by simp
qed

lemma rightShiftByAbsolute_computes:
  assumes x: "canonical x" "\<not> isZero x" and y: "canonical y" "\<not> isZero y"
  shows "computes env (bigLength x) (rightShiftByAbsolute env x y) (bval x div 2 ^ nat (dval (m_data y)))"
proof -
  define s where "s = nat (dval (m_data y))"
  define D where "D = dval (m_data x)"
  define n where "n = bigLength x"
  have D: "0 < D" using canonical_dval_pos [OF x] by (simp add: D_def)
  have Dn: "D < digitBase ^ n" using dval_bound [of "m_data x"] by (simp add: D_def n_def)
  have n: "1 \<le> n" "n \<le> maxLength" using x by (auto simp: isZero_def canonical_def n_def Suc_le_eq)
  have bx: "bval x = (if m_sign x then - D else D)" by (simp add: bval_def D_def)
  have s0: "0 < s" using canonical_dval_pos [OF y] by (simp add: s_def)
  have out: "computes env n (rightShiftByMaximum env (m_sign x)) (bval x div 2 ^ s)" if "n \<le> s div 64"
  proof -
    have "digitBase ^ n \<le> digitBase ^ (s div 64)" using that by (intro power_increasing) auto
    also have "\<dots> * 1 \<le> 2 ^ s" unfolding shift_split [of s] by (intro mult_left_mono) auto
    finally have "D < 2 ^ s" using Dn by simp
    then have "bval x div 2 ^ s = (if m_sign x then - 1 else 0)" using div_all_shifted_out [of D "2 ^ s"] D by (simp add: bx)
    then show ?thesis using rightShiftByMaximum_computes [OF n(1)] by simp
  qed
  show ?thesis
  proof (cases "toShiftAmount y")
    case None
    then have "maxLengthBits < s" using toShiftAmount_correct(1) [OF y] by (auto simp: s_def split: if_splits)
    then have "n \<le> s div 64" using n(2) by (simp add: maxLength_def maxLengthBits_def digitBits_def)
    then show ?thesis using out None by (simp add: rightShiftByAbsolute_def n_def s_def)
  next
    case (Some shift)
    have sh: "unat shift = s" using toShiftAmount_correct(2) [OF y Some] by (simp add: s_def)
    define k b where "k = s div 64" and "b = s mod 64"
    have b: "b < 64" by (simp add: b_def)
    show ?thesis
    proof (cases "n \<le> k")
      case True
      then show ?thesis using out Some sh by (simp add: rightShiftByAbsolute_def Let_def n_def k_def s_def digitBits_def)
    next
      case False
      define down where "down \<longleftrightarrow> m_sign x \<and> D mod 2 ^ s \<noteq> 0"
      define R where "R = (if down \<and> b = 0 \<and> NOT (digitAt x (n - 1)) = 0 then n - k + 1 else n - k)"
      have kn: "k < bigLength x" using False by (simp add: n_def)
      have pow: "2 ^ s = digitBase ^ k * 2 ^ b" unfolding k_def b_def by (rule shift_split)
      have ks: "unat shift div digitBits = k" "unat shift mod digitBits = b" by (simp_all add: sh k_def b_def digitBits_def)
      have down: "(m_sign x \<and> (digitAt x k AND (push_bit b 1 - 1) \<noteq> 0 \<or> anyDigit x [0..<k])) = down"
        unfolding mustRoundDown_iff [OF kn b] down_def pow D_def ..
      have Rn: "R \<le> n" using False s0 by (auto simp: R_def b_def k_def)
      have R0: "R \<noteq> 0" using False by (simp add: R_def)
      have q: "D div 2 ^ s = dval (drop k (m_data x)) div 2 ^ b"
        unfolding pow D_def using kn by (intro shifted_quotient(1)) simp
      have eq: "rightShiftByAbsolute env x y = andThen (createWithLength env R) (\<lambda>result.
          let result = rightShiftDigits x k b R result
          in if m_sign x
             then if down then andThen (rightTrim env (setSign result True)) (\<lambda>result. absoluteAddOne env result Signed)
                  else rightTrim env (setSign result True)
             else rightTrim env result)"
        unfolding rightShiftByAbsolute_def Let_def Some option.case ks n_def [symmetric] down R_def [symmetric]
        using False Rn by simp
      show ?thesis
        unfolding eq n_def [symmetric] s_def [symmetric]
      proof (rule computes_andThen [OF createWithLength_outcome Rn], unfold Let_def)
        fix result assume fr: "fresh R result"
        define r where "r = rightShiftDigits x k b R result"
        have "bigLength r = R" "\<not> m_sign r" "dval (m_data r) = D div 2 ^ s"
          unfolding r_def q using rightShiftDigits_correct [OF kn b _ fr] by (auto simp: R_def n_def)
        then show "computes env n (if m_sign x then if down then andThen (rightTrim env (setSign r True)) (\<lambda>result. absoluteAddOne env result Signed)
            else rightTrim env (setSign r True) else rightTrim env r) (bval x div 2 ^ s)"
          unfolding bx down_def using rightShift_finish [OF D Dn _ R0 Rn] n(2) by auto
      qed
    qed
  qed
qed


section \<open>The shift operators\<close>

text \<open>The value of \<open>x << n\<close> for a possibly negative \<open>n\<close>: a floor division when the shift goes right.\<close>

definition shiftedBy :: "int \<Rightarrow> int \<Rightarrow> int" where
  "shiftedBy v n = (if n < 0 then v div 2 ^ nat (- n) else v * 2 ^ nat n)"

lemma shiftedBy_0 [simp]: "shiftedBy v 0 = v" "shiftedBy 0 n = 0"
  by (simp_all add: shiftedBy_def)

lemma shiftedBy_bound: "\<bar>shiftedBy v n\<bar> < digitBase ^ L \<Longrightarrow> n \<ge> 0 \<Longrightarrow> \<bar>v\<bar> * 2 ^ nat n < digitBase ^ L"
  by (simp add: shiftedBy_def abs_mult)

lemma shift_computes:
  assumes x: "canonical x" and y: "canonical y" and L: "bigLength x \<le> L"
    and fits: "\<bar>shiftedBy (bval x) (bval y)\<bar> < digitBase ^ L"
  shows "computes env L (leftShiftImpl env x y) (shiftedBy (bval x) (bval y))"
proof (cases "isZero x \<or> isZero y")
  case True
  then have "shiftedBy (bval x) (bval y) = bval x" by (auto simp: isZero_def bval_def)
  then have "computes env L (Inr x) (shiftedBy (bval x) (bval y))" using x by (simp add: computes_def represents_def)
  then show ?thesis using True by (simp add: leftShiftImpl_def)
next
  case False
  then have nz: "\<not> isZero x" "\<not> isZero y" by auto
  have dy: "0 < dval (m_data y)" by (rule canonical_dval_pos [OF y nz(2)])
  show ?thesis
  proof (cases "m_sign y")
    case True
    then show ?thesis using computes_mono [OF rightShiftByAbsolute_computes [OF x nz(1) y nz(2), of env] L] False dy
      by (simp add: leftShiftImpl_def shiftedBy_def bval_def)
  next
    case pos: False
    then have "dval (m_data x) * 2 ^ nat (dval (m_data y)) < digitBase ^ L"
      using shiftedBy_bound [OF fits] dy unfolding abs_bval by (simp add: bval_def)
    from leftShiftByAbsolute_computes [OF x nz(1) y nz(2) this]
    show ?thesis using False pos dy by (simp add: leftShiftImpl_def shiftedBy_def bval_def)
  qed
qed

text \<open>A right shift is a left shift by the negated amount; neither branch reads the sign of the amount again.\<close>

lemma signedRightShiftImpl_eq:
  "signedRightShiftImpl env x y = leftShiftImpl env x (setSign y (\<not> m_sign y))"
  by (simp add: signedRightShiftImpl_def leftShiftImpl_def leftShiftByAbsolute_def rightShiftByAbsolute_def toShiftAmount_def
      isZero_def digitAt_def)

lemma signedRightShift_computes:
  assumes x: "canonical x" and y: "canonical y" and L: "bigLength x \<le> L"
    and fits: "\<bar>shiftedBy (bval x) (- bval y)\<bar> < digitBase ^ L"
  shows "computes env L (signedRightShiftImpl env x y) (shiftedBy (bval x) (- bval y))"
proof (cases "isZero y")
  case True
  then have "shiftedBy (bval x) (- bval y) = bval x" by (simp add: isZero_def bval_def)
  then show ?thesis using True x by (simp add: signedRightShiftImpl_def computes_def represents_def)
next
  case False
  define z where "z = setSign y (\<not> m_sign y)"
  have z: "bval z = - bval y" by (simp add: z_def bval_def)
  have "canonical z" unfolding z_def using False by (intro canonical_setSign [OF y]) simp
  from shift_computes [OF x this L, of env] show ?thesis
    using fits unfolding z signedRightShiftImpl_eq z_def [symmetric] by simp
qed

end
