(* ===== verification/BigInt_Bits_API.thy ===== *)
theory BigInt_Bits_API
  imports BigInt_API BigInt_Shift
begin

text \<open>
  The entry points of \<^verbatim>\<open>runtime/JSBigInt.cpp\<close> for the bitwise operators and the shifts, with their
  contracts against the two's complement semantics of the language: \<open>AND\<close>, \<open>OR\<close>, \<open>XOR\<close>
  and \<open>NOT\<close> on unbounded integers, and shifts that round towards minus infinity.
\<close>

section \<open>Entry points\<close>

definition bitwiseAndBigInt :: "js_env \<Rightarrow> jsBigInt \<Rightarrow> jsBigInt \<Rightarrow> (js_error, jsBigInt) result" where
  "bitwiseAndBigInt env x y = tryConvertToBigInt32 (bitwiseAndImpl env x y)"

definition bitwiseOrBigInt :: "js_env \<Rightarrow> jsBigInt \<Rightarrow> jsBigInt \<Rightarrow> (js_error, jsBigInt) result" where
  "bitwiseOrBigInt env x y = tryConvertToBigInt32 (bitwiseOrImpl env x y)"

definition bitwiseXorBigInt :: "js_env \<Rightarrow> jsBigInt \<Rightarrow> jsBigInt \<Rightarrow> (js_error, jsBigInt) result" where
  "bitwiseXorBigInt env x y = tryConvertToBigInt32 (bitwiseXorImpl env x y)"

definition bitwiseNotBigInt :: "js_env \<Rightarrow> jsBigInt \<Rightarrow> (js_error, jsBigInt) result" where
  "bitwiseNotBigInt env x = tryConvertToBigInt32 (bitwiseNotImpl env x)"

definition leftShiftBigInt :: "js_env \<Rightarrow> jsBigInt \<Rightarrow> jsBigInt \<Rightarrow> (js_error, jsBigInt) result" where
  "leftShiftBigInt env x y = tryConvertToBigInt32 (leftShiftImpl env x y)"

definition signedRightShiftBigInt :: "js_env \<Rightarrow> jsBigInt \<Rightarrow> jsBigInt \<Rightarrow> (js_error, jsBigInt) result" where
  "signedRightShiftBigInt env x y = tryConvertToBigInt32 (signedRightShiftImpl env x y)"

lemmas bits_api_defs = bitwiseAndBigInt_def bitwiseOrBigInt_def bitwiseXorBigInt_def bitwiseNotBigInt_def
  leftShiftBigInt_def signedRightShiftBigInt_def


section \<open>Interpretations of the two-operand contract\<close>

interpretation conjunction: bigint_associative bitwiseAndBigInt "(AND)" "\<lambda>x y. max (bigLength x) (bigLength y) + 1"
  by unfold_locales (simp_all add: bits_api_defs bitwiseAndImpl_computes [simplified] ac_simps)

interpretation conjunction: bigint_commutative bitwiseAndBigInt "\<lambda>_ _. True" "(AND)" "\<lambda>x y. max (bigLength x) (bigLength y) + 1"
  by unfold_locales (simp_all add: ac_simps)

interpretation disjunction: bigint_associative bitwiseOrBigInt "(OR)" "\<lambda>x y. max (bigLength x) (bigLength y) + 1"
  by unfold_locales (simp_all add: bits_api_defs bitwiseOrImpl_computes [simplified] ac_simps)

interpretation disjunction: bigint_commutative bitwiseOrBigInt "\<lambda>_ _. True" "(OR)" "\<lambda>x y. max (bigLength x) (bigLength y) + 1"
  by unfold_locales (simp_all add: ac_simps)

interpretation parity: bigint_associative bitwiseXorBigInt "(XOR)" "\<lambda>x y. max (bigLength x) (bigLength y) + 1"
  by unfold_locales (simp_all add: bits_api_defs bitwiseXorImpl_computes [simplified] ac_simps)

interpretation parity: bigint_commutative bitwiseXorBigInt "\<lambda>_ _. True" "(XOR)" "\<lambda>x y. max (bigLength x) (bigLength y) + 1"
  by unfold_locales (simp_all add: ac_simps)

lemma bitwiseNot_computes: "canonical x \<Longrightarrow> computes env (bigLength x + 1) (bitwiseNotBigInt env x) (NOT (bval x))"
  using bitwiseNotImpl_computes [of x env] by (simp add: bits_api_defs)


section \<open>Properties\<close>

text \<open>
  C11. The bitwise operators act on two's complement integers of unbounded width:
  \<^verbatim>\<open>JSBigInt::bitwiseAnd\<close>, \<^verbatim>\<open>bitwiseOr\<close>, \<^verbatim>\<open>bitwiseXor\<close> and \<^verbatim>\<open>bitwiseNot\<close> return the canonical BigInt of
  the operation on the values, for every combination of signs, or an out-of-memory error.
\<close>

theorem bitwise_operations_correct:
  assumes "canonical x" and "canonical y"
  shows "computes env (max (bigLength x) (bigLength y) + 1) (bitwiseAndBigInt env x y) (bval x AND bval y)
     \<and> computes env (max (bigLength x) (bigLength y) + 1) (bitwiseOrBigInt env x y) (bval x OR bval y)
     \<and> computes env (max (bigLength x) (bigLength y) + 1) (bitwiseXorBigInt env x y) (bval x XOR bval y)
     \<and> computes env (bigLength x + 1) (bitwiseNotBigInt env x) (NOT (bval x))"
  using conjunction.operation_computes [OF assms TrueI] disjunction.operation_computes [OF assms TrueI]
    parity.operation_computes [OF assms TrueI] bitwiseNot_computes [OF assms(1)] by blast

theorem bitwise_operations_correct_witness:
  "bitwiseAndBigInt roomyHeap (negBig [0, 1]) (negBig [1]) = Inr (negBig [0, 1])
   \<and> bitwiseOrBigInt roomyHeap (negBig [0, 1]) (negBig [1]) = Inr (negBig [1])
   \<and> bitwiseXorBigInt roomyHeap (negBig [0, 1]) (negBig [1]) = Inr (posBig [0xFFFFFFFFFFFFFFFF])
   \<and> bitwiseNotBigInt roomyHeap (negBig [0, 1]) = Inr (posBig [0xFFFFFFFFFFFFFFFF])"
proof -
  have c: "canonical (negBig [0, 1])" "canonical (negBig [1])" by (simp_all add: canonical_def maxLength_eq)
  have r: "represents (negBig [0, 1]) (- 0x10000000000000000)" "represents (negBig [1]) (- 1)"
    "represents (posBig [0xFFFFFFFFFFFFFFFF]) 0xFFFFFFFFFFFFFFFF" by (simp_all add: example_simps)
  note ops = bitwise_operations_correct [OF c, of roomyHeap]
  show ?thesis
    using ops roomyHeap_result [OF _ _ r(1), of 3 "bitwiseAndBigInt roomyHeap (negBig [0, 1]) (negBig [1])"]
      roomyHeap_result [OF _ _ r(2), of 3 "bitwiseOrBigInt roomyHeap (negBig [0, 1]) (negBig [1])"]
      roomyHeap_result [OF _ _ r(3), of 3 "bitwiseXorBigInt roomyHeap (negBig [0, 1]) (negBig [1])"]
      roomyHeap_result [OF _ _ r(3), of 3 "bitwiseNotBigInt roomyHeap (negBig [0, 1])"]
    by (simp add: maxLength_eq bval_def digitBase_num numeral_3_eq_3)
qed

text \<open>
  C12. Shifts multiply by powers of two and divide by them rounding down: \<^verbatim>\<open>JSBigInt::leftShift\<close> returns the
  canonical BigInt of \<open>x * 2 ^ y\<close>, of \<open>x div 2 ^ (- y)\<close> for a negative amount, and
  \<^verbatim>\<open>JSBigInt::signedRightShift\<close> does the same with the amount negated. They fail only when a BigInt no
  longer than the operand or the result cannot be had; in particular an amount the code refuses outright has a
  result that exceeds the largest BigInt.
\<close>

theorem shifts_correct:
  assumes "canonical x" and "canonical y" and "bigLength x \<le> L"
  shows "(\<bar>shiftedBy (bval x) (bval y)\<bar> < digitBase ^ L \<longrightarrow>
            computes env L (leftShiftBigInt env x y) (shiftedBy (bval x) (bval y)))
     \<and> (\<bar>shiftedBy (bval x) (- bval y)\<bar> < digitBase ^ L \<longrightarrow>
            computes env L (signedRightShiftBigInt env x y) (shiftedBy (bval x) (- bval y)))"
  using shift_computes [OF assms] signedRightShift_computes [OF assms] by (simp add: bits_api_defs)

theorem shifts_correct_witness:
  "leftShiftBigInt roomyHeap (negBig [3]) (posBig [65]) = Inr (negBig [0, 6])
   \<and> signedRightShiftBigInt roomyHeap (negBig [5]) (posBig [1]) = Inr (negBig [3])
   \<and> signedRightShiftBigInt roomyHeap (negBig [0xFFFFFFFFFFFFFFFF, 0xFFFFFFFFFFFFFFFF]) (posBig [64]) = Inr (negBig [0, 1])"
proof -
  have c: "canonical (negBig [3])" "canonical (posBig [65])" "canonical (negBig [5])" "canonical (posBig [1])"
    "canonical (negBig [0xFFFFFFFFFFFFFFFF, 0xFFFFFFFFFFFFFFFF])" "canonical (posBig [64])"
    by (simp_all add: canonical_def maxLength_eq)
  have r: "represents (negBig [0, 6]) (- 110680464442257309696)" "represents (negBig [3]) (- 3)"
    "represents (negBig [0, 1]) (- 0x10000000000000000)" by (simp_all add: example_simps)
  note ops = shifts_correct [OF c(1,2), of 2 roomyHeap] shifts_correct [OF c(3,4), of 2 roomyHeap] shifts_correct [OF c(5,6), of 2 roomyHeap]
  show ?thesis
    using ops roomyHeap_result [OF _ _ r(1), of 2 "leftShiftBigInt roomyHeap (negBig [3]) (posBig [65])"]
      roomyHeap_result [OF _ _ r(2), of 2 "signedRightShiftBigInt roomyHeap (negBig [5]) (posBig [1])"]
      roomyHeap_result [OF _ _ r(3), of 2 "signedRightShiftBigInt roomyHeap (negBig [0xFFFFFFFFFFFFFFFF, 0xFFFFFFFFFFFFFFFF]) (posBig [64])"]
    by (simp add: maxLength_eq bval_def digitBase_num shiftedBy_def)
qed

text \<open>
  C13. The conjunction of two negative BigInts always allocates one digit more than the longer operand has. When an
  operand already has the maximal number of digits the operation throws an out-of-memory error, also
  where its result is an existing BigInt, as for \<open>x & x\<close>.
\<close>

theorem bitwiseAnd_longest_negatives_throw:
  assumes "bval x < 0" and "bval y < 0" and "canonical x" and "canonical y"
    and "max (bigLength x) (bigLength y) = maxLength" and "hasGlobalObject env"
  shows "bitwiseAndBigInt env x y = Inl (OutOfMemoryError ''BigInt generated from this operation is too big'')
     \<and> represents x (bval x AND bval x)"
proof -
  have s: "m_sign x" "m_sign y" using assms canonical_sign by auto
  have "\<not> isZero x" using assms(1,3) canonical_bval_0 by fastforce
  moreover have "bigLength x \<le> maxLength + 1" using assms(3) by (simp add: canonical_def)
  ultimately show ?thesis
    using s assms(3,5,6) unfolding bits_api_defs bitwiseAndImpl_def
    by (simp add: absoluteSubOne_def createWithLength_def throwOutOfMemoryError_def represents_def)
qed

theorem bitwiseAnd_longest_negatives_throw_witness:
  "bitwiseAndBigInt roomyHeap (negBig (replicate maxLength 1)) (negBig [1])
     = Inl (OutOfMemoryError ''BigInt generated from this operation is too big'')"
proof -
  have c: "canonical (negBig (replicate maxLength 1))" "canonical (negBig [1])" by (simp_all add: canonical_def maxLength_eq)
  have "bval (negBig (replicate maxLength 1)) < 0" using canonical_sign [OF c(1)] by simp
  moreover have "bval (negBig [1]) < 0" by (simp add: bval_def)
  ultimately show ?thesis using bitwiseAnd_longest_negatives_throw [OF _ _ c, of roomyHeap] by (simp add: roomyHeap_def maxLength_eq)
qed

end
