(* ===== verification/BigInt_AsN.thy ===== *)
theory BigInt_AsN
  imports BigInt_API BigInt_Shift
begin

text \<open>
  Truncation to a number of bits, of \<^verbatim>\<open>runtime/JSBigInt.cpp\<close>: \<^verbatim>\<open>asIntN\<close>, \<^verbatim>\<open>asUintN\<close>, their helpers
  \<^verbatim>\<open>truncateToNBits\<close> and \<^verbatim>\<open>truncateAndSubFromPowerOfTwo\<close>, and the conversions to 64-bit machine
  integers \<^verbatim>\<open>toBigUInt64Heap\<close>, \<^verbatim>\<open>toBigUInt64\<close> and \<^verbatim>\<open>toBigInt64\<close>. The number of bits is a \<^verbatim>\<open>uint64_t\<close>
  in the code and a 64-bit word here; the two helpers take a non-negative \<^verbatim>\<open>int32_t\<close>.
\<close>

section \<open>The operations\<close>

definition truncateToNBits :: "js_env \<Rightarrow> nat \<Rightarrow> jsBigInt \<Rightarrow> (js_error, jsBigInt) result" where
  "truncateToNBits env n x =
     andThen (assertThat (n \<noteq> 0)) (\<lambda>_.
     andThen (assertThat (bigLength x > n div digitBits)) (\<lambda>_.
     let neededDigits = (n + (digitBits - 1)) div digitBits
     in andThen (assertThat (neededDigits \<le> bigLength x)) (\<lambda>_.
        andThen (createWithLength env neededDigits) (\<lambda>result.
          let last = neededDigits - 1;
              result = for_up 0 last (\<lambda>i r. setDigit r i (digitAt x i)) result;
              msd = digitAt x last;
              msd = (if n mod digitBits \<noteq> 0
                     then let drop = digitBits - n mod digitBits in drop_bit drop (push_bit drop msd)
                     else msd)
          in rightTrim env (setSign (setDigit result last msd) (m_sign x))))))"

definition negateStep :: "jsBigInt \<Rightarrow> nat \<Rightarrow> digit \<Rightarrow> digit \<Rightarrow> digit \<times> digit" where
  "negateStep x i old borrow =
     (let newBorrow = 0;
          (difference, newBorrow) = digitSub 0 (digitAt x i) newBorrow
      in digitSub difference borrow newBorrow)"

definition negateBorrowStep :: "nat \<Rightarrow> digit \<Rightarrow> digit \<Rightarrow> digit \<times> digit" where
  "negateBorrowStep i old borrow = (let newBorrow = 0 in digitSub 0 borrow newBorrow)"

text \<open>The most significant digit of \<open>2 ^ n\<close> minus the low bits, given the digit and the borrow from below.\<close>

definition subFromPowerMSD :: "nat \<Rightarrow> digit \<Rightarrow> digit \<Rightarrow> (js_error, digit) result" where
  "subFromPowerMSD msdBitsConsumed msd borrow =
     (if msdBitsConsumed = 0
      then let newBorrow = 0;
               (resultMSD, newBorrow) = digitSub 0 msd newBorrow;
               (resultMSD, newBorrow) = digitSub resultMSD borrow newBorrow
           in Inr resultMSD
      else let drop = digitBits - msdBitsConsumed;
               msd = drop_bit drop (push_bit drop msd);
               minuendMSD = push_bit (digitBits - drop) 1;
               newBorrow = 0;
               (resultMSD, newBorrow) = digitSub minuendMSD msd newBorrow;
               (resultMSD, newBorrow) = digitSub resultMSD borrow newBorrow
           in andThen (assertThat (newBorrow = 0)) (\<lambda>_. Inr (resultMSD AND (minuendMSD - 1))))"

definition truncateAndSubFromPowerOfTwo :: "js_env \<Rightarrow> nat \<Rightarrow> jsBigInt \<Rightarrow> bool \<Rightarrow> (js_error, jsBigInt) result" where
  "truncateAndSubFromPowerOfTwo env n x resultSign =
     andThen (assertThat (n \<noteq> 0)) (\<lambda>_.
     andThen (assertThat (n \<le> maxLengthBits)) (\<lambda>_.
     let neededDigits = (n + (digitBits - 1)) div digitBits
     in andThen (assertThat (neededDigits \<le> maxLength)) (\<lambda>_.
        andThen (createWithLength env neededDigits) (\<lambda>result.
          let last = neededDigits - 1;
              len = bigLength x;
              borrow = 0;
              limit = min last len;
              (digits, borrow) = digitLoop 0 0 limit (negateStep x) (m_data result, borrow);
              (digits, borrow) = digitLoop 0 limit last negateBorrowStep (digits, borrow);
              msd = (if last < len then digitAt x last else 0)
          in andThen (subFromPowerMSD (n mod digitBits) msd borrow) (\<lambda>resultMSD.
               rightTrim env (setSign (setDigit (result\<lparr>m_data := digits\<rparr>) last resultMSD) resultSign))))))"

text \<open>The second half of \<^verbatim>\<open>asIntNImpl\<close>: the magnitude does not simply fit, and has to be truncated.\<close>

definition asIntNTruncate :: "js_env \<Rightarrow> nat \<Rightarrow> jsBigInt \<Rightarrow> nat \<Rightarrow> digit \<Rightarrow> digit \<Rightarrow> (js_error, jsBigInt) result" where
  "asIntNTruncate env N x neededLength topDigit compareDigit =
     (let hasBit = (topDigit AND compareDigit = compareDigit)
      in if \<not> hasBit then truncateToNBits env N x
         else if \<not> m_sign x then truncateAndSubFromPowerOfTwo env N x True
         else if topDigit AND (compareDigit - 1) = 0
         then if anyDigit x (rev [0..<neededLength - 1]) then truncateAndSubFromPowerOfTwo env N x False
              else if bigLength x = neededLength \<and> topDigit = compareDigit then Inr x
              else truncateToNBits env N x
         else truncateAndSubFromPowerOfTwo env N x False)"

definition asIntNImpl :: "js_env \<Rightarrow> 64 word \<Rightarrow> jsBigInt \<Rightarrow> (js_error, jsBigInt) result" where
  "asIntNImpl env n x =
     (if isZero x then Inr x
      else if n = 0 then zeroImpl env
      else let neededLength = unat ((n + of_nat digitBits - 1) div of_nat digitBits);
               len = bigLength x
        in if len < neededLength then Inr x
           else andThen (assertThat (neededLength \<le> maxInt)) (\<lambda>_.
             let topDigit = digitAt x (neededLength - 1);
                 compareDigit = push_bit (unat (n - 1) mod digitBits) 1
             in if len = neededLength \<and> topDigit < compareDigit then Inr x
                else andThen (assertThat (unat n \<le> maxInt)) (\<lambda>_.
                  asIntNTruncate env (unat n) x neededLength topDigit compareDigit)))"

definition asUintNImpl :: "js_env \<Rightarrow> 64 word \<Rightarrow> jsBigInt \<Rightarrow> (js_error, jsBigInt) result" where
  "asUintNImpl env n x =
     (if isZero x then Inr x
      else if n = 0 then zeroImpl env
      else if m_sign x
      then if unat n > maxLengthBits
           then throwOutOfMemoryError env ''BigInt generated from this operation is too big''
           else truncateAndSubFromPowerOfTwo env (unat n) x False
      else if unat n \<ge> maxLengthBits then Inr x
      else let neededLength = unat ((n + of_nat digitBits - 1) div of_nat digitBits)
        in if bigLength x < neededLength then Inr x
           else let bitsInTopDigit = unat n mod digitBits
             in if bigLength x = neededLength
                   \<and> (bitsInTopDigit = 0 \<or> drop_bit bitsInTopDigit (digitAt x (neededLength - 1)) = 0)
                then Inr x
                else andThen (assertThat (unat n \<le> maxInt)) (\<lambda>_. truncateToNBits env (unat n) x))"

definition asIntN :: "js_env \<Rightarrow> 64 word \<Rightarrow> jsBigInt \<Rightarrow> (js_error, jsBigInt) result" where
  "asIntN env n x = tryConvertToBigInt32 (asIntNImpl env n x)"

definition asUintN :: "js_env \<Rightarrow> 64 word \<Rightarrow> jsBigInt \<Rightarrow> (js_error, jsBigInt) result" where
  "asUintN env n x = tryConvertToBigInt32 (asUintNImpl env n x)"

definition toBigUInt64Heap :: "jsBigInt \<Rightarrow> 64 word" where
  "toBigUInt64Heap x =
     (if bigLength x = 0 then 0
      else let value = digitAt x 0 in if \<not> m_sign x then value else NOT (value - 1))"

definition toBigUInt64 :: "jsBigInt \<Rightarrow> 64 word" where
  "toBigUInt64 x = toBigUInt64Heap x"

definition toBigInt64 :: "jsBigInt \<Rightarrow> 64 word" where
  "toBigInt64 x = toBigUInt64Heap x"


section \<open>The digits that \<open>n\<close> bits need\<close>

text \<open>
  For \<open>n\<close> bits the code splits off the most significant digit: the digits below it weigh
  \<open>digitBase ^ topIndex n\<close>, and \<open>topRange n\<close> is the range of the bits kept of it.
\<close>

definition topIndex :: "nat \<Rightarrow> nat" where
  "topIndex n = (n + 63) div 64 - 1"

definition topRange :: "nat \<Rightarrow> int" where
  "topRange n = (if n mod 64 = 0 then digitBase else 2 ^ (n mod 64))"

lemma top_split:
  assumes "n \<noteq> 0"
  shows "(2 :: int) ^ n = digitBase ^ topIndex n * topRange n" and "topRange n dvd digitBase" and "0 < topRange n"
    and "topRange n \<le> digitBase" and "(n + 63) div 64 = topIndex n + 1"
    and "(2 :: int) ^ (n - 1) = digitBase ^ topIndex n * 2 ^ ((n - 1) mod 64)" and "topRange n = 2 ^ ((n - 1) mod 64 + 1)"
proof -
  define k p where "k = topIndex n" and "p = (n - 1) mod 64"
  have "(n + 63) div 64 = (n - 1 + 64) div 64" using assms by simp
  then have N: "(n + 63) div 64 = (n - 1) div 64 + 1" by simp
  then have k: "k = (n - 1) div 64" by (simp add: k_def topIndex_def)
  have n: "n = 64 * k + (p + 1)" using assms div_mult_mod_eq [of "n - 1" 64] unfolding k p_def by simp
  have p: "p < 64" by (simp add: p_def)
  show "(n + 63) div 64 = topIndex n + 1" using N k by (simp add: k_def)
  have "n mod 64 = (p + 1) mod 64" unfolding n by simp
  then have "n mod 64 = (if p = 63 then 0 else p + 1)" using p by simp
  then show r: "topRange n = 2 ^ ((n - 1) mod 64 + 1)"
    unfolding p_def [symmetric] topRange_def digitBase_def by simp
  have "(2 :: int) ^ n = 2 ^ (64 * k) * 2 ^ (p + 1)" unfolding n by (rule power_add)
  then show "(2 :: int) ^ n = digitBase ^ topIndex n * topRange n"
    unfolding r digitBase_power_2 k_def p_def .
  have "n - 1 = 64 * k + p" using n by simp
  then have "(2 :: int) ^ (n - 1) = 2 ^ (64 * k) * 2 ^ p" by (simp only: power_add)
  then show "(2 :: int) ^ (n - 1) = digitBase ^ topIndex n * 2 ^ ((n - 1) mod 64)"
    unfolding digitBase_power_2 k_def p_def .
  show d: "topRange n dvd digitBase" unfolding r digitBase_def p_def [symmetric] using p by (intro le_imp_power_dvd) simp
  show "0 < topRange n" by (simp add: r)
  show "topRange n \<le> digitBase" using d by (intro zdvd_imp_le) auto
qed

lemma topIndex_eq: "n \<noteq> 0 \<Longrightarrow> topIndex n * 64 + ((n - 1) mod 64 + 1) = n"
proof -
  assume n: "n \<noteq> 0"
  have "topIndex n = (n + 63) div 64 - 1" by (simp add: topIndex_def)
  also have "(n + 63) div 64 = (n - 1 + 64) div 64" using n by simp
  also have "\<dots> = (n - 1) div 64 + 1" by simp
  finally show ?thesis using n by (simp add: div_mult_mod_eq)
qed

lemma uint_top_bits:
  "n \<noteq> 0 \<Longrightarrow> uint (if n mod 64 \<noteq> 0 then drop_bit (64 - n mod 64) (push_bit (64 - n mod 64) d) else d) = uint (d :: digit) mod topRange n"
  "m < 64 \<Longrightarrow> 0 < m \<Longrightarrow> uint (drop_bit (64 - m) (push_bit (64 - m) d)) = uint (d :: digit) mod 2 ^ m"
proof -
  have *: "uint (drop_bit (64 - m) (push_bit (64 - m) d)) = uint d mod 2 ^ m" if "m < 64" "0 < m" for m and d :: digit
  proof -
    have "drop_bit (64 - m) (push_bit (64 - m) d) = d AND mask m"
      using that by (intro bit_word_eqI) (auto simp: bit_simps)
    then show ?thesis using that uint_and_mask [of m d] by simp
  qed
  then show "m < 64 \<Longrightarrow> 0 < m \<Longrightarrow> uint (drop_bit (64 - m) (push_bit (64 - m) d)) = uint d mod 2 ^ m" .
  show "n \<noteq> 0 \<Longrightarrow> uint (if n mod 64 \<noteq> 0 then drop_bit (64 - n mod 64) (push_bit (64 - n mod 64) d) else d) = uint d mod topRange n"
    using * [of "n mod 64" d] by (auto simp: topRange_def)
qed

text \<open>Splitting a magnitude at the top digit.\<close>

lemma dval_mod_bits:
  assumes "n \<noteq> 0"
  defines "k \<equiv> topIndex n"
  shows "dval ds mod 2 ^ n = dval (take k ds) + digitBase ^ k * (uint (if k < length ds then ds ! k else 0) mod topRange n)"
proof (cases "k < length ds")
  case True
  have "drop k ds = ds ! k # drop (Suc k) ds" using True by (simp add: Cons_nth_drop_Suc)
  moreover have "(uint (ds ! k) + digitBase * v) mod topRange n = uint (ds ! k) mod topRange n" for v
    using mod_add_right_eq [of "uint (ds ! k)" "digitBase * v" "topRange n"] top_split(2) [OF assms(1)] by simp
  ultimately have "dval (drop k ds) mod topRange n = uint (ds ! k) mod topRange n" by simp
  then show ?thesis
    using True top_split(3) [OF assms(1)] unfolding top_split(1) [OF assms(1)] k_def [symmetric]
    by (simp add: zmod_zmult2_eq dval_div_base_power dval_mod_base_power)
next
  case False
  have "dval ds < digitBase ^ length ds" by (rule dval_bound)
  also have "\<dots> \<le> digitBase ^ k" using False by (intro power_increasing) auto
  also have "\<dots> * 1 \<le> 2 ^ n" unfolding top_split(1) [OF assms(1)] k_def using top_split(3) [OF assms(1)] by (intro mult_left_mono) auto
  finally show ?thesis using False by simp
qed


section \<open>Truncation\<close>

lemma truncateToNBits_computes:
  assumes "canonical x" and n: "n \<noteq> 0" "n div 64 < bigLength x" and len: "(n + 63) div 64 \<le> bigLength x"
  shows "computes env ((n + 63) div 64) (truncateToNBits env n x)
     (if m_sign x then - (dval (m_data x) mod 2 ^ n) else dval (m_data x) mod 2 ^ n)"
proof -
  define k where "k = topIndex n"
  note N = top_split(5) [OF n(1), folded k_def]
  let ?msd = "if n mod 64 \<noteq> 0 then drop_bit (64 - n mod 64) (push_bit (64 - n mod 64) (digitAt x k)) else digitAt x k"
  have k: "k < bigLength x" using len N by simp
  have eq: "truncateToNBits env n x = andThen (createWithLength env (k + 1)) (\<lambda>result.
      rightTrim env (setSign (setDigit (for_up 0 k (\<lambda>i r. setDigit r i (digitAt x i)) result) k ?msd) (m_sign x)))"
    using n len unfolding truncateToNBits_def digitBits_def Let_def by (simp add: N)
  show ?thesis
    unfolding eq N
  proof (rule computes_andThen [OF createWithLength_outcome order_refl])
    fix result assume fr: "fresh (k + 1) result"
    then have lr: "bigLength result = k + 1" by (simp add: fresh_def)
    define r where "r = setDigit (for_up 0 k (\<lambda>i r. setDigit r i (digitAt x i)) result) k ?msd"
    have "m_data r = take k (m_data x) @ [?msd]"
      unfolding r_def using copy_loop [of k result x] lr k take_Suc_update [of k "take k (m_data x) @ drop k (m_data result)"]
      by (simp add: setDigit_def list_update_append drop_update_swap Cons_nth_drop_Suc [symmetric])
    then have "bigLength r = k + 1" "dval (m_data r) = dval (m_data x) mod 2 ^ n"
      using k uint_top_bits(1) [OF n(1), of "digitAt x k"] dval_mod_bits [OF n(1), of "m_data x", folded k_def]
      by (simp_all add: dval_snoc digitAt_def del: if_not_P)
    then show "computes env (k + 1) (rightTrim env (setSign r (m_sign x)))
        (if m_sign x then - (dval (m_data x) mod 2 ^ n) else dval (m_data x) mod 2 ^ n)"
      by (intro rightTrim_setSign [OF fr]) simp_all
  qed
qed

text \<open>The borrow chains that negate the low digits.\<close>

interpretation negate: carry_chain "negateStep x" "\<lambda>_. True" "\<lambda>b. - uint b" "\<lambda>i _. - uint (digitAt x i)" for x
proof unfold_locales
  fix c i old d c'
  assume "negateStep x i old c = (d, c')"
  then obtain s1 n1 where e1: "digitSub 0 (digitAt x i) 0 = (s1, n1)" and e2: "digitSub s1 c n1 = (d, c')"
    by (auto simp: negateStep_def Let_def split: prod.splits)
  note l1 = digitSub_law [OF e1]
  have "uint n1 + 1 < digitBase" using l1(2) by (simp add: digitBase_num)
  then show "uint d + digitBase * (- uint c') = - uint (digitAt x i) + - uint c \<and> True"
    using l1(1) digitSub_law(1) [OF e2] by (simp add: digitBase_num)
qed

interpretation negateBorrow: carry_chain negateBorrowStep "\<lambda>_. True" "\<lambda>b. - uint b" "\<lambda>_ _. 0"
proof unfold_locales
  fix c i old d c'
  assume "negateBorrowStep i old c = (d, c')"
  then show "uint d + digitBase * (- uint c') = 0 + - uint c \<and> True"
    using digitSub_law(1) [of 0 c 0 d c'] by (simp add: negateBorrowStep_def)
qed

lemma digitSub_no_borrow:
  assumes "digitSub a b 0 = (r, c)" and "uint b \<le> uint a"
  shows "uint r = uint a - uint b" and "c = 0"
proof -
  have law: "uint r - digitBase * uint c = uint a - uint b" "uint c \<le> 1"
    using digitSub_law [OF assms(1)] by (simp_all add: digitBase_num)
  have "uint a - uint b < digitBase" using uint_less_digitBase [of a] uint_nonneg [of b] by linarith
  moreover have "uint c \<noteq> 1"
  proof
    assume "uint c = 1"
    then show False using law(1) assms(2) uint_less_digitBase [of r] by simp
  qed
  ultimately have "uint c = 0" using law(2) uint_nonneg [of c] by linarith
  then show "c = 0" "uint r = uint a - uint b" using law(1) by (simp_all add: uint_0_iff)
qed

lemma subFromPowerMSD_correct:
  assumes "uint borrow \<le> 1" and n: "n \<noteq> 0"
  shows "\<exists>r. subFromPowerMSD (n mod 64) msd borrow = Inr r \<and> uint r = (- uint msd - uint borrow) mod topRange n"
proof (cases "n mod 64 = 0")
  case True
  have "uint (0 - msd - borrow) = (- uint msd - uint borrow) mod 2 ^ 64"
    by (simp add: uint_word_ariths mod_simps)
  then show ?thesis using True by (simp add: subFromPowerMSD_def digitSub_def Let_def topRange_def digitBase_def)
next
  case False
  define c where "c = n mod 64"
  have c: "0 < c" "c < 64" using False by (simp_all add: c_def)
  define msd' where "msd' = drop_bit (64 - c) (push_bit (64 - c) msd)"
  have m: "uint msd' = uint msd mod 2 ^ c" unfolding msd'_def using c by (rule uint_top_bits(2) [rotated])
  have M: "uint (push_bit c 1 :: digit) = 2 ^ c" using c by (simp add: push_bit_eq_mult uint_2_power)
  have mlt: "uint msd' < 2 ^ c" by (simp add: m)
  obtain s1 n1 where e1: "digitSub (push_bit c 1) msd' 0 = (s1, n1)" by fastforce
  obtain s2 n2 where e2: "digitSub s1 borrow n1 = (s2, n2)" by fastforce
  have s1: "uint s1 = 2 ^ c - uint msd'" "n1 = 0" using digitSub_no_borrow [OF e1] mlt unfolding M by linarith+
  have s2: "uint s2 = 2 ^ c - uint msd' - uint borrow" "n2 = 0"
    using digitSub_no_borrow [OF e2 [unfolded s1(2)]] s1(1) mlt assms(1) by linarith+
  have "uint (s2 AND (push_bit c 1 - 1)) = uint s2 mod 2 ^ c"
    using uint_and_mask [of c s2] c by (simp add: mask_eq_exp_minus_1 push_bit_eq_mult)
  also have "\<dots> = (2 ^ c - uint msd mod 2 ^ c - uint borrow) mod 2 ^ c" by (simp add: s2 m)
  also have "\<dots> = (- uint msd - uint borrow) mod 2 ^ c"
    using mod_diff_left_eq [of "2 ^ c - uint msd mod 2 ^ c" "2 ^ c" "uint borrow"]
      mod_diff_left_eq [of "- uint msd" "2 ^ c" "uint borrow"] by (simp add: mod_simps)
  finally have "uint (s2 AND (push_bit c 1 - 1)) = (- uint msd - uint borrow) mod topRange n"
    using False by (simp add: topRange_def c_def)
  moreover have "subFromPowerMSD c msd borrow = Inr (s2 AND (push_bit c 1 - 1))"
    using c e1 e2 s2(2) unfolding subFromPowerMSD_def digitBits_def Let_def msd'_def by (simp del: push_bit_of_1)
  ultimately show ?thesis unfolding c_def by blast
qed

text \<open>Negating digit by digit below the top and modulo a divisor of the base at the top negates the whole.\<close>

lemma negated_mod:
  fixes W M :: int
  assumes "0 \<le> low" "low < W" "low + lo = W * b" and M: "0 < M"
  shows "low + W * ((- t - b) mod M) = (- (lo + W * t)) mod (W * M)"
proof -
  define q where "q = (- t - b) div M"
  have W: "0 < W" using assms(1,2) by linarith
  have "(- t - b) mod M = - t - b - M * q" by (simp add: q_def minus_mult_div_eq_mod [symmetric])
  then have e: "low + W * ((- t - b) mod M) = - (lo + W * t) + (W * M) * (- q)"
    using assms(3) by (simp add: right_diff_distrib)
  have "0 \<le> (- t - b) mod M" "(- t - b) mod M \<le> M - 1" using M by simp_all
  then have "0 \<le> W * ((- t - b) mod M)" "W * ((- t - b) mod M) \<le> W * (M - 1)" using W by (auto intro: mult_left_mono)
  then have "0 \<le> low + W * ((- t - b) mod M)" "low + W * ((- t - b) mod M) < W * M"
    using assms(1,2) by (simp_all add: algebra_simps)
  then have "(low + W * ((- t - b) mod M)) mod (W * M) = low + W * ((- t - b) mod M)" by simp
  then show ?thesis unfolding e mod_mult_self2 by (rule sym)
qed

lemma negated_digits:
  assumes l1: "digitLoop 0 0 (min k (bigLength x)) (negateStep x) (r0, 0) = (r1, b1)"
    and l2: "digitLoop 0 (min k (bigLength x)) k negateBorrowStep (r1, b1) = (r, b)" and k: "k < length r0"
  shows "length r = length r0" and "dval (take k r) + dval (take k (m_data x)) = digitBase ^ k * uint b" and "uint b \<le> 1"
proof -
  define m where "m = min k (bigLength x)"
  have lens: "length r1 = length r0" "length r = length r0"
    using digitLoop_frame [OF l1] digitLoop_frame [OF l2] by simp_all
  then show "length r = length r0" by simp
  have "dval (take m r1) + digitBase ^ m * - uint b1 = (\<Sum>i<m. digitBase ^ i * - uint (digitAt x i))"
    using negate.loop_prefix(1) [OF l1] k by (simp add: m_def)
  also have "\<dots> = - dval (take m (m_data x))"
    using dval_sum_scaled [of 0 m "m_data x" "- 1"] by (simp add: digitAt_def m_def)
  also have "take m (m_data x) = take k (m_data x)" by (simp add: m_def min_def)
  finally have 1: "dval (take m r1) + digitBase ^ m * - uint b1 = - dval (take k (m_data x))" .
  have "dval (take k r) + digitBase ^ k * - uint b = dval (take m r1) + digitBase ^ m * - uint b1"
    using negateBorrow.loop_prefix(1) [OF l2] k lens by (simp add: m_def)
  then show eq: "dval (take k r) + dval (take k (m_data x)) = digitBase ^ k * uint b" using 1 by simp
  have "dval (take k r) < digitBase ^ k" "dval (take k (m_data x)) \<le> digitBase ^ k"
  proof -
    show "dval (take k r) < digitBase ^ k" using dval_bound [of "take k r"] k lens by simp
    have "dval (take k (m_data x)) < digitBase ^ min k (bigLength x)" using dval_bound [of "take k (m_data x)"] by (simp add: min.commute)
    also have "\<dots> \<le> digitBase ^ k" by (intro power_increasing) auto
    finally show "dval (take k (m_data x)) \<le> digitBase ^ k" by simp
  qed
  then have "digitBase ^ k * uint b < digitBase ^ k * 2" using eq by linarith
  then show "uint b \<le> 1" by simp
qed

lemma negated_bits:
  assumes "n \<noteq> 0"
  defines "k \<equiv> topIndex n"
  shows "(- (dval (take k ds) + digitBase ^ k * uint (if k < length ds then ds ! k else 0))) mod 2 ^ n = - dval ds mod 2 ^ n"
proof -
  let ?t = "uint (if k < length ds then ds ! k else 0)"
  have "dval (take k ds) + digitBase ^ k * ?t
      = (dval (take k ds) + digitBase ^ k * (?t mod topRange n)) + (digitBase ^ k * topRange n) * (?t div topRange n)"
    by (subst (1) mod_mult_div_eq [of ?t "topRange n", symmetric]) (simp only: distrib_left mult.assoc add.assoc)
  also have "\<dots> = dval ds mod 2 ^ n + 2 ^ n * (?t div topRange n)"
    unfolding top_split(1) [OF assms(1), folded k_def, symmetric] dval_mod_bits [OF assms(1), folded k_def] ..
  finally have "(dval (take k ds) + digitBase ^ k * ?t) mod 2 ^ n = dval ds mod 2 ^ n" by simp
  then show ?thesis by (metis mod_minus_eq)
qed

lemma truncateAndSub_computes:
  assumes n: "n \<noteq> 0" "n \<le> maxLengthBits"
  shows "computes env ((n + 63) div 64) (truncateAndSubFromPowerOfTwo env n x resultSign)
     (if resultSign then - (- dval (m_data x) mod 2 ^ n) else - dval (m_data x) mod 2 ^ n)"
proof -
  define k where "k = topIndex n"
  note N = top_split(5) [OF n(1), folded k_def]
  have kmax: "k + 1 \<le> maxLength" using n N unfolding maxLength_def maxLengthBits_def digitBits_def by simp
  define t where "t = (if k < bigLength x then digitAt x k else 0)"
  define body where "body = (\<lambda>result.
        let (digits, borrow) = digitLoop 0 0 (min k (bigLength x)) (negateStep x) (m_data result, 0);
            (digits, borrow) = digitLoop 0 (min k (bigLength x)) k negateBorrowStep (digits, borrow)
        in andThen (subFromPowerMSD (n mod 64) t borrow) (\<lambda>resultMSD.
             rightTrim env (setSign (setDigit (result\<lparr>m_data := digits\<rparr>) k resultMSD) resultSign)))"
  have eq: "truncateAndSubFromPowerOfTwo env n x resultSign = andThen (createWithLength env (k + 1)) body"
    using n kmax unfolding truncateAndSubFromPowerOfTwo_def digitBits_def Let_def t_def body_def by (simp add: N)
  show ?thesis
    unfolding N eq
  proof (rule computes_andThen [OF createWithLength_outcome order_refl])
    fix result assume fr: "fresh (k + 1) result"
    then have lr: "bigLength result = k + 1" by (simp add: fresh_def)
    obtain r1 b1 where l1: "digitLoop 0 0 (min k (bigLength x)) (negateStep x) (m_data result, 0) = (r1, b1)" by fastforce
    obtain r b where l2: "digitLoop 0 (min k (bigLength x)) k negateBorrowStep (r1, b1) = (r, b)" by fastforce
    note d = negated_digits [OF l1 l2]
    obtain msd where msd: "subFromPowerMSD (n mod 64) t b = Inr msd" "uint msd = (- uint t - uint b) mod topRange n"
      using subFromPowerMSD_correct [OF d(3) n(1), of t] lr by auto
    have "take k r @ [msd] = r[k := msd]" using take_Suc_update [of k r msd] d(1) lr by simp
    then have "dval (r[k := msd]) = dval (take k r) + digitBase ^ k * ((- uint t - uint b) mod topRange n)"
      using dval_snoc [of "take k r" msd] d(1) lr msd(2) by simp
    also have "\<dots> = (- (dval (take k (m_data x)) + digitBase ^ k * uint t)) mod (digitBase ^ k * topRange n)"
      using d lr dval_bound [of "take k r"] top_split(3) [OF n(1)] by (intro negated_mod) auto
    also have "\<dots> = - dval (m_data x) mod 2 ^ n"
      using negated_bits [OF n(1), of "m_data x", folded k_def] unfolding top_split(1) [OF n(1), folded k_def, symmetric] t_def digitAt_def .
    finally have "computes env (k + 1) (rightTrim env (setSign (setDigit (result\<lparr>m_data := r\<rparr>) k msd) resultSign))
          (if resultSign then - (- dval (m_data x) mod 2 ^ n) else - dval (m_data x) mod 2 ^ n)"
      using d(1) lr by (intro rightTrim_setSign [OF fr]) (simp_all add: setDigit_def)
    moreover have "body result = rightTrim env (setSign (setDigit (result\<lparr>m_data := r\<rparr>) k msd) resultSign)"
      by (simp add: body_def l1 l2 msd(1))
    ultimately show "computes env (k + 1) (body result)
        (if resultSign then - (- dval (m_data x) mod 2 ^ n) else - dval (m_data x) mod 2 ^ n)" by (simp only:)
  qed
qed


section \<open>Unsigned and signed truncation\<close>

lemma neededLength_eq:
  fixes n :: "64 word"
  assumes "unat n < 2 ^ 53"
  shows "unat ((n + of_nat digitBits - 1) div of_nat digitBits) = (unat n + 63) div 64"
proof -
  have "unat (63 + n) = unat n + 63" using assms by (subst unat_add_lem [THEN iffD1]) simp_all
  then show ?thesis by (simp add: digitBits_def unat_div)
qed

text \<open>A magnitude with fewer than \<open>n\<close> bits has too few digits, or its top digit is small.\<close>

lemma small_magnitude:
  assumes "n \<noteq> 0" and "length ds \<le> topIndex n + 1"
    and "length ds = topIndex n + 1 \<Longrightarrow> uint (ds ! topIndex n) < 2 ^ m" and "topIndex n * 64 + m \<le> n"
  shows "dval ds < 2 ^ (topIndex n * 64 + m)"
proof -
  define k where "k = topIndex n"
  have p: "(2 :: int) ^ (k * 64 + m) = digitBase ^ k * 2 ^ m" by (simp add: power_add digitBase_power_2 mult.commute)
  show ?thesis
  proof (cases "length ds = k + 1")
    case True
    then have ne: "ds \<noteq> []" by auto
    have "dval (butlast ds) < digitBase ^ k" using dval_bound [of "butlast ds"] True by simp
    moreover have "digitBase ^ k * (uint (last ds) + 1) \<le> digitBase ^ k * 2 ^ m"
      using assms(3) True ne by (intro mult_left_mono) (simp_all add: last_conv_nth k_def)
    ultimately show ?thesis
      unfolding k_def [symmetric] p using dval_split_last [OF ne] True by (simp add: distrib_left)
  next
    case False
    have "dval ds < digitBase ^ length ds" by (rule dval_bound)
    also have "\<dots> \<le> digitBase ^ k" using False assms(2) by (intro power_increasing) (auto simp: k_def)
    also have "\<dots> * 1 \<le> digitBase ^ k * 2 ^ m" by (intro mult_left_mono) auto
    finally show ?thesis unfolding k_def [symmetric] p by simp
  qed
qed

lemma round_up_div: "n mod 64 \<noteq> 0 \<Longrightarrow> (n + 63) div 64 = n div 64 + (1 :: nat)"
proof -
  assume r: "n mod 64 \<noteq> 0"
  have "(n + 63) div 64 = (n mod 64 + 63 + n div 64 * 64) div 64" by simp
  also have "\<dots> = n div 64 + (n mod 64 + 63) div 64" by (subst div_mult_self1) simp_all
  also have "(n mod 64 + 63) div 64 = 1"
    by (intro div_nat_eqI) (use r mod_less_divisor [of 64 n] in \<open>simp_all del: mod_less_divisor\<close>)
  finally show ?thesis .
qed

lemma top_digit_fits:
  assumes "n \<noteq> 0" and "n mod 64 = 0 \<or> drop_bit (n mod 64) d = 0"
  shows "uint (d :: digit) < 2 ^ (n - topIndex n * 64)"
proof (cases "n mod 64 = 0")
  case True
  then have "n - topIndex n * 64 = 64" using top_split(5) [OF assms(1)] assms(1) by (auto elim!: dvdE)
  then show ?thesis using uint_less_digitBase [of d] by (simp add: digitBase_def)
next
  case False
  have "topIndex n = n div 64" using top_split(5) [OF assms(1)] round_up_div [OF False] by simp
  then have "n - topIndex n * 64 = n mod 64" by (simp add: minus_div_mult_eq_mod)
  then show ?thesis using False assms(2) by (simp add: drop_bit_eq_0_iff)
qed

lemma bits_div:
  assumes "(n + 63) div 64 \<le> l" and "l = (n + 63) div 64 \<longrightarrow> n mod 64 \<noteq> 0"
  shows "n div 64 < (l :: nat)"
proof (cases "l = (n + 63) div 64")
  case True
  then show ?thesis using assms(2) round_up_div [of n] by simp
next
  case False
  have "n div 64 \<le> (n + 63) div 64" by (intro div_le_mono) simp
  then show ?thesis using False assms(1) by simp
qed

lemma asUintNImpl_computes:
  assumes x: "canonical x" and n53: "unat n < 2 ^ 53"
  shows "computes env ((unat n + 63) div 64) (asUintNImpl env n x) (bval x mod 2 ^ unat n)"
proof -
  define m where "m = unat n"
  define D where "D = dval (m_data x)"
  let ?N = "(m + 63) div 64"
  have n0: "n = 0 \<longleftrightarrow> m = 0" by (simp add: m_def unat_eq_zero)
  have direct: "computes env ?N (Inr x) (bval x mod 2 ^ m)" if "0 \<le> bval x" "bval x < 2 ^ m"
    using that x by (simp add: computes_def represents_def)
  have len: "bigLength x \<le> maxLength" using x by (simp add: canonical_def)
  have Dmax: "D < 2 ^ maxLengthBits"
  proof -
    have "D < digitBase ^ bigLength x" unfolding D_def by (rule dval_bound)
    also have "\<dots> \<le> digitBase ^ maxLength" using len by (intro power_increasing) auto
    finally show ?thesis unfolding digitBase_maxLength .
  qed
  show ?thesis
    unfolding m_def [symmetric]
  proof (cases "isZero x \<or> n = 0")
    case True
    then consider "isZero x" | "\<not> isZero x" "n = 0" by blast
    then show "computes env ?N (asUintNImpl env n x) (bval x mod 2 ^ m)"
    proof cases
      case 1
      then show ?thesis using direct by (simp add: asUintNImpl_def bval_def isZero_def)
    next
      case 2
      then show ?thesis using zeroImpl_computes n0 by (simp add: asUintNImpl_def)
    qed
  next
    case False
    then have nz: "\<not> isZero x" "m \<noteq> 0" "n \<noteq> 0" using n0 by auto
    show "computes env ?N (asUintNImpl env n x) (bval x mod 2 ^ m)"
    proof (cases "m_sign x")
      case True
      then have bx: "bval x = - D" by (simp add: bval_def D_def)
      show ?thesis
      proof (cases "m > maxLengthBits")
        case big: True
        then have "maxLength < ?N" unfolding maxLength_def maxLengthBits_def digitBits_def by simp
        then show ?thesis
          using False True big unfolding asUintNImpl_def m_def [symmetric] computes_def
          by (auto intro: throwOutOfMemoryError_outcome [of ?N] simp: grants_def)
      next
        case small: False
        then show ?thesis
          using False True truncateAndSub_computes [OF nz(2), of env x False] unfolding asUintNImpl_def m_def [symmetric] bx D_def by simp
      qed
    next
      case pos: False
      then have bx: "bval x = D" by (simp add: bval_def D_def)
      have D0: "0 \<le> D" by (simp add: D_def)
      define k where "k = topIndex m"
      note N = top_split(5) [OF nz(2), folded k_def]
      have k: "k * 64 < m" "m \<le> k * 64 + 64" using N nz(2) by linarith+
      let ?fits = "bigLength x < k + 1 \<or> bigLength x = k + 1 \<and> (m mod 64 = 0 \<or> drop_bit (m mod 64) (digitAt x k) = 0)"
      have eq: "asUintNImpl env n x = (if maxLengthBits \<le> m \<or> ?fits then Inr x
          else andThen (assertThat (m \<le> maxInt)) (\<lambda>_. truncateToNBits env m x))"
        using False pos neededLength_eq [OF n53] unfolding asUintNImpl_def m_def [symmetric] Let_def by (auto simp: N digitBits_def)
      have small: "D < 2 ^ m" if ?fits
      proof -
        have "D < 2 ^ (k * 64 + (m - k * 64))"
          unfolding D_def k_def
        proof (rule small_magnitude [OF nz(2)])
          assume len: "bigLength x = topIndex m + 1"
          then show "uint (m_data x ! topIndex m) < 2 ^ (m - topIndex m * 64)"
            using top_digit_fits [OF nz(2)] that by (auto simp: k_def digitAt_def)
        qed (use that k in \<open>auto simp: k_def\<close>)
        then show ?thesis using k by simp
      qed
      show ?thesis
      proof (cases "maxLengthBits \<le> m \<or> ?fits")
        case True
        then have "D < 2 ^ m" using small Dmax power_increasing [of maxLengthBits m "2 :: int"] by fastforce
        then show ?thesis using True direct bx D0 unfolding eq by simp
      next
        case trunc: False
        have "?N \<le> bigLength x" "bigLength x = ?N \<longrightarrow> m mod 64 \<noteq> 0" unfolding N using trunc by auto
        then have l: "m div 64 < bigLength x" "?N \<le> bigLength x" using bits_div [of m "bigLength x"] by auto
        have "m \<le> maxInt" using trunc by (simp add: maxInt_def maxLengthBits_def)
        then show ?thesis
          using truncateToNBits_computes [OF x nz(2) l, of env] pos unfolding eq bx D_def if_not_P [OF trunc] by simp
      qed
    qed
  qed
qed

text \<open>The signed reading of the low \<open>n\<close> bits, as the language defines \<^verbatim>\<open>BigInt.asIntN\<close>.\<close>

definition asSigned :: "nat \<Rightarrow> int \<Rightarrow> int" where
  "asSigned n v = (if n = 0 then 0 else let m = v mod 2 ^ n in if m \<ge> 2 ^ (n - 1) then m - 2 ^ n else m)"

lemma power_2_pred: "n \<noteq> 0 \<Longrightarrow> (2 :: int) ^ n = 2 * 2 ^ (n - 1)"
  by (cases n) simp_all

lemma asSigned_parts:
  assumes "n \<noteq> 0" and "D mod 2 ^ n = rest + 2 ^ (n - 1) * of_bool h" and "0 \<le> rest" and "rest < 2 ^ (n - 1)"
  shows "asSigned n D = (if h then - (- D mod 2 ^ n) else D mod 2 ^ n)"
    and "asSigned n (- D) = (if h \<and> rest \<noteq> 0 then - D mod 2 ^ n else - (D mod 2 ^ n))"
proof -
  define P Q M :: int where "P = 2 ^ (n - 1)" and "Q = 2 ^ n" and "M = D mod Q"
  have f: "Q = 2 * P" "0 < P" "M = rest + P * of_bool h" "rest < P"
    using assms power_2_pred [OF assms(1)] by (simp_all add: P_def Q_def M_def)
  have neg: "- D mod Q = (if M = 0 then 0 else Q - M)" by (simp add: zmod_zminus1_eq_if M_def)
  have "asSigned n D = (if M \<ge> P then M - Q else M)" "asSigned n (- D) = (if - D mod Q \<ge> P then - D mod Q - Q else - D mod Q)"
    using assms(1) by (simp_all add: asSigned_def P_def Q_def M_def)
  note eqs = this [unfolded neg]
  show "asSigned n D = (if h then - (- D mod 2 ^ n) else D mod 2 ^ n)"
    unfolding Q_def [symmetric] neg M_def [symmetric] eqs using f assms(3) by (cases h) auto
  show "asSigned n (- D) = (if h \<and> rest \<noteq> 0 then - D mod 2 ^ n else - (D mod 2 ^ n))"
    unfolding Q_def [symmetric] neg M_def [symmetric] eqs using f assms(3) by (cases h) auto
qed

lemma asSigned_small:
  assumes n: "n \<noteq> 0" and v: "- (2 ^ (n - 1)) \<le> v" "v < 2 ^ (n - 1)"
  shows "asSigned n v = v"
proof -
  define P Q :: int where "P = 2 ^ (n - 1)" and "Q = 2 ^ n"
  have f: "Q = 2 * P" "0 < P" "- P \<le> v" "v < P" using assms power_2_pred [OF n] by (simp_all add: P_def Q_def)
  have "v mod Q = (if v < 0 then v + Q else v)"
  proof (cases "v < 0")
    case True
    have "(v + Q) mod Q = v + Q" using f True by (intro mod_pos_pos_trivial) linarith+
    then show ?thesis using True by simp
  qed (use f in simp)
  moreover have "asSigned n v = (if v mod Q \<ge> P then v mod Q - Q else v mod Q)"
    using n by (simp add: asSigned_def P_def Q_def)
  ultimately show ?thesis using f by auto
qed

text \<open>What the tests on the top digit say about the bits of the magnitude.\<close>

lemma anyDigit_rev: "anyDigit x (rev is) = anyDigit x is"
proof -
  have "anyDigit x js \<longleftrightarrow> (\<exists>i\<in>set js. digitAt x i \<noteq> 0)" for js by (induction js) auto
  then show ?thesis by simp
qed

lemma top_bit_tests:
  assumes n: "n \<noteq> 0" and k: "topIndex n < bigLength x"
  defines "k \<equiv> topIndex n" and "c \<equiv> push_bit ((n - 1) mod 64) (1 :: digit)"
  defines "t \<equiv> digitAt x k"
  defines "rest \<equiv> dval (take k (m_data x)) + digitBase ^ k * (uint t mod 2 ^ ((n - 1) mod 64))"
  shows "dval (m_data x) mod 2 ^ n = rest + 2 ^ (n - 1) * of_bool (t AND c = c)" and "0 \<le> rest" and "rest < 2 ^ (n - 1)"
    and "rest = 0 \<longleftrightarrow> t AND (c - 1) = 0 \<and> \<not> anyDigit x (rev [0..<k])"
    and "uint t < 2 ^ ((n - 1) mod 64) \<longleftrightarrow> t < c" and "t AND c = c \<longleftrightarrow> odd (uint t div 2 ^ ((n - 1) mod 64))"
    and "uint c = 2 ^ ((n - 1) mod 64)"
proof -
  define p where "p = (n - 1) mod 64"
  have p: "p < 64" by (simp add: p_def)
  have c: "uint c = 2 ^ p" using p unfolding c_def p_def [symmetric] by (simp add: push_bit_eq_mult uint_2_power)
  have bits: "bit (t AND c) i \<longleftrightarrow> bit t p \<and> i = p" "bit c i \<longleftrightarrow> i = p" for i
    using p unfolding c_def p_def [symmetric] by (auto simp: bit_simps)
  have "t AND c = c \<longleftrightarrow> bit t p"
    using bits by (metis bit_word_eqI)
  also have "\<dots> \<longleftrightarrow> bit (uint t) p" using p by (simp add: bit_uint_iff)
  also have "\<dots> \<longleftrightarrow> odd (uint t div 2 ^ p)" by (rule bit_iff_odd)
  finally have odd: "t AND c = c \<longleftrightarrow> odd (uint t div 2 ^ p)" .
  then show "t AND c = c \<longleftrightarrow> odd (uint t div 2 ^ ((n - 1) mod 64))" "uint c = 2 ^ ((n - 1) mod 64)"
    using c by (simp_all only: p_def)
  from odd have h: "of_bool (t AND c = c) = uint t div 2 ^ p mod 2" by (simp add: mod_2_eq_odd)
  have "uint t mod 2 ^ (p + 1) = 2 ^ p * (uint t div 2 ^ p mod 2) + uint t mod 2 ^ p"
    using zmod_zmult2_eq [of 2 "uint t" "2 ^ p"] by (simp add: mult.commute)
  then show m: "dval (m_data x) mod 2 ^ n = rest + 2 ^ (n - 1) * of_bool (t AND c = c)"
    using k unfolding h dval_mod_bits [OF n] top_split(6,7) [OF n] p_def [symmetric] rest_def k_def [symmetric]
    by (simp add: t_def digitAt_def distrib_left)
  show "0 \<le> rest" by (simp add: rest_def)
  have lo: "dval (take k (m_data x)) < digitBase ^ k" using dval_bound [of "take k (m_data x)"] k by (simp add: k_def)
  have "uint t mod 2 ^ p \<le> 2 ^ p - 1" by simp
  then have "digitBase ^ k * (uint t mod 2 ^ p) \<le> digitBase ^ k * (2 ^ p - 1)" by (intro mult_left_mono) auto
  then show "rest < 2 ^ (n - 1)"
    using lo unfolding rest_def top_split(6) [OF n] k_def [symmetric] p_def [symmetric] by (simp add: right_diff_distrib)
  have "uint (t AND (c - 1)) = uint t mod 2 ^ p"
    using uint_and_mask [of p t] p unfolding c_def p_def [symmetric] by (simp add: mask_eq_exp_minus_1 push_bit_eq_mult)
  then have "t AND (c - 1) = 0 \<longleftrightarrow> uint t mod 2 ^ p = 0" by (metis uint_0_iff)
  then show "rest = 0 \<longleftrightarrow> t AND (c - 1) = 0 \<and> \<not> anyDigit x (rev [0..<k])"
    using k anyDigit_iff [of k x] unfolding rest_def anyDigit_rev p_def [symmetric]
    by (auto simp: add_nonneg_eq_0_iff k_def)
  show "uint t < 2 ^ ((n - 1) mod 64) \<longleftrightarrow> t < c" by (simp add: word_less_def c [unfolded p_def])
qed

text \<open>The branches of \<^verbatim>\<open>asIntNImpl\<close> once it is known that the magnitude does not simply fit.\<close>

lemma asIntNTruncate_computes:
  assumes x: "canonical x" and m: "m \<noteq> 0" and k: "topIndex m < bigLength x"
  defines "k \<equiv> topIndex m" and "c \<equiv> push_bit ((m - 1) mod 64) (1 :: digit)"
  defines "t \<equiv> digitAt x k"
  assumes big: "bigLength x = k + 1 \<longrightarrow> \<not> t < c"
  shows "computes env ((m + 63) div 64) (asIntNTruncate env m x (k + 1) t c) (asSigned m (bval x))"
proof -
  define D where "D = dval (m_data x)"
  define h where "h \<longleftrightarrow> t AND c = c"
  define rest where "rest = dval (take k (m_data x)) + digitBase ^ k * (uint t mod 2 ^ ((m - 1) mod 64))"
  note parts = top_bit_tests [OF m k, folded k_def, folded c_def t_def D_def, folded rest_def h_def]
  note signed = asSigned_parts [OF m parts(1-3)]
  note N = top_split(5) [OF m, folded k_def]
  have bx: "bval x = (if m_sign x then - D else D)" by (simp add: bval_def D_def)
  have kl: "k < bigLength x" "k < maxLength" using k x by (auto simp: canonical_def k_def)
  then have "m \<le> maxLengthBits" using N by (simp add: maxLength_eq maxLengthBits_def)
  then have sub: "computes env ((m + 63) div 64) (truncateAndSubFromPowerOfTwo env m x s)
      (if s then - (- D mod 2 ^ m) else - D mod 2 ^ m)" for s
    unfolding D_def by (rule truncateAndSub_computes [OF m])
  have trunc: "computes env ((m + 63) div 64) (truncateToNBits env m x) (if m_sign x then - (D mod 2 ^ m) else D mod 2 ^ m)"
    if "\<not> h \<or> rest = 0 \<and> \<not> (bigLength x = k + 1 \<and> t = c)"
  proof -
    have "m mod 64 \<noteq> 0" if l: "bigLength x = k + 1"
    proof
      assume "m mod 64 = 0"
      then have p: "(m - Suc 0) mod 64 = 63" using m by (cases m) (auto simp: mod_Suc split: if_splits)
      have "2 ^ 63 \<le> uint t" using big l parts(5) by (simp add: p)
      moreover have "uint t < 2 ^ 63 + 2 ^ 63" using uint_less_digitBase [of t] by (simp add: digitBase_num)
      ultimately have q: "uint t div 2 ^ 63 = 1" by (intro div_unique_bounds) auto
      then have h using parts(6) by (simp add: p h_def)
      moreover have "uint t mod 2 ^ 63 = 0" if "rest = 0"
        using that by (simp add: rest_def p add_nonneg_eq_0_iff)
      then have "t = c" if "rest = 0" using that q parts(7) div_mult_mod_eq [of "uint t" "2 ^ 63"] by (simp add: p word_uint_eq_iff)
      ultimately show False using \<open>\<not> h \<or> _\<close> l by auto
    qed
    then have "m div 64 < bigLength x" "(m + 63) div 64 \<le> bigLength x" using bits_div [of m "bigLength x"] kl N by auto
    then show ?thesis unfolding D_def by (rule truncateToNBits_computes [OF x m])
  qed
  have same: "bval x = - (D mod 2 ^ m)" if "m_sign x" h "rest = 0" "bigLength x = k + 1 \<and> t = c"
  proof -
    have "drop k (m_data x) = [t]" using that(4) kl(1) by (simp add: t_def digitAt_def Cons_nth_drop_Suc [symmetric])
    then have "D = dval (take k (m_data x)) + digitBase ^ k * uint c"
      using dval_take_drop [of "m_data x" k] that(4) by (simp add: D_def)
    also have "dval (take k (m_data x)) = 0" using that(3) by (simp add: rest_def add_nonneg_eq_0_iff)
    finally have "D = 2 ^ (m - 1)" using parts(7) top_split(6) [OF m, folded k_def] by simp
    then show ?thesis using that parts(1) bx by simp
  qed
  consider "\<not> h" | "h" "\<not> m_sign x" | "h" "m_sign x" "rest \<noteq> 0" | "h" "m_sign x" "rest = 0" by blast
  then show ?thesis
  proof cases
    case 1
    then have "asSigned m (bval x) = (if m_sign x then - (D mod 2 ^ m) else D mod 2 ^ m)" using signed by (simp add: bx)
    then show ?thesis using 1 trunc by (simp add: asIntNTruncate_def h_def)
  next
    case 2
    then show ?thesis using sub [of True] signed by (simp add: bx asIntNTruncate_def h_def)
  next
    case 3
    then have "asIntNTruncate env m x (k + 1) t c = truncateAndSubFromPowerOfTwo env m x False"
      using parts(4) by (auto simp: asIntNTruncate_def h_def)
    then show ?thesis using 3 sub [of False] signed by (simp add: bx)
  next
    case 4
    then have "asIntNTruncate env m x (k + 1) t c = (if bigLength x = k + 1 \<and> t = c then Inr x else truncateToNBits env m x)"
      using parts(4) by (simp add: asIntNTruncate_def h_def)
    moreover have "asSigned m (bval x) = - (D mod 2 ^ m)" using 4 signed by (simp add: bx)
    ultimately show ?thesis
      using 4 trunc same x by (cases "bigLength x = k + 1 \<and> t = c") (simp_all add: computes_def represents_def)
  qed
qed

lemma asIntNImpl_computes:
  assumes x: "canonical x" and n53: "unat n < 2 ^ 53"
  shows "computes env ((unat n + 63) div 64) (asIntNImpl env n x) (asSigned (unat n) (bval x))"
proof (cases "isZero x \<or> n = 0")
  case True
  then consider "isZero x" | "\<not> isZero x" "n = 0" by blast
  then show ?thesis
  proof cases
    case 1
    then have "bval x = 0" by (simp add: bval_def isZero_def)
    then show ?thesis using 1 x by (simp add: asIntNImpl_def asSigned_def computes_def represents_def)
  next
    case 2
    then show ?thesis by (simp add: asIntNImpl_def zeroImpl_computes asSigned_def)
  qed
next
  case False
  define m where "m = unat n"
  define k where "k = topIndex m"
  define D where "D = dval (m_data x)"
  have nz: "\<not> isZero x" "m \<noteq> 0" "n \<noteq> 0" using False by (auto simp: m_def unat_eq_zero)
  let ?N = "(m + 63) div 64"
  note N = top_split(5) [OF nz(2), folded k_def]
  have n1: "unat (n - 1) = m - 1" using nz(3) by (simp add: m_def unat_minus_one)
  define c :: digit where "c = push_bit ((m - 1) mod 64) 1"
  define t where "t = digitAt x k"
  let ?len = "bigLength x"
  have eq: "asIntNImpl env n x = (if ?len < k + 1 then Inr x else andThen (assertThat (k + 1 \<le> maxInt)) (\<lambda>_.
      if ?len = k + 1 \<and> t < c then Inr x else andThen (assertThat (m \<le> maxInt)) (\<lambda>_. asIntNTruncate env m x (k + 1) t c)))"
    using False neededLength_eq [OF n53] n1 unfolding asIntNImpl_def m_def [symmetric] Let_def digitBits_def c_def t_def
    by (simp add: N)
  have max: "k + 1 \<le> maxInt" "m \<le> maxInt" if "\<not> ?len < k + 1"
  proof -
    have "k < maxLength" using that x by (auto simp: canonical_def)
    then show "k + 1 \<le> maxInt" "m \<le> maxInt" using N by (simp_all add: maxLength_eq maxInt_def)
  qed
  show ?thesis
    unfolding m_def [symmetric]
  proof (cases "?len < k + 1 \<or> ?len = k + 1 \<and> t < c")
    case True
    have "m = k * 64 + ((m - 1) mod 64 + 1)" using topIndex_eq [OF nz(2)] by (simp add: k_def)
    then have m1: "k * 64 + (m - 1) mod 64 = m - 1" "k * 64 + (m - 1) mod 64 \<le> m" by linarith+
    have "?len = k + 1 \<Longrightarrow> uint t < 2 ^ ((m - 1) mod 64)"
      using True top_bit_tests(5) [OF nz(2), of x, folded k_def, folded c_def t_def] by simp
    then have "dval (m_data x) < 2 ^ (k * 64 + (m - 1) mod 64)"
      unfolding k_def using True m1 by (intro small_magnitude [OF nz(2)]) (auto simp: k_def t_def digitAt_def)
    then have "\<bar>bval x\<bar> < 2 ^ (m - 1)" unfolding abs_bval m1(1) .
    then have "asSigned m (bval x) = bval x" by (intro asSigned_small [OF nz(2)]) linarith+
    moreover have "asIntNImpl env n x = Inr x" using True max unfolding eq by auto
    ultimately show "computes env ?N (asIntNImpl env n x) (asSigned m (bval x))"
      using x by (simp add: computes_def represents_def)
  next
    case trunc: False
    then have "asIntNImpl env n x = asIntNTruncate env m x (k + 1) t c" using max unfolding eq by auto
    then show "computes env ?N (asIntNImpl env n x) (asSigned m (bval x))"
      using trunc asIntNTruncate_computes [OF x nz(2), folded k_def, folded c_def t_def, of env] by simp
  qed
qed


section \<open>Conversion to 64-bit machine integers\<close>

lemma toBigUInt64_value: "uint (toBigUInt64Heap x) = bval x mod 2 ^ 64"
proof (cases "m_data x")
  case Nil
  then show ?thesis by (simp add: toBigUInt64Heap_def)
next
  case (Cons d ds)
  have v: "dval (m_data x) mod 2 ^ 64 = uint d" using uint_less_digitBase [of d] by (simp add: Cons digitBase_num)
  show ?thesis
  proof (cases "m_sign x")
    case False
    then show ?thesis using v by (simp add: toBigUInt64Heap_def Cons digitAt_def bval_def)
  next
    case True
    have "NOT (d - 1) = - d" by (simp add: not_eq_complement)
    then have "uint (toBigUInt64Heap x) = - uint d mod 2 ^ 64"
      using True by (simp add: toBigUInt64Heap_def Cons digitAt_def uint_word_ariths)
    also have "\<dots> = - dval (m_data x) mod 2 ^ 64" using v by (metis mod_minus_eq)
    finally show ?thesis using True by (simp add: bval_def)
  qed
qed

lemma sint_asSigned: "sint w = asSigned 64 (uint w)" for w :: "64 word"
proof -
  have w: "0 \<le> uint w" "uint w < 2 ^ 64" using uint_lt2p [of w] by simp_all
  have "sint w = (uint w + 2 ^ 63) mod 2 ^ 64 - 2 ^ 63"
    by (simp add: sint_uint signed_take_bit_eq_take_bit_shift take_bit_eq_mod)
  also have "(uint w + 2 ^ 63) mod 2 ^ 64 = (if uint w < 2 ^ 63 then uint w + 2 ^ 63 else uint w - 2 ^ 63)"
  proof (cases "uint w < 2 ^ 63")
    case True
    then show ?thesis using w by simp
  next
    case False
    have "uint w + 2 ^ 63 = uint w - 2 ^ 63 + 2 ^ 64" by simp
    then have "(uint w + 2 ^ 63) mod 2 ^ 64 = (uint w - 2 ^ 63 + 2 ^ 64) mod 2 ^ 64" by (rule arg_cong)
    also have "\<dots> = (uint w - 2 ^ 63) mod 2 ^ 64" by (rule mod_add_self2)
    also have "\<dots> = uint w - 2 ^ 63" using False w by (intro mod_pos_pos_trivial) simp_all
    finally show ?thesis using False by simp
  qed
  finally show ?thesis using w by (simp add: asSigned_def)
qed

lemma toBigInt64_value: "sint (toBigInt64 x) = asSigned 64 (bval x)"
  by (simp add: toBigInt64_def sint_asSigned toBigUInt64_value asSigned_def)

lemma asSigned_mod: "asSigned n (v mod 2 ^ n) = asSigned n v"
  by (simp add: asSigned_def)


section \<open>Properties\<close>

text \<open>
  C14. \<^verbatim>\<open>BigInt.asUintN\<close> and \<^verbatim>\<open>BigInt.asIntN\<close> keep the low \<open>n\<close> bits of the two's complement reading, as an
  unsigned and as a signed number: for every number of bits below \<open>2 ^ 53\<close>, the largest index the
  callers pass, they return the canonical BigInt of the value modulo \<open>2 ^ n\<close>, brought into
  the signed range in the second case, or an out-of-memory error because \<open>n\<close> bits cannot be had. The
  \<^verbatim>\<open>ASSERT\<close>s of both and of their helpers hold.
\<close>

theorem asN_correct:
  assumes "canonical x" and "unat n < 2 ^ 53"
  shows "computes env ((unat n + 63) div 64) (asUintN env n x) (bval x mod 2 ^ unat n)
     \<and> computes env ((unat n + 63) div 64) (asIntN env n x) (asSigned (unat n) (bval x))"
  using asUintNImpl_computes [OF assms] asIntNImpl_computes [OF assms] by (simp add: asUintN_def asIntN_def)

theorem asN_correct_witness:
  "asIntN roomyHeap 3 (negBig [12]) = Inr (negBig [4]) \<and> asIntN roomyHeap 64 (posBig [0, 1]) = Inr (posBig [])
   \<and> asUintN roomyHeap 65 (negBig [1]) = Inr (posBig [0xFFFFFFFFFFFFFFFF, 1])"
proof -
  have c: "canonical (negBig [12])" "canonical (posBig [0, 1])" "canonical (negBig [1])" by (simp_all add: canonical_def maxLength_eq)
  have r: "represents (negBig [4]) (- 4)" "represents (posBig []) 0"
    "represents (posBig [0xFFFFFFFFFFFFFFFF, 1]) 0x1FFFFFFFFFFFFFFFF" by (simp_all add: example_simps)
  have a: "asSigned 3 (- 12) = - 4" "asSigned 64 0x10000000000000000 = 0" by (simp_all add: asSigned_def)
  show ?thesis
    using asN_correct [OF c(1), of 3 roomyHeap] asN_correct [OF c(2), of 64 roomyHeap] asN_correct [OF c(3), of 65 roomyHeap]
      roomyHeap_result [OF _ _ r(1), of 1 "asIntN roomyHeap 3 (negBig [12])"]
      roomyHeap_result [OF _ _ r(2), of 1 "asIntN roomyHeap 64 (posBig [0, 1])"]
      roomyHeap_result [OF _ _ r(3), of 2 "asUintN roomyHeap 65 (negBig [1])"]
    by (simp add: maxLength_eq bval_def digitBase_num a)
qed

text \<open>
  C15. Conversions to and from 64-bit machine integers wrap around and invert each other: \<^verbatim>\<open>toBigUInt64\<close> is the value modulo
  \<open>2 ^ 64\<close>, \<^verbatim>\<open>toBigInt64\<close> the same word read as a signed number, and a BigInt made from a \<^verbatim>\<open>uint64_t\<close> or an
  \<^verbatim>\<open>int64_t\<close> converts back to it. \<^verbatim>\<open>BigInt.asIntN(64, x)\<close> and \<^verbatim>\<open>toBigInt64\<close> agree.
\<close>

theorem machine_integer_conversions:
  "uint (toBigUInt64 x) = bval x mod 2 ^ 64
   \<and> sint (toBigInt64 x) = asSigned 64 (bval x)
   \<and> (createFromUint64 env w = Inr y \<longrightarrow> toBigUInt64 y = w)
   \<and> (createFromInt64 env w = Inr y \<longrightarrow> toBigInt64 y = w)
   \<and> (canonical x \<and> asIntN env 64 x = Inr z \<longrightarrow> bval z = sint (toBigInt64 x))"
proof (intro conjI impI)
  show "uint (toBigUInt64 x) = bval x mod 2 ^ 64" by (simp add: toBigUInt64_def toBigUInt64_value)
  show s: "sint (toBigInt64 x) = asSigned 64 (bval x)" by (rule toBigInt64_value)
  assume "createFromUint64 env w = Inr y"
  then have "bval y = uint w" using createFromUint64_computes [of env w] by (simp add: represents_def)
  then have "uint (toBigUInt64 y) = uint w" using uint_lt2p [of w] by (simp add: toBigUInt64_def toBigUInt64_value)
  then show "toBigUInt64 y = w" by (simp only: word_uint_eq_iff)
next
  assume "createFromInt64 env w = Inr y"
  then have "bval y = sint w" using createFromInt64_computes [of env w] by (simp add: represents_def)
  then have "sint (toBigInt64 y) = sint w"
    using asSigned_small [of 64 "sint w"] sint_lt [of w] sint_ge [of w] by (simp add: toBigInt64_value)
  then show "toBigInt64 y = w" by (rule signed_word_eqI)
next
  assume "canonical x \<and> asIntN env 64 x = Inr z"
  then show "bval z = sint (toBigInt64 x)"
    using asIntNImpl_computes [of x 64 env] by (simp add: asIntN_def toBigInt64_value represents_def)
qed

theorem machine_integer_conversions_witness:
  "sint (toBigInt64 (posBig [0x8000000000000000, 5])) = - 0x8000000000000000
   \<and> (\<exists>y. createFromInt64 roomyHeap (- 2) = Inr y \<and> toBigInt64 y = - 2)"
proof -
  have "asSigned 64 (bval (posBig [0x8000000000000000, 5])) = - 0x8000000000000000"
    by (simp add: asSigned_def bval_def digitBase_num)
  moreover have "createFromInt64 roomyHeap (- 2) = Inr (negBig [2])"
    by (rule roomyHeap_result [OF createFromInt64_computes]) (simp_all add: example_simps)
  ultimately show ?thesis
    using machine_integer_conversions [of "posBig [0x8000000000000000, 5]" roomyHeap "- 2" "negBig [2]"] by simp
qed

end
