(* ===== verification/Checked_Arithmetic.thy ===== *)
theory Checked_Arithmetic
  imports Prelude "HOL-Library.Signed_Division" "HOL-Library.Sublist"
begin

text \<open>
  \<^verbatim>\<open>WTF/wtf/CheckedArithmetic.h\<close>: the bounds checks between integer types (\<^verbatim>\<open>BoundsChecker\<close>, \<^verbatim>\<open>convertSafely\<close>), the
  operations that detect overflow (\<^verbatim>\<open>ArithmeticOperations\<close>), the overflow handlers, and the class
  \<^verbatim>\<open>Checked<T, OverflowHandler>\<close> with the helpers \<^verbatim>\<open>checkedSum\<close>, \<^verbatim>\<open>checkedProduct\<close>, \<^verbatim>\<open>checkedDifference\<close>.

  An integer type is its signedness and its width, and a value of it an integer in its range. Operands narrower than \<^verbatim>\<open>int\<close>
  are promoted; signed overflow is undefined behaviour in C++ and an error of the model; unsigned arithmetic wraps around. The flag
  \<open>builtin\<close> selects the overflow intrinsics of GCC and Clang (\<^verbatim>\<open>COMPILER(GCC_COMPATIBLE)\<close>, \<^verbatim>\<open>USE(MUL_OVERFLOW)\<close>) or the
  portable code, which is modelled for operands of the type of the result.
\<close>


section \<open>Integer types\<close>

record int_type =
  tsigned :: bool
  tbits :: nat

definition tmin :: "int_type \<Rightarrow> int" where
  "tmin T = (if tsigned T then - (2 ^ (tbits T - 1)) else 0)"

definition tmax :: "int_type \<Rightarrow> int" where
  "tmax T = (if tsigned T then 2 ^ (tbits T - 1) - 1 else 2 ^ tbits T - 1)"

definition inRange :: "int_type \<Rightarrow> int \<Rightarrow> bool" where
  "inRange T v \<longleftrightarrow> tmin T \<le> v \<and> v \<le> tmax T"

text \<open>\<^verbatim>\<open>static_cast<T>\<close>: two's complement.\<close>

definition convert :: "int_type \<Rightarrow> int \<Rightarrow> int" where
  "convert T v = (if tsigned T then (v + 2 ^ (tbits T - 1)) mod 2 ^ tbits T - 2 ^ (tbits T - 1) else v mod 2 ^ tbits T)"

abbreviation int8 :: int_type where "int8 \<equiv> \<lparr>tsigned = True, tbits = 8\<rparr>"
abbreviation int32 :: int_type where "int32 \<equiv> \<lparr>tsigned = True, tbits = 32\<rparr>"
abbreviation uint32 :: int_type where "uint32 \<equiv> \<lparr>tsigned = False, tbits = 32\<rparr>"
abbreviation int64 :: int_type where "int64 \<equiv> \<lparr>tsigned = True, tbits = 64\<rparr>"
abbreviation uint64 :: int_type where "uint64 \<equiv> \<lparr>tsigned = False, tbits = 64\<rparr>"

datatype arith_error = UndefinedBehaviour | Crash

text \<open>
  The value of an arithmetic expression on operands of type \<open>T\<close>. The types of 8 and 16 bits are promoted to \<^verbatim>\<open>int\<close>. Signed
  overflow is undefined behaviour, and unsigned arithmetic wraps around. Storing the value in a variable converts it again.
\<close>

definition promoted :: "int_type \<Rightarrow> int_type" where
  "promoted T = (if tbits T \<le> 16 then int32 else T)"

definition cArith :: "int_type \<Rightarrow> int \<Rightarrow> (arith_error, int) result" where
  "cArith T v =
     (if \<not> tsigned (promoted T) then Inr (convert (promoted T) v)
      else if inRange (promoted T) v then Inr v else Inl UndefinedBehaviour)"


section \<open>Bounds checks\<close>

definition inBounds :: "int_type \<Rightarrow> int_type \<Rightarrow> int \<Rightarrow> bool" where
  "inBounds Target Source v =
     (case (tbits Target \<ge> tbits Source, tsigned Target, tsigned Source) of
        (False, False, False) \<Rightarrow> v \<le> tmax Target
      | (False, True, True) \<Rightarrow> tmin Target \<le> v \<and> v \<le> tmax Target
      | (False, False, True) \<Rightarrow> convert (Source\<lparr>tsigned := False\<rparr>) v \<le> tmax Target
      | (False, True, False) \<Rightarrow> v \<le> convert Source (tmax Target)
      | (True, False, False) \<Rightarrow> True
      | (True, True, True) \<Rightarrow> True
      | (True, True, False) \<Rightarrow>
          (if tbits Target > tbits Source then True else v \<le> convert Source (tmax Target))
      | (True, False, True) \<Rightarrow> v \<ge> 0)"

definition convertSafely :: "int_type \<Rightarrow> int_type \<Rightarrow> int \<Rightarrow> int option" where
  "convertSafely Target Source input = (if \<not> inBounds Target Source input then None else Some (convert Target input))"


section \<open>Operations that detect overflow\<close>

text \<open>The result type of an operator is the wider one, and the unsigned one for equal widths.\<close>

definition resultType :: "int_type \<Rightarrow> int_type \<Rightarrow> int_type" where
  "resultType U V =
     (if tbits U > tbits V then U
      else if tbits U < tbits V then V
      else if tsigned U \<and> \<not> tsigned V then V else U)"

text \<open>
  An operation returns false (\<open>None\<close>), or true with the result stored. \<^verbatim>\<open>__builtin_add_overflow\<close> and its kin compute
  with unbounded precision and report whether the result type holds the value.
\<close>

definition builtinOverflow :: "int_type \<Rightarrow> int \<Rightarrow> (arith_error, int option) result" where
  "builtinOverflow T v = Inr (if inRange T v then Some v else None)"

definition signsMatch :: "int \<Rightarrow> int \<Rightarrow> bool" where
  "signsMatch lhs rhs \<longleftrightarrow> lhs XOR rhs \<ge> 0"

text \<open>\<^verbatim>\<open>result = ...; return true;\<close>, or \<^verbatim>\<open>return false;\<close>.\<close>

definition stored :: "bool \<Rightarrow> int_type \<Rightarrow> (arith_error, int) result \<Rightarrow> (arith_error, int option) result" where
  "stored ok T r = (if ok then andThen r (\<lambda>v. Inr (Some (convert T v))) else Inr None)"

definition signedAdd :: "bool \<Rightarrow> int_type \<Rightarrow> int \<Rightarrow> int \<Rightarrow> (arith_error, int option) result" where
  "signedAdd builtin T lhs rhs =
     (if builtin then builtinOverflow T (lhs + rhs)
      else andThen
        (if signsMatch lhs rhs
         then if lhs \<ge> 0
           then andThen (cArith T (tmax T - rhs)) (\<lambda>d. Inr (\<not> d < lhs))
           else andThen (cArith T (lhs - tmin T)) (\<lambda>temp.
                andThen (cArith T (- convert T temp)) (\<lambda>n. Inr (\<not> rhs < n)))
         else Inr True)
        (\<lambda>ok. stored ok T (cArith T (lhs + rhs))))"

definition signedSub :: "bool \<Rightarrow> int_type \<Rightarrow> int \<Rightarrow> int \<Rightarrow> (arith_error, int option) result" where
  "signedSub builtin T lhs rhs =
     (if builtin then builtinOverflow T (lhs - rhs)
      else andThen
        (if \<not> signsMatch lhs rhs
         then if lhs \<ge> 0
           then andThen (cArith T (tmax T + rhs)) (\<lambda>d. Inr (\<not> lhs > d))
           else andThen (cArith T (tmin T + rhs)) (\<lambda>d. Inr (\<not> lhs < d))
         else Inr True)
        (\<lambda>ok. stored ok T (cArith T (lhs - rhs))))"

definition signedMultiply :: "bool \<Rightarrow> int_type \<Rightarrow> int \<Rightarrow> int \<Rightarrow> (arith_error, int option) result" where
  "signedMultiply builtin T lhs rhs =
     (if builtin then builtinOverflow T (lhs * rhs)
      else andThen
        (if signsMatch lhs rhs
         then if lhs \<ge> 0
           then if lhs \<noteq> 0 then andThen (cArith T (tmax T sdiv lhs)) (\<lambda>q. Inr (\<not> q < rhs)) else Inr True
           else if lhs = tmin T \<or> rhs = tmin T then Inr False
           else andThen (cArith T (- lhs)) (\<lambda>nl.
                andThen (cArith T (tmax T sdiv nl)) (\<lambda>q.
                andThen (cArith T (- rhs)) (\<lambda>nr. Inr (\<not> q < nr))))
         else if lhs < 0
           then if rhs \<noteq> 0 then andThen (cArith T (tmin T sdiv rhs)) (\<lambda>q. Inr (\<not> lhs < q)) else Inr True
           else if lhs \<noteq> 0 then andThen (cArith T (tmin T sdiv lhs)) (\<lambda>q. Inr (\<not> rhs < q)) else Inr True)
        (\<lambda>ok. stored ok T (cArith T (lhs * rhs))))"

definition signedDivide :: "int_type \<Rightarrow> int \<Rightarrow> int \<Rightarrow> (arith_error, int option) result" where
  "signedDivide T lhs rhs = (if rhs = 0 then Inr None else stored True T (cArith T (lhs sdiv rhs)))"

definition unsignedAdd :: "bool \<Rightarrow> int_type \<Rightarrow> int \<Rightarrow> int \<Rightarrow> (arith_error, int option) result" where
  "unsignedAdd builtin T lhs rhs =
     (if builtin then builtinOverflow T (lhs + rhs)
      else andThen (cArith T (lhs + rhs)) (\<lambda>v.
           let temp = convert T v in if temp < lhs then Inr None else Inr (Some temp)))"

definition unsignedSub :: "bool \<Rightarrow> int_type \<Rightarrow> int \<Rightarrow> int \<Rightarrow> (arith_error, int option) result" where
  "unsignedSub builtin T lhs rhs =
     (if builtin then builtinOverflow T (lhs - rhs)
      else andThen (cArith T (lhs - rhs)) (\<lambda>v.
           let temp = convert T v in if temp > lhs then Inr None else Inr (Some temp)))"

definition unsignedMultiply :: "bool \<Rightarrow> int_type \<Rightarrow> int \<Rightarrow> int \<Rightarrow> (arith_error, int option) result" where
  "unsignedMultiply builtin T lhs rhs =
     (if builtin then builtinOverflow T (lhs * rhs)
      else if lhs = 0 \<or> rhs = 0 then Inr (Some 0)
      else if tmax T div lhs < rhs then Inr None
      else stored True T (cArith T (lhs * rhs)))"

definition unsignedDivide :: "int_type \<Rightarrow> int \<Rightarrow> int \<Rightarrow> (arith_error, int option) result" where
  "unsignedDivide T lhs rhs = (if rhs = 0 then Inr None else stored True T (cArith T (lhs div rhs)))"

text \<open>
  \<^verbatim>\<open>ArithmeticOperations<int, unsigned, ResultType>\<close>: the operands arrive as
  \<^verbatim>\<open>int64_t\<close>.
\<close>

definition mixedResult :: "int_type \<Rightarrow> int \<Rightarrow> (arith_error, int option) result" where
  "mixedResult T v =
     andThen (cArith int64 v) (\<lambda>temp.
       if temp < tmin T then Inr None
       else if temp > tmax T then Inr None
       else Inr (Some (convert T temp)))"

definition mixedAdd :: "bool \<Rightarrow> int_type \<Rightarrow> int \<Rightarrow> int \<Rightarrow> (arith_error, int option) result" where
  "mixedAdd builtin T lhs rhs = (if builtin then builtinOverflow T (lhs + rhs) else mixedResult T (lhs + rhs))"

definition mixedSub :: "bool \<Rightarrow> int_type \<Rightarrow> int \<Rightarrow> int \<Rightarrow> (arith_error, int option) result" where
  "mixedSub builtin T lhs rhs = (if builtin then builtinOverflow T (lhs - rhs) else mixedResult T (lhs - rhs))"

definition mixedMultiply :: "bool \<Rightarrow> int_type \<Rightarrow> int \<Rightarrow> int \<Rightarrow> (arith_error, int option) result" where
  "mixedMultiply builtin T lhs rhs = (if builtin then builtinOverflow T (lhs * rhs) else mixedResult T (lhs * rhs))"

definition mixedDivide :: "int_type \<Rightarrow> int \<Rightarrow> int \<Rightarrow> (arith_error, int option) result" where
  "mixedDivide T lhs rhs =
     (if rhs = 0 then Inr None
      else andThen (cArith int64 (lhs sdiv rhs)) (\<lambda>temp. Inr (Some (convert T temp))))"

datatype arith_op = Add | Sub | Multiply | Divide

text \<open>\<^verbatim>\<open>ArithmeticOperations<unsigned, int, ResultType>\<close> calls the one above, and swaps the summands.\<close>

definition unsignedIntOperation :: "bool \<Rightarrow> arith_op \<Rightarrow> int_type \<Rightarrow> int \<Rightarrow> int \<Rightarrow> (arith_error, int option) result" where
  "unsignedIntOperation builtin f T lhs rhs =
     (case f of Add \<Rightarrow> mixedAdd builtin T rhs lhs | Sub \<Rightarrow> mixedSub builtin T lhs rhs
      | Multiply \<Rightarrow> mixedMultiply builtin T lhs rhs | Divide \<Rightarrow> mixedDivide T lhs rhs)"

text \<open>
  The specialisation chosen by the signedness of the operand types \<open>U\<close> and \<open>V\<close>. The source has the mixed ones for \<^verbatim>\<open>int\<close> and
  \<^verbatim>\<open>unsigned\<close> only: other pairs do not compile.
\<close>

definition arithmeticOperation ::
  "bool \<Rightarrow> arith_op \<Rightarrow> int_type \<Rightarrow> int_type \<Rightarrow> int_type \<Rightarrow> int \<Rightarrow> int \<Rightarrow> (arith_error, int option) result" where
  "arithmeticOperation builtin f U V T lhs rhs =
     (if tsigned U \<and> tsigned V then
        (case f of Add \<Rightarrow> signedAdd builtin T lhs rhs | Sub \<Rightarrow> signedSub builtin T lhs rhs
         | Multiply \<Rightarrow> signedMultiply builtin T lhs rhs | Divide \<Rightarrow> signedDivide T lhs rhs)
      else if \<not> tsigned U \<and> \<not> tsigned V then
        (case f of Add \<Rightarrow> unsignedAdd builtin T lhs rhs | Sub \<Rightarrow> unsignedSub builtin T lhs rhs
         | Multiply \<Rightarrow> unsignedMultiply builtin T lhs rhs | Divide \<Rightarrow> unsignedDivide T lhs rhs)
      else if tsigned U then
        (case f of Add \<Rightarrow> mixedAdd builtin T lhs rhs | Sub \<Rightarrow> mixedSub builtin T lhs rhs
         | Multiply \<Rightarrow> mixedMultiply builtin T lhs rhs | Divide \<Rightarrow> mixedDivide T lhs rhs)
      else unsignedIntOperation builtin f T lhs rhs)"


section \<open>Overflow handlers and checked values\<close>

text \<open>\<open>AssertNoOverflow\<close> carries \<^verbatim>\<open>ASSERT_ENABLED\<close>: in a release build it neither observes nor reports overflow.\<close>

datatype overflow_handler = AssertNoOverflow bool | CrashOnOverflow | RecordOverflow

fun observesOverflow :: "overflow_handler \<Rightarrow> bool" where
  "observesOverflow (AssertNoOverflow assertEnabled) = assertEnabled"
| "observesOverflow _ = True"

fun exact :: "arith_op \<Rightarrow> int \<Rightarrow> int \<Rightarrow> int" where
  "exact Add a b = a + b"
| "exact Sub a b = a - b"
| "exact Multiply a b = a * b"
| "exact Divide a b = a sdiv b"

text \<open>
  The operator itself. The operands are converted to a common type first: each is promoted, and then the wider type is taken,
  or the unsigned one for equal widths.
\<close>

definition uncheckedOperation :: "arith_op \<Rightarrow> int_type \<Rightarrow> int_type \<Rightarrow> int_type \<Rightarrow> int \<Rightarrow> int \<Rightarrow> (arith_error, int option) result" where
  "uncheckedOperation f U V T lhs rhs =
     (let C = resultType (promoted U) (promoted V); lhs = convert C lhs; rhs = convert C rhs
      in if f = Divide \<and> rhs = 0 then Inl UndefinedBehaviour
         else stored True T (cArith C (exact f lhs rhs)))"

definition safeOperation ::
  "bool \<Rightarrow> overflow_handler \<Rightarrow> arith_op \<Rightarrow> int_type \<Rightarrow> int_type \<Rightarrow> int_type \<Rightarrow> int \<Rightarrow> int \<Rightarrow> (arith_error, int option) result" where
  "safeOperation builtin h f U V T lhs rhs =
     (if observesOverflow h then arithmeticOperation builtin f U V T lhs rhs else uncheckedOperation f U V T lhs rhs)"

record checked =
  m_value :: int
  m_overflowed :: bool

fun hasOverflowed :: "overflow_handler \<Rightarrow> checked \<Rightarrow> bool" where
  "hasOverflowed RecordOverflow c = m_overflowed c"
| "hasOverflowed _ c = False"

fun overflowed :: "overflow_handler \<Rightarrow> checked \<Rightarrow> (arith_error, checked) result" where
  "overflowed (AssertNoOverflow assertEnabled) c = (if assertEnabled then Inl Crash else Inr c)"
| "overflowed CrashOnOverflow c = Inl Crash"
| "overflowed RecordOverflow c = Inr (c\<lparr>m_overflowed := True\<rparr>)"

fun clearOverflow :: "overflow_handler \<Rightarrow> checked \<Rightarrow> checked" where
  "clearOverflow RecordOverflow c = c\<lparr>m_overflowed := False\<rparr>"
| "clearOverflow _ c = c"

abbreviation checked0 :: checked where "checked0 \<equiv> \<lparr>m_value = 0, m_overflowed = False\<rparr>"

text \<open>The constructors, from a value of type \<open>U\<close> and from a checked value with its own handler.\<close>

definition overflowIf :: "bool \<Rightarrow> overflow_handler \<Rightarrow> checked \<Rightarrow> (arith_error, checked) result" where
  "overflowIf b h c = (if b then overflowed h c else Inr c)"

definition resultOverflowed :: "overflow_handler \<Rightarrow> (arith_error, checked) result" where
  "resultOverflowed h = overflowed h checked0"

definition fromValue :: "overflow_handler \<Rightarrow> int_type \<Rightarrow> int_type \<Rightarrow> int \<Rightarrow> (arith_error, checked) result" where
  "fromValue h T U v =
     andThen (overflowIf (\<not> inBounds T U v) h checked0) (\<lambda>c. Inr (c\<lparr>m_value := convert T v\<rparr>))"

definition fromChecked ::
  "overflow_handler \<Rightarrow> int_type \<Rightarrow> overflow_handler \<Rightarrow> int_type \<Rightarrow> checked \<Rightarrow> (arith_error, checked) result" where
  "fromChecked h T k U rhs =
     andThen (overflowIf (hasOverflowed k rhs) h checked0) (\<lambda>c.
     andThen (overflowIf (\<not> inBounds T U (m_value rhs)) h c) (\<lambda>c.
       Inr (c\<lparr>m_value := convert T (m_value rhs)\<rparr>)))"

definition assign :: "overflow_handler \<Rightarrow> checked \<Rightarrow> checked \<Rightarrow> (arith_error, checked) result" where
  "assign h this rhs =
     andThen (overflowIf (hasOverflowed h rhs) h (clearOverflow h this)) (\<lambda>c. Inr (c\<lparr>m_value := m_value rhs\<rparr>))"

text \<open>\<^verbatim>\<open>operator++\<close> and \<^verbatim>\<open>operator--\<close>: the value changes even when the overflow was recorded.\<close>

definition wrapped :: "int_type \<Rightarrow> int \<Rightarrow> (arith_error, int) result" where
  "wrapped T v = andThen (cArith T v) (\<lambda>w. Inr (convert T w))"

definition increment :: "overflow_handler \<Rightarrow> int_type \<Rightarrow> checked \<Rightarrow> (arith_error, checked) result" where
  "increment h T this =
     andThen (overflowIf (m_value this = tmax T) h this) (\<lambda>c.
     andThen (wrapped T (m_value c + 1)) (\<lambda>v. Inr (c\<lparr>m_value := v\<rparr>)))"

definition decrement :: "overflow_handler \<Rightarrow> int_type \<Rightarrow> checked \<Rightarrow> (arith_error, checked) result" where
  "decrement h T this =
     andThen (overflowIf (m_value this = tmin T) h this) (\<lambda>c.
     andThen (wrapped T (m_value c - 1)) (\<lambda>v. Inr (c\<lparr>m_value := v\<rparr>)))"

definition valueOf :: "overflow_handler \<Rightarrow> checked \<Rightarrow> (arith_error, int) result" where
  "valueOf h this = (if hasOverflowed h this then Inl Crash else Inr (m_value this))"

text \<open>The postfix operators return the old value and leave the changed object behind.\<close>

definition postIncrement :: "overflow_handler \<Rightarrow> int_type \<Rightarrow> checked \<Rightarrow> (arith_error, checked \<times> checked) result" where
  "postIncrement h T this =
     andThen (overflowIf (m_value this = tmax T) h this) (\<lambda>c.
     andThen (wrapped T (m_value c + 1)) (\<lambda>v.
     andThen (fromValue h T T (m_value c)) (\<lambda>old. Inr (old, c\<lparr>m_value := v\<rparr>))))"

definition postDecrement :: "overflow_handler \<Rightarrow> int_type \<Rightarrow> checked \<Rightarrow> (arith_error, checked \<times> checked) result" where
  "postDecrement h T this =
     andThen (overflowIf (m_value this = tmin T) h this) (\<lambda>c.
     andThen (wrapped T (m_value c - 1)) (\<lambda>v.
     andThen (fromValue h T T (m_value c)) (\<lambda>old. Inr (old, c\<lparr>m_value := v\<rparr>))))"

definition isNonZero :: "overflow_handler \<Rightarrow> checked \<Rightarrow> (arith_error, bool) result" where
  "isNonZero h this = (if hasOverflowed h this then Inl Crash else Inr (m_value this \<noteq> 0))"

text \<open>The comparisons \<^verbatim>\<open>==\<close>, \<^verbatim>\<open><\<close>, \<^verbatim>\<open><=\<close>, \<^verbatim>\<open>>\<close>, \<^verbatim>\<open>>=\<close> of two checked values of one type.\<close>

definition compareChecked ::
  "(int \<Rightarrow> int \<Rightarrow> bool) \<Rightarrow> overflow_handler \<Rightarrow> checked \<Rightarrow> overflow_handler \<Rightarrow> checked \<Rightarrow> (arith_error, bool) result" where
  "compareChecked r h this k rhs = andThen (valueOf h this) (\<lambda>a. andThen (valueOf k rhs) (\<lambda>b. Inr (r a b)))"

text \<open>\<^verbatim>\<open>operator+=\<close>, \<^verbatim>\<open>-=\<close>, \<^verbatim>\<open>*=\<close> and \<^verbatim>\<open>/=\<close>, by a value of type \<open>U\<close> and by a checked value.\<close>

definition assignOp ::
  "bool \<Rightarrow> overflow_handler \<Rightarrow> arith_op \<Rightarrow> int_type \<Rightarrow> int_type \<Rightarrow> checked \<Rightarrow> int \<Rightarrow> (arith_error, checked) result" where
  "assignOp builtin h f T U this rhs =
     andThen (safeOperation builtin h f T U T (m_value this) rhs) (\<lambda>r.
       case r of None \<Rightarrow> overflowed h this | Some v \<Rightarrow> Inr (this\<lparr>m_value := v\<rparr>))"

definition assignOpChecked ::
  "bool \<Rightarrow> overflow_handler \<Rightarrow> arith_op \<Rightarrow> int_type \<Rightarrow> int_type \<Rightarrow> checked \<Rightarrow> overflow_handler \<Rightarrow> checked \<Rightarrow> (arith_error, checked) result" where
  "assignOpChecked builtin h f T U this k rhs =
     andThen (overflowIf (hasOverflowed k rhs) h this) (\<lambda>c. assignOp builtin h f T U c (m_value rhs))"

text \<open>The binary operators.\<close>

definition binaryOp ::
  "bool \<Rightarrow> overflow_handler \<Rightarrow> arith_op \<Rightarrow> int_type \<Rightarrow> int_type \<Rightarrow> checked \<Rightarrow> checked \<Rightarrow> (arith_error, checked) result" where
  "binaryOp builtin h f U V lhs rhs =
     (if hasOverflowed h lhs \<or> hasOverflowed h rhs then resultOverflowed h
      else andThen (valueOf h lhs) (\<lambda>a. andThen (valueOf h rhs) (\<lambda>b.
           andThen (safeOperation builtin h f U V (resultType U V) a b) (\<lambda>r.
             case r of None \<Rightarrow> resultOverflowed h
             | Some v \<Rightarrow> fromValue h (resultType U V) (resultType U V) v))))"

definition binaryOpRight ::
  "bool \<Rightarrow> overflow_handler \<Rightarrow> arith_op \<Rightarrow> int_type \<Rightarrow> int_type \<Rightarrow> checked \<Rightarrow> int \<Rightarrow> (arith_error, checked) result" where
  "binaryOpRight builtin h f U V lhs rhs = andThen (fromValue h V V rhs) (\<lambda>r. binaryOp builtin h f U V lhs r)"

definition binaryOpLeft ::
  "bool \<Rightarrow> overflow_handler \<Rightarrow> arith_op \<Rightarrow> int_type \<Rightarrow> int_type \<Rightarrow> int \<Rightarrow> checked \<Rightarrow> (arith_error, checked) result" where
  "binaryOpLeft builtin h f U V lhs rhs = andThen (fromValue h U U lhs) (\<lambda>l. binaryOp builtin h f U V l rhs)"

fun checkedSum :: "bool \<Rightarrow> int_type \<Rightarrow> int_type \<Rightarrow> int \<Rightarrow> int list \<Rightarrow> (arith_error, checked) result" where
  "checkedSum builtin T U v [] = fromValue RecordOverflow T U v"
| "checkedSum builtin T U v (w # args) =
     andThen (fromValue RecordOverflow T U v) (\<lambda>a.
     andThen (checkedSum builtin T U w args) (\<lambda>b. binaryOp builtin RecordOverflow Add T T a b))"

fun checkedProduct :: "bool \<Rightarrow> int_type \<Rightarrow> int_type \<Rightarrow> int \<Rightarrow> int list \<Rightarrow> (arith_error, checked) result" where
  "checkedProduct builtin T U v [] = fromValue RecordOverflow T U v"
| "checkedProduct builtin T U v (w # args) =
     andThen (fromValue RecordOverflow T U v) (\<lambda>a.
     andThen (checkedProduct builtin T U w args) (\<lambda>b. binaryOp builtin RecordOverflow Multiply T T a b))"

definition checkedDifference :: "bool \<Rightarrow> int_type \<Rightarrow> int_type \<Rightarrow> int_type \<Rightarrow> int \<Rightarrow> int \<Rightarrow> (arith_error, checked) result" where
  "checkedDifference builtin T U V left right =
     andThen (fromValue RecordOverflow T U left) (\<lambda>a.
     andThen (fromValue RecordOverflow T V right) (\<lambda>b. binaryOp builtin RecordOverflow Sub T T a b))"

definition sumOverflows :: "bool \<Rightarrow> int_type \<Rightarrow> int_type \<Rightarrow> int \<Rightarrow> int list \<Rightarrow> (arith_error, bool) result" where
  "sumOverflows builtin T U v args = andThen (checkedSum builtin T U v args) (\<lambda>c. Inr (hasOverflowed RecordOverflow c))"

definition productOverflows :: "bool \<Rightarrow> int_type \<Rightarrow> int_type \<Rightarrow> int \<Rightarrow> int list \<Rightarrow> (arith_error, bool) result" where
  "productOverflows builtin T U v args = andThen (checkedProduct builtin T U v args) (\<lambda>c. Inr (hasOverflowed RecordOverflow c))"

definition differenceOverflows :: "bool \<Rightarrow> int_type \<Rightarrow> int_type \<Rightarrow> int \<Rightarrow> int \<Rightarrow> (arith_error, bool) result" where
  "differenceOverflows builtin T U left right =
     andThen (checkedDifference builtin T U U left right) (\<lambda>c. Inr (hasOverflowed RecordOverflow c))"

definition isSumSmallerThanOrEqual :: "bool \<Rightarrow> int_type \<Rightarrow> int \<Rightarrow> int \<Rightarrow> int \<Rightarrow> (arith_error, bool) result" where
  "isSumSmallerThanOrEqual builtin T a b bound =
     andThen (fromValue RecordOverflow T T a) (\<lambda>s.
     andThen (assignOp builtin RecordOverflow Add T T s b) (\<lambda>s.
       if \<not> hasOverflowed RecordOverflow s then andThen (valueOf RecordOverflow s) (\<lambda>v. Inr (v \<le> bound)) else Inr False))"
section \<open>Ranges and conversions\<close>

lemma tmin_tmax: "tsigned T \<Longrightarrow> tmin T = - tmax T - 1" "tmin T \<le> 0" "0 \<le> tmax T" "\<not> tsigned T \<Longrightarrow> tmin T = 0"
  by (auto simp: tmin_def tmax_def)

lemma convert_inRange: "0 < tbits T \<Longrightarrow> inRange T v \<Longrightarrow> convert T v = v"
proof (cases "tsigned T")
  case True
  assume "0 < tbits T" "inRange T v"
  then obtain k where "tbits T = Suc k" "- (2 ^ k) \<le> v" "v < 2 ^ k"
    using True by (cases "tbits T") (auto simp: inRange_def tmin_def tmax_def)
  then show ?thesis using True by (simp add: convert_def)
qed (simp add: inRange_def tmin_def tmax_def convert_def)

lemma convert_range: "0 < tbits T \<Longrightarrow> inRange T (convert T v)"
proof (cases "tsigned T")
  case True
  assume "0 < tbits T"
  then obtain k where "tbits T = Suc k" by (cases "tbits T") auto
  moreover have "(v + 2 ^ k) mod 2 ^ Suc k < 2 ^ Suc k" "0 \<le> (v + 2 ^ k) mod 2 ^ Suc k" by simp_all
  ultimately show ?thesis using True by (simp add: inRange_def tmin_def tmax_def convert_def)
next
  case False
  have "v mod 2 ^ tbits T < 2 ^ tbits T" by simp
  then show ?thesis using False unfolding inRange_def tmin_def tmax_def convert_def by simp
qed

lemma convert_convert [simp]: "0 < tbits T \<Longrightarrow> convert T (convert T v) = convert T v"
  by (simp add: convert_inRange convert_range)

lemma promoted_simps [simp]:
  "16 < tbits T \<Longrightarrow> promoted T = T" "tbits T \<le> 16 \<Longrightarrow> promoted T = int32"
  by (simp_all add: promoted_def)

text \<open>The number of value bits: the width without the sign bit.\<close>

definition vbits :: "int_type \<Rightarrow> nat" where
  "vbits T = (if tsigned T then tbits T - 1 else tbits T)"

lemma tmax_less: "vbits S \<le> n \<Longrightarrow> tmax S < 2 ^ n"
proof -
  assume "vbits S \<le> n"
  then have "(2 :: int) ^ vbits S \<le> 2 ^ n" by (intro power_increasing) auto
  moreover have "tmax S = 2 ^ vbits S - 1" by (simp add: tmax_def vbits_def)
  ultimately show ?thesis by linarith
qed

lemma tmax_mono: "vbits S \<le> vbits T \<Longrightarrow> tmax S \<le> tmax T"
  using tmax_less [of S "vbits T"] by (auto simp: tmax_def vbits_def split: if_splits)

lemma tmin_mono: "tbits S \<le> tbits T \<Longrightarrow> tsigned T \<Longrightarrow> tmin T \<le> tmin S"
  by (auto simp: tmin_def intro!: power_increasing)

text \<open>Arithmetic whose exact result is a value of the type is exact, also after promotion.\<close>

lemma inRange_promoted: "inRange T v \<Longrightarrow> inRange (promoted T) v"
proof (cases "tbits T \<le> 16")
  case True
  assume "inRange T v"
  moreover have "tmax T \<le> tmax int32" using True by (intro tmax_mono) (auto simp: vbits_def)
  moreover have "tmin int32 \<le> tmin T" using True by (intro tmin_mono) simp_all
  ultimately show ?thesis using True by (simp add: inRange_def)
qed simp

lemma cArith_inRange [simp]: "0 < tbits T \<Longrightarrow> inRange T v \<Longrightarrow> cArith T v = Inr v"
  using inRange_promoted [of T v] convert_inRange [of T v] by (cases "tbits T \<le> 16") (simp_all add: cArith_def)

lemma narrow_int32: "tbits T \<le> 16 \<Longrightarrow> \<bar>v\<bar> \<le> 2 * 2 ^ tbits T \<Longrightarrow> inRange int32 v"
proof -
  assume "tbits T \<le> 16" "\<bar>v\<bar> \<le> 2 * 2 ^ tbits T"
  moreover from this have "(2 :: int) ^ tbits T \<le> 2 ^ 16" by (intro power_increasing) simp_all
  ultimately have "\<bar>v\<bar> \<le> 131072" by simp
  then show ?thesis by (auto simp: inRange_def tmin_def tmax_def)
qed

lemma cArith_unsigned:
  assumes "0 < tbits T" and "\<not> tsigned T" and "\<bar>v\<bar> \<le> 2 * 2 ^ tbits T"
  shows "\<exists>w. cArith T v = Inr w \<and> convert T w = convert T v"
  using assms narrow_int32 [of T v] by (cases "tbits T \<le> 16") (simp_all add: cArith_def)

text \<open>Each of the eight cases of \<^verbatim>\<open>BoundsChecker\<close> decides whether the target type holds the value.\<close>

lemma inBounds_iff:
  assumes bits: "0 < tbits T" "0 < tbits S" and v: "inRange S v"
  shows "inBounds T S v \<longleftrightarrow> inRange T v"
proof -
  have r: "tmin S \<le> v" "v \<le> tmax S" using v by (simp_all add: inRange_def)
  note mm = tmin_tmax [of T] tmin_tmax [of S]
  consider (wider) "tbits S \<le> tbits T" | (narrower) "tbits T < tbits S" by linarith
  then show ?thesis
  proof cases
    case wider
    have "convert S (tmax T) = tmax T" if "tbits S = tbits T" "tsigned T" "\<not> tsigned S"
      using that bits tmax_mono [of T S] mm by (intro convert_inRange) (auto simp: inRange_def vbits_def)
    moreover have "tmax S \<le> tmax T" if "\<not> (tsigned T \<and> \<not> tsigned S \<and> tbits S = tbits T)"
      using that wider by (intro tmax_mono) (auto simp: vbits_def)
    ultimately show ?thesis
      using wider r tmin_mono [of S T] mm
      by (cases "tsigned T"; cases "tsigned S") (auto simp: inBounds_def inRange_def)
  next
    case narrower
    have le: "tmax T \<le> tmax S" "tmax T < 2 ^ (tbits S - 1)"
      using narrower by (intro tmax_mono tmax_less; auto simp: vbits_def)+
    have c1: "convert S (tmax T) = tmax T"
      using le(1) mm bits by (intro convert_inRange) (auto simp: inRange_def)
    have c2: "v mod 2 ^ tbits S \<le> tmax T \<longleftrightarrow> 0 \<le> v \<and> v \<le> tmax T" if "tsigned S"
    proof (cases "0 \<le> v")
      case True
      moreover have "tmax S < 2 ^ tbits S" by (rule tmax_less) (simp add: vbits_def)
      ultimately show ?thesis using r by simp
    next
      case False
      obtain k where k: "tbits S = Suc k" using bits by (cases "tbits S") auto
      have lo: "- (2 ^ k) \<le> v" using r(1) that by (simp add: tmin_def k)
      have "v mod 2 ^ tbits S = (v + 2 ^ tbits S) mod 2 ^ tbits S" by simp
      also have "\<dots> = v + 2 ^ tbits S" using False lo by (intro mod_pos_pos_trivial) (auto simp: k)
      finally have "2 ^ k \<le> v mod 2 ^ tbits S" using lo by (simp add: k)
      then show ?thesis using False le(2) unfolding k by simp
    qed
    show ?thesis
      using narrower r c1 c2 mm
      by (cases "tsigned T"; cases "tsigned S") (auto simp: inBounds_def inRange_def convert_def [of "S\<lparr>tsigned := False\<rparr>"])
  qed
qed


section \<open>The operations detect overflow\<close>

lemma sdiv_range:
  assumes "tsigned T" and "inRange T a" and "b \<noteq> 0" and "\<not> (a = tmin T \<and> b = - 1)"
  shows "inRange T (a sdiv b)"
proof -
  have q: "\<bar>a sdiv b\<bar> = \<bar>a\<bar> div \<bar>b\<bar>" using assms(3) by (cases a "0 :: int" rule: linorder_cases) (auto simp: signed_divide_int_def abs_mult sgn_if pos_imp_zdiv_nonneg_iff)
  show ?thesis
  proof (cases "\<bar>b\<bar> = 1")
    case True
    then have "a sdiv b = a \<or> a sdiv b = - a \<and> b = - 1" by (cases a "0 :: int" rule: linorder_cases) (auto simp: signed_divide_int_def sgn_if)
    then show ?thesis using assms tmin_tmax [of T] by (auto simp: inRange_def)
  next
    case False
    then have "2 \<le> \<bar>b\<bar>" using assms(3) by linarith
    then have "\<bar>a\<bar> div \<bar>b\<bar> \<le> \<bar>a\<bar> div 2" by (intro zdiv_mono2) auto
    moreover have "\<bar>a\<bar> \<le> tmax T + 1" using assms(1,2) tmin_tmax [of T] by (auto simp: inRange_def)
    ultimately have "\<bar>a sdiv b\<bar> \<le> tmax T" unfolding q using tmin_tmax(3) [of T] by linarith
    then show ?thesis using tmin_tmax(1) [OF assms(1)] by (auto simp: inRange_def)
  qed
qed

text \<open>What an operation has to do: store the exact result if the type holds it, and return false otherwise.\<close>

definition detects :: "int_type \<Rightarrow> int \<Rightarrow> (arith_error, int option) result \<Rightarrow> bool" where
  "detects T v r \<longleftrightarrow> r = Inr (if inRange T v then Some v else None)"

lemma stored_detects: "0 < tbits T \<Longrightarrow> detects T v (stored (inRange T v) T (cArith T v))"
  by (simp add: detects_def stored_def convert_inRange)

lemma signsMatch_iff: "signsMatch a b \<longleftrightarrow> (0 \<le> a \<longleftrightarrow> 0 \<le> b)"
  by (simp add: signsMatch_def)

lemma signedAdd_detects:
  assumes "0 < tbits T" and "tsigned T" and "inRange T a" and "inRange T b"
  shows "detects T (a + b) (signedAdd builtin T a b)"
proof (cases "builtin \<or> \<not> signsMatch a b")
  case True
  then show ?thesis
    using assms tmin_tmax [of T] stored_detects [OF assms(1), of "a + b"]
    by (auto simp: detects_def signedAdd_def builtinOverflow_def signsMatch_iff inRange_def)
next
  case False
  have "signedAdd builtin T a b = stored (inRange T (a + b)) T (cArith T (a + b))"
  proof (cases "0 \<le> a")
    case True
    then have "cArith T (tmax T - b) = Inr (tmax T - b)" "inRange T (a + b) \<longleftrightarrow> a + b \<le> tmax T"
      using False assms tmin_tmax [of T] by (auto simp: signsMatch_iff inRange_def)
    then show ?thesis using True False by (auto simp: signedAdd_def not_less le_diff_eq)
  next
    case neg: False
    then have "cArith T (a - tmin T) = Inr (a - tmin T)" "convert T (a - tmin T) = a - tmin T"
        "cArith T (- (a - tmin T)) = Inr (- (a - tmin T))" "inRange T (a + b) \<longleftrightarrow> tmin T \<le> a + b"
      using False assms tmin_tmax [of T] by (auto simp: signsMatch_iff inRange_def intro!: convert_inRange cArith_inRange)
    then show ?thesis using neg False by (auto simp: signedAdd_def not_less)
  qed
  then show ?thesis using stored_detects [OF assms(1)] by simp
qed

lemma signedSub_detects:
  assumes "0 < tbits T" and "tsigned T" and "inRange T a" and "inRange T b"
  shows "detects T (a - b) (signedSub builtin T a b)"
proof (cases "builtin \<or> signsMatch a b")
  case True
  then show ?thesis
    using assms tmin_tmax [of T] stored_detects [OF assms(1), of "a - b"]
    by (auto simp: detects_def signedSub_def builtinOverflow_def signsMatch_iff inRange_def)
next
  case False
  have "signedSub builtin T a b = stored (inRange T (a - b)) T (cArith T (a - b))"
  proof (cases "0 \<le> a")
    case True
    then have "cArith T (tmax T + b) = Inr (tmax T + b)" "inRange T (a - b) \<longleftrightarrow> a - b \<le> tmax T"
      using False assms tmin_tmax [of T] by (auto simp: signsMatch_iff inRange_def)
    then show ?thesis using True False by (auto simp: signedSub_def not_less)
  next
    case neg: False
    then have "cArith T (tmin T + b) = Inr (tmin T + b)" "inRange T (a - b) \<longleftrightarrow> tmin T \<le> a - b"
      using False assms tmin_tmax [of T] by (auto simp: signsMatch_iff inRange_def)
    then show ?thesis using neg False by (auto simp: signedSub_def not_less)
  qed
  then show ?thesis using stored_detects [OF assms(1)] by simp
qed

lemma sdiv_signs:
  "0 \<le> m \<Longrightarrow> 0 < n \<Longrightarrow> m sdiv n = m div n"
  "0 < m \<Longrightarrow> 0 < n \<Longrightarrow> (- m) sdiv n = - (m div n)" for m n :: int
  by (auto simp: signed_divide_int_def sgn_if)

lemma signedMultiply_portable:
  assumes bits: "0 < tbits T" and T: "tsigned T" and a: "inRange T a" and b: "inRange T b"
  shows "detects T (a * b) (signedMultiply False T a b)"
proof -
  define M where "M = tmax T"
  have min: "tmin T = - (M + 1)" and M: "0 \<le> M" using tmin_tmax(1) [OF T] tmin_tmax(3) [of T] by (simp_all add: M_def)
  have inR: "inRange T v \<longleftrightarrow> - (M + 1) \<le> v \<and> v \<le> M" for v by (simp add: inRange_def min M_def)
  note rng = a [unfolded inR] b [unfolded inR]
  have arith: "cArith T v = Inr v" if "inRange T v" for v using that bits by simp
  have quot: "m sdiv n = m div n \<and> inRange T (m div n)" if "0 \<le> m" "m \<le> M" "0 < n" for m n
    using that M sdiv_range [OF T, of m n] by (auto simp: sdiv_signs inR)
  have nquot: "(- (M + 1)) sdiv n = - ((M + 1) div n) \<and> inRange T (- ((M + 1) div n))" if "0 < n" for n
    using that M sdiv_range [OF T, of "- (M + 1)" n] sdiv_signs(2) [of "M + 1" n] by (simp add: inR min)
  note mult_simps = signedMultiply_def signsMatch_iff M_def [symmetric] min arith
  have "\<exists>ok. signedMultiply False T a b = stored ok T (cArith T (a * b)) \<and> ok = inRange T (a * b)"
  proof -
    consider (pp) "0 < a" "0 \<le> b" | (nn) "a < 0" "b < 0" | (np) "a < 0" "0 < b" | (pn) "0 < a" "b < 0" | (z) "a = 0 \<or> a < 0 \<and> b = 0" by linarith
    then show ?thesis
    proof cases
      case pp
      then have "signedMultiply False T a b = stored (b \<le> M div a) T (cArith T (a * b))"
        using quot [of M a] M by (simp add: mult_simps not_less)
      moreover have "b \<le> M div a \<longleftrightarrow> inRange T (a * b)"
        using pp M by (auto simp: le_div_iff inR mult.commute intro: order_trans [of _ 0])
      ultimately show ?thesis by blast
    next
      case nn
      show ?thesis
      proof (cases "a = - (M + 1) \<or> b = - (M + 1)")
        case True
        have "(M + 1) * 1 \<le> (M + 1) * - a" "(M + 1) * 1 \<le> (M + 1) * - b" using nn M by (intro mult_left_mono; simp)+
        moreover have "a * b = (M + 1) * - b" if "a = - (M + 1)" unfolding that by (simp only: minus_mult_commute)
        moreover have "a * b = (M + 1) * - a" if "b = - (M + 1)" unfolding that by (simp only: mult.commute minus_mult_commute)
        ultimately have "M + 1 \<le> a * b" using True by auto
        then have "\<not> inRange T (a * b)" by (simp add: inR)
        then show ?thesis using True nn by (intro exI [of _ False]) (auto simp: mult_simps)
      next
        case False
        then have "inRange T (- a)" "inRange T (- b)" using nn rng M by (auto simp: inR)
        then have "signedMultiply False T a b = stored (- b \<le> M div - a) T (cArith T (a * b))"
          using quot [of M "- a"] M nn False by (simp add: mult_simps not_less)
        moreover have "- b \<le> M div - a \<longleftrightarrow> inRange T (a * b)"
          using nn M mult_neg_neg [of a b] by (subst le_div_iff) (auto simp: inR mult.commute)
        ultimately show ?thesis by blast
      qed
    next
      case np
      then have "signedMultiply False T a b = stored (- ((M + 1) div b) \<le> a) T (cArith T (a * b))"
        using nquot [of b] M by (simp add: mult_simps not_less)
      moreover have "- a \<le> (M + 1) div b \<longleftrightarrow> inRange T (a * b)"
        using np M mult_neg_pos [of a b] by (auto simp: le_div_iff inR)
      ultimately show ?thesis by (metis minus_le_iff)
    next
      case pn
      then have "signedMultiply False T a b = stored (- ((M + 1) div a) \<le> b) T (cArith T (a * b))"
        using nquot [of a] M by (simp add: mult_simps not_less)
      moreover have "- b \<le> (M + 1) div a \<longleftrightarrow> inRange T (a * b)"
        using pn M mult_pos_neg [of a b] by (auto simp: le_div_iff inR mult.commute)
      ultimately show ?thesis by (metis minus_le_iff)
    next
      case z
      then show ?thesis using M by (auto simp: mult_simps inR)
    qed
  qed
  then show ?thesis using stored_detects [OF bits] by metis
qed
lemma signedMultiply_detects:
  assumes "0 < tbits T" and "tsigned T" and "inRange T a" and "inRange T b"
  shows "detects T (a * b) (signedMultiply builtin T a b)"
  using signedMultiply_portable [OF assms]
  by (cases builtin) (simp_all add: detects_def builtinOverflow_def signedMultiply_def)

lemma unsigned_range: "\<not> tsigned T \<Longrightarrow> inRange T v \<longleftrightarrow> 0 \<le> v \<and> v < 2 ^ tbits T"
  by (auto simp: inRange_def tmin_def tmax_def)

lemma convert_unsigned: "\<not> tsigned T \<Longrightarrow> convert T v = v mod 2 ^ tbits T"
  by (simp add: convert_def)

lemma unsignedAdd_detects:
  assumes bits: "0 < tbits T" and T: "\<not> tsigned T" and "inRange T a" and "inRange T b"
  shows "detects T (a + b) (unsignedAdd builtin T a b)"
proof -
  have r: "0 \<le> a" "a < 2 ^ tbits T" "0 \<le> b" "b < 2 ^ tbits T" using assms by (simp_all add: unsigned_range)
  have "(a + b) mod 2 ^ tbits T = (if a + b < 2 ^ tbits T then a + b else a + b - 2 ^ tbits T)"
    using r mod_pos_pos_trivial [of "a + b - 2 ^ tbits T" "2 ^ tbits T"] by auto
  moreover obtain w where "cArith T (a + b) = Inr w" "w mod 2 ^ tbits T = (a + b) mod 2 ^ tbits T"
    using cArith_unsigned [OF bits T, of "a + b"] r by (auto simp: convert_unsigned [OF T])
  ultimately show ?thesis using r
    by (auto simp: detects_def unsignedAdd_def builtinOverflow_def unsigned_range [OF T] convert_unsigned [OF T] Let_def)
qed

lemma unsignedSub_detects:
  assumes bits: "0 < tbits T" and T: "\<not> tsigned T" and "inRange T a" and "inRange T b"
  shows "detects T (a - b) (unsignedSub builtin T a b)"
proof -
  have r: "0 \<le> a" "a < 2 ^ tbits T" "0 \<le> b" "b < 2 ^ tbits T" using assms by (simp_all add: unsigned_range)
  have "(a - b) mod 2 ^ tbits T = (if b \<le> a then a - b else a - b + 2 ^ tbits T)"
    using r mod_pos_pos_trivial [of "a - b + 2 ^ tbits T" "2 ^ tbits T"] by auto
  moreover obtain w where "cArith T (a - b) = Inr w" "w mod 2 ^ tbits T = (a - b) mod 2 ^ tbits T"
    using cArith_unsigned [OF bits T, of "a - b"] r by (force simp: convert_unsigned [OF T])
  ultimately show ?thesis using r
    by (auto simp: detects_def unsignedSub_def builtinOverflow_def unsigned_range [OF T] convert_unsigned [OF T] Let_def)
qed

lemma unsignedMultiply_detects:
  assumes bits: "0 < tbits T" and T: "\<not> tsigned T" and "inRange T a" and "inRange T b"
  shows "detects T (a * b) (unsignedMultiply builtin T a b)"
proof -
  have r: "0 \<le> a" "0 \<le> b" using assms by (simp_all add: unsigned_range)
  have "tmax T div a < b \<longleftrightarrow> \<not> a * b < 2 ^ tbits T" if "0 < a"
  proof -
    have "b \<le> tmax T div a \<longleftrightarrow> a * b \<le> tmax T" using that by (simp add: le_div_iff mult.commute)
    then show ?thesis using T by (auto simp: tmax_def)
  qed
  then show ?thesis using r bits
    by (auto simp: detects_def unsignedMultiply_def builtinOverflow_def stored_def unsigned_range [OF T] convert_unsigned [OF T] le_less)
qed

lemma mixed_detects:
  assumes "0 < tbits T" and "inRange int64 v"
  shows "detects T v (mixedResult T v)"
  using assms convert_inRange [of T v] cArith_inRange [of int64 v] by (auto simp: detects_def mixedResult_def inRange_def)

lemma operation_detects:
  assumes "0 < tbits T" and "inRange T a" and "inRange T b" and "f \<noteq> Divide"
  shows "detects T (exact f a b) (arithmeticOperation builtin f T T T a b)"
  using assms signedAdd_detects signedSub_detects signedMultiply_detects unsignedAdd_detects unsignedSub_detects unsignedMultiply_detects
  by (cases f) (simp_all add: arithmeticOperation_def)

text \<open>The least value divided by minus one: the quotient is too large by one, and wraps around when it was computed in \<^verbatim>\<open>int\<close>.\<close>

lemma min_sdiv: "tsigned T \<Longrightarrow> tmin T sdiv - 1 = tmax T + 1"
  using tmin_tmax [of T] by (auto simp: signed_divide_int_def sgn_if abs_if)

lemma convert_max: "0 < tbits T \<Longrightarrow> tsigned T \<Longrightarrow> convert T (tmax T + 1) = tmin T"
  by (cases "tbits T") (simp_all add: convert_def tmax_def tmin_def)

lemma cArith_max:
  assumes "tsigned T"
  shows "cArith T (tmax T + 1) = (if tbits T \<le> 16 then Inr (tmax T + 1) else Inl UndefinedBehaviour)"
proof (cases "tbits T \<le> 16")
  case True
  have "tmax T < 2 ^ tbits T" using assms by (intro tmax_less) (simp add: vbits_def)
  then have "inRange int32 (tmax T + 1)" using True tmin_tmax(3) [of T] by (intro narrow_int32) auto
  then show ?thesis using True by (simp add: cArith_def)
qed (use assms in \<open>simp add: cArith_def inRange_def\<close>)

lemma min_negated:
  assumes "tsigned T" and "0 < tbits T"
  shows "stored True T (cArith T (tmin T sdiv - 1)) = (if tbits T \<le> 16 then Inr (Some (tmin T)) else Inl UndefinedBehaviour)"
  unfolding min_sdiv [OF assms(1)] cArith_max [OF assms(1)] using assms by (simp add: stored_def convert_max)

lemma division_outcome:
  assumes "0 < tbits T" and "inRange T a" and "inRange T b"
  shows "arithmeticOperation builtin Divide T T T a b =
    (if b = 0 then Inr None
     else if tsigned T \<and> a = tmin T \<and> b = - 1 then if tbits T \<le> 16 then Inr (Some (tmin T)) else Inl UndefinedBehaviour
     else Inr (Some (a sdiv b)))"
proof (cases "tsigned T")
  case True
  have "stored True T (cArith T (tmin T sdiv - 1)) = (if tbits T \<le> 16 then Inr (Some (tmin T)) else Inl UndefinedBehaviour)"
    by (rule min_negated [OF True assms(1)])
  then show ?thesis using True sdiv_range [OF True assms(2)] assms(1) convert_inRange [OF assms(1)]
    by (auto simp: arithmeticOperation_def signedDivide_def stored_def)
next
  case False
  have r: "0 \<le> a" "0 \<le> b" "a < 2 ^ tbits T" using assms False by (simp_all add: unsigned_range)
  moreover have "a div b \<le> a" if "b \<noteq> 0" using that r zdiv_mono2 [of a 1 b] by simp
  moreover have "0 \<le> a div b" using r by (cases "b = 0") (simp_all add: pos_imp_zdiv_nonneg_iff)
  ultimately have "(a div b) mod 2 ^ tbits T = a div b" "b \<noteq> 0 \<Longrightarrow> a sdiv b = a div b"
    using sdiv_signs(1) [of a b] by (cases "b = 0"; auto intro!: mod_pos_pos_trivial)+
  moreover from this have "b \<noteq> 0 \<Longrightarrow> inRange T (a div b)" using r \<open>0 \<le> a div b\<close> False by (metis pos_mod_bound unsigned_range zero_less_numeral zero_less_power)
  ultimately show ?thesis using False assms(1) by (simp add: arithmeticOperation_def unsignedDivide_def stored_def convert_unsigned)
qed

text \<open>
  C17. The operations of \<^verbatim>\<open>ArithmeticOperations\<close> on operands of one type, signed or unsigned, of any width, with the
  compiler's intrinsics and without them: addition, subtraction and multiplication store the exact result when the type
  holds it and return false otherwise, and none of the intermediate values of the portable code overflows, so there is
  no undefined behaviour.\<close>
theorem checked_operations_detect_overflow:
  assumes "0 < tbits T" and "inRange T lhs" and "inRange T rhs" and "f \<noteq> Divide"
  shows "arithmeticOperation builtin f T T T lhs rhs =
    Inr (if inRange T (exact f lhs rhs) then Some (exact f lhs rhs) else None)"
  using operation_detects [OF assms] by (simp add: detects_def)

text \<open>Witness: the portable product of two negative 32-bit integers that does not fit.\<close>
theorem checked_operations_detect_overflow_witness:
  "arithmeticOperation False Multiply int32 int32 int32 (- 65536) (- 32768) = Inr None"
  using checked_operations_detect_overflow [of int32 "- 65536" "- 32768" Multiply False]
  by (simp add: inRange_def tmin_def tmax_def)
text \<open>
  C19. Conversions between integer types (\<^verbatim>\<open>BoundsChecker\<close>, \<^verbatim>\<open>convertSafely\<close>): for every pair of widths and signednesses,
  the conversion of a value of the source type succeeds exactly when the target type holds the value, and
  then keeps it.\<close>
theorem convertSafely_correct:
  assumes "0 < tbits Target" and "0 < tbits Source" and "inRange Source v"
  shows "convertSafely Target Source v = (if inRange Target v then Some v else None)"
  using inBounds_iff [OF assms] convert_inRange [OF assms(1), of v] by (simp add: convertSafely_def)

text \<open>Witness: a negative 64-bit value does not convert to an unsigned 32-bit one.\<close>
theorem convertSafely_correct_witness:
  "convertSafely uint32 int64 (- 1) = None \<and> convertSafely uint32 int64 4294967295 = Some 4294967295"
  using convertSafely_correct [of uint32 int64 "- 1"] convertSafely_correct [of uint32 int64 4294967295]
  by (simp add: inRange_def tmin_def tmax_def)

text \<open>
  C21. The division of \<^verbatim>\<open>ArithmeticOperations\<close> tests for a zero divisor only. The quotient of the least signed value by
  minus one is not a value of the type: for the types at least as wide as \<^verbatim>\<open>int\<close> computing it is undefined behaviour, and for 8 and 16 bits,
  where it is computed in \<^verbatim>\<open>int\<close>, the least value itself is stored and reported as a success. The quotient of a negative \<^verbatim>\<open>int\<close> by an
  \<^verbatim>\<open>unsigned\<close> is reported as a success although the result type \<^verbatim>\<open>unsigned\<close> does not hold it: what is stored is the
  quotient plus \<open>2\<^sup>3\<^sup>2\<close>.\<close>
theorem checked_division_misses_overflow:
  assumes "tsigned T" and "0 < tbits T" and "inRange int32 lhs" and "inRange uint32 rhs" and "lhs < 0" and "rhs \<noteq> 0" and "lhs sdiv rhs \<noteq> 0"
  shows "\<not> inRange T (tmin T sdiv - 1)
    \<and> arithmeticOperation builtin Divide T T T (tmin T) (- 1) = (if tbits T \<le> 16 then Inr (Some (tmin T)) else Inl UndefinedBehaviour)
    \<and> arithmeticOperation builtin Divide int32 uint32 (resultType int32 uint32) lhs rhs = Inr (Some (lhs sdiv rhs + 2 ^ 32))"
proof (intro conjI)
  show "\<not> inRange T (tmin T sdiv - 1)" unfolding min_sdiv [OF assms(1)] by (simp add: inRange_def)
  have "inRange T (tmin T)" "inRange T (- 1)" using tmin_tmax [of T] assms(1) by (auto simp: inRange_def)
  then show "arithmeticOperation builtin Divide T T T (tmin T) (- 1) = (if tbits T \<le> 16 then Inr (Some (tmin T)) else Inl UndefinedBehaviour)"
    using division_outcome [of T "tmin T" "- 1" builtin] assms(1,2) by simp
  have r: "- 2147483648 \<le> lhs" "0 < rhs" using assms by (simp_all add: inRange_def tmin_def tmax_def)
  define q where "q = (- lhs) div rhs"
  have q: "lhs sdiv rhs = - q" "q \<le> - lhs" "0 \<le> q"
    using sdiv_signs(2) [of "- lhs" rhs] r assms(5) zdiv_mono2 [of "- lhs" 1 rhs] by (simp_all add: q_def pos_imp_zdiv_nonneg_iff)
  then have "- 2147483648 \<le> - q" "- q < 0" using r assms(7) by linarith+
  moreover from this have "(- q) mod 4294967296 = - q + 4294967296" using mod_pos_pos_trivial [of "- q + 4294967296" 4294967296] by simp
  ultimately show "arithmeticOperation builtin Divide int32 uint32 (resultType int32 uint32) lhs rhs = Inr (Some (lhs sdiv rhs + 2 ^ 32))"
    using assms(6) q(1) by (simp add: arithmeticOperation_def mixedDivide_def resultType_def cArith_def inRange_def tmin_def tmax_def convert_def)
qed

text \<open>Witness: the least values of 32 and of 8 bits by minus one, and minus five by two.\<close>
theorem checked_division_misses_overflow_witness:
  "arithmeticOperation True Divide int32 int32 int32 (- 2147483648) (- 1) = Inl UndefinedBehaviour
   \<and> arithmeticOperation True Divide int8 int8 int8 (- 128) (- 1) = Inr (Some (- 128))
   \<and> arithmeticOperation True Divide int32 uint32 (resultType int32 uint32) (- 5) 2 = Inr (Some 4294967294)"
  using checked_division_misses_overflow [of int32 "- 5" 2 True] checked_division_misses_overflow [of int8 "- 5" 2 True]
  by (simp add: inRange_def tmin_def tmax_def signed_divide_int_def)


section \<open>Checked values compute exactly or report an overflow\<close>

text \<open>A computation on a checked value of type \<open>T\<close>: a sequence of \<^verbatim>\<open>+=\<close>, \<^verbatim>\<open>-=\<close>, \<^verbatim>\<open>*=\<close> and \<^verbatim>\<open>/=\<close>.\<close>

fun runChecked :: "bool \<Rightarrow> overflow_handler \<Rightarrow> int_type \<Rightarrow> (arith_op \<times> int) list \<Rightarrow> checked \<Rightarrow> (arith_error, checked) result" where
  "runChecked builtin h T [] c = Inr c"
| "runChecked builtin h T ((f, b) # ops) c = andThen (assignOp builtin h f T T c b) (runChecked builtin h T ops)"

text \<open>The same computation on integers: it has no result once a value leaves the type or a divisor is zero.\<close>

fun runExact :: "int_type \<Rightarrow> (arith_op \<times> int) list \<Rightarrow> int \<Rightarrow> int option" where
  "runExact T [] a = Some a"
| "runExact T ((f, b) # ops) a =
     (if (f = Divide \<and> b = 0) \<or> \<not> inRange T (exact f a b) then None else runExact T ops (exact f a b))"

lemma assignOp_exact:
  assumes "0 < tbits T" and "inRange T (m_value c)" and "inRange T b" and h: "observesOverflow h"
    and ok: "tsigned T \<and> f = Divide \<and> m_value c = tmin T \<longrightarrow> b \<noteq> - 1"
  shows "assignOp builtin h f T T c b =
    (if (f = Divide \<and> b = 0) \<or> \<not> inRange T (exact f (m_value c) b) then overflowed h c
     else Inr (c\<lparr>m_value := exact f (m_value c) b\<rparr>))"
proof (cases "f = Divide")
  case True
  have "inRange T (m_value c sdiv b)" if "b \<noteq> 0"
  proof (cases "tsigned T")
    case True
    then show ?thesis using that assms \<open>f = Divide\<close> by (intro sdiv_range) auto
  next
    case False
    have "0 \<le> m_value c" "0 < b" "m_value c < 2 ^ tbits T" using that assms(2,3) False by (auto simp: unsigned_range)
    moreover from this have "m_value c div b \<le> m_value c" "0 \<le> m_value c div b" using zdiv_mono2 [of "m_value c" 1 b] by (simp_all add: pos_imp_zdiv_nonneg_iff)
    ultimately show ?thesis using False by (simp add: unsigned_range sdiv_signs)
  qed
  then show ?thesis
    using True division_outcome [OF assms(1-3), of builtin] ok h by (auto simp: assignOp_def safeOperation_def)
next
  case False
  then show ?thesis
    using operation_detects [OF assms(1-3), of f builtin] h by (simp add: assignOp_def safeOperation_def detects_def)
qed

text \<open>Once recorded, an overflow stays recorded.\<close>

lemma runChecked_sticky:
  assumes "0 < tbits T" and "inRange T (m_value c)" and "\<forall>(f, b)\<in>set ops. inRange T b \<and> (f = Divide \<longrightarrow> b \<noteq> - 1)"
    and "m_overflowed c"
  shows "\<exists>d. runChecked builtin RecordOverflow T ops c = Inr d \<and> m_overflowed d"
  using assms(2-)
proof (induction ops arbitrary: c)
  case (Cons op ops)
  obtain f b where op: "op = (f, b)" by fastforce
  then show ?case
    using Cons assignOp_exact [OF assms(1), of c b RecordOverflow f builtin] by (auto split: if_splits)
qed simp

lemma exact_in_range: "inRange T (exact f a b) \<Longrightarrow> tsigned T \<and> f = Divide \<and> a = tmin T \<longrightarrow> b \<noteq> - 1"
  using min_sdiv [of T] by (auto simp: inRange_def)

text \<open>While every result is a value of the type, the computation is exact, whatever the divisors are.\<close>

lemma runChecked_value:
  assumes "0 < tbits T" and "inRange T (m_value c)" and "\<forall>(f, b)\<in>set ops. inRange T b" and h: "observesOverflow h"
    and "runExact T ops (m_value c) = Some v"
  shows "runChecked builtin h T ops c = Inr (c\<lparr>m_value := v\<rparr>)"
  using assms(2,3,5)
proof (induction ops arbitrary: c)
  case (Cons op ops)
  obtain f b where op: "op = (f, b)" by fastforce
  then have r: "\<not> (f = Divide \<and> b = 0)" "inRange T (exact f (m_value c) b)" using Cons.prems by (auto split: if_splits)
  then have "assignOp builtin h f T T c b = Inr (c\<lparr>m_value := exact f (m_value c) b\<rparr>)"
    using assignOp_exact [OF assms(1) _ _ h exact_in_range, of c b f builtin] Cons.prems op by auto
  then show ?case using Cons.IH [of "c\<lparr>m_value := exact f (m_value c) b\<rparr>"] Cons.prems r op by simp
qed simp

text \<open>The first result that is not a value of the type is reported, if it is not a quotient by minus one.\<close>

lemma runChecked_crash:
  assumes "0 < tbits T" and "inRange T (m_value c)" and "\<forall>(f, b)\<in>set ops. inRange T b \<and> (f = Divide \<longrightarrow> b \<noteq> - 1)"
    and h: "h = RecordOverflow \<or> h = CrashOnOverflow" and "runExact T ops (m_value c) = None"
  shows "andThen (runChecked builtin h T ops c) (valueOf h) = Inl Crash"
  using assms(2,3,5)
proof (induction ops arbitrary: c)
  case (Cons op ops)
  obtain f b where op: "op = (f, b)" by fastforce
  have obs: "observesOverflow h" using h by auto
  have step: "assignOp builtin h f T T c b =
      (if (f = Divide \<and> b = 0) \<or> \<not> inRange T (exact f (m_value c) b) then overflowed h c
       else Inr (c\<lparr>m_value := exact f (m_value c) b\<rparr>))"
    using Cons.prems op by (intro assignOp_exact [OF assms(1) _ _ obs]) auto
  have "\<exists>d. runChecked builtin RecordOverflow T ops (c\<lparr>m_overflowed := True\<rparr>) = Inr d \<and> m_overflowed d"
    using Cons.prems by (intro runChecked_sticky [OF assms(1)]) auto
  then have "andThen (andThen (overflowed h c) (runChecked builtin h T ops)) (valueOf h) = Inl Crash"
    using h by (auto simp: valueOf_def)
  then show ?case using Cons op step by (auto split: if_splits)
qed simp

text \<open>
  C18. A computation on a \<^verbatim>\<open>Checked<T, RecordOverflow>\<close> or \<^verbatim>\<open>Checked<T, CrashOnOverflow>\<close> refines integer arithmetic: asking
  for the value after any sequence of compound assignments yields the exact integer when every intermediate result is
  a value of the type and no divisor is zero. Otherwise it crashes, provided that no division in the sequence is by minus one (the
  one overflow that is not detected); so a recorded overflow cannot be undone by later operations.\<close>
theorem checked_computation_exact:
  assumes "0 < tbits T" and "inRange T a" and "\<forall>(f, b)\<in>set ops. inRange T b" and "h = RecordOverflow \<or> h = CrashOnOverflow"
  shows "case runExact T ops a of
      Some v \<Rightarrow> andThen (fromValue h T T a) (\<lambda>c. andThen (runChecked builtin h T ops c) (valueOf h)) = Inr v
    | None \<Rightarrow> (\<forall>(f, b)\<in>set ops. f = Divide \<longrightarrow> b \<noteq> - 1) \<longrightarrow>
        andThen (fromValue h T T a) (\<lambda>c. andThen (runChecked builtin h T ops c) (valueOf h)) = Inl Crash"
proof -
  let ?c = "\<lparr>m_value = a, m_overflowed = False\<rparr>"
  have 0: "fromValue h T T a = Inr ?c"
    using inBounds_iff [OF assms(1,1,2)] convert_inRange [OF assms(1,2)] assms(2) by (simp add: fromValue_def overflowIf_def)
  show ?thesis
  proof (cases "runExact T ops a")
    case None
    then show ?thesis using 0 runChecked_crash [OF assms(1) _ _ assms(4), of ?c ops builtin] assms(2,3) by (auto simp: case_prod_beta)
  next
    case (Some v)
    moreover have "valueOf h (?c\<lparr>m_value := v\<rparr>) = Inr v" using assms(4) by (auto simp: valueOf_def)
    ultimately show ?thesis using 0 runChecked_value [OF assms(1) _ assms(3), of ?c h v builtin] assms(2,4) by auto
  qed
qed

text \<open>Witness: (7 - 12) / -1 is exact; 2147483647 + 1 - 1 overflows on the way.\<close>
theorem checked_computation_exact_witness:
  "andThen (fromValue CrashOnOverflow int32 int32 7)
     (\<lambda>c. andThen (runChecked False CrashOnOverflow int32 [(Sub, 12), (Divide, - 1)] c) (valueOf CrashOnOverflow)) = Inr 5
   \<and> andThen (fromValue RecordOverflow int32 int32 2147483647)
     (\<lambda>c. andThen (runChecked True RecordOverflow int32 [(Add, 1), (Sub, 1)] c) (valueOf RecordOverflow)) = Inl Crash"
  using checked_computation_exact [of int32 2147483647 "[(Add, 1), (Sub, 1)]" RecordOverflow True]
    checked_computation_exact [of int32 7 "[(Sub, 12), (Divide, - 1)]" CrashOnOverflow False]
  by (simp add: inRange_def tmin_def tmax_def signed_divide_int_def)


section \<open>Sums and products of several values\<close>

text \<open>A recorded computation that should have the value \<open>v\<close>: either the flag is set or the value is exact.\<close>

definition records :: "int_type \<Rightarrow> bool \<Rightarrow> int \<Rightarrow> (arith_error, checked) result \<Rightarrow> bool" where
  "records T ok v r \<longleftrightarrow> (\<exists>c. r = Inr c \<and> m_overflowed c = (\<not> ok) \<and> (ok \<longrightarrow> m_value c = v \<and> inRange T v))"

lemma fromValue_records:
  assumes "0 < tbits T" and "0 < tbits U" and "inRange U v"
  shows "records T (inRange T v) v (fromValue RecordOverflow T U v)"
  using inBounds_iff [OF assms] convert_inRange [OF assms(1), of v] by (auto simp: records_def fromValue_def overflowIf_def)

lemma binaryOp_records:
  assumes T: "0 < tbits T" and f: "f \<noteq> Divide" and "records T ok1 a (Inr c)" and "records T ok2 b (Inr d)"
  shows "records T (ok1 \<and> ok2 \<and> inRange T (exact f a b)) (exact f a b) (binaryOp builtin RecordOverflow f T T c d)"
proof (cases "ok1 \<and> ok2")
  case True
  then have cd: "\<not> m_overflowed c" "\<not> m_overflowed d" "m_value c = a" "m_value d = b" "inRange T a" "inRange T b"
    using assms(3,4) by (auto simp: records_def)
  have "safeOperation builtin RecordOverflow f T T T a b = Inr (if inRange T (exact f a b) then Some (exact f a b) else None)"
    using operation_detects [OF T cd(5,6) f] by (simp add: safeOperation_def detects_def)
  then show ?thesis
    using True cd fromValue_records [OF T T, of "exact f a b"]
    by (auto simp: binaryOp_def valueOf_def resultType_def resultOverflowed_def records_def)
next
  case False
  then show ?thesis using assms(3,4) by (auto simp: records_def binaryOp_def resultOverflowed_def)
qed

lemma checkedSum_records:
  assumes T: "0 < tbits T" "0 < tbits U" and "\<forall>x\<in>set (v # args). inRange U x"
  shows "records T ((\<forall>x\<in>set (v # args). inRange T x) \<and> (\<forall>s\<in>set (suffixes (v # args)). inRange T (sum_list s)))
    (sum_list (v # args)) (checkedSum builtin T U v args)"
  using assms(3)
proof (induction args arbitrary: v)
  case Nil
  have "inRange T 0" using tmin_tmax [of T] by (simp add: inRange_def)
  then show ?case using fromValue_records [OF T, of v] Nil by simp
next
  case (Cons w args)
  obtain a where a: "fromValue RecordOverflow T U v = Inr a" "records T (inRange T v) v (Inr a)"
    using fromValue_records [OF T, of v] Cons.prems by (auto simp: records_def)
  obtain b where b: "checkedSum builtin T U w args = Inr b"
      "records T ((\<forall>x\<in>set (w # args). inRange T x) \<and> (\<forall>s\<in>set (suffixes (w # args)). inRange T (sum_list s))) (sum_list (w # args)) (Inr b)"
    using Cons.IH [of w] Cons.prems by (auto simp: records_def)
  show ?case
    using binaryOp_records [OF T(1) _ a(2) b(2), of Add builtin] a(1) b(1) by (auto simp: records_def)
qed

lemma checkedProduct_records:
  assumes T: "0 < tbits T" "0 < tbits U" "inRange T 1" and "\<forall>x\<in>set (v # args). inRange U x"
  shows "records T ((\<forall>x\<in>set (v # args). inRange T x) \<and> (\<forall>s\<in>set (suffixes (v # args)). inRange T (prod_list s)))
    (prod_list (v # args)) (checkedProduct builtin T U v args)"
  using assms(4)
proof (induction args arbitrary: v)
  case Nil
  then show ?case using fromValue_records [OF T(1,2), of v] T(3) by simp
next
  case (Cons w args)
  obtain a where a: "fromValue RecordOverflow T U v = Inr a" "records T (inRange T v) v (Inr a)"
    using fromValue_records [OF T(1,2), of v] Cons.prems by (auto simp: records_def)
  obtain b where b: "checkedProduct builtin T U w args = Inr b"
      "records T ((\<forall>x\<in>set (w # args). inRange T x) \<and> (\<forall>s\<in>set (suffixes (w # args)). inRange T (prod_list s))) (prod_list (w # args)) (Inr b)"
    using Cons.IH [of w] Cons.prems by (auto simp: records_def)
  show ?case
    using binaryOp_records [OF T(1) _ a(2) b(2), of Multiply builtin] a(1) b(1) by (auto simp: records_def)
qed

lemma suffix_sum_le:
  "\<forall>x\<in>set xs. 0 \<le> (x :: int) \<Longrightarrow> suffix s xs \<Longrightarrow> 0 \<le> sum_list s \<and> sum_list s \<le> sum_list xs"
  unfolding suffix_def by (auto intro!: sum_list_nonneg)

lemma member_sum_le: "\<forall>x\<in>set xs. 0 \<le> (x :: int) \<Longrightarrow> y \<in> set xs \<Longrightarrow> y \<le> sum_list xs"
  by (auto dest!: split_list intro!: add_nonneg_nonneg sum_list_nonneg)

lemma records_flag: "records T ok v r \<Longrightarrow> andThen r (\<lambda>c. Inr (hasOverflowed RecordOverflow c)) = Inr (\<not> ok)"
  by (auto simp: records_def)

text \<open>
  C20. \<^verbatim>\<open>sumOverflows\<close>, \<^verbatim>\<open>productOverflows\<close> and \<^verbatim>\<open>isSumSmallerThanOrEqual\<close>: the sum (product) of several values overflows exactly when one of the
  values or one of the partial results, formed from the last value backwards, is not a value of the type; for
  unsigned types that is when the whole sum does not fit, and then comparing a sum with a bound is exact.\<close>
theorem overflow_predicates_correct:
  assumes "1 < tbits T" and "0 < tbits U" and "\<forall>x\<in>set (v # args). inRange U x" and "inRange T a" and "inRange T b" and "inRange T bound"
  shows "sumOverflows builtin T U v args
      = Inr (\<not> ((\<forall>x\<in>set (v # args). inRange T x) \<and> (\<forall>s\<in>set (suffixes (v # args)). inRange T (sum_list s))))
    \<and> productOverflows builtin T U v args
      = Inr (\<not> ((\<forall>x\<in>set (v # args). inRange T x) \<and> (\<forall>s\<in>set (suffixes (v # args)). inRange T (prod_list s))))
    \<and> (\<not> tsigned T \<and> \<not> tsigned U \<longrightarrow> sumOverflows builtin T U v args = Inr (\<not> inRange T (sum_list (v # args)))
         \<and> isSumSmallerThanOrEqual builtin T a b bound = Inr (a + b \<le> bound))"
proof (intro conjI impI)
  have T: "0 < tbits T" using assms(1) by simp
  have one: "inRange T 1"
    using assms(1) tmax_less [of "T\<lparr>tbits := 1, tsigned := False\<rparr>" "vbits T"] tmin_tmax(2) [of T]
    by (auto simp: inRange_def tmax_def vbits_def split: if_splits)
  show sum: "sumOverflows builtin T U v args
      = Inr (\<not> ((\<forall>x\<in>set (v # args). inRange T x) \<and> (\<forall>s\<in>set (suffixes (v # args)). inRange T (sum_list s))))"
    unfolding sumOverflows_def by (rule records_flag [OF checkedSum_records [OF T assms(2,3)]])
  show "productOverflows builtin T U v args
      = Inr (\<not> ((\<forall>x\<in>set (v # args). inRange T x) \<and> (\<forall>s\<in>set (suffixes (v # args)). inRange T (prod_list s))))"
    unfolding productOverflows_def by (rule records_flag [OF checkedProduct_records [OF T assms(2) one assms(3)]])
  assume u: "\<not> tsigned T \<and> \<not> tsigned U"
  then have pos: "\<forall>x\<in>set (v # args). 0 \<le> x" using assms(3) by (simp add: unsigned_range)
  have le: "inRange T x \<longleftrightarrow> 0 \<le> x \<and> x < 2 ^ tbits T" for x using u by (simp add: unsigned_range)
  have "(\<forall>x\<in>set (v # args). inRange T x) \<and> (\<forall>s\<in>set (suffixes (v # args)). inRange T (sum_list s)) \<longleftrightarrow> inRange T (sum_list (v # args))"
    unfolding le Ball_def in_set_suffixes
    using suffix_sum_le [OF pos] member_sum_le [OF pos] pos by (meson order_le_less_trans suffix_order.refl)
  then show "sumOverflows builtin T U v args = Inr (\<not> inRange T (sum_list (v # args)))" unfolding sum by simp
  have "fromValue RecordOverflow T T a = Inr \<lparr>m_value = a, m_overflowed = False\<rparr>"
    using inBounds_iff [OF T T assms(4)] convert_inRange [OF T assms(4)] assms(4) by (simp add: fromValue_def overflowIf_def)
  then show "isSumSmallerThanOrEqual builtin T a b bound = Inr (a + b \<le> bound)"
    using assignOp_exact [OF T _ assms(5), of "\<lparr>m_value = a, m_overflowed = False\<rparr>" RecordOverflow Add builtin] assms(4-6)
    by (auto simp: isSumSmallerThanOrEqual_def valueOf_def le)
qed

text \<open>Witness: 4294967295 and 1 overflow 32 unsigned bits; the partial sum of the last two of -1, 2147483647, 1
  overflows 32 signed bits although the whole sum fits.\<close>
theorem overflow_predicates_correct_witness:
  "sumOverflows True uint32 uint32 4294967295 [1] = Inr True \<and> sumOverflows False int32 int32 (- 1) [2147483647, 1] = Inr True"
  using overflow_predicates_correct [of uint32 uint32 4294967295 "[1]" 0 0 0 True]
    overflow_predicates_correct [of int32 int32 "- 1" "[2147483647, 1]" 0 0 0 False]
  by (simp add: inRange_def tmin_def tmax_def)

text \<open>
  Incrementing a checked value: below the maximum of the type the value grows by one and nothing is
  recorded. At the maximum a \<^verbatim>\<open>CrashOnOverflow\<close> value crashes; a \<^verbatim>\<open>RecordOverflow\<close> value records the overflow but
  increments its value all the same, which wraps around to zero for an unsigned type, wraps around to the least value for a signed type
  narrower than \<^verbatim>\<open>int\<close>, and is undefined behaviour for a wider signed type.\<close>

lemma wrapped_max:
  assumes "0 < tbits T"
  shows "wrapped T (tmax T + 1) = (if \<not> tsigned T then Inr 0 else if tbits T \<le> 16 then Inr (tmin T) else Inl UndefinedBehaviour)"
proof (cases "tsigned T")
  case True
  then show ?thesis using assms by (simp add: wrapped_def cArith_max convert_max)
next
  case False
  then have "\<bar>tmax T + 1\<bar> \<le> 2 * 2 ^ tbits T" "convert T (tmax T + 1) = 0" by (simp_all add: tmax_def convert_def)
  then show ?thesis using cArith_unsigned [OF assms False, of "tmax T + 1"] False by (auto simp: wrapped_def)
qed

lemma increment_at_maximum:
  assumes "0 < tbits T" and "inRange T (m_value c)"
  shows "increment CrashOnOverflow T c = (if m_value c = tmax T then Inl Crash else Inr (c\<lparr>m_value := m_value c + 1\<rparr>))"
    and "increment RecordOverflow T c =
        (if m_value c \<noteq> tmax T then Inr (c\<lparr>m_value := m_value c + 1\<rparr>)
         else if \<not> tsigned T then Inr \<lparr>m_value = 0, m_overflowed = True\<rparr>
         else if tbits T \<le> 16 then Inr \<lparr>m_value = tmin T, m_overflowed = True\<rparr>
         else Inl UndefinedBehaviour)"
proof -
  have "wrapped T (m_value c + 1) = Inr (m_value c + 1)" if "m_value c \<noteq> tmax T"
  proof -
    have "inRange T (m_value c + 1)" using that assms(2) by (auto simp: inRange_def)
    then show ?thesis using assms(1) by (simp add: wrapped_def convert_inRange)
  qed
  then show "increment CrashOnOverflow T c = (if m_value c = tmax T then Inl Crash else Inr (c\<lparr>m_value := m_value c + 1\<rparr>))"
    "increment RecordOverflow T c =
        (if m_value c \<noteq> tmax T then Inr (c\<lparr>m_value := m_value c + 1\<rparr>)
         else if \<not> tsigned T then Inr \<lparr>m_value = 0, m_overflowed = True\<rparr>
         else if tbits T \<le> 16 then Inr \<lparr>m_value = tmin T, m_overflowed = True\<rparr>
         else Inl UndefinedBehaviour)"
    using wrapped_max [OF assms(1)] by (auto simp: increment_def overflowIf_def)
qed

end
