(* ===== verification/BigInt_Parse.thy ===== *)
theory BigInt_Parse
  imports BigInt_ToString Checked_Arithmetic
begin

text \<open>
  Parsing of BigInts in \<^verbatim>\<open>runtime/JSBigInt.cpp\<close>: \<^verbatim>\<open>allocateFor\<close>, \<^verbatim>\<open>parseInt\<close> with its overloads and \<^verbatim>\<open>stringToBigInt\<close>. A string is
  the list of its code units, and the white space above code unit 255 that is not a line terminator or the byte
  order mark is given by the parameter \<open>spaceSeparator\<close> of \<^verbatim>\<open>isStrWhiteSpace\<close>.

  An empty \<^verbatim>\<open>JSValue\<close> returned without an exception is the error \<open>NullResult\<close>.
\<close>


section \<open>The operations\<close>

datatype ErrorParseMode = ThrowExceptions | IgnoreExceptions

datatype ParseIntMode = DisallowEmptyString | AllowEmptyString

datatype ParseIntSign = Unsigned | Signed

definition allocateFor :: "js_env \<Rightarrow> nat \<Rightarrow> nat \<Rightarrow> (js_error, jsBigInt) result" where
  "allocateFor env radix charcount =
     andThen (assertThat (2 \<le> radix \<and> radix \<le> 36)) (\<lambda>_.
     let bitsPerChar = maxBitsPerCharTable ! radix;
         chars = charcount;
         roundup = bitsPerCharTableMultiplier - 1;
         tooBig = throwOutOfMemoryError env ''BigInt generated from this operation is too big''
     in if chars \<le> (2 ^ 64 - 1 - roundup) div bitsPerChar
        then let bitsMin = bitsPerChar * chars;
                 bitsMin = drop_bit bitsPerCharTableShift (bitsMin + roundup)
             in if bitsMin \<le> maxInt
                then let len = (bitsMin + digitBits - 1) div digitBits
                     in if len \<le> maxLength then createWithLength env len else tooBig
                else tooBig
        else tooBig)"

text \<open>The scans over white space and leading zeros, and over trailing white space.\<close>

function scanWhile :: "(uchar \<Rightarrow> bool) \<Rightarrow> uchar list \<Rightarrow> nat \<Rightarrow> nat" where
  "scanWhile P cs p = (if p < length cs \<and> P (cs ! p) then scanWhile P cs (p + 1) else p)"
  by auto
termination by (relation "measure (\<lambda>(_, cs, p). length cs - p)") auto

declare scanWhile.simps [simp del]

text \<open>\<open>n\<close> is \<^verbatim>\<open>endIndex + 1\<close>.\<close>

fun trimEnd :: "(uchar \<Rightarrow> bool) \<Rightarrow> uchar list \<Rightarrow> nat \<Rightarrow> nat \<Rightarrow> nat" where
  "trimEnd P cs p 0 = 0"
| "trimEnd P cs p (Suc n) = (if n \<ge> p \<and> P (cs ! n) then trimEnd P cs p n else Suc n)"

definition lengthLimitForBigInt32 :: "nat \<Rightarrow> nat" where
  "lengthLimitForBigInt32 radix =
     (if radix = 2 then 30 else if radix = 8 then 10 else if radix = 10 then 9 else if radix = 16 then 7 else 1)"

definition parseFailure :: "js_env \<Rightarrow> ErrorParseMode \<Rightarrow> (js_error, 'a) result" where
  "parseFailure env errorParseMode =
     (if errorParseMode = ThrowExceptions
      then andThen (assertThat (hasGlobalObject env)) (\<lambda>_. Inl (SyntaxError ''Failed to parse String to BigInt''))
      else Inl NullResult)"

text \<open>The value of a character; the limits are computed as the code does, in 32 bits.\<close>

definition charValue :: "nat \<Rightarrow> uchar \<Rightarrow> int option" where
  "charValue radix c =
     (let limit0 = 0x30 + (if radix < 10 then int radix else 10);
          limita = convert uint32 (0x61 + (int radix - 10));
          limitA = convert uint32 (0x41 + (int radix - 10));
          d = uint c
      in if d \<ge> 0x30 \<and> d < limit0 then Some (d - 0x30)
         else if d \<ge> 0x61 \<and> d < limita then Some (d - 0x61 + 10)
         else if d \<ge> 0x41 \<and> d < limitA then Some (d - 0x41 + 10)
         else None)"

text \<open>
  \<^verbatim>\<open>Checked<uint64_t, CrashOnOverflow>\<close> with the operations of \<open>Checked_Arithmetic\<close>; a crash is \<open>AssertionFailed\<close>.
\<close>

definition crashing :: "(arith_error, 'a) result \<Rightarrow> (js_error, 'a) result" where
  "crashing r = (case r of Inl _ \<Rightarrow> Inl AssertionFailed | Inr a \<Rightarrow> Inr a)"

text \<open>The inner loop: up to \<open>k\<close> characters from \<open>p\<close> on; it returns the new \<open>p\<close>, \<^verbatim>\<open>digit\<close> and \<^verbatim>\<open>multiplier\<close>.\<close>

fun parseChunk ::
  "js_env \<Rightarrow> ErrorParseMode \<Rightarrow> uchar list \<Rightarrow> nat \<Rightarrow> nat \<Rightarrow> nat \<Rightarrow> nat \<Rightarrow> checked \<Rightarrow> checked \<Rightarrow> (js_error, nat \<times> checked \<times> checked) result" where
  "parseChunk env errorParseMode cs len radix 0 p digit multiplier = Inr (p, digit, multiplier)"
| "parseChunk env errorParseMode cs len radix (Suc k) p digit multiplier =
     (if p < len
      then andThen (crashing (assignOp True CrashOnOverflow Multiply uint64 uint32 digit (int radix))) (\<lambda>digit.
           andThen (crashing (assignOp True CrashOnOverflow Multiply uint64 uint32 multiplier (int radix))) (\<lambda>multiplier.
             case charValue radix (cs ! p) of
               Some d \<Rightarrow> andThen (crashing (assignOp True CrashOnOverflow Add uint64 uint64 digit d)) (\<lambda>digit.
                 parseChunk env errorParseMode cs len radix k (p + 1) digit multiplier)
             | None \<Rightarrow> parseFailure env errorParseMode))
      else Inr (p, digit, multiplier))"

text \<open>\<open>heapResult\<close> is null on the first round; the int32 conversion then ends the loop early.\<close>

definition smallResult :: "js_env \<Rightarrow> ParseIntSign \<Rightarrow> int \<Rightarrow> (js_error, jsBigInt option) result" where
  "smallResult env sign digit =
     andThen (assertThat (digit \<le> tmax int64)) (\<lambda>_.
       let maybeResult = convert int64 digit
       in andThen (assertThat (maybeResult \<ge> 0)) (\<lambda>_.
            let maybeResult = (if sign = Signed then maybeResult * - 1 else maybeResult)
            in if convert int32 maybeResult = maybeResult
               then andThen (createFromInt32 env (word_of_int maybeResult)) (\<lambda>b. Inr (Some b))
               else Inr None))"

fun parseLoop ::
  "nat \<Rightarrow> js_env \<Rightarrow> ErrorParseMode \<Rightarrow> ParseIntSign \<Rightarrow> uchar list \<Rightarrow> nat \<Rightarrow> nat \<Rightarrow> nat \<Rightarrow> jsBigInt option \<Rightarrow> nat \<Rightarrow> (js_error, jsBigInt) result" where
  "parseLoop 0 env errorParseMode sign cs len radix initialLength heapResult p = Inl AssertionFailed"
| "parseLoop (Suc fuel) env errorParseMode sign cs len radix initialLength heapResult p =
     (if p < len
      then andThen (parseChunk env errorParseMode cs len radix (lengthLimitForBigInt32 radix) p
                      \<lparr>m_value = 0, m_overflowed = False\<rparr> \<lparr>m_value = 1, m_overflowed = False\<rparr>) (\<lambda>(p, digit, multiplier).
           andThen (case heapResult of
               Some heapResult \<Rightarrow> Inr (Inr heapResult)
             | None \<Rightarrow>
                 andThen (if p = len then smallResult env sign (m_value digit) else Inr None) (\<lambda>small.
                   case small of
                     Some b \<Rightarrow> Inr (Inl b)
                   | None \<Rightarrow> andThen (allocateFor env radix initialLength) (\<lambda>heapResult. Inr (Inr (initializeWithZero heapResult))))) (\<lambda>r.
             case r of
               Inl returned \<Rightarrow> Inr returned
             | Inr heapResult \<Rightarrow>
                 andThen (inplaceMultiplyAdd heapResult (word_of_int (m_value multiplier)) (word_of_int (m_value digit))) (\<lambda>heapResult.
                   parseLoop fuel env errorParseMode sign cs len radix initialLength (Some heapResult) p)))
      else rightTrim env (setSign (the heapResult) (sign = Signed)))"

definition parseIntFrom ::
  "js_env \<Rightarrow> (uchar \<Rightarrow> bool) \<Rightarrow> uchar list \<Rightarrow> nat \<Rightarrow> nat \<Rightarrow> ErrorParseMode \<Rightarrow> ParseIntSign \<Rightarrow> ParseIntMode \<Rightarrow> (js_error, jsBigInt) result" where
  "parseIntFrom env spaceSeparator cs startIndex radix errorParseMode sign parseMode =
     (if parseMode \<noteq> AllowEmptyString \<and> startIndex = length cs
      then andThen (assertThat (hasGlobalObject env)) (\<lambda>_. parseFailure env errorParseMode)
      else let p = scanWhile (\<lambda>c. c = 0x30) cs startIndex;
               len = trimEnd (isStrWhiteSpace spaceSeparator) cs p (length cs)
           in if p = len then createZero env
              else parseLoop (Suc (len - p)) env errorParseMode sign cs len radix (len - p) None p)"

definition parseInt :: "js_env \<Rightarrow> (uchar \<Rightarrow> bool) \<Rightarrow> uchar list \<Rightarrow> ErrorParseMode \<Rightarrow> (js_error, jsBigInt) result" where
  "parseInt env spaceSeparator cs errorParseMode =
     (let p = scanWhile (isStrWhiteSpace spaceSeparator) cs 0;
          prefixed = p + 1 < length cs \<and> cs ! p = 0x30
      in if prefixed \<and> isASCIIAlphaCaselessEqual (cs ! (p + 1)) 0x62
         then parseIntFrom env spaceSeparator cs (p + 2) 2 errorParseMode Unsigned DisallowEmptyString
         else if prefixed \<and> isASCIIAlphaCaselessEqual (cs ! (p + 1)) 0x78
         then parseIntFrom env spaceSeparator cs (p + 2) 16 errorParseMode Unsigned DisallowEmptyString
         else if prefixed \<and> isASCIIAlphaCaselessEqual (cs ! (p + 1)) 0x6F
         then parseIntFrom env spaceSeparator cs (p + 2) 8 errorParseMode Unsigned DisallowEmptyString
         else let (sign, p) = (if p < length cs
                               then if cs ! p = 0x2D then (Signed, p + 1)
                                    else if cs ! p = 0x2B then (Unsigned, p + 1)
                                    else (Unsigned, p)
                               else (Unsigned, p))
              in parseIntFrom env spaceSeparator cs p 10 errorParseMode sign AllowEmptyString)"

definition parseIntRadix ::
  "js_env \<Rightarrow> (uchar \<Rightarrow> bool) \<Rightarrow> uchar list \<Rightarrow> nat \<Rightarrow> ErrorParseMode \<Rightarrow> ParseIntSign \<Rightarrow> (js_error, jsBigInt) result" where
  "parseIntRadix env spaceSeparator s radix parserMode sign = parseIntFrom env spaceSeparator s 0 radix parserMode sign DisallowEmptyString"

definition stringToBigInt :: "js_env \<Rightarrow> (uchar \<Rightarrow> bool) \<Rightarrow> uchar list \<Rightarrow> (js_error, jsBigInt) result" where
  "stringToBigInt env spaceSeparator s = parseInt env spaceSeparator s IgnoreExceptions"
section \<open>Reference numerals\<close>

text \<open>The value of a character as a digit, and of a numeral read from the left on top of the value \<open>a\<close>.\<close>

definition charDigit :: "nat \<Rightarrow> uchar \<Rightarrow> nat option" where
  "charDigit r c =
     (let n = unat c;
          d = (if 48 \<le> n \<and> n \<le> 57 then n - 48
               else if 97 \<le> n \<and> n \<le> 122 then n - 87
               else if 65 \<le> n \<and> n \<le> 90 then n - 55 else r)
      in if d < r then Some d else None)"

fun horner :: "nat \<Rightarrow> nat \<Rightarrow> uchar list \<Rightarrow> nat option" where
  "horner r a [] = Some a"
| "horner r a (c # cs) = (case charDigit r c of Some d \<Rightarrow> horner r (a * r + d) cs | None \<Rightarrow> None)"

lemma charValue_eq:
  assumes "2 \<le> r" and "r \<le> 36"
  shows "charValue r c = map_option int (charDigit r c)"
proof -
  have "convert uint32 (0x61 + (int r - 10)) = 0x61 + (int r - 10)" "convert uint32 (0x41 + (int r - 10)) = 0x41 + (int r - 10)"
    using assms by (simp_all add: convert_def)
  note limits = this
  obtain n where n: "unat c = n" "uint c = int n" by simp
  consider "48 \<le> n" "n \<le> 57" | "97 \<le> n" "n \<le> 122" | "65 \<le> n" "n \<le> 90"
    | "n < 48" | "57 < n" "n < 65" | "90 < n" "n < 97" | "122 < n" by linarith
  then show ?thesis
    using assms unfolding charValue_def charDigit_def Let_def n limits
    by cases (simp_all add: of_nat_diff, presburger+)
qed

lemma charDigit_less: "charDigit r c = Some d \<Longrightarrow> d < r"
  by (auto simp: charDigit_def Let_def split: if_splits)

lemma horner_append: "horner r a (xs @ ys) = Option.bind (horner r a xs) (\<lambda>b. horner r b ys)"
  by (induction xs arbitrary: a) (auto split: option.splits)

lemma horner_bound: "horner r a xs = Some v \<Longrightarrow> v < (a + 1) * r ^ length xs"
proof (induction xs arbitrary: a)
  case (Cons c xs)
  then obtain d where d: "charDigit r c = Some d" "horner r (a * r + d) xs = Some v" by (auto split: option.splits)
  have "v < (a * r + d + 1) * r ^ length xs" using Cons.IH [OF d(2)] by simp
  also have "\<dots> \<le> ((a + 1) * r) * r ^ length xs" using charDigit_less [OF d(1)] by (intro mult_right_mono) (auto simp: algebra_simps)
  finally show ?case by (simp add: algebra_simps)
qed simp

lemma charDigit_zero: "2 \<le> r \<Longrightarrow> charDigit r 0x30 = Some 0"
  by (simp add: charDigit_def Let_def)

lemma horner_dropWhile_zero: "2 \<le> r \<Longrightarrow> horner r 0 (dropWhile (\<lambda>c. c = 0x30) xs) = horner r 0 xs"
  by (induction xs) (auto simp: charDigit_zero)

lemma charDigit_radixDigits: "d < r \<Longrightarrow> r \<le> 36 \<Longrightarrow> charDigit r (radixDigits ! d) = Some d"
  using unat_radixDigits [of d] by (simp add: charDigit_def Let_def)

text \<open>Reading a printed number gives the number back.\<close>

lemma horner_toRadix:
  assumes "2 \<le> r" and "r \<le> 36"
  shows "horner r 0 (map (nth radixDigits) (toRadix r n)) = Some n"
proof -
  have "horner r 0 (map (nth radixDigits) ds) = Some (rval r (rev ds))" if "\<forall>d\<in>set ds. d < r" for ds
    using that
  proof (induction ds rule: rev_induct)
    case (snoc d ds)
    then show ?case using assms by (simp add: horner_append charDigit_radixDigits mult.commute add.commute)
  qed simp
  then show ?thesis using toRadix_less [OF assms(1)] rval_toRadix [OF assms(1)] by simp
qed


section \<open>Scanning\<close>

definition stripEnd :: "(uchar \<Rightarrow> bool) \<Rightarrow> uchar list \<Rightarrow> uchar list" where
  "stripEnd P xs = rev (dropWhile P (rev xs))"

lemma scanWhile_eq: "p \<le> length cs \<Longrightarrow> scanWhile P cs p \<le> length cs \<and> p \<le> scanWhile P cs p \<and> drop (scanWhile P cs p) cs = dropWhile P (drop p cs)"
proof (induction P cs p rule: scanWhile.induct)
  case (1 P cs p)
  show ?case
  proof (cases "p < length cs \<and> P (cs ! p)")
    case True
    then show ?thesis using 1 by (simp add: scanWhile.simps [of P cs p] Cons_nth_drop_Suc [symmetric])
  next
    case False
    then have "dropWhile P (drop p cs) = drop p cs" using 1(2) by (cases "p < length cs") (simp_all add: Cons_nth_drop_Suc [symmetric])
    moreover have "scanWhile P cs p = p" using False by (auto simp: scanWhile.simps [of P cs p])
    ultimately show ?thesis using 1(2) by simp
  qed
qed

lemma trimEnd_eq:
  "p \<le> n \<Longrightarrow> n \<le> length cs \<Longrightarrow> p \<le> trimEnd P cs p n \<and> trimEnd P cs p n \<le> n \<and> drop p (take (trimEnd P cs p n) cs) = stripEnd P (drop p (take n cs))"
proof (induction n)
  case (Suc n)
  show ?case
  proof (cases "p = Suc n")
    case True
    then show ?thesis by (simp add: stripEnd_def)
  next
    case False
    then have "drop p (take (Suc n) cs) = drop p (take n cs) @ [cs ! n]" using Suc.prems by (simp add: take_Suc_conv_app_nth)
    then show ?thesis using Suc False by (auto simp: stripEnd_def)
  qed
qed (simp add: stripEnd_def)

lemma stripEnd_Cons: "\<not> P c \<Longrightarrow> stripEnd P (c # xs) = c # stripEnd P xs"
  by (simp add: stripEnd_def dropWhile_append3)

lemma stripEnd_head: "stripEnd P (c # xs) = [] \<or> stripEnd P (c # xs) = c # stripEnd P xs"
proof (cases "\<forall>x\<in>set xs. P x")
  case True
  then have "dropWhile P (rev xs) = []" "dropWhile P (rev xs @ [c]) = dropWhile P [c]"
    using dropWhile_append2 [of "rev xs" P "[c]"] by (simp_all add: dropWhile_eq_Nil_conv)
  then show ?thesis by (simp add: stripEnd_def)
next
  case False
  then obtain x where "x \<in> set (rev xs)" "\<not> P x" by auto
  then show ?thesis using dropWhile_append1 [of x "rev xs" P "[c]"] by (simp add: stripEnd_def)
qed

lemma stripEnd_dropWhile: "(\<And>c. Q c \<Longrightarrow> \<not> P c) \<Longrightarrow> stripEnd P (dropWhile Q xs) = dropWhile Q (stripEnd P xs)"
proof (induction xs)
  case (Cons c xs)
  show ?case
  proof (cases "Q c")
    case True
    then show ?thesis using Cons by (simp add: stripEnd_Cons)
  next
    case False
    then show ?thesis using stripEnd_head [of P c xs] by auto
  qed
qed (simp add: stripEnd_def)

lemma ascii_not_space:
  assumes "33 \<le> unat c" and "unat c \<le> 127"
  shows "\<not> isStrWhiteSpace spaceSeparator c"
proof -
  have "c AND NOT 1 \<le> c" by (rule word_and_le2)
  then have "unat (c AND NOT 1) \<le> 127" using assms(2) by (simp add: word_le_nat_alt)
  then show ?thesis
    using assms by (auto simp: isStrWhiteSpace_def isWhiteSpace_def isWhiteSpaceLatin1_def isLatin1_def isLineTerminator_def word_le_nat_alt)
qed

lemmas zero_not_space = ascii_not_space [of "0x30", simplified]

section \<open>Room for the digits\<close>

text \<open>The number of digits \<^verbatim>\<open>allocateFor\<close> asks for.\<close>

definition digitsFor :: "nat \<Rightarrow> nat \<Rightarrow> nat" where
  "digitsFor r n = ((maxBitsPerCharTable ! r * n + 31) div 32 + 63) div 64"

lemma digitsFor_enough:
  assumes r: "2 \<le> r" "r \<le> 36"
  shows "int r ^ n \<le> digitBase ^ digitsFor r n"
proof -
  define m where "m = maxBitsPerCharTable ! r"
  define b where "b = (m * n + 31) div 32"
  have "(r ^ n) ^ 32 = (r ^ 32) ^ n" by (simp only: power_mult [symmetric] mult.commute)
  also have "\<dots> \<le> (2 ^ m) ^ n" unfolding m_def by (rule power_mono [OF maxBitsPerCharTable_entries(2) [OF r]]) simp
  also have "\<dots> = 2 ^ (m * n)" by (simp only: power_mult [symmetric])
  also have "\<dots> \<le> 2 ^ (b * 32)" unfolding b_def by (rule power_increasing) auto
  also have "\<dots> = (2 ^ b) ^ 32" by (simp only: power_mult)
  finally have "r ^ n \<le> 2 ^ b" by (rule power_le_imp_le_base [where n = 31, simplified]) simp
  moreover have "b \<le> 64 * digitsFor r n" unfolding digitsFor_def b_def m_def [symmetric] by linarith
  then have "(2 :: nat) ^ b \<le> 2 ^ (64 * digitsFor r n)" by (intro power_increasing) auto
  ultimately have "int (r ^ n) \<le> int (2 ^ (64 * digitsFor r n))" by linarith
  then show ?thesis by (simp add: digitBase_power_2)
qed

lemma digitsFor_pos: "2 \<le> r \<Longrightarrow> r \<le> 36 \<Longrightarrow> 0 < n \<Longrightarrow> 0 < digitsFor r n"
  using maxBitsPerCharTable_entries(3) [of r] mult_le_mono [of 32 "maxBitsPerCharTable ! r" 1 n]
  by (auto simp: digitsFor_def div_greater_zero_iff Suc_le_eq)

lemma digitsFor_mono: "n \<le> n' \<Longrightarrow> digitsFor r n \<le> digitsFor r n'"
  unfolding digitsFor_def by (intro div_le_mono add_mono mult_le_mono2) auto

lemma allocateFor_outcome:
  assumes r: "2 \<le> r" "r \<le> 36"
  shows "outcome (oom env (digitsFor r n)) (fresh (digitsFor r n)) (allocateFor env r n)"
proof -
  define m where "m = maxBitsPerCharTable ! r"
  have m: "32 \<le> m" "m \<le> 166" using maxBitsPerCharTable_entries(3,4) [OF r] by (simp_all add: m_def)
  define b where "b = (m * n + 31) div 32"
  have eq: "digitsFor r n = (63 + b) div 64" by (simp add: digitsFor_def b_def m_def)
  have big: "outcome (oom env (digitsFor r n)) P (throwOutOfMemoryError env s)" if "maxLength < digitsFor r n" for P s
    using that by (intro throwOutOfMemoryError_outcome [of "digitsFor r n"]) (auto simp: grants_def)
  have b1: "maxLength < digitsFor r n" if "\<not> b \<le> maxInt" using that unfolding eq maxInt_def maxLength_eq by linarith
  have b2: "\<not> b \<le> maxInt" if "\<not> n \<le> (2 ^ 64 - 32) div m"
  proof -
    have "(2 ^ 64 - 32) div m < n" using that by simp
    then have "2 ^ 64 - 32 < n * m" using m by (subst (asm) div_less_iff_less_mult) auto
    then show ?thesis unfolding b_def maxInt_def by (simp add: mult.commute)
  qed
  show ?thesis
    unfolding allocateFor_def Let_def using r b1 b2
    by (auto simp: m_def [symmetric] bitsPerCharTableMultiplier_def bitsPerCharTableShift_def drop_bit_eq_div b_def [symmetric] digitBits_def eq [symmetric]
        createWithLength_outcome intro!: big)
qed

lemma lengthLimit:
  assumes "2 \<le> r" and "r \<le> 36"
  shows "0 < lengthLimitForBigInt32 r" and "r ^ lengthLimitForBigInt32 r < 2 ^ 31"
  using assms by (auto simp: lengthLimitForBigInt32_def)


section \<open>One chunk\<close>

lemma uint64_range: "inRange uint64 v \<longleftrightarrow> 0 \<le> v \<and> v < 2 ^ 64"
  by (auto simp: inRange_def tmin_def tmax_def)

lemma crashing_assignOp:
  assumes "0 \<le> exact f v b" and "exact f v b < 2 ^ 64" and "f \<noteq> Divide" and "\<not> tsigned U"
  shows "crashing (assignOp True CrashOnOverflow f uint64 U \<lparr>m_value = v, m_overflowed = False\<rparr> b)
    = Inr \<lparr>m_value = exact f v b, m_overflowed = False\<rparr>"
  using assms
  by (cases f) (simp_all add: crashing_def assignOp_def safeOperation_def arithmeticOperation_def unsignedAdd_def unsignedSub_def
      unsignedMultiply_def builtinOverflow_def uint64_range)

lemma parseChunk_eq:
  assumes r: "2 \<le> r" "r \<le> 36" and "d < m" and "m * r ^ k < 2 ^ 64" and "len \<le> length cs"
  shows "parseChunk env em cs len r k p \<lparr>m_value = int d, m_overflowed = False\<rparr> \<lparr>m_value = int m, m_overflowed = False\<rparr>
    = (case horner r d (take (min k (len - p)) (drop p cs)) of
         Some v \<Rightarrow> Inr (p + min k (len - p), \<lparr>m_value = int v, m_overflowed = False\<rparr>,
                         \<lparr>m_value = int (m * r ^ min k (len - p)), m_overflowed = False\<rparr>)
       | None \<Rightarrow> parseFailure env em)"
  using assms(3,4)
proof (induction k arbitrary: p d m)
  case (Suc k)
  show ?case
  proof (cases "p < len")
    case True
    have mr: "m * r < 2 ^ 64"
    proof -
      have "m * r * 1 \<le> m * r * r ^ k" using r by (intro mult_le_mono2) simp
      also have "\<dots> = m * r ^ Suc k" by simp
      finally show ?thesis using Suc.prems(2) by (simp only: mult_1_right)
    qed
    obtain q where q: "len - p = Suc q" "len - (p + 1) = q" using True by (cases "len - p") auto
    have dm: "(d + 1) * r \<le> m * r" using Suc.prems(1) by (intro mult_right_mono) auto
    have mul: "crashing (assignOp True CrashOnOverflow Multiply uint64 uint32 \<lparr>m_value = int d, m_overflowed = False\<rparr> (int r)) = Inr \<lparr>m_value = int (d * r), m_overflowed = False\<rparr>"
        "crashing (assignOp True CrashOnOverflow Multiply uint64 uint32 \<lparr>m_value = int m, m_overflowed = False\<rparr> (int r)) = Inr \<lparr>m_value = int (m * r), m_overflowed = False\<rparr>"
      using mr dm by (subst crashing_assignOp; simp flip: of_nat_mult)+
    have chunk: "take (Suc (min k q)) (drop p cs) = cs ! p # take (min k q) (drop (p + 1) cs)"
      using True assms(5) by (simp add: q Cons_nth_drop_Suc [symmetric])
    show ?thesis
    proof (cases "charDigit r (cs ! p)")
      case None
      then show ?thesis using True mul unfolding q min_Suc_Suc chunk by (simp add: charValue_eq [OF r])
    next
      case (Some e)
      have e: "d * r + e < m * r" using charDigit_less [OF Some] dm by simp
      then have "crashing (assignOp True CrashOnOverflow Add uint64 uint64 \<lparr>m_value = int (d * r), m_overflowed = False\<rparr> (int e)) = Inr \<lparr>m_value = int (d * r + e), m_overflowed = False\<rparr>"
        using mr by (subst crashing_assignOp) (simp_all flip: of_nat_add of_nat_mult)
      then show ?thesis
        using True mul Suc.IH [OF e, of "p + 1"] Suc.prems(2) Some unfolding q min_Suc_Suc chunk
        by (simp add: charValue_eq [OF r] mult.assoc split: option.split)
    qed
  qed simp
qed simp
section \<open>The loop over chunks\<close>

definition parseError :: "ErrorParseMode \<Rightarrow> js_error \<Rightarrow> bool" where
  "parseError em e \<longleftrightarrow> e = (if em = ThrowExceptions then SyntaxError ''Failed to parse String to BigInt'' else NullResult)"

text \<open>How parsing ends: with the BigInt of the value, or, where there is none, with the error of the mode, unless
  memory runs out first.\<close>

definition parses :: "js_env \<Rightarrow> nat \<Rightarrow> ErrorParseMode \<Rightarrow> int option \<Rightarrow> (js_error, jsBigInt) result \<Rightarrow> bool" where
  "parses env L em v res =
     (case v of Some v \<Rightarrow> computes env L res v
      | None \<Rightarrow> outcome (\<lambda>e. parseError em e \<or> oom env L e) (\<lambda>_. False) res)"

definition signedValue :: "ParseIntSign \<Rightarrow> nat \<Rightarrow> int" where
  "signedValue sign v = (if sign = Signed then - int v else int v)"

lemma parseFailure_parses: "hasGlobalObject env \<Longrightarrow> parses env L em None (parseFailure env em)"
  by (simp add: parses_def parseFailure_def parseError_def)

lemma parses_mono: "parses env L em v res \<Longrightarrow> L \<le> L' \<Longrightarrow> parses env L' em v res"
  by (cases v; cases res) (auto simp: parses_def computes_def intro: oom_mono)

lemma horner_shift: "horner r a xs = map_option (\<lambda>v. a * r ^ length xs + v) (horner r 0 xs)"
proof -
  have "horner r (b + a) xs = map_option (\<lambda>v. b * r ^ length xs + v) (horner r a xs)" for a b
  proof (induction xs arbitrary: a b)
    case (Cons c xs)
    show ?case
    proof (cases "charDigit r c")
      case (Some d)
      have "horner r ((b + a) * r + d) xs = map_option (\<lambda>v. b * r * r ^ length xs + v) (horner r (a * r + d) xs)"
        using Cons.IH [of "b * r" "a * r + d"] by (simp add: algebra_simps)
      then show ?thesis using Some by (simp add: mult.assoc)
    qed simp
  qed simp
  from this [of a 0] show ?thesis by simp
qed

lemma inplaceMultiplyAdd_exact:
  assumes "dval (m_data x) * uint f + uint s < digitBase ^ bigLength x"
  shows "\<exists>y. inplaceMultiplyAdd x f s = Inr y \<and> bigLength y = bigLength x \<and> dval (m_data y) = dval (m_data x) * uint f + uint s"
  using internalMultiplyAdd_correct [where source = None and n = "bigLength x" and result = "m_data x" and factor = f and summand = s] assms by (auto simp: inplaceMultiplyAdd_def)

text \<open>The characters of the next round and those after it.\<close>

lemma chunk_split:
  assumes "p < len" and "len \<le> length cs" and "0 < k"
  defines "n \<equiv> min k (len - p)"
  shows "drop p (take len cs) = take n (drop p cs) @ drop (p + n) (take len cs)" and "length (take n (drop p cs)) = n" and "0 < n" and "p + n \<le> len"
proof -
  have "take n (drop p cs) = take n (drop p (take len cs))" by (simp add: n_def drop_take min_def)
  then show "drop p (take len cs) = take n (drop p cs) @ drop (p + n) (take len cs)"
    using append_take_drop_id [of n "drop p (take len cs)"] by (simp add: add.commute)
qed (use assms in \<open>auto simp: n_def\<close>)

lemma parseLoop_round:
  assumes r: "2 \<le> r" "r \<le> 36" and p: "p < len" "len \<le> length cs"
  defines "n \<equiv> min (lengthLimitForBigInt32 r) (len - p)"
  shows "parseLoop (Suc fuel) env em sign cs len r il hr p =
    (case horner r 0 (take n (drop p cs)) of
       None \<Rightarrow> parseFailure env em
     | Some v \<Rightarrow>
         andThen (case hr of
               Some h \<Rightarrow> Inr (Inr h)
             | None \<Rightarrow> andThen (if p + n = len then smallResult env sign (int v) else Inr None) (\<lambda>small.
                   case small of
                     Some b \<Rightarrow> Inr (Inl b)
                   | None \<Rightarrow> andThen (allocateFor env r il) (\<lambda>h. Inr (Inr (initializeWithZero h))))) (\<lambda>x.
             case x of
               Inl returned \<Rightarrow> Inr returned
             | Inr h \<Rightarrow> andThen (inplaceMultiplyAdd h (word_of_int (int (r ^ n))) (word_of_int (int v))) (\<lambda>h.
                   parseLoop fuel env em sign cs len r il (Some h) (p + n))))"
proof -
  have "1 * r ^ lengthLimitForBigInt32 r < 2 ^ 64" using lengthLimit(2) [OF r] by simp
  from parseChunk_eq [OF r _ this p(2), of 0 env em p]
  have "parseChunk env em cs len r (lengthLimitForBigInt32 r) p \<lparr>m_value = 0, m_overflowed = False\<rparr> \<lparr>m_value = 1, m_overflowed = False\<rparr>
     = (case horner r 0 (take n (drop p cs)) of
         Some v \<Rightarrow> Inr (p + n, \<lparr>m_value = int v, m_overflowed = False\<rparr>, \<lparr>m_value = int (r ^ n), m_overflowed = False\<rparr>)
       | None \<Rightarrow> parseFailure env em)"
    by (simp add: n_def split: option.split)
  moreover have "andThen (parseFailure env em) f = parseFailure env em" for f :: "nat \<times> checked \<times> checked \<Rightarrow> (js_error, jsBigInt) result"
    by (simp add: parseFailure_def assertThat_def)
  ultimately show ?thesis using p(1) by (cases "horner r 0 (take n (drop p cs))"; cases hr) simp_all
qed

lemma parseLoop_heap:
  assumes r: "2 \<le> r" "r \<le> 36" and g: "hasGlobalObject env" and len: "len \<le> length cs" and L: "0 < L" "L \<le> maxLength"
  shows "\<lbrakk>p \<le> len; len - p < fuel; bigLength h = L; dval (m_data h) = int V; int ((V + 1) * r ^ (len - p)) \<le> digitBase ^ L\<rbrakk>
    \<Longrightarrow> parses env L em (map_option (signedValue sign) (horner r V (drop p (take len cs)))) (parseLoop fuel env em sign cs len r il (Some h) p)"
proof (induction fuel arbitrary: p h V)
  case (Suc fuel)
  show ?case
  proof (cases "p < len")
    case False
    then have "computes env L (rightTrim env (setSign h (sign = Signed))) (signedValue sign V)"
      using Suc.prems L by (intro rightTrim_computes) (auto simp: signedValue_def)
    then show ?thesis using False Suc.prems(1) by (simp add: parses_def)
  next
    case True
    define n where "n = min (lengthLimitForBigInt32 r) (len - p)"
    note split = chunk_split [OF True len lengthLimit(1) [OF r], folded n_def]
    note round = parseLoop_round [OF r True len, folded n_def]
    show ?thesis
    proof (cases "horner r 0 (take n (drop p cs))")
      case None
      then have "horner r V (drop p (take len cs)) = None" by (simp add: split(1) horner_append horner_shift [of r V])
      then show ?thesis unfolding round using None parseFailure_parses [OF g] by simp
    next
      case (Some v)
      have v: "v < r ^ n" using horner_bound [OF Some] split(2) by simp
      have "r ^ n \<le> r ^ lengthLimitForBigInt32 r" using r by (intro power_increasing) (auto simp: n_def)
      then have rn: "r ^ n < 2 ^ 31" using lengthLimit(2) [OF r] by linarith
      have u: "uint (word_of_int (int (r ^ n)) :: digit) = int (r ^ n)" "uint (word_of_int (int v) :: digit) = int v"
        using rn v by (simp_all add: unsigned_of_nat take_bit_eq_mod del: of_nat_power)
      define W where "W = V * r ^ n + v"
      have rest: "r ^ (len - p) = r ^ n * r ^ (len - (p + n))" using split(4) by (simp flip: power_add)
      have W1: "(W + 1) * r ^ (len - (p + n)) \<le> (V + 1) * r ^ (len - p)"
        unfolding rest mult.assoc [symmetric] using v by (intro mult_right_mono) (auto simp: W_def)
      moreover have "W + 1 \<le> (W + 1) * r ^ (len - (p + n))" using r mult_le_mono2 [of 1 "r ^ (len - (p + n))" "W + 1"] by simp
      ultimately have "int W < digitBase ^ L" using Suc.prems(5) by linarith
      then obtain y where y: "inplaceMultiplyAdd h (word_of_int (int (r ^ n))) (word_of_int (int v)) = Inr y"
          "bigLength y = L" "dval (m_data y) = int W"
        using inplaceMultiplyAdd_exact [of h "word_of_int (int (r ^ n))" "word_of_int (int v)"] Suc.prems(3,4) u by (auto simp: W_def)
      have "horner r V (drop p (take len cs)) = horner r W (drop (p + n) (take len cs))"
        using Some split(2) by (simp add: split(1) horner_append horner_shift [of r V "take n (drop p cs)"] W_def)
      moreover have "int ((W + 1) * r ^ (len - (p + n))) \<le> digitBase ^ L" using W1 Suc.prems(5) by linarith
      ultimately show ?thesis
        unfolding round using Suc.IH [OF split(4) _ y(2,3)] Some y(1) Suc.prems(2) split(3) True by simp
    qed
  qed
qed simp
lemma smallResult_eq:
  assumes "v < 2 ^ 31"
  shows "smallResult env sign (int v) = andThen (createFromInt32 env (word_of_int (signedValue sign v))) (\<lambda>b. Inr (Some b))"
    and "sint (word_of_int (signedValue sign v) :: 32 word) = signedValue sign v"
proof -
  have rng: "- 2147483648 \<le> signedValue sign v" "signedValue sign v < 2147483648" using assms by (auto simp: signedValue_def)
  have "convert int64 (int v) = int v" using assms by (simp add: convert_def)
  moreover have "convert int32 (signedValue sign v) = signedValue sign v" using rng by (simp add: convert_def)
  ultimately show "smallResult env sign (int v) = andThen (createFromInt32 env (word_of_int (signedValue sign v))) (\<lambda>b. Inr (Some b))"
    using assms by (auto simp: smallResult_def tmax_def signedValue_def Let_def)
  show "sint (word_of_int (signedValue sign v) :: 32 word) = signedValue sign v"
    using rng by (simp add: sint_sbintrunc' signed_take_bit_int_eq_self)
qed

declare parseLoop.simps [simp del]

lemma parseLoop_first:
  assumes r: "2 \<le> r" "r \<le> 36" and g: "hasGlobalObject env" and p: "p < len" "len \<le> length cs" and fuel: "len - p < Suc fuel"
  shows "parses env (digitsFor r (len - p)) em (map_option (signedValue sign) (horner r 0 (drop p (take len cs))))
    (parseLoop (Suc fuel) env em sign cs len r (len - p) None p)"
proof -
  define n where "n = min (lengthLimitForBigInt32 r) (len - p)"
  define L where "L = digitsFor r (len - p)"
  have L: "0 < L" unfolding L_def using digitsFor_pos [OF r] p(1) by simp
  note split = chunk_split [OF p lengthLimit(1) [OF r], folded n_def]
  note round = parseLoop_round [OF r p, folded n_def]
  show ?thesis
  proof (cases "horner r 0 (take n (drop p cs))")
    case None
    then have "horner r 0 (drop p (take len cs)) = None" by (simp add: split(1) horner_append)
    then show ?thesis unfolding round using None parseFailure_parses [OF g] by simp
  next
    case (Some v)
    have v: "v < r ^ n" using horner_bound [OF Some] split(2) by simp
    have "r ^ n \<le> r ^ lengthLimitForBigInt32 r" using r by (intro power_increasing) (auto simp: n_def)
    then have v31: "v < 2 ^ 31" using lengthLimit(2) [OF r] v by linarith
    show ?thesis
    proof (cases "p + n = len")
      case True
      then have "horner r 0 (drop p (take len cs)) = Some v" using Some by (simp add: split(1))
      moreover have "computes env L (createFromInt32 env (word_of_int (signedValue sign v))) (signedValue sign v)"
        using computes_mono [OF createFromInt32_computes [of env "word_of_int (signedValue sign v)", unfolded smallResult_eq(2) [OF v31]], of L] L by simp
      ultimately show ?thesis
        unfolding round L_def [symmetric] using True Some smallResult_eq(1) [OF v31]
        by (cases "createFromInt32 env (word_of_int (signedValue sign v))") (simp_all add: parses_def)
    next
      case False
      have eq: "parseLoop (Suc fuel) env em sign cs len r (len - p) None p
          = andThen (allocateFor env r (len - p)) (\<lambda>h. parseLoop (Suc fuel) env em sign cs len r (len - p) (Some (initializeWithZero h)) p)"
        unfolding round using False Some by (cases "allocateFor env r (len - p)") simp_all
      have heap: "parses env L em (map_option (signedValue sign) (horner r 0 (drop p (take len cs))))
          (parseLoop (Suc fuel) env em sign cs len r (len - p) (Some (initializeWithZero h)) p)" if "fresh L h" for h
        using that p fuel digitsFor_enough [OF r, of "len - p"]
        by (intro parseLoop_heap [OF r g p(2) L]) (auto simp: fresh_def initializeWithZero_def L_def)
      show ?thesis
        using allocateFor_outcome [OF r, of env "len - p", folded L_def] heap
        unfolding eq L_def [symmetric]
        by (cases "allocateFor env r (len - p)"; cases "horner r 0 (drop p (take len cs))") (auto simp: parses_def computes_def)
    qed
  qed
qed

text \<open>The text after \<open>startIndex\<close> counts without trailing white space, and leading zeros do not matter.\<close>

lemma parseIntFrom_parses:
  fixes spaceSeparator :: "uchar \<Rightarrow> bool"
  assumes r: "2 \<le> r" "r \<le> 36" and g: "hasGlobalObject env" and start: "startIndex \<le> length cs"
  defines "body \<equiv> stripEnd (isStrWhiteSpace spaceSeparator) (drop startIndex cs)"
  shows "parses env (digitsFor r (length body)) em
    (if parseMode \<noteq> AllowEmptyString \<and> startIndex = length cs then None else map_option (signedValue sign) (horner r 0 body))
    (parseIntFrom env spaceSeparator cs startIndex r em sign parseMode)"
proof (cases "parseMode \<noteq> AllowEmptyString \<and> startIndex = length cs")
  case True
  then show ?thesis using parseFailure_parses [OF g] g by (simp add: parseIntFrom_def)
next
  case nonempty: False
  define p where "p = scanWhile (\<lambda>c. c = 0x30) cs startIndex"
  define len where "len = trimEnd (isStrWhiteSpace spaceSeparator) cs p (length cs)"
  have p: "p \<le> length cs" "drop p cs = dropWhile (\<lambda>c. c = 0x30) (drop startIndex cs)"
    using scanWhile_eq [OF start] by (simp_all add: p_def)
  have len: "p \<le> len" "len \<le> length cs" "drop p (take len cs) = stripEnd (isStrWhiteSpace spaceSeparator) (drop p cs)"
    using trimEnd_eq [OF p(1) order_refl, of "isStrWhiteSpace spaceSeparator"] by (simp_all add: len_def)
  have digits: "drop p (take len cs) = dropWhile (\<lambda>c. c = 0x30) body"
    unfolding len(3) p(2) body_def using zero_not_space by (intro stripEnd_dropWhile) auto
  have val: "horner r 0 body = horner r 0 (drop p (take len cs))" unfolding digits by (simp add: horner_dropWhile_zero r)
  have eq: "parseIntFrom env spaceSeparator cs startIndex r em sign parseMode
      = (if p = len then createZero env else parseLoop (Suc (len - p)) env em sign cs len r (len - p) None p)"
    unfolding parseIntFrom_def if_not_P [OF nonempty] Let_def p_def [symmetric] len_def [symmetric] ..
  show ?thesis
  proof (cases "p = len")
    case True
    then have "horner r 0 body = Some 0" by (simp add: val)
    then show ?thesis unfolding eq if_not_P [OF nonempty] using True createZero_computes by (simp add: parses_def signedValue_def)
  next
    case False
    have "parses env (digitsFor r (len - p)) em (map_option (signedValue sign) (horner r 0 body))
        (parseLoop (Suc (len - p)) env em sign cs len r (len - p) None p)"
      unfolding val using False len by (intro parseLoop_first [OF r g]) auto
    moreover have "len - p \<le> length body"
    proof -
      have "length (drop p (take len cs)) = len - p" using len(2) by simp
      then show ?thesis using length_dropWhile_le [of "\<lambda>c. c = 0x30" body] unfolding digits by simp
    qed
    ultimately show ?thesis unfolding eq if_not_P [OF False] if_not_P [OF nonempty]
      by (rule parses_mono [OF _ digitsFor_mono])
  qed
qed


section \<open>Properties\<close>

text \<open>
  What \<^verbatim>\<open>BigInt(string)\<close> reads: white space around a binary, hexadecimal or octal numeral with its prefix, or around an
  optionally signed decimal one. There must be a character after a prefix; an empty decimal numeral counts as zero.
\<close>

definition prefixRadix :: "uchar list \<Rightarrow> nat option" where
  "prefixRadix t =
     (case t of
        z # c # _ \<Rightarrow>
          if z \<noteq> 0x30 then None
          else if c = 0x62 \<or> c = 0x42 then Some 2
          else if c = 0x78 \<or> c = 0x58 then Some 16
          else if c = 0x6F \<or> c = 0x4F then Some 8
          else None
      | _ \<Rightarrow> None)"

definition stringValue :: "(uchar \<Rightarrow> bool) \<Rightarrow> uchar list \<Rightarrow> int option" where
  "stringValue space s =
     (let t = dropWhile space s
      in case prefixRadix t of
           Some r \<Rightarrow> if drop 2 t = [] then None else map_option int (horner r 0 (stripEnd space (drop 2 t)))
         | None \<Rightarrow>
             if t \<noteq> [] \<and> hd t = 0x2D then map_option (\<lambda>v. - int v) (horner 10 0 (stripEnd space (tl t)))
             else if t \<noteq> [] \<and> hd t = 0x2B then map_option int (horner 10 0 (stripEnd space (tl t)))
             else map_option int (horner 10 0 (stripEnd space t)))"

lemma or_0x20_cases: "c OR 0x20 = (e :: uchar) \<Longrightarrow> c = e \<or> c = unset_bit 5 e"
proof -
  assume e: "c OR 0x20 = e"
  have "c OR 0x20 = set_bit 5 c" by (simp add: set_bit_eq_or)
  then have "e = set_bit 5 c" using e by simp
  then show ?thesis
    by (cases "bit c 5") (auto intro!: bit_eqI simp: bit_set_bit_iff bit_unset_bit_iff)
qed

lemma caseless:
  "isASCIIAlphaCaselessEqual c 0x62 \<longleftrightarrow> c = 0x62 \<or> c = 0x42"
  "isASCIIAlphaCaselessEqual c 0x78 \<longleftrightarrow> c = 0x78 \<or> c = 0x58"
  "isASCIIAlphaCaselessEqual c 0x6F \<longleftrightarrow> c = 0x6F \<or> c = 0x4F"
  unfolding isASCIIAlphaCaselessEqual_def toASCIILowerUnchecked_def
  by (auto dest!: or_0x20_cases simp: unset_bit_eq_and_not)

lemma length_stripEnd: "length (stripEnd P xs) \<le> length xs"
  by (metis length_dropWhile_le length_rev stripEnd_def)

lemma parses_length:
  "parses env (digitsFor r (length (stripEnd P (drop k cs)))) em v res \<Longrightarrow> digitsFor r (length cs) \<le> L \<Longrightarrow> parses env L em v res"
proof (rule parses_mono)
  have "length (stripEnd P (drop k cs)) \<le> length cs" using length_stripEnd [of P "drop k cs"] by simp
  then show "digitsFor r (length cs) \<le> L \<Longrightarrow> digitsFor r (length (stripEnd P (drop k cs))) \<le> L"
    by (rule order_trans [OF digitsFor_mono])
qed

lemma digitsFor_radix: "r = 2 \<or> r = 8 \<or> r = 10 \<or> r = 16 \<Longrightarrow> digitsFor r n \<le> digitsFor 16 n"
  unfolding digitsFor_def by (intro div_le_mono add_mono mult_le_mono1) (auto simp: maxBitsPerCharTable_def)

lemma signedValue_cases: "signedValue Unsigned = int" "signedValue Signed = (\<lambda>v. - int v)"
  by (auto simp: signedValue_def)

lemma parseInt_parses:
  assumes g: "hasGlobalObject env"
  shows "parses env (digitsFor 16 (length cs)) em (stringValue (isStrWhiteSpace spaceSeparator) cs) (parseInt env spaceSeparator cs em)"
proof -
  define space where "space = isStrWhiteSpace spaceSeparator"
  define p where "p = scanWhile space cs 0"
  define t where "t = dropWhile space cs"
  have p: "p \<le> length cs" "drop p cs = t" using scanWhile_eq [of 0 cs space] by (simp_all add: p_def t_def)
  have two: "drop 2 t = drop (p + 2) cs" and one: "tl t = drop (p + 1) cs" unfolding p(2) [symmetric] by (simp_all add: drop_Suc tl_drop add.commute)
  have hd: "hd t = cs ! p \<and> t \<noteq> []" if "p < length cs" using that by (simp add: p(2) [symmetric] hd_drop_conv_nth)
  have t2: "t = cs ! p # cs ! (p + 1) # drop (p + 2) cs" if "p + 1 < length cs"
    unfolding p(2) [symmetric] using that by (simp add: Cons_nth_drop_Suc)
  have pre: "prefixRadix t = (if \<not> (p + 1 < length cs \<and> cs ! p = 0x30) then None
      else if isASCIIAlphaCaselessEqual (cs ! (p + 1)) 0x62 then Some 2
      else if isASCIIAlphaCaselessEqual (cs ! (p + 1)) 0x78 then Some 16
      else if isASCIIAlphaCaselessEqual (cs ! (p + 1)) 0x6F then Some 8 else None)"
  proof (cases "p + 1 < length cs")
    case True
    then show ?thesis unfolding t2 [OF True] by (simp add: prefixRadix_def caseless)
  next
    case False
    then have "length t < 2" by (simp add: p(2) [symmetric])
    then show ?thesis using False by (auto simp: prefixRadix_def split: list.splits)
  qed
  have from_p: "parses env (digitsFor 16 (length cs)) em
      (if pm \<noteq> AllowEmptyString \<and> q = length cs then None else map_option (signedValue sign) (horner r 0 (stripEnd space (drop q cs))))
      (parseIntFrom env spaceSeparator cs q r em sign pm)" if "q \<le> length cs" "r = 2 \<or> r = 8 \<or> r = 10 \<or> r = 16" for q r sign pm
    unfolding space_def using that(2) digitsFor_radix [OF that(2)]
    by (intro parses_length [OF parseIntFrom_parses [OF _ _ g that(1)]]) auto
  show ?thesis
  proof (cases "prefixRadix t")
    case (Some r)
    then have r: "r = 2 \<or> r = 8 \<or> r = 10 \<or> r = 16" "p + 2 \<le> length cs" by (auto simp: pre split: if_splits)
    have "parseInt env spaceSeparator cs em = parseIntFrom env spaceSeparator cs (p + 2) r em Unsigned DisallowEmptyString"
      using Some unfolding parseInt_def Let_def space_def [symmetric] p_def [symmetric] by (auto simp: pre split: if_splits)
    moreover have "drop 2 t = [] \<longleftrightarrow> p + 2 = length cs" unfolding two using r(2) by auto
    ultimately show ?thesis
      using from_p [OF r(2,1), of DisallowEmptyString Unsigned] Some
      by (simp add: stringValue_def space_def [symmetric] t_def [symmetric] two signedValue_cases split: if_splits)
  next
    case None
    have eq: "parseInt env spaceSeparator cs em =
        (let (sign, p) = (if p < length cs
                               then if cs ! p = 0x2D then (Signed, p + 1)
                                    else if cs ! p = 0x2B then (Unsigned, p + 1)
                                    else (Unsigned, p)
                               else (Unsigned, p))
         in parseIntFrom env spaceSeparator cs p 10 em sign AllowEmptyString)"
      using None unfolding parseInt_def Let_def space_def [symmetric] p_def [symmetric] by (auto simp: pre split: if_splits)
    show ?thesis
    proof (cases "p < length cs")
      case True
      then show ?thesis
        using None hd [OF True] one from_p [of "p + 1" 10 AllowEmptyString Signed] from_p [of "p + 1" 10 AllowEmptyString Unsigned]
          from_p [of p 10 AllowEmptyString Unsigned] unfolding eq
        by (simp add: stringValue_def space_def [symmetric] t_def [symmetric] p(2) signedValue_cases Let_def)
    next
      case False
      then have "t = []" unfolding p(2) [symmetric] by simp
      then show ?thesis
        using False None from_p [OF p(1), of 10 AllowEmptyString Unsigned] unfolding eq
        by (simp add: stringValue_def space_def [symmetric] t_def [symmetric] p(2) signedValue_cases Let_def)
    qed
  qed
qed

lemma radixDigits_not_space: "e < 36 \<Longrightarrow> \<not> isStrWhiteSpace spaceSeparator (radixDigits ! e)"
  using unat_radixDigits [of e] by (intro ascii_not_space) (auto split: if_splits)

lemma stripEnd_id: "\<forall>x\<in>set xs. \<not> P x \<Longrightarrow> stripEnd P xs = xs"
  by (cases xs rule: rev_cases) (simp_all add: stripEnd_def)

text \<open>
  C22. Converting a string to a BigInt (\<^verbatim>\<open>JSBigInt::parseInt\<close>, \<^verbatim>\<open>JSBigInt::stringToBigInt\<close>): the result is the BigInt of the value
  the text denotes, for numerals of any length, whatever the white space around them; a malformed text gives a
  SyntaxError, or an empty value when exceptions are ignored. Besides, only memory can run out, and no assertion,
  no overflow check and no digit bound fails on the way.\<close>
theorem string_to_BigInt_correct:
  assumes "hasGlobalObject env"
  shows "(case stringValue (isStrWhiteSpace spaceSeparator) s of
      Some v \<Rightarrow> computes env (digitsFor 16 (length s)) (parseInt env spaceSeparator s errorParseMode) v
    | None \<Rightarrow> outcome (\<lambda>e. e = (if errorParseMode = ThrowExceptions then SyntaxError ''Failed to parse String to BigInt'' else NullResult)
                       \<or> oom env (digitsFor 16 (length s)) e) (\<lambda>_. False) (parseInt env spaceSeparator s errorParseMode))
    \<and> stringToBigInt env spaceSeparator s = parseInt env spaceSeparator s IgnoreExceptions"
  using parseInt_parses [OF assms, of s errorParseMode spaceSeparator]
  unfolding parses_def parseError_def stringToBigInt_def by (rule conjI [OF _ refl])

text \<open>Witness: a hexadecimal numeral between spaces, and a malformed one.\<close>
theorem string_to_BigInt_correct_witness:
  "parseInt roomyHeap (\<lambda>_. False) (map (\<lambda>c. of_nat (of_char c)) '' 0xFf '') ThrowExceptions = Inr (posBig [255])
   \<and> parseInt roomyHeap (\<lambda>_. False) (map (\<lambda>c. of_nat (of_char c)) ''1n'') ThrowExceptions = Inl (SyntaxError ''Failed to parse String to BigInt'')"
proof
  have g: "hasGlobalObject roomyHeap" by (simp add: roomyHeap_def)
  note simps = stringValue_def prefixRadix_def stripEnd_def charDigit_def isStrWhiteSpace_def isWhiteSpace_def isWhiteSpaceLatin1_def
      isLatin1_def isLineTerminator_def
  have "computes roomyHeap 1 (parseInt roomyHeap (\<lambda>_. False) (map (\<lambda>c. of_nat (of_char c)) '' 0xFf '') ThrowExceptions) 255"
    using string_to_BigInt_correct [OF g, where spaceSeparator = "\<lambda>_. False" and s = "map (\<lambda>c. of_nat (of_char c)) '' 0xFf ''" and errorParseMode = ThrowExceptions]
    by (simp add: simps digitsFor_def maxBitsPerCharTable_def)
  then show "parseInt roomyHeap (\<lambda>_. False) (map (\<lambda>c. of_nat (of_char c)) '' 0xFf '') ThrowExceptions = Inr (posBig [255])"
    by (rule roomyHeap_result) (simp_all add: example_simps)
  have "outcome (\<lambda>e. e = SyntaxError ''Failed to parse String to BigInt'' \<or> oom roomyHeap 1 e) (\<lambda>_. False)
      (parseInt roomyHeap (\<lambda>_. False) (map (\<lambda>c. of_nat (of_char c)) ''1n'') ThrowExceptions)"
    using string_to_BigInt_correct [OF g, where spaceSeparator = "\<lambda>_. False" and s = "map (\<lambda>c. of_nat (of_char c)) ''1n''" and errorParseMode = ThrowExceptions]
    by (simp add: simps digitsFor_def maxBitsPerCharTable_def)
  then show "parseInt roomyHeap (\<lambda>_. False) (map (\<lambda>c. of_nat (of_char c)) ''1n'') ThrowExceptions = Inl (SyntaxError ''Failed to parse String to BigInt'')"
    by (auto simp: oom_def roomyHeap_def grants_def maxLength_eq outcome_def split: sum.splits)
qed

lemma radixDigits_no_sign: "e < 36 \<Longrightarrow> radixDigits ! e \<noteq> 0x2D \<and> radixDigits ! e \<noteq> 0x2B"
  using unat_radixDigits [of e] by (auto simp: word_unat_eq_iff)

lemma stringValue_radixString: "stringValue (isStrWhiteSpace spaceSeparator) (radixString 10 v) = Some v"
proof -
  define space where "space = isStrWhiteSpace spaceSeparator"
  define cs where "cs = map (nth radixDigits) (toRadix 10 (nat \<bar>v\<bar>))"
  have small: "\<forall>d\<in>set (toRadix 10 (nat \<bar>v\<bar>)). d < 36" using toRadix_less [of 10 "nat \<bar>v\<bar>"] by (auto intro: less_trans)
  have all: "\<forall>c\<in>set cs. \<not> space c \<and> c \<noteq> 0x2D \<and> c \<noteq> 0x2B"
    using small radixDigits_not_space radixDigits_no_sign by (auto simp: cs_def space_def)
  have val: "horner 10 0 cs = Some (nat \<bar>v\<bar>)" by (simp add: cs_def horner_toRadix)
  have ne: "cs \<noteq> []" using toRadix_nonempty [of 10 "nat \<bar>v\<bar>"] by (simp add: cs_def)
  have pre: "prefixRadix cs = None"
  proof (cases "v = 0")
    case True
    then show ?thesis by (simp add: cs_def prefixRadix_def toRadix.simps)
  next
    case False
    then have "hd (toRadix 10 (nat \<bar>v\<bar>)) \<noteq> 0" using hd_toRadix [of 10 "nat \<bar>v\<bar>"] by simp
    moreover have "hd (toRadix 10 (nat \<bar>v\<bar>)) < 36" using small toRadix_nonempty [of 10 "nat \<bar>v\<bar>"] hd_in_set by simp
    ultimately have "hd cs \<noteq> 0x30" using radixDigits_zero toRadix_nonempty [of 10 "nat \<bar>v\<bar>"] by (simp add: cs_def hd_map)
    then show ?thesis by (auto simp: prefixRadix_def split: list.splits)
  qed
  have minus: "\<not> space 0x2D" unfolding space_def by (rule ascii_not_space) simp_all
  have dw: "dropWhile space cs = cs" using all ne by (cases cs) auto
  have st: "stripEnd space cs = cs" using all by (simp add: stripEnd_id)
  have hd: "hd cs \<noteq> 0x2D" "hd cs \<noteq> 0x2B" using all ne by (cases cs; auto)+
  show ?thesis
  proof (cases "v < 0")
    case True
    then have "radixString 10 v = 0x2D # cs" by (simp add: radixString_def cs_def)
    moreover have "prefixRadix (0x2D # cs) = None" by (auto simp: prefixRadix_def split: list.splits)
    ultimately show ?thesis using True minus val st by (simp add: stringValue_def space_def [symmetric])
  next
    case False
    then have "radixString 10 v = cs" by (simp add: radixString_def cs_def)
    then show ?thesis using False val st dw pre hd by (simp add: stringValue_def space_def [symmetric])
  qed
qed

lemma parses_same: "parses env L em (Some (bval x)) res \<Longrightarrow> canonical x \<Longrightarrow> outcome (oom env L) (\<lambda>y. y = x) res"
  unfolding parses_def computes_def
  by (auto elim!: outcome_mono simp: represents_def intro: canonical_unique)

lemma print_parse:
  assumes x: "canonical x" "2 \<le> r" "r \<le> 36"
    and parse: "parses env (digitsFor r' (length (radixString r (bval x)))) em (Some (bval x)) (f (radixString r (bval x)))"
  shows "outcome (oom env (max (bigLength x) (digitsFor r' (length (radixString r (bval x)))))) (\<lambda>y. y = x)
    (andThen (toStringBigInt env x r) f)"
proof (rule oom_andThen [OF toStringBigInt_outcome [OF x]])
  fix s assume "s = radixString r (bval x)"
  then show "outcome (oom env (max (bigLength x) (digitsFor r' (length (radixString r (bval x)))))) (\<lambda>y. y = x) (f s)"
    using parses_same [OF parses_mono [OF parse max.cobounded2] x(1)] by simp
qed simp

lemma parseIntRadix_radixString:
  assumes "hasGlobalObject env" and r: "2 \<le> r" "r \<le> 36" and "0 \<le> v"
  shows "parses env (digitsFor r (length (radixString r v))) em (Some v) (parseIntRadix env spaceSeparator (radixString r v) r em Unsigned)"
proof -
  have s: "radixString r v = map (nth radixDigits) (toRadix r (nat v))" using assms(4) by (simp add: radixString_def)
  have ns: "\<forall>c\<in>set (radixString r v). \<not> isStrWhiteSpace spaceSeparator c"
    unfolding s using toRadix_less [OF r(1), of "nat v"] r(2) radixDigits_not_space by (auto intro: less_le_trans)
  have "radixString r v \<noteq> []" unfolding s using toRadix_nonempty [OF r(1)] by simp
  then show ?thesis
    using parseIntFrom_parses [OF r assms(1), of 0 "radixString r v" spaceSeparator em DisallowEmptyString Unsigned] assms(4)
    by (simp add: parseIntRadix_def stripEnd_id [OF ns]) (simp add: s horner_toRadix [OF r] signedValue_def)
qed

text \<open>
  C23. Printing and parsing are inverse: a canonical BigInt printed in base 10 and converted back is the same BigInt, and so
  is a non-negative one printed and parsed in any radix from 2 to 36, unless memory runs out.\<close>
theorem toString_parse_roundtrip:
  assumes "hasGlobalObject env" and "canonical x" and "2 \<le> radix" and "radix \<le> 36"
  shows "outcome (oom env (max (bigLength x) (digitsFor 16 (length (radixString 10 (bval x)))))) (\<lambda>y. y = x)
      (andThen (toStringBigInt env x 10) (\<lambda>s. parseInt env spaceSeparator s errorParseMode))
    \<and> (\<not> m_sign x \<longrightarrow> outcome (oom env (max (bigLength x) (digitsFor radix (length (radixString radix (bval x)))))) (\<lambda>y. y = x)
      (andThen (toStringBigInt env x radix) (\<lambda>s. parseIntRadix env spaceSeparator s radix errorParseMode Unsigned)))"
proof (intro conjI impI)
  show "outcome (oom env (max (bigLength x) (digitsFor 16 (length (radixString 10 (bval x)))))) (\<lambda>y. y = x)
      (andThen (toStringBigInt env x 10) (\<lambda>s. parseInt env spaceSeparator s errorParseMode))"
    using parseInt_parses [OF assms(1), of "radixString 10 (bval x)" errorParseMode spaceSeparator] stringValue_radixString [of spaceSeparator "bval x"]
    by (intro print_parse [OF assms(2), where em = errorParseMode]) simp_all
  assume "\<not> m_sign x"
  then have "0 \<le> bval x" using canonical_sign [OF assms(2)] by simp
  then show "outcome (oom env (max (bigLength x) (digitsFor radix (length (radixString radix (bval x)))))) (\<lambda>y. y = x)
      (andThen (toStringBigInt env x radix) (\<lambda>s. parseIntRadix env spaceSeparator s radix errorParseMode Unsigned))"
    by (intro print_parse [OF assms(2-4), where em = errorParseMode] parseIntRadix_radixString [OF assms(1,3,4)])
qed

text \<open>Witness: a two-digit negative number.\<close>
theorem toString_parse_roundtrip_witness:
  "outcome (oom roomyHeap (max 2 (digitsFor 16 (length (radixString 10 (- 18446744073709551871)))))) (\<lambda>y. y = negBig [255, 1])
     (andThen (toStringBigInt roomyHeap (negBig [255, 1]) 10) (\<lambda>s. parseInt roomyHeap (\<lambda>_. False) s ThrowExceptions))"
proof -
  have "canonical (negBig [255, 1])" "bval (negBig [255, 1]) = - 18446744073709551871" "hasGlobalObject roomyHeap"
    by (simp_all add: example_simps roomyHeap_def)
  then show ?thesis
    using toString_parse_roundtrip [of roomyHeap "negBig [255, 1]" 10 "\<lambda>_. False" ThrowExceptions] by (simp add: numeral_2_eq_2)
qed

text \<open>
  C24. What counts as a numeral is wider than the grammar of the language: a sign without digits, and a prefix
  followed by white space only, are read as zero, although \<^verbatim>\<open>DisallowEmptyString\<close> is there to refuse a prefix without
  digits.\<close>
theorem empty_numerals_accepted:
  assumes "hasGlobalObject env" and "c = 0x2D \<or> c = 0x2B" and "isStrWhiteSpace spaceSeparator w" and "p = 0x62 \<or> p = 0x78 \<or> p = 0x6F"
  shows "computes env (digitsFor 16 1) (parseInt env spaceSeparator [c] errorParseMode) 0
    \<and> computes env (digitsFor 16 3) (parseInt env spaceSeparator [0x30, p, w] errorParseMode) 0
    \<and> outcome (\<lambda>e. parseError errorParseMode e \<or> oom env (digitsFor 16 2) e) (\<lambda>_. False) (parseInt env spaceSeparator [0x30, p] errorParseMode)"
proof -
  define space where "space = isStrWhiteSpace spaceSeparator"
  have sp: "\<not> space c" "\<not> space 0x30" "\<not> space p" "space w"
    unfolding space_def using assms(2-) by (auto simp: ascii_not_space)
  have v: "stringValue space [c] = Some 0" "stringValue space [0x30, p, w] = Some 0" "stringValue space [0x30, p] = None"
    using sp assms(2,4) by (auto simp: stringValue_def prefixRadix_def stripEnd_def)
  show ?thesis
    using parseInt_parses [OF assms(1), of "[c]" errorParseMode spaceSeparator] parseInt_parses [OF assms(1), of "[0x30, p, w]" errorParseMode spaceSeparator]
      parseInt_parses [OF assms(1), of "[0x30, p]" errorParseMode spaceSeparator]
    unfolding space_def [symmetric] v by (simp add: parses_def numeral_2_eq_2 numeral_3_eq_3)
qed

text \<open>Witness: a lone minus sign, and a hexadecimal prefix and a space.\<close>
theorem empty_numerals_accepted_witness:
  "parseInt roomyHeap (\<lambda>_. False) [0x2D] ThrowExceptions = Inr (posBig [])
   \<and> parseInt roomyHeap (\<lambda>_. False) [0x30, 0x78, 0x20] ThrowExceptions = Inr (posBig [])"
proof -
  have g: "hasGlobalObject roomyHeap" and sp: "isStrWhiteSpace (\<lambda>_. False) 0x20"
    by (simp_all add: roomyHeap_def isStrWhiteSpace_def isWhiteSpace_def isWhiteSpaceLatin1_def isLatin1_def)
  have d: "digitsFor 16 1 = 1" "digitsFor 16 3 = 1" by (simp_all add: digitsFor_def maxBitsPerCharTable_def)
  have "computes roomyHeap 1 (parseInt roomyHeap (\<lambda>_. False) [0x2D] ThrowExceptions) 0
      \<and> computes roomyHeap 1 (parseInt roomyHeap (\<lambda>_. False) [0x30, 0x78, 0x20] ThrowExceptions) 0"
    using empty_numerals_accepted [OF g _ sp, where c = "0x2D" and p = "0x78" and errorParseMode = ThrowExceptions] unfolding d by simp
  moreover have "represents (posBig []) 0" "1 \<le> maxLength" by (simp_all add: example_simps)
  ultimately show ?thesis using roomyHeap_result by blast
qed

end
