(* ===== verification/JS_Operators.thy ===== *)
theory JS_Operators
  imports JS_Number BigInt_Bits_API BigInt_AsN BigInt_Parse
begin

text \<open>
  The operators of the language on arbitrary values (\<^verbatim>\<open>runtime/Operations.h\<close> and \<^verbatim>\<open>Operations.cpp\<close>, the conversions of
  \<^verbatim>\<open>runtime/JSCJSValue.cpp\<close> and \<^verbatim>\<open>runtime/JSCJSValueInlines.h\<close>, the slow path of negation) and the functions of the \<^verbatim>\<open>BigInt\<close> object
  (\<^verbatim>\<open>runtime/BigIntConstructor.cpp\<close>, \<^verbatim>\<open>runtime/BigIntPrototype.cpp\<close>). They dispatch on the kinds of their operands to the BigInt code.

  A value is a primitive value or an object. Converting an object to a primitive value runs the program's own code and is a parameter, as are
  the floating-point operations of the machine and the conversions between strings and doubles.
\<close>


section \<open>Values\<close>

datatype PreferredPrimitiveType = NoPreference | PreferNumber | PreferString

datatype jsPrimitive =
    JsUndefined
  | JsNull
  | JsBoolean bool
  | JsInt32 "32 word"
  | JsDouble double
  | JsString "uchar list"
  | JsSymbol nat
  | JsBigInt jsBigInt

datatype jsValue = Primitive jsPrimitive | JsObject nat

record js_host =
  bigIntEnv :: js_env
  objectToPrimitive :: "nat \<Rightarrow> PreferredPrimitiveType \<Rightarrow> (js_error, jsPrimitive) result"
  masqueradesAsUndefined :: "nat \<Rightarrow> bool"
  bigIntObject :: "nat \<Rightarrow> jsBigInt option"
  jsToNumber :: "uchar list \<Rightarrow> double"
  numericString :: "double \<Rightarrow> uchar list"
  spaceSeparators :: "uchar \<Rightarrow> bool"
  castOutOfRange :: "double \<Rightarrow> 32 word"
  allocatesString :: "nat \<Rightarrow> bool"
  doubleAdd :: "double \<Rightarrow> double \<Rightarrow> double"
  doubleSub :: "double \<Rightarrow> double \<Rightarrow> double"
  doubleMul :: "double \<Rightarrow> double \<Rightarrow> double"
  doubleDiv :: "double \<Rightarrow> double \<Rightarrow> double"
  fmodDouble :: "double \<Rightarrow> double \<Rightarrow> double"
  operationMathPow :: "double \<Rightarrow> double \<Rightarrow> double"

fun primIsNumber :: "jsPrimitive \<Rightarrow> bool" where
  "primIsNumber (JsInt32 _) \<longleftrightarrow> True"
| "primIsNumber (JsDouble _) \<longleftrightarrow> True"
| "primIsNumber _ \<longleftrightarrow> False"

fun primIsBigInt :: "jsPrimitive \<Rightarrow> bool" where
  "primIsBigInt (JsBigInt _) \<longleftrightarrow> True"
| "primIsBigInt _ \<longleftrightarrow> False"

fun primIsString :: "jsPrimitive \<Rightarrow> bool" where
  "primIsString (JsString _) \<longleftrightarrow> True"
| "primIsString _ \<longleftrightarrow> False"

fun primIsBoolean :: "jsPrimitive \<Rightarrow> bool" where
  "primIsBoolean (JsBoolean _) \<longleftrightarrow> True"
| "primIsBoolean _ \<longleftrightarrow> False"

fun asNumber :: "jsPrimitive \<Rightarrow> (js_error, double) result" where
  "asNumber (JsInt32 i) = Inr (int32ToDouble i)"
| "asNumber (JsDouble d) = Inr d"
| "asNumber _ = Inl AssertionFailed"

text \<open>\<^verbatim>\<open>jsNumber(double)\<close>.\<close>

definition jsNumber :: "js_host \<Rightarrow> double \<Rightarrow> (js_error, jsPrimitive) result" where
  "jsNumber host d =
     andThen (assertThat (\<not> isImpureNaN d)) (\<lambda>_.
     Inr (if canBeStrictInt32 (castOutOfRange host) d then JsInt32 (castToInt32 (castOutOfRange host) d) else JsDouble d))"


section \<open>Conversions\<close>

definition toPrimitive :: "js_host \<Rightarrow> jsValue \<Rightarrow> PreferredPrimitiveType \<Rightarrow> (js_error, jsPrimitive) result" where
  "toPrimitive host v preferredType = (case v of Primitive p \<Rightarrow> Inr p | JsObject n \<Rightarrow> objectToPrimitive host n preferredType)"

fun primToNumber :: "js_host \<Rightarrow> jsPrimitive \<Rightarrow> (js_error, double) result" where
  "primToNumber host (JsInt32 i) = Inr (int32ToDouble i)"
| "primToNumber host (JsDouble d) = Inr d"
| "primToNumber host (JsBoolean b) = Inr (if b then 0x3FF0000000000000 else 0)"
| "primToNumber host JsUndefined = Inr pureNaN"
| "primToNumber host JsNull = Inr 0"
| "primToNumber host (JsString s) = Inr (jsToNumber host s)"
| "primToNumber host (JsSymbol _) = Inl (TypeError ''Cannot convert a symbol to a number'')"
| "primToNumber host (JsBigInt _) = Inl (TypeError ''Conversion from 'BigInt' to 'number' is not allowed.'')"

definition toNumber :: "js_host \<Rightarrow> jsValue \<Rightarrow> (js_error, double) result" where
  "toNumber host v = andThen (toPrimitive host v PreferNumber) (primToNumber host)"

definition toNumeric :: "js_host \<Rightarrow> jsValue \<Rightarrow> (js_error, jsPrimitive) result" where
  "toNumeric host v =
     (case v of
        Primitive (JsInt32 i) \<Rightarrow> Inr (JsInt32 i)
      | Primitive (JsDouble d) \<Rightarrow> Inr (JsDouble d)
      | Primitive (JsBigInt x) \<Rightarrow> Inr (JsBigInt x)
      | _ \<Rightarrow>
          andThen (toPrimitive host v PreferNumber) (\<lambda>primValue.
          case primValue of
            JsDouble d \<Rightarrow> Inr (JsDouble d)
          | JsBigInt x \<Rightarrow> Inr (JsBigInt x)
          | _ \<Rightarrow> andThen (primToNumber host primValue) (jsNumber host)))"

fun primToInt32 :: "js_host \<Rightarrow> jsPrimitive \<Rightarrow> (js_error, 32 word) result" where
  "primToInt32 host (JsInt32 i) = Inr i"
| "primToInt32 host p = andThen (primToNumber host p) toInt32"

definition toBigIntOrInt32 :: "js_host \<Rightarrow> jsValue \<Rightarrow> (js_error, jsPrimitive) result" where
  "toBigIntOrInt32 host v =
     (let general = andThen (toPrimitive host v PreferNumber) (\<lambda>primValue.
            case primValue of
              JsInt32 i \<Rightarrow> Inr (JsInt32 i)
            | JsBigInt x \<Rightarrow> Inr (JsBigInt x)
            | _ \<Rightarrow> andThen (primToInt32 host primValue) (\<lambda>i. Inr (JsInt32 i)))
      in case v of
        Primitive (JsInt32 i) \<Rightarrow> Inr (JsInt32 i)
      | Primitive (JsBigInt x) \<Rightarrow> Inr (JsBigInt x)
      | Primitive (JsDouble d) \<Rightarrow>
          (if canBeInt32 (castOutOfRange host) d then Inr (JsInt32 (castToInt32 (castOutOfRange host) d)) else general)
      | _ \<Rightarrow> general)"

definition toUInt32AfterToNumeric :: "js_host \<Rightarrow> jsValue \<Rightarrow> (js_error, 32 word option) result" where
  "toUInt32AfterToNumeric host v =
     andThen (toBigIntOrInt32 host v) (\<lambda>result. Inr (case result of JsInt32 i \<Rightarrow> Some i | _ \<Rightarrow> None))"

fun primToBigInt :: "js_host \<Rightarrow> jsPrimitive \<Rightarrow> (js_error, jsBigInt) result" where
  "primToBigInt host (JsBigInt x) = Inr x"
| "primToBigInt host (JsBoolean b) = createFromBool (bigIntEnv host) b"
| "primToBigInt host (JsString s) = parseInt (bigIntEnv host) (spaceSeparators host) s ThrowExceptions"
| "primToBigInt host _ = Inl (TypeError ''Invalid argument type in ToBigInt operation'')"

definition toBigInt :: "js_host \<Rightarrow> jsValue \<Rightarrow> (js_error, jsBigInt) result" where
  "toBigInt host v = andThen (toPrimitive host v PreferNumber) (primToBigInt host)"

text \<open>\<^verbatim>\<open>toString\<close> and \<^verbatim>\<open>toWTFString\<close> of a primitive value.\<close>

fun primToString :: "js_host \<Rightarrow> jsPrimitive \<Rightarrow> (js_error, uchar list) result" where
  "primToString host (JsString s) = Inr s"
| "primToString host (JsInt32 i) = Inr (numericString host (int32ToDouble i))"
| "primToString host (JsDouble d) = Inr (numericString host d)"
| "primToString host (JsBoolean b) = Inr (map of_char (if b then ''true'' else ''false''))"
| "primToString host JsNull = Inr (map of_char ''null'')"
| "primToString host JsUndefined = Inr (map of_char ''undefined'')"
| "primToString host (JsBigInt x) = toStringBigInt (bigIntEnv host) x 10"
| "primToString host (JsSymbol _) = Inl (TypeError ''Cannot convert a symbol to a string'')"

definition toIndex :: "js_host \<Rightarrow> jsValue \<Rightarrow> string \<Rightarrow> (js_error, 32 word) result" where
  "toIndex host v errorName =
     andThen (toNumber host v) (\<lambda>d.
     if doubleLess d 0xBFF0000000000000 \<or> doubleEqual d 0xBFF0000000000000 then Inl (RangeError (errorName @ '' cannot be negative''))
     else case v of
       Primitive (JsInt32 i) \<Rightarrow> Inr i
     | _ \<Rightarrow> if doubleLess 0x41EFFFFFFFE00000 d then Inl (RangeError (errorName @ '' too large'')) else toInt32 d)"


section \<open>Comparison\<close>

definition compareBigInt :: "jsBigInt \<Rightarrow> jsBigInt \<Rightarrow> ComparisonResult" where
  "compareBigInt left right = compareImpl (HeapBigIntImpl left) (HeapBigIntImpl right)"

text \<open>\<open>NullResult\<close> is the empty value that \<^verbatim>\<open>stringToBigInt\<close> returns for a string that is not a numeral.\<close>

fun compareBigIntToOtherPrimitive :: "js_host \<Rightarrow> jsBigInt \<Rightarrow> jsPrimitive \<Rightarrow> (js_error, ComparisonResult) result" where
  "compareBigIntToOtherPrimitive host v1 (JsBigInt _) = Inl AssertionFailed"
| "compareBigIntToOtherPrimitive host v1 (JsString s) =
     (case stringToBigInt (bigIntEnv host) (spaceSeparators host) s of
        Inl NullResult \<Rightarrow> Inr Undefined
      | Inl e \<Rightarrow> Inl e
      | Inr bigIntValue \<Rightarrow> Inr (compareBigInt v1 bigIntValue))"
| "compareBigIntToOtherPrimitive host v1 primValue = andThen (primToNumber host primValue) (compareToDouble v1)"

datatype ComparisonMode = LessThanMode | LessThanOrEqualMode

definition bigIntCompareResult :: "ComparisonResult \<Rightarrow> ComparisonMode \<Rightarrow> bool" where
  "bigIntCompareResult comparisonResult comparisonMode =
     (case comparisonMode of
        LessThanMode \<Rightarrow> comparisonResult = LessThan
      | LessThanOrEqualMode \<Rightarrow> comparisonResult = LessThan \<or> comparisonResult = Equal)"

fun bigIntCompare :: "js_host \<Rightarrow> jsPrimitive \<Rightarrow> jsPrimitive \<Rightarrow> ComparisonMode \<Rightarrow> (js_error, bool) result" where
  "bigIntCompare host (JsBigInt x) (JsBigInt y) mode = Inr (bigIntCompareResult (compareBigInt x y) mode)"
| "bigIntCompare host (JsBigInt x) v2 mode =
     andThen (compareBigIntToOtherPrimitive host x v2) (\<lambda>r. Inr (bigIntCompareResult r mode))"
| "bigIntCompare host v1 (JsBigInt y) mode =
     andThen (compareBigIntToOtherPrimitive host y v1) (\<lambda>r. Inr (bigIntCompareResult (invertBigIntCompareResult r) mode))"
| "bigIntCompare host v1 v2 mode = Inl AssertionFailed"

text \<open>\<^verbatim>\<open>codePointCompareLessThan\<close>: the code units are compared in order.\<close>

fun codePointCompareLessThan :: "uchar list \<Rightarrow> uchar list \<Rightarrow> bool" where
  "codePointCompareLessThan (a # s1) (b # s2) = (if a = b then codePointCompareLessThan s1 s2 else a < b)"
| "codePointCompareLessThan s1 s2 = (length s1 < length s2)"

text \<open>Whether the value is not a string, the primitive value, and its number unless it is a BigInt.\<close>

definition toPrimitiveNumeric :: "js_host \<Rightarrow> jsValue \<Rightarrow> (js_error, bool \<times> jsPrimitive \<times> double) result" where
  "toPrimitiveNumeric host v =
     andThen (toPrimitive host v PreferNumber) (\<lambda>p.
     if primIsBigInt p then Inr (True, p, 0)
     else andThen (primToNumber host p) (\<lambda>n. Inr (\<not> primIsString p, p, n)))"

text \<open>The two conversions in the order that the flag \<^verbatim>\<open>leftFirst\<close> asks for.\<close>

definition operandsNumeric :: "js_host \<Rightarrow> bool \<Rightarrow> jsValue \<Rightarrow> jsValue \<Rightarrow>
    (js_error, (bool \<times> jsPrimitive \<times> double) \<times> (bool \<times> jsPrimitive \<times> double)) result" where
  "operandsNumeric host leftFirst v1 v2 =
     (if leftFirst
      then andThen (toPrimitiveNumeric host v1) (\<lambda>a. andThen (toPrimitiveNumeric host v2) (\<lambda>b. Inr (a, b)))
      else andThen (toPrimitiveNumeric host v2) (\<lambda>b. andThen (toPrimitiveNumeric host v1) (\<lambda>a. Inr (a, b))))"

text \<open>The value of a primitive value that is a string.\<close>

fun asString :: "jsPrimitive \<Rightarrow> (js_error, uchar list) result" where
  "asString (JsString s) = Inr s"
| "asString _ = Inl AssertionFailed"

text \<open>The operands are converted; a BigInt is compared exactly, numbers as doubles, and two strings as strings.\<close>

definition compareOperands :: "js_host \<Rightarrow> bool \<Rightarrow> jsValue \<Rightarrow> jsValue \<Rightarrow> ComparisonMode \<Rightarrow> (double \<Rightarrow> double \<Rightarrow> bool) \<Rightarrow>
    (uchar list \<Rightarrow> uchar list \<Rightarrow> bool) \<Rightarrow> (js_error, bool) result" where
  "compareOperands host leftFirst v1 v2 mode numbers strings =
     andThen (operandsNumeric host leftFirst v1 v2) (\<lambda>((wasNotString1, p1, n1), (wasNotString2, p2, n2)).
     if wasNotString1 \<or> wasNotString2
     then if primIsBigInt p1 \<or> primIsBigInt p2 then bigIntCompare host p1 p2 mode else Inr (numbers n1 n2)
     else andThen (asString p1) (\<lambda>s1. andThen (asString p2) (\<lambda>s2. Inr (strings s1 s2))))"

definition jsLess :: "js_host \<Rightarrow> bool \<Rightarrow> jsValue \<Rightarrow> jsValue \<Rightarrow> (js_error, bool) result" where
  "jsLess host leftFirst v1 v2 =
     (case (v1, v2) of
        (Primitive (JsInt32 i), Primitive (JsInt32 j)) \<Rightarrow> Inr (i <s j)
      | (Primitive (JsInt32 i), Primitive (JsDouble b)) \<Rightarrow> Inr (doubleLess (int32ToDouble i) b)
      | (Primitive (JsDouble a), Primitive (JsInt32 j)) \<Rightarrow> Inr (doubleLess a (int32ToDouble j))
      | (Primitive (JsDouble a), Primitive (JsDouble b)) \<Rightarrow> Inr (doubleLess a b)
      | (Primitive (JsString s1), Primitive (JsString s2)) \<Rightarrow> Inr (codePointCompareLessThan s1 s2)
      | _ \<Rightarrow> compareOperands host leftFirst v1 v2 LessThanMode doubleLess codePointCompareLessThan)"

text \<open>\<^verbatim>\<open><=\<close> on doubles.\<close>

definition doubleLessEq :: "double \<Rightarrow> double \<Rightarrow> bool" where
  "doubleLessEq a b \<longleftrightarrow> doubleLess a b \<or> doubleEqual a b"

definition jsLessEq :: "js_host \<Rightarrow> bool \<Rightarrow> jsValue \<Rightarrow> jsValue \<Rightarrow> (js_error, bool) result" where
  "jsLessEq host leftFirst v1 v2 =
     (case (v1, v2) of
        (Primitive (JsInt32 i), Primitive (JsInt32 j)) \<Rightarrow> Inr (i \<le>s j)
      | (Primitive (JsInt32 i), Primitive (JsDouble b)) \<Rightarrow> Inr (doubleLessEq (int32ToDouble i) b)
      | (Primitive (JsDouble a), Primitive (JsInt32 j)) \<Rightarrow> Inr (doubleLessEq a (int32ToDouble j))
      | (Primitive (JsDouble a), Primitive (JsDouble b)) \<Rightarrow> Inr (doubleLessEq a b)
      | (Primitive (JsString s1), Primitive (JsString s2)) \<Rightarrow> Inr (\<not> codePointCompareLessThan s2 s1)
      | _ \<Rightarrow> compareOperands host leftFirst v1 v2 LessThanOrEqualMode doubleLessEq (\<lambda>s1 s2. \<not> codePointCompareLessThan s2 s1))"


section \<open>Equality\<close>

text \<open>
  Equality of primitive values, \<^verbatim>\<open>equalSlowCaseInline\<close> without its cases for objects. Equal pointers point to equal strings and equal BigInts, so
  only symbols need the comparison of pointers.
\<close>

definition numberValueOf :: "jsPrimitive \<Rightarrow> (js_error, numberValue) result" where
  "numberValueOf p = (case p of JsInt32 i \<Rightarrow> Inr (Int32Value i) | JsDouble d \<Rightarrow> Inr (DoubleValue d) | _ \<Rightarrow> Inl AssertionFailed)"

text \<open>The end of the function: BigInts with BigInts and numbers.\<close>

fun equalBigInt :: "jsPrimitive \<Rightarrow> jsPrimitive \<Rightarrow> (js_error, bool) result" where
  "equalBigInt (JsBigInt x) (JsBigInt y) = Inr (equals x y)"
| "equalBigInt (JsBigInt x) v2 = (if primIsNumber v2 then andThen (numberValueOf v2) (equalsToNumber x) else Inr False)"
| "equalBigInt v1 v2 = Inr False"

text \<open>The cases with booleans and what follows.\<close>

fun equalBoolean :: "js_host \<Rightarrow> jsPrimitive \<Rightarrow> jsPrimitive \<Rightarrow> (js_error, bool) result" where
  "equalBoolean host (JsBoolean b) v2 =
     (if primIsNumber v2 then andThen (asNumber v2) (\<lambda>n. Inr (doubleEqual (if b then 0x3FF0000000000000 else 0) n))
      else andThen (andThen (primToNumber host (JsBoolean b)) (jsNumber host)) (\<lambda>v1. equalBigInt v2 v1))"
| "equalBoolean host v1 (JsBoolean b) = andThen (andThen (primToNumber host (JsBoolean b)) (jsNumber host)) (\<lambda>v2. equalBigInt v1 v2)"
| "equalBoolean host v1 v2 = equalBigInt v1 v2"

text \<open>A value that is not a string with a string.\<close>

fun equalString :: "js_host \<Rightarrow> jsPrimitive \<Rightarrow> uchar list \<Rightarrow> (js_error, bool) result" where
  "equalString host (JsBigInt x) s =
     (case stringToBigInt (bigIntEnv host) (spaceSeparators host) s of
        Inl NullResult \<Rightarrow> Inr False
      | Inl e \<Rightarrow> Inl e
      | Inr y \<Rightarrow> equalBoolean host (JsBigInt x) (JsBigInt y))"
| "equalString host v1 s =
     (if primIsNumber v1 \<or> primIsBoolean v1
      then andThen (primToNumber host v1) (\<lambda>d1. andThen (primToNumber host (JsString s)) (\<lambda>d2. Inr (doubleEqual d1 d2)))
      else Inl AssertionFailed)"

definition equalPrimitives :: "js_host \<Rightarrow> jsPrimitive \<Rightarrow> jsPrimitive \<Rightarrow> (js_error, bool) result" where
  "equalPrimitives host v1 v2 =
     (if primIsNumber v1 \<and> primIsNumber v2 then andThen (asNumber v1) (\<lambda>a. andThen (asNumber v2) (\<lambda>b. Inr (doubleEqual a b)))
      else let (v1, v2) = (if primIsNumber v1 then (v2, v1) else (v1, v2))
      in case (v1, v2) of
        (JsBoolean b, JsBoolean c) \<Rightarrow> if b = c then Inr True else equalBoolean host v1 v2
      | (JsSymbol a, JsSymbol b) \<Rightarrow> Inr (a = b)
      | (JsString s, JsString s') \<Rightarrow> Inr (s = s')
      | (JsUndefined, _) \<Rightarrow> Inr (v2 = JsUndefined \<or> v2 = JsNull)
      | (JsNull, _) \<Rightarrow> Inr (v2 = JsUndefined \<or> v2 = JsNull)
      | (_, JsUndefined) \<Rightarrow> Inr False
      | (_, JsNull) \<Rightarrow> Inr False
      | (JsSymbol _, _) \<Rightarrow> Inr False
      | (_, JsSymbol _) \<Rightarrow> Inr False
      | (JsString s, _) \<Rightarrow> equalString host v2 s
      | (_, JsString s) \<Rightarrow> equalString host v1 s
      | _ \<Rightarrow> equalBoolean host v1 v2)"

text \<open>With objects: after an object has been converted the loop starts again with primitive values.\<close>

definition jsEqual :: "js_host \<Rightarrow> jsValue \<Rightarrow> jsValue \<Rightarrow> (js_error, bool) result" where
  "jsEqual host v1 v2 =
     (case (v1, v2) of
        (Primitive p1, Primitive p2) \<Rightarrow> equalPrimitives host p1 p2
      | (JsObject m, JsObject n) \<Rightarrow> Inr (m = n)
      | (JsObject m, Primitive p) \<Rightarrow>
          if p = JsUndefined \<or> p = JsNull then Inr (masqueradesAsUndefined host m)
          else andThen (toPrimitive host v1 NoPreference) (\<lambda>p1. equalPrimitives host p1 p)
      | (Primitive p, JsObject n) \<Rightarrow>
          if p = JsUndefined \<or> p = JsNull then Inr (masqueradesAsUndefined host n)
          else andThen (toPrimitive host v2 NoPreference) (\<lambda>p2. equalPrimitives host p p2))"

definition strictEqual :: "jsValue \<Rightarrow> jsValue \<Rightarrow> (js_error, bool) result" where
  "strictEqual v1 v2 =
     (case (v1, v2) of
        (Primitive (JsInt32 i), Primitive (JsInt32 j)) \<Rightarrow> Inr (i = j)
      | (Primitive (JsString s), Primitive (JsString s')) \<Rightarrow> Inr (s = s')
      | (Primitive (JsBigInt x), Primitive (JsBigInt y)) \<Rightarrow> Inr (equals x y)
      | (Primitive p1, Primitive p2) \<Rightarrow>
          if primIsNumber p1 \<and> primIsNumber p2 then andThen (asNumber p1) (\<lambda>a. andThen (asNumber p2) (\<lambda>b. Inr (doubleEqual a b)))
          else Inr (p1 = p2)
      | _ \<Rightarrow> Inr (v1 = v2))"

definition sameValue :: "jsValue \<Rightarrow> jsValue \<Rightarrow> (js_error, bool) result" where
  "sameValue a b =
     (case (a, b) of
        (Primitive p, Primitive q) \<Rightarrow>
          if \<not> primIsNumber p then strictEqual a b
          else if \<not> primIsNumber q then Inr False
          else andThen (asNumber p) (\<lambda>x. andThen (asNumber q) (\<lambda>y.
               if isNaN x \<or> isNaN y then Inr (isNaN x \<and> isNaN y) else Inr (x = y)))
      | _ \<Rightarrow> if (case a of Primitive p \<Rightarrow> primIsNumber p | _ \<Rightarrow> False) then Inr False else strictEqual a b)"


section \<open>Arithmetic\<close>

text \<open>The result of a BigInt operation as a value.\<close>

definition bigIntResult :: "(js_error, jsBigInt) result \<Rightarrow> (js_error, jsPrimitive) result" where
  "bigIntResult r = andThen r (\<lambda>x. Inr (JsBigInt x))"

definition arithmeticBinaryOp :: "js_host \<Rightarrow> jsValue \<Rightarrow> jsValue \<Rightarrow> (double \<Rightarrow> double \<Rightarrow> double) \<Rightarrow>
    (js_env \<Rightarrow> jsBigInt \<Rightarrow> jsBigInt \<Rightarrow> (js_error, jsBigInt) result) \<Rightarrow> string \<Rightarrow> (js_error, jsPrimitive) result" where
  "arithmeticBinaryOp host v1 v2 doubleOp bigIntOp errorMessage =
     andThen (toNumeric host v1) (\<lambda>leftNumeric.
     andThen (toNumeric host v2) (\<lambda>rightNumeric.
     if primIsNumber leftNumeric \<and> primIsNumber rightNumeric
     then andThen (asNumber leftNumeric) (\<lambda>a. andThen (asNumber rightNumeric) (\<lambda>b. jsNumber host (doubleOp a b)))
     else case (leftNumeric, rightNumeric) of
       (JsBigInt x, JsBigInt y) \<Rightarrow> bigIntResult (bigIntOp (bigIntEnv host) x y)
     | _ \<Rightarrow> Inl (TypeError errorMessage)))"

definition jsSub :: "js_host \<Rightarrow> jsValue \<Rightarrow> jsValue \<Rightarrow> (js_error, jsPrimitive) result" where
  "jsSub host v1 v2 = arithmeticBinaryOp host v1 v2 (doubleSub host) subBigInt ''Invalid mix of BigInt and other type in subtraction.''"

definition jsMul :: "js_host \<Rightarrow> jsValue \<Rightarrow> jsValue \<Rightarrow> (js_error, jsPrimitive) result" where
  "jsMul host v1 v2 = arithmeticBinaryOp host v1 v2 (doubleMul host) multiplyBigInt ''Invalid mix of BigInt and other type in multiplication.''"

definition jsDiv :: "js_host \<Rightarrow> jsValue \<Rightarrow> jsValue \<Rightarrow> (js_error, jsPrimitive) result" where
  "jsDiv host v1 v2 = arithmeticBinaryOp host v1 v2 (doubleDiv host) divideBigInt ''Invalid mix of BigInt and other type in division.''"

definition jsRemainder :: "js_host \<Rightarrow> jsValue \<Rightarrow> jsValue \<Rightarrow> (js_error, jsPrimitive) result" where
  "jsRemainder host v1 v2 = arithmeticBinaryOp host v1 v2 (fmodDouble host) remainderBigInt ''Invalid mix of BigInt and other type in remainder.''"

definition jsPow :: "js_host \<Rightarrow> jsValue \<Rightarrow> jsValue \<Rightarrow> (js_error, jsPrimitive) result" where
  "jsPow host v1 v2 = arithmeticBinaryOp host v1 v2 (operationMathPow host) exponentiateBigInt ''Invalid mix of BigInt and other type in exponentiation.''"

definition jsInc :: "js_host \<Rightarrow> jsValue \<Rightarrow> (js_error, jsPrimitive) result" where
  "jsInc host v =
     andThen (toNumeric host v) (\<lambda>operandNumeric.
     if primIsNumber operandNumeric then andThen (asNumber operandNumeric) (\<lambda>n. jsNumber host (doubleAdd host n 0x3FF0000000000000))
     else case operandNumeric of JsBigInt x \<Rightarrow> bigIntResult (incBigInt (bigIntEnv host) x) | _ \<Rightarrow> Inl AssertionFailed)"

definition jsDec :: "js_host \<Rightarrow> jsValue \<Rightarrow> (js_error, jsPrimitive) result" where
  "jsDec host v =
     andThen (toNumeric host v) (\<lambda>operandNumeric.
     if primIsNumber operandNumeric then andThen (asNumber operandNumeric) (\<lambda>n. jsNumber host (doubleSub host n 0x3FF0000000000000))
     else case operandNumeric of JsBigInt x \<Rightarrow> bigIntResult (decBigInt (bigIntEnv host) x) | _ \<Rightarrow> Inl AssertionFailed)"

text \<open>The slow path of negation; negating a double flips its sign bit.\<close>

definition slow_path_negate :: "js_host \<Rightarrow> jsValue \<Rightarrow> (js_error, jsPrimitive) result" where
  "slow_path_negate host operand =
     andThen (toPrimitive host operand PreferNumber) (\<lambda>primValue.
     case primValue of
       JsBigInt x \<Rightarrow> bigIntResult (unaryMinusBigInt (bigIntEnv host) x)
     | _ \<Rightarrow> andThen (primToNumber host primValue) (\<lambda>n. jsNumber host (doubleNegate n)))"

text \<open>Concatenation: a rope or a new string, or an error when the lengths do not fit.\<close>

definition jsString :: "js_host \<Rightarrow> uchar list \<Rightarrow> uchar list \<Rightarrow> (js_error, uchar list) result" where
  "jsString host s1 s2 =
     (if s1 = [] then Inr s2
      else if s2 = [] then Inr s1
      else case sumOverflows True int32 uint32 (int (length s1)) [int (length s2)] of
        Inl _ \<Rightarrow> Inl AssertionFailed
      | Inr overflows \<Rightarrow>
          if overflows \<or> \<not> allocatesString host (length s1 + length s2) then throwOutOfMemoryError (bigIntEnv host) '''' else Inr (s1 @ s2))"

definition jsAddSlowCase :: "js_host \<Rightarrow> jsValue \<Rightarrow> jsValue \<Rightarrow> (js_error, jsPrimitive) result" where
  "jsAddSlowCase host v1 v2 =
     andThen (toPrimitive host v1 NoPreference) (\<lambda>p1.
     andThen (toPrimitive host v2 NoPreference) (\<lambda>p2.
     if primIsString p1 \<or> primIsString p2
     then andThen (primToString host p1) (\<lambda>s1. andThen (primToString host p2) (\<lambda>s2. andThen (jsString host s1 s2) (\<lambda>s. Inr (JsString s))))
     else arithmeticBinaryOp host (Primitive p1) (Primitive p2) (doubleAdd host) addBigInt ''Invalid mix of BigInt and other type in addition.''))"

definition jsAddNonNumber :: "js_host \<Rightarrow> jsValue \<Rightarrow> jsValue \<Rightarrow> (js_error, jsPrimitive) result" where
  "jsAddNonNumber host v1 v2 =
     (case (v1, v2) of
        (Primitive (JsString s1), Primitive p2) \<Rightarrow>
          andThen (primToString host p2) (\<lambda>s2. andThen (jsString host s1 s2) (\<lambda>s. Inr (JsString s)))
      | _ \<Rightarrow> jsAddSlowCase host v1 v2)"

definition jsAdd :: "js_host \<Rightarrow> jsValue \<Rightarrow> jsValue \<Rightarrow> (js_error, jsPrimitive) result" where
  "jsAdd host v1 v2 =
     (case (v1, v2) of
        (Primitive p1, Primitive p2) \<Rightarrow>
          if primIsNumber p1 \<and> primIsNumber p2
          then andThen (asNumber p1) (\<lambda>a. andThen (asNumber p2) (\<lambda>b. jsNumber host (doubleAdd host a b)))
          else jsAddNonNumber host v1 v2
      | _ \<Rightarrow> jsAddNonNumber host v1 v2)"


section \<open>Bitwise operators\<close>

definition jsBitwiseNot :: "js_host \<Rightarrow> jsValue \<Rightarrow> (js_error, jsPrimitive) result" where
  "jsBitwiseNot host v =
     andThen (toBigIntOrInt32 host v) (\<lambda>operandNumeric.
     case operandNumeric of
       JsInt32 i \<Rightarrow> Inr (JsInt32 (NOT i))
     | JsBigInt x \<Rightarrow> bigIntResult (bitwiseNotBigInt (bigIntEnv host) x)
     | _ \<Rightarrow> Inl AssertionFailed)"

definition shiftOp :: "js_host \<Rightarrow> bool \<Rightarrow> jsValue \<Rightarrow> jsValue \<Rightarrow> (js_error, jsPrimitive) result" where
  "shiftOp host isLeft v1 v2 =
     andThen (toBigIntOrInt32 host v1) (\<lambda>leftNumeric.
     andThen (toBigIntOrInt32 host v2) (\<lambda>rightNumeric.
     case (leftNumeric, rightNumeric) of
       (JsInt32 leftInt32, JsInt32 right) \<Rightarrow>
         let rightInt32 = unat (right AND 31)
         in Inr (JsInt32 (if isLeft then push_bit rightInt32 leftInt32 else signed_drop_bit rightInt32 leftInt32))
     | (JsBigInt x, JsBigInt y) \<Rightarrow>
         bigIntResult (if isLeft then leftShiftBigInt (bigIntEnv host) x y else signedRightShiftBigInt (bigIntEnv host) x y)
     | _ \<Rightarrow> Inl (TypeError (if isLeft then ''Invalid mix of BigInt and other type in left shift operation.''
                        else ''Invalid mix of BigInt and other type in signed right shift operation.''))))"

definition jsLShift :: "js_host \<Rightarrow> jsValue \<Rightarrow> jsValue \<Rightarrow> (js_error, jsPrimitive) result" where
  "jsLShift host v1 v2 = shiftOp host True v1 v2"

definition jsRShift :: "js_host \<Rightarrow> jsValue \<Rightarrow> jsValue \<Rightarrow> (js_error, jsPrimitive) result" where
  "jsRShift host v1 v2 = shiftOp host False v1 v2"

definition jsURShift :: "js_host \<Rightarrow> jsValue \<Rightarrow> jsValue \<Rightarrow> (js_error, jsPrimitive) result" where
  "jsURShift host left right =
     andThen (toUInt32AfterToNumeric host left) (\<lambda>leftUint32.
     andThen (toUInt32AfterToNumeric host right) (\<lambda>rightUint32.
     case (leftUint32, rightUint32) of
       (Some l, Some r) \<Rightarrow> Inr (JsInt32 (drop_bit (unat (r AND 31)) l))
     | _ \<Rightarrow> Inl (TypeError ''BigInt does not support >>> operator'')))"

definition bitwiseBinaryOp :: "js_host \<Rightarrow> jsValue \<Rightarrow> jsValue \<Rightarrow> (32 word \<Rightarrow> 32 word \<Rightarrow> 32 word) \<Rightarrow>
    (js_env \<Rightarrow> jsBigInt \<Rightarrow> jsBigInt \<Rightarrow> (js_error, jsBigInt) result) \<Rightarrow> string \<Rightarrow> (js_error, jsPrimitive) result" where
  "bitwiseBinaryOp host v1 v2 int32Op bigIntOp errorMessage =
     andThen (toBigIntOrInt32 host v1) (\<lambda>leftNumeric.
     andThen (toBigIntOrInt32 host v2) (\<lambda>rightNumeric.
     case (leftNumeric, rightNumeric) of
       (JsInt32 i, JsInt32 j) \<Rightarrow> Inr (JsInt32 (int32Op i j))
     | (JsBigInt x, JsBigInt y) \<Rightarrow> bigIntResult (bigIntOp (bigIntEnv host) x y)
     | _ \<Rightarrow> Inl (TypeError errorMessage)))"

definition jsBitwiseAnd :: "js_host \<Rightarrow> jsValue \<Rightarrow> jsValue \<Rightarrow> (js_error, jsPrimitive) result" where
  "jsBitwiseAnd host v1 v2 = bitwiseBinaryOp host v1 v2 (AND) bitwiseAndBigInt ''Invalid mix of BigInt and other type in bitwise 'and' operation.''"

definition jsBitwiseOr :: "js_host \<Rightarrow> jsValue \<Rightarrow> jsValue \<Rightarrow> (js_error, jsPrimitive) result" where
  "jsBitwiseOr host v1 v2 = bitwiseBinaryOp host v1 v2 (OR) bitwiseOrBigInt ''Invalid mix of BigInt and other type in bitwise 'or' operation.''"

definition jsBitwiseXor :: "js_host \<Rightarrow> jsValue \<Rightarrow> jsValue \<Rightarrow> (js_error, jsPrimitive) result" where
  "jsBitwiseXor host v1 v2 = bitwiseBinaryOp host v1 v2 (XOR) bitwiseXorBigInt ''Invalid mix of BigInt and other type in bitwise 'xor' operation.''"


section \<open>The BigInt object\<close>

definition callBigIntConstructor :: "js_host \<Rightarrow> jsValue \<Rightarrow> (js_error, jsBigInt) result" where
  "callBigIntConstructor host v =
     andThen (toPrimitive host v PreferNumber) (\<lambda>primitive.
     case primitive of
       JsInt32 i \<Rightarrow> createFromInt32 (bigIntEnv host) i
     | JsDouble number \<Rightarrow>
         if \<not> isIntegerDouble number then Inl (RangeError ''Not an integer'') else createFromDouble (bigIntEnv host) number
     | _ \<Rightarrow> primToBigInt host primitive)"

definition bigIntConstructorFuncAsUintN :: "js_host \<Rightarrow> jsValue \<Rightarrow> jsValue \<Rightarrow> (js_error, jsBigInt) result" where
  "bigIntConstructorFuncAsUintN host bits v =
     andThen (toIndex host bits ''number of bits'') (\<lambda>numberOfBits.
     andThen (toBigInt host v) (asUintN (bigIntEnv host) (ucast numberOfBits)))"

definition bigIntConstructorFuncAsIntN :: "js_host \<Rightarrow> jsValue \<Rightarrow> jsValue \<Rightarrow> (js_error, jsBigInt) result" where
  "bigIntConstructorFuncAsIntN host bits v =
     andThen (toIndex host bits ''number of bits'') (\<lambda>numberOfBits.
     andThen (toBigInt host v) (asIntN (bigIntEnv host) (ucast numberOfBits)))"

definition toThisBigIntValue :: "js_host \<Rightarrow> jsValue \<Rightarrow> (js_error, jsBigInt) result" where
  "toThisBigIntValue host thisValue =
     (let none = Inl (TypeError (CHR 0x27 # ''this' value must be a BigInt or BigIntObject''))
      in case thisValue of
        Primitive (JsBigInt x) \<Rightarrow> Inr x
      | JsObject n \<Rightarrow> (case bigIntObject host n of Some x \<Rightarrow> Inr x | None \<Rightarrow> none)
      | _ \<Rightarrow> none)"

text \<open>\<^verbatim>\<open>toIntegerOrInfinity\<close> as an integer, unless the value is infinite.\<close>

definition toIntegerOrInfinity :: "js_host \<Rightarrow> jsValue \<Rightarrow> (js_error, int option) result" where
  "toIntegerOrInfinity host v =
     (case v of
        Primitive (JsInt32 i) \<Rightarrow> Inr (Some (sint i))
      | _ \<Rightarrow> andThen (toNumber host v) (\<lambda>d. Inr (if isNaN d then Some 0 else if isFinite d then Some (truncated d) else None)))"

definition extractToStringRadixArgument :: "js_host \<Rightarrow> jsValue \<Rightarrow> (js_error, nat) result" where
  "extractToStringRadixArgument host radixValue =
     (let outside = Inl (RangeError ''toString() radix argument must be between 2 and 36'')
      in case radixValue of
        Primitive JsUndefined \<Rightarrow> Inr 10
      | Primitive (JsInt32 i) \<Rightarrow> if 2 \<le> sint i \<and> sint i \<le> 36 then Inr (nat (sint i)) else outside
      | _ \<Rightarrow> andThen (toIntegerOrInfinity host radixValue) (\<lambda>radixDouble.
          case radixDouble of
            Some r \<Rightarrow> if 2 \<le> r \<and> r \<le> 36 then Inr (nat r) else outside
          | None \<Rightarrow> outside))"

definition bigIntProtoFuncToString :: "js_host \<Rightarrow> jsValue \<Rightarrow> jsValue \<Rightarrow> (js_error, uchar list) result" where
  "bigIntProtoFuncToString host thisValue radixValue =
     andThen (toThisBigIntValue host thisValue) (\<lambda>x.
     andThen (extractToStringRadixArgument host radixValue) (\<lambda>radix.
     toStringBigInt (bigIntEnv host) x radix))"

definition bigIntProtoFuncValueOf :: "js_host \<Rightarrow> jsValue \<Rightarrow> (js_error, jsBigInt) result" where
  "bigIntProtoFuncValueOf host thisValue = toThisBigIntValue host thisValue"

end
