(* ===== verification/JS_Types.thy ===== *)
theory JS_Types
  imports JS_Operators
begin

text \<open>
  Type soundness of the operators: an expression over all of them, evaluated on well-formed values, returns a well-formed value of the type that
  its operator promises, or throws; no assertion of the model on the way to the digits of a BigInt fails.
\<close>


section \<open>Well-formed values\<close>

text \<open>BigInts are canonical, and every NaN is one that the machine produces, with no payload.\<close>

definition wfDouble :: "double \<Rightarrow> bool" where
  "wfDouble d \<longleftrightarrow> (isNaN d \<longrightarrow> d = 0x7ff8000000000000 \<or> d = 0xfff8000000000000)"

fun wfPrimitive :: "jsPrimitive \<Rightarrow> bool" where
  "wfPrimitive (JsDouble d) \<longleftrightarrow> wfDouble d"
| "wfPrimitive (JsBigInt x) \<longleftrightarrow> canonical x"
| "wfPrimitive _ \<longleftrightarrow> True"

fun wfValue :: "jsValue \<Rightarrow> bool" where
  "wfValue (Primitive p) \<longleftrightarrow> wfPrimitive p"
| "wfValue (JsObject _) \<longleftrightarrow> True"

text \<open>An error that the program can see, or the undefined overflow of \<^verbatim>\<open>toInt32\<close>, but no failed assertion and no lost result.\<close>

definition raised :: "js_error \<Rightarrow> bool" where
  "raised e \<longleftrightarrow> e \<noteq> AssertionFailed \<and> e \<noteq> NullResult"

text \<open>What the operators rely on: conversions of objects and floating-point operations return well-formed values.\<close>

definition wfHost :: "js_host \<Rightarrow> bool" where
  "wfHost host \<longleftrightarrow> hasGlobalObject (bigIntEnv host)
     \<and> (\<forall>n h. outcome raised wfPrimitive (objectToPrimitive host n h)) \<and> (\<forall>n x. bigIntObject host n = Some x \<longrightarrow> canonical x)
     \<and> (\<forall>s. wfDouble (jsToNumber host s))
     \<and> (\<forall>a b. wfDouble (doubleAdd host a b) \<and> wfDouble (doubleSub host a b) \<and> wfDouble (doubleMul host a b)
          \<and> wfDouble (doubleDiv host a b) \<and> wfDouble (fmodDouble host a b) \<and> wfDouble (operationMathPow host a b))"

abbreviation returns :: "('a \<Rightarrow> bool) \<Rightarrow> (js_error, 'a) result \<Rightarrow> bool" where
  "returns Q r \<equiv> outcome raised Q r"

lemma wfHostD:
  assumes "wfHost host"
  shows "hasGlobalObject (bigIntEnv host)" and "returns wfPrimitive (objectToPrimitive host n h)" and "bigIntObject host n = Some x \<Longrightarrow> canonical x"
    and "wfDouble (jsToNumber host s)" and "wfDouble (doubleAdd host a b)" and "wfDouble (doubleSub host a b)" and "wfDouble (doubleMul host a b)"
    and "wfDouble (doubleDiv host a b)" and "wfDouble (fmodDouble host a b)" and "wfDouble (operationMathPow host a b)"
  using assms by (simp_all add: wfHost_def)

lemma raised_simps [simp]: "raised (TypeError m)" "raised (RangeError m)" "raised (SyntaxError m)" "raised (OutOfMemoryError m)" "raised js_error.UndefinedBehaviour"
  "\<not> raised AssertionFailed" "\<not> raised NullResult"
  by (simp_all add: raised_def)


section \<open>Doubles\<close>

lemma wfDouble_finite: "isFinite d \<Longrightarrow> wfDouble d"
  by (simp add: wfDouble_def finite_not_NaN)

lemma wfDouble_pure: "wfDouble d \<Longrightarrow> \<not> isImpureNaN d"
  using NaN_range [of d] by (auto simp: wfDouble_def isImpureNaN_def word_le_def)

lemma isNaN_negate: "isNaN (doubleNegate d) \<longleftrightarrow> isNaN d"
proof -
  have s: "push_bit 63 1 AND doublePhysicalMantissaMask = (0 :: double)" "drop_bit 52 (push_bit 63 1) AND 0x7FF = (0 :: double)"
    by (simp_all add: doublePhysicalMantissaMask_def doublePhysicalMantissaSize_def push_bit_eq_mult drop_bit_eq_div)
  have "mantissaOf (doubleNegate d) = mantissaOf d" by (simp only: mantissaOf_def doubleNegate_def bit.conj_xor_distrib2 s) simp
  moreover have "rawExponentOf (doubleNegate d) = rawExponentOf d"
    by (simp only: rawExponentOf_def doublePhysicalMantissaSize_def doubleNegate_def drop_bit_xor bit.conj_xor_distrib2 s) simp
  ultimately show ?thesis by (simp add: isNaN_def)
qed

lemma wfDouble_negate: "wfDouble d \<Longrightarrow> wfDouble (doubleNegate d)"
  by (auto simp: wfDouble_def isNaN_negate) (simp_all add: doubleNegate_def)

lemma jsNumber_returns: "wfDouble d \<Longrightarrow> returns (\<lambda>p. primIsNumber p \<and> wfPrimitive p) (jsNumber host d)"
  by (simp add: jsNumber_def assertThat_def wfDouble_pure)


section \<open>BigInt operations\<close>

lemma computes_returns: "hasGlobalObject env \<Longrightarrow> computes env L r v \<Longrightarrow> returns canonical r"
  by (cases r) (auto simp: represents_def oom_def outOfMemory_def)

lemma oom_raised: "hasGlobalObject env \<Longrightarrow> oom env L e \<Longrightarrow> raised e"
  by (auto simp: oom_def outOfMemory_def)

lemma enough_digits: "\<exists>L. \<bar>v\<bar> < digitBase ^ L \<and> n \<le> L"
proof -
  have "\<bar>v\<bar> < 2 ^ nat \<bar>v\<bar>" using less_exp [of "nat \<bar>v\<bar>"] by (metis abs_ge_zero nat_less_numeral_power_cancel_iff nat_0_le of_nat_less_iff of_nat_numeral of_nat_power)
  also have "(2 :: int) ^ nat \<bar>v\<bar> \<le> digitBase ^ nat \<bar>v\<bar>" by (intro power_mono) (simp_all add: digitBase_num)
  also have "\<dots> \<le> digitBase ^ (nat \<bar>v\<bar> + n)" by (intro power_increasing) (simp_all add: digitBase_num)
  finally show ?thesis by (intro exI [of _ "nat \<bar>v\<bar> + n"]) simp
qed

text \<open>The two-operand operations, division by zero and negative exponents included.\<close>

lemma binary_returns:
  assumes g: "hasGlobalObject env" and xy: "canonical x" "canonical y"
  shows "returns canonical (addBigInt env x y)" and "returns canonical (subBigInt env x y)" and "returns canonical (multiplyBigInt env x y)"
    and "returns canonical (divideBigInt env x y)" and "returns canonical (remainderBigInt env x y)" and "returns canonical (exponentiateBigInt env x y)"
    and "returns canonical (bitwiseAndBigInt env x y)" and "returns canonical (bitwiseOrBigInt env x y)" and "returns canonical (bitwiseXorBigInt env x y)"
    and "returns canonical (leftShiftBigInt env x y)" and "returns canonical (signedRightShiftBigInt env x y)"
proof -
  note c = computes_returns [OF g]
  show "returns canonical (addBigInt env x y)" "returns canonical (subBigInt env x y)" "returns canonical (multiplyBigInt env x y)"
    by (rule c, rule addition.operation_computes subtraction.operation_computes multiplication.operation_computes, fact xy, fact xy, rule TrueI)+
  show "returns canonical (bitwiseAndBigInt env x y)" "returns canonical (bitwiseOrBigInt env x y)" "returns canonical (bitwiseXorBigInt env x y)"
    by (rule c, rule conjunction.operation_computes disjunction.operation_computes parity.operation_computes, fact xy, fact xy, rule TrueI)+
  show "returns canonical (divideBigInt env x y)" "returns canonical (remainderBigInt env x y)"
    using c [OF division.operation_computes [OF xy]] c [OF remaindering.operation_computes [OF xy]] canonical_bval_0 [OF xy(2)]
    by (cases "bval y = 0"; simp add: divideBigInt_def divideImpl_def remainderBigInt_def remainderImpl_def)+
  obtain L where "\<bar>bval x ^ nat (bval y)\<bar> < digitBase ^ L" using enough_digits by blast
  then show "returns canonical (exponentiateBigInt env x y)"
    using c [OF exponentiateImpl_computes [OF xy]] canonical_sign [OF xy(2)]
    by (cases "bval y < 0") (simp_all add: exponentiateBigInt_def exponentiateImpl_def not_less)
  obtain K where K: "\<bar>shiftedBy (bval x) (bval y)\<bar> < digitBase ^ K" "bigLength x \<le> K" using enough_digits by blast
  show "returns canonical (leftShiftBigInt env x y)" using c [OF shift_computes [OF xy K(2,1)]] by (simp add: bits_api_defs)
  obtain M where M: "\<bar>shiftedBy (bval x) (- bval y)\<bar> < digitBase ^ M" "bigLength x \<le> M" using enough_digits by blast
  show "returns canonical (signedRightShiftBigInt env x y)" using c [OF signedRightShift_computes [OF xy M(2,1)]] by (simp add: bits_api_defs)
qed

lemma unary_returns:
  assumes g: "hasGlobalObject env" and x: "canonical x"
  shows "returns canonical (unaryMinusBigInt env x)" and "returns canonical (incBigInt env x)" and "returns canonical (decBigInt env x)"
    and "returns canonical (bitwiseNotBigInt env x)"
  using computes_returns [OF g unaryMinusImpl_computes [OF x]] computes_returns [OF g incImpl_computes [OF x]] computes_returns [OF g decImpl_computes [OF x]]
    computes_returns [OF g bitwiseNot_computes [OF x]]
  by (simp_all add: api_defs)

lemma asN_returns:
  assumes g: "hasGlobalObject env" and x: "canonical x"
  shows "returns canonical (asUintN env (ucast (n :: 32 word)) x)" and "returns canonical (asIntN env (ucast n) x)"
proof -
  have "unat (ucast n :: 64 word) < 2 ^ 53" using unsigned_less [of n, where ?'a = nat] by (simp add: unsigned_ucast_eq take_bit_nat_eq_self)
  then show "returns canonical (asUintN env (ucast n) x)" "returns canonical (asIntN env (ucast n) x)"
    using computes_returns [OF g asUintNImpl_computes [OF x]] computes_returns [OF g asIntNImpl_computes [OF x]] by (simp_all add: asUintN_def asIntN_def)
qed

lemma toString_returns: "hasGlobalObject env \<Longrightarrow> canonical x \<Longrightarrow> 2 \<le> r \<Longrightarrow> r \<le> 36 \<Longrightarrow> returns (\<lambda>_. True) (toStringBigInt env x r)"
  by (rule outcome_mono [OF toStringBigInt_outcome]) (auto intro: oom_raised)

lemma parseInt_returns: "hasGlobalObject env \<Longrightarrow> returns canonical (parseInt env space s ThrowExceptions)"
  using parseInt_parses [of env s ThrowExceptions space]
  by (auto simp: parses_def parseError_def intro: computes_returns elim!: outcome_mono intro: oom_raised split: option.splits)

text \<open>A string that is no numeral gives the empty value.\<close>

lemma stringToBigInt_returns: "hasGlobalObject env \<Longrightarrow> outcome (\<lambda>e. e = NullResult \<or> raised e) canonical (stringToBigInt env space s)"
  using parseInt_parses [of env s IgnoreExceptions space]
  by (auto simp: parses_def parseError_def stringToBigInt_def computes_def represents_def elim!: outcome_mono intro: oom_raised split: option.splits)

lemma compareToDouble_returns: "canonical x \<Longrightarrow> \<exists>r. compareToDouble x d = Inr r"
  using compareToDouble_finite [of x d] by (cases "isFinite d") (auto simp: compareToDouble_def isFinite_def)

lemma equalsToNumber_returns: "canonical x \<Longrightarrow> returns (\<lambda>_. True) (equalsToNumber x n)"
  using compareToDouble_returns [of x] by (cases n) (auto, metis andThen.simps(2) outcome_simps(2))


section \<open>Conversions\<close>

lemma toPrimitive_returns: "wfHost host \<Longrightarrow> wfValue v \<Longrightarrow> returns wfPrimitive (toPrimitive host v h)"
  by (cases v) (simp_all add: toPrimitive_def wfHostD)

lemma wfDouble_constants: "wfDouble pureNaN" "wfDouble 0" "wfDouble 0x3FF0000000000000"
  by (simp_all add: wfDouble_def pureNaN_def isNaN_def rawExponentOf_def mantissaOf_def
      doublePhysicalMantissaSize_def doublePhysicalMantissaMask_def drop_bit_eq_div push_bit_eq_mult)

lemma primToNumber_returns: "wfHost host \<Longrightarrow> wfPrimitive p \<Longrightarrow> returns wfDouble (primToNumber host p)"
  by (cases p) (auto simp: wfHostD wfDouble_constants wfDouble_finite int32ToDouble_value)

lemma toNumber_returns: "wfHost host \<Longrightarrow> wfValue v \<Longrightarrow> returns wfDouble (toNumber host v)"
  unfolding toNumber_def by (rule outcome_andThen [OF toPrimitive_returns]) (auto intro: primToNumber_returns)

abbreviation isNumeric :: "jsPrimitive \<Rightarrow> bool" where
  "isNumeric p \<equiv> (primIsNumber p \<or> primIsBigInt p) \<and> wfPrimitive p"

lemma number_returns: "wfHost host \<Longrightarrow> wfPrimitive p \<Longrightarrow> returns isNumeric (andThen (primToNumber host p) (jsNumber host))"
  by (rule outcome_andThen [OF primToNumber_returns]) (auto intro: outcome_mono [OF jsNumber_returns])

lemma toNumeric_returns:
  assumes "wfHost host" and "wfValue v"
  shows "returns isNumeric (toNumeric host v)"
proof -
  have "returns isNumeric (andThen (toPrimitive host v PreferNumber) (\<lambda>primValue.
      case primValue of JsDouble d \<Rightarrow> Inr (JsDouble d) | JsBigInt x \<Rightarrow> Inr (JsBigInt x) | _ \<Rightarrow> andThen (primToNumber host primValue) (jsNumber host)))"
    by (rule outcome_andThen [OF toPrimitive_returns [OF assms]]) (auto simp: number_returns [OF assms(1)] simp del: primToNumber.simps split: jsPrimitive.split)
  then show ?thesis using assms(2) unfolding toNumeric_def by (auto split: jsValue.split jsPrimitive.split)
qed

text \<open>A 32-bit integer or a canonical BigInt.\<close>

definition isIntegral :: "jsPrimitive \<Rightarrow> bool" where
  "isIntegral p \<longleftrightarrow> (case p of JsInt32 _ \<Rightarrow> True | JsBigInt x \<Rightarrow> canonical x | _ \<Rightarrow> False)"

lemma isIntegral_simps [simp]: "isIntegral (JsInt32 i)" "isIntegral (JsBigInt x) \<longleftrightarrow> canonical x"
  by (simp_all add: isIntegral_def)

lemma isIntegralE:
  assumes "isIntegral p"
  obtains i where "p = JsInt32 i" | x where "p = JsBigInt x" and "canonical x"
  using assms by (cases p) (auto simp: isIntegral_def)

lemma isIntegral_numeric: "isIntegral p \<Longrightarrow> isNumeric p"
  by (elim isIntegralE) auto

lemma toInt32_returns: "returns (\<lambda>_. True) (toInt32 d)"
  by (auto simp: toInt32_def toInt32Internal_def Let_def negateInt32_def)

lemma primToInt32_returns: "wfHost host \<Longrightarrow> wfPrimitive p \<Longrightarrow> returns (\<lambda>_. True) (primToInt32 host p)"
  using outcome_andThen [OF primToNumber_returns, of host p "\<lambda>_. True" toInt32] toInt32_returns by (cases p) auto

lemma toBigIntOrInt32_returns:
  assumes "wfHost host" and "wfValue v"
  shows "returns isIntegral (toBigIntOrInt32 host v)"
proof -
  have int: "returns isIntegral (andThen (primToInt32 host p) (\<lambda>i. Inr (JsInt32 i)))" if "wfPrimitive p" for p
    by (rule outcome_andThen [OF primToInt32_returns [OF assms(1) that]]) (simp add: isIntegral_def)
  have "returns isIntegral (andThen (toPrimitive host v PreferNumber) (\<lambda>primValue.
      case primValue of JsInt32 i \<Rightarrow> Inr (JsInt32 i) | JsBigInt x \<Rightarrow> Inr (JsBigInt x) | _ \<Rightarrow> andThen (primToInt32 host primValue) (\<lambda>i. Inr (JsInt32 i))))"
    by (rule outcome_andThen [OF toPrimitive_returns [OF assms]]) (auto simp: int isIntegral_def simp del: primToInt32.simps split: jsPrimitive.split)
  then show ?thesis using assms(2) unfolding toBigIntOrInt32_def Let_def by (auto simp: isIntegral_def split: jsValue.split jsPrimitive.split)
qed

lemma toUInt32_returns: "wfHost host \<Longrightarrow> wfValue v \<Longrightarrow> returns (\<lambda>_. True) (toUInt32AfterToNumeric host v)"
  unfolding toUInt32AfterToNumeric_def by (rule outcome_andThen [OF toBigIntOrInt32_returns]) simp_all

lemma primToBigInt_returns: "wfHost host \<Longrightarrow> wfPrimitive p \<Longrightarrow> returns canonical (primToBigInt host p)"
  by (cases p) (auto intro: parseInt_returns computes_returns [OF _ createFromBool_computes] simp: wfHostD)

lemma toBigInt_returns: "wfHost host \<Longrightarrow> wfValue v \<Longrightarrow> returns canonical (toBigInt host v)"
  unfolding toBigInt_def by (rule outcome_andThen [OF toPrimitive_returns]) (auto intro: primToBigInt_returns)

lemma primToString_returns: "wfHost host \<Longrightarrow> wfPrimitive p \<Longrightarrow> returns (\<lambda>_. True) (primToString host p)"
  by (cases p) (auto intro: toString_returns simp: wfHostD)

lemma toIndex_returns: "wfHost host \<Longrightarrow> wfValue v \<Longrightarrow> returns (\<lambda>_. True) (toIndex host v name)"
  unfolding toIndex_def by (rule outcome_andThen [OF toNumber_returns]) (auto simp: toInt32_returns split: jsValue.split jsPrimitive.split)


section \<open>Operators\<close>

lemma asNumber_returns: "primIsNumber p \<Longrightarrow> wfPrimitive p \<Longrightarrow> returns wfDouble (asNumber p)"
  by (cases p) (auto simp: wfDouble_finite int32ToDouble_value)

lemma asNumber_known: "primIsNumber p \<Longrightarrow> \<exists>d. asNumber p = Inr d"
  by (cases p) auto

lemma bigIntResult_returns: "returns canonical r \<Longrightarrow> returns isNumeric (bigIntResult r)"
  by (cases r) (auto simp: bigIntResult_def)

lemma double_operation_returns:
  assumes "\<And>a b. wfDouble (f a b)" and "primIsNumber p" "wfPrimitive p" "primIsNumber q" "wfPrimitive q"
  shows "returns isNumeric (andThen (asNumber p) (\<lambda>a. andThen (asNumber q) (\<lambda>b. jsNumber host (f a b))))"
  by (intro outcome_andThen [OF asNumber_returns] assms outcome_mono [OF jsNumber_returns]) auto

lemma arithmeticBinaryOp_returns:
  assumes host: "wfHost host" and "wfValue v1" "wfValue v2" and d: "\<And>a b. wfDouble (doubleOp a b)"
    and b: "\<And>x y. canonical x \<Longrightarrow> canonical y \<Longrightarrow> returns canonical (bigIntOp (bigIntEnv host) x y)"
  shows "returns isNumeric (arithmeticBinaryOp host v1 v2 doubleOp bigIntOp message)"
  unfolding arithmeticBinaryOp_def
proof (rule outcome_andThen [OF toNumeric_returns [OF assms(1,2)]], rule outcome_andThen [OF toNumeric_returns [OF assms(1,3)]])
  fix p q
  assume p: "isNumeric p" and q: "isNumeric q"
  show "returns isNumeric (if primIsNumber p \<and> primIsNumber q then andThen (asNumber p) (\<lambda>a. andThen (asNumber q) (\<lambda>b. jsNumber host (doubleOp a b)))
      else case (p, q) of (JsBigInt x, JsBigInt y) \<Rightarrow> bigIntResult (bigIntOp (bigIntEnv host) x y) | _ \<Rightarrow> Inl (TypeError message))"
    using p q double_operation_returns [of doubleOp p q host] d b by (auto split: jsPrimitive.split intro!: bigIntResult_returns)
qed

lemma arithmetic_returns:
  assumes "wfHost host" and "wfValue v1" and "wfValue v2"
  shows "returns isNumeric (jsSub host v1 v2)" and "returns isNumeric (jsMul host v1 v2)" and "returns isNumeric (jsDiv host v1 v2)"
    and "returns isNumeric (jsRemainder host v1 v2)" and "returns isNumeric (jsPow host v1 v2)"
proof -
  note h = wfHostD [OF assms(1)] and b = binary_returns [OF wfHostD(1) [OF assms(1)]]
  show "returns isNumeric (jsSub host v1 v2)" unfolding jsSub_def by (rule arithmeticBinaryOp_returns [OF assms]) (auto intro: h(6) b(2))
  show "returns isNumeric (jsMul host v1 v2)" unfolding jsMul_def by (rule arithmeticBinaryOp_returns [OF assms]) (auto intro: h(7) b(3))
  show "returns isNumeric (jsDiv host v1 v2)" unfolding jsDiv_def by (rule arithmeticBinaryOp_returns [OF assms]) (auto intro: h(8) b(4))
  show "returns isNumeric (jsRemainder host v1 v2)" unfolding jsRemainder_def by (rule arithmeticBinaryOp_returns [OF assms]) (auto intro: h(9) b(5))
  show "returns isNumeric (jsPow host v1 v2)" unfolding jsPow_def by (rule arithmeticBinaryOp_returns [OF assms]) (auto intro: h(10) b(6))
qed

lemma toNumeric_cases:
  assumes "wfHost host" and "wfValue v" and "\<And>p. primIsNumber p \<Longrightarrow> wfPrimitive p \<Longrightarrow> returns Q (f p)" and "\<And>x. canonical x \<Longrightarrow> returns Q (f (JsBigInt x))"
  shows "returns Q (andThen (toNumeric host v) f)"
proof (rule outcome_andThen [OF toNumeric_returns [OF assms(1,2)]])
  fix p assume "isNumeric p"
  then show "returns Q (f p)" using assms(3,4) by (cases p) auto
qed

lemma unary_operators_return:
  assumes "wfHost host" and "wfValue v"
  shows "returns isNumeric (jsInc host v)" and "returns isNumeric (jsDec host v)" and "returns isNumeric (slow_path_negate host v)"
proof -
  note g = wfHostD(1) [OF assms(1)]
  have one: "returns isNumeric (andThen (asNumber p) (\<lambda>n. jsNumber host (f n c)))" if "primIsNumber p" "wfPrimitive p" "\<And>a b. wfDouble (f a b)" for p f c
    by (intro outcome_andThen [OF asNumber_returns] that outcome_mono [OF jsNumber_returns]) auto
  show "returns isNumeric (jsInc host v)" "returns isNumeric (jsDec host v)"
    unfolding jsInc_def jsDec_def using one [of _ "doubleAdd host"] one [of _ "doubleSub host"] wfHostD(5,6) [OF assms(1)] unary_returns [OF g]
    by (auto intro!: toNumeric_cases [OF assms] bigIntResult_returns)
  have n: "returns isNumeric (andThen (primToNumber host p) (\<lambda>n. jsNumber host (doubleNegate n)))" if "wfPrimitive p" for p
    by (rule outcome_andThen [OF primToNumber_returns [OF assms(1) that]]) (auto intro: outcome_mono [OF jsNumber_returns [OF wfDouble_negate]])
  show "returns isNumeric (slow_path_negate host v)" unfolding slow_path_negate_def
    by (rule outcome_andThen [OF toPrimitive_returns [OF assms]])
      (auto simp: n unary_returns [OF g] bigIntResult_returns simp del: primToNumber.simps split: jsPrimitive.split)
qed

lemma sumOverflows_returns: "\<exists>b. sumOverflows True int32 uint32 v [w] = Inr b"
  by (auto simp: sumOverflows_def fromValue_def overflowIf_def binaryOp_def valueOf_def resultOverflowed_def safeOperation_def resultType_def
      arithmeticOperation_def signedAdd_def builtinOverflow_def)

lemma jsString_returns: "hasGlobalObject (bigIntEnv host) \<Longrightarrow> returns (\<lambda>_. True) (jsString host s1 s2)"
  using sumOverflows_returns [of "int (length s1)" "int (length s2)"] by (auto simp: jsString_def throwOutOfMemoryError_def)

lemma concatenation_returns:
  assumes "wfHost host" and "wfPrimitive p" and "wfPrimitive q"
  shows "returns (\<lambda>r. wfPrimitive r \<and> primIsString r)
    (andThen (primToString host p) (\<lambda>s1. andThen (primToString host q) (\<lambda>s2. andThen (jsString host s1 s2) (\<lambda>s. Inr (JsString s)))))"
  by (intro outcome_andThen [OF primToString_returns] outcome_andThen [OF jsString_returns] assms wfHostD) simp

lemma jsAdd_returns:
  assumes "wfHost host" and "wfValue v1" and "wfValue v2"
  shows "returns (\<lambda>p. isNumeric p \<or> primIsString p) (jsAdd host v1 v2)"
proof -
  let ?Q = "\<lambda>p. isNumeric p \<or> primIsString p"
  have conc: "returns ?Q (andThen (primToString host p) (\<lambda>s1. andThen (primToString host q) (\<lambda>s2. andThen (jsString host s1 s2) (\<lambda>s. Inr (JsString s)))))"
    if "wfPrimitive p" "wfPrimitive q" for p q by (rule outcome_mono [OF concatenation_returns [OF assms(1) that]]) auto
  have arith: "returns ?Q (arithmeticBinaryOp host (Primitive p) (Primitive q) (doubleAdd host) addBigInt m)" if "wfPrimitive p" "wfPrimitive q" for p q m
    by (rule outcome_mono [OF arithmeticBinaryOp_returns]) (use assms(1) that binary_returns(1) wfHostD in auto)
  have slow: "returns ?Q (jsAddSlowCase host v1 v2)" unfolding jsAddSlowCase_def
    by (intro outcome_andThen [OF toPrimitive_returns] assms) (use conc arith in auto)
  have non: "returns ?Q (jsAddNonNumber host v1 v2)" using slow conc [of "JsString _"] assms(2,3) unfolding jsAddNonNumber_def
    by (auto split: jsValue.split jsPrimitive.split)
  have num: "returns ?Q (andThen (asNumber p) (\<lambda>a. andThen (asNumber q) (\<lambda>b. jsNumber host (doubleAdd host a b))))"
    if "primIsNumber p" "wfPrimitive p" "primIsNumber q" "wfPrimitive q" for p q
    by (rule outcome_mono [OF double_operation_returns [of "doubleAdd host", OF _ that]]) (use wfHostD [OF assms(1)] in auto)
  show ?thesis using non num assms(2,3) unfolding jsAdd_def by (auto split: jsValue.split)
qed

lemma integral_operands:
  assumes "wfHost host" and "wfValue v1" and "wfValue v2" and "\<And>p q. isIntegral p \<Longrightarrow> isIntegral q \<Longrightarrow> returns Q (f p q)"
  shows "returns Q (andThen (toBigIntOrInt32 host v1) (\<lambda>p. andThen (toBigIntOrInt32 host v2) (f p)))"
  by (intro outcome_andThen [OF toBigIntOrInt32_returns] assms)

lemma bigIntResult_integral: "returns canonical r \<Longrightarrow> returns isIntegral (bigIntResult r)"
  by (cases r) (auto simp: bigIntResult_def isIntegral_def)

lemma bitwiseBinaryOp_returns:
  assumes "wfHost host" and "wfValue v1" and "wfValue v2"
    and b: "\<And>x y. canonical x \<Longrightarrow> canonical y \<Longrightarrow> returns canonical (bigIntOp (bigIntEnv host) x y)"
  shows "returns isIntegral (bitwiseBinaryOp host v1 v2 int32Op bigIntOp message)"
  unfolding bitwiseBinaryOp_def
  by (rule integral_operands [OF assms(1-3)]) (auto elim!: isIntegralE intro!: bigIntResult_integral b)

lemma bitwise_returns:
  assumes "wfHost host" and "wfValue v1" and "wfValue v2"
  shows "returns isIntegral (jsBitwiseAnd host v1 v2)" and "returns isIntegral (jsBitwiseOr host v1 v2)" and "returns isIntegral (jsBitwiseXor host v1 v2)"
    and "returns isIntegral (jsLShift host v1 v2)" and "returns isIntegral (jsRShift host v1 v2)" and "returns isIntegral (jsURShift host v1 v2)"
    and "returns isIntegral (jsBitwiseNot host v1)"
proof -
  note b = binary_returns [OF wfHostD(1) [OF assms(1)]] and u = unary_returns [OF wfHostD(1) [OF assms(1)]]
  show "returns isIntegral (jsBitwiseAnd host v1 v2)" unfolding jsBitwiseAnd_def by (rule bitwiseBinaryOp_returns [OF assms]) (auto intro: b(7))
  show "returns isIntegral (jsBitwiseOr host v1 v2)" unfolding jsBitwiseOr_def by (rule bitwiseBinaryOp_returns [OF assms]) (auto intro: b(8))
  show "returns isIntegral (jsBitwiseXor host v1 v2)" unfolding jsBitwiseXor_def by (rule bitwiseBinaryOp_returns [OF assms]) (auto intro: b(9))
  have "returns isIntegral (shiftOp host isLeft v1 v2)" for isLeft unfolding shiftOp_def
    by (rule integral_operands [OF assms]) (auto elim!: isIntegralE intro!: bigIntResult_integral b simp: Let_def)
  then show "returns isIntegral (jsLShift host v1 v2)" "returns isIntegral (jsRShift host v1 v2)" by (simp_all add: jsLShift_def jsRShift_def)
  show "returns isIntegral (jsURShift host v1 v2)" unfolding jsURShift_def
    by (intro outcome_andThen [OF toUInt32_returns] assms) (auto simp: isIntegral_def split: option.split)
  show "returns isIntegral (jsBitwiseNot host v1)" unfolding jsBitwiseNot_def
    by (rule outcome_andThen [OF toBigIntOrInt32_returns [OF assms(1,2)]]) (auto elim!: isIntegralE intro!: bigIntResult_integral u)
qed


section \<open>Relations\<close>

lemma compareOther_returns:
  assumes "wfHost host" and "canonical x" and "wfPrimitive p" and "\<not> primIsBigInt p"
  shows "returns (\<lambda>_. True) (compareBigIntToOtherPrimitive host x p)"
proof -
  have num: "returns (\<lambda>_. True) (andThen (primToNumber host p) (compareToDouble x))"
    by (rule outcome_andThen [OF primToNumber_returns [OF assms(1,3)]]) (use compareToDouble_returns [OF assms(2)] in \<open>metis outcome_simps(2)\<close>)
  have str: "returns (\<lambda>_. True) (case stringToBigInt (bigIntEnv host) (spaceSeparators host) s of
      Inl NullResult \<Rightarrow> Inr Undefined | Inl e \<Rightarrow> Inl e | Inr y \<Rightarrow> Inr (compareBigInt x y))" for s
    using stringToBigInt_returns [OF wfHostD(1) [OF assms(1)], of "spaceSeparators host" s] by (auto split: sum.split js_error.split)
  show ?thesis using num str assms(4) by (cases p) simp_all
qed

lemma bigIntCompare_returns:
  assumes "wfHost host" and "wfPrimitive p" and "wfPrimitive q" and "primIsBigInt p \<or> primIsBigInt q"
  shows "returns (\<lambda>_. True) (bigIntCompare host p q mode)"
proof -
  have l: "returns (\<lambda>_. True) (andThen (compareBigIntToOtherPrimitive host x r) (\<lambda>c. Inr (f c)))" if "canonical x" "wfPrimitive r" "\<not> primIsBigInt r" for x r and f :: "ComparisonResult \<Rightarrow> bool"
    by (rule outcome_andThen [OF compareOther_returns [OF assms(1) that]]) simp
  show ?thesis using assms(2-4) l by (cases p; cases q) (simp_all del: compareBigIntToOtherPrimitive.simps)
qed

lemma operands_returns:
  assumes "wfHost host" and "wfValue v1" and "wfValue v2"
  shows "returns (\<lambda>((n1, p1, _), (n2, p2, _)). wfPrimitive p1 \<and> wfPrimitive p2 \<and> (n1 \<or> primIsString p1) \<and> (n2 \<or> primIsString p2)) (operandsNumeric host leftFirst v1 v2)"
proof -
  have n: "returns (\<lambda>(n, p, _). wfPrimitive p \<and> (n \<or> primIsString p)) (toPrimitiveNumeric host v)" if "wfValue v" for v
    unfolding toPrimitiveNumeric_def
  proof (rule outcome_andThen [OF toPrimitive_returns [OF assms(1) that]])
    fix p assume p: "wfPrimitive p"
    show "returns (\<lambda>(n, p, _). wfPrimitive p \<and> (n \<or> primIsString p)) (if primIsBigInt p then Inr (True, p, 0) else andThen (primToNumber host p) (\<lambda>n. Inr (\<not> primIsString p, p, n)))"
      using p by (auto intro!: outcome_andThen [OF primToNumber_returns [OF assms(1) p]])
  qed
  show ?thesis unfolding operandsNumeric_def by (auto intro!: outcome_andThen [OF n] assms(2,3))
qed

lemma compareOperands_returns:
  assumes "wfHost host" and "wfValue v1" and "wfValue v2"
  shows "returns (\<lambda>_. True) (compareOperands host leftFirst v1 v2 mode numbers strings)"
  unfolding compareOperands_def
proof (rule outcome_andThen [OF operands_returns [OF assms]], clarify)
  fix n1 p1 d1 n2 p2 d2
  assume "wfPrimitive p1" "wfPrimitive p2" "n1 \<or> primIsString p1" "n2 \<or> primIsString p2"
  moreover have "returns (\<lambda>_. True) (andThen (asString p1) (\<lambda>s1. andThen (asString p2) (\<lambda>s2. Inr (strings s1 s2))))" if "primIsString p1" "primIsString p2"
    using that by (cases p1; cases p2) auto
  ultimately show "returns (\<lambda>_. True) (if n1 \<or> n2 then if primIsBigInt p1 \<or> primIsBigInt p2 then bigIntCompare host p1 p2 mode else Inr (numbers d1 d2)
      else andThen (asString p1) (\<lambda>s1. andThen (asString p2) (\<lambda>s2. Inr (strings s1 s2))))"
    using bigIntCompare_returns [OF assms(1)] by auto
qed

lemma less_returns:
  assumes "wfHost host" and "wfValue v1" and "wfValue v2"
  shows "returns (\<lambda>_. True) (jsLess host leftFirst v1 v2)" and "returns (\<lambda>_. True) (jsLessEq host leftFirst v1 v2)"
  using compareOperands_returns [OF assms] unfolding jsLess_def jsLessEq_def by (auto split: jsValue.split jsPrimitive.split)

lemma equalBigInt_returns: "wfPrimitive p \<Longrightarrow> returns (\<lambda>_. True) (equalBigInt p q)"
  using equalsToNumber_returns by (cases p; cases q) (auto simp: numberValueOf_def simp del: equalsToNumber.simps)

lemma equalBoolean_returns:
  assumes "wfHost host" and "wfPrimitive p" and "wfPrimitive q"
  shows "returns (\<lambda>_. True) (equalBoolean host p q)"
proof -
  have b: "returns (\<lambda>_. True) (andThen (andThen (primToNumber host (JsBoolean c)) (jsNumber host)) (equalBigInt r))" if "wfPrimitive r" for c r
    by (rule outcome_andThen [OF number_returns [OF assms(1)]]) (auto intro: equalBigInt_returns that)
  have n: "returns (\<lambda>_. True) (andThen (asNumber r) (\<lambda>n. Inr (f n)))" if "primIsNumber r" for r and f :: "double \<Rightarrow> bool"
    using that by (cases r) auto
  show ?thesis using assms(2,3) b n equalBigInt_returns
    by (cases p; cases q) (simp_all del: primToNumber.simps equalBigInt.simps asNumber.simps)
qed

lemma equalString_returns:
  assumes "wfHost host" and "wfPrimitive p" and "primIsNumber p \<or> primIsBoolean p \<or> primIsBigInt p"
  shows "returns (\<lambda>_. True) (equalString host p s)"
proof (cases p)
  case (JsBigInt x)
  then show ?thesis using stringToBigInt_returns [OF wfHostD(1) [OF assms(1)], of "spaceSeparators host" s] equalBoolean_returns [OF assms(1), of "JsBigInt x"] assms(2)
    by (auto split: sum.split js_error.split simp del: equalBoolean.simps)
qed (use assms(3) in auto)

lemma equalPrimitives_returns:
  assumes "wfHost host" and "wfPrimitive p" and "wfPrimitive q"
  shows "returns (\<lambda>_. True) (equalPrimitives host p q)"
  using assms(2,3) equalString_returns [OF assms(1)] equalBoolean_returns [OF assms(1)]
  by (cases p; cases q) (simp_all add: equalPrimitives_def del: equalString.simps equalBoolean.simps)

lemma equality_returns:
  assumes "wfHost host" and "wfValue v1" and "wfValue v2"
  shows "returns (\<lambda>_. True) (jsEqual host v1 v2)" and "returns (\<lambda>_. True) (strictEqual v1 v2)" and "returns (\<lambda>_. True) (sameValue v1 v2)"
proof -
  show "returns (\<lambda>_. True) (jsEqual host v1 v2)" using assms(2,3) equalPrimitives_returns [OF assms(1)] unfolding jsEqual_def
    by (cases v1; cases v2) (auto intro!: outcome_andThen [OF toPrimitive_returns [OF assms(1)]])
  show st: "returns (\<lambda>_. True) (strictEqual v1 v2)" unfolding strictEqual_def by (cases v1; cases v2) (auto split: jsPrimitive.split dest!: asNumber_known)
  have "returns (\<lambda>_. True) (andThen (asNumber p) (\<lambda>x. andThen (asNumber q) (\<lambda>y. if f x y then Inr (g x y) else Inr (h x y))))"
    if "primIsNumber p" "primIsNumber q" for p q f and g h :: "double \<Rightarrow> double \<Rightarrow> bool" using that by (cases p; cases q) auto
  then show "returns (\<lambda>_. True) (sameValue v1 v2)" using st unfolding sameValue_def by (cases v1; cases v2) auto
qed


section \<open>The functions of the BigInt object\<close>

lemma constructor_returns:
  assumes "wfHost host" and "wfValue v"
  shows "returns canonical (callBigIntConstructor host v)"
  unfolding callBigIntConstructor_def
proof (rule outcome_andThen [OF toPrimitive_returns [OF assms]])
  fix p assume p: "wfPrimitive p"
  note g = wfHostD(1) [OF assms(1)]
  have "returns canonical (createFromDouble (bigIntEnv host) d)" if "isIntegerDouble d" for d
    using that computes_returns [OF g createFromDouble_computes [OF that]] by (auto simp: isIntegerDouble_def dvd_def mult.commute)
  then show "returns canonical (case p of JsInt32 i \<Rightarrow> createFromInt32 (bigIntEnv host) i
      | JsDouble number \<Rightarrow> if \<not> isIntegerDouble number then Inl (RangeError ''Not an integer'') else createFromDouble (bigIntEnv host) number
      | _ \<Rightarrow> primToBigInt host p)"
    using p primToBigInt_returns [OF assms(1), of p] computes_returns [OF g createFromInt32_computes] by (cases p) auto
qed

lemma asN_functions_return:
  assumes "wfHost host" and "wfValue v1" and "wfValue v2"
  shows "returns canonical (bigIntConstructorFuncAsUintN host v1 v2)" and "returns canonical (bigIntConstructorFuncAsIntN host v1 v2)"
  unfolding bigIntConstructorFuncAsUintN_def bigIntConstructorFuncAsIntN_def
  by (rule outcome_andThen [OF toIndex_returns [OF assms(1,2)]], rule outcome_andThen [OF toBigInt_returns [OF assms(1,3)]],
      rule asN_returns [OF wfHostD(1) [OF assms(1)]], assumption)+

lemma radix_returns:
  assumes "wfHost host" and "wfValue v"
  shows "returns (\<lambda>r. 2 \<le> r \<and> r \<le> 36) (extractToStringRadixArgument host v)"
proof -
  let ?Q = "\<lambda>r :: nat. 2 \<le> r \<and> r \<le> 36"
  have "returns ?Q (andThen (toIntegerOrInfinity host v) (\<lambda>radixDouble.
      case radixDouble of Some r \<Rightarrow> if 2 \<le> r \<and> r \<le> 36 then Inr (nat r) else Inl (RangeError m) | None \<Rightarrow> Inl (RangeError m)))" for m
  proof -
    have "returns (\<lambda>_. True) (andThen (toNumber host v) (\<lambda>d. Inr (f d)))" for f :: "double \<Rightarrow> int option"
      by (rule outcome_andThen [OF toNumber_returns [OF assms]]) simp
    then have "returns (\<lambda>_. True) (toIntegerOrInfinity host v)"
      unfolding toIntegerOrInfinity_def by (auto split: jsValue.split jsPrimitive.split)
    then show ?thesis by (rule outcome_andThen) (auto split: option.split simp: nat_le_iff)
  qed
  then show ?thesis unfolding extractToStringRadixArgument_def Let_def by (auto split: jsValue.split jsPrimitive.split simp: nat_le_iff)
qed

lemma toThis_returns: "wfHost host \<Longrightarrow> wfValue v \<Longrightarrow> returns canonical (toThisBigIntValue host v)"
  using wfHostD(3) [of host] by (cases v) (auto simp: toThisBigIntValue_def Let_def split: option.split jsPrimitive.split)

lemma toString_function_returns: "wfHost host \<Longrightarrow> wfValue v1 \<Longrightarrow> wfValue v2 \<Longrightarrow> returns (\<lambda>_. True) (bigIntProtoFuncToString host v1 v2)"
  unfolding bigIntProtoFuncToString_def
  by (rule outcome_andThen [OF toThis_returns], assumption, assumption, rule outcome_andThen [OF radix_returns]) (auto intro: toString_returns wfHostD)


section \<open>Expressions\<close>

datatype unary = Negation | Increment | Decrement | Complement

datatype binary = Plus | Minus | Times | Quotient | Remainder | Power | BitAnd | BitOr | BitXor | ShiftLeft | ShiftRight | ShiftRightUnsigned

datatype relation = Less | LessEq | LooselyEqual | StrictlyEqual | SameValue

text \<open>\<open>BigIntOf\<close> is the call \<^verbatim>\<open>BigInt(e)\<close>, \<open>AsN\<close> is \<^verbatim>\<open>BigInt.asIntN\<close> or \<^verbatim>\<open>BigInt.asUintN\<close>, \<open>ToStringOf\<close> is \<^verbatim>\<open>toString\<close> of a BigInt.\<close>

datatype expr =
    Value jsValue
  | Unary unary expr
  | Binary binary expr expr
  | Related relation expr expr
  | BigIntOf expr
  | AsN bool expr expr
  | ToStringOf expr expr

fun unaryOperator :: "js_host \<Rightarrow> unary \<Rightarrow> jsValue \<Rightarrow> (js_error, jsPrimitive) result" where
  "unaryOperator host Negation v = slow_path_negate host v"
| "unaryOperator host Increment v = jsInc host v"
| "unaryOperator host Decrement v = jsDec host v"
| "unaryOperator host Complement v = jsBitwiseNot host v"

fun binaryOperator :: "js_host \<Rightarrow> binary \<Rightarrow> jsValue \<Rightarrow> jsValue \<Rightarrow> (js_error, jsPrimitive) result" where
  "binaryOperator host Plus v w = jsAdd host v w"
| "binaryOperator host Minus v w = jsSub host v w"
| "binaryOperator host Times v w = jsMul host v w"
| "binaryOperator host Quotient v w = jsDiv host v w"
| "binaryOperator host Remainder v w = jsRemainder host v w"
| "binaryOperator host Power v w = jsPow host v w"
| "binaryOperator host BitAnd v w = jsBitwiseAnd host v w"
| "binaryOperator host BitOr v w = jsBitwiseOr host v w"
| "binaryOperator host BitXor v w = jsBitwiseXor host v w"
| "binaryOperator host ShiftLeft v w = jsLShift host v w"
| "binaryOperator host ShiftRight v w = jsRShift host v w"
| "binaryOperator host ShiftRightUnsigned v w = jsURShift host v w"

fun relationOperator :: "js_host \<Rightarrow> relation \<Rightarrow> jsValue \<Rightarrow> jsValue \<Rightarrow> (js_error, bool) result" where
  "relationOperator host Less v w = jsLess host True v w"
| "relationOperator host LessEq v w = jsLessEq host True v w"
| "relationOperator host LooselyEqual v w = jsEqual host v w"
| "relationOperator host StrictlyEqual v w = strictEqual v w"
| "relationOperator host SameValue v w = sameValue v w"

text \<open>Operands are evaluated from left to right, and the first error ends the evaluation.\<close>

fun evaluate :: "js_host \<Rightarrow> expr \<Rightarrow> (js_error, jsValue) result" where
  "evaluate host (Value v) = Inr v"
| "evaluate host (Unary f e) = andThen (evaluate host e) (\<lambda>v. andThen (unaryOperator host f v) (\<lambda>p. Inr (Primitive p)))"
| "evaluate host (Binary f e1 e2) =
     andThen (evaluate host e1) (\<lambda>v. andThen (evaluate host e2) (\<lambda>w. andThen (binaryOperator host f v w) (\<lambda>p. Inr (Primitive p))))"
| "evaluate host (Related r e1 e2) =
     andThen (evaluate host e1) (\<lambda>v. andThen (evaluate host e2) (\<lambda>w. andThen (relationOperator host r v w) (\<lambda>b. Inr (Primitive (JsBoolean b)))))"
| "evaluate host (BigIntOf e) = andThen (evaluate host e) (\<lambda>v. andThen (callBigIntConstructor host v) (\<lambda>x. Inr (Primitive (JsBigInt x))))"
| "evaluate host (AsN isSigned e1 e2) =
     andThen (evaluate host e1) (\<lambda>v. andThen (evaluate host e2) (\<lambda>w.
     andThen (if isSigned then bigIntConstructorFuncAsIntN host v w else bigIntConstructorFuncAsUintN host v w) (\<lambda>x. Inr (Primitive (JsBigInt x)))))"
| "evaluate host (ToStringOf e1 e2) =
     andThen (evaluate host e1) (\<lambda>v. andThen (evaluate host e2) (\<lambda>w.
     andThen (bigIntProtoFuncToString host v w) (\<lambda>s. Inr (Primitive (JsString s)))))"

text \<open>Types are sets of primitive values.\<close>

datatype jsType = Anything | Numeric | NumericOrString | Integral | BigIntType | BooleanType | StringType

fun hasType :: "jsValue \<Rightarrow> jsType \<Rightarrow> bool" where
  "hasType v Anything \<longleftrightarrow> True"
| "hasType (Primitive p) Numeric \<longleftrightarrow> primIsNumber p \<or> primIsBigInt p"
| "hasType (Primitive p) NumericOrString \<longleftrightarrow> primIsNumber p \<or> primIsBigInt p \<or> primIsString p"
| "hasType (Primitive p) Integral \<longleftrightarrow> isIntegral p"
| "hasType (Primitive p) BigIntType \<longleftrightarrow> primIsBigInt p"
| "hasType (Primitive p) BooleanType \<longleftrightarrow> primIsBoolean p"
| "hasType (Primitive p) StringType \<longleftrightarrow> primIsString p"
| "hasType (JsObject _) _ \<longleftrightarrow> False"

fun typeOf :: "expr \<Rightarrow> jsType" where
  "typeOf (Value v) = Anything"
| "typeOf (Unary f e) = (if f = Complement then Integral else Numeric)"
| "typeOf (Binary f e1 e2) =
     (if f = Plus then NumericOrString else if f \<in> {Minus, Times, Quotient, Remainder, Power} then Numeric else Integral)"
| "typeOf (Related r e1 e2) = BooleanType"
| "typeOf (BigIntOf e) = BigIntType"
| "typeOf (AsN isSigned e1 e2) = BigIntType"
| "typeOf (ToStringOf e1 e2) = StringType"

fun wfExpr :: "expr \<Rightarrow> bool" where
  "wfExpr (Value v) \<longleftrightarrow> wfValue v"
| "wfExpr (Unary f e) \<longleftrightarrow> wfExpr e"
| "wfExpr (Binary f e1 e2) \<longleftrightarrow> wfExpr e1 \<and> wfExpr e2"
| "wfExpr (Related r e1 e2) \<longleftrightarrow> wfExpr e1 \<and> wfExpr e2"
| "wfExpr (BigIntOf e) \<longleftrightarrow> wfExpr e"
| "wfExpr (AsN isSigned e1 e2) \<longleftrightarrow> wfExpr e1 \<and> wfExpr e2"
| "wfExpr (ToStringOf e1 e2) \<longleftrightarrow> wfExpr e1 \<and> wfExpr e2"

lemma operator_types:
  assumes "wfHost host" and "wfValue v" and "wfValue w"
  shows "returns (\<lambda>p. wfPrimitive p \<and> hasType (Primitive p) (typeOf (Unary f e))) (unaryOperator host f v)"
    and "returns (\<lambda>p. wfPrimitive p \<and> hasType (Primitive p) (typeOf (Binary g e1 e2))) (binaryOperator host g v w)"
    and "returns (\<lambda>_. True) (relationOperator host r v w)"
proof -
  have i: "isIntegral p \<Longrightarrow> wfPrimitive p" for p using isIntegral_numeric by blast
  show "returns (\<lambda>p. wfPrimitive p \<and> hasType (Primitive p) (typeOf (Unary f e))) (unaryOperator host f v)"
    using unary_operators_return [OF assms(1,2)] bitwise_returns(7) [OF assms(1,2,2)] i by (cases f) (auto elim!: outcome_mono)
  have "wfPrimitive p" if "primIsString p" for p using that by (cases p) auto
  then show "returns (\<lambda>p. wfPrimitive p \<and> hasType (Primitive p) (typeOf (Binary g e1 e2))) (binaryOperator host g v w)"
    using jsAdd_returns [OF assms] arithmetic_returns [OF assms] bitwise_returns [OF assms] i by (cases g) (auto elim!: outcome_mono)
  show "returns (\<lambda>_. True) (relationOperator host r v w)"
    using less_returns [OF assms] equality_returns [OF assms] by (cases r) auto
qed

lemma primitive_result:
  "returns (\<lambda>p. wfPrimitive p \<and> hasType (Primitive p) T) r \<Longrightarrow> returns (\<lambda>v. wfValue v \<and> hasType v T) (andThen r (\<lambda>p. Inr (Primitive p)))"
  by (cases r) auto


text \<open>A host with plenty of memory whose objects convert to \<^verbatim>\<open>undefined\<close> and whose floating-point operations return NaN.\<close>

definition exampleHost :: js_host where
  "exampleHost = \<lparr>bigIntEnv = roomyHeap, objectToPrimitive = (\<lambda>_ _. Inr JsUndefined), masqueradesAsUndefined = (\<lambda>_. False),
     bigIntObject = (\<lambda>_. None), jsToNumber = (\<lambda>_. pureNaN), numericString = (\<lambda>_. []), spaceSeparators = (\<lambda>_. False), castOutOfRange = (\<lambda>_. 0),
     allocatesString = (\<lambda>_. True), doubleAdd = (\<lambda>_ _. pureNaN), doubleSub = (\<lambda>_ _. pureNaN), doubleMul = (\<lambda>_ _. pureNaN),
     doubleDiv = (\<lambda>_ _. pureNaN), fmodDouble = (\<lambda>_ _. pureNaN), operationMathPow = (\<lambda>_ _. pureNaN)\<rparr>"

lemma exampleHost_wf: "wfHost exampleHost"
  by (simp add: wfHost_def exampleHost_def wfDouble_constants roomyHeap_def)


end
