(* ===== verification/JS_Relations.thy ===== *)
theory JS_Relations
  imports JS_Types
begin

text \<open>
  What the relational operators compute on BigInts: relations between BigInts, numbers and strings compare exact values.
\<close>


section \<open>Relations\<close>

abbreviation big :: "jsBigInt \<Rightarrow> jsValue" where
  "big x \<equiv> Primitive (JsBigInt x)"

lemma compareBigInt_exact: "canonical x \<Longrightarrow> canonical y \<Longrightarrow> compareBigInt x y = comparison (bval x) (bval y)"
  using compareImpl_comparison [of "HeapBigIntImpl x" "HeapBigIntImpl y"] by (simp add: compareBigInt_def implValid_def implVal_def)

lemma comparison_iff:
  "comparison a b = LessThan \<longleftrightarrow> a < b" "comparison a b = Equal \<longleftrightarrow> a = b" "comparison a b = GreaterThan \<longleftrightarrow> b < a" "comparison a b \<noteq> Undefined"
  by (auto simp: comparison_def)

lemma exactComparison_int32: "exactComparison v (int32ToDouble i) = comparison v (sint i)"
  using scale_pos by (simp add: exactComparison_def int32ToDouble_value comparison_scale)

lemma number_cases:
  assumes "asNumber n = Inr d"
  obtains i where "n = JsInt32 i" and "d = int32ToDouble i" | "n = JsDouble d"
  using assms by (cases n) auto

text \<open>A BigInt with a number: through the general code of the comparison operators.\<close>

lemma compareOperands_number:
  assumes "canonical x" and "asNumber n = Inr d"
  shows "compareOperands host leftFirst (big x) (Primitive n) mode f g = Inr (bigIntCompareResult (exactComparison (bval x) d) mode)"
    and "compareOperands host leftFirst (Primitive n) (big x) mode f g = Inr (bigIntCompareResult (invertBigIntCompareResult (exactComparison (bval x) d)) mode)"
  using assms(2) compareToDouble_exact [OF assms(1), of d]
  by (auto simp: compareOperands_def operandsNumeric_def toPrimitiveNumeric_def toPrimitive_def elim!: number_cases)

lemma invert_iff:
  "invertBigIntCompareResult r = LessThan \<longleftrightarrow> r = GreaterThan" "invertBigIntCompareResult r = Equal \<longleftrightarrow> r = Equal"
  by (cases r; simp)+

text \<open>Two BigInts.\<close>

lemma relations_big:
  assumes "canonical x" and "canonical y"
  shows "jsLess host leftFirst (big x) (big y) = Inr (bval x < bval y)" "jsLessEq host leftFirst (big x) (big y) = Inr (bval x \<le> bval y)"
    "jsEqual host (big x) (big y) = Inr (bval x = bval y)" "strictEqual (big x) (big y) = Inr (bval x = bval y)"
proof -
  have "compareOperands host leftFirst (big x) (big y) mode f g = Inr (bigIntCompareResult (comparison (bval x) (bval y)) mode)" for mode f g
    by (simp add: compareOperands_def operandsNumeric_def toPrimitiveNumeric_def toPrimitive_def compareBigInt_exact [OF assms])
  then show "jsLess host leftFirst (big x) (big y) = Inr (bval x < bval y)" "jsLessEq host leftFirst (big x) (big y) = Inr (bval x \<le> bval y)"
    by (auto simp: jsLess_def jsLessEq_def bigIntCompareResult_def comparison_iff)
  have "equals x y \<longleftrightarrow> bval x = bval y" using canonical_unique [OF assms] by (auto simp: equals_iff)
  then show "jsEqual host (big x) (big y) = Inr (bval x = bval y)" "strictEqual (big x) (big y) = Inr (bval x = bval y)"
    by (simp_all add: jsEqual_def equalPrimitives_def strictEqual_def)
qed

text \<open>A BigInt and a number.\<close>

lemma relations_number:
  assumes "canonical x" and "asNumber n = Inr d"
  shows "jsLess host leftFirst (big x) (Primitive n) = Inr (exactComparison (bval x) d = LessThan)"
    "jsLess host leftFirst (Primitive n) (big x) = Inr (exactComparison (bval x) d = GreaterThan)"
    "jsLessEq host leftFirst (big x) (Primitive n) = Inr (exactComparison (bval x) d = LessThan \<or> exactComparison (bval x) d = Equal)"
    "jsLessEq host leftFirst (Primitive n) (big x) = Inr (exactComparison (bval x) d = GreaterThan \<or> exactComparison (bval x) d = Equal)"
  using compareOperands_number [OF assms]
  by (auto simp: jsLess_def jsLessEq_def bigIntCompareResult_def invert_iff intro: number_cases [OF assms(2)])

lemma equality_number:
  assumes "canonical x" and "asNumber n = Inr d"
  shows "jsEqual host (big x) (Primitive n) = Inr (exactComparison (bval x) d = Equal)"
    "jsEqual host (Primitive n) (big x) = Inr (exactComparison (bval x) d = Equal)"
    "strictEqual (big x) (Primitive n) = Inr False"
  using assms(2) compareToDouble_exact [OF assms(1), of d] equalsToInt32_iff [OF assms(1)]
  by (auto simp: jsEqual_def equalPrimitives_def strictEqual_def numberValueOf_def exactComparison_int32 comparison_iff elim!: number_cases)

text \<open>A BigInt and a string.\<close>

lemma equality_string:
  assumes "canonical x" and "hasGlobalObject (bigIntEnv host)"
  shows "outcome (oom (bigIntEnv host) (digitsFor 16 (length s)))
      (\<lambda>b. b \<longleftrightarrow> stringValue (isStrWhiteSpace (spaceSeparators host)) s = Some (bval x)) (jsEqual host (big x) (Primitive (JsString s)))"
proof -
  let ?r = "stringToBigInt (bigIntEnv host) (spaceSeparators host) s"
  have p: "parses (bigIntEnv host) (digitsFor 16 (length s)) IgnoreExceptions (stringValue (isStrWhiteSpace (spaceSeparators host)) s) ?r"
    unfolding stringToBigInt_def by (rule parseInt_parses [OF assms(2)])
  have eq: "jsEqual host (big x) (Primitive (JsString s)) = equalString host (JsBigInt x) s"
    by (simp add: jsEqual_def equalPrimitives_def)
  show ?thesis
  proof (cases "stringValue (isStrWhiteSpace (spaceSeparators host)) s")
    case None
    then show ?thesis using p unfolding eq by (cases ?r) (auto simp: parses_def parseError_def split: js_error.splits)
  next
    case (Some v)
    then have c: "computes (bigIntEnv host) (digitsFor 16 (length s)) ?r v" using p by (simp add: parses_def)
    show ?thesis
    proof (cases ?r)
      case (Inl e)
      then show ?thesis using c assms(2) unfolding eq by (auto simp: oom_def outOfMemory_def split: js_error.splits)
    next
      case (Inr y)
      then have "canonical y" "bval y = v" using c by (simp_all add: represents_def)
      then show ?thesis using Inr Some canonical_unique [OF assms(1)] unfolding eq by (auto simp: equals_iff)
    qed
  qed
qed

text \<open>
  C38. Relations with BigInts are exact. The operators \<^verbatim>\<open><\<close>, \<^verbatim>\<open><=\<close> and \<^verbatim>\<open>==\<close> compare two BigInts, and a BigInt with a number (an integer or any double, on
  either side), by their mathematical values; infinities are beyond all BigInts, and comparisons with NaN are false. \<^verbatim>\<open>===\<close> tells BigInts
  from numbers. A string is compared as the BigInt that it denotes, and is not comparable if it denotes none; only memory may run out.
\<close>

theorem bigint_relations_exact:
  assumes "canonical x" and "canonical y" and "asNumber n = Inr d" and "hasGlobalObject (bigIntEnv host)"
  shows "jsLess host leftFirst (big x) (big y) = Inr (bval x < bval y) \<and> jsLessEq host leftFirst (big x) (big y) = Inr (bval x \<le> bval y)
    \<and> jsEqual host (big x) (big y) = Inr (bval x = bval y) \<and> strictEqual (big x) (big y) = Inr (bval x = bval y)
    \<and> jsLess host leftFirst (big x) (Primitive n) = Inr (exactComparison (bval x) d = LessThan)
    \<and> jsLess host leftFirst (Primitive n) (big x) = Inr (exactComparison (bval x) d = GreaterThan)
    \<and> jsLessEq host leftFirst (big x) (Primitive n) = Inr (exactComparison (bval x) d = LessThan \<or> exactComparison (bval x) d = Equal)
    \<and> jsLessEq host leftFirst (Primitive n) (big x) = Inr (exactComparison (bval x) d = GreaterThan \<or> exactComparison (bval x) d = Equal)
    \<and> jsEqual host (big x) (Primitive n) = Inr (exactComparison (bval x) d = Equal)
    \<and> jsEqual host (Primitive n) (big x) = Inr (exactComparison (bval x) d = Equal)
    \<and> strictEqual (big x) (Primitive n) = Inr False
    \<and> outcome (oom (bigIntEnv host) (digitsFor 16 (length s)))
        (\<lambda>b. b \<longleftrightarrow> stringValue (isStrWhiteSpace (spaceSeparators host)) s = Some (bval x)) (jsEqual host (big x) (Primitive (JsString s)))"
  using relations_big [OF assms(1,2)] relations_number [OF assms(1,3)] equality_number [OF assms(1,3)] equality_string [OF assms(1,4)]
  by (intro conjI) blast+

text \<open>3n with -5n and with 2.5, the latter by its bits.\<close>

theorem bigint_relations_exact_witness:
  "jsLess exampleHost True (big (posBig [3])) (big (negBig [5])) = Inr False
   \<and> jsLess exampleHost False (Primitive (JsDouble 0x4004000000000000)) (big (posBig [3])) = Inr True
   \<and> jsEqual exampleHost (big (posBig [3])) (Primitive (JsDouble 0x4004000000000000)) = Inr False"
proof -
  have c: "canonical (posBig [3])" "canonical (negBig [5])" by (simp_all add: canonical_def maxLength_eq)
  have g: "hasGlobalObject (bigIntEnv exampleHost)" by (simp add: exampleHost_def roomyHeap_def)
  have d: "exactComparison (bval (posBig [3])) 0x4004000000000000 = GreaterThan"
    using five_halves by (simp add: exactComparison_def comparison_def bval_def)
  have n: "asNumber (JsDouble 0x4004000000000000) = Inr 0x4004000000000000" by simp
  show ?thesis
    using bigint_relations_exact [OF c n g, of True "[]"] bigint_relations_exact [OF c n g, of False "[]"] d by (simp add: bval_def)
qed

end
