(* ===== verification/Digit_Multiply.thy ===== *)
theory Digit_Multiply
  imports Digits
begin

text \<open>
  \<^verbatim>\<open>digitMul\<close> of \<^verbatim>\<open>runtime/JSBigInt.cpp\<close> has two bodies, chosen by the preprocessor: one
  multiplies in a 128-bit type (\<open>digitMul\<close> of \<^verbatim>\<open>Digits\<close>, the one the other theories use), the
  other, for compilers without such a type, adds up four products of half digits. They agree.
\<close>

text \<open>Without it: four products of half digits.\<close>

definition digitMulHalves :: "digit \<Rightarrow> digit \<Rightarrow> digit \<times> digit" where
  "digitMulHalves a b =
     (let aLow = a AND halfDigitMask;
          aHigh = drop_bit halfDigitBits a;
          bLow = b AND halfDigitMask;
          bHigh = drop_bit halfDigitBits b;
          rLow = aLow * bLow;
          rMid1 = aLow * bHigh;
          rMid2 = aHigh * bLow;
          rHigh = aHigh * bHigh;
          carry = 0;
          (low, carry) = digitAdd rLow (push_bit halfDigitBits rMid1) carry;
          (low, carry) = digitAdd low (push_bit halfDigitBits rMid2) carry;
          high = drop_bit halfDigitBits rMid1 + drop_bit halfDigitBits rMid2 + rHigh + carry
      in (low, high))"

lemma half_product:
  assumes "0 \<le> p" "p < 2 ^ 32" "0 \<le> q" "q < (2 :: int) ^ 32" "uint (x :: digit) = p" "uint (y :: digit) = q"
  shows "uint (x * y) = p * q"
proof -
  have "p * q \<le> (2 ^ 32 - 1) * (2 ^ 32 - 1)" using assms by (intro mult_mono) auto
  then show ?thesis using assms by (simp add: uint_word_ariths)
qed

lemma push_half_split:
  "digitBase * (uint m div 2 ^ 32) + uint (push_bit halfDigitBits m) = uint (m :: digit) * 2 ^ 32"
proof -
  define q r where "q = uint m div 2 ^ 32" and "r = uint m mod 2 ^ 32"
  have "uint (push_bit halfDigitBits m) = 2 ^ 32 * r"
    using mult_mod_right [of "2 ^ 32" "uint m" "2 ^ 32"]
    by (simp add: halfDigitBits_def digitBits_def uint_push_bit mult.commute r_def)
  moreover have "uint m = 2 ^ 32 * q + r" by (simp add: q_def r_def)
  ultimately have "digitBase * q + uint (push_bit halfDigitBits m) = uint m * 2 ^ 32"
    by (simp add: digitBase_num)
  then show ?thesis by (simp only: q_def)
qed

lemma digitMulHalves_law:
  assumes "digitMulHalves a b = (low, high)"
  shows "uint low + digitBase * uint high = uint a * uint b"
proof -
  define H :: int where "H = 2 ^ 32"
  define aL aH bL bH where "aL = uint a mod H" and "aH = uint a div H"
    and "bL = uint b mod H" and "bH = uint b div H"
  define rLow where "rLow = (a AND halfDigitMask) * (b AND halfDigitMask)"
  define rMid1 where "rMid1 = (a AND halfDigitMask) * drop_bit halfDigitBits b"
  define rMid2 where "rMid2 = drop_bit halfDigitBits a * (b AND halfDigitMask)"
  define rHigh where "rHigh = drop_bit halfDigitBits a * drop_bit halfDigitBits b"
  have bnd: "0 \<le> aL" "aL < H" "0 \<le> aH" "aH < H" "0 \<le> bL" "bL < H" "0 \<le> bH" "bH < H"
    using uint_lt_64 [of a] uint_lt_64 [of b]
    by (auto simp: aL_def aH_def bL_def bH_def H_def pos_imp_zdiv_nonneg_iff div_less_iff_less_mult)
  have vals: "uint rLow = aL * bL" "uint rMid1 = aL * bH" "uint rMid2 = aH * bL" "uint rHigh = aH * bH"
    unfolding rLow_def rMid1_def rMid2_def rHigh_def
    by (rule half_product; use bnd in \<open>simp add: halfDigit_split aL_def aH_def bL_def bH_def H_def\<close>)+
  obtain l1 c1 where e1: "digitAdd rLow (push_bit halfDigitBits rMid1) 0 = (l1, c1)" by fastforce
  obtain l2 c2 where e2: "digitAdd l1 (push_bit halfDigitBits rMid2) c1 = (l2, c2)" by fastforce
  have out: "low = l2" "high = drop_bit halfDigitBits rMid1 + drop_bit halfDigitBits rMid2 + rHigh + c2"
    using assms
    by (simp_all add: digitMulHalves_def Let_def e1 e2 split: prod.splits
        flip: rLow_def rMid1_def rMid2_def rHigh_def)
  note L1 = digitAdd_law [OF e1]
  have c1: "uint c1 \<le> 1" using L1(2) by simp
  note L2 = digitAdd_law [OF e2]
  define hi where "hi = uint rMid1 div H + uint rMid2 div H + aH * bH + uint c2"
  have "uint a = aL + H * aH" "uint b = bL + H * bH"
    by (simp_all add: aL_def aH_def bL_def bH_def)
  then have "uint a * uint b = uint rLow + uint rMid1 * H + uint rMid2 * H + (H * H) * (aH * bH)"
    by (simp add: vals algebra_simps)
  then have total: "uint a * uint b = uint l2 + digitBase * hi"
    using push_half_split [of rMid1] push_half_split [of rMid2] L1(1) L2(1) c1
    by (simp add: hi_def H_def digitBase_num algebra_simps)
  have "0 \<le> hi" using bnd by (simp add: hi_def vals H_def pos_imp_zdiv_nonneg_iff)
  moreover have "hi < digitBase"
  proof (rule ccontr)
    assume "\<not> hi < digitBase"
    then have "digitBase * digitBase \<le> digitBase * hi" by (intro mult_left_mono) auto
    then have "digitBase * digitBase \<le> (digitBase - 1) * (digitBase - 1)"
      using total uint_product_bound [of a b] uint_nonneg [of l2] by linarith
    then show False by (simp add: digitBase_num)
  qed
  ultimately have "uint high = hi"
    by (simp add: out uint_word_ariths halfDigit_split vals hi_def H_def digitBase_num mod_simps)
  with total show ?thesis by (simp add: out)
qed



text \<open>
  C10. The portable multiplication of two digits, built from four products of half digits, gives
  the same low and high digit as the multiplication in a 128-bit type, and both give the exact
  product: \<^verbatim>\<open>low + 2^64 * high = a * b\<close>.
\<close>

theorem digitMulHalves_correct:
  "digitMulHalves a b = digitMul a b
   \<and> uint (fst (digitMul a b)) + 2 ^ 64 * uint (snd (digitMul a b)) = uint a * uint b"
proof
  obtain l h l' h' where e: "digitMulHalves a b = (l, h)" "digitMul a b = (l', h')" by fastforce
  then show "digitMulHalves a b = digitMul a b"
    using digit_pair_unique [of l h l' h'] digitMulHalves_law [OF e(1)] digitMul_law(1) [OF e(2)] by simp
  show "uint (fst (digitMul a b)) + 2 ^ 64 * uint (snd (digitMul a b)) = uint a * uint b"
    using digitMul_law(1) [OF e(2)] by (simp add: e(2) digitBase_num)
qed

end
