(* ===== verification/Parking_Lot.thy ===== *)
theory Parking_Lot
  imports Prelude
begin

text \<open>
  The queues of \<^verbatim>\<open>WTF/wtf/ParkingLot.cpp\<close>. A \<^verbatim>\<open>Bucket\<close> is a singly linked list threaded through the \<^verbatim>\<open>nextInQueue\<close> fields of the
  \<^verbatim>\<open>ThreadData\<close> of the parked threads, with a head and a tail pointer; it is modelled on an explicit store that maps a
  thread to its \<^verbatim>\<open>ThreadData\<close>. The loop of \<^verbatim>\<open>genericDequeue\<close> walks the list with a pointer to the pointer to the current
  node. Each operation of a bucket runs with the bucket's lock held and is one step.
\<close>


section \<open>Thread data and buckets\<close>

type_synonym tid = nat

type_synonym address = "64 word"

record threadData =
  td_address :: address
  nextInQueue :: "tid option"
  td_token :: nat

type_synonym store = "tid \<Rightarrow> threadData"

record bucket =
  queueHead :: "tid option"
  queueTail :: "tid option"
  nextFairTime :: int

datatype DequeueResult = Ignore | RemoveAndContinue | RemoveAndStop

datatype lot_error = AssertionFailure

definition setNext :: "store \<Rightarrow> tid \<Rightarrow> tid option \<Rightarrow> store" where
  "setNext h t n = h(t := (h t)\<lparr>nextInQueue := n\<rparr>)"

definition setAddress :: "store \<Rightarrow> tid \<Rightarrow> address \<Rightarrow> store" where
  "setAddress h t a = h(t := (h t)\<lparr>td_address := a\<rparr>)"

definition setToken :: "store \<Rightarrow> tid \<Rightarrow> nat \<Rightarrow> store" where
  "setToken h t k = h(t := (h t)\<lparr>td_token := k\<rparr>)"

definition bucketEnqueue :: "store \<Rightarrow> bucket \<Rightarrow> tid \<Rightarrow> (lot_error, store \<times> bucket) result" where
  "bucketEnqueue h b data =
     (if td_address (h data) = 0 \<or> nextInQueue (h data) \<noteq> None then Inl AssertionFailure
      else case queueTail b of
        Some t \<Rightarrow> Inr (setNext h t (Some data), b\<lparr>queueTail := Some data\<rparr>)
      | None \<Rightarrow> Inr (h, b\<lparr>queueHead := Some data, queueTail := Some data\<rparr>))"

text \<open>\<^verbatim>\<open>ThreadData** currentPtr\<close> points to the head pointer or to the link of a node.\<close>

datatype nodePtr = HeadPtr | NextPtr tid

fun deref :: "store \<Rightarrow> bucket \<Rightarrow> nodePtr \<Rightarrow> tid option" where
  "deref h b HeadPtr = queueHead b"
| "deref h b (NextPtr t) = nextInQueue (h t)"

fun assignPtr :: "store \<Rightarrow> bucket \<Rightarrow> nodePtr \<Rightarrow> tid option \<Rightarrow> store \<times> bucket" where
  "assignPtr h b HeadPtr n = (h, b\<lparr>queueHead := n\<rparr>)"
| "assignPtr h b (NextPtr t) n = (setNext h t n, b)"

text \<open>The removal of the current node.\<close>

definition unlink :: "store \<Rightarrow> bucket \<Rightarrow> nodePtr \<Rightarrow> tid option \<Rightarrow> tid \<Rightarrow> store \<times> bucket" where
  "unlink h b currentPtr previous current =
     (let b = (if queueTail b = Some current then b\<lparr>queueTail := previous\<rparr> else b);
          (h, b) = assignPtr h b currentPtr (nextInQueue (h current))
      in (setNext h current None, b))"

text \<open>
  The functor sees the thread, its address and \<^verbatim>\<open>timeToBeFair\<close>, and updates the variables \<open>s\<close> it captured. The loop need
  not end on a list with a cycle: then its value is \<open>None\<close>.
\<close>

type_synonym 's dequeueFunctor = "tid \<Rightarrow> address \<Rightarrow> bool \<Rightarrow> 's \<Rightarrow> DequeueResult \<times> 's"

partial_function (option) dequeueLoop ::
  "'s dequeueFunctor \<Rightarrow> bool \<Rightarrow> store \<Rightarrow> bucket \<Rightarrow> nodePtr \<Rightarrow> tid option \<Rightarrow> bool \<Rightarrow> 's \<Rightarrow> (store \<times> bucket \<times> bool \<times> 's) option" where
  "dequeueLoop f timeToBeFair h b currentPtr previous didDequeue s =
     (case deref h b currentPtr of
        None \<Rightarrow> Some (h, b, didDequeue, s)
      | Some current \<Rightarrow>
          (case f current (td_address (h current)) timeToBeFair s of
             (result, s) \<Rightarrow>
               (case result of
                  Ignore \<Rightarrow> dequeueLoop f timeToBeFair h b (NextPtr current) (Some current) didDequeue s
                | RemoveAndStop \<Rightarrow>
                    (case unlink h b currentPtr previous current of (h, b) \<Rightarrow> Some (h, b, True, s))
                | RemoveAndContinue \<Rightarrow>
                    (case unlink h b currentPtr previous current of (h, b) \<Rightarrow>
                       dequeueLoop f timeToBeFair h b currentPtr previous True s))))"

text \<open>\<open>time\<close> is \<^verbatim>\<open>MonotonicTime::now()\<close> and \<open>delay\<close> the drawn \<^verbatim>\<open>Seconds::fromMilliseconds(random.get())\<close>.\<close>

definition genericDequeue ::
  "int \<Rightarrow> int \<Rightarrow> 's dequeueFunctor \<Rightarrow> store \<Rightarrow> bucket \<Rightarrow> 's \<Rightarrow> (lot_error, store \<times> bucket \<times> 's) result option" where
  "genericDequeue time delay f h b s =
     (if queueHead b = None then Some (Inr (h, b, s))
      else let timeToBeFair = time > nextFairTime b
           in case dequeueLoop f timeToBeFair h b HeadPtr None False s of
                None \<Rightarrow> None
              | Some (h, b, didDequeue, s) \<Rightarrow>
                  let b = (if timeToBeFair \<and> didDequeue then b\<lparr>nextFairTime := time + delay\<rparr> else b)
                  in if (queueHead b \<noteq> None) = (queueTail b \<noteq> None) then Some (Inr (h, b, s))
                     else Some (Inl AssertionFailure))"

definition bucketDequeue :: "int \<Rightarrow> int \<Rightarrow> store \<Rightarrow> bucket \<Rightarrow> (lot_error, store \<times> bucket \<times> tid option) result option" where
  "bucketDequeue time delay h b = genericDequeue time delay (\<lambda>element _ _ _. (RemoveAndStop, Some element)) h b None"


section \<open>The list a bucket represents\<close>

fun path :: "store \<Rightarrow> tid option \<Rightarrow> tid list \<Rightarrow> tid option \<Rightarrow> bool" where
  "path h p [] q = (p = q)"
| "path h p (x # xs) q = (p = Some x \<and> path h (nextInQueue (h x)) xs q)"

definition isQueue :: "store \<Rightarrow> bucket \<Rightarrow> tid list \<Rightarrow> bool" where
  "isQueue h b xs \<longleftrightarrow> distinct xs \<and> path h (queueHead b) xs None \<and> queueTail b = (if xs = [] then None else Some (last xs))"

lemma path_append: "path h p (xs @ ys) q \<longleftrightarrow> (\<exists>r. path h p xs r \<and> path h r ys q)"
  by (induction xs arbitrary: p) auto

lemma path_cong: "\<forall>x\<in>set xs. nextInQueue (h' x) = nextInQueue (h x) \<Longrightarrow> path h' p xs q = path h p xs q"
  by (induction xs arbitrary: p) auto

lemma isQueue_cong: "isQueue h b xs \<Longrightarrow> \<forall>x\<in>set xs. nextInQueue (h' x) = nextInQueue (h x) \<Longrightarrow> isQueue h' b xs"
  using path_cong [of xs h' h] by (simp add: isQueue_def)

lemma path_unique: "path h p xs None \<Longrightarrow> path h p ys None \<Longrightarrow> xs = ys"
proof (induction xs arbitrary: p ys)
  case (Cons x xs)
  then show ?case by (cases ys) auto
qed (auto elim: path.elims)

text \<open>The pointers of the loop after it has passed the nodes \<open>pre\<close>.\<close>

definition ptrOf :: "tid list \<Rightarrow> nodePtr" where
  "ptrOf pre = (if pre = [] then HeadPtr else NextPtr (last pre))"

definition prevOf :: "tid list \<Rightarrow> tid option" where
  "prevOf pre = (if pre = [] then None else Some (last pre))"

lemma deref_ptrOf: "isQueue h b (pre @ rest) \<Longrightarrow> deref h b (ptrOf pre) = (if rest = [] then None else Some (hd rest))"
  by (cases pre rule: rev_cases; cases rest) (auto simp: isQueue_def ptrOf_def path_append)

lemma setNext_simps [simp]:
  "nextInQueue (setNext h t n u) = (if u = t then n else nextInQueue (h u))"
  "td_address (setNext h t n u) = td_address (h u)"
  "td_token (setNext h t n u) = td_token (h u)"
  by (simp_all add: setNext_def)

lemma unlink_isQueue:
  assumes "isQueue h b (pre @ x # rest)" and "unlink h b (ptrOf pre) (prevOf pre) x = (h', b')"
  shows "isQueue h' b' (pre @ rest)" and "nextInQueue (h' x) = None" and "nextFairTime b' = nextFairTime b"
    and "td_address (h' t) = td_address (h t)" and "td_token (h' t) = td_token (h t)"
    and "t \<notin> set (pre @ x # rest) \<Longrightarrow> h' t = h t"
proof -
  have q: "distinct (pre @ x # rest)" "path h (queueHead b) (pre @ x # rest) None" "queueTail b = Some (last (x # rest))"
    using assms(1) by (auto simp: isQueue_def)
  have tail: "queueTail b = Some x \<longleftrightarrow> rest = []" using q(1,3) by (cases rest rule: rev_cases) auto
  have "isQueue h' b' (pre @ rest) \<and> nextInQueue (h' x) = None \<and> nextFairTime b' = nextFairTime b
      \<and> td_address (h' t) = td_address (h t) \<and> td_token (h' t) = td_token (h t) \<and> (t \<notin> set (pre @ x # rest) \<longrightarrow> h' t = h t)"
  proof (cases pre rule: rev_cases)
    case Nil
    have "path (setNext h x None) (nextInQueue (h x)) rest None" using q Nil path_cong [of rest "setNext h x None" h] by auto
    then show ?thesis using assms(2) q tail Nil
      by (auto simp: unlink_def ptrOf_def prevOf_def isQueue_def setNext_def [of _ _ None] split: if_splits)
  next
    case (snoc pre' l)
    define k where "k = setNext (setNext h l (nextInQueue (h x))) x None"
    have keep: "path k p ys r = path h p ys r" if "l \<notin> set ys" "x \<notin> set ys" for p ys r
      using that by (intro path_cong) (auto simp: k_def)
    have "path k (queueHead b) pre' (Some l)" "path k (nextInQueue (h x)) rest None" "nextInQueue (k l) = nextInQueue (h x)"
      using q snoc by (auto simp: path_append keep) (simp add: k_def)
    moreover have "h' = k" using assms(2) snoc by (auto simp: unlink_def ptrOf_def k_def)
    moreover have "k t = h t" if "t \<notin> set (pre @ x # rest)" using that snoc by (simp add: k_def setNext_def)
    ultimately show ?thesis using assms(2) q tail snoc
      by (auto simp: unlink_def ptrOf_def prevOf_def isQueue_def path_append k_def split: if_splits)
  qed
  then show "isQueue h' b' (pre @ rest)" "nextInQueue (h' x) = None" "nextFairTime b' = nextFairTime b"
    "td_address (h' t) = td_address (h t)" "td_token (h' t) = td_token (h t)" "t \<notin> set (pre @ x # rest) \<Longrightarrow> h' t = h t" by auto
qed

text \<open>What a walk over the queue does, on lists: the threads kept, the threads removed and the captured variables.\<close>

fun dequeueList :: "'s dequeueFunctor \<Rightarrow> bool \<Rightarrow> (tid \<Rightarrow> address) \<Rightarrow> tid list \<Rightarrow> 's \<Rightarrow> tid list \<times> tid list \<times> 's" where
  "dequeueList f fair A [] s = ([], [], s)"
| "dequeueList f fair A (x # xs) s =
     (case f x (A x) fair s of
        (Ignore, s) \<Rightarrow> (case dequeueList f fair A xs s of (kept, removed, s) \<Rightarrow> (x # kept, removed, s))
      | (RemoveAndContinue, s) \<Rightarrow> (case dequeueList f fair A xs s of (kept, removed, s) \<Rightarrow> (kept, x # removed, s))
      | (RemoveAndStop, s) \<Rightarrow> (xs, [x], s))"

text \<open>What the walk leaves alone.\<close>

definition sameData :: "store \<Rightarrow> store \<Rightarrow> bool" where
  "sameData h h' \<longleftrightarrow> (\<forall>t. td_address (h' t) = td_address (h t) \<and> td_token (h' t) = td_token (h t))"

lemma dequeueLoop_refines:
  assumes "isQueue h b (pre @ rest)" and "dequeueList f fair (\<lambda>t. td_address (h t)) rest s = (kept, removed, s')"
  shows "\<exists>h' b'. dequeueLoop f fair h b (ptrOf pre) (prevOf pre) did s = Some (h', b', did \<or> removed \<noteq> [], s')
    \<and> isQueue h' b' (pre @ kept) \<and> nextFairTime b' = nextFairTime b \<and> sameData h h'
    \<and> (\<forall>x\<in>set removed. nextInQueue (h' x) = None) \<and> (\<forall>t. t \<notin> set (pre @ rest) \<longrightarrow> h' t = h t)"
  using assms
proof (induction rest arbitrary: h b pre did s kept removed s')
  case Nil
  then show ?case using deref_ptrOf [OF Nil.prems(1)] by (subst dequeueLoop.simps) (auto simp: sameData_def)
next
  case (Cons x rest)
  have d: "deref h b (ptrOf pre) = Some x" using deref_ptrOf [OF Cons.prems(1)] by simp
  obtain r s1 where f: "f x (td_address (h x)) fair s = (r, s1)" by fastforce
  obtain k rm s2 where rec: "dequeueList f fair (\<lambda>t. td_address (h t)) rest s1 = (k, rm, s2)" by (metis prod.exhaust)
  obtain h1 b1 where u: "unlink h b (ptrOf pre) (prevOf pre) x = (h1, b1)" by fastforce
  note unl = unlink_isQueue [OF Cons.prems(1) u]
  have x: "x \<notin> set rest" "x \<notin> set pre" using Cons.prems(1) by (auto simp: isQueue_def)
  show ?case
  proof (cases r)
    case Ignore
    have ptr: "ptrOf (pre @ [x]) = NextPtr x" "prevOf (pre @ [x]) = Some x" by (simp_all add: ptrOf_def prevOf_def)
    have "isQueue h b ((pre @ [x]) @ rest)" using Cons.prems(1) by simp
    from Cons.IH [OF this rec, of did] show ?thesis
      using Cons.prems(2) f rec Ignore d by (subst dequeueLoop.simps) (auto simp: ptr)
  next
    case RemoveAndStop
    then show ?thesis
      using Cons.prems(2) f d u unl by (subst dequeueLoop.simps) (auto simp: sameData_def)
  next
    case RemoveAndContinue
    have A: "(\<lambda>t. td_address (h1 t)) = (\<lambda>t. td_address (h t))" using unl(4) by auto
    obtain h' b' where IH: "dequeueLoop f fair h1 b1 (ptrOf pre) (prevOf pre) True s1 = Some (h', b', True, s2)"
        "isQueue h' b' (pre @ k)" "nextFairTime b' = nextFairTime b1" "sameData h1 h'" "\<forall>x\<in>set rm. nextInQueue (h' x) = None"
        "\<forall>t. t \<notin> set (pre @ rest) \<longrightarrow> h' t = h1 t"
      using Cons.IH [OF unl(1), of s1 k rm s2 True] rec unfolding A by auto
    have "nextInQueue (h' x) = None" using IH(6) x unl(2) by simp
    then show ?thesis
      using Cons.prems(2) f rec RemoveAndContinue d u unl IH by (subst dequeueLoop.simps) (auto simp: sameData_def)
  qed
qed
section \<open>Parking and unparking on one bucket\<close>

text \<open>
  The part of \<^verbatim>\<open>parkConditionallyImpl\<close> up to the release of the bucket's lock: \<open>validation\<close> is the value of the validation functor
  at that moment. The result tells whether the thread \<open>me\<close> is enqueued and has to sleep.
\<close>

definition parkEnqueue :: "address \<Rightarrow> bool \<Rightarrow> tid \<Rightarrow> store \<Rightarrow> bucket \<Rightarrow> (lot_error, store \<times> bucket \<times> bool) result" where
  "parkEnqueue a validation me h b =
     (let h = setToken h me 0
      in if td_address (h me) \<noteq> 0 then Inl AssertionFailure
         else if \<not> validation then Inr (h, b, False)
         else andThen (bucketEnqueue (setAddress h me a) b me) (\<lambda>(h, b). Inr (h, b, True)))"

record unparkResult =
  didUnparkThread :: bool
  mayHaveMoreThreads :: bool
  timeToBeFair :: bool

text \<open>The functor that picks the first thread parked on the address.\<close>

definition pickFirst :: "address \<Rightarrow> (tid option \<times> bool) dequeueFunctor" where
  "pickFirst a element elementAddress passedTimeToBeFair s =
     (if elementAddress \<noteq> a then (Ignore, s) else (RemoveAndStop, (Some element, passedTimeToBeFair)))"

text \<open>
  \<^verbatim>\<open>unparkOneImpl\<close> up to the release of the bucket's lock. The callback runs with the lock held; it may change the state \<open>w\<close>
  of its caller and returns the token for the thread.
\<close>

definition unparkOneImpl ::
  "int \<Rightarrow> int \<Rightarrow> address \<Rightarrow> (unparkResult \<Rightarrow> 'w \<Rightarrow> nat \<times> 'w) \<Rightarrow> store \<Rightarrow> bucket \<Rightarrow> 'w \<Rightarrow> (lot_error, store \<times> bucket \<times> tid option \<times> 'w) result option" where
  "unparkOneImpl time delay a callback h b w =
     (case genericDequeue time delay (pickFirst a) h b (None, False) of
        None \<Rightarrow> None
      | Some (Inl e) \<Rightarrow> Some (Inl e)
      | Some (Inr (h, b, (td, fair))) \<Rightarrow>
          (let result = \<lparr>didUnparkThread = (td \<noteq> None), mayHaveMoreThreads = (td \<noteq> None \<and> queueHead b \<noteq> None), timeToBeFair = fair\<rparr>
           in if fair \<and> td = None then Some (Inl AssertionFailure)
              else case callback result w of
                (token, w) \<Rightarrow>
                  Some (Inr ((case td of None \<Rightarrow> h | Some t \<Rightarrow> setToken h t token), b, td, w))))"

text \<open>The last part, with the parking lock of the thread held: the thread is told that it left the queue.\<close>

definition wake :: "store \<Rightarrow> tid \<Rightarrow> store" where
  "wake h t = setAddress h t 0"

definition unparkOne :: "int \<Rightarrow> int \<Rightarrow> address \<Rightarrow> store \<Rightarrow> bucket \<Rightarrow> (lot_error, store \<times> bucket \<times> unparkResult) result option" where
  "unparkOne time delay a h b =
     (case genericDequeue time delay (pickFirst a) h b (None, False) of
        None \<Rightarrow> None
      | Some (Inl e) \<Rightarrow> Some (Inl e)
      | Some (Inr (h, b, (td, _))) \<Rightarrow>
          (case td of
             None \<Rightarrow> Some (Inr (h, b, \<lparr>didUnparkThread = False, mayHaveMoreThreads = False, timeToBeFair = False\<rparr>))
           | Some t \<Rightarrow>
               if td_address (h t) = 0 then Some (Inl AssertionFailure)
               else Some (Inr (setToken (wake h t) t 0, b,
                     \<lparr>didUnparkThread = True, mayHaveMoreThreads = (queueHead b \<noteq> None), timeToBeFair = False\<rparr>))))"

text \<open>The functor of \<^verbatim>\<open>unparkCount\<close> collects threads in a vector; \<^verbatim>\<open>unparkAll\<close> asks for \<^verbatim>\<open>UINT_MAX\<close> threads.\<close>

definition pickCount :: "address \<Rightarrow> nat \<Rightarrow> tid list dequeueFunctor" where
  "pickCount a count element elementAddress fair threadDatas =
     (if elementAddress \<noteq> a then (Ignore, threadDatas)
      else let threadDatas = threadDatas @ [element]
           in if length threadDatas = count then (RemoveAndStop, threadDatas) else (RemoveAndContinue, threadDatas))"

fun wakeEach :: "store \<Rightarrow> tid list \<Rightarrow> (lot_error, store) result" where
  "wakeEach h [] = Inr h"
| "wakeEach h (t # ts) = (if td_address (h t) = 0 then Inl AssertionFailure else wakeEach (wake h t) ts)"

definition unparkCount :: "int \<Rightarrow> int \<Rightarrow> address \<Rightarrow> nat \<Rightarrow> store \<Rightarrow> bucket \<Rightarrow> (lot_error, store \<times> bucket \<times> nat) result option" where
  "unparkCount time delay a count h b =
     (if count = 0 then Some (Inr (h, b, 0))
      else case genericDequeue time delay (pickCount a count) h b [] of
        None \<Rightarrow> None
      | Some (Inl e) \<Rightarrow> Some (Inl e)
      | Some (Inr (h, b, threadDatas)) \<Rightarrow>
          Some (andThen (wakeEach h threadDatas) (\<lambda>h. Inr (h, b, length threadDatas))))"

definition unparkAll :: "int \<Rightarrow> int \<Rightarrow> address \<Rightarrow> store \<Rightarrow> bucket \<Rightarrow> (lot_error, store \<times> bucket \<times> nat) result option" where
  "unparkAll time delay a h b = unparkCount time delay a 0xFFFFFFFF h b"

text \<open>
  The end of \<^verbatim>\<open>parkConditionallyImpl\<close> after a timeout: the thread takes itself off the queue. The result tells whether it
  did; if not, somebody else had dequeued it, and the code waits until its address is null.
\<close>

definition dequeueMyself :: "int \<Rightarrow> int \<Rightarrow> tid \<Rightarrow> store \<Rightarrow> bucket \<Rightarrow> (lot_error, store \<times> bucket \<times> bool) result option" where
  "dequeueMyself time delay me h b =
     (case genericDequeue time delay (\<lambda>element _ _ didDequeue. if element = me then (RemoveAndStop, True) else (Ignore, didDequeue)) h b False of
        None \<Rightarrow> None
      | Some (Inl e) \<Rightarrow> Some (Inl e)
      | Some (Inr (h, b, didDequeue)) \<Rightarrow>
          if nextInQueue (h me) \<noteq> None then Some (Inl AssertionFailure)
          else Some (Inr (if didDequeue then setAddress h me 0 else h, b, didDequeue)))"


section \<open>Buckets implement queues\<close>

lemma genericDequeue_refines:
  assumes q: "isQueue h b xs" and d: "dequeueList f (time > nextFairTime b) (\<lambda>t. td_address (h t)) xs s = (kept, removed, s')"
  shows "\<exists>h' b'. genericDequeue time delay f h b s = Some (Inr (h', b', s')) \<and> isQueue h' b' kept \<and> sameData h h'
    \<and> (\<forall>x\<in>set removed. nextInQueue (h' x) = None) \<and> (\<forall>t. t \<notin> set xs \<longrightarrow> h' t = h t)"
proof (cases "xs = []")
  case True
  then have "queueHead b = None" using q by (simp add: isQueue_def)
  then show ?thesis using True q d by (auto simp: genericDequeue_def sameData_def)
next
  case False
  then have head: "queueHead b \<noteq> None" using q by (cases xs) (auto simp: isQueue_def)
  obtain h' b' where loop: "dequeueLoop f (time > nextFairTime b) h b HeadPtr None False s = Some (h', b', removed \<noteq> [], s')"
      "isQueue h' b' kept" "sameData h h'" "\<forall>x\<in>set removed. nextInQueue (h' x) = None" "\<forall>t. t \<notin> set xs \<longrightarrow> h' t = h t"
    using dequeueLoop_refines [of h b "[]" xs f "time > nextFairTime b" s kept removed s' False] q d by (auto simp: ptrOf_def prevOf_def)
  have "(queueHead b' \<noteq> None) = (queueTail b' \<noteq> None)" using loop(2) by (cases kept) (auto simp: isQueue_def)
  moreover have "isQueue h' (b'\<lparr>nextFairTime := v\<rparr>) kept" for v using loop(2) by (simp add: isQueue_def)
  ultimately show ?thesis using head loop by (auto simp: genericDequeue_def Let_def)
qed

lemma bucketEnqueue_refines:
  assumes q: "isQueue h b xs" and t: "t \<notin> set xs" "td_address (h t) \<noteq> 0" "nextInQueue (h t) = None"
  shows "\<exists>h' b'. bucketEnqueue h b t = Inr (h', b') \<and> isQueue h' b' (xs @ [t]) \<and> sameData h h' \<and> (\<forall>u. u \<notin> set xs \<longrightarrow> h' u = h u)"
proof (cases xs rule: rev_cases)
  case Nil
  then show ?thesis using q t by (auto simp: bucketEnqueue_def isQueue_def sameData_def)
next
  case (snoc ys l)
  define k where "k = setNext h l (Some t)"
  have "path k (queueHead b) ys (Some l) = path h (queueHead b) ys (Some l)"
    using q snoc by (intro path_cong) (auto simp: isQueue_def k_def)
  then have "path k (queueHead b) ys (Some l)" using q snoc by (auto simp: isQueue_def path_append)
  then have "isQueue k (b\<lparr>queueTail := Some t\<rparr>) (xs @ [t])" using q snoc t by (auto simp: isQueue_def path_append k_def)
  moreover have "bucketEnqueue h b t = Inr (k, b\<lparr>queueTail := Some t\<rparr>)" using q snoc t by (simp add: bucketEnqueue_def isQueue_def k_def)
  moreover have "k u = h u" if "u \<notin> set xs" for u using that snoc by (simp add: k_def setNext_def)
  ultimately show ?thesis by (auto simp: sameData_def k_def)
qed

lemma pickFirst_list:
  "dequeueList (pickFirst a) fair A xs (None, False) =
     (case filter (\<lambda>t. A t = a) xs of
        [] \<Rightarrow> (xs, [], (None, False))
      | t # _ \<Rightarrow> (remove1 t xs, [t], (Some t, fair)))"
proof (induction xs)
  case (Cons x xs)
  have "t \<noteq> x" if "filter (\<lambda>t. A t = a) xs = t # ts" "A x \<noteq> a" for t ts
    using that Cons_eq_filterD [of t ts "\<lambda>t. A t = a" xs] by auto
  then show ?case using Cons by (auto simp: pickFirst_def split: list.splits)
qed simp
lemma isQueue_head: "isQueue h b xs \<Longrightarrow> queueHead b = None \<longleftrightarrow> xs = []"
  by (cases xs) (auto simp: isQueue_def)

lemma set_fields [simp]:
  "nextInQueue (setAddress h t x u) = nextInQueue (h u)" "nextInQueue (setToken h t k u) = nextInQueue (h u)"
  "td_address (setAddress h t x u) = (if u = t then x else td_address (h u))" "td_address (setToken h t k u) = td_address (h u)"
  "td_token (setAddress h t x u) = td_token (h u)" "td_token (setToken h t k u) = (if u = t then k else td_token (h u))"
  by (simp_all add: setAddress_def setToken_def)

text \<open>A parking thread joins the end of the queue, if its validation succeeds.\<close>

lemma parkEnqueue_refused:
  "td_address (h me) = 0 \<Longrightarrow> parkEnqueue a False me h b = Inr (setToken h me 0, b, False)"
  by (simp add: parkEnqueue_def)

lemma parkEnqueue_refines:
  assumes q: "isQueue h b xs" and me: "me \<notin> set xs" "td_address (h me) = 0" "nextInQueue (h me) = None" and a: "a \<noteq> 0"
  shows "\<exists>h' b'. parkEnqueue a True me h b = Inr (h', b', True) \<and> isQueue h' b' (xs @ [me])
    \<and> (\<forall>t. td_address (h' t) = (if t = me then a else td_address (h t)) \<and> td_token (h' t) = (if t = me then 0 else td_token (h t)))
    \<and> (\<forall>t. t \<notin> set (xs @ [me]) \<longrightarrow> h' t = h t)"
proof -
  define k where "k = setAddress (setToken h me 0) me a"
  have "isQueue k b xs" by (rule isQueue_cong [OF q]) (simp add: k_def)
  then obtain h' b' where e: "bucketEnqueue k b me = Inr (h', b')" "isQueue h' b' (xs @ [me])" "sameData k h'" "\<forall>u. u \<notin> set xs \<longrightarrow> h' u = k u"
    using bucketEnqueue_refines [of k b xs me] me a by (auto simp: k_def)
  have "k t = h t" if "t \<noteq> me" for t using that by (simp add: k_def setAddress_def setToken_def)
  then show ?thesis using e me by (auto simp: parkEnqueue_def k_def [symmetric] sameData_def) (simp_all add: k_def)
qed

text \<open>Unparking takes the first thread parked on the address off the queue; the others keep their order.\<close>

lemma unparkOneImpl_none:
  assumes q: "isQueue h b xs" and none: "\<forall>t\<in>set xs. td_address (h t) \<noteq> a"
    and cb: "callback \<lparr>didUnparkThread = False, mayHaveMoreThreads = False, timeToBeFair = False\<rparr> w = (token, w')"
  shows "\<exists>h' b'. unparkOneImpl time delay a callback h b w = Some (Inr (h', b', None, w')) \<and> isQueue h' b' xs \<and> sameData h h'
    \<and> (\<forall>t. t \<notin> set xs \<longrightarrow> h' t = h t)"
proof -
  have "filter (\<lambda>t. td_address (h t) = a) xs = []" using none by simp
  then show ?thesis
    using genericDequeue_refines [OF q, of "pickFirst a" time "(None, False)" xs "[]" "(None, False)" delay] cb
    by (auto simp: unparkOneImpl_def pickFirst_list)
qed

lemma unparkOneImpl_some:
  assumes q: "isQueue h b xs" and some: "filter (\<lambda>t. td_address (h t) = a) xs = t # ts"
    and cb: "callback \<lparr>didUnparkThread = True, mayHaveMoreThreads = (remove1 t xs \<noteq> []), timeToBeFair = (time > nextFairTime b)\<rparr> w = (token, w')"
  shows "\<exists>h' b'. unparkOneImpl time delay a callback h b w = Some (Inr (h', b', Some t, w')) \<and> isQueue h' b' (remove1 t xs)
    \<and> (\<forall>u. td_address (h' u) = td_address (h u) \<and> td_token (h' u) = (if u = t then token else td_token (h u)))
    \<and> nextInQueue (h' t) = None \<and> (\<forall>u. u \<notin> set xs \<longrightarrow> h' u = h u)"
proof -
  have "t \<in> set (filter (\<lambda>t. td_address (h t) = a) xs)" unfolding some by simp
  then have t: "t \<in> set xs" by simp
  obtain h1 b1 where d: "genericDequeue time delay (pickFirst a) h b (None, False) = Some (Inr (h1, b1, (Some t, time > nextFairTime b)))"
      "isQueue h1 b1 (remove1 t xs)" "sameData h h1" "nextInQueue (h1 t) = None" "\<forall>u. u \<notin> set xs \<longrightarrow> h1 u = h u"
    using genericDequeue_refines [OF q, of "pickFirst a" time "(None, False)" "remove1 t xs" "[t]" "(Some t, time > nextFairTime b)" delay] some
    by (auto simp: pickFirst_list)
  have "isQueue (setToken h1 t token) b1 (remove1 t xs)" by (rule isQueue_cong [OF d(2)]) simp
  moreover have "setToken h1 t token u = h u" if "u \<notin> set xs" for u using that t d(5) by (auto simp: setToken_def)
  ultimately show ?thesis using d cb isQueue_head [OF d(2)] by (auto simp: unparkOneImpl_def sameData_def)
qed
lemma pickCount_list:
  assumes "distinct xs" and "length acc < count"
  shows "dequeueList (pickCount a count) fair A xs acc =
    (let w = take (count - length acc) (filter (\<lambda>t. A t = a) xs) in (filter (\<lambda>t. t \<notin> set w) xs, w, acc @ w))"
  using assms
proof (induction xs arbitrary: acc)
  case (Cons x xs)
  have x: "x \<notin> set xs" using Cons.prems by simp
  show ?case
  proof (cases "A x = a")
    case False
    then have "x \<notin> set (take n (filter (\<lambda>t. A t = a) xs))" for n using x by (auto dest: in_set_takeD)
    then show ?thesis using Cons False by (simp add: pickCount_def Let_def)
  next
    case True
    note hit = True
    obtain m where m: "count - length acc = Suc m" "count - Suc (length acc) = m" using Cons.prems by (metis Suc_diff_Suc)
    show ?thesis
    proof (cases "length acc + 1 = count")
      case True
      moreover have "m = 0" using True m by simp
      moreover have "filter (\<lambda>t. t \<noteq> x) xs = xs" using x by (metis (mono_tags, lifting) filter_True)
      ultimately show ?thesis using hit m by (simp add: pickCount_def Let_def)
    next
      case False
      let ?w = "take m (filter (\<lambda>t. A t = a) xs)"
      have "filter (\<lambda>t. t \<noteq> x \<and> t \<notin> set ?w) xs = filter (\<lambda>t. t \<notin> set ?w) xs" using x by (intro filter_cong) auto
      moreover have "pickCount a count x (A x) fair acc = (RemoveAndContinue, acc @ [x])" using hit False by (simp add: pickCount_def)
      ultimately show ?thesis using Cons.IH [of "acc @ [x]"] Cons.prems False hit m by (simp add: Let_def)
    qed
  qed
qed simp

lemma wakeEach_all:
  assumes "distinct ts" and "\<forall>t\<in>set ts. td_address (h t) \<noteq> 0"
  shows "\<exists>h'. wakeEach h ts = Inr h' \<and> (\<forall>t. h' t = (if t \<in> set ts then (h t)\<lparr>td_address := 0\<rparr> else h t))"
  using assms
proof (induction ts arbitrary: h)
  case (Cons t ts)
  have "\<forall>u\<in>set ts. td_address (wake h t u) \<noteq> 0" using Cons.prems by (auto simp: wake_def)
  then obtain h' where h': "wakeEach (wake h t) ts = Inr h'" "\<And>u. h' u = (if u \<in> set ts then (wake h t u)\<lparr>td_address := 0\<rparr> else wake h t u)"
    using Cons.IH [of "wake h t"] Cons.prems(1) by (meson distinct.simps(2))
  show ?case using h' Cons.prems by (intro exI [of _ h']) (auto simp: wake_def setAddress_def)
qed simp

lemma dequeueMyself_list:
  "distinct xs \<Longrightarrow> dequeueList (\<lambda>element _ _ d. if element = me then (RemoveAndStop, True) else (Ignore, d)) fair A xs d =
     (remove1 me xs, if me \<in> set xs then [me] else [], d \<or> me \<in> set xs)"
  by (induction xs) auto

definition waitingOn :: "store \<Rightarrow> address \<Rightarrow> tid list \<Rightarrow> tid list" where
  "waitingOn h a xs = filter (\<lambda>t. td_address (h t) = a) xs"

lemma pickCount_dequeues:
  assumes q: "isQueue h b xs" and c: "0 < count" and w_def: "w = take count (waitingOn h a xs)"
  shows "distinct w" and "\<forall>t\<in>set w. t \<in> set xs \<and> td_address (h t) = a"
    and "\<exists>h' b'. genericDequeue time delay (pickCount a count) h b [] = Some (Inr (h', b', w)) \<and> isQueue h' b' (filter (\<lambda>t. t \<notin> set w) xs)
      \<and> sameData h h' \<and> (\<forall>x\<in>set w. nextInQueue (h' x) = None) \<and> (\<forall>t. t \<notin> set xs \<longrightarrow> h' t = h t)"
proof -
  have d: "distinct xs" using q by (simp add: isQueue_def)
  show "distinct w" "\<forall>t\<in>set w. t \<in> set xs \<and> td_address (h t) = a" using d by (auto simp: w_def waitingOn_def dest: in_set_takeD)
  show "\<exists>h' b'. genericDequeue time delay (pickCount a count) h b [] = Some (Inr (h', b', w)) \<and> isQueue h' b' (filter (\<lambda>t. t \<notin> set w) xs)
      \<and> sameData h h' \<and> (\<forall>x\<in>set w. nextInQueue (h' x) = None) \<and> (\<forall>t. t \<notin> set xs \<longrightarrow> h' t = h t)"
    using genericDequeue_refines [OF q, of "pickCount a count" time "[]" "filter (\<lambda>t. t \<notin> set w) xs" w w delay] pickCount_list [OF d, of "[]" count a] c
    by (auto simp: Let_def w_def waitingOn_def)
qed


section \<open>What the parking lot promises\<close>

text \<open>A bucket with three threads; the first and the last are parked on address 8, the second on address 16.\<close>

definition lotExample :: store where
  "lotExample = (\<lambda>_. \<lparr>td_address = 0, nextInQueue = None, td_token = 0\<rparr>)(
     1 := \<lparr>td_address = 8, nextInQueue = Some 2, td_token = 0\<rparr>, 2 := \<lparr>td_address = 16, nextInQueue = Some 3, td_token = 0\<rparr>,
     3 := \<lparr>td_address = 8, nextInQueue = None, td_token = 0\<rparr>)"

definition lotExampleBucket :: bucket where
  "lotExampleBucket = \<lparr>queueHead = Some 1, queueTail = Some 3, nextFairTime = 0\<rparr>"

lemma lotExample_queue: "isQueue lotExample lotExampleBucket [1, 2, 3]"
  by (simp add: isQueue_def lotExample_def lotExampleBucket_def)

lemma lotExample_address:
  "td_address (lotExample t) = (if t = 1 \<or> t = 3 then 8 else if t = 2 then 16 else 0)" "nextInQueue (lotExample 4) = None"
  by (simp_all add: lotExample_def)

text \<open>
  C32. \<^verbatim>\<open>ParkingLot::unparkCount\<close> returns on every well-formed bucket, with no assertion failing, and wakes the first \<open>count\<close> threads
  parked on the address, in the order in which they parked: they leave the queue and their addresses become null, and all other
  threads stay in the queue, in order, with their data. The result is the number of threads woken. With \<open>count\<close> the largest
  \<^verbatim>\<open>unsigned\<close> this is \<^verbatim>\<open>unparkAll\<close>.
\<close>

theorem unparkCount_wakes_in_order:
  assumes "isQueue h b xs" and "a \<noteq> 0"
  shows "\<exists>h' b'. unparkCount time delay a count h b = Some (Inr (h', b', min count (length (waitingOn h a xs))))
    \<and> isQueue h' b' (filter (\<lambda>t. t \<notin> set (take count (waitingOn h a xs))) xs)
    \<and> (\<forall>t. td_address (h' t) = (if t \<in> set (take count (waitingOn h a xs)) then 0 else td_address (h t)) \<and> td_token (h' t) = td_token (h t))
    \<and> (\<forall>t\<in>set (take count (waitingOn h a xs)). nextInQueue (h' t) = None)"
proof (cases "count = 0")
  case True
  then show ?thesis using assms(1) by (simp add: unparkCount_def)
next
  case False
  define w where "w = take count (waitingOn h a xs)"
  note w = pickCount_dequeues [OF assms(1) _ w_def]
  obtain h1 b1 where g: "genericDequeue time delay (pickCount a count) h b [] = Some (Inr (h1, b1, w))" "isQueue h1 b1 (filter (\<lambda>t. t \<notin> set w) xs)"
      "sameData h h1" "\<forall>x\<in>set w. nextInQueue (h1 x) = None"
    using w(3) [of time delay] False by auto
  obtain h2 where e: "wakeEach h1 w = Inr h2" "\<And>t. h2 t = (if t \<in> set w then (h1 t)\<lparr>td_address := 0\<rparr> else h1 t)"
    using wakeEach_all [of w h1] w(1,2) g(3) assms(2) False by (auto simp: sameData_def)
  have "isQueue h2 b1 (filter (\<lambda>t. t \<notin> set w) xs)" by (rule isQueue_cong [OF g(2)]) (simp add: e(2))
  moreover have "length w = min count (length (waitingOn h a xs))" by (simp add: w_def)
  ultimately show ?thesis using False g e by (auto simp: unparkCount_def w_def [symmetric] sameData_def)
qed

theorem unparkCount_wakes_in_order_witness:
  "\<exists>h' b'. unparkCount 0 0 8 1 lotExample lotExampleBucket = Some (Inr (h', b', 1)) \<and> isQueue h' b' [2, 3]
     \<and> td_address (h' 1) = 0 \<and> td_address (h' 3) = 8"
  using unparkCount_wakes_in_order [OF lotExample_queue, of 8 0 0 1] by (auto simp: waitingOn_def lotExample_address)

text \<open>
  Parking is first in, first out: a thread whose validation succeeds joins the end of the queue; \<^verbatim>\<open>unparkOne\<close> returns on a
  well-formed bucket and wakes the thread that has been parked on the address for the longest time, saying whether the bucket may
  have more threads.
\<close>

lemma park_unpark_fifo:
  assumes "isQueue h b xs" and "me \<notin> set xs" and "td_address (h me) = 0" and "nextInQueue (h me) = None" and "a \<noteq> 0"
  shows "\<exists>h' b' h'' b'' t. parkEnqueue a True me h b = Inr (h', b', True) \<and> isQueue h' b' (xs @ [me])
    \<and> filter (\<lambda>t. td_address (h t) = a) xs @ [me] = t # tl (filter (\<lambda>t. td_address (h t) = a) xs @ [me])
    \<and> unparkOne time delay a h' b' = Some (Inr (h'', b'', \<lparr>didUnparkThread = True, mayHaveMoreThreads = (xs \<noteq> []), timeToBeFair = False\<rparr>))
    \<and> isQueue h'' b'' (remove1 t (xs @ [me])) \<and> td_address (h'' t) = 0 \<and> (\<forall>u. u \<noteq> t \<longrightarrow> td_address (h'' u) = (if u = me then a else td_address (h u)))"
proof -
  obtain h' b' where p: "parkEnqueue a True me h b = Inr (h', b', True)" "isQueue h' b' (xs @ [me])"
      "\<And>t. td_address (h' t) = (if t = me then a else td_address (h t))"
    using parkEnqueue_refines [OF assms] by blast
  let ?w = "filter (\<lambda>t. td_address (h t) = a) xs @ [me]"
  have w: "filter (\<lambda>t. td_address (h' t) = a) (xs @ [me]) = ?w" using assms(2) by (auto simp: p(3) intro!: filter_cong)
  obtain t ts where t: "?w = t # ts" by (cases ?w) auto
  have "t \<in> set ?w" unfolding t by simp
  then have tx: "t \<in> set (xs @ [me])" "td_address (h' t) = a" using assms(2) by (auto simp: p(3))
  obtain h1 b1 where d: "genericDequeue time delay (pickFirst a) h' b' (None, False) = Some (Inr (h1, b1, (Some t, time > nextFairTime b')))"
      "isQueue h1 b1 (remove1 t (xs @ [me]))" "sameData h' h1"
    using genericDequeue_refines [OF p(2), of "pickFirst a" time "(None, False)" "remove1 t (xs @ [me])" "[t]" "(Some t, time > nextFairTime b')" delay] w t
    by (auto simp: pickFirst_list simp del: filter_append)
  let ?h = "setToken (wake h1 t) t 0"
  have q: "isQueue ?h b1 (remove1 t (xs @ [me]))" by (rule isQueue_cong [OF d(2)]) (simp add: wake_def)
  have "remove1 t (xs @ [me]) = [] \<longleftrightarrow> xs = []"
    using tx(1) length_remove1 [of t "xs @ [me]"] by (cases xs) (auto split: if_splits)
  then have "queueHead b1 \<noteq> None \<longleftrightarrow> xs \<noteq> []" using isQueue_head [OF d(2)] by simp
  then have "unparkOne time delay a h' b' = Some (Inr (?h, b1, \<lparr>didUnparkThread = True, mayHaveMoreThreads = (xs \<noteq> []), timeToBeFair = False\<rparr>))"
    using d(1,3) tx(2) assms(5) by (auto simp: unparkOne_def sameData_def)
  moreover have "td_address (?h u) = (if u = t then 0 else if u = me then a else td_address (h u))" for u using d(3) p(3) by (simp add: wake_def sameData_def)
  ultimately show ?thesis using p(1,2) q t
    by (intro exI [of _ h'] exI [of _ b'] exI [of _ ?h] exI [of _ b1] exI [of _ t]) simp
qed

text \<open>
  C33. A thread that gives up waiting takes exactly itself off the queue and can park again; if somebody else took it off before, the
  queue does not change and the thread knows that it was unparked. The assertion that the thread is off the list afterwards holds.
\<close>

theorem timeout_removes_only_itself:
  assumes "isQueue h b xs" and "me \<notin> set xs \<Longrightarrow> nextInQueue (h me) = None"
  shows "\<exists>h' b'. dequeueMyself time delay me h b = Some (Inr (h', b', me \<in> set xs)) \<and> isQueue h' b' (remove1 me xs)
    \<and> nextInQueue (h' me) = None
    \<and> (\<forall>t. td_address (h' t) = (if t = me \<and> me \<in> set xs then 0 else td_address (h t)) \<and> td_token (h' t) = td_token (h t))"
proof -
  have d: "distinct xs" using assms(1) by (simp add: isQueue_def)
  obtain h1 b1 where g: "genericDequeue time delay (\<lambda>element _ _ d. if element = me then (RemoveAndStop, True) else (Ignore, d)) h b False = Some (Inr (h1, b1, me \<in> set xs))"
      "isQueue h1 b1 (remove1 me xs)" "sameData h h1" "me \<in> set xs \<longrightarrow> nextInQueue (h1 me) = None" "\<forall>t. t \<notin> set xs \<longrightarrow> h1 t = h t"
    using genericDequeue_refines [OF assms(1) dequeueMyself_list [OF d, of me _ _ False], of time delay] by (auto split: if_splits)
  have n: "nextInQueue (h1 me) = None" using g(4,5) assms(2) by metis
  have "isQueue (setAddress h1 me 0) b1 (remove1 me xs)" by (rule isQueue_cong [OF g(2)]) simp
  then show ?thesis using g n unfolding dequeueMyself_def by (auto simp: sameData_def)
qed

theorem timeout_removes_only_itself_witness:
  "\<exists>h' b'. dequeueMyself 0 0 2 lotExample lotExampleBucket = Some (Inr (h', b', True)) \<and> isQueue h' b' [1, 3] \<and> td_address (h' 2) = 0"
  using timeout_removes_only_itself [OF lotExample_queue, of 2 0 0] by auto

end
