(* ===== verification/Lock_Algorithm.thy ===== *)
theory Lock_Algorithm
  imports Parking_Lot
begin

text \<open>
  The adaptive lock of \<^verbatim>\<open>WTF/wtf/LockAlgorithm.h\<close>, \<^verbatim>\<open>LockAlgorithmInlines.h\<close> and \<^verbatim>\<open>Lock.h\<close> as a transition system of
  any number of threads over the lock's byte and the bucket of the parking lot that its address hashes to. A step is one
  atomic access to the byte or one operation of the parking lot, which runs under the bucket's lock; the program
  counter of a thread says where in \<^verbatim>\<open>lockSlow\<close>, \<^verbatim>\<open>tryLock\<close> or \<^verbatim>\<open>unlockSlow\<close> it is and holds its local variables. The interleaving is
  sequentially consistent. \<^verbatim>\<open>Atomic::transaction\<close> retries until its exchange succeeds and is one step; a weak
  compare-and-exchange may fail without reason. Threads parked on other addresses share the bucket.
\<close>


section \<open>The byte\<close>

type_synonym lockByte = "8 word"

definition isHeldBit :: lockByte where "isHeldBit = 1"

definition hasParkedBit :: lockByte where "hasParkedBit = 2"

definition lockMask :: lockByte where "lockMask = isHeldBit OR hasParkedBit"

text \<open>The bodies of the transactions: \<open>None\<close> when the transaction gives up.\<close>

definition lockFast :: "lockByte \<Rightarrow> lockByte option" where
  "lockFast v = (if v AND isHeldBit \<noteq> 0 then None else Some (v OR isHeldBit))"

definition unlockFast :: "lockByte \<Rightarrow> lockByte option" where
  "unlockFast v = (if v AND lockMask \<noteq> isHeldBit then None else Some (v AND NOT isHeldBit))"

text \<open>\<^verbatim>\<open>compareExchangeWeak\<close>: it may succeed if the value is the expected one, and may always fail.\<close>

definition compareExchangeWeak :: "lockByte \<Rightarrow> lockByte \<Rightarrow> 'p \<Rightarrow> 'p \<Rightarrow> lockByte \<Rightarrow> ('p \<times> lockByte) list" where
  "compareExchangeWeak expected new success failure v =
     (failure, v) # (if v = expected then [(success, new)] else [])"

definition safepointFast :: "lockByte \<Rightarrow> bool" where
  "safepointFast v \<longleftrightarrow> \<not> v AND hasParkedBit \<noteq> 0"

definition isLocked :: "lockByte \<Rightarrow> bool" where
  "isLocked v \<longleftrightarrow> v AND isHeldBit \<noteq> 0"


section \<open>The threads\<close>

datatype Fairness = Unfair | Fair

text \<open>\<^verbatim>\<open>enum Token\<close>.\<close>

definition BargingOpportunity :: nat where "BargingOpportunity = 0"

definition DirectHandoff :: nat where "DirectHandoff = 1"

definition spinLimit :: nat where "spinLimit = 40"

text \<open>
  Where a thread is. \<open>Waking t p\<close> is the end of \<^verbatim>\<open>unparkOneImpl\<close>, when the thread \<open>t\<close> is off the queue but not yet told; the
  thread continues at \<open>p\<close>. The flag of the unlocking program counters says that the thread locks again afterwards
  (\<^verbatim>\<open>safepointSlow\<close>). \<open>ParkedElsewhere\<close> is a thread parked on another address, and \<open>Crashed\<close> one that failed an assertion.
\<close>

datatype pc =
    Idle
  | LockEntry
  | TryLoad
  | TryCAS lockByte
  | SlowLoad nat
  | SlowCAS lockByte nat
  | SlowSetParked lockByte nat
  | SlowPark lockByte nat
  | Parked nat
  | Critical
  | UnlockEntry Fairness bool
  | UnlockLoad Fairness bool
  | UnlockCAS lockByte Fairness bool
  | UnlockUnpark Fairness bool
  | Waking tid pc
  | ParkedElsewhere
  | Crashed

definition afterUnlock :: "bool \<Rightarrow> pc" where
  "afterUnlock relock = (if relock then LockEntry else Idle)"

text \<open>One turn of the loop of \<^verbatim>\<open>lockSlow\<close> after \<^verbatim>\<open>lock.load()\<close>.\<close>

definition afterLoad :: "lockByte \<Rightarrow> nat \<Rightarrow> pc" where
  "afterLoad currentValue spinCount =
     (if \<not> currentValue AND isHeldBit \<noteq> 0 then SlowCAS currentValue spinCount
      else if \<not> currentValue AND hasParkedBit \<noteq> 0 \<and> spinCount < spinLimit then SlowLoad (spinCount + 1)
      else if \<not> currentValue AND hasParkedBit \<noteq> 0 then SlowSetParked currentValue spinCount
      else SlowPark currentValue spinCount)"

text \<open>The test before parking, for the value that \<^verbatim>\<open>currentValue\<close> has then.\<close>

definition beforePark :: "lockByte \<Rightarrow> nat \<Rightarrow> pc" where
  "beforePark currentValue spinCount =
     (if \<not> currentValue AND isHeldBit \<noteq> 0 then Crashed
      else if \<not> currentValue AND hasParkedBit \<noteq> 0 then Crashed
      else SlowPark currentValue spinCount)"

text \<open>One turn of the loop of \<^verbatim>\<open>unlockSlow\<close> after \<^verbatim>\<open>lock.load()\<close>.\<close>

definition afterUnlockLoad :: "lockByte \<Rightarrow> Fairness \<Rightarrow> bool \<Rightarrow> pc" where
  "afterUnlockLoad oldByteValue fairness relock =
     (if oldByteValue AND lockMask \<noteq> isHeldBit \<and> oldByteValue AND lockMask \<noteq> isHeldBit OR hasParkedBit then Crashed
      else if oldByteValue AND lockMask = isHeldBit then UnlockCAS oldByteValue fairness relock
      else UnlockUnpark fairness relock)"

text \<open>The steps on the byte alone: what a thread at a program counter may do to it, and where it goes.\<close>

fun act :: "pc \<Rightarrow> lockByte \<Rightarrow> (pc \<times> lockByte) list" where
  "act Idle v = [(LockEntry, v), (TryLoad, v)]"
| "act LockEntry v =
     (case lockFast v of Some w \<Rightarrow> (Critical, w) | None \<Rightarrow> (SlowLoad 0, v))
     # compareExchangeWeak 0 isHeldBit Critical (SlowLoad 0) v"
| "act TryLoad v = [(if v AND isHeldBit \<noteq> 0 then Idle else TryCAS v, v)]"
| "act (TryCAS currentValue) v = compareExchangeWeak currentValue (currentValue OR isHeldBit) Critical TryLoad v"
| "act (SlowLoad spinCount) v = [(afterLoad v spinCount, v)]"
| "act (SlowCAS currentValue spinCount) v =
     compareExchangeWeak currentValue (currentValue OR isHeldBit) Critical (SlowLoad spinCount) v"
| "act (SlowSetParked currentValue spinCount) v =
     compareExchangeWeak currentValue (currentValue OR hasParkedBit)
       (beforePark (currentValue OR hasParkedBit) spinCount) (SlowLoad spinCount) v"
| "act Critical v =
     [(UnlockEntry Unfair False, v), (UnlockEntry Fair False, v)]
     @ (if safepointFast v then [] else [(UnlockEntry Fair True, v)])"
| "act (UnlockEntry fairness relock) v =
     (case unlockFast v of Some w \<Rightarrow> (afterUnlock relock, w) | None \<Rightarrow> (UnlockLoad fairness relock, v))
     # compareExchangeWeak isHeldBit 0 (afterUnlock relock) (UnlockLoad fairness relock) v"
| "act (UnlockLoad fairness relock) v = [(afterUnlockLoad v fairness relock, v)]"
| "act (UnlockCAS oldByteValue fairness relock) v =
     compareExchangeWeak oldByteValue (oldByteValue AND NOT isHeldBit) (afterUnlock relock) (UnlockLoad fairness relock) v"
| "act _ v = []"


section \<open>The transition system\<close>

record lockState =
  lockByteOf :: lockByte
  pcs :: "tid \<Rightarrow> pc"
  lotStore :: store
  lotBucket :: bucket

definition setPc :: "lockState \<Rightarrow> tid \<Rightarrow> pc \<Rightarrow> lockState" where
  "setPc s i p = s\<lparr>pcs := (pcs s)(i := p)\<rparr>"

text \<open>\<^verbatim>\<open>ParkingLot::compareAndPark(&lock, currentValue)\<close>.\<close>

definition parkStep :: "address \<Rightarrow> lockState \<Rightarrow> tid \<Rightarrow> lockByte \<Rightarrow> nat \<Rightarrow> lockState" where
  "parkStep a s i currentValue spinCount =
     (case parkEnqueue a (lockByteOf s = currentValue) i (lotStore s) (lotBucket s) of
        Inl _ \<Rightarrow> setPc s i Crashed
      | Inr (h, b, enqueued) \<Rightarrow>
          setPc (s\<lparr>lotStore := h, lotBucket := b\<rparr>) i (if enqueued then Parked spinCount else SlowLoad spinCount))"

text \<open>
  The thread finds that its address is null, so it has left the queue: the assertion after the wait, and what the thread does with
  its token. \<^verbatim>\<open>compareAndPark\<close> waits without a timeout.
\<close>

definition resumeStep :: "address \<Rightarrow> lockState \<Rightarrow> tid \<Rightarrow> nat \<Rightarrow> lockState" where
  "resumeStep a s i spinCount =
     setPc s i
       (if td_address (lotStore s i) \<noteq> 0 \<and> td_address (lotStore s i) \<noteq> a then Crashed
        else if td_token (lotStore s i) = DirectHandoff
        then if isLocked (lockByteOf s) then Critical else Crashed
        else SlowLoad spinCount)"

text \<open>The callback \<^verbatim>\<open>unlockSlow\<close> passes to \<^verbatim>\<open>unparkOne\<close>, run with the bucket's lock held.\<close>

definition unlockCallback :: "Fairness \<Rightarrow> unparkResult \<Rightarrow> lockByte \<Rightarrow> nat \<times> lockByte" where
  "unlockCallback fairness result v =
     (if didUnparkThread result \<and> (fairness = Fair \<or> timeToBeFair result) then (DirectHandoff, v)
      else (BargingOpportunity,
            let v = v AND NOT lockMask in if mayHaveMoreThreads result then v OR hasParkedBit else v))"

definition unparkStep :: "int \<Rightarrow> int \<Rightarrow> address \<Rightarrow> Fairness \<Rightarrow> bool \<Rightarrow> lockState \<Rightarrow> tid \<Rightarrow> lockState option" where
  "unparkStep time delay a fairness relock s i =
     (case unparkOneImpl time delay a (unlockCallback fairness) (lotStore s) (lotBucket s) (lockByteOf s) of
        None \<Rightarrow> None
      | Some (Inl _) \<Rightarrow> Some (setPc s i Crashed)
      | Some (Inr (h, b, td, v)) \<Rightarrow>
          if lockByteOf s AND lockMask \<noteq> isHeldBit OR hasParkedBit then Some (setPc s i Crashed)
          else Some (setPc (s\<lparr>lotStore := h, lotBucket := b, lockByteOf := v\<rparr>) i
                 (case td of None \<Rightarrow> afterUnlock relock | Some t \<Rightarrow> Waking t (afterUnlock relock))))"

text \<open>The end of \<^verbatim>\<open>unparkOneImpl\<close>, after the bucket's lock is released.\<close>

definition wakeStep :: "lockState \<Rightarrow> tid \<Rightarrow> tid \<Rightarrow> pc \<Rightarrow> lockState" where
  "wakeStep s i t p =
     (if td_address (lotStore s t) = 0 then setPc s i Crashed
      else setPc (s\<lparr>lotStore := wake (lotStore s) t\<rparr>) i p)"

text \<open>Other users of the bucket: parking on and unparking from another address.\<close>

definition otherParkStep :: "address \<Rightarrow> lockState \<Rightarrow> tid \<Rightarrow> lockState" where
  "otherParkStep a' s i =
     (case parkEnqueue a' True i (lotStore s) (lotBucket s) of
        Inl _ \<Rightarrow> setPc s i Crashed
      | Inr (h, b, _) \<Rightarrow> setPc (s\<lparr>lotStore := h, lotBucket := b\<rparr>) i ParkedElsewhere)"

definition otherUnparkStep :: "int \<Rightarrow> int \<Rightarrow> address \<Rightarrow> nat \<Rightarrow> lockState \<Rightarrow> tid \<Rightarrow> lockState option" where
  "otherUnparkStep time delay a' token s i =
     (case unparkOneImpl time delay a' (\<lambda>_ w. (token, w)) (lotStore s) (lotBucket s) () of
        None \<Rightarrow> None
      | Some (Inl _) \<Rightarrow> Some (setPc s i Crashed)
      | Some (Inr (h, b, td, _)) \<Rightarrow>
          Some (setPc (s\<lparr>lotStore := h, lotBucket := b\<rparr>) i (case td of None \<Rightarrow> Idle | Some t \<Rightarrow> Waking t Idle)))"

text \<open>The steps of the thread \<open>i\<close>, and the steps of any thread.\<close>

inductive threadStep :: "address \<Rightarrow> tid \<Rightarrow> lockState \<Rightarrow> lockState \<Rightarrow> bool" for a i where
  byte_step: "(p, v) \<in> set (act (pcs s i) (lockByteOf s)) \<Longrightarrow> threadStep a i s (setPc (s\<lparr>lockByteOf := v\<rparr>) i p)"
| park_step: "pcs s i = SlowPark currentValue spinCount \<Longrightarrow> threadStep a i s (parkStep a s i currentValue spinCount)"
| resume_step: "pcs s i = Parked spinCount \<Longrightarrow> td_address (lotStore s i) = 0 \<Longrightarrow> threadStep a i s (resumeStep a s i spinCount)"
| unpark_step: "pcs s i = UnlockUnpark fairness relock \<Longrightarrow> unparkStep time delay a fairness relock s i = Some s' \<Longrightarrow> threadStep a i s s'"
| wake_step: "pcs s i = Waking t p \<Longrightarrow> threadStep a i s (wakeStep s i t p)"
| other_park: "pcs s i = Idle \<Longrightarrow> a' \<noteq> 0 \<Longrightarrow> a' \<noteq> a \<Longrightarrow> threadStep a i s (otherParkStep a' s i)"
| other_unpark: "pcs s i = Idle \<Longrightarrow> a' \<noteq> 0 \<Longrightarrow> a' \<noteq> a \<Longrightarrow> otherUnparkStep time delay a' token s i = Some s' \<Longrightarrow> threadStep a i s s'"
| other_resume: "pcs s i = ParkedElsewhere \<Longrightarrow> td_address (lotStore s i) = 0 \<Longrightarrow> threadStep a i s (setPc s i Idle)"

inductive_cases threadStepE: "threadStep a i s s'"

definition lockStep :: "address \<Rightarrow> lockState \<Rightarrow> lockState \<Rightarrow> bool" where
  "lockStep a s s' \<longleftrightarrow> (\<exists>i. threadStep a i s s')"

text \<open>A step of a thread that is inside an operation already, or between \<^verbatim>\<open>lock\<close> and \<^verbatim>\<open>unlock\<close>: no thread begins a new operation.\<close>

definition innerStep :: "address \<Rightarrow> lockState \<Rightarrow> lockState \<Rightarrow> bool" where
  "innerStep a s s' \<longleftrightarrow> (\<exists>i. pcs s i \<noteq> Idle \<and> threadStep a i s s')"

definition initialLock :: lockState where
  "initialLock = \<lparr>lockByteOf = 0, pcs = (\<lambda>_. Idle),
     lotStore = (\<lambda>_. \<lparr>td_address = 0, nextInQueue = None, td_token = 0\<rparr>),
     lotBucket = \<lparr>queueHead = None, queueTail = None, nextFairTime = 0\<rparr>\<rparr>"

definition lockReachable :: "address \<Rightarrow> lockState \<Rightarrow> bool" where
  "lockReachable a s \<longleftrightarrow> (lockStep a)\<^sup>*\<^sup>* initialLock s"
section \<open>The two bits\<close>

abbreviation held :: "lockByte \<Rightarrow> bool" where "held v \<equiv> bit v 0"

abbreviation hasParked :: "lockByte \<Rightarrow> bool" where "hasParked v \<equiv> bit v 1"

lemma byte_bits:
  "bit isHeldBit n \<longleftrightarrow> n = 0" "bit hasParkedBit n \<longleftrightarrow> n = 1" "bit lockMask n \<longleftrightarrow> n = 0 \<or> n = 1"
proof -
  show h: "bit isHeldBit n \<longleftrightarrow> n = 0" for n by (simp add: isHeldBit_def bit_1_iff)
  show p: "bit hasParkedBit n \<longleftrightarrow> n = 1" for n by (auto simp: hasParkedBit_def bit_2_iff)
  show "bit lockMask n \<longleftrightarrow> n = 0 \<or> n = 1" by (simp add: lockMask_def bit_or_iff h p)
qed

lemma byte_eq_iff: "x = y \<longleftrightarrow> (\<forall>n<8. bit x n = bit y n)" for x y :: lockByte
  by (auto intro: bit_word_eqI)

lemma and_bits:
  "v AND isHeldBit = 0 \<longleftrightarrow> \<not> held v"
  "v AND hasParkedBit = 0 \<longleftrightarrow> \<not> hasParked v"
  "v AND lockMask = isHeldBit \<longleftrightarrow> held v \<and> \<not> hasParked v"
  "v AND lockMask = isHeldBit OR hasParkedBit \<longleftrightarrow> held v \<and> hasParked v"
  by (auto simp: byte_eq_iff bit_and_iff bit_or_iff byte_bits dest: spec [of _ 0] spec [of _ "Suc 0"] intro: gr0I)

lemma bits_nonzero [simp]: "isHeldBit \<noteq> 0" "hasParkedBit \<noteq> 0"
  by (simp_all add: isHeldBit_def hasParkedBit_def)

lemma op_bits [simp]:
  "bit (v OR isHeldBit) n \<longleftrightarrow> bit v n \<or> n = 0"
  "bit (v OR hasParkedBit) n \<longleftrightarrow> bit v n \<or> n = 1"
  "n < 8 \<Longrightarrow> bit (v AND NOT isHeldBit) n \<longleftrightarrow> bit v n \<and> n \<noteq> 0"
  "n < 8 \<Longrightarrow> bit (v AND NOT lockMask) n \<longleftrightarrow> bit v n \<and> n \<noteq> 0 \<and> n \<noteq> 1"
  by (auto simp: bit_and_iff bit_or_iff bit_not_iff byte_bits)

lemmas byte_defs = lockFast_def unlockFast_def safepointFast_def isLocked_def afterLoad_def beforePark_def afterUnlockLoad_def
  and_bits byte_bits compareExchangeWeak_def


section \<open>The invariant\<close>

text \<open>Who counts as the owner of the lock, and who is on the way to it without being asleep, when the queue is \<open>xs\<close>.\<close>

fun holding :: "pc \<Rightarrow> bool" where
  "holding Critical = True"
| "holding (UnlockEntry _ _) = True"
| "holding (UnlockLoad _ _) = True"
| "holding (UnlockCAS _ _ _) = True"
| "holding (UnlockUnpark _ _) = True"
| "holding _ = False"

fun sleeping :: "pc \<Rightarrow> bool" where
  "sleeping (Parked _) = True"
| "sleeping ParkedElsewhere = True"
| "sleeping _ = False"

fun acquiring :: "pc \<Rightarrow> bool" where
  "acquiring (SlowLoad _) = True"
| "acquiring (SlowCAS _ _) = True"
| "acquiring (SlowSetParked _ _) = True"
| "acquiring (SlowPark _ _) = True"
| "acquiring _ = False"

definition owner :: "tid list \<Rightarrow> lockState \<Rightarrow> tid \<Rightarrow> bool" where
  "owner xs s i \<longleftrightarrow> holding (pcs s i) \<or> ((\<exists>k. pcs s i = Parked k) \<and> i \<notin> set xs \<and> td_token (lotStore s i) = DirectHandoff)"

definition trying :: "tid list \<Rightarrow> lockState \<Rightarrow> tid \<Rightarrow> bool" where
  "trying xs s i \<longleftrightarrow> acquiring (pcs s i) \<or> ((\<exists>k. pcs s i = Parked k) \<and> i \<notin> set xs \<and> td_token (lotStore s i) \<noteq> DirectHandoff)"

definition waiters :: "address \<Rightarrow> tid list \<Rightarrow> lockState \<Rightarrow> tid list" where
  "waiters a xs s = filter (\<lambda>t. td_address (lotStore s t) = a) xs"

text \<open>The queue, the thread data and the program counters agree.\<close>

definition lotRel :: "address \<Rightarrow> tid list \<Rightarrow> (tid \<Rightarrow> address) \<Rightarrow> (tid \<Rightarrow> pc) \<Rightarrow> bool" where
  "lotRel a xs A P \<longleftrightarrow>
     (\<forall>i. i \<in> set xs \<longrightarrow> A i \<noteq> 0)
     \<and> (\<forall>i. A i \<noteq> 0 \<longrightarrow> (if A i = a then \<exists>k. P i = Parked k else P i = ParkedElsewhere))
     \<and> (\<forall>j t p. P j = Waking t p \<longrightarrow> t \<notin> set xs \<and> A t \<noteq> 0 \<and> (p = Idle \<or> p = LockEntry) \<and> (\<forall>j' p'. P j' = Waking t p' \<longrightarrow> j' = j))
     \<and> (\<forall>t. t \<notin> set xs \<and> A t \<noteq> 0 \<longrightarrow> (\<exists>j p. P j = Waking t p))"

definition lotInv :: "address \<Rightarrow> tid list \<Rightarrow> lockState \<Rightarrow> bool" where
  "lotInv a xs s \<longleftrightarrow>
     isQueue (lotStore s) (lotBucket s) xs
     \<and> (\<forall>i. i \<notin> set xs \<longrightarrow> nextInQueue (lotStore s i) = None)
     \<and> lotRel a xs (\<lambda>t. td_address (lotStore s t)) (pcs s)"

text \<open>What a program counter knows about the byte.\<close>

fun pcInv :: "lockByte \<Rightarrow> pc \<Rightarrow> bool" where
  "pcInv v (TryCAS c) = (\<not> held c)"
| "pcInv v (SlowCAS c _) = (\<not> held c)"
| "pcInv v (SlowSetParked c _) = held c"
| "pcInv v (SlowPark c _) = (held c \<and> hasParked c)"
| "pcInv v (UnlockCAS c _ _) = (held c \<and> \<not> hasParked c)"
| "pcInv v (UnlockUnpark _ _) = hasParked v"
| "pcInv v Crashed = False"
| "pcInv v _ = True"

definition ownerInv :: "tid list \<Rightarrow> lockState \<Rightarrow> bool" where
  "ownerInv xs s \<longleftrightarrow>
     (\<forall>i j. owner xs s i \<and> owner xs s j \<longrightarrow> i = j)
     \<and> (held (lockByteOf s) \<longleftrightarrow> (\<exists>i. owner xs s i))
     \<and> (\<forall>i. pcInv (lockByteOf s) (pcs s i))"

definition wakeInv :: "address \<Rightarrow> tid list \<Rightarrow> lockState \<Rightarrow> bool" where
  "wakeInv a xs s \<longleftrightarrow>
     (waiters a xs s \<noteq> [] \<longrightarrow> hasParked (lockByteOf s))
     \<and> (waiters a xs s \<noteq> [] \<and> \<not> held (lockByteOf s) \<longrightarrow> (\<exists>j. trying xs s j))"

definition lockConf :: "address \<Rightarrow> tid list \<Rightarrow> lockState \<Rightarrow> bool" where
  "lockConf a xs s \<longleftrightarrow> lotInv a xs s \<and> ownerInv xs s \<and> wakeInv a xs s"

definition lockInv :: "address \<Rightarrow> lockState \<Rightarrow> bool" where
  "lockInv a s \<longleftrightarrow> (\<exists>xs. lockConf a xs s)"

lemma setPc_simps [simp]:
  "lockByteOf (setPc s i p) = lockByteOf s" "lotStore (setPc s i p) = lotStore s" "lotBucket (setPc s i p) = lotBucket s"
  "pcs (setPc s i p) j = (if j = i then p else pcs s j)"
  by (simp_all add: setPc_def)

lemma initial_inv: "a \<noteq> 0 \<Longrightarrow> lockInv a initialLock"
  unfolding lockInv_def
  by (intro exI [of _ "[]"]) (auto simp: lockConf_def lotInv_def lotRel_def ownerInv_def wakeInv_def initialLock_def isQueue_def owner_def waiters_def)
section \<open>Every step keeps the invariant\<close>

text \<open>Steps on the byte alone.\<close>

fun plain :: "pc \<Rightarrow> bool" where
  "plain (Waking _ _) = False"
| "plain p = (\<not> sleeping p)"

lemma plain_iff: "plain p \<longleftrightarrow> \<not> sleeping p \<and> (\<forall>t q. p \<noteq> Waking t q)"
  by (cases p) auto

lemma act_plain: "(p', v') \<in> set (act p v) \<Longrightarrow> plain p \<and> plain p'"
  by (cases p) (auto simp: byte_defs afterUnlock_def split: if_splits option.splits)

text \<open>A step on the byte by a thread that keeps, takes or gives up the lock.\<close>

lemma act_effect:
  assumes "(p', v') \<in> set (act p v)" and "pcInv v p" and "holding p \<Longrightarrow> held v"
  shows "pcInv v' p' \<and> (acquiring p \<longrightarrow> acquiring p' \<or> held v') \<and>
    (if holding p then if holding p' then v' = v else held v \<and> \<not> held v' \<and> \<not> hasParked v \<and> \<not> hasParked v'
     else if holding p' then \<not> held v \<and> held v' \<and> hasParked v' = hasParked v
     else held v' = held v \<and> (hasParked v \<longrightarrow> hasParked v'))"
  using assms by (cases p) (auto simp: byte_defs afterUnlock_def split: if_splits option.splits)

lemma lotRelD:
  assumes "lotRel a xs A P"
  shows "i \<in> set xs \<Longrightarrow> A i \<noteq> 0" and "A i \<noteq> 0 \<Longrightarrow> if A i = a then \<exists>k. P i = Parked k else P i = ParkedElsewhere"
    and "P j = Waking t p \<Longrightarrow> t \<notin> set xs \<and> A t \<noteq> 0 \<and> (p = Idle \<or> p = LockEntry)"
    and "P j = Waking t p \<Longrightarrow> P j' = Waking t p' \<Longrightarrow> j' = j"
    and "t \<notin> set xs \<Longrightarrow> A t \<noteq> 0 \<Longrightarrow> \<exists>j p. P j = Waking t p"
  using assms unfolding lotRel_def by blast+

lemma lotRelI:
  assumes "\<And>i. i \<in> set xs \<Longrightarrow> A i \<noteq> 0" and "\<And>i. A i \<noteq> 0 \<Longrightarrow> if A i = a then \<exists>k. P i = Parked k else P i = ParkedElsewhere"
    and "\<And>j t p. P j = Waking t p \<Longrightarrow> t \<notin> set xs \<and> A t \<noteq> 0 \<and> (p = Idle \<or> p = LockEntry)"
    and "\<And>j t p j' p'. P j = Waking t p \<Longrightarrow> P j' = Waking t p' \<Longrightarrow> j' = j"
    and "\<And>t. t \<notin> set xs \<Longrightarrow> A t \<noteq> 0 \<Longrightarrow> \<exists>j p. P j = Waking t p"
  shows "lotRel a xs A P"
  using assms unfolding lotRel_def by blast

lemma lotRel_awake: "lotRel a xs A P \<Longrightarrow> \<not> sleeping (P i) \<Longrightarrow> A i = 0 \<and> i \<notin> set xs"
  using lotRelD(1,2) [of a xs A P i] by (cases "A i = 0"; cases "A i = a") auto

text \<open>How the relation changes: a thread that is awake and not waking anybody moves on, parks, unparks or resumes.\<close>

lemma lotRel_plain:
  assumes "lotRel a xs A P" and "plain (P i) \<or> A i = 0 \<and> sleeping (P i)" and "plain p"
  shows "lotRel a xs A (P(i := p))"
proof (rule lotRelI)
  have i: "A i = 0" using assms(1,2) lotRel_awake [OF assms(1)] by (auto simp: plain_iff)
  have nw: "P i \<noteq> Waking t q" "p \<noteq> Waking t q" for t q using assms(2,3) by (auto simp: plain_iff)
  show "if A j = a then \<exists>k. (P(i := p)) j = Parked k else (P(i := p)) j = ParkedElsewhere" if "A j \<noteq> 0" for j
    using lotRelD(2) [OF assms(1) that] i that by (cases "j = i") auto
  show "t \<notin> set xs \<and> A t \<noteq> 0 \<and> (q = Idle \<or> q = LockEntry)" if "(P(i := p)) j = Waking t q" for j t q
    using that nw lotRelD(3) [OF assms(1)] by (auto split: if_splits)
  show "j' = j" if "(P(i := p)) j = Waking t q" "(P(i := p)) j' = Waking t q'" for j t q j' q'
    using that nw lotRelD(4) [OF assms(1)] by (auto split: if_splits)
  show "\<exists>j q. (P(i := p)) j = Waking t q" if "t \<notin> set xs" "A t \<noteq> 0" for t
    using lotRelD(5) [OF assms(1) that] nw by (metis fun_upd_other)
qed (rule lotRelD(1) [OF assms(1)])

lemma lotRel_park:
  assumes "lotRel a xs A P" and i: "plain (P i)" and "a' \<noteq> 0" and p: "if a' = a then \<exists>k. p = Parked k else p = ParkedElsewhere"
  shows "lotRel a (xs @ [i]) (A(i := a')) (P(i := p))"
proof (rule lotRelI)
  have i0: "A i = 0" using lotRel_awake [OF assms(1)] i by (auto simp: plain_iff)
  have nw: "P i \<noteq> Waking t q" "p \<noteq> Waking t q" for t q using i p by (auto simp: plain_iff split: if_splits)
  show "(A(i := a')) j \<noteq> 0" if "j \<in> set (xs @ [i])" for j using that assms(3) lotRelD(1) [OF assms(1)] by auto
  show "if (A(i := a')) j = a then \<exists>k. (P(i := p)) j = Parked k else (P(i := p)) j = ParkedElsewhere" if "(A(i := a')) j \<noteq> 0" for j
    using that lotRelD(2) [OF assms(1), of j] p by (cases "j = i") auto
  show "t \<notin> set (xs @ [i]) \<and> (A(i := a')) t \<noteq> 0 \<and> (q = Idle \<or> q = LockEntry)" if "(P(i := p)) j = Waking t q" for j t q
    using that nw lotRelD(3) [OF assms(1), of j t q] i0 by (auto split: if_splits)
  show "j' = j" if "(P(i := p)) j = Waking t q" "(P(i := p)) j' = Waking t q'" for j t q j' q'
    using that nw lotRelD(4) [OF assms(1)] by (auto split: if_splits)
  show "\<exists>j q. (P(i := p)) j = Waking t q" if "t \<notin> set (xs @ [i])" "(A(i := a')) t \<noteq> 0" for t
    using lotRelD(5) [OF assms(1), of t] that nw by (metis fun_upd_other UnCI list.set_intros(1) set_append)
qed

lemma lotRel_unpark:
  assumes "lotRel a xs A P" and i: "plain (P i)" and t: "t \<in> set xs" "distinct xs" and q: "q = Idle \<or> q = LockEntry"
  shows "lotRel a (remove1 t xs) A (P(i := Waking t q))"
proof (rule lotRelI)
  have i0: "A i = 0" using lotRel_awake [OF assms(1)] i by (auto simp: plain_iff)
  have nw: "P i \<noteq> Waking u q'" for u q' using i by (auto simp: plain_iff)
  have nt: "P j \<noteq> Waking t q'" for j q' using lotRelD(3) [OF assms(1), of j t q'] t by auto
  show "A j \<noteq> 0" if "j \<in> set (remove1 t xs)" for j using that lotRelD(1) [OF assms(1)] t by auto
  show "if A j = a then \<exists>k. (P(i := Waking t q)) j = Parked k else (P(i := Waking t q)) j = ParkedElsewhere" if "A j \<noteq> 0" for j
    using that lotRelD(2) [OF assms(1), of j] i0 by (cases "j = i") auto
  show "u \<notin> set (remove1 t xs) \<and> A u \<noteq> 0 \<and> (q' = Idle \<or> q' = LockEntry)" if "(P(i := Waking t q)) j = Waking u q'" for j u q'
    using that lotRelD(3) [OF assms(1), of j u q'] lotRelD(1) [OF assms(1), of t] t q by (auto split: if_splits)
  show "j' = j" if "(P(i := Waking t q)) j = Waking u q1" "(P(i := Waking t q)) j' = Waking u q2" for j u q1 j' q2
    using that nt lotRelD(4) [OF assms(1)] by (auto split: if_splits)
  show "\<exists>j q'. (P(i := Waking t q)) j = Waking u q'" if "u \<notin> set (remove1 t xs)" "A u \<noteq> 0" for u
  proof (cases "u = t")
    case False
    then show ?thesis using lotRelD(5) [OF assms(1), of u] that t nw by (metis fun_upd_other in_set_remove1)
  qed auto
qed

lemma lotRel_wake:
  assumes "lotRel a xs A P" and i: "P i = Waking t q" and "a \<noteq> 0"
  shows "lotRel a xs (A(t := 0)) (P(i := q))"
proof (rule lotRelI)
  have t: "t \<notin> set xs" "A t \<noteq> 0" "q = Idle \<or> q = LockEntry" using lotRelD(3) [OF assms(1) i] by auto
  have i0: "A i = 0" using lotRel_awake [OF assms(1), of i] i by simp
  show "(A(t := 0)) j \<noteq> 0" if "j \<in> set xs" for j using that lotRelD(1) [OF assms(1)] t by auto
  show "if (A(t := 0)) j = a then \<exists>k. (P(i := q)) j = Parked k else (P(i := q)) j = ParkedElsewhere" if "(A(t := 0)) j \<noteq> 0" for j
    using that lotRelD(2) [OF assms(1), of j] i0 by (cases "j = i") (auto split: if_splits)
  have old: "j \<noteq> i \<and> P j = Waking u q'" if "(P(i := q)) j = Waking u q'" for j u q'
    using that t(3) by (cases "j = i") auto
  show "u \<notin> set xs \<and> (A(t := 0)) u \<noteq> 0 \<and> (q' = Idle \<or> q' = LockEntry)" if "(P(i := q)) j = Waking u q'" for j u q'
  proof -
    have "u \<noteq> t" using old [OF that] lotRelD(4) [OF assms(1) i, of j q'] by blast
    then show ?thesis using lotRelD(3) [OF assms(1), of j u q'] old [OF that] by simp
  qed
  show "j' = j" if "(P(i := q)) j = Waking u q1" "(P(i := q)) j' = Waking u q2" for j u q1 j' q2
    using lotRelD(4) [OF assms(1)] old [OF that(1)] old [OF that(2)] by blast
  show "\<exists>j q'. (P(i := q)) j = Waking u q'" if "u \<notin> set xs" "(A(t := 0)) u \<noteq> 0" for u
  proof -
    have u: "u \<noteq> t" "A u \<noteq> 0" using that(2) by (auto split: if_splits)
    obtain j q' where "P j = Waking u q'" using lotRelD(5) [OF assms(1) _ u(2)] \<open>u \<notin> set xs\<close> by blast
    moreover have "j \<noteq> i" using calculation i u(1) by auto
    ultimately show ?thesis by (intro exI [of _ j]) simp
  qed
qed

lemma lotInv_plain:
  assumes "lotInv a xs s" and "plain (pcs s i)" and "plain p"
  shows "lotInv a xs (setPc (s\<lparr>lockByteOf := v\<rparr>) i p)"
  using assms lotRel_plain [of a xs "\<lambda>t. td_address (lotStore s t)" "pcs s" i p] by (simp add: lotInv_def setPc_def)

lemma byte_step_inv:
  assumes inv: "lotInv a xs s" "ownerInv xs s" "wakeInv a xs s" and act: "(p, v) \<in> set (act (pcs s i) (lockByteOf s))"
  shows "lockConf a xs (setPc (s\<lparr>lockByteOf := v\<rparr>) i p)"
proof -
  let ?s' = "setPc (s\<lparr>lockByteOf := v\<rparr>) i p"
  note pl = act_plain [OF act]
  have pcI: "pcInv (lockByteOf s) (pcs s j)" for j using inv(2) by (simp add: ownerInv_def)
  have uniq: "owner xs s j \<Longrightarrow> owner xs s k \<Longrightarrow> j = k" and ex: "held (lockByteOf s) \<longleftrightarrow> (\<exists>j. owner xs s j)" for j k
    using inv(2) by (auto simp: ownerInv_def)
  have own: "owner xs ?s' j \<longleftrightarrow> (if j = i then holding p else owner xs s j)" "owner xs s i \<longleftrightarrow> holding (pcs s i)" for j
    using pl by (auto simp: owner_def plain_iff)
  have tr: "trying xs ?s' j \<longleftrightarrow> (if j = i then acquiring p else trying xs s j)" "trying xs s i \<longleftrightarrow> acquiring (pcs s i)" for j
    using pl by (auto simp: trying_def plain_iff)
  have w: "waiters a xs ?s' = waiters a xs s" by (simp add: waiters_def)
  have hh: "held (lockByteOf s)" if "holding (pcs s i)" using that own(2) ex by blast
  have eff: "pcInv v p" "acquiring (pcs s i) \<longrightarrow> acquiring p \<or> held v"
      "if holding (pcs s i) then if holding p then v = lockByteOf s else held (lockByteOf s) \<and> \<not> held v \<and> \<not> hasParked (lockByteOf s) \<and> \<not> hasParked v
     else if holding p then \<not> held (lockByteOf s) \<and> held v \<and> hasParked v = hasParked (lockByteOf s)
     else held v = held (lockByteOf s) \<and> (hasParked (lockByteOf s) \<longrightarrow> hasParked v)"
    using act_effect [OF act pcI hh] by auto
  have "lotInv a xs ?s'" using inv(1) pl by (simp add: lotInv_plain)
  moreover have "ownerInv xs ?s'"
  proof -
    have "pcInv v (pcs s j)" if "j \<noteq> i" for j
    proof (cases "\<exists>f r. pcs s j = UnlockUnpark f r")
      case True
      then have "owner xs s j" "hasParked (lockByteOf s)" using pcI [of j] by (auto simp: owner_def)
      then show ?thesis using True eff(3) uniq [of i j] own(2) that by (auto split: if_splits)
    next
      case False
      then show ?thesis using pcI [of j] by (cases "pcs s j") auto
    qed
    moreover have "held v \<longleftrightarrow> (\<exists>j. owner xs ?s' j)"
    proof (cases "holding p")
      case True
      then show ?thesis using eff(3) hh own(1) by (auto split: if_splits)
    next
      case False
      then have "(\<exists>j. owner xs ?s' j) \<longleftrightarrow> (\<exists>j. j \<noteq> i \<and> owner xs s j)" using own(1) by auto
      moreover have "(\<exists>j. j \<noteq> i \<and> owner xs s j) \<longleftrightarrow> held v"
      proof (cases "owner xs s i")
        case True
        then have "\<not> held v" "\<forall>j. owner xs s j \<longrightarrow> j = i" using False eff(3) own(2) uniq by (auto split: if_splits)
        then show ?thesis by blast
      next
        case no: False
        then have "held v = held (lockByteOf s)" using False eff(3) own(2) by auto
        then show ?thesis unfolding ex using no by metis
      qed
      ultimately show ?thesis by simp
    qed
    moreover have "j = k" if "owner xs ?s' j" "owner xs ?s' k" for j k
      using that eff(3) ex uniq own by (auto split: if_splits)
    ultimately show ?thesis using eff(1) by (auto simp: ownerInv_def)
  qed
  moreover have "wakeInv a xs ?s'"
  proof -
    have "\<exists>k. trying xs ?s' k" if "trying xs s j" "\<not> held v" for j
      using that tr eff(2) by (cases "j = i") auto
    then show ?thesis using inv(3) eff(3) hh unfolding wakeInv_def w by (auto split: if_splits)
  qed
  ultimately show ?thesis by (auto simp: lockConf_def)
qed
text \<open>Steps that go through the parking lot.\<close>

lemma frame_inv:
  assumes inv: "ownerInv xs s" "wakeInv a xs s" and v: "lockByteOf s' = lockByteOf s"
    and own: "\<And>j. owner xs' s' j \<longleftrightarrow> owner xs s j" and pc: "\<And>j. pcInv (lockByteOf s) (pcs s' j)"
    and wake: "held (lockByteOf s) \<and> hasParked (lockByteOf s) \<or> ((\<forall>j. trying xs s j \<longrightarrow> trying xs' s' j) \<and> waiters a xs' s' = waiters a xs s)"
  shows "ownerInv xs' s' \<and> wakeInv a xs' s'"
  using assms unfolding ownerInv_def wakeInv_def by auto

lemma lotInvD:
  assumes "lotInv a xs s"
  shows "isQueue (lotStore s) (lotBucket s) xs" and "i \<notin> set xs \<Longrightarrow> nextInQueue (lotStore s i) = None"
    and "lotRel a xs (\<lambda>t. td_address (lotStore s t)) (pcs s)"
  using assms by (auto simp: lotInv_def)

lemma plain_lot:
  assumes "lotInv a xs s" "plain (pcs s i)"
  shows "i \<notin> set xs" "td_address (lotStore s i) = 0" "nextInQueue (lotStore s i) = None"
proof -
  show "i \<notin> set xs" "td_address (lotStore s i) = 0"
    using lotRel_awake [OF lotInvD(3) [OF assms(1)], of i] assms(2) by (auto simp: plain_iff)
  then show "nextInQueue (lotStore s i) = None" using lotInvD(2) [OF assms(1)] by simp
qed

lemma park_lotInv:
  assumes inv: "lotInv a xs s" and i: "plain (pcs s i)" and a': "a' \<noteq> 0" and p: "if a' = a then \<exists>k. p = Parked k else p = ParkedElsewhere"
    and q: "isQueue h b (xs @ [i])" and A: "\<And>t. td_address (h t) = (if t = i then a' else td_address (lotStore s t))"
    and h: "\<And>t. t \<notin> set (xs @ [i]) \<Longrightarrow> h t = lotStore s t"
  shows "lotInv a (xs @ [i]) (setPc (s\<lparr>lotStore := h, lotBucket := b\<rparr>) i p)"
proof -
  have A': "(\<lambda>t. td_address (h t)) = (\<lambda>t. td_address (lotStore s t))(i := a')" using A by auto
  have "nextInQueue (h t) = None" if "t \<notin> set (xs @ [i])" for t using h [OF that] lotInvD(2) [OF inv, of t] that by simp
  then show ?thesis
    using lotRel_park [OF lotInvD(3) [OF inv] i a' p] q by (simp add: lotInv_def setPc_def A')
qed

lemma unpark_lotInv:
  assumes inv: "lotInv a xs s" and i: "plain (pcs s i)" and t: "t \<in> set xs" and p: "p = Idle \<or> p = LockEntry"
    and q: "isQueue h b (remove1 t xs)" and A: "\<And>u. td_address (h u) = td_address (lotStore s u)"
    and h: "nextInQueue (h t) = None" "\<And>u. u \<notin> set xs \<Longrightarrow> h u = lotStore s u"
  shows "lotInv a (remove1 t xs) (setPc (s\<lparr>lotStore := h, lotBucket := b, lockByteOf := v\<rparr>) i (Waking t p))"
proof -
  have "distinct xs" using lotInvD(1) [OF inv] by (simp add: isQueue_def)
  moreover have "nextInQueue (h u) = None" if "u \<notin> set (remove1 t xs)" for u
    using that h lotInvD(2) [OF inv, of u] by (cases "u = t") auto
  ultimately show ?thesis
    using lotRel_unpark [OF lotInvD(3) [OF inv] i t _ p] q by (simp add: lotInv_def setPc_def A)
qed

lemma same_lotInv:
  assumes inv: "lotInv a xs s" and i: "plain (pcs s i)" and p: "plain p"
    and q: "isQueue h b xs" and A: "\<And>u. td_address (h u) = td_address (lotStore s u)" and h: "\<And>u. u \<notin> set xs \<Longrightarrow> nextInQueue (h u) = nextInQueue (lotStore s u)"
  shows "lotInv a xs (setPc (s\<lparr>lotStore := h, lotBucket := b, lockByteOf := v\<rparr>) i p)"
  using lotRel_plain [OF lotInvD(3) [OF inv] _ p, of i] i q lotInvD(2) [OF inv] h by (simp add: lotInv_def setPc_def A)

lemma park_step_inv:
  assumes inv: "lotInv a xs s" "ownerInv xs s" "wakeInv a xs s" and a: "a \<noteq> 0" and i: "pcs s i = SlowPark currentValue spinCount"
  shows "lockConf a (if lockByteOf s = currentValue then xs @ [i] else xs) (parkStep a s i currentValue spinCount)"
proof -
  note l = plain_lot [OF inv(1), of i]
  have pl: "plain (pcs s i)" using i by simp
  have pcI: "pcInv (lockByteOf s) (pcs s j)" for j using inv(2) by (simp add: ownerInv_def)
  show ?thesis
  proof (cases "lockByteOf s = currentValue")
    case True
    obtain h b where e: "parkEnqueue a True i (lotStore s) (lotBucket s) = Inr (h, b, True)" "isQueue h b (xs @ [i])"
        "\<And>t. td_address (h t) = (if t = i then a else td_address (lotStore s t))"
        "\<And>t. td_token (h t) = (if t = i then 0 else td_token (lotStore s t))" "\<And>t. t \<notin> set (xs @ [i]) \<Longrightarrow> h t = lotStore s t"
      using parkEnqueue_refines [OF lotInvD(1) [OF inv(1)] l a] pl by auto
    let ?s' = "setPc (s\<lparr>lotStore := h, lotBucket := b\<rparr>) i (Parked spinCount)"
    have "owner (xs @ [i]) ?s' j \<longleftrightarrow> owner xs s j" for j using i e(4) by (auto simp: owner_def)
    moreover have "pcInv (lockByteOf s) (pcs ?s' j)" for j using pcI by simp
    moreover have "held (lockByteOf s) \<and> hasParked (lockByteOf s)" using pcI [of i] i True by simp
    ultimately have "ownerInv (xs @ [i]) ?s' \<and> wakeInv a (xs @ [i]) ?s'" using inv(2,3) by (intro frame_inv [where s = s and xs = xs]) auto
    moreover have "lotInv a (xs @ [i]) ?s'" using park_lotInv [OF inv(1) pl a _ e(2,3,5)] by simp
    ultimately show ?thesis using e(1) True by (auto simp: lockConf_def parkStep_def)
  next
    case False
    let ?h = "setToken (lotStore s) i 0"
    let ?s' = "setPc (s\<lparr>lotStore := ?h, lotBucket := lotBucket s, lockByteOf := lockByteOf s\<rparr>) i (SlowLoad spinCount)"
    have "isQueue ?h (lotBucket s) xs" by (rule isQueue_cong [OF lotInvD(1) [OF inv(1)]]) simp
    then have "lotInv a xs ?s'" by (intro same_lotInv [OF inv(1) pl]) auto
    moreover have "ownerInv xs ?s' \<and> wakeInv a xs ?s'"
      using inv(2,3) pcI i l by (intro frame_inv [where s = s and xs = xs]) (auto simp: owner_def trying_def waiters_def)
    ultimately show ?thesis using False parkEnqueue_refused [of "lotStore s" i a "lotBucket s"] l pl by (auto simp: lockConf_def parkStep_def)
  qed
qed
lemma resume_step_inv:
  assumes inv: "lotInv a xs s" "ownerInv xs s" "wakeInv a xs s" and i: "pcs s i = Parked spinCount" and awake: "td_address (lotStore s i) = 0"
  shows "lockConf a xs (resumeStep a s i spinCount)"
proof -
  have pcI: "pcInv (lockByteOf s) (pcs s j)" for j using inv(2) by (simp add: ownerInv_def)
  have notin: "i \<notin> set xs" using lotRelD(1) [OF lotInvD(3) [OF inv(1)], of i] awake by auto
  have h: "held (lockByteOf s)" if "td_token (lotStore s i) = DirectHandoff"
    using inv(2) that i notin unfolding ownerInv_def owner_def by blast
  define p where "p = (if td_token (lotStore s i) = DirectHandoff then Critical else SlowLoad spinCount)"
  let ?s' = "setPc s i p"
  have eq: "resumeStep a s i spinCount = ?s'" using h awake by (simp add: resumeStep_def p_def isLocked_def and_bits)
  have "lotInv a xs ?s'"
    using lotRel_plain [OF lotInvD(3) [OF inv(1)], of i p] inv(1) awake i by (simp add: lotInv_def setPc_def p_def)
  moreover have "ownerInv xs ?s' \<and> wakeInv a xs ?s'"
    using inv(2,3) pcI i notin by (intro frame_inv [where s = s and xs = xs]) (auto simp: owner_def trying_def waiters_def p_def)
  ultimately show ?thesis unfolding eq by (auto simp: lockConf_def)
qed

lemma wakeStep_eq:
  assumes "lotInv a xs s" and "pcs s i = Waking t p"
  shows "wakeStep s i t p = setPc (s\<lparr>lotStore := wake (lotStore s) t\<rparr>) i p"
  using lotRelD(3) [OF lotInvD(3) [OF assms(1)] assms(2)] by (simp add: wakeStep_def)

lemma wake_step_inv:
  assumes inv: "lotInv a xs s" "ownerInv xs s" "wakeInv a xs s" and a: "a \<noteq> 0" and i: "pcs s i = Waking t p"
  shows "lockConf a xs (wakeStep s i t p)"
proof -
  have pcI: "pcInv (lockByteOf s) (pcs s j)" for j using inv(2) by (simp add: ownerInv_def)
  have t: "t \<notin> set xs" "p = Idle \<or> p = LockEntry" using lotRelD(3) [OF lotInvD(3) [OF inv(1)] i] by auto
  let ?s' = "wakeStep s i t p"
  note eq = wakeStep_eq [OF inv(1) i]
  have A: "(\<lambda>u. td_address (wake (lotStore s) t u)) = (\<lambda>u. td_address (lotStore s u))(t := 0)" by (auto simp: wake_def)
  have "isQueue (wake (lotStore s) t) (lotBucket s) xs"
    by (rule isQueue_cong [OF lotInvD(1) [OF inv(1)]]) (simp add: wake_def)
  then have "lotInv a xs ?s'"
    using lotRel_wake [OF lotInvD(3) [OF inv(1)] i a] lotInvD(2) [OF inv(1)] by (simp add: lotInv_def eq setPc_def A) (simp add: wake_def)
  moreover have "ownerInv xs ?s' \<and> wakeInv a xs ?s'"
  proof (rule frame_inv [OF inv(2,3)])
    have "waiters a xs ?s' = waiters a xs s" unfolding waiters_def by (rule filter_cong) (use t in \<open>auto simp: eq wake_def\<close>)
    moreover have "trying xs s j \<longrightarrow> trying xs ?s' j" for j using i t by (auto simp: trying_def eq wake_def)
    ultimately show "held (lockByteOf s) \<and> hasParked (lockByteOf s) \<or> ((\<forall>j. trying xs s j \<longrightarrow> trying xs ?s' j) \<and> waiters a xs ?s' = waiters a xs s)" by blast
    show "owner xs ?s' j \<longleftrightarrow> owner xs s j" for j using i t by (auto simp: owner_def eq wake_def)
    show "pcInv (lockByteOf s) (pcs ?s' j)" for j using pcI t by (auto simp: eq)
  qed (simp add: eq)
  ultimately show ?thesis by (auto simp: lockConf_def)
qed

lemma other_park_inv:
  assumes inv: "lotInv a xs s" "ownerInv xs s" "wakeInv a xs s" and a': "a' \<noteq> 0" "a' \<noteq> a" and i: "pcs s i = Idle"
  shows "lockConf a (xs @ [i]) (otherParkStep a' s i)"
proof -
  have pl: "plain (pcs s i)" using i by simp
  note l = plain_lot [OF inv(1) pl]
  have pcI: "pcInv (lockByteOf s) (pcs s j)" for j using inv(2) by (simp add: ownerInv_def)
  obtain h b where e: "parkEnqueue a' True i (lotStore s) (lotBucket s) = Inr (h, b, True)" "isQueue h b (xs @ [i])"
      "\<And>t. td_address (h t) = (if t = i then a' else td_address (lotStore s t))"
      "\<And>t. td_token (h t) = (if t = i then 0 else td_token (lotStore s t))" "\<And>t. t \<notin> set (xs @ [i]) \<Longrightarrow> h t = lotStore s t"
    using parkEnqueue_refines [OF lotInvD(1) [OF inv(1)] l a'(1)] by auto
  let ?s' = "setPc (s\<lparr>lotStore := h, lotBucket := b\<rparr>) i ParkedElsewhere"
  have "waiters a (xs @ [i]) ?s' = waiters a xs s"
    using l(1) a'(2) by (auto simp: waiters_def e(3) intro!: filter_cong)
  then have "ownerInv (xs @ [i]) ?s' \<and> wakeInv a (xs @ [i]) ?s'"
    using inv(2,3) pcI i e(4) by (intro frame_inv [where s = s and xs = xs]) (auto simp: owner_def trying_def)
  moreover have "lotInv a (xs @ [i]) ?s'" using park_lotInv [OF inv(1) pl a'(1) _ e(2,3,5), of ParkedElsewhere] a'(2) by simp
  ultimately show ?thesis using e(1) by (auto simp: lockConf_def otherParkStep_def)
qed

lemma other_resume_inv:
  assumes inv: "lotInv a xs s" "ownerInv xs s" "wakeInv a xs s" and i: "pcs s i = ParkedElsewhere" and awake: "td_address (lotStore s i) = 0"
  shows "lockConf a xs (setPc s i Idle)"
proof -
  have pcI: "pcInv (lockByteOf s) (pcs s j)" for j using inv(2) by (simp add: ownerInv_def)
  have "lotInv a xs (setPc s i Idle)"
    using lotRel_plain [OF lotInvD(3) [OF inv(1)], of i Idle] inv(1) awake i by (simp add: lotInv_def setPc_def)
  moreover have "ownerInv xs (setPc s i Idle) \<and> wakeInv a xs (setPc s i Idle)"
    using inv(2,3) pcI i by (intro frame_inv [where s = s and xs = xs]) (auto simp: owner_def trying_def waiters_def)
  ultimately show ?thesis by (auto simp: lockConf_def)
qed

text \<open>What the parking lot does when a thread is unparked, seen from the queue.\<close>

lemma unparkOneImpl_cases:
  assumes inv: "lotInv a xs s"
  obtains (none) h b token w' where "waiters a' xs s = []"
      "callback \<lparr>didUnparkThread = False, mayHaveMoreThreads = False, timeToBeFair = False\<rparr> w = (token, w')"
      "unparkOneImpl time delay a' callback (lotStore s) (lotBucket s) w = Some (Inr (h, b, None, w'))" "isQueue h b xs"
      "\<And>u. td_address (h u) = td_address (lotStore s u)" "\<And>u. td_token (h u) = td_token (lotStore s u)" "\<And>u. u \<notin> set xs \<Longrightarrow> h u = lotStore s u"
  | (some) t ts h b token w' where "waiters a' xs s = t # ts" "t \<in> set xs" "td_address (lotStore s t) = a'"
      "callback \<lparr>didUnparkThread = True, mayHaveMoreThreads = (remove1 t xs \<noteq> []), timeToBeFair = (time > nextFairTime (lotBucket s))\<rparr> w = (token, w')"
      "unparkOneImpl time delay a' callback (lotStore s) (lotBucket s) w = Some (Inr (h, b, Some t, w'))" "isQueue h b (remove1 t xs)"
      "\<And>u. td_address (h u) = td_address (lotStore s u)" "\<And>u. td_token (h u) = (if u = t then token else td_token (lotStore s u))"
      "nextInQueue (h t) = None" "\<And>u. u \<notin> set xs \<Longrightarrow> h u = lotStore s u"
proof (cases "waiters a' xs s")
  case Nil
  obtain token w' where c: "callback \<lparr>didUnparkThread = False, mayHaveMoreThreads = False, timeToBeFair = False\<rparr> w = (token, w')" by fastforce
  have "\<forall>t\<in>set xs. td_address (lotStore s t) \<noteq> a'" using Nil by (auto simp: waiters_def filter_empty_conv)
  then show thesis
    using unparkOneImpl_none [OF lotInvD(1) [OF inv], of a' callback w token w' time delay] c none Nil by (auto simp: sameData_def)
next
  case (Cons t ts)
  obtain token w' where c: "callback \<lparr>didUnparkThread = True, mayHaveMoreThreads = (remove1 t xs \<noteq> []), timeToBeFair = (time > nextFairTime (lotBucket s))\<rparr> w = (token, w')" by fastforce
  have "t \<in> set (waiters a' xs s)" unfolding Cons by simp
  then have t: "t \<in> set xs" "td_address (lotStore s t) = a'" by (auto simp: waiters_def)
  show thesis
    using unparkOneImpl_some [OF lotInvD(1) [OF inv], of a' t ts callback time w token w' delay] c some [OF Cons t] Cons
    by (auto simp: waiters_def)
qed
lemma other_unpark_inv:
  assumes inv: "lotInv a xs s" "ownerInv xs s" "wakeInv a xs s" and a': "a' \<noteq> 0" "a' \<noteq> a" and i: "pcs s i = Idle"
  shows "\<exists>s'. otherUnparkStep time delay a' token s i = Some s' \<and> lockInv a s'"
proof -
  have pl: "plain (pcs s i)" using i by simp
  have pcI: "pcInv (lockByteOf s) (pcs s j)" for j using inv(2) by (simp add: ownerInv_def)
  show ?thesis
  proof (cases rule: unparkOneImpl_cases [OF inv(1), where callback = "\<lambda>_ w. (token, w)" and w = "()" and a' = a' and time = time and delay = delay, case_names none some])
    case (none h b token' w')
    let ?s' = "setPc (s\<lparr>lotStore := h, lotBucket := b, lockByteOf := lockByteOf s\<rparr>) i Idle"
    have "lotInv a xs ?s'" using none by (intro same_lotInv [OF inv(1) pl]) auto
    moreover have "ownerInv xs ?s' \<and> wakeInv a xs ?s'"
      using inv(2,3) pcI i none(5,6) by (intro frame_inv [where s = s and xs = xs]) (auto simp: owner_def trying_def waiters_def)
    ultimately show ?thesis using none(3) by (auto simp: lockInv_def lockConf_def otherUnparkStep_def)
  next
    case (some t ts h b token' w')
    let ?s' = "setPc (s\<lparr>lotStore := h, lotBucket := b, lockByteOf := lockByteOf s\<rparr>) i (Waking t Idle)"
    have t: "pcs s t = ParkedElsewhere" "t \<noteq> i" using lotRelD(2) [OF lotInvD(3) [OF inv(1)], of t] some(3) a' i by auto
    have r: "j \<in> set (remove1 t xs) \<longleftrightarrow> j \<in> set xs" if "j \<noteq> t" for j using that by simp
    have "lotInv a (remove1 t xs) ?s'" using some by (intro unpark_lotInv [OF inv(1) pl]) auto
    moreover have "ownerInv (remove1 t xs) ?s' \<and> wakeInv a (remove1 t xs) ?s'"
    proof (rule frame_inv [OF inv(2,3)])
      have "waiters a (remove1 t xs) ?s' = waiters a xs s"
        using some(3) a'(2) by (simp add: waiters_def some(7) filter_remove1 remove1_idem)
      moreover have "trying xs s j \<longrightarrow> trying (remove1 t xs) ?s' j" for j
        using i t some(8) r by (cases "j = t") (auto simp: trying_def)
      ultimately show "held (lockByteOf s) \<and> hasParked (lockByteOf s) \<or> ((\<forall>j. trying xs s j \<longrightarrow> trying (remove1 t xs) ?s' j) \<and> waiters a (remove1 t xs) ?s' = waiters a xs s)" by blast
      show "owner (remove1 t xs) ?s' j \<longleftrightarrow> owner xs s j" for j using i t some(8) r by (cases "j = t") (auto simp: owner_def)
    qed (use pcI in auto)
    ultimately show ?thesis using some(5) by (auto simp: lockInv_def lockConf_def otherUnparkStep_def)
  qed
qed

lemma unlockCallback_byte:
  assumes "unlockCallback fairness r v = (token, v')" and "held v" "hasParked v"
  shows "token = DirectHandoff \<and> v' = v \<and> didUnparkThread r
    \<or> token = BargingOpportunity \<and> \<not> held v' \<and> (hasParked v' \<longleftrightarrow> mayHaveMoreThreads r)"
  using assms by (auto simp: unlockCallback_def Let_def split: if_splits)

lemma unpark_step_inv:
  assumes inv: "lotInv a xs s" "ownerInv xs s" "wakeInv a xs s" and a: "a \<noteq> 0" and i: "pcs s i = UnlockUnpark fairness relock"
  shows "\<exists>s' xs'. unparkStep time delay a fairness relock s i = Some s' \<and> lockConf a xs' s' \<and> (\<forall>j. j \<noteq> i \<longrightarrow> pcs s' j = pcs s j)
    \<and> waiters a xs' s' = tl (waiters a xs s) \<and> (waiters a xs s = [] \<longrightarrow> \<not> held (lockByteOf s'))"
proof -
  have pl: "plain (pcs s i)" using i by simp
  have pcI: "pcInv (lockByteOf s) (pcs s j)" for j using inv(2) by (simp add: ownerInv_def)
  have own: "owner xs s j \<longleftrightarrow> j = i" for j using inv(2) i unfolding ownerInv_def owner_def by (metis holding.simps(5))
  have nb: "\<not> holding (pcs s j)" if "j \<noteq> i" for j using own [of j] that by (auto simp: owner_def)
  have hp: "held (lockByteOf s)" "hasParked (lockByteOf s)" using inv(2) pcI [of i] i own by (auto simp: ownerInv_def)
  have pc': "pcInv v (pcs s j)" if "j \<noteq> i" for j v using pcI [of j] nb [OF that] by (cases "pcs s j") auto
  have after: "afterUnlock relock = Idle \<or> afterUnlock relock = LockEntry" by (simp add: afterUnlock_def)
  have ok: "\<not> lockByteOf s AND lockMask \<noteq> isHeldBit OR hasParkedBit" using hp by (simp add: and_bits)
  show ?thesis
  proof (cases rule: unparkOneImpl_cases [OF inv(1), where callback = "unlockCallback fairness" and w = "lockByteOf s" and a' = a and time = time and delay = delay, case_names none some])
    case (none h b token v)
    let ?s' = "setPc (s\<lparr>lotStore := h, lotBucket := b, lockByteOf := v\<rparr>) i (afterUnlock relock)"
    have v: "\<not> held v" using unlockCallback_byte [OF none(2) hp] by simp
    have "\<not> owner xs ?s' j" for j using own [of j] after none(6) by (auto simp: owner_def)
    moreover have w: "waiters a xs ?s' = []" using none(1) by (simp add: waiters_def none(5))
    ultimately have "ownerInv xs ?s' \<and> wakeInv a xs ?s'" using v pc' after by (auto simp: ownerInv_def wakeInv_def)
    moreover have "lotInv a xs ?s'" using none after by (intro same_lotInv [OF inv(1) pl]) auto
    ultimately show ?thesis using none(1,3) ok v w by (intro exI [of _ ?s'] exI [of _ xs]) (auto simp: lockConf_def unparkStep_def)
  next
    case (some t ts h b token v)
    let ?xs = "remove1 t xs"
    let ?s' = "setPc (s\<lparr>lotStore := h, lotBucket := b, lockByteOf := v\<rparr>) i (Waking t (afterUnlock relock))"
    obtain k where t1: "pcs s t = Parked k" using lotRelD(2) [OF lotInvD(3) [OF inv(1)], of t] some(3) a by auto
    then have t: "pcs s t = Parked k" "t \<noteq> i" using i by auto
    have d: "distinct xs" using lotInvD(1) [OF inv(1)] by (simp add: isQueue_def)
    have r: "j \<in> set ?xs \<longleftrightarrow> j \<noteq> t \<and> j \<in> set xs" for j using d by (simp add: set_remove1_eq) blast
    have o: "owner ?xs ?s' j \<longleftrightarrow> j = t \<and> token = DirectHandoff" for j
      using own [of j] t r [of j] some(8) [of j] by (auto simp: owner_def)
    have tr: "trying ?xs ?s' t" if "token \<noteq> DirectHandoff" using that t r some(8) by (auto simp: trying_def)
    have m: "?xs \<noteq> []" if "waiters a ?xs ?s' \<noteq> []" using that by (auto simp: waiters_def)
    have v: "token = DirectHandoff \<and> held v \<and> hasParked v \<or> token \<noteq> DirectHandoff \<and> \<not> held v \<and> (?xs \<noteq> [] \<longrightarrow> hasParked v)"
      using unlockCallback_byte [OF some(4) hp] hp by (auto simp: DirectHandoff_def BargingOpportunity_def)
    have "ownerInv ?xs ?s'" using v o pc' by (auto simp: ownerInv_def)
    moreover have "wakeInv a ?xs ?s'" using v tr m unfolding wakeInv_def by auto
    moreover have "lotInv a ?xs ?s'" using some after by (intro unpark_lotInv [OF inv(1) pl]) auto
    moreover have "waiters a ?xs ?s' = ts"
      using some(1) by (simp add: waiters_def some(7) filter_remove1)
    ultimately show ?thesis using some(1,5) ok by (intro exI [of _ ?s'] exI [of _ ?xs]) (auto simp: lockConf_def unparkStep_def)
  qed
qed

lemma lockInvE:
  assumes "lockInv a s"
  obtains xs where "lotInv a xs s" "ownerInv xs s" "wakeInv a xs s"
  using assms by (auto simp: lockInv_def lockConf_def)

lemma lockInvI: "lockConf a xs s \<Longrightarrow> lockInv a s"
  by (auto simp: lockInv_def)

lemma threadStep_inv: "threadStep a i s s' \<Longrightarrow> a \<noteq> 0 \<Longrightarrow> lockInv a s \<Longrightarrow> lockInv a s'"
proof (induction rule: threadStep.induct)
  case (unpark_step s fairness relock time delay s')
  then show ?case by (elim lockInvE) (use unpark_step_inv [of a _ s i fairness relock time delay] lockInvI in fastforce)
next
  case (other_unpark s a' time delay token s')
  then show ?case by (elim lockInvE) (use other_unpark_inv [of a _ s a' i time delay token] in fastforce)
qed (blast elim: lockInvE intro: byte_step_inv park_step_inv resume_step_inv wake_step_inv other_park_inv other_resume_inv lockInvI)+

lemma lockReachable_inv:
  assumes "lockReachable a s" and "a \<noteq> 0"
  shows "lockInv a s"
  using assms(1) unfolding lockReachable_def
  by (induction rule: rtranclp_induct) (use assms(2) in \<open>auto simp: initial_inv simp: lockStep_def intro: threadStep_inv\<close>)
section \<open>Progress\<close>

text \<open>
  \<open>moves a xs i s s'\<close>: there is a run of inner steps from \<open>s\<close> to \<open>s'\<close> in which, of the threads that matter, only \<open>i\<close> moves, and that leaves
  the queue \<open>xs\<close> and its waiters alone.
\<close>

definition moves :: "address \<Rightarrow> tid list \<Rightarrow> tid \<Rightarrow> lockState \<Rightarrow> lockState \<Rightarrow> bool" where
  "moves a xs i s s' \<longleftrightarrow> (innerStep a)\<^sup>*\<^sup>* s s' \<and> lockConf a xs s' \<and> waiters a xs s' = waiters a xs s
     \<and> (\<forall>j. j \<noteq> i \<and> (\<forall>t p. pcs s j \<noteq> Waking t p) \<longrightarrow> pcs s' j = pcs s j)"

lemma inner: "threadStep a i s s' \<Longrightarrow> pcs s i \<noteq> Idle \<Longrightarrow> (innerStep a)\<^sup>*\<^sup>* s s'"
  by (rule r_into_rtranclp) (auto simp: innerStep_def)

lemma moves_refl: "lockConf a xs s \<Longrightarrow> moves a xs i s s"
  by (simp add: moves_def)

lemma moves_trans: "moves a xs i s s' \<Longrightarrow> moves a xs i s' s'' \<Longrightarrow> moves a xs i s s''"
  by (auto simp: moves_def)

lemma moves_byte:
  assumes "lockConf a xs s" and "(p, v) \<in> set (act (pcs s i) (lockByteOf s))" and "pcs s i \<noteq> Idle"
  shows "\<exists>s'. moves a xs i s s' \<and> lockByteOf s' = v \<and> pcs s' i = p"
proof (intro exI [of _ "setPc (s\<lparr>lockByteOf := v\<rparr>) i p"] conjI)
  show "moves a xs i s (setPc (s\<lparr>lockByteOf := v\<rparr>) i p)"
    using inner [OF byte_step [OF assms(2), of a] assms(3)] byte_step_inv [OF _ _ _ assms(2)] assms(1) by (auto simp: moves_def lockConf_def waiters_def)
qed simp_all

lemma moves_refused:
  assumes c: "lockConf a xs s" and a: "a \<noteq> 0" and i: "pcs s i = SlowPark currentValue spinCount" and v: "lockByteOf s \<noteq> currentValue"
  shows "\<exists>s'. moves a xs i s s' \<and> lockByteOf s' = lockByteOf s \<and> pcs s' i = SlowLoad spinCount"
proof (intro exI [of _ "parkStep a s i currentValue spinCount"] conjI)
  have l: "lotInv a xs s" using c by (simp add: lockConf_def)
  have e: "parkStep a s i currentValue spinCount = setPc (s\<lparr>lotStore := setToken (lotStore s) i 0, lotBucket := lotBucket s\<rparr>) i (SlowLoad spinCount)"
    using plain_lot(2) [OF l, of i] i v parkEnqueue_refused [of "lotStore s" i a "lotBucket s"] by (simp add: parkStep_def)
  show "moves a xs i s (parkStep a s i currentValue spinCount)"
    using inner [OF park_step [OF i, of a]] i park_step_inv [OF _ _ _ a i] c v by (auto simp: moves_def lockConf_def e waiters_def)
qed (use plain_lot(2) [of a xs s i] i v c parkEnqueue_refused [of "lotStore s" i a "lotBucket s"] in \<open>auto simp: parkStep_def lockConf_def\<close>)

text \<open>A thread in the slow path takes a lock that nobody holds.\<close>

lemma to_SlowLoad:
  assumes c: "lockConf a xs s" and a: "a \<noteq> 0" and free: "\<not> held (lockByteOf s)" and i: "acquiring (pcs s i)"
  shows "\<exists>s' k. moves a xs i s s' \<and> lockByteOf s' = lockByteOf s \<and> pcs s' i = SlowLoad k"
proof (cases "pcs s i")
  case (SlowLoad k)
  then show ?thesis using moves_refl [OF c] by blast
next
  case (SlowCAS cur k)
  then show ?thesis using moves_byte [OF c, of "SlowLoad k" "lockByteOf s" i] by (auto simp: compareExchangeWeak_def)
next
  case (SlowSetParked cur k)
  then show ?thesis using moves_byte [OF c, of "SlowLoad k" "lockByteOf s" i] by (auto simp: compareExchangeWeak_def)
next
  case (SlowPark cur k)
  have "pcInv (lockByteOf s) (pcs s i)" using c by (simp add: lockConf_def ownerInv_def)
  then have "lockByteOf s \<noteq> cur" using free SlowPark by auto
  then show ?thesis using moves_refused [OF c a SlowPark] by blast
qed (use i in auto)

lemma acquire:
  assumes c: "lockConf a xs s" and a: "a \<noteq> 0" and free: "\<not> held (lockByteOf s)" and i: "acquiring (pcs s i)"
  shows "\<exists>s'. moves a xs i s s' \<and> pcs s' i = Critical"
proof -
  obtain s1 k where 1: "moves a xs i s s1" "lockByteOf s1 = lockByteOf s" "pcs s1 i = SlowLoad k" using to_SlowLoad [OF assms] by blast
  have c1: "lockConf a xs s1" using 1(1) by (simp add: moves_def)
  obtain s2 where 2: "moves a xs i s1 s2" "lockByteOf s2 = lockByteOf s" "pcs s2 i = SlowCAS (lockByteOf s) k"
    using moves_byte [OF c1, of "SlowCAS (lockByteOf s) k" "lockByteOf s" i] 1 free by (auto simp: byte_defs)
  have c2: "lockConf a xs s2" using 2(1) by (simp add: moves_def)
  obtain s3 where "moves a xs i s2 s3" "pcs s3 i = Critical"
    using moves_byte [OF c2, of Critical "lockByteOf s OR isHeldBit" i] 2 by (auto simp: byte_defs)
  then show ?thesis using 1 2 moves_trans by blast
qed

text \<open>A thread that left the queue wakes up: with the lock when it was handed over, and in the slow path otherwise.\<close>

lemma resume_moves:
  assumes c: "lockConf a xs s" and t: "pcs s t = Parked k" and awake: "td_address (lotStore s t) = 0"
  shows "\<exists>s'. moves a xs t s s' \<and> lockByteOf s' = lockByteOf s \<and> pcs s' t = (if td_token (lotStore s t) = DirectHandoff then Critical else SlowLoad k)"
proof (intro exI [of _ "resumeStep a s t k"] conjI)
  have l: "lotInv a xs s" "ownerInv xs s" "wakeInv a xs s" using c by (auto simp: lockConf_def)
  have "t \<notin> set xs" using lotRelD(1) [OF lotInvD(3) [OF l(1)], of t] awake by auto
  then have "held (lockByteOf s)" if "td_token (lotStore s t) = DirectHandoff"
    using l(2) that t unfolding ownerInv_def owner_def by blast
  then show "pcs (resumeStep a s t k) t = (if td_token (lotStore s t) = DirectHandoff then Critical else SlowLoad k)"
    using awake by (simp add: resumeStep_def isLocked_def and_bits)
  show "moves a xs t s (resumeStep a s t k)"
    using inner [OF resume_step [OF t awake, of a]] t resume_step_inv [OF l t awake] by (auto simp: moves_def resumeStep_def waiters_def)
qed (simp add: resumeStep_def)

lemma awaken:
  assumes c: "lockConf a xs s" and a: "a \<noteq> 0" and t: "pcs s t = Parked k" "t \<notin> set xs"
  shows "\<exists>s'. moves a xs t s s' \<and> lockByteOf s' = lockByteOf s \<and> pcs s' t = (if td_token (lotStore s t) = DirectHandoff then Critical else SlowLoad k)"
proof (cases "td_address (lotStore s t) = 0")
  case True
  then show ?thesis by (rule resume_moves [OF c t(1)])
next
  case False
  have l: "lotInv a xs s" "ownerInv xs s" "wakeInv a xs s" using c by (auto simp: lockConf_def)
  obtain j p where j: "pcs s j = Waking t p" using lotRelD(5) [OF lotInvD(3) [OF l(1)] t(2)] False by blast
  let ?s = "wakeStep s j t p"
  note eq = wakeStep_eq [OF l(1) j]
  have jt: "j \<noteq> t" using j t by auto
  have c': "lockConf a xs ?s" by (rule wake_step_inv [OF l a j])
  have 1: "pcs ?s t = Parked k" "td_address (lotStore ?s t) = 0" "td_token (lotStore ?s t) = td_token (lotStore s t)" "lockByteOf ?s = lockByteOf s"
    using t jt by (auto simp: eq wake_def)
  have "waiters a xs ?s = waiters a xs s" unfolding waiters_def by (rule filter_cong) (use t in \<open>auto simp: eq wake_def\<close>)
  then have "moves a xs t s ?s" using inner [OF wake_step [OF j, of a]] c' j by (auto simp: moves_def eq)
  then show ?thesis using resume_moves [OF c' 1(1,2)] 1(3,4) moves_trans by metis
qed
text \<open>The holder gets to the point where it unparks a thread, or releases a lock that has no waiters.\<close>

lemma to_unpark:
  assumes c: "lockConf a xs s" and i: "holding (pcs s i)"
  shows "(\<exists>s' f r. moves a xs i s s' \<and> pcs s' i = UnlockUnpark f r)
    \<or> (\<exists>s'. moves a xs i s s' \<and> \<not> held (lockByteOf s') \<and> waiters a xs s' = [])"
proof -
  have o: "owner xs s i" using i by (simp add: owner_def)
  have inv: "ownerInv xs s" "wakeInv a xs s" using c by (auto simp: lockConf_def)
  have h: "held (lockByteOf s)" using inv(1) o by (auto simp: ownerInv_def)
  have entry: "\<exists>s' f r. moves a xs i s s' \<and> lockByteOf s' = lockByteOf s \<and> (pcs s' i = UnlockLoad f r \<or> pcs s' i = UnlockUnpark f r)"
    if "lockConf a xs s" "holding (pcs s i)" "pcs s i \<noteq> Critical" for s
  proof (cases "pcs s i")
    case (UnlockEntry f r)
    then show ?thesis using moves_byte [OF that(1), of "UnlockLoad f r" "lockByteOf s" i] by (auto simp: compareExchangeWeak_def)
  next
    case (UnlockCAS v f r)
    then show ?thesis using moves_byte [OF that(1), of "UnlockLoad f r" "lockByteOf s" i] by (auto simp: compareExchangeWeak_def)
  qed (use that moves_refl [OF that(1)] in auto)
  have "\<exists>s1. moves a xs i s s1 \<and> lockByteOf s1 = lockByteOf s \<and> holding (pcs s1 i) \<and> pcs s1 i \<noteq> Critical"
  proof (cases "pcs s i = Critical")
    case True
    then show ?thesis using moves_byte [OF c, of "UnlockEntry Unfair False" "lockByteOf s" i] by auto
  qed (use i moves_refl [OF c] in auto)
  then obtain s1 where 1: "moves a xs i s s1" "lockByteOf s1 = lockByteOf s" "holding (pcs s1 i)" "pcs s1 i \<noteq> Critical" by blast
  then have "lockConf a xs s1" by (simp add: moves_def)
  then obtain s2 f r where 2: "moves a xs i s s2" "lockByteOf s2 = lockByteOf s" "pcs s2 i = UnlockLoad f r \<or> pcs s2 i = UnlockUnpark f r"
    using entry 1 moves_trans [OF 1(1)] by metis
  have c2: "lockConf a xs s2" using 2(1) by (simp add: moves_def)
  show ?thesis
  proof (cases "pcs s2 i = UnlockUnpark f r \<or> hasParked (lockByteOf s)")
    case True
    then show ?thesis
      using moves_byte [OF c2, of "UnlockUnpark f r" "lockByteOf s" i] 2 h moves_trans [OF 2(1)] by (fastforce simp: byte_defs)
  next
    case False
    obtain s3 where 3: "moves a xs i s2 s3" "lockByteOf s3 = lockByteOf s" "pcs s3 i = UnlockCAS (lockByteOf s) f r"
      using moves_byte [OF c2, of "UnlockCAS (lockByteOf s) f r" "lockByteOf s" i] 2 h False by (auto simp: byte_defs)
    then have c3: "lockConf a xs s3" by (simp add: moves_def)
    obtain s4 where 4: "moves a xs i s3 s4" "lockByteOf s4 = lockByteOf s AND NOT isHeldBit"
      using moves_byte [OF c3, of "afterUnlock r" "lockByteOf s AND NOT isHeldBit" i] 3 by (auto simp: compareExchangeWeak_def)
    have "waiters a xs s = []" using inv(2) False by (auto simp: wakeInv_def)
    then have "waiters a xs s4 = []" "\<not> held (lockByteOf s4)" using 2(1) 3(1) 4 by (auto simp: moves_def)
    then show ?thesis using moves_trans [OF 2(1) moves_trans [OF 3(1) 4(1)]] by blast
  qed
qed

fun wanting :: "pc \<Rightarrow> bool" where
  "wanting (Parked _) = True"
| "wanting p = acquiring p"

lemma wanting_cases: "wanting p \<longleftrightarrow> acquiring p \<or> (\<exists>k. p = Parked k)"
  by (cases p) auto

lemma wanting_awake: "wanting p \<Longrightarrow> p \<noteq> Waking t q \<and> \<not> holding p"
  by (cases p) auto

lemma rouse_owner:
  assumes c: "lockConf a xs s" and a: "a \<noteq> 0" and w: "owner xs s w"
  shows "\<exists>s'. moves a xs w s s' \<and> (pcs s' w = Critical \<or> pcs s' w = pcs s w \<and> holding (pcs s w))"
proof (cases "holding (pcs s w)")
  case True
  then show ?thesis using moves_refl [OF c] by blast
next
  case False
  then obtain k where "pcs s w = Parked k" "w \<notin> set xs" "td_token (lotStore s w) = DirectHandoff" using w by (auto simp: owner_def)
  then show ?thesis using awaken [OF c a] by force
qed

lemma moves_keeps:
  assumes "moves a xs i s s'" and "i \<noteq> t" and "wanting (pcs s t)"
  shows "pcs s' t = pcs s t" "(innerStep a)\<^sup>*\<^sup>* s s'" "lockConf a xs s'" "waiters a xs s' = waiters a xs s"
  using assms wanting_awake [OF assms(3)] by (auto simp: moves_def)

lemma release:
  assumes "lockConf a xs s" and a: "a \<noteq> 0" and "holding (pcs s i)" and "wanting (pcs s t)" and "length (waiters a xs s) = n"
  shows "\<exists>s' xs'. (innerStep a)\<^sup>*\<^sup>* s s' \<and> lockConf a xs' s'
    \<and> (pcs s' t = Critical \<or> pcs s' t = pcs s t \<and> \<not> held (lockByteOf s') \<and> length (waiters a xs' s') \<le> n - 1)"
  using assms(1,3-5)
proof (induction n arbitrary: xs s i rule: less_induct)
  case (less n)
  have it: "i \<noteq> t" using less.prems wanting_awake by blast
  note keep = moves_keeps [OF _ it less.prems(3)]
  from to_unpark [OF less.prems(1,2)] show ?case
  proof (elim disjE exE conjE)
    fix s1 f r
    assume m: "moves a xs i s s1" and i1: "pcs s1 i = UnlockUnpark f r"
    note k = keep [OF m]
    obtain s2 ys where u: "unparkStep 0 0 a f r s1 i = Some s2" "lockConf a ys s2" "\<And>j. j \<noteq> i \<Longrightarrow> pcs s2 j = pcs s1 j"
        "waiters a ys s2 = tl (waiters a xs s)" "waiters a xs s = [] \<Longrightarrow> \<not> held (lockByteOf s2)"
      using unpark_step_inv [OF _ _ _ a i1, of xs 0 0] k(3,4) unfolding lockConf_def by metis
    have r2: "(innerStep a)\<^sup>*\<^sup>* s s2" using rtranclp_trans [OF k(2) inner [OF unpark_step [OF i1 u(1)]]] i1 by simp
    have t2: "pcs s2 t = pcs s t" using u(3) it k(1) by simp
    show ?thesis
    proof (cases "held (lockByteOf s2)")
      case False
      then show ?thesis using r2 u(2,4) t2 less.prems(4) by (intro exI [of _ s2] exI [of _ ys]) auto
    next
      case True
      then obtain w where w: "owner ys s2 w" using u(2) by (auto simp: lockConf_def ownerInv_def)
      obtain s3 where 3: "moves a ys w s2 s3" "pcs s3 w = Critical \<or> pcs s3 w = pcs s2 w \<and> holding (pcs s2 w)"
        using rouse_owner [OF u(2) a w] by blast
      have r3: "(innerStep a)\<^sup>*\<^sup>* s s3" "lockConf a ys s3" using r2 3(1) by (auto simp: moves_def)
      show ?thesis
      proof (cases "w = t")
        case True
        then have "pcs s3 t = Critical" using 3(2) t2 less.prems(3) wanting_awake by metis
        then show ?thesis using r3 by blast
      next
        case False
        have k3: "pcs s3 t = pcs s t" "waiters a ys s3 = tl (waiters a xs s)" using moves_keeps [OF 3(1) False] t2 less.prems(3) u(4) by auto
        have n: "length (waiters a ys s3) < n" using k3(2) u(5) True less.prems(4) by (cases "waiters a xs s") auto
        have "holding (pcs s3 w)" using 3(2) by auto
        then obtain s4 zs where "(innerStep a)\<^sup>*\<^sup>* s3 s4" "lockConf a zs s4"
            "pcs s4 t = Critical \<or> pcs s4 t = pcs s3 t \<and> \<not> held (lockByteOf s4) \<and> length (waiters a zs s4) \<le> length (waiters a ys s3) - 1"
          using less.IH [OF n r3(2), of w] less.prems(3) k3(1) by auto
        then show ?thesis using n k3(1) rtranclp_trans [OF r3(1)] by (intro exI [of _ s4] exI [of _ zs]) auto
      qed
    qed
  next
    fix s1
    assume m: "moves a xs i s s1" and "\<not> held (lockByteOf s1)" "waiters a xs s1 = []"
    then show ?thesis using keep [OF m] by (intro exI [of _ s1] exI [of _ xs]) auto
  qed
qed

lemma take_free:
  assumes c: "lockConf a xs s" and a: "a \<noteq> 0" and free: "\<not> held (lockByteOf s)" and j: "wanting (pcs s j)" "j \<notin> set xs"
  shows "\<exists>s'. moves a xs j s s' \<and> pcs s' j = Critical"
proof (cases "acquiring (pcs s j)")
  case True
  then show ?thesis by (rule acquire [OF c a free])
next
  case False
  then obtain k where "pcs s j = Parked k" using j(1) wanting_cases by blast
  then obtain s1 where 1: "moves a xs j s s1" "lockByteOf s1 = lockByteOf s" "pcs s1 j = Critical \<or> pcs s1 j = SlowLoad k"
    using awaken [OF c a _ j(2)] by (metis (full_types))
  then have "lockConf a xs s1" by (simp add: moves_def)
  then show ?thesis using 1 acquire [of a xs s1 j] a free moves_trans [OF 1(1)] by (metis acquiring.simps(1))
qed

lemma get_free:
  assumes c: "lockConf a xs s" and a: "a \<noteq> 0" and t: "wanting (pcs s t)"
  shows "\<exists>s' xs'. (innerStep a)\<^sup>*\<^sup>* s s' \<and> lockConf a xs' s'
    \<and> (pcs s' t = Critical \<or> pcs s' t = pcs s t \<and> \<not> held (lockByteOf s') \<and> length (waiters a xs' s') \<le> length (waiters a xs s))"
proof (cases "held (lockByteOf s)")
  case True
  then obtain w where w: "owner xs s w" using c by (auto simp: lockConf_def ownerInv_def)
  obtain s1 where 1: "moves a xs w s s1" "pcs s1 w = Critical \<or> pcs s1 w = pcs s w \<and> holding (pcs s w)"
    using rouse_owner [OF c a w] by blast
  show ?thesis
  proof (cases "w = t")
    case True
    then show ?thesis using 1 t wanting_awake by (metis moves_def)
  next
    case False
    note k = moves_keeps [OF 1(1) False t]
    have "holding (pcs s1 w)" using 1(2) by auto
    then obtain s' xs' where "(innerStep a)\<^sup>*\<^sup>* s1 s'" "lockConf a xs' s'"
        "pcs s' t = Critical \<or> pcs s' t = pcs s1 t \<and> \<not> held (lockByteOf s') \<and> length (waiters a xs' s') \<le> length (waiters a xs s1) - 1"
      using release [OF k(3) a, of w t] k(1) t by auto
    then show ?thesis using k(1,4) rtranclp_trans [OF k(2)] by (intro exI [of _ s'] exI [of _ xs']) auto
  qed
qed (use c in blast)

lemma progress:
  assumes "lockConf a xs s" and a: "a \<noteq> 0" and "wanting (pcs s t)" and "length (waiters a xs s) = n"
  shows "\<exists>s'. (innerStep a)\<^sup>*\<^sup>* s s' \<and> pcs s' t = Critical"
  using assms(1,3,4)
proof (induction n arbitrary: xs s rule: less_induct)
  case (less n)
  obtain s1 ys where 1: "(innerStep a)\<^sup>*\<^sup>* s s1" "lockConf a ys s1"
      "pcs s1 t = Critical \<or> pcs s1 t = pcs s t \<and> \<not> held (lockByteOf s1) \<and> length (waiters a ys s1) \<le> n"
    using get_free [OF less.prems(1) a less.prems(2)] less.prems(3) by blast
  show ?case
  proof (cases "pcs s1 t = Critical")
    case False
    then have free: "\<not> held (lockByteOf s1)" and t1: "wanting (pcs s1 t)" and n1: "length (waiters a ys s1) \<le> n" using 1(3) less.prems(2) by auto
    show ?thesis
    proof (cases "t \<in> set ys")
      case False
      then show ?thesis using take_free [OF 1(2) a free t1 False] 1(1) by (metis moves_def rtranclp_trans)
    next
      case True
      have inv: "lotInv a ys s1" "ownerInv ys s1" "wakeInv a ys s1" using 1(2) by (auto simp: lockConf_def)
      have tA: "td_address (lotStore s1 t) = a" and tP: "\<not> acquiring (pcs s1 t)"
        using lotRelD(1,2) [OF lotInvD(3) [OF inv(1)], of t] True t1 by (auto split: if_splits)
      have ne: "t \<in> set (waiters a ys s1)" using True tA by (simp add: waiters_def)
      then obtain j where j: "trying ys s1 j" using inv(3) free by (auto simp: wakeInv_def)
      have j': "wanting (pcs s1 j)" "j \<notin> set ys" "j \<noteq> t" using j True tP lotRel_awake [OF lotInvD(3) [OF inv(1)], of j]
        unfolding trying_def wanting_cases by (auto elim: acquiring.elims)
      obtain s2 where 2: "moves a ys j s1 s2" "pcs s2 j = Critical" using take_free [OF 1(2) a free j'(1,2)] by blast
      note k = moves_keeps [OF 2(1) j'(3) t1]
      obtain s3 zs where 3: "(innerStep a)\<^sup>*\<^sup>* s2 s3" "lockConf a zs s3"
          "pcs s3 t = Critical \<or> pcs s3 t = pcs s2 t \<and> \<not> held (lockByteOf s3) \<and> length (waiters a zs s3) \<le> length (waiters a ys s1) - 1"
        using release [OF k(3) a, of j t] 2(2) k(1,4) t1 by auto
      have r: "(innerStep a)\<^sup>*\<^sup>* s s3" using 1(1) k(2) 3(1) by simp
      show ?thesis
      proof (cases "pcs s3 t = Critical")
        case False
        have pos: "0 < length (waiters a ys s1)" using ne by (rule length_pos_if_in_set)
        have "length (waiters a zs s3) < n" using False 3(3) n1 pos by linarith
        moreover have "wanting (pcs s3 t)" using False 3(3) k(1) t1 by simp
        ultimately obtain s4 where "(innerStep a)\<^sup>*\<^sup>* s3 s4" "pcs s4 t = Critical" using less.IH [OF _ 3(2) _ refl] by blast
        then show ?thesis using r by (meson rtranclp_trans)
      qed (use r in blast)
    qed
  qed (use 1(1) in blast)
qed
text \<open>A thread that can make an inner step is inside an operation and awake.\<close>

definition awake :: "lockState \<Rightarrow> tid \<Rightarrow> bool" where
  "awake s i \<longleftrightarrow> pcs s i \<noteq> Idle \<and> \<not> (sleeping (pcs s i) \<and> td_address (lotStore s i) \<noteq> 0)"

lemma threadStep_awake: "threadStep a i s s' \<Longrightarrow> pcs s i \<noteq> Idle \<Longrightarrow> awake s i"
  by (elim threadStepE) (auto simp: awake_def plain_iff dest: act_plain)

lemma inner_run_awake:
  assumes "(innerStep a)\<^sup>*\<^sup>* s s'" and "s' \<noteq> s"
  shows "\<exists>i. awake s i"
  using assms(1)
proof (cases rule: converse_rtranclpE)
  case (step y)
  then show ?thesis unfolding innerStep_def by (blast intro: threadStep_awake)
qed (use assms(2) in simp)

lemma enter:
  assumes "lockConf a xs s" and "pcs s t = LockEntry \<or> wanting (pcs s t)"
  shows "\<exists>s'. (innerStep a)\<^sup>*\<^sup>* s s' \<and> lockConf a xs s' \<and> wanting (pcs s' t)"
  using assms(2)
proof
  assume "pcs s t = LockEntry"
  then obtain s' where "moves a xs t s s'" "pcs s' t = SlowLoad 0"
    using moves_byte [OF assms(1), of "SlowLoad 0" "lockByteOf s" t] by (auto simp: compareExchangeWeak_def)
  then show ?thesis by (auto simp: moves_def)
qed (use assms(1) in blast)


section \<open>What the lock promises\<close>

text \<open>A state with contention: thread 0 is in its critical section, and thread 1 has spun in vain and parked.\<close>

definition contendedLock :: lockState where
  "contendedLock = \<lparr>lockByteOf = 3, pcs = (\<lambda>_. Idle)(0 := Critical, 1 := Parked 40),
     lotStore = (\<lambda>_. \<lparr>td_address = 0, nextInQueue = None, td_token = 0\<rparr>)(1 := \<lparr>td_address = 8, nextInQueue = None, td_token = 0\<rparr>),
     lotBucket = \<lparr>queueHead = Some 1, queueTail = Some 1, nextFairTime = 0\<rparr>\<rparr>"

lemma reach_step: "lockReachable a s \<Longrightarrow> threadStep a i s s' \<Longrightarrow> lockReachable a s'"
  unfolding lockReachable_def by (rule rtranclp.rtrancl_into_rtrancl) (auto simp: lockStep_def)

lemma reach_byte:
  "lockReachable a s \<Longrightarrow> (p, v) \<in> set (act (pcs s i) (lockByteOf s)) \<Longrightarrow> lockReachable a (setPc (s\<lparr>lockByteOf := v\<rparr>) i p)"
  by (rule reach_step, assumption, rule byte_step)

lemma reach_load: "lockReachable a s \<Longrightarrow> (p, lockByteOf s) \<in> set (act (pcs s i) (lockByteOf s)) \<Longrightarrow> lockReachable a (setPc s i p)"
  using reach_byte [of a s p "lockByteOf s" i] by simp

lemma reach_spin:
  assumes "lockReachable a s" and "pcs s i = SlowLoad 0" and "lockByteOf s = 1" and "k \<le> 40"
  shows "lockReachable a (setPc s i (SlowLoad k))"
  using assms(4)
proof (induction k)
  case 0
  then show ?case using assms(1,2) by (simp add: setPc_def fun_upd_idem)
next
  case (Suc k)
  then have "lockReachable a (setPc s i (SlowLoad k))" by simp
  from reach_load [OF this, of "SlowLoad (Suc k)" i] show ?case
    using Suc.prems assms(3) by (simp add: afterLoad_def spinLimit_def isHeldBit_def hasParkedBit_def) (simp add: setPc_def)
qed

lemma contended_reachable: "lockReachable 8 contendedLock"
proof -
  let ?st = "\<lambda>_. \<lparr>td_address = 0, nextInQueue = None, td_token = 0\<rparr>" and ?b = "\<lparr>queueHead = None, queueTail = None, nextFairTime = 0\<rparr>"
  let ?s = "\<lambda>v p q. \<lparr>lockByteOf = v, pcs = (\<lambda>_. Idle)(0 := p, 1 := q), lotStore = ?st, lotBucket = ?b\<rparr>"
  note ex = lockFast_def isHeldBit_def hasParkedBit_def compareExchangeWeak_def setPc_def fun_upd_twist
  have "lockReachable 8 (?s 0 Idle Idle)" by (simp add: lockReachable_def initialLock_def fun_upd_idem)
  from reach_byte [OF this, of LockEntry 0 0] have "lockReachable 8 (?s 0 LockEntry Idle)" by (simp add: ex)
  from reach_byte [OF this, of Critical 1 0] have "lockReachable 8 (?s 1 Critical Idle)" by (simp add: ex)
  from reach_byte [OF this, of LockEntry 1 1] have "lockReachable 8 (?s 1 Critical LockEntry)" by (simp add: ex)
  from reach_byte [OF this, of "SlowLoad 0" 1 1] have "lockReachable 8 (?s 1 Critical (SlowLoad 0))" by (simp add: ex)
  from reach_spin [OF this, of 1 40] have "lockReachable 8 (?s 1 Critical (SlowLoad 40))" by (simp add: ex)
  from reach_byte [OF this, of "SlowSetParked 1 40" 1 1] have "lockReachable 8 (?s 1 Critical (SlowSetParked 1 40))" by (simp add: ex afterLoad_def spinLimit_def)
  from reach_byte [OF this, of "SlowPark 3 40" 3 1] have r: "lockReachable 8 (?s 3 Critical (SlowPark 3 40))" by (simp add: ex beforePark_def)
  have "parkStep 8 (?s 3 Critical (SlowPark 3 40)) 1 3 40 = contendedLock"
    by (simp add: parkStep_def parkEnqueue_def bucketEnqueue_def setToken_def setAddress_def contendedLock_def setPc_def)
  then show ?thesis using reach_step [OF r park_step [of "?s 3 Critical (SlowPark 3 40)" 1 3 40 8]] by simp
qed

definition unlockingLock :: lockState where
  "unlockingLock = setPc contendedLock 0 (UnlockUnpark Unfair False)"

lemma unlocking_reachable: "lockReachable 8 unlockingLock"
proof -
  note ex = compareExchangeWeak_def contendedLock_def afterUnlockLoad_def and_bits bit_numeral_rec
  have "lockReachable 8 (setPc contendedLock 0 (UnlockEntry Unfair False))"
    by (rule reach_load [OF contended_reachable]) (simp add: ex)
  then have "lockReachable 8 (setPc (setPc contendedLock 0 (UnlockEntry Unfair False)) 0 (UnlockLoad Unfair False))"
    by (rule reach_load) (simp add: ex)
  then have "lockReachable 8 (setPc (setPc (setPc contendedLock 0 (UnlockEntry Unfair False)) 0 (UnlockLoad Unfair False)) 0 (UnlockUnpark Unfair False))"
    by (rule reach_load) (simp add: ex)
  then show ?thesis by (simp add: setPc_def unlockingLock_def)
qed

text \<open>
  C25. Mutual exclusion: in every state that threads calling \<^verbatim>\<open>lock\<close>, \<^verbatim>\<open>tryLock\<close>, \<^verbatim>\<open>unlock\<close>, \<^verbatim>\<open>unlockFairly\<close> and \<^verbatim>\<open>safepoint\<close>
  reach, with any other threads parking in the same bucket, at most one thread is between acquiring the lock and releasing it; the
  held bit is set exactly when some thread has the lock or was handed it while it sleeps; and the queue of the bucket is well formed.
\<close>

theorem lock_mutual_exclusion:
  assumes "a \<noteq> 0" and "lockReachable a s"
  shows "(holding (pcs s i) \<and> holding (pcs s j) \<longrightarrow> i = j) \<and>
    (\<exists>xs. isQueue (lotStore s) (lotBucket s) xs \<and> (isLocked (lockByteOf s) \<longleftrightarrow> (\<exists>!i. owner xs s i)) \<and> (\<not> isLocked (lockByteOf s) \<longrightarrow> (\<forall>i. \<not> owner xs s i)))"
proof -
  obtain xs where "lotInv a xs s" "ownerInv xs s" using lockReachable_inv [OF assms(2,1)] by (rule lockInvE)
  then have "isQueue (lotStore s) (lotBucket s) xs" "\<forall>i j. owner xs s i \<and> owner xs s j \<longrightarrow> i = j" "isLocked (lockByteOf s) \<longleftrightarrow> (\<exists>i. owner xs s i)"
    by (auto simp: lotInv_def ownerInv_def isLocked_def and_bits)
  then show ?thesis by (metis owner_def)
qed

theorem lock_mutual_exclusion_witness:
  "holding (pcs contendedLock 0) \<and> \<not> holding (pcs contendedLock 1) \<and>
   (\<exists>xs. isQueue (lotStore contendedLock) (lotBucket contendedLock) xs \<and> isLocked (lockByteOf contendedLock) \<and> (\<exists>!i. owner xs contendedLock i))"
  using lock_mutual_exclusion [OF _ contended_reachable, of 0 1] by (simp add: contendedLock_def isLocked_def and_bits bit_numeral_rec)

text \<open>
  C27. The assertions of the lock's slow paths never fail (the byte is held with parked threads when a thread parks; it is locked when a
  thread is handed it; \<^verbatim>\<open>unlockSlow\<close> only sees the two held values; the byte is unchanged when its callback runs). Neither do the
  assertions of the parking lot that these paths run: the thread is not parked already and is off every queue when it parks, the queue's
  ends agree after a removal, a fair turn has a thread, the unparked thread has its address until it is told, and a thread that resumes
  has none or this one. \<^verbatim>\<open>unparkOne\<close>, whose loop follows the queue's links, always returns.
\<close>

theorem lock_assertions_and_unpark_return:
  assumes "a \<noteq> 0" and "lockReachable a s"
  shows "pcs s i \<noteq> Crashed \<and> (pcs s i = UnlockUnpark fairness relock \<longrightarrow>
    (\<exists>s'. unparkStep time delay a fairness relock s i = Some s' \<and> pcs s' i \<noteq> Crashed))"
proof -
  obtain xs where inv: "lotInv a xs s" "ownerInv xs s" "wakeInv a xs s" using lockReachable_inv [OF assms(2,1)] by (rule lockInvE)
  have "pcs s i \<noteq> Crashed" if "ownerInv xs s" for xs s using that by (metis ownerInv_def pcInv.simps(7))
  then show ?thesis using inv unpark_step_inv [OF inv assms(1), of i fairness relock time delay] unfolding lockConf_def by metis
qed

theorem lock_assertions_and_unpark_return_witness:
  "pcs unlockingLock 0 \<noteq> Crashed \<and> pcs unlockingLock 0 = UnlockUnpark Unfair False \<and>
   (\<exists>s'. unparkStep 0 0 8 Unfair False unlockingLock 0 = Some s' \<and> pcs s' 0 \<noteq> Crashed)"
  using lock_assertions_and_unpark_return [OF _ unlocking_reachable, of 0 Unfair False 0 0] by (simp add: unlockingLock_def)

text \<open>
  C26. No wakeup is lost: in every state that can be reached, a thread that wants the lock (it called \<^verbatim>\<open>lock\<close>, it is in the slow path, it is
  parked on the lock, or it was unparked and has not resumed) has a run that ends with it in its critical section and in which no
  thread begins a new operation, so only the lock's present holder and the threads already inside an operation move. Hence no
  thread is stranded: while one wants the lock, some thread is inside an operation and not asleep.
\<close>

theorem lock_progress:
  assumes "a \<noteq> 0" and "lockReachable a s" and "pcs s t = LockEntry \<or> wanting (pcs s t)"
  shows "(\<exists>s'. (innerStep a)\<^sup>*\<^sup>* s s' \<and> pcs s' t = Critical) \<and> (\<exists>i. awake s i)"
proof -
  obtain xs where c: "lockConf a xs s" using lockReachable_inv [OF assms(2,1)] by (auto simp: lockInv_def)
  then obtain s1 where "(innerStep a)\<^sup>*\<^sup>* s s1" "lockConf a xs s1" "wanting (pcs s1 t)" using enter assms(3) by blast
  then obtain s' where "(innerStep a)\<^sup>*\<^sup>* s s'" "pcs s' t = Critical" using progress [OF _ assms(1)] by (meson rtranclp_trans)
  moreover from this have "s' \<noteq> s" using assms(3) by auto
  ultimately show ?thesis using inner_run_awake by blast
qed

theorem lock_progress_witness:
  "pcs contendedLock 1 = Parked 40 \<and> (\<exists>s'. (innerStep 8)\<^sup>*\<^sup>* contendedLock s' \<and> pcs s' 1 = Critical) \<and> (\<exists>i. awake contendedLock i)"
  using lock_progress [OF _ contended_reachable, of 1] by (simp add: contendedLock_def)

end
