(* ===== verification/Hash_Functions.thy ===== *)
theory Hash_Functions
  imports Prelude
begin

text \<open>
  The integer hash functions of \<^verbatim>\<open>WTF/wtf/HashFunctions.h\<close>: Thomas Wang's mix functions, the pair hash and the pointer hash, on
  words of the widths the code has.
\<close>

unbundle bit_operations_syntax


section \<open>The mix functions\<close>

definition intHash32 :: "32 word \<Rightarrow> 32 word" where
  "intHash32 key =
     (let key = key + NOT (push_bit 15 key);
          key = key XOR drop_bit 10 key;
          key = key + push_bit 3 key;
          key = key XOR drop_bit 6 key;
          key = key + NOT (push_bit 11 key);
          key = key XOR drop_bit 16 key
      in key)"

definition intHash8 :: "8 word \<Rightarrow> 32 word" where
  "intHash8 key8 = intHash32 (ucast key8)"

definition intHash16 :: "16 word \<Rightarrow> 32 word" where
  "intHash16 key16 = intHash32 (ucast key16)"

text \<open>The 64-bit mix, before the result is cut to \<^verbatim>\<open>unsigned\<close>.\<close>

definition mix64 :: "64 word \<Rightarrow> 64 word" where
  "mix64 key =
     (let key = key + NOT (push_bit 32 key);
          key = key XOR drop_bit 22 key;
          key = key + NOT (push_bit 13 key);
          key = key XOR drop_bit 8 key;
          key = key + push_bit 3 key;
          key = key XOR drop_bit 15 key;
          key = key + NOT (push_bit 27 key);
          key = key XOR drop_bit 31 key
      in key)"

definition intHash64 :: "64 word \<Rightarrow> 32 word" where
  "intHash64 key = ucast (mix64 key)"

definition pairIntHash :: "32 word \<Rightarrow> 32 word \<Rightarrow> 32 word" where
  "pairIntHash key1 key2 =
     (let shortRandom1 = 277951225;
          shortRandom2 = 95187966;
          longRandom = 19248658165952622;
          product = longRandom * (ucast (shortRandom1 * key1 + shortRandom2 * key2 :: 32 word) :: 64 word)
      in ucast (drop_bit (8 - 4) product))"

text \<open>\<^verbatim>\<open>PtrHash<const void*>::hash\<close>, for pointers of 64 bits.\<close>

definition ptrHash :: "64 word \<Rightarrow> 32 word" where
  "ptrHash key = intHash64 key"


section \<open>Every mixing step is invertible\<close>

lemma odd_multiple_inject:
  fixes x y :: "'a::len word"
  assumes "odd c" and "word_of_int c * x = word_of_int c * y"
  shows "x = y"
proof -
  have "(c * uint x) mod 2 ^ LENGTH('a) = (c * uint y) mod 2 ^ LENGTH('a)"
    using assms(2) by (metis uint_word_ariths(3) mod_mult_left_eq uint_word_of_int)
  then have "2 ^ LENGTH('a) dvd c * (uint x - uint y)" by (simp add: mod_eq_dvd_iff right_diff_distrib)
  moreover have "coprime (2 ^ LENGTH('a)) c" using assms(1) by simp
  ultimately have "2 ^ LENGTH('a) dvd uint x - uint y" by (simp add: coprime_dvd_mult_right_iff)
  then have "uint x mod 2 ^ LENGTH('a) = uint y mod 2 ^ LENGTH('a)" by (rule mod_eq_dvd_iff [THEN iffD2])
  then show ?thesis by (simp add: word_uint_eq_iff)
qed

lemma add_not_shift: "x + NOT (push_bit k x) = word_of_int (1 - 2 ^ k) * x - 1" for x :: "'a::len word"
  by (simp add: not_eq_complement push_bit_eq_mult algebra_simps)

lemma add_shift: "x + push_bit k x = word_of_int (1 + 2 ^ k) * x" for x :: "'a::len word"
  by (simp add: push_bit_eq_mult algebra_simps)

lemma add_not_shift_inject: "0 < k \<Longrightarrow> x + NOT (push_bit k x) = y + NOT (push_bit k y) \<Longrightarrow> x = y" for x y :: "'a::len word"
  unfolding add_not_shift using odd_multiple_inject [of "1 - 2 ^ k" x y] by simp

lemma add_shift_inject: "0 < k \<Longrightarrow> x + push_bit k x = y + push_bit k y \<Longrightarrow> x = y" for x y :: "'a::len word"
  unfolding add_shift using odd_multiple_inject [of "1 + 2 ^ k" x y] by simp

lemma xor_shift_inject:
  fixes x y :: "'a::len word"
  assumes k: "0 < k" and eq: "x XOR drop_bit k x = y XOR drop_bit k y"
  shows "x = y"
proof -
  have step: "(bit x n \<noteq> bit x (k + n)) = (bit y n \<noteq> bit y (k + n))" for n
    using arg_cong [OF eq, of "\<lambda>w. bit w n"] by (simp add: bit_xor_iff bit_drop_bit_eq)
  have "bit x n = bit y n" for n
  proof (induction "LENGTH('a) - n" arbitrary: n rule: less_induct)
    case less
    show ?case
    proof (cases "n < LENGTH('a)")
      case True
      then have "bit x (k + n) = bit y (k + n)" using k by (intro less) simp
      then show ?thesis using step [of n] by blast
    qed (auto dest: bit_imp_le_length)
  qed
  then show ?thesis by (intro bit_word_eqI) simp
qed

lemma inj_steps:
  "0 < k \<Longrightarrow> inj (\<lambda>x :: 'a::len word. x + NOT (push_bit k x))" "0 < k \<Longrightarrow> inj (\<lambda>x :: 'a::len word. x + push_bit k x)"
  "0 < k \<Longrightarrow> inj (\<lambda>x :: 'a::len word. x XOR drop_bit k x)"
  by (auto intro!: injI elim: add_not_shift_inject add_shift_inject xor_shift_inject)

lemma inj_intHash32: "inj intHash32"
proof -
  have eq: "intHash32 = (\<lambda>x. x XOR drop_bit 16 x) \<circ> (\<lambda>x. x + NOT (push_bit 11 x)) \<circ> (\<lambda>x. x XOR drop_bit 6 x)
      \<circ> (\<lambda>x. x + push_bit 3 x) \<circ> (\<lambda>x. x XOR drop_bit 10 x) \<circ> (\<lambda>x. x + NOT (push_bit 15 x))"
    by (rule ext) (simp only: intHash32_def Let_def comp_apply)
  show ?thesis unfolding eq by (intro inj_compose inj_steps zero_less_numeral)
qed

lemma inj_mix64: "inj mix64"
proof -
  have eq: "mix64 = (\<lambda>x. x XOR drop_bit 31 x) \<circ> (\<lambda>x. x + NOT (push_bit 27 x)) \<circ> (\<lambda>x. x XOR drop_bit 15 x) \<circ> (\<lambda>x. x + push_bit 3 x)
      \<circ> (\<lambda>x. x XOR drop_bit 8 x) \<circ> (\<lambda>x. x + NOT (push_bit 13 x)) \<circ> (\<lambda>x. x XOR drop_bit 22 x) \<circ> (\<lambda>x. x + NOT (push_bit 32 x))"
    by (rule ext) (simp only: mix64_def Let_def comp_apply)
  show ?thesis unfolding eq by (intro inj_compose inj_steps zero_less_numeral)
qed

lemma ucast_inject: "(ucast x :: 'b::len word) = ucast y \<Longrightarrow> LENGTH('a) \<le> LENGTH('b) \<Longrightarrow> x = y" for x y :: "'a::len word"
  by (rule bit_word_eqI) (metis bit_ucast_iff order_less_le_trans)

lemma word_inj_bij: "inj f \<Longrightarrow> bij f" for f :: "'a::len word \<Rightarrow> 'a word"
  by (simp add: bij_def finite_UNIV_inj_surj)

text \<open>The words with a given lower half.\<close>

lemma lower_half:
  fixes h :: "32 word"
  shows "card {w :: 64 word. ucast w = h} = 2 ^ 32"
proof -
  let ?f = "\<lambda>u :: 32 word. push_bit 32 (ucast u :: 64 word) OR ucast h"
  have low: "(ucast (?f u) :: 32 word) = h" for u
    by (intro bit_word_eqI) (simp add: bit_ucast_iff bit_or_iff bit_push_bit_iff)
  have high: "(ucast (drop_bit 32 (?f u)) :: 32 word) = u" for u
    by (intro bit_word_eqI) (auto simp: bit_ucast_iff bit_or_iff bit_push_bit_iff bit_drop_bit_eq dest: bit_imp_le_length)
  have inj: "inj ?f" by (rule inj_on_inverseI [where g = "\<lambda>w. ucast (drop_bit 32 w)"]) (rule high)
  have "w = ?f (ucast (drop_bit 32 w))" if "ucast w = h" for w :: "64 word"
    using that by (intro bit_word_eqI) (auto simp: bit_ucast_iff bit_or_iff bit_push_bit_iff bit_drop_bit_eq not_le)
  then have "{w :: 64 word. ucast w = h} = range ?f" using low by auto
  then show ?thesis using inj by (simp add: card_image card_word)
qed

text \<open>
  C31. The integer hash functions lose nothing that they need not lose: the hashes of 8-, 16- and 32-bit keys never collide, every
  32-bit value is the hash of exactly one 32-bit key, and of exactly 4294967296 of the 64-bit keys (and so of the 64-bit pointers).
\<close>

theorem integer_hashes_uniform:
  "inj intHash8 \<and> inj intHash16 \<and> bij intHash32 \<and> card {key. intHash64 key = h} = 2 ^ 32 \<and> card {p. ptrHash p = h} = 2 ^ 32"
proof -
  have bij: "bij mix64" by (rule word_inj_bij [OF inj_mix64])
  have "{key. intHash64 key = h} = mix64 -` {w. ucast w = h}" by (auto simp: intHash64_def)
  then have 64: "card {key. intHash64 key = h} = 2 ^ 32"
    using card_vimage_inj [of mix64 "{w. ucast w = h}"] bij lower_half [of h] by (simp add: bij_def)
  have "x = y" if "intHash8 x = intHash8 y" for x y
    using injD [OF inj_intHash32 that [unfolded intHash8_def]] by (rule ucast_inject) simp
  moreover have "x = y" if "intHash16 x = intHash16 y" for x y
    using injD [OF inj_intHash32 that [unfolded intHash16_def]] by (rule ucast_inject) simp
  ultimately show ?thesis using word_inj_bij [OF inj_intHash32] 64 by (simp add: inj_on_def ptrHash_def)
qed

text \<open>
  The pair hash means to keep the high half of the 64-bit product, but shifts by the difference of the sizes in bytes: it keeps the
  bits 4 to 35, and the upper 28 bits of the product have no influence.
\<close>

lemma bit_truncate: "bit (ucast w :: 32 word) n \<longleftrightarrow> n < 32 \<and> bit w n" for w :: "64 word"
proof -
  have "LENGTH(32) = 32" by simp
  then show ?thesis unfolding bit_ucast_iff by metis
qed

theorem pairIntHash_keeps_middle_bits:
  "bit (pairIntHash key1 key2) n \<longleftrightarrow> n < 32 \<and> bit (19248658165952622 * (ucast (277951225 * key1 + 95187966 * key2 :: 32 word) :: 64 word)) (n + 4)"
  unfolding pairIntHash_def Let_def by (simp only: bit_truncate bit_drop_bit_eq comp_apply) (simp add: add.commute)

end
