(* ===== verification/Parking_Hashtable.thy ===== *)
theory Parking_Hashtable
  imports Parking_Lot Hash_Functions
begin

text \<open>
  The hash table of \<^verbatim>\<open>WTF/wtf/ParkingLot.cpp\<close>. The spine \<^verbatim>\<open>Hashtable::data\<close> is a list of pointers to buckets, whose length is
  \<^verbatim>\<open>Hashtable::size\<close>; the empty list is the null pointer the global variable \<^verbatim>\<open>hashtable\<close> starts with. Buckets are objects with an
  identity, since resizing reuses them: \<open>bucketAt\<close> is the memory they live in and \<open>liveBuckets\<close> lists those that were allocated.
  The allocator is a parameter \<open>alloc\<close>, which is given the live buckets; the clock and the random delays that the dequeueing code
  reads are the parameters \<open>now\<close> and \<open>rnd\<close>, indexed by the number of the call. An operation that holds the locks it needs is one
  step; the retry loops of the code, which only serve to get there, are not modelled.
\<close>


section \<open>The table\<close>

type_synonym bucketPtr = nat

record lotTable =
  spine :: "bucketPtr option list"
  bucketAt :: "bucketPtr \<Rightarrow> bucket"
  liveBuckets :: "bucketPtr list"
  threads :: store

type_synonym allocator = "bucketPtr list \<Rightarrow> bucketPtr"

definition maxLoadFactor :: nat where
  "maxLoadFactor = 3"

definition growthFactor :: nat where
  "growthFactor = 2"

definition hashAddress :: "address \<Rightarrow> 32 word" where
  "hashAddress address = ptrHash address"

definition bucketIndex :: "address \<Rightarrow> nat \<Rightarrow> nat" where
  "bucketIndex address n = unat (hashAddress address) mod n"

definition newBucket :: "allocator \<Rightarrow> lotTable \<Rightarrow> bucketPtr \<times> lotTable" where
  "newBucket alloc L =
     (let b = alloc (liveBuckets L)
      in (b, L\<lparr>bucketAt := (bucketAt L)(b := \<lparr>queueHead = None, queueTail = None, nextFairTime = 0\<rparr>), liveBuckets := b # liveBuckets L\<rparr>))"

definition createHashtable :: "nat \<Rightarrow> bucketPtr option list" where
  "createHashtable n = replicate n None"

definition ensureHashtable :: "lotTable \<Rightarrow> lotTable" where
  "ensureHashtable L = (if spine L = [] then L\<lparr>spine := createHashtable maxLoadFactor\<rparr> else L)"

text \<open>The loop that puts a bucket at an index where there is none.\<close>

definition ensureBucket :: "allocator \<Rightarrow> nat \<Rightarrow> lotTable \<Rightarrow> bucketPtr \<times> lotTable" where
  "ensureBucket alloc i L =
     (case spine L ! i of
        Some b \<Rightarrow> (b, L)
      | None \<Rightarrow> (case newBucket alloc L of (b, L) \<Rightarrow> (b, L\<lparr>spine := (spine L)[i := Some b]\<rparr>)))"

text \<open>\<^verbatim>\<open>lockHashtable\<close> fills the spine, from the last index to the first, and sorts the buckets by address.\<close>

fun collectBuckets :: "allocator \<Rightarrow> nat \<Rightarrow> lotTable \<Rightarrow> bucketPtr list \<times> lotTable" where
  "collectBuckets alloc 0 L = ([], L)"
| "collectBuckets alloc (Suc i) L =
     (case ensureBucket alloc i L of
        (b, L) \<Rightarrow> (case collectBuckets alloc i L of (bs, L) \<Rightarrow> (b # bs, L)))"

definition lockHashtable :: "allocator \<Rightarrow> lotTable \<Rightarrow> bucketPtr list \<times> lotTable" where
  "lockHashtable alloc L =
     (let L = ensureHashtable L
      in case collectBuckets alloc (length (spine L)) L of (buckets, L) \<Rightarrow> (sort buckets, L))"


section \<open>Parking and unparking through the table\<close>

definition setBucket :: "lotTable \<Rightarrow> store \<Rightarrow> bucketPtr \<Rightarrow> bucket \<Rightarrow> lotTable" where
  "setBucket L h b v = L\<lparr>threads := h, bucketAt := (bucketAt L)(b := v)\<rparr>"

text \<open>The template \<^verbatim>\<open>enqueue\<close> with the functor of \<^verbatim>\<open>parkConditionallyImpl\<close>.\<close>

definition lotPark :: "allocator \<Rightarrow> address \<Rightarrow> bool \<Rightarrow> tid \<Rightarrow> lotTable \<Rightarrow> (lot_error, lotTable \<times> bool) result" where
  "lotPark alloc address validation me L =
     (let L = ensureHashtable L;
          index = bucketIndex address (length (spine L))
      in case ensureBucket alloc index L of
           (bucket, L) \<Rightarrow>
             andThen (parkEnqueue address validation me (threads L) (bucketAt L bucket)) (\<lambda>(h, b, enqueued).
               Inr (setBucket L h bucket b, enqueued)))"

datatype BucketMode = EnsureNonEmpty | IgnoreEmpty

text \<open>The template \<^verbatim>\<open>dequeue\<close>. The result tells whether the bucket has threads left.\<close>

definition lotDequeue ::
  "allocator \<Rightarrow> int \<Rightarrow> int \<Rightarrow> address \<Rightarrow> BucketMode \<Rightarrow> 's dequeueFunctor \<Rightarrow> 's \<Rightarrow> lotTable \<Rightarrow> (lot_error, lotTable \<times> bool \<times> 's) result option" where
  "lotDequeue alloc time delay address bucketMode f s L =
     (let L = ensureHashtable L;
          index = bucketIndex address (length (spine L))
      in if spine L ! index = None \<and> bucketMode = IgnoreEmpty then Some (Inr (L, False, s))
         else case ensureBucket alloc index L of
           (bucket, L) \<Rightarrow>
             (case genericDequeue time delay f (threads L) (bucketAt L bucket) s of
                None \<Rightarrow> None
              | Some (Inl e) \<Rightarrow> Some (Inl e)
              | Some (Inr (h, b, s)) \<Rightarrow> Some (Inr (setBucket L h bucket b, queueHead b \<noteq> None, s))))"

text \<open>\<^verbatim>\<open>unparkCount\<close> on the table.\<close>

definition lotUnparkCount :: "allocator \<Rightarrow> int \<Rightarrow> int \<Rightarrow> address \<Rightarrow> nat \<Rightarrow> lotTable \<Rightarrow> (lot_error, lotTable \<times> nat) result option" where
  "lotUnparkCount alloc time delay address count L =
     (if count = 0 then Some (Inr (L, 0))
      else case lotDequeue alloc time delay address IgnoreEmpty (pickCount address count) [] L of
        None \<Rightarrow> None
      | Some (Inl e) \<Rightarrow> Some (Inl e)
      | Some (Inr (L, _, threadDatas)) \<Rightarrow>
          Some (andThen (wakeEach (threads L) threadDatas) (\<lambda>h. Inr (L\<lparr>threads := h\<rparr>, length threadDatas))))"


section \<open>Resizing\<close>

text \<open>
  \<^verbatim>\<open>while (ThreadData* threadData = bucket->dequeue())\<close>: the counter \<open>k\<close> numbers the calls of \<^verbatim>\<open>dequeue\<close>.
\<close>

partial_function (option) drainBucket ::
  "(nat \<Rightarrow> int) \<Rightarrow> (nat \<Rightarrow> int) \<Rightarrow> store \<Rightarrow> bucket \<Rightarrow> nat \<Rightarrow> tid list \<Rightarrow> (lot_error, store \<times> bucket \<times> nat \<times> tid list) result option" where
  "drainBucket now rnd h b k threadDatas =
     (case bucketDequeue (now k) (rnd k) h b of
        None \<Rightarrow> None
      | Some (Inl e) \<Rightarrow> Some (Inl e)
      | Some (Inr (h, b, threadData)) \<Rightarrow>
          (case threadData of
             None \<Rightarrow> Some (Inr (h, b, k + 1, threadDatas))
           | Some t \<Rightarrow> drainBucket now rnd h b (k + 1) (threadDatas @ [t])))"

fun gatherThreads ::
  "(nat \<Rightarrow> int) \<Rightarrow> (nat \<Rightarrow> int) \<Rightarrow> bucketPtr list \<Rightarrow> lotTable \<Rightarrow> nat \<Rightarrow> tid list \<Rightarrow> (lot_error, lotTable \<times> tid list) result option" where
  "gatherThreads now rnd [] L k threadDatas = Some (Inr (L, threadDatas))"
| "gatherThreads now rnd (bucket # buckets) L k threadDatas =
     (case drainBucket now rnd (threads L) (bucketAt L bucket) k threadDatas of
        None \<Rightarrow> None
      | Some (Inl e) \<Rightarrow> Some (Inl e)
      | Some (Inr (h, b, k, threadDatas)) \<Rightarrow> gatherThreads now rnd buckets (setBucket L h bucket b) k threadDatas)"

text \<open>
  Each thread joins the bucket of its address in the new table, which is a reused bucket, the last of \<^verbatim>\<open>reusableBuckets\<close>, or a new
  one when none is left. The table \<open>L\<close> has the new spine already.
\<close>

fun rehashThreads ::
  "allocator \<Rightarrow> tid list \<Rightarrow> bucketPtr list \<Rightarrow> lotTable \<Rightarrow> (lot_error, lotTable \<times> bucketPtr list) result" where
  "rehashThreads alloc [] reusable L = Inr (L, reusable)"
| "rehashThreads alloc (t # ts) reusable L =
     (let index = bucketIndex (td_address (threads L t)) (length (spine L));
          (bucket, reusable, L) =
            (case spine L ! index of
               Some b \<Rightarrow> (b, reusable, L)
             | None \<Rightarrow>
                 if reusable = [] then (case newBucket alloc L of (b, L) \<Rightarrow> (b, reusable, L\<lparr>spine := (spine L)[index := Some b]\<rparr>))
                 else (last reusable, butlast reusable, L\<lparr>spine := (spine L)[index := Some (last reusable)]\<rparr>))
      in andThen (bucketEnqueue (threads L) (bucketAt L bucket) t) (\<lambda>(h, b).
           rehashThreads alloc ts reusable (setBucket L h bucket b)))"

text \<open>The buckets that are left go to the first free places: \<open>n\<close> is the number of places from the index \<open>i\<close> on.\<close>

fun placeBuckets :: "nat \<Rightarrow> nat \<Rightarrow> bucketPtr list \<Rightarrow> bucketPtr option list \<Rightarrow> bucketPtr option list \<times> bucketPtr list" where
  "placeBuckets i 0 reusable data = (data, reusable)"
| "placeBuckets i (Suc n) reusable data =
     (if reusable = [] then (data, reusable)
      else if data ! i \<noteq> None then placeBuckets (i + 1) n reusable data
      else placeBuckets (i + 1) n (butlast reusable) (data[i := Some (last reusable)]))"

text \<open>
  \<^verbatim>\<open>static_cast<double>(size) / static_cast<double>(numThreads) >= maxLoadFactor\<close>: the operands are below 2 to the power 32, so the comparison
  of the rounded quotient is that of the exact one, and division by zero gives infinity.
\<close>

definition largeEnough :: "nat \<Rightarrow> 32 word \<Rightarrow> bool" where
  "largeEnough n numThreads \<longleftrightarrow> numThreads = 0 \<or> maxLoadFactor * unat numThreads \<le> n"

definition ensureHashtableSize ::
  "allocator \<Rightarrow> (nat \<Rightarrow> int) \<Rightarrow> (nat \<Rightarrow> int) \<Rightarrow> 32 word \<Rightarrow> lotTable \<Rightarrow> (lot_error, lotTable) result option" where
  "ensureHashtableSize alloc now rnd numThreads L =
     (if spine L \<noteq> [] \<and> largeEnough (length (spine L)) numThreads then Some (Inr L)
      else case lockHashtable alloc L of
        (buckets, L) \<Rightarrow>
          if largeEnough (length (spine L)) numThreads then Some (Inr L)
          else (case gatherThreads now rnd buckets L 0 [] of
             None \<Rightarrow> None
           | Some (Inl e) \<Rightarrow> Some (Inl e)
           | Some (Inr (L, threadDatas)) \<Rightarrow>
               let newSize = numThreads * of_nat growthFactor * of_nat maxLoadFactor
               in if \<not> unat newSize > length (spine L) then Some (Inl AssertionFailure)
                  else Some (andThen (rehashThreads alloc threadDatas buckets (L\<lparr>spine := createHashtable (unat newSize)\<rparr>)) (\<lambda>(L, reusable).
                    case placeBuckets 0 (length (spine L)) reusable (spine L) of
                      (data, reusable) \<Rightarrow>
                        if reusable \<noteq> [] then Inl AssertionFailure else Inr (L\<lparr>spine := data\<rparr>)))))"

section \<open>Well-formed tables\<close>

text \<open>
  \<open>tableWf L q\<close>: the bucket \<open>b\<close> holds the threads \<open>q b\<close>. Every bucket of the spine is at one place, only such buckets hold
  threads, no thread is in two buckets, and every thread is in the bucket its address hashes to.
\<close>

definition placed :: "lotTable \<Rightarrow> nat \<Rightarrow> bucketPtr \<Rightarrow> bool" where
  "placed L i b \<longleftrightarrow> i < length (spine L) \<and> spine L ! i = Some b"

definition tableWf :: "lotTable \<Rightarrow> (bucketPtr \<Rightarrow> tid list) \<Rightarrow> bool" where
  "tableWf L q \<longleftrightarrow>
     (\<forall>i b. placed L i b \<longrightarrow> b \<in> set (liveBuckets L))
     \<and> (\<forall>i j b. placed L i b \<and> placed L j b \<longrightarrow> i = j)
     \<and> (\<forall>b. q b \<noteq> [] \<longrightarrow> (\<exists>i. placed L i b))
     \<and> (\<forall>b. b \<in> set (liveBuckets L) \<longrightarrow> isQueue (threads L) (bucketAt L b) (q b))
     \<and> (\<forall>b c t. t \<in> set (q b) \<and> t \<in> set (q c) \<longrightarrow> b = c)
     \<and> (\<forall>i b t. placed L i b \<and> t \<in> set (q b) \<longrightarrow> td_address (threads L t) \<noteq> 0 \<and> bucketIndex (td_address (threads L t)) (length (spine L)) = i)
     \<and> (\<forall>t. (\<forall>b. t \<notin> set (q b)) \<longrightarrow> nextInQueue (threads L t) = None)"

text \<open>The threads parked on an address, in the order in which they parked.\<close>

definition parkedOn :: "lotTable \<Rightarrow> (bucketPtr \<Rightarrow> tid list) \<Rightarrow> address \<Rightarrow> tid list" where
  "parkedOn L q a =
     (if spine L = [] then []
      else case spine L ! bucketIndex a (length (spine L)) of None \<Rightarrow> [] | Some b \<Rightarrow> waitingOn (threads L) a (q b))"

lemma tableWfD:
  assumes "tableWf L q"
  shows "placed L i b \<Longrightarrow> b \<in> set (liveBuckets L)" and "placed L i b \<Longrightarrow> placed L j b \<Longrightarrow> i = j"
    and "q b \<noteq> [] \<Longrightarrow> \<exists>i. placed L i b" and "b \<in> set (liveBuckets L) \<Longrightarrow> isQueue (threads L) (bucketAt L b) (q b)"
    and "t \<in> set (q b) \<Longrightarrow> t \<in> set (q c) \<Longrightarrow> b = c"
    and "placed L i b \<Longrightarrow> t \<in> set (q b) \<Longrightarrow> td_address (threads L t) \<noteq> 0 \<and> bucketIndex (td_address (threads L t)) (length (spine L)) = i"
    and "(\<And>b. t \<notin> set (q b)) \<Longrightarrow> nextInQueue (threads L t) = None"
  using assms unfolding tableWf_def by blast+

lemma tableWfI:
  assumes "\<And>i b. placed L i b \<Longrightarrow> b \<in> set (liveBuckets L)" and "\<And>i j b. placed L i b \<Longrightarrow> placed L j b \<Longrightarrow> i = j"
    and "\<And>b. q b \<noteq> [] \<Longrightarrow> \<exists>i. placed L i b" and "\<And>b. b \<in> set (liveBuckets L) \<Longrightarrow> isQueue (threads L) (bucketAt L b) (q b)"
    and "\<And>b c t. t \<in> set (q b) \<Longrightarrow> t \<in> set (q c) \<Longrightarrow> b = c"
    and "\<And>i b t. placed L i b \<Longrightarrow> t \<in> set (q b) \<Longrightarrow> td_address (threads L t) \<noteq> 0 \<and> bucketIndex (td_address (threads L t)) (length (spine L)) = i"
    and "\<And>t. (\<And>b. t \<notin> set (q b)) \<Longrightarrow> nextInQueue (threads L t) = None"
  shows "tableWf L q"
  using assms unfolding tableWf_def by blast

lemma tableWf_cong:
  assumes w: "tableWf L q" and p: "\<And>i b. placed L' i b = placed L i b" and n: "length (spine L') = length (spine L) \<or> (\<forall>b. q b = [])"
    and t: "threads L' = threads L" and l: "set (liveBuckets L) \<subseteq> set (liveBuckets L')"
    and v: "\<And>b. b \<in> set (liveBuckets L') \<Longrightarrow> isQueue (threads L) (bucketAt L' b) (q b)"
  shows "tableWf L' q"
proof (rule tableWfI, unfold p t)
  show "b \<in> set (liveBuckets L')" if "placed L i b" for i b using tableWfD(1) [OF w that] l by blast
  show "td_address (threads L u) \<noteq> 0 \<and> bucketIndex (td_address (threads L u)) (length (spine L')) = i" if "placed L i b" "u \<in> set (q b)" for i b u
    using tableWfD(6) [OF w that] n that(2) by auto
  show "b = c" if "u \<in> set (q b)" "u \<in> set (q c)" for b c u by (rule tableWfD(5) [OF w that])
  show "i = j" if "placed L i b" "placed L j b" for i j b by (rule tableWfD(2) [OF w that])
  show "nextInQueue (threads L u) = None" if "\<And>b. u \<notin> set (q b)" for u by (rule tableWfD(7) [OF w that])
qed (erule tableWfD(3) [OF w], erule v)

text \<open>Changing one bucket and the threads it holds.\<close>

lemma setBucket_fields [simp]:
  "spine (setBucket L h b v) = spine L" "liveBuckets (setBucket L h b v) = liveBuckets L" "threads (setBucket L h b v) = h"
  "bucketAt (setBucket L h b v) c = (if c = b then v else bucketAt L c)" "placed (setBucket L h b v) = placed L"
  by (simp_all add: setBucket_def placed_def fun_eq_iff)

lemma setBucket_wf:
  assumes w: "tableWf L q" and v: "isQueue h v ys" and place: "ys \<noteq> [] \<Longrightarrow> \<exists>i. placed L i b"
    and others: "\<And>c t. c \<noteq> b \<Longrightarrow> t \<in> set (q c) \<Longrightarrow> t \<notin> set ys \<and> h t = threads L t"
    and addr: "\<And>i t. placed L i b \<Longrightarrow> t \<in> set ys \<Longrightarrow> td_address (h t) \<noteq> 0 \<and> bucketIndex (td_address (h t)) (length (spine L)) = i"
    and free: "\<And>t. t \<notin> set ys \<Longrightarrow> (\<And>c. c \<noteq> b \<Longrightarrow> t \<notin> set (q c)) \<Longrightarrow> nextInQueue (h t) = None"
  shows "tableWf (setBucket L h b v) (q(b := ys))"
proof (rule tableWfI)
  show "isQueue (threads (setBucket L h b v)) (bucketAt (setBucket L h b v) c) ((q(b := ys)) c)" if "c \<in> set (liveBuckets (setBucket L h b v))" for c
  proof (cases "c = b")
    case False
    then show ?thesis using isQueue_cong [OF tableWfD(4) [OF w, of c], of h] that others [OF False] by simp
  qed (simp add: v)
  show "c = d" if "t \<in> set ((q(b := ys)) c)" "t \<in> set ((q(b := ys)) d)" for c d t
    using that others tableWfD(5) [OF w, of t c d] by (auto split: if_splits)
  show "\<exists>i. placed (setBucket L h b v) i c" if "(q(b := ys)) c \<noteq> []" for c
    using that place tableWfD(3) [OF w, of c] by (cases "c = b") auto
  show "td_address (threads (setBucket L h b v) t) \<noteq> 0 \<and>
      bucketIndex (td_address (threads (setBucket L h b v) t)) (length (spine (setBucket L h b v))) = i"
    if "placed (setBucket L h b v) i c" "t \<in> set ((q(b := ys)) c)" for i c t
    using that addr others tableWfD(6) [OF w, of i c t] by (cases "c = b") auto
  show "nextInQueue (threads (setBucket L h b v) t) = None" if "\<And>c. t \<notin> set ((q(b := ys)) c)" for t
  proof -
    have "t \<notin> set ys" using that [of b] by simp
    moreover have "t \<notin> set (q c)" if "c \<noteq> b" for c using \<open>\<And>c. t \<notin> set ((q(b := ys)) c)\<close> [of c] that by simp
    ultimately show ?thesis using free by simp
  qed
qed (use tableWfD(1,2) [OF w] in auto)

lemma place_wf:
  assumes w: "tableWf L q" and i: "i < length (spine L)" "spine L ! i = None" and b: "b \<in> set (liveBuckets L)" "\<And>j. \<not> placed L j b"
  shows "tableWf (L\<lparr>spine := (spine L)[i := Some b]\<rparr>) q"
proof -
  let ?L = "L\<lparr>spine := (spine L)[i := Some b]\<rparr>"
  have p: "placed ?L j c \<longleftrightarrow> (if j = i then c = b else placed L j c)" for j c using i by (auto simp: placed_def)
  have qb: "q b = []" using tableWfD(3) [OF w, of b] b(2) by blast
  have np: "\<not> placed L i c" for c using i by (simp add: placed_def)
  show ?thesis
  proof (rule tableWfI)
    show "\<exists>j. placed ?L j c" if "q c \<noteq> []" for c using tableWfD(3) [OF w that] np unfolding p by metis
    show "td_address (threads ?L t) \<noteq> 0 \<and> bucketIndex (td_address (threads ?L t)) (length (spine ?L)) = j" if "placed ?L j c" "t \<in> set (q c)" for j c t
      using that tableWfD(6) [OF w, of j c t] qb by (auto simp: p split: if_splits)
  qed (use p b np tableWfD [OF w] in \<open>auto split: if_splits\<close>)
qed
text \<open>Allocating a bucket, materialising a bucket, creating the table: nothing happens to the threads.\<close>

lemma newBucket_wf:
  assumes w: "tableWf L q" and fresh: "alloc (liveBuckets L) \<notin> set (liveBuckets L)" and n: "newBucket alloc L = (b, L')"
  shows "tableWf L' q" and "spine L' = spine L" and "threads L' = threads L" and "b \<in> set (liveBuckets L')" and "\<not> placed L' j b"
    and "b \<notin> set (liveBuckets L)" and "set (liveBuckets L) \<subseteq> set (liveBuckets L')"
proof -
  have L': "L' = L\<lparr>bucketAt := (bucketAt L)(b := \<lparr>queueHead = None, queueTail = None, nextFairTime = 0\<rparr>), liveBuckets := b # liveBuckets L\<rparr>"
    and b: "b = alloc (liveBuckets L)" using n by (auto simp: newBucket_def Let_def)
  have p: "placed L' = placed L" by (simp add: L' placed_def fun_eq_iff)
  have np: "\<not> placed L j b" for j using tableWfD(1) [OF w, of j b] fresh b by auto
  have qb: "q b = []" using tableWfD(3) [OF w, of b] np by blast
  show "tableWf L' q"
  proof (rule tableWf_cong [OF w])
    show "isQueue (threads L) (bucketAt L' c) (q c)" if "c \<in> set (liveBuckets L')" for c
      using that tableWfD(4) [OF w, of c] qb by (cases "c = b") (auto simp: L' isQueue_def)
  qed (auto simp: p, auto simp: L')
  show "spine L' = spine L" "threads L' = threads L" "b \<in> set (liveBuckets L')" "\<not> placed L' j b" "b \<notin> set (liveBuckets L)"
    "set (liveBuckets L) \<subseteq> set (liveBuckets L')"
    using np fresh b by (auto simp: L' placed_def)
qed

text \<open>\<open>grows L L'\<close>: \<open>L'\<close> has more buckets than \<open>L\<close>, and is otherwise the same.\<close>

definition grows :: "lotTable \<Rightarrow> lotTable \<Rightarrow> bool" where
  "grows L L' \<longleftrightarrow> threads L' = threads L \<and> length (spine L') = length (spine L) \<and> (\<forall>i b. placed L i b \<longrightarrow> placed L' i b)"

lemma grows_trans: "grows L L' \<Longrightarrow> grows L' L'' \<Longrightarrow> grows L L''"
  by (auto simp: grows_def)

lemma parkedOn_grows:
  assumes w: "tableWf L q" and w': "tableWf L' q" and g: "grows L L'"
  shows "parkedOn L' q a = parkedOn L q a"
proof -
  let ?i = "bucketIndex a (length (spine L))"
  have n: "length (spine L') = length (spine L)" and t: "threads L' = threads L" using g by (auto simp: grows_def)
  show ?thesis
  proof (cases "spine L = []")
    case False
    then have i: "?i < length (spine L)" by (simp add: bucketIndex_def)
    show ?thesis
    proof (cases "spine L ! ?i")
      case (Some b)
      then have "spine L' ! ?i = Some b" using g i by (simp add: grows_def placed_def)
      then show ?thesis using Some n t by (auto simp: parkedOn_def)
    next
      case None
      have "waitingOn (threads L) a (q b) = []" if "spine L' ! ?i = Some b" for b
      proof (rule ccontr)
        assume "waitingOn (threads L) a (q b) \<noteq> []"
        then obtain u where u: "u \<in> set (q b)" "td_address (threads L u) = a" by (auto simp: waitingOn_def filter_empty_conv)
        then obtain j where j: "placed L j b" using tableWfD(3) [OF w, of b] by fastforce
        then have "j = ?i" using tableWfD(6) [OF w j u(1)] u(2) by simp
        then show False using j None by (simp add: placed_def)
      qed
      then show ?thesis using None n t False by (auto simp: parkedOn_def split: option.splits)
    qed
  qed (use n in \<open>simp add: parkedOn_def\<close>)
qed

lemma ensureBucket_wf:
  assumes w: "tableWf L q" and fresh: "\<And>bs. alloc bs \<notin> set bs" and i: "i < length (spine L)" and e: "ensureBucket alloc i L = (b, L')"
  shows "tableWf L' q" and "placed L' i b" and "grows L L'"
proof -
  have "tableWf L' q \<and> placed L' i b \<and> grows L L'"
  proof (cases "spine L ! i")
    case None
    obtain L1 where n: "newBucket alloc L = (b, L1)" and L': "L' = L1\<lparr>spine := (spine L1)[i := Some b]\<rparr>"
      using e None by (auto simp: ensureBucket_def split: prod.splits)
    note nb = newBucket_wf [OF w fresh n]
    have "tableWf L' q" unfolding L' using nb i None by (intro place_wf) auto
    moreover have "placed L j c \<Longrightarrow> placed L' j c" for j c using nb(2) None by (cases "j = i") (auto simp: L' placed_def)
    ultimately show ?thesis using nb i by (auto simp: grows_def placed_def L')
  next
    case (Some c)
    then show ?thesis using e w i by (auto simp: ensureBucket_def grows_def placed_def)
  qed
  then show "tableWf L' q" "placed L' i b" "grows L L'" by auto
qed

lemma ensureHashtable_wf:
  assumes w: "tableWf L q"
  shows "tableWf (ensureHashtable L) q" and "spine (ensureHashtable L) \<noteq> []" and "threads (ensureHashtable L) = threads L"
    and "parkedOn (ensureHashtable L) q a = parkedOn L q a"
proof -
  have new: "q b = []" if "spine L = []" for b using tableWfD(3) [OF w, of b] that by (auto simp: placed_def)
  show "tableWf (ensureHashtable L) q"
  proof (cases "spine L = []")
    case True
    have p: "\<not> placed (ensureHashtable L) i b" for i b using True by (auto simp: ensureHashtable_def placed_def createHashtable_def)
    moreover have "\<not> placed L i b" for i b using True by (simp add: placed_def)
    ultimately show ?thesis using True new tableWfD(4) [OF w] by (intro tableWf_cong [OF w]) (auto simp: ensureHashtable_def)
  qed (simp add: ensureHashtable_def w)
  show "spine (ensureHashtable L) \<noteq> []" "threads (ensureHashtable L) = threads L"
    by (auto simp: ensureHashtable_def createHashtable_def maxLoadFactor_def)
  show "parkedOn (ensureHashtable L) q a = parkedOn L q a"
    by (auto simp: ensureHashtable_def parkedOn_def new waitingOn_def split: option.splits)
qed

lemma collectBuckets_wf:
  assumes "tableWf L q" and fresh: "\<And>bs. alloc bs \<notin> set bs" and "n \<le> length (spine L)" and "collectBuckets alloc n L = (bs, L')"
  shows "tableWf L' q \<and> grows L L' \<and> length bs = n \<and> distinct bs \<and> (\<forall>b. b \<in> set bs \<longleftrightarrow> (\<exists>i<n. placed L' i b))"
  using assms(1,3,4)
proof (induction n arbitrary: L bs)
  case 0
  then show ?case by (auto simp: grows_def)
next
  case (Suc n)
  obtain b L1 where e: "ensureBucket alloc n L = (b, L1)" by fastforce
  obtain cs where c: "collectBuckets alloc n L1 = (cs, L')" "bs = b # cs" using Suc.prems(3) e by (auto split: prod.splits)
  have n: "n < length (spine L)" using Suc.prems(2) by simp
  note eb = ensureBucket_wf [OF Suc.prems(1) fresh n e]
  have n1: "n \<le> length (spine L1)" using eb(3) n by (simp add: grows_def)
  have IH: "tableWf L' q" "grows L1 L'" "length cs = n" "distinct cs" "\<forall>b. b \<in> set cs \<longleftrightarrow> (\<exists>i<n. placed L' i b)"
    using Suc.IH [OF eb(1) n1 c(1)] by blast+
  have p: "placed L' n b" using eb(2) IH(2) by (simp add: grows_def)
  have "placed L' n x \<longleftrightarrow> x = b" for x using p by (auto simp: placed_def)
  moreover have "(\<exists>i<Suc n. placed L' i x) \<longleftrightarrow> placed L' n x \<or> (\<exists>i<n. placed L' i x)" for x by (blast elim: less_SucE intro: less_SucI)
  ultimately have "x \<in> set bs \<longleftrightarrow> (\<exists>i<Suc n. placed L' i x)" for x using IH(5) c(2) by simp
  moreover have "b \<notin> set cs" using IH(5) tableWfD(2) [OF IH(1) p] by auto
  ultimately show ?case using IH(1,3,4) c(2) grows_trans [OF eb(3) IH(2)] by simp
qed

section \<open>Draining the old table\<close>

lemma bucketDequeue_refines:
  assumes "isQueue h b xs"
  shows "\<exists>h' b'. bucketDequeue time delay h b = Some (Inr (h', b', case xs of [] \<Rightarrow> None | x # _ \<Rightarrow> Some x)) \<and> isQueue h' b' (tl xs) \<and> sameData h h'
    \<and> (xs \<noteq> [] \<longrightarrow> nextInQueue (h' (hd xs)) = None) \<and> (\<forall>t. t \<notin> set xs \<longrightarrow> h' t = h t)"
  using genericDequeue_refines [OF assms, of "\<lambda>element _ _ _. (RemoveAndStop, Some element)" time None "tl xs" "take 1 xs"
      "case xs of [] \<Rightarrow> None | x # _ \<Rightarrow> Some x" delay]
  unfolding bucketDequeue_def by (cases xs) auto

lemma drainBucket_refines:
  assumes "isQueue h b xs"
  shows "\<exists>h' b' k'. drainBucket now rnd h b k acc = Some (Inr (h', b', k', acc @ xs)) \<and> isQueue h' b' [] \<and> sameData h h'
    \<and> (\<forall>t\<in>set xs. nextInQueue (h' t) = None) \<and> (\<forall>t. t \<notin> set xs \<longrightarrow> h' t = h t)"
  using assms
proof (induction xs arbitrary: h b k acc)
  case Nil
  then show ?case using bucketDequeue_refines [OF Nil, of "now k" "rnd k"] by (subst drainBucket.simps) auto
next
  case (Cons x xs)
  obtain h1 b1 where d: "bucketDequeue (now k) (rnd k) h b = Some (Inr (h1, b1, Some x))" "isQueue h1 b1 xs" "sameData h h1"
      "nextInQueue (h1 x) = None" "\<forall>t. t \<notin> set (x # xs) \<longrightarrow> h1 t = h t"
    using bucketDequeue_refines [OF Cons.prems, of "now k" "rnd k"] by auto
  obtain h2 b2 k2 where r: "drainBucket now rnd h1 b1 (k + 1) (acc @ [x]) = Some (Inr (h2, b2, k2, (acc @ [x]) @ xs))" "isQueue h2 b2 []" "sameData h1 h2"
      "\<forall>t\<in>set xs. nextInQueue (h2 t) = None" "\<forall>t. t \<notin> set xs \<longrightarrow> h2 t = h1 t"
    using Cons.IH [OF d(2)] by blast
  have "x \<notin> set xs" using Cons.prems by (simp add: isQueue_def)
  then have "nextInQueue (h2 x) = None" using r(5) d(4) by simp
  then show ?case using d r by (subst drainBucket.simps) (auto simp: sameData_def)
qed

lemma gatherThreads_refines:
  assumes "tableWf L q" and "distinct bs" and "set bs \<subseteq> set (liveBuckets L)"
  shows "\<exists>L'. gatherThreads now rnd bs L k acc = Some (Inr (L', acc @ concat (map q bs))) \<and> tableWf L' (\<lambda>b. if b \<in> set bs then [] else q b)
    \<and> spine L' = spine L \<and> liveBuckets L' = liveBuckets L \<and> sameData (threads L) (threads L')"
  using assms
proof (induction bs arbitrary: L q k acc)
  case Nil
  then show ?case by (simp add: sameData_def)
next
  case (Cons b bs)
  have v: "isQueue (threads L) (bucketAt L b) (q b)" using tableWfD(4) [OF Cons.prems(1)] Cons.prems(3) by simp
  obtain h v k' where d: "drainBucket now rnd (threads L) (bucketAt L b) k acc = Some (Inr (h, v, k', acc @ q b))" "isQueue h v []"
      "sameData (threads L) h" "\<forall>t\<in>set (q b). nextInQueue (h t) = None" "\<forall>t. t \<notin> set (q b) \<longrightarrow> h t = threads L t"
    using drainBucket_refines [OF v, of now rnd k acc] by auto
  have w: "tableWf (setBucket L h b v) (q(b := []))"
  proof (rule setBucket_wf [OF Cons.prems(1) d(2)])
    show "t \<notin> set [] \<and> h t = threads L t" if "c \<noteq> b" "t \<in> set (q c)" for c t
      using tableWfD(5) [OF Cons.prems(1) that(2), of b] that(1) d(5) by auto
    show "nextInQueue (h t) = None" if "\<And>c. c \<noteq> b \<Longrightarrow> t \<notin> set (q c)" for t
    proof (cases "t \<in> set (q b)")
      case False
      then have "t \<notin> set (q c)" for c using that [of c] by (cases "c = b") auto
      then show ?thesis using tableWfD(7) [OF Cons.prems(1), of t] d(5) False by simp
    qed (use d(4) in simp)
  qed simp_all
  have m: "map (q(b := [])) bs = map q bs" using Cons.prems(2) by (intro map_cong) auto
  have f: "(\<lambda>c. if c \<in> set bs then [] else (q(b := [])) c) = (\<lambda>c. if c \<in> set (b # bs) then [] else q c)" by auto
  have s: "distinct bs" "set bs \<subseteq> set (liveBuckets (setBucket L h b v))" using Cons.prems by auto
  obtain L' where "gatherThreads now rnd bs (setBucket L h b v) k' (acc @ q b) = Some (Inr (L', (acc @ q b) @ concat (map q bs)))"
      "tableWf L' (\<lambda>c. if c \<in> set (b # bs) then [] else q c)" "spine L' = spine L" "liveBuckets L' = liveBuckets L" "sameData h (threads L')"
    using Cons.IH [OF w s, of k' "acc @ q b"] unfolding m f by auto
  then show ?case using d by (auto simp: sameData_def)
qed


section \<open>A thread joins its bucket\<close>

lemma waitingOn_cong: "\<forall>t\<in>set xs. td_address (h t) = td_address (h' t) \<Longrightarrow> waitingOn h a xs = waitingOn h' a xs"
  unfolding waitingOn_def by (rule filter_cong) auto

lemma join_wf:
  assumes w: "tableWf L q" and p: "placed L i b" and t: "\<And>c. t \<notin> set (q c)" and v: "isQueue h v (q b @ [t])"
    and A: "\<And>u. u \<noteq> t \<Longrightarrow> td_address (h u) = td_address (threads L u)" and same: "\<And>u. u \<notin> set (q b @ [t]) \<Longrightarrow> h u = threads L u"
    and a: "td_address (h t) \<noteq> 0" "bucketIndex (td_address (h t)) (length (spine L)) = i"
  shows "tableWf (setBucket L h b v) (q(b := q b @ [t]))"
    and "parkedOn (setBucket L h b v) (q(b := q b @ [t])) a' = parkedOn L q a' @ (if a' = td_address (h t) then [t] else [])"
proof -
  show "tableWf (setBucket L h b v) (q(b := q b @ [t]))"
  proof (rule setBucket_wf [OF w v])
    show "u \<notin> set (q b @ [t]) \<and> h u = threads L u" if "c \<noteq> b" "u \<in> set (q c)" for c u
      using same [of u] t [of c] that tableWfD(5) [OF w that(2), of b] by auto
    show "td_address (h u) \<noteq> 0 \<and> bucketIndex (td_address (h u)) (length (spine L)) = j" if "placed L j b" "u \<in> set (q b @ [t])" for j u
      using that a tableWfD(2) [OF w p that(1)] tableWfD(6) [OF w that(1), of u] A [of u] by (cases "u = t") auto
    show "nextInQueue (h u) = None" if "u \<notin> set (q b @ [t])" "\<And>c. c \<noteq> b \<Longrightarrow> u \<notin> set (q c)" for u
    proof -
      have "u \<notin> set (q c)" for c using that by (cases "c = b") auto
      then show ?thesis using tableWfD(7) [OF w, of u] same [OF that(1)] by simp
    qed
  qed (use p in blast)
  let ?j = "bucketIndex a' (length (spine L))"
  have ne: "spine L \<noteq> []" using p by (auto simp: placed_def)
  have keep: "waitingOn h a' (q c) = waitingOn (threads L) a' (q c)" for c using t [of c] A by (intro waitingOn_cong) metis
  show "parkedOn (setBucket L h b v) (q(b := q b @ [t])) a' = parkedOn L q a' @ (if a' = td_address (h t) then [t] else [])"
  proof (cases "?j = i")
    case True
    then have "spine L ! ?j = Some b" using p by (simp add: placed_def)
    moreover have "waitingOn h a' (q b @ [t]) = waitingOn h a' (q b) @ (if a' = td_address (h t) then [t] else [])" by (simp add: waitingOn_def)
    ultimately show ?thesis using ne keep [of b] by (simp add: parkedOn_def)
  next
    case False
    have "spine L ! ?j \<noteq> Some b" using False tableWfD(2) [OF w p, of ?j] ne by (auto simp: placed_def bucketIndex_def)
    moreover have "a' \<noteq> td_address (h t)" using False a(2) by auto
    ultimately show ?thesis using ne keep by (auto simp: parkedOn_def split: option.splits)
  qed
qed

section \<open>Filling the new table\<close>

text \<open>The buckets that can be reused: allocated, in no place of the spine, and counted with the occupied places.\<close>

definition occupied :: "bucketPtr option list \<Rightarrow> nat" where
  "occupied data = length (filter (\<lambda>x. x \<noteq> None) data)"

definition spare :: "lotTable \<Rightarrow> bucketPtr list \<Rightarrow> bool" where
  "spare L r \<longleftrightarrow> distinct r \<and> set r \<subseteq> set (liveBuckets L) \<and> (\<forall>b\<in>set r. \<forall>i. \<not> placed L i b)"

lemma occupied_update: "i < length data \<Longrightarrow> data ! i = None \<Longrightarrow> occupied (data[i := Some b]) = Suc (occupied data)"
proof (induction data arbitrary: i)
  case (Cons x xs)
  then show ?case by (cases i) (auto simp: occupied_def)
qed simp

lemma butlast_set: "distinct r \<Longrightarrow> r \<noteq> [] \<Longrightarrow> set r = insert (last r) (set (butlast r)) \<and> last r \<notin> set (butlast r) \<and> distinct (butlast r)"
  by (cases r rule: rev_cases) auto

text \<open>The choice of the bucket for one thread.\<close>

definition pickBucket :: "allocator \<Rightarrow> nat \<Rightarrow> bucketPtr list \<Rightarrow> lotTable \<Rightarrow> bucketPtr \<times> bucketPtr list \<times> lotTable" where
  "pickBucket alloc index reusable L =
     (case spine L ! index of
        Some b \<Rightarrow> (b, reusable, L)
      | None \<Rightarrow>
          if reusable = [] then (case newBucket alloc L of (b, L) \<Rightarrow> (b, reusable, L\<lparr>spine := (spine L)[index := Some b]\<rparr>))
          else (last reusable, butlast reusable, L\<lparr>spine := (spine L)[index := Some (last reusable)]\<rparr>))"

lemma rehashThreads_Cons:
  "rehashThreads alloc (t # ts) reusable L =
     (case pickBucket alloc (bucketIndex (td_address (threads L t)) (length (spine L))) reusable L of
        (bucket, reusable, L) \<Rightarrow> andThen (bucketEnqueue (threads L) (bucketAt L bucket) t) (\<lambda>(h, b).
           rehashThreads alloc ts reusable (setBucket L h bucket b)))"
  by (simp add: pickBucket_def Let_def)

lemma pickBucket_wf:
  assumes w: "tableWf L q" and fresh: "\<And>bs. alloc bs \<notin> set bs" and i: "i < length (spine L)" and r: "spare L r"
    and e: "pickBucket alloc i r L = (b, r', L')"
  shows "tableWf L' q" and "placed L' i b" and "grows L L'" and "spare L' r'" and "r' \<noteq> [] \<Longrightarrow> occupied (spine L') + length r' = occupied (spine L) + length r"
    and "r = [] \<Longrightarrow> r' = []"
proof -
  have "tableWf L' q \<and> placed L' i b \<and> grows L L' \<and> spare L' r' \<and> (r' \<noteq> [] \<longrightarrow> occupied (spine L') + length r' = occupied (spine L) + length r) \<and> (r = [] \<longrightarrow> r' = [])"
  proof (cases "spine L ! i")
    case (Some c)
    then show ?thesis using e w i r by (auto simp: pickBucket_def grows_def placed_def)
  next
    case None
    show ?thesis
    proof (cases "r = []")
      case True
      then have "ensureBucket alloc i L = (b, L')" "r' = []" using e None by (auto simp: pickBucket_def ensureBucket_def split: prod.splits)
      then show ?thesis using ensureBucket_wf [OF w fresh i] True by (simp add: spare_def)
    next
      case False
      have L': "L' = L\<lparr>spine := (spine L)[i := Some (last r)]\<rparr>" "b = last r" "r' = butlast r" using e None False by (auto simp: pickBucket_def)
      note bl = butlast_set [of r]
      have d: "distinct r" "set r \<subseteq> set (liveBuckets L)" "\<forall>b\<in>set r. \<forall>j. \<not> placed L j b" using r by (auto simp: spare_def)
      have "last r \<in> set r" using False by simp
      then have "tableWf L' q" unfolding L'(1) using d by (intro place_wf [OF w i None]) blast+
      moreover have pl: "placed L' j c \<longleftrightarrow> (if j = i then c = last r else placed L j c)" for j c using i by (auto simp: L' placed_def)
      moreover have "\<not> placed L i c" for c using None by (simp add: placed_def)
      moreover have "spare L' r'" using d bl False unfolding spare_def pl by (auto simp: L')
      moreover have "length r = Suc (length r')" using False by (simp add: L'(3))
      ultimately show ?thesis using occupied_update [OF i None, of "last r"] L' i False by (auto simp: grows_def)
    qed
  qed
  then show "tableWf L' q" "placed L' i b" "grows L L'" "spare L' r'" "r' \<noteq> [] \<Longrightarrow> occupied (spine L') + length r' = occupied (spine L) + length r"
    "r = [] \<Longrightarrow> r' = []" by auto
qed

lemma rehashThreads_refines:
  assumes "tableWf L q" and fresh: "\<And>bs. alloc bs \<notin> set bs" and "spine L \<noteq> []" and "spare L r" and "distinct ts"
    and "\<And>t b. t \<in> set ts \<Longrightarrow> t \<notin> set (q b)" and "\<And>t. t \<in> set ts \<Longrightarrow> td_address (threads L t) \<noteq> 0"
  shows "\<exists>L' q' r'. rehashThreads alloc ts r L = Inr (L', r') \<and> tableWf L' q' \<and> length (spine L') = length (spine L) \<and> sameData (threads L) (threads L')
    \<and> (\<forall>a. parkedOn L' q' a = parkedOn L q a @ waitingOn (threads L) a ts) \<and> spare L' r'
    \<and> (r' \<noteq> [] \<longrightarrow> occupied (spine L') + length r' = occupied (spine L) + length r \<and> r \<noteq> [])
    \<and> (\<forall>t. (\<exists>b. t \<in> set (q' b)) \<longleftrightarrow> t \<in> set ts \<or> (\<exists>b. t \<in> set (q b)))"
  using assms(1,3-7)
proof (induction ts arbitrary: L q r)
  case Nil
  then show ?case by (auto simp: sameData_def waitingOn_def)
next
  case (Cons t ts)
  let ?a = "td_address (threads L t)" and ?i = "bucketIndex (td_address (threads L t)) (length (spine L))"
  have i: "?i < length (spine L)" using Cons.prems(2) by (simp add: bucketIndex_def)
  obtain b r1 L1 where p: "pickBucket alloc ?i r L = (b, r1, L1)" by (metis prod.exhaust)
  note pb = pickBucket_wf [OF Cons.prems(1) fresh i Cons.prems(3) p]
  have th: "threads L1 = threads L" and len: "length (spine L1) = length (spine L)" using pb(3) by (auto simp: grows_def)
  have tq: "t \<notin> set (q c)" for c using Cons.prems(5) [of t c] by simp
  have live: "b \<in> set (liveBuckets L1)" by (rule tableWfD(1) [OF pb(1,2)])
  have nx: "nextInQueue (threads L1 t) = None" by (rule tableWfD(7) [OF pb(1) tq])
  obtain h v where e: "bucketEnqueue (threads L1) (bucketAt L1 b) t = Inr (h, v)" "isQueue h v (q b @ [t])" "sameData (threads L1) h"
      "\<And>u. u \<notin> set (q b) \<Longrightarrow> h u = threads L1 u"
    using bucketEnqueue_refines [OF tableWfD(4) [OF pb(1) live] tq _ nx] Cons.prems(6) [of t] by (auto simp: th)
  let ?L = "setBucket L1 h b v" and ?q = "q(b := q b @ [t])"
  have A: "td_address (h u) = td_address (threads L u)" for u using e(3) by (simp add: sameData_def th)
  have j: "tableWf ?L ?q" "parkedOn ?L ?q a = parkedOn L q a @ (if a = ?a then [t] else [])" for a
    using join_wf [OF pb(1,2) tq e(2)] e(4) A Cons.prems(6) [of t] parkedOn_grows [OF Cons.prems(1) pb(1,3)] by (auto simp: th len)
  have sp: "spare ?L r1" using pb(4) by (simp add: spare_def)
  have ts: "u \<notin> set (?q c)" if "u \<in> set ts" for u c using that Cons.prems(4,5) by auto
  have ad: "td_address (threads ?L u) \<noteq> 0" if "u \<in> set ts" for u using that Cons.prems(6) [of u] A by simp
  have ne: "spine ?L \<noteq> []" "distinct ts" using Cons.prems(2,4) len by auto
  obtain L' q' r' where IH: "rehashThreads alloc ts r1 ?L = Inr (L', r')" "tableWf L' q'" "length (spine L') = length (spine ?L)" "sameData (threads ?L) (threads L')"
      "\<forall>a. parkedOn L' q' a = parkedOn ?L ?q a @ waitingOn (threads ?L) a ts" "spare L' r'"
      "r' \<noteq> [] \<longrightarrow> occupied (spine L') + length r' = occupied (spine ?L) + length r1 \<and> r1 \<noteq> []"
      "\<forall>t. (\<exists>b. t \<in> set (q' b)) \<longleftrightarrow> t \<in> set ts \<or> (\<exists>b. t \<in> set (?q b))"
    using Cons.IH [OF j(1) ne(1) sp ne(2) ts ad] by blast
  have "waitingOn h a ts = waitingOn (threads L) a ts" for a by (rule waitingOn_cong) (simp add: A)
  then have "parkedOn L' q' a = parkedOn L q a @ waitingOn (threads L) a (t # ts)" for a using IH(5) j(2) by (simp add: waitingOn_def)
  moreover have "r' \<noteq> [] \<longrightarrow> occupied (spine L') + length r' = occupied (spine L) + length r \<and> r \<noteq> []" using IH(7) pb(5,6) by auto
  moreover have "(\<exists>b. u \<in> set (q' b)) \<longleftrightarrow> u \<in> set (t # ts) \<or> (\<exists>b. u \<in> set (q b))" for u using IH(8) by auto
  moreover have "sameData (threads L) (threads L')" using IH(4) e(3) by (simp add: sameData_def th)
  moreover have "rehashThreads alloc (t # ts) r L = Inr (L', r')" unfolding rehashThreads_Cons p using e(1) IH(1) by simp
  ultimately show ?case using IH(2,3,6) len by (intro exI [of _ L'] exI [of _ q'] exI [of _ r']) simp
qed
lemma placeBuckets_wf:
  assumes "tableWf L q" and "spare L r" and "i + n = length (spine L)" and "length r \<le> n - occupied (drop i (spine L))"
    and "placeBuckets i n r (spine L) = (data, r')"
  shows "tableWf (L\<lparr>spine := data\<rparr>) q \<and> grows L (L\<lparr>spine := data\<rparr>) \<and> r' = []"
  using assms
proof (induction n arbitrary: i L r)
  case 0
  then show ?case by (auto simp: grows_def)
next
  case (Suc n)
  show ?case
  proof (cases "r = []")
    case True
    then show ?thesis using Suc.prems by (auto simp: grows_def)
  next
    case False
    have i: "i < length (spine L)" using Suc.prems(3) by simp
    have d: "drop i (spine L) = spine L ! i # drop (i + 1) (spine L)" using i by (simp add: Cons_nth_drop_Suc)
    show ?thesis
    proof (cases "spine L ! i")
      case (Some b)
      then have "occupied (drop i (spine L)) = Suc (occupied (drop (i + 1) (spine L)))" using d by (simp add: occupied_def)
      then show ?thesis using Suc.IH [OF Suc.prems(1,2), of "i + 1"] Suc.prems False Some by simp
    next
      case None
      let ?L = "L\<lparr>spine := (spine L)[i := Some (last r)]\<rparr>"
      note bl = butlast_set [of r]
      have s: "distinct r" "set r \<subseteq> set (liveBuckets L)" "\<forall>b\<in>set r. \<forall>j. \<not> placed L j b" using Suc.prems(2) by (auto simp: spare_def)
      have "last r \<in> set r" using False by simp
      then have w: "tableWf ?L q" using s by (intro place_wf [OF Suc.prems(1) i None]) blast+
      have pl: "placed ?L j c \<longleftrightarrow> (if j = i then c = last r else placed L j c)" for j c using i by (auto simp: placed_def)
      have sp: "spare ?L (butlast r)" using s bl False unfolding spare_def pl by auto
      have o: "length (butlast r) \<le> n - occupied (drop (i + 1) (spine ?L))" using Suc.prems(4) d None by (simp add: occupied_def)
      have "tableWf (?L\<lparr>spine := data\<rparr>) q \<and> grows ?L (?L\<lparr>spine := data\<rparr>) \<and> r' = []"
        using Suc.prems(3,5) None False by (intro Suc.IH [OF w sp _ o]) auto
      moreover have "grows L ?L" using None by (auto simp: grows_def pl) (simp add: placed_def)
      ultimately show ?thesis using grows_trans [of L ?L "L\<lparr>spine := data\<rparr>"] by auto
    qed
  qed
qed

section \<open>Resizing keeps the queues\<close>

lemma waitingOn_concat: "waitingOn h a (concat xss) = concat (map (waitingOn h a) xss)"
  by (induction xss) (auto simp: waitingOn_def)

lemma concat_single: "distinct bs \<Longrightarrow> b \<in> set bs \<Longrightarrow> (\<And>c. c \<in> set bs \<Longrightarrow> c \<noteq> b \<Longrightarrow> f c = []) \<Longrightarrow> concat (map f bs) = f b"
proof (induction bs)
  case (Cons x xs)
  show ?case
  proof (cases "x = b")
    case True
    then have "concat (map f xs) = []" using Cons.prems by (auto simp: concat_eq_Nil_conv)
    then show ?thesis using True by simp
  next
    case False
    then show ?thesis using Cons by simp
  qed
qed simp

lemma waiting_placed:
  assumes w: "tableWf L q" and "waitingOn (threads L) a (q b) \<noteq> []"
  shows "placed L (bucketIndex a (length (spine L))) b"
proof -
  obtain t where t: "t \<in> set (q b)" "td_address (threads L t) = a" using assms(2) by (auto simp: waitingOn_def filter_empty_conv)
  then obtain i where i: "placed L i b" using tableWfD(3) [OF w, of b] by fastforce
  show ?thesis using tableWfD(6) [OF w i t(1)] t(2) i by simp
qed

lemma parkedOn_gathered:
  assumes w: "tableWf L q" and ne: "spine L \<noteq> []" and bs: "distinct bs" "\<And>b. b \<in> set bs \<longleftrightarrow> (\<exists>i. placed L i b)"
  shows "waitingOn (threads L) a (concat (map q bs)) = parkedOn L q a"
proof -
  let ?i = "bucketIndex a (length (spine L))"
  have i: "?i < length (spine L)" using ne by (simp add: bucketIndex_def)
  have eq: "waitingOn (threads L) a (concat (map q bs)) = concat (map (\<lambda>b. waitingOn (threads L) a (q b)) bs)" by (simp add: waitingOn_concat comp_def)
  show ?thesis
  proof (cases "spine L ! ?i")
    case None
    then have "waitingOn (threads L) a (q b) = []" for b using waiting_placed [OF w, of a b] by (auto simp: placed_def)
    then show ?thesis using None ne by (simp add: eq parkedOn_def)
  next
    case (Some b)
    then have p: "placed L ?i b" using i by (simp add: placed_def)
    then have "b \<in> set bs" using bs(2) by blast
    moreover have "waitingOn (threads L) a (q c) = []" if "c \<noteq> b" for c using waiting_placed [OF w, of a c] that Some by (auto simp: placed_def)
    ultimately show ?thesis using concat_single [OF bs(1), of b "\<lambda>b. waitingOn (threads L) a (q b)"] Some ne by (simp add: eq parkedOn_def)
  qed
qed

lemma gathered_members:
  assumes w: "tableWf L q" and bs: "distinct bs" "\<And>b. b \<in> set bs \<longleftrightarrow> (\<exists>i. placed L i b)"
  shows "distinct (concat (map q bs))" and "t \<in> set (concat (map q bs)) \<longleftrightarrow> (\<exists>b. t \<in> set (q b))"
proof -
  have dq: "distinct (q b)" for b
  proof (cases "q b = []")
    case False
    then have "b \<in> set (liveBuckets L)" using tableWfD(1,3) [OF w] by blast
    then show ?thesis using tableWfD(4) [OF w] by (simp add: isQueue_def)
  qed simp
  have "distinct (concat (map q cs))" if "distinct cs" for cs
    using that
  proof (induction cs)
    case (Cons c cs)
    have "set (q c) \<inter> set (q d) = {}" if "d \<in> set cs" for d using tableWfD(5) [OF w, of _ c d] that Cons.prems by fastforce
    then show ?case using Cons dq by auto
  qed simp
  then show "distinct (concat (map q bs))" using bs(1) by blast
  have "b \<in> set bs" if "t \<in> set (q b)" for b
  proof -
    have "q b \<noteq> []" using that by auto
    then show ?thesis unfolding bs(2) by (rule tableWfD(3) [OF w])
  qed
  then show "t \<in> set (concat (map q bs)) \<longleftrightarrow> (\<exists>b. t \<in> set (q b))" by auto
qed

lemma lockHashtable_wf:
  assumes w: "tableWf L q" and fresh: "\<And>bs. alloc bs \<notin> set bs" and l: "lockHashtable alloc L = (bs, L')"
  shows "tableWf L' q" and "spine L' \<noteq> []" and "threads L' = threads L" and "distinct bs" and "length bs = length (spine L')"
    and "b \<in> set bs \<longleftrightarrow> (\<exists>i. placed L' i b)" and "parkedOn L' q a = parkedOn L q a"
proof -
  let ?L = "ensureHashtable L"
  note e = ensureHashtable_wf [OF w]
  obtain cs where c: "collectBuckets alloc (length (spine ?L)) ?L = (cs, L')" "bs = sort cs"
    using l by (auto simp: lockHashtable_def Let_def split: prod.splits)
  have cb: "tableWf L' q" "grows ?L L'" "length cs = length (spine ?L)" "distinct cs" "\<forall>b. b \<in> set cs \<longleftrightarrow> (\<exists>i<length (spine ?L). placed L' i b)"
    using collectBuckets_wf [OF e(1) fresh order_refl c(1)] by blast+
  have n: "length (spine L') = length (spine ?L)" using cb(2) by (simp add: grows_def)
  show "tableWf L' q" "distinct bs" "length bs = length (spine L')" "spine L' \<noteq> []" "threads L' = threads L"
    using cb(1-4) c(2) n e(2,3) by (auto simp: grows_def)
  show "b \<in> set bs \<longleftrightarrow> (\<exists>i. placed L' i b)" using cb(5) c(2) n by (auto simp: placed_def)
  show "parkedOn L' q a = parkedOn L q a" using parkedOn_grows [OF e(1) cb(1,2)] e(4) by simp
qed

lemma newSize:
  fixes n :: "32 word"
  assumes "unat n * 6 < 2 ^ 32"
  shows "unat (n * of_nat growthFactor * of_nat maxLoadFactor) = unat n * 6"
proof -
  have "n * of_nat growthFactor * of_nat maxLoadFactor = n * 6" by (simp add: growthFactor_def maxLoadFactor_def)
  moreover have "unat (n * 6) = unat n * 6" using assms by (subst unat_mult_lem [THEN iffD1]) simp_all
  ultimately show ?thesis by simp
qed

lemma refill:
  assumes w: "tableWf L (\<lambda>_. [])" and fresh: "\<And>bs. alloc bs \<notin> set bs" and N: "spine L = createHashtable N" "length bs < N" and bs: "spare L bs"
    and ts: "distinct ts" "\<And>t. t \<in> set ts \<Longrightarrow> td_address (threads L t) \<noteq> 0"
  shows "\<exists>L1 r data q. rehashThreads alloc ts bs L = Inr (L1, r) \<and> placeBuckets 0 (length (spine L1)) r (spine L1) = (data, [])
    \<and> tableWf (L1\<lparr>spine := data\<rparr>) q \<and> length data = N \<and> sameData (threads L) (threads L1)
    \<and> (\<forall>a. parkedOn (L1\<lparr>spine := data\<rparr>) q a = waitingOn (threads L) a ts) \<and> (\<forall>t. (\<exists>b. t \<in> set (q b)) \<longleftrightarrow> t \<in> set ts)"
proof -
  have ne: "spine L \<noteq> []" using N by (auto simp: createHashtable_def)
  obtain L1 q r where r: "rehashThreads alloc ts bs L = Inr (L1, r)" "tableWf L1 q" "length (spine L1) = length (spine L)" "sameData (threads L) (threads L1)"
      "\<forall>a. parkedOn L1 q a = parkedOn L (\<lambda>_. []) a @ waitingOn (threads L) a ts" "spare L1 r"
      "r \<noteq> [] \<longrightarrow> occupied (spine L1) + length r = occupied (spine L) + length bs" "\<forall>t. (\<exists>b. t \<in> set (q b)) \<longleftrightarrow> t \<in> set ts"
    using rehashThreads_refines [OF w fresh ne bs ts(1) _ ts(2)] by auto
  obtain data r' where pb: "placeBuckets 0 (length (spine L1)) r (spine L1) = (data, r')" by fastforce
  have "occupied (spine L) = 0" by (simp add: occupied_def N createHashtable_def)
  then have "length r \<le> length (spine L1) - occupied (drop 0 (spine L1))"
    using r(3,7) N by (cases "r = []") (auto simp: createHashtable_def)
  then have pl: "tableWf (L1\<lparr>spine := data\<rparr>) q" "grows L1 (L1\<lparr>spine := data\<rparr>)" "r' = []"
    using placeBuckets_wf [OF r(2,6) _ _ pb] by auto
  have "parkedOn L (\<lambda>_. []) a = []" for a by (simp add: parkedOn_def waitingOn_def split: option.splits)
  then have "parkedOn (L1\<lparr>spine := data\<rparr>) q a = waitingOn (threads L) a ts" for a using parkedOn_grows [OF r(2) pl(1,2)] r(5) by simp
  moreover have "length data = N" using pl(2) r(3) N(1) by (simp add: grows_def createHashtable_def)
  ultimately show ?thesis using r(1,4,8) pb pl(1,3) by blast
qed

lemma ensureHashtableSize_refines:
  assumes w: "tableWf L q" and fresh: "\<And>bs. alloc bs \<notin> set bs" and n: "unat n * 6 < 2 ^ 32"
  shows "\<exists>L' q'. ensureHashtableSize alloc now rnd n L = Some (Inr L') \<and> tableWf L' q' \<and> largeEnough (length (spine L')) n
    \<and> sameData (threads L) (threads L') \<and> parkedOn L' q' = parkedOn L q \<and> (\<forall>t. (\<exists>b. t \<in> set (q' b)) \<longleftrightarrow> (\<exists>b. t \<in> set (q b)))"
proof (cases "spine L \<noteq> [] \<and> largeEnough (length (spine L)) n")
  case True
  then show ?thesis using w by (intro exI [of _ L] exI [of _ q]) (auto simp: ensureHashtableSize_def sameData_def)
next
  case small: False
  obtain bs L1 where l: "lockHashtable alloc L = (bs, L1)" by fastforce
  note lk = lockHashtable_wf [OF w fresh l]
  show ?thesis
  proof (cases "largeEnough (length (spine L1)) n")
    case True
    then have "ensureHashtableSize alloc now rnd n L = Some (Inr L1)" unfolding ensureHashtableSize_def if_not_P [OF small] l by simp
    then show ?thesis using True lk(1,3,7) by (intro exI [of _ L1] exI [of _ q]) (auto simp: sameData_def)
  next
    case False
    have live: "set bs \<subseteq> set (liveBuckets L1)" using lk(6) tableWfD(1) [OF lk(1)] by blast
    let ?ts = "concat (map q bs)" and ?n = "unat n * 6"
    have "(\<lambda>b. if b \<in> set bs then [] else q b) = (\<lambda>_. [])" using lk(6) tableWfD(3) [OF lk(1)] by fastforce
    then obtain L2 where g: "gatherThreads now rnd bs L1 0 [] = Some (Inr (L2, ?ts))" "tableWf L2 (\<lambda>_. [])"
        "spine L2 = spine L1" "liveBuckets L2 = liveBuckets L1" "sameData (threads L1) (threads L2)"
      using gatherThreads_refines [OF lk(1,4) live, of now rnd 0 "[]"] by auto
    let ?L = "L2\<lparr>spine := createHashtable ?n\<rparr>"
    have np: "\<not> placed ?L i b" for i b by (auto simp: placed_def createHashtable_def)
    have w3: "tableWf ?L (\<lambda>_. [])" using tableWfD(4,7) [OF g(2)] np by (intro tableWfI) auto
    have ts: "distinct ?ts" "\<And>t. t \<in> set ?ts \<longleftrightarrow> (\<exists>b. t \<in> set (q b))" using gathered_members [OF lk(1,4,6)] by auto
    have ad: "td_address (threads ?L t) \<noteq> 0" if "t \<in> set ?ts" for t
      using that g(5) lk(6) tableWfD(6) [OF lk(1)] by (auto simp: sameData_def)
    have sp: "spare ?L bs" using lk(4) live np g(4) by (simp add: spare_def)
    have big: "?n > length (spine L1)" using False by (auto simp: largeEnough_def maxLoadFactor_def)
    have N: "spine ?L = createHashtable ?n" "length bs < ?n" using big lk(5) by simp_all
    obtain L4 r data q' where r: "rehashThreads alloc ?ts bs ?L = Inr (L4, r)" "placeBuckets 0 (length (spine L4)) r (spine L4) = (data, [])"
        "tableWf (L4\<lparr>spine := data\<rparr>) q'" "length data = ?n" "sameData (threads ?L) (threads L4)"
        "\<forall>a. parkedOn (L4\<lparr>spine := data\<rparr>) q' a = waitingOn (threads ?L) a ?ts" "\<forall>t. (\<exists>b. t \<in> set (q' b)) \<longleftrightarrow> t \<in> set ?ts"
      using refill [OF w3 fresh N sp ts(1) ad] by blast
    have "waitingOn (threads ?L) a ?ts = waitingOn (threads L1) a ?ts" for a using g(5) by (intro waitingOn_cong) (simp add: sameData_def)
    then have "parkedOn (L4\<lparr>spine := data\<rparr>) q' = parkedOn L q" using r(6) parkedOn_gathered [OF lk(1,2,4,6)] lk(7) by auto
    moreover have "sameData (threads L) (threads (L4\<lparr>spine := data\<rparr>))" using r(5) g(5) lk(3) by (simp add: sameData_def)
    moreover have "ensureHashtableSize alloc now rnd n L = Some (Inr (L4\<lparr>spine := data\<rparr>))"
      unfolding ensureHashtableSize_def if_not_P [OF small] l using False g(1,3) r(1,2) big newSize [OF n] by (simp add: Let_def)
    ultimately show ?thesis using r(3,4,7) ts(2)
      by (intro exI [of _ "L4\<lparr>spine := data\<rparr>"] exI [of _ q']) (simp add: largeEnough_def maxLoadFactor_def)
  qed
qed

section \<open>Parking and unparking keep the queues\<close>

lemma members_upd: "(\<exists>c. t \<in> set ((q(b := ys)) c)) \<longleftrightarrow> t \<in> set ys \<or> (\<exists>c. c \<noteq> b \<and> t \<in> set (q c))"
  by (metis fun_upd_apply)

lemma lotPark_refines:
  assumes w: "tableWf L q" and fresh: "\<And>bs. alloc bs \<notin> set bs" and me: "\<And>b. me \<notin> set (q b)" "td_address (threads L me) = 0" and a: "a \<noteq> 0"
  shows "\<exists>L' q'. lotPark alloc a True me L = Inr (L', True) \<and> tableWf L' q'
    \<and> (\<forall>a'. parkedOn L' q' a' = parkedOn L q a' @ (if a' = a then [me] else []))
    \<and> (\<forall>t. td_address (threads L' t) = (if t = me then a else td_address (threads L t)))
    \<and> (\<forall>t. (\<exists>b. t \<in> set (q' b)) \<longleftrightarrow> t = me \<or> (\<exists>b. t \<in> set (q b)))"
proof -
  let ?L = "ensureHashtable L" and ?i = "bucketIndex a (length (spine (ensureHashtable L)))"
  note e = ensureHashtable_wf [OF w]
  have i: "?i < length (spine ?L)" using e(2) by (simp add: bucketIndex_def)
  obtain b L1 where eb: "ensureBucket alloc ?i ?L = (b, L1)" by fastforce
  note en = ensureBucket_wf [OF e(1) fresh i eb]
  have th: "threads L1 = threads L" and len: "length (spine L1) = length (spine ?L)" using en(3) e(3) by (auto simp: grows_def)
  have live: "b \<in> set (liveBuckets L1)" by (rule tableWfD(1) [OF en(1,2)])
  have nx: "nextInQueue (threads L1 me) = None" by (rule tableWfD(7) [OF en(1) me(1)])
  obtain h v where p: "parkEnqueue a True me (threads L1) (bucketAt L1 b) = Inr (h, v, True)" "isQueue h v (q b @ [me])"
      "\<And>t. td_address (h t) = (if t = me then a else td_address (threads L1 t))" "\<And>t. t \<notin> set (q b @ [me]) \<Longrightarrow> h t = threads L1 t"
    using parkEnqueue_refines [OF tableWfD(4) [OF en(1) live] me(1) _ nx a] me(2) by (auto simp: th)
  have j: "tableWf (setBucket L1 h b v) (q(b := q b @ [me]))"
      "parkedOn (setBucket L1 h b v) (q(b := q b @ [me])) a' = parkedOn L1 q a' @ (if a' = a then [me] else [])" for a'
    using join_wf [OF en(1,2) me(1) p(2)] p(3,4) a len by auto
  have "parkedOn L1 q a' = parkedOn L q a'" for a' using parkedOn_grows [OF e(1) en(1,3)] e(4) by simp
  moreover have "lotPark alloc a True me L = Inr (setBucket L1 h b v, True)" using eb p(1) by (simp add: lotPark_def Let_def)
  moreover have "(\<exists>c. t \<in> set ((q(b := q b @ [me])) c)) \<longleftrightarrow> t = me \<or> (\<exists>c. t \<in> set (q c))" for t unfolding members_upd by auto
  ultimately show ?thesis using j p(3) th by (intro exI [of _ "setBucket L1 h b v"] exI [of _ "q(b := q b @ [me])"]) simp
qed

lemma waitingOn_filter:
  assumes "\<And>t. t \<in> set xs \<Longrightarrow> td_address (h t) = (if t \<in> W then 0 else td_address (h' t))" and "a \<noteq> 0"
  shows "waitingOn h a (filter (\<lambda>t. t \<notin> W) xs) = filter (\<lambda>t. t \<notin> W) (waitingOn h' a xs)"
  using assms by (induction xs) (auto simp: waitingOn_def)

lemma leave_wf:
  assumes w: "tableWf L q" and p: "placed L i b" and v: "isQueue h v (filter (\<lambda>t. t \<notin> W) (q b))" and W: "W \<subseteq> set (q b)"
    and A: "\<And>u. td_address (h u) = (if u \<in> W then 0 else td_address (threads L u))" and same: "\<And>u. u \<notin> set (q b) \<Longrightarrow> h u = threads L u"
    and nx: "\<And>u. u \<in> W \<Longrightarrow> nextInQueue (h u) = None"
  shows "tableWf (setBucket L h b v) (q(b := filter (\<lambda>t. t \<notin> W) (q b)))"
    and "a \<noteq> 0 \<Longrightarrow> parkedOn (setBucket L h b v) (q(b := filter (\<lambda>t. t \<notin> W) (q b))) a = filter (\<lambda>t. t \<notin> W) (parkedOn L q a)"
proof -
  have others: "u \<notin> set (q b)" if "c \<noteq> b" "u \<in> set (q c)" for c u using tableWfD(5) [OF w that(2), of b] that(1) by blast
  show "tableWf (setBucket L h b v) (q(b := filter (\<lambda>t. t \<notin> W) (q b)))"
  proof (rule setBucket_wf [OF w v])
    show "td_address (h u) \<noteq> 0 \<and> bucketIndex (td_address (h u)) (length (spine L)) = j" if "placed L j b" "u \<in> set (filter (\<lambda>t. t \<notin> W) (q b))" for j u
      using that tableWfD(6) [OF w that(1), of u] A [of u] by auto
    show "nextInQueue (h u) = None" if "u \<notin> set (filter (\<lambda>t. t \<notin> W) (q b))" "\<And>c. c \<noteq> b \<Longrightarrow> u \<notin> set (q c)" for u
    proof (cases "u \<in> W")
      case False
      then have "u \<notin> set (q b)" using that(1) by auto
      moreover have "u \<notin> set (q c)" for c using that(2) [of c] calculation by (cases "c = b") auto
      ultimately show ?thesis using tableWfD(7) [OF w, of u] same by simp
    qed (rule nx)
  qed (use p others same in auto)
  assume a: "a \<noteq> 0"
  let ?j = "bucketIndex a (length (spine L))"
  have ne: "spine L \<noteq> []" using p by (auto simp: placed_def)
  have keep: "waitingOn h a (q c) = filter (\<lambda>t. t \<notin> W) (waitingOn (threads L) a (q c))" if "c \<noteq> b" for c
  proof -
    have "t \<notin> W" if "t \<in> set (q c)" for t using others [OF \<open>c \<noteq> b\<close> that] W by blast
    then have "waitingOn h a (q c) = waitingOn (threads L) a (q c)" "filter (\<lambda>t. t \<notin> W) (waitingOn (threads L) a (q c)) = waitingOn (threads L) a (q c)"
      using A by (auto simp: waitingOn_def intro!: filter_cong filter_True)
    then show ?thesis by simp
  qed
  show "parkedOn (setBucket L h b v) (q(b := filter (\<lambda>t. t \<notin> W) (q b))) a = filter (\<lambda>t. t \<notin> W) (parkedOn L q a)"
    using ne keep waitingOn_filter [of "q b" h W "threads L", OF A a] by (auto simp: parkedOn_def split: option.splits)
qed

lemma filter_take_drop: "distinct xs \<Longrightarrow> filter (\<lambda>t. t \<notin> set (take n xs)) xs = drop n xs"
proof (induction xs arbitrary: n)
  case (Cons x xs)
  show ?case
  proof (cases n)
    case (Suc m)
    have "filter (\<lambda>t. t \<noteq> x \<and> t \<notin> set (take m xs)) xs = filter (\<lambda>t. t \<notin> set (take m xs)) xs" using Cons.prems by (intro filter_cong) auto
    then show ?thesis using Cons Suc by simp
  qed simp
qed simp
lemma unpark_bucket:
  assumes w: "tableWf L q" and p: "placed L (bucketIndex a (length (spine L))) b" and c: "0 < count" and a: "a \<noteq> 0"
    and ts_def: "ts = take count (parkedOn L q a)"
  shows "\<exists>h v h'. genericDequeue time delay (pickCount a count) (threads L) (bucketAt L b) [] = Some (Inr (h, v, ts)) \<and> wakeEach h ts = Inr h'
    \<and> (\<forall>t. td_address (h' t) = (if t \<in> set ts then 0 else td_address (threads L t)))
    \<and> tableWf (setBucket L h' b v) (q(b := filter (\<lambda>t. t \<notin> set ts) (q b)))
    \<and> (\<forall>a'. a' \<noteq> 0 \<longrightarrow> parkedOn (setBucket L h' b v) (q(b := filter (\<lambda>t. t \<notin> set ts) (q b))) a' = filter (\<lambda>t. t \<notin> set ts) (parkedOn L q a'))
    \<and> distinct (parkedOn L q a) \<and> (\<forall>t\<in>set ts. t \<in> set (q b) \<and> td_address (threads L t) = a)"
proof -
  have ne: "spine L \<noteq> []" using p by (auto simp: placed_def)
  have po: "parkedOn L q a = waitingOn (threads L) a (q b)" using p ne unfolding parkedOn_def placed_def by simp
  have qb: "isQueue (threads L) (bucketAt L b) (q b)" using tableWfD(1,4) [OF w] p by blast
  note pc = pickCount_dequeues [OF qb c ts_def [unfolded po]]
  obtain h v where g: "genericDequeue time delay (pickCount a count) (threads L) (bucketAt L b) [] = Some (Inr (h, v, ts))"
      "isQueue h v (filter (\<lambda>t. t \<notin> set ts) (q b))" "sameData (threads L) h" "\<forall>x\<in>set ts. nextInQueue (h x) = None" "\<forall>t. t \<notin> set (q b) \<longrightarrow> h t = threads L t"
    using pc(3) [of time delay] by blast
  obtain h2 where wk: "wakeEach h ts = Inr h2" "\<And>t. h2 t = (if t \<in> set ts then (h t)\<lparr>td_address := 0\<rparr> else h t)"
    using wakeEach_all [of ts h] pc(1,2) g(3) a by (auto simp: sameData_def)
  have q2: "isQueue h2 v (filter (\<lambda>t. t \<notin> set ts) (q b))" by (rule isQueue_cong [OF g(2)]) (simp add: wk(2))
  have sub: "set ts \<subseteq> set (q b)" using pc(2) by auto
  have A: "td_address (h2 u) = (if u \<in> set ts then 0 else td_address (threads L u))" for u using wk(2) g(3) by (simp add: sameData_def)
  have same: "h2 u = threads L u" if "u \<notin> set (q b)" for u using that sub wk(2) [of u] g(5) by auto
  have nx: "nextInQueue (h2 u) = None" if "u \<in> set ts" for u using that g(4) wk(2) [of u] by simp
  have "distinct (q b)" using qb by (simp add: isQueue_def)
  then have "distinct (parkedOn L q a)" unfolding po waitingOn_def by simp
  moreover note lv = leave_wf [OF w p q2 sub A same nx]
  ultimately show ?thesis using g(1) wk(1) A lv pc(2) by (intro exI [of _ h] exI [of _ v] exI [of _ h2] conjI allI impI) assumption+
qed

lemma lotUnparkCount_refines:
  assumes w: "tableWf L q" and a: "a \<noteq> 0"
  shows "\<exists>L' q'. lotUnparkCount alloc time delay a count L = Some (Inr (L', min count (length (parkedOn L q a)))) \<and> tableWf L' q'
    \<and> (\<forall>a'. a' \<noteq> 0 \<longrightarrow> parkedOn L' q' a' = (if a' = a then drop count (parkedOn L q a) else parkedOn L q a'))
    \<and> (\<forall>t. td_address (threads L' t) = (if t \<in> set (take count (parkedOn L q a)) then 0 else td_address (threads L t)))
    \<and> (\<forall>t. (\<exists>b. t \<in> set (q' b)) \<longleftrightarrow> (\<exists>b. t \<in> set (q b)) \<and> t \<notin> set (take count (parkedOn L q a)))"
proof (cases "count = 0")
  case True
  then show ?thesis using w by (intro exI [of _ L] exI [of _ q]) (auto simp: lotUnparkCount_def)
next
  case False
  then have pos: "0 < count" by simp
  let ?L = "ensureHashtable L" and ?i = "bucketIndex a (length (spine (ensureHashtable L)))"
  note e = ensureHashtable_wf [OF w]
  have i: "?i < length (spine ?L)" using e(2) by (simp add: bucketIndex_def)
  show ?thesis
  proof (cases "spine ?L ! ?i")
    case None
    then have "parkedOn ?L q a = []" using e(2) by (simp add: parkedOn_def)
    moreover have "lotUnparkCount alloc time delay a count L = Some (Inr (?L\<lparr>threads := threads ?L\<rparr>, 0))" using None pos by (simp add: lotUnparkCount_def lotDequeue_def Let_def)
    ultimately show ?thesis using e by (intro exI [of _ ?L] exI [of _ q]) auto
  next
    case (Some b)
    have p: "placed ?L ?i b" using i Some by (simp add: placed_def)
    define ts where "ts = take count (parkedOn ?L q a)"
    obtain h v h2 where u: "genericDequeue time delay (pickCount a count) (threads ?L) (bucketAt ?L b) [] = Some (Inr (h, v, ts))" "wakeEach h ts = Inr h2"
        "\<forall>t. td_address (h2 t) = (if t \<in> set ts then 0 else td_address (threads ?L t))" "tableWf (setBucket ?L h2 b v) (q(b := filter (\<lambda>t. t \<notin> set ts) (q b)))"
        "\<forall>a'. a' \<noteq> 0 \<longrightarrow> parkedOn (setBucket ?L h2 b v) (q(b := filter (\<lambda>t. t \<notin> set ts) (q b))) a' = filter (\<lambda>t. t \<notin> set ts) (parkedOn ?L q a')"
        "distinct (parkedOn ?L q a)" "\<forall>t\<in>set ts. t \<in> set (q b) \<and> td_address (threads ?L t) = a"
      using unpark_bucket [OF e(1) p pos a ts_def, of time delay] by metis
    let ?L' = "setBucket ?L h2 b v" and ?q = "q(b := filter (\<lambda>t. t \<notin> set ts) (q b))"
    have eb: "ensureBucket alloc ?i ?L = (b, ?L)" using Some by (simp add: ensureBucket_def)
    have run: "lotUnparkCount alloc time delay a count L = Some (Inr (?L', length ts))"
      using pos Some u(1,2) by (simp add: lotUnparkCount_def lotDequeue_def Let_def eb) (simp add: setBucket_def)
    have "parkedOn ?L' ?q a = drop count (parkedOn ?L q a)" using u(5) a filter_take_drop [OF u(6)] by (simp add: ts_def)
    moreover have "parkedOn ?L' ?q a' = parkedOn ?L q a'" if "a' \<noteq> 0" "a' \<noteq> a" for a'
    proof -
      have "td_address (threads ?L t) = a'" if "t \<in> set (parkedOn ?L q a')" for t using that by (auto simp: parkedOn_def waitingOn_def split: if_splits option.splits)
      then have "t \<notin> set ts" if "t \<in> set (parkedOn ?L q a')" for t using that u(7) \<open>a' \<noteq> a\<close> by auto
      then show ?thesis using u(5) that(1) by (simp add: filter_True)
    qed
    moreover have "(\<exists>c. t \<in> set (?q c)) \<longleftrightarrow> (\<exists>c. t \<in> set (q c)) \<and> t \<notin> set ts" for t
    proof (cases "t \<in> set (q b)")
      case True
      then have "t \<notin> set (q c)" if "c \<noteq> b" for c using tableWfD(5) [OF w True, of c] that by blast
      then show ?thesis unfolding members_upd using True by auto
    next
      case False
      then have "t \<notin> set ts" using u(7) by blast
      then show ?thesis unfolding members_upd using False by (metis filter_is_subset subsetD)
    qed
    ultimately show ?thesis using run u(3,4) unfolding ts_def e(3,4)
      by (intro exI [of _ ?L'] exI [of _ ?q]) (simp add: ts_def e(4) min.commute)
  qed
qed

section \<open>The contract of the parking lot\<close>

text \<open>
  Running a sequence of operations, and the same sequence on the specification: a queue per address, of which resizing knows nothing.
\<close>

fun runAll :: "('op \<Rightarrow> 's \<Rightarrow> ('e, 's \<times> nat) result option) \<Rightarrow> 'op list \<Rightarrow> 's \<Rightarrow> ('e, 's \<times> nat list) result option" where
  "runAll step [] s = Some (Inr (s, []))"
| "runAll step (op # ops) s =
     (case step op s of
        None \<Rightarrow> None
      | Some (Inl e) \<Rightarrow> Some (Inl e)
      | Some (Inr (s, n)) \<Rightarrow>
          (case runAll step ops s of
             None \<Rightarrow> None
           | Some (Inl e) \<Rightarrow> Some (Inl e)
           | Some (Inr (s, ns)) \<Rightarrow> Some (Inr (s, n # ns))))"

fun specAll :: "('op \<Rightarrow> 'q \<Rightarrow> 'q \<times> nat) \<Rightarrow> 'op list \<Rightarrow> 'q \<Rightarrow> 'q \<times> nat list" where
  "specAll spec [] Q = (Q, [])"
| "specAll spec (op # ops) Q = (case spec op Q of (Q, n) \<Rightarrow> (case specAll spec ops Q of (Q, ns) \<Rightarrow> (Q, n # ns)))"

fun legalAll :: "('op \<Rightarrow> 'q \<Rightarrow> 'q \<times> nat) \<Rightarrow> ('q \<Rightarrow> 'op \<Rightarrow> bool) \<Rightarrow> 'op list \<Rightarrow> 'q \<Rightarrow> bool" where
  "legalAll spec legal [] Q = True"
| "legalAll spec legal (op # ops) Q = (legal Q op \<and> legalAll spec legal ops (fst (spec op Q)))"

locale queue_service =
  fixes step :: "'op \<Rightarrow> 's \<Rightarrow> ('e, 's \<times> nat) result option" and spec :: "'op \<Rightarrow> 'q \<Rightarrow> 'q \<times> nat"
    and legal :: "'q \<Rightarrow> 'op \<Rightarrow> bool" and rep :: "'s \<Rightarrow> 'q \<Rightarrow> bool"
  assumes step_refines: "rep s Q \<Longrightarrow> legal Q op \<Longrightarrow> \<exists>s'. step op s = Some (Inr (s', snd (spec op Q))) \<and> rep s' (fst (spec op Q))"
begin

lemma all_refine:
  "rep s Q \<Longrightarrow> legalAll spec legal ops Q \<Longrightarrow> \<exists>s'. runAll step ops s = Some (Inr (s', snd (specAll spec ops Q))) \<and> rep s' (fst (specAll spec ops Q))"
proof (induction ops arbitrary: s Q)
  case (Cons op ops)
  obtain s1 where 1: "step op s = Some (Inr (s1, snd (spec op Q)))" "rep s1 (fst (spec op Q))" using step_refines [OF Cons.prems(1)] Cons.prems(2) by auto
  obtain s2 where "runAll step ops s1 = Some (Inr (s2, snd (specAll spec ops (fst (spec op Q)))))" "rep s2 (fst (specAll spec ops (fst (spec op Q))))"
    using Cons.IH [OF 1(2)] Cons.prems(2) by auto
  then show ?case using 1(1) by (auto split: prod.splits)
qed simp

end

datatype lotOp = Park address tid | Unpark int int address nat | Grow "nat \<Rightarrow> int" "nat \<Rightarrow> int" "32 word"

fun runOp :: "allocator \<Rightarrow> lotOp \<Rightarrow> lotTable \<Rightarrow> (lot_error, lotTable \<times> nat) result option" where
  "runOp alloc (Park a t) L = Some (andThen (lotPark alloc a True t L) (\<lambda>(L, _). Inr (L, 0)))"
| "runOp alloc (Unpark time delay a count) L = lotUnparkCount alloc time delay a count L"
| "runOp alloc (Grow now rnd n) L =
     (case ensureHashtableSize alloc now rnd n L of None \<Rightarrow> None | Some r \<Rightarrow> Some (andThen r (\<lambda>L. Inr (L, 0))))"

fun specOp :: "lotOp \<Rightarrow> (address \<Rightarrow> tid list) \<Rightarrow> (address \<Rightarrow> tid list) \<times> nat" where
  "specOp (Park a t) Q = (Q(a := Q a @ [t]), 0)"
| "specOp (Unpark _ _ a count) Q = (Q(a := drop count (Q a)), min count (length (Q a)))"
| "specOp (Grow _ _ _) Q = (Q, 0)"

fun legalOp :: "(address \<Rightarrow> tid list) \<Rightarrow> lotOp \<Rightarrow> bool" where
  "legalOp Q (Park a t) = (a \<noteq> 0 \<and> (\<forall>a'. t \<notin> set (Q a')))"
| "legalOp Q (Unpark _ _ a _) = (a \<noteq> 0)"
| "legalOp Q (Grow _ _ n) = (unat n * 6 < 2 ^ 32)"

definition lotRep :: "allocator \<Rightarrow> lotTable \<Rightarrow> (address \<Rightarrow> tid list) \<Rightarrow> bool" where
  "lotRep alloc L Q \<longleftrightarrow> (\<forall>bs. alloc bs \<notin> set bs)
     \<and> (\<exists>q. tableWf L q \<and> (\<forall>a. a \<noteq> 0 \<longrightarrow> parkedOn L q a = Q a) \<and> (\<forall>t. td_address (threads L t) \<noteq> 0 \<longrightarrow> (\<exists>b. t \<in> set (q b))))"

lemma member_parked:
  assumes w: "tableWf L q" and t: "t \<in> set (q b)"
  shows "td_address (threads L t) \<noteq> 0" and "t \<in> set (parkedOn L q (td_address (threads L t)))"
proof -
  have "q b \<noteq> []" using t by auto
  then obtain i where i: "placed L i b" using tableWfD(3) [OF w] by blast
  note a = tableWfD(6) [OF w i t]
  show "td_address (threads L t) \<noteq> 0" using a by simp
  have "spine L \<noteq> []" "spine L ! bucketIndex (td_address (threads L t)) (length (spine L)) = Some b" using i a by (auto simp: placed_def)
  then show "t \<in> set (parkedOn L q (td_address (threads L t)))" using t by (simp add: parkedOn_def waitingOn_def)
qed

interpretation lot: queue_service "runOp alloc" specOp legalOp "lotRep alloc" for alloc
proof
  fix L Q op
  assume r: "lotRep alloc L Q" and l: "legalOp Q op"
  have fresh: "\<And>bs. alloc bs \<notin> set bs" using r by (simp add: lotRep_def)
  obtain q where w: "tableWf L q" and Q: "\<And>a. a \<noteq> 0 \<Longrightarrow> parkedOn L q a = Q a" and m: "\<And>t. td_address (threads L t) \<noteq> 0 \<Longrightarrow> \<exists>b. t \<in> set (q b)"
    using r by (auto simp: lotRep_def)
  show "\<exists>L'. runOp alloc op L = Some (Inr (L', snd (specOp op Q))) \<and> lotRep alloc L' (fst (specOp op Q))"
  proof (cases op)
    case (Park a t)
    have t: "t \<notin> set (q b)" for b using member_parked [OF w, of t b] l Q by (auto simp: Park)
    then have "td_address (threads L t) = 0" using m by blast
    then obtain L' q' where "lotPark alloc a True t L = Inr (L', True)" "tableWf L' q'"
        "\<forall>a'. parkedOn L' q' a' = parkedOn L q a' @ (if a' = a then [t] else [])"
        "\<forall>u. td_address (threads L' u) = (if u = t then a else td_address (threads L u))" "\<forall>u. (\<exists>b. u \<in> set (q' b)) \<longleftrightarrow> u = t \<or> (\<exists>b. u \<in> set (q b))"
      using lotPark_refines [OF w fresh t, of a] l by (auto simp: Park)
    then show ?thesis using Park Q m fresh unfolding lotRep_def by (intro exI [of _ L']) (auto intro!: exI [of _ q'])
  next
    case (Unpark time delay a count)
    then obtain L' q' where u: "lotUnparkCount alloc time delay a count L = Some (Inr (L', min count (length (Q a))))" "tableWf L' q'"
        "\<forall>a'. a' \<noteq> 0 \<longrightarrow> parkedOn L' q' a' = (if a' = a then drop count (Q a) else parkedOn L q a')"
        "\<forall>t. td_address (threads L' t) = (if t \<in> set (take count (Q a)) then 0 else td_address (threads L t))"
        "\<forall>t. (\<exists>b. t \<in> set (q' b)) \<longleftrightarrow> (\<exists>b. t \<in> set (q b)) \<and> t \<notin> set (take count (Q a))"
      using lotUnparkCount_refines [OF w, of a alloc time delay count] l Q [of a] by auto
    then show ?thesis using Unpark Q m fresh unfolding lotRep_def by (intro exI [of _ L']) (auto intro!: exI [of _ q'])
  next
    case (Grow now rnd n)
    then obtain L' q' where "ensureHashtableSize alloc now rnd n L = Some (Inr L')" "tableWf L' q'" "sameData (threads L) (threads L')"
        "parkedOn L' q' = parkedOn L q" "\<forall>t. (\<exists>b. t \<in> set (q' b)) \<longleftrightarrow> (\<exists>b. t \<in> set (q b))"
      using ensureHashtableSize_refines [OF w fresh, of n now rnd] l by auto
    then show ?thesis using Grow Q m fresh unfolding lotRep_def by (intro exI [of _ L']) (auto simp: sameData_def intro!: exI [of _ q'])
  qed
qed

definition emptyLot :: lotTable where
  "emptyLot = \<lparr>spine = [], bucketAt = (\<lambda>_. \<lparr>queueHead = None, queueTail = None, nextFairTime = 0\<rparr>), liveBuckets = [],
     threads = (\<lambda>_. \<lparr>td_address = 0, nextInQueue = None, td_token = 0\<rparr>)\<rparr>"

lemma emptyLot_rep: "(\<And>bs. alloc bs \<notin> set bs) \<Longrightarrow> lotRep alloc emptyLot (\<lambda>_. [])"
  unfolding lotRep_def by (auto intro!: exI [of _ "\<lambda>_. []"] tableWfI simp: emptyLot_def placed_def parkedOn_def)

lemma bump_fresh: "Suc (foldr max bs 0) \<notin> set bs"
proof -
  have "b \<le> foldr max bs 0" if "b \<in> set bs" for b using that by (induction bs) (auto simp: max.coboundedI2)
  then show ?thesis by (metis Suc_n_not_le_n)
qed

text \<open>
  C30. The parking lot with its hash table refines a queue per address: for every sequence of parking, unparking a number of threads and
  growing the table for a number of threads, from the empty table, with any allocator that returns a bucket that is not in use, the code
  returns, no assertion fails, and each operation reports what the queues report. In particular growing the table, which moves all
  threads to new buckets, keeps the order of the threads parked on each address. The sequence has to be legal: a thread that parks is not
  parked already, addresses are not null, and six times the number of threads is less than \<open>2\<^sup>3\<^sup>2\<close>, beyond which the new size
  \<^verbatim>\<open>numThreads * growthFactor * maxLoadFactor\<close> wraps around.
\<close>

theorem parking_lot_refines_queues:
  assumes "\<And>bs. alloc bs \<notin> set bs" and "legalAll specOp legalOp ops (\<lambda>_. [])"
  shows "\<exists>L. runAll (runOp alloc) ops emptyLot = Some (Inr (L, snd (specAll specOp ops (\<lambda>_. [])))) \<and> lotRep alloc L (fst (specAll specOp ops (\<lambda>_. [])))"
  by (rule lot.all_refine [OF emptyLot_rep [OF assms(1)] assms(2)])

theorem parking_lot_refines_queues_witness:
  "\<exists>L. runAll (runOp (\<lambda>bs. Suc (foldr max bs 0))) [Park 8 1, Park 16 2, Park 8 3, Grow (\<lambda>_. 0) (\<lambda>_. 0) 2, Unpark 0 0 8 1] emptyLot = Some (Inr (L, [0, 0, 0, 0, 1]))
     \<and> lotRep (\<lambda>bs. Suc (foldr max bs 0)) L (\<lambda>a. if a = 8 then [3] else if a = 16 then [2] else [])"
proof -
  have "(\<lambda>_. [])(8 := [3], 16 := [2 :: tid]) = (\<lambda>a :: address. if a = 8 then [3] else if a = 16 then [2] else [])" by auto
  then show ?thesis
    using parking_lot_refines_queues [of "\<lambda>bs. Suc (foldr max bs 0)" "[Park 8 1, Park 16 2, Park 8 3, Grow (\<lambda>_. 0) (\<lambda>_. 0) 2, Unpark 0 0 8 1]", OF bump_fresh]
    by (simp add: fun_upd_twist)
qed

end
