(* ===== verification/Red_Black_Tree.thy ===== *)
theory Red_Black_Tree
  imports Prelude
begin

text \<open>
  The red-black trees of \<^verbatim>\<open>wtf/RedBlackTree.h\<close>, on which the allocator of executable memory keeps its free spaces. Nodes live in a store, a
  pointer is a 64-bit address with 0 as the null pointer, and the colour is the least significant bit of the word that holds the parent, as in the
  code. Following a null pointer, \<^verbatim>\<open>ASSERT\<close> and \<^verbatim>\<open>RELEASE_ASSERT\<close> are errors. The loops count their iterations down from the depth that
  \<^verbatim>\<open>RELEASE_ASSERT(++depth <= s_maximumTreeDepth)\<close> allows. Code that is written twice, once with left and right exchanged, is one definition with a side.
\<close>

unbundle bit_operations_syntax


section \<open>Nodes\<close>

type_synonym ptr = "64 word"

datatype color = Red | Black

datatype side = LeftSide | RightSide

fun other :: "side \<Rightarrow> side" where
  "other LeftSide = RightSide"
| "other RightSide = LeftSide"

record 'k rbNode =
  m_left :: ptr
  m_right :: ptr
  m_parentAndRed :: "64 word"
  key :: 'k

definition resetNode :: "'k rbNode \<Rightarrow> 'k rbNode" where
  "resetNode n = n\<lparr>m_left := 0, m_right := 0, m_parentAndRed := 1\<rparr>"

definition parentOf :: "'k rbNode \<Rightarrow> ptr" where
  "parentOf n = m_parentAndRed n AND NOT 1"

definition withParent :: "ptr \<Rightarrow> 'k rbNode \<Rightarrow> 'k rbNode" where
  "withParent newParent n = n\<lparr>m_parentAndRed := newParent OR (m_parentAndRed n AND 1)\<rparr>"

definition colorOf :: "'k rbNode \<Rightarrow> color" where
  "colorOf n = (if m_parentAndRed n AND 1 \<noteq> 0 then Red else Black)"

definition withColor :: "color \<Rightarrow> 'k rbNode \<Rightarrow> 'k rbNode" where
  "withColor v n = (if v = Red then n\<lparr>m_parentAndRed := m_parentAndRed n OR 1\<rparr> else n\<lparr>m_parentAndRed := m_parentAndRed n AND NOT 1\<rparr>)"

text \<open>\<^verbatim>\<open>left\<close> and \<^verbatim>\<open>right\<close>, \<^verbatim>\<open>setLeft\<close> and \<^verbatim>\<open>setRight\<close>.\<close>

fun childOf :: "side \<Rightarrow> 'k rbNode \<Rightarrow> ptr" where
  "childOf LeftSide n = m_left n"
| "childOf RightSide n = m_right n"

fun withChild :: "side \<Rightarrow> ptr \<Rightarrow> 'k rbNode \<Rightarrow> 'k rbNode" where
  "withChild LeftSide c n = n\<lparr>m_left := c\<rparr>"
| "withChild RightSide c n = n\<lparr>m_right := c\<rparr>"


section \<open>The store\<close>

record 'k rbTree =
  nodes :: "ptr \<Rightarrow> 'k rbNode"
  m_root :: ptr

datatype rb_error = NullDereference | AssertionFailed | ReleaseAssertFailed

definition check :: "rb_error \<Rightarrow> bool \<Rightarrow> (rb_error, unit) result" where
  "check e b = (if b then Inr () else Inl e)"

text \<open>Reading a field and writing a node through a pointer.\<close>

definition load :: "('k rbNode \<Rightarrow> 'a) \<Rightarrow> 'k rbTree \<Rightarrow> ptr \<Rightarrow> (rb_error, 'a) result" where
  "load f t p = (if p = 0 then Inl NullDereference else Inr (f (nodes t p)))"

definition modify :: "('k rbNode \<Rightarrow> 'k rbNode) \<Rightarrow> 'k rbTree \<Rightarrow> ptr \<Rightarrow> (rb_error, 'k rbTree) result" where
  "modify f t p = (if p = 0 then Inl NullDereference else Inr (t\<lparr>nodes := (nodes t)(p := f (nodes t p))\<rparr>))"

text \<open>A null pointer counts as black in the tests for a black child.\<close>

definition nullOrBlack :: "'k rbTree \<Rightarrow> ptr \<Rightarrow> (rb_error, bool) result" where
  "nullOrBlack t p = (if p = 0 then Inr True else andThen (load colorOf t p) (\<lambda>c. Inr (c = Black)))"

definition modifyIfNotNull :: "('k rbNode \<Rightarrow> 'k rbNode) \<Rightarrow> 'k rbTree \<Rightarrow> ptr \<Rightarrow> (rb_error, 'k rbTree) result" where
  "modifyIfNotNull f t p = (if p = 0 then Inr t else modify f t p)"

definition s_maximumTreeDepth :: nat where
  "s_maximumTreeDepth = 128"


section \<open>Rotations\<close>

text \<open>The parent \<open>p\<close> of \<open>x\<close>, or the root, gets \<open>y\<close> in the place of \<open>x\<close>.\<close>

definition replaceChild :: "'k rbTree \<Rightarrow> ptr \<Rightarrow> ptr \<Rightarrow> ptr \<Rightarrow> (rb_error, 'k rbTree) result" where
  "replaceChild t p x y =
     (if p = 0 then Inr (t\<lparr>m_root := y\<rparr>)
      else andThen (load m_left t p) (\<lambda>l.
        if x = l then modify (withChild LeftSide y) t p else modify (withChild RightSide y) t p))"

definition rotate :: "side \<Rightarrow> 'k rbTree \<Rightarrow> ptr \<Rightarrow> (rb_error, ptr \<times> 'k rbTree) result" where
  "rotate s t x =
     andThen (load (childOf (other s)) t x) (\<lambda>y.
     andThen (load (childOf s) t y) (\<lambda>c.
     andThen (modify (withChild (other s) c) t x) (\<lambda>t.
     andThen (load (childOf s) t y) (\<lambda>c.
     andThen (modifyIfNotNull (withParent x) t c) (\<lambda>t.
     andThen (load parentOf t x) (\<lambda>p.
     andThen (modify (withParent p) t y) (\<lambda>t.
     andThen (load parentOf t x) (\<lambda>p.
     andThen (replaceChild t p x y) (\<lambda>t.
     andThen (modify (withChild s x) t y) (\<lambda>t.
     andThen (modify (withParent y) t x) (\<lambda>t.
     Inr (y, t))))))))))))"

definition leftRotate :: "'k rbTree \<Rightarrow> ptr \<Rightarrow> (rb_error, ptr \<times> 'k rbTree) result" where
  "leftRotate = rotate LeftSide"

definition rightRotate :: "'k rbTree \<Rightarrow> ptr \<Rightarrow> (rb_error, ptr \<times> 'k rbTree) result" where
  "rightRotate = rotate RightSide"

text \<open>\<^verbatim>\<open>leftRotate\<close> on the left side, \<^verbatim>\<open>rightRotate\<close> in the exchanged code.\<close>

fun rotateTo :: "side \<Rightarrow> 'k rbTree \<Rightarrow> ptr \<Rightarrow> (rb_error, 'k rbTree) result" where
  "rotateTo LeftSide t x = andThen (leftRotate t x) (\<lambda>(_, t). Inr t)"
| "rotateTo RightSide t x = andThen (rightRotate t x) (\<lambda>(_, t). Inr t)"


section \<open>Insertion\<close>

text \<open>The loop of \<^verbatim>\<open>treeInsert\<close> with the variables \<open>y\<close> and \<open>x\<close>.\<close>

fun insertPosition :: "nat \<Rightarrow> 'k::linorder rbTree \<Rightarrow> ptr \<Rightarrow> ptr \<Rightarrow> ptr \<Rightarrow> (rb_error, ptr) result" where
  "insertPosition remaining t z y x =
     (if x = 0 then Inr y
      else case remaining of
        0 \<Rightarrow> Inl ReleaseAssertFailed
      | Suc remaining \<Rightarrow>
          andThen (load key t z) (\<lambda>kz.
          andThen (load key t x) (\<lambda>kx.
          andThen (load (if kz < kx then m_left else m_right) t x) (\<lambda>next.
          insertPosition remaining t z x next))))"

definition treeInsert :: "'k::linorder rbTree \<Rightarrow> ptr \<Rightarrow> (rb_error, 'k rbTree) result" where
  "treeInsert t z =
     andThen (load m_left t z) (\<lambda>l. andThen (check AssertionFailed (l = 0)) (\<lambda>_.
     andThen (load m_right t z) (\<lambda>r. andThen (check AssertionFailed (r = 0)) (\<lambda>_.
     andThen (load parentOf t z) (\<lambda>p. andThen (check AssertionFailed (p = 0)) (\<lambda>_.
     andThen (load colorOf t z) (\<lambda>c. andThen (check AssertionFailed (c = Red)) (\<lambda>_.
     andThen (insertPosition s_maximumTreeDepth t z 0 (m_root t)) (\<lambda>y.
     andThen (modify (withParent y) t z) (\<lambda>t.
     if y = 0 then Inr (t\<lparr>m_root := z\<rparr>)
     else andThen (load key t z) (\<lambda>kz.
          andThen (load key t y) (\<lambda>ky.
          if kz < ky then modify (withChild LeftSide z) t y else modify (withChild RightSide z) t y))))))))))))"

text \<open>Case 3: the new root of the subtree is the parent of \<open>x\<close>.\<close>

definition insertOuter :: "side \<Rightarrow> 'k rbTree \<Rightarrow> ptr \<Rightarrow> (rb_error, ptr \<times> 'k rbTree) result" where
  "insertOuter s t x =
     andThen (load parentOf t x) (\<lambda>p.
     andThen (modify (withColor Black) t p) (\<lambda>t.
     andThen (load parentOf t p) (\<lambda>g.
     andThen (modify (withColor Red) t g) (\<lambda>t.
     andThen (rotateTo (other s) t g) (\<lambda>t.
     Inr (x, t))))))"

text \<open>
  The body of the loop of \<^verbatim>\<open>insert\<close>: \<open>s\<close> is the side of the parent below the grandparent. The next \<open>x\<close> is returned with the tree.
\<close>

definition insertCase :: "side \<Rightarrow> 'k rbTree \<Rightarrow> ptr \<Rightarrow> (rb_error, ptr \<times> 'k rbTree) result" where
  "insertCase s t x =
     andThen (load parentOf t x) (\<lambda>p.
     andThen (load parentOf t p) (\<lambda>g.
     andThen (load (childOf (other s)) t g) (\<lambda>y.
     andThen (nullOrBlack t y) (\<lambda>yBlack.
     if \<not> yBlack
     then andThen (modify (withColor Black) t p) (\<lambda>t.
          andThen (modify (withColor Black) t y) (\<lambda>t.
          andThen (modify (withColor Red) t g) (\<lambda>t.
          Inr (g, t))))
     else andThen (load (childOf (other s)) t p) (\<lambda>c.
          andThen (if x = c then andThen (rotateTo s t p) (\<lambda>t. Inr (p, t)) else Inr (x, t)) (\<lambda>(x, t).
          insertOuter s t x))))))"

fun insertFixup :: "nat \<Rightarrow> 'k rbTree \<Rightarrow> ptr \<Rightarrow> (rb_error, 'k rbTree) result" where
  "insertFixup remaining t x =
     (if x = m_root t then Inr t
      else andThen (load parentOf t x) (\<lambda>p.
           andThen (load colorOf t p) (\<lambda>c.
           if c \<noteq> Red then Inr t
           else case remaining of
             0 \<Rightarrow> Inl ReleaseAssertFailed
           | Suc remaining \<Rightarrow>
               andThen (load parentOf t p) (\<lambda>g.
               andThen (load m_left t g) (\<lambda>l.
               andThen (insertCase (if p = l then LeftSide else RightSide) t x) (\<lambda>(x, t).
               insertFixup remaining t x))))))"

definition insertNode :: "'k::linorder rbTree \<Rightarrow> ptr \<Rightarrow> (rb_error, 'k rbTree) result" where
  "insertNode t x =
     andThen (modify resetNode t x) (\<lambda>t.
     andThen (treeInsert t x) (\<lambda>t.
     andThen (modify (withColor Red) t x) (\<lambda>t.
     andThen (insertFixup s_maximumTreeDepth t x) (\<lambda>t.
     modify (withColor Black) t (m_root t)))))"

section \<open>Searching\<close>

text \<open>\<^verbatim>\<open>treeMinimum\<close> on the left side and \<^verbatim>\<open>treeMaximum\<close> on the right side.\<close>

fun treeExtremum :: "side \<Rightarrow> nat \<Rightarrow> 'k rbTree \<Rightarrow> ptr \<Rightarrow> (rb_error, ptr) result" where
  "treeExtremum s remaining t x =
     andThen (load (childOf s) t x) (\<lambda>c.
     if c = 0 then Inr x
     else case remaining of 0 \<Rightarrow> Inl ReleaseAssertFailed | Suc remaining \<Rightarrow> treeExtremum s remaining t c)"

definition treeMinimum :: "'k rbTree \<Rightarrow> ptr \<Rightarrow> (rb_error, ptr) result" where
  "treeMinimum = treeExtremum LeftSide s_maximumTreeDepth"

definition treeMaximum :: "'k rbTree \<Rightarrow> ptr \<Rightarrow> (rb_error, ptr) result" where
  "treeMaximum = treeExtremum RightSide s_maximumTreeDepth"

text \<open>\<^verbatim>\<open>while (y && x == y->right())\<close>, and with the left child in \<^verbatim>\<open>predecessor\<close>.\<close>

fun climb :: "side \<Rightarrow> nat \<Rightarrow> 'k rbTree \<Rightarrow> ptr \<Rightarrow> ptr \<Rightarrow> (rb_error, ptr) result" where
  "climb s remaining t x y =
     (if y = 0 then Inr y
      else andThen (load (childOf s) t y) (\<lambda>c.
           if x \<noteq> c then Inr y
           else case remaining of
             0 \<Rightarrow> Inl ReleaseAssertFailed
           | Suc remaining \<Rightarrow> andThen (load parentOf t y) (\<lambda>p. climb s remaining t y p)))"

definition successor :: "'k rbTree \<Rightarrow> ptr \<Rightarrow> (rb_error, ptr) result" where
  "successor t x =
     andThen (load m_right t x) (\<lambda>r.
     if r \<noteq> 0 then treeMinimum t r
     else andThen (load parentOf t x) (\<lambda>y. climb RightSide s_maximumTreeDepth t x y))"

definition predecessor :: "'k rbTree \<Rightarrow> ptr \<Rightarrow> (rb_error, ptr) result" where
  "predecessor t x =
     andThen (load m_left t x) (\<lambda>l.
     if l \<noteq> 0 then treeMaximum t l
     else andThen (load parentOf t x) (\<lambda>y. climb LeftSide s_maximumTreeDepth t x y))"

fun findExactFrom :: "nat \<Rightarrow> 'k::linorder rbTree \<Rightarrow> 'k \<Rightarrow> ptr \<Rightarrow> (rb_error, ptr) result" where
  "findExactFrom remaining t k current =
     (if current = 0 then Inr 0
      else case remaining of
        0 \<Rightarrow> Inl ReleaseAssertFailed
      | Suc remaining \<Rightarrow>
          andThen (load key t current) (\<lambda>kc.
          if kc = k then Inr current
          else andThen (load (if k < kc then m_left else m_right) t current) (findExactFrom remaining t k)))"

definition findExact :: "'k::linorder rbTree \<Rightarrow> 'k \<Rightarrow> (rb_error, ptr) result" where
  "findExact t k = findExactFrom s_maximumTreeDepth t k (m_root t)"

fun findLeastFrom :: "nat \<Rightarrow> 'k::linorder rbTree \<Rightarrow> 'k \<Rightarrow> ptr \<Rightarrow> ptr \<Rightarrow> (rb_error, ptr) result" where
  "findLeastFrom remaining t k best current =
     (if current = 0 then Inr best
      else case remaining of
        0 \<Rightarrow> Inl ReleaseAssertFailed
      | Suc remaining \<Rightarrow>
          andThen (load key t current) (\<lambda>kc.
          if kc = k then Inr current
          else if kc < k then andThen (load m_right t current) (findLeastFrom remaining t k best)
          else andThen (load m_left t current) (findLeastFrom remaining t k current)))"

definition findLeastGreaterThanOrEqual :: "'k::linorder rbTree \<Rightarrow> 'k \<Rightarrow> (rb_error, ptr) result" where
  "findLeastGreaterThanOrEqual t k = findLeastFrom s_maximumTreeDepth t k 0 (m_root t)"

fun findGreatestFrom :: "nat \<Rightarrow> 'k::linorder rbTree \<Rightarrow> 'k \<Rightarrow> ptr \<Rightarrow> ptr \<Rightarrow> (rb_error, ptr) result" where
  "findGreatestFrom remaining t k best current =
     (if current = 0 then Inr best
      else case remaining of
        0 \<Rightarrow> Inl ReleaseAssertFailed
      | Suc remaining \<Rightarrow>
          andThen (load key t current) (\<lambda>kc.
          if kc = k then Inr current
          else if kc > k then andThen (load m_left t current) (findGreatestFrom remaining t k best)
          else andThen (load m_right t current) (findGreatestFrom remaining t k current)))"

definition findGreatestLessThanOrEqual :: "'k::linorder rbTree \<Rightarrow> 'k \<Rightarrow> (rb_error, ptr) result" where
  "findGreatestLessThanOrEqual t k = findGreatestFrom s_maximumTreeDepth t k 0 (m_root t)"

definition firstNode :: "'k rbTree \<Rightarrow> (rb_error, ptr) result" where
  "firstNode t = (if m_root t = 0 then Inr 0 else treeMinimum t (m_root t))"

definition lastNode :: "'k rbTree \<Rightarrow> (rb_error, ptr) result" where
  "lastNode t = (if m_root t = 0 then Inr 0 else treeMaximum t (m_root t))"

definition isEmptyTree :: "'k rbTree \<Rightarrow> bool" where
  "isEmptyTree t \<longleftrightarrow> m_root t = 0"

text \<open>The loop of \<^verbatim>\<open>size\<close> has no bound of its own: it may not return.\<close>

partial_function (option) countNodes :: "'k rbTree \<Rightarrow> ptr \<Rightarrow> nat \<Rightarrow> (rb_error, nat) result option" where
  "countNodes t current result =
     (if current = 0 then Some (Inr result)
      else case successor t current of
        Inl e \<Rightarrow> Some (Inl e)
      | Inr next \<Rightarrow> countNodes t next (result + 1))"

definition treeSize :: "'k rbTree \<Rightarrow> (rb_error, nat) result option" where
  "treeSize t = (case firstNode t of Inl e \<Rightarrow> Some (Inl e) | Inr current \<Rightarrow> countNodes t current 0)"


text \<open>
  The loop of \<^verbatim>\<open>iterate\<close>, whose end depends on the callback. The callback gets the node with the tree and a state of its own, and returns
  \<^verbatim>\<open>iterateLeft\<close> and \<^verbatim>\<open>iterateRight\<close> with the tree and its state. The last element of \<^verbatim>\<open>toIterate\<close> is the head of the list.
\<close>

definition pushChild :: "bool \<Rightarrow> ptr \<Rightarrow> ptr list \<Rightarrow> ptr list" where
  "pushChild wanted c toIterate = (if wanted \<and> c \<noteq> 0 then c # toIterate else toIterate)"

type_synonym ('k, 's) visitor = "ptr \<Rightarrow> 'k rbTree \<times> 's \<Rightarrow> bool \<times> bool \<times> 'k rbTree \<times> 's"

definition iterateStep :: "('k, 's) visitor \<Rightarrow> ptr \<Rightarrow> ptr list \<Rightarrow> 'k rbTree \<times> 's \<Rightarrow> (rb_error, ptr list \<times> 'k rbTree \<times> 's) result" where
  "iterateStep function current toIterate st =
     (case function current st of
        (iterateLeft, iterateRight, t, st) \<Rightarrow>
          andThen (load m_left t current) (\<lambda>l.
          andThen (load m_right t current) (\<lambda>r.
          Inr (pushChild iterateRight r (pushChild iterateLeft l toIterate), t, st))))"

partial_function (option) iterateLoop :: "('k, 's) visitor \<Rightarrow> nat \<Rightarrow> ptr list \<Rightarrow> 'k rbTree \<times> 's \<Rightarrow> (rb_error, 'k rbTree \<times> 's) result option" where
  "iterateLoop function count toIterate st =
     (case toIterate of
        [] \<Rightarrow> Some (Inr st)
      | current # toIterate \<Rightarrow>
          if \<not> count + 1 < 2 ^ 32 - 1 then Some (Inl ReleaseAssertFailed)
          else case iterateStep function current toIterate st of
            Inl e \<Rightarrow> Some (Inl e)
          | Inr (toIterate, st) \<Rightarrow> iterateLoop function (count + 1) toIterate st)"

definition iterateNodes :: "('k, 's) visitor \<Rightarrow> 'k rbTree \<Rightarrow> 's \<Rightarrow> (rb_error, 'k rbTree \<times> 's) result option" where
  "iterateNodes function t st = (if m_root t = 0 then Some (Inr (t, st)) else iterateLoop function 0 [m_root t] (t, st))"


section \<open>Removal\<close>

text \<open>Case 3 of the loop of \<^verbatim>\<open>removeFixup\<close>, for \<open>x\<close> on the side \<open>s\<close> of its parent: the next \<open>w\<close> is returned with the tree.\<close>

definition removeInner :: "side \<Rightarrow> 'k rbTree \<Rightarrow> ptr \<Rightarrow> ptr \<Rightarrow> (rb_error, ptr \<times> 'k rbTree) result" where
  "removeInner s t xParent w =
     andThen (load (childOf s) t w) (\<lambda>near.
     andThen (modify (withColor Black) t near) (\<lambda>t.
     andThen (modify (withColor Red) t w) (\<lambda>t.
     andThen (rotateTo (other s) t w) (\<lambda>t.
     andThen (load (childOf (other s)) t xParent) (\<lambda>w.
     Inr (w, t))))))"

text \<open>Case 4: the next \<open>x\<close> is the root. It and \<open>xParent\<close> are returned with the tree.\<close>

definition removeOuter :: "side \<Rightarrow> 'k rbTree \<Rightarrow> ptr \<Rightarrow> ptr \<Rightarrow> (rb_error, ptr \<times> ptr \<times> 'k rbTree) result" where
  "removeOuter s t xParent w =
     andThen (load colorOf t xParent) (\<lambda>c.
     andThen (modify (withColor c) t w) (\<lambda>t.
     andThen (modify (withColor Black) t xParent) (\<lambda>t.
     andThen (load (childOf (other s)) t w) (\<lambda>far.
     andThen (modifyIfNotNull (withColor Black) t far) (\<lambda>t.
     andThen (rotateTo s t xParent) (\<lambda>t.
     andThen (load parentOf t (m_root t)) (\<lambda>p.
     Inr (m_root t, p, t))))))))"

text \<open>Case 2 and the choice among cases 2 to 4.\<close>

definition removeSibling :: "side \<Rightarrow> 'k rbTree \<Rightarrow> ptr \<Rightarrow> ptr \<Rightarrow> (rb_error, ptr \<times> ptr \<times> 'k rbTree) result" where
  "removeSibling s t xParent w =
     andThen (load (childOf s) t w) (\<lambda>near.
     andThen (nullOrBlack t near) (\<lambda>nearBlack.
     andThen (load (childOf (other s)) t w) (\<lambda>far.
     andThen (if nearBlack then nullOrBlack t far else Inr False) (\<lambda>bothBlack.
     if bothBlack
     then andThen (modify (withColor Red) t w) (\<lambda>t.
          andThen (load parentOf t xParent) (\<lambda>p.
          Inr (xParent, p, t)))
     else andThen (nullOrBlack t far) (\<lambda>farBlack.
          andThen (if farBlack then removeInner s t xParent w else Inr (w, t)) (\<lambda>(w, t).
          removeOuter s t xParent w))))))"

text \<open>Case 1 and the body of the loop: the next \<open>x\<close> and \<open>xParent\<close> are returned with the tree.\<close>

definition removeCase :: "side \<Rightarrow> 'k rbTree \<Rightarrow> ptr \<Rightarrow> (rb_error, ptr \<times> ptr \<times> 'k rbTree) result" where
  "removeCase s t xParent =
     andThen (load (childOf (other s)) t xParent) (\<lambda>w.
     andThen (check AssertionFailed (w \<noteq> 0)) (\<lambda>_.
     andThen (load colorOf t w) (\<lambda>c.
     andThen (if c = Red
              then andThen (modify (withColor Black) t w) (\<lambda>t.
                   andThen (modify (withColor Red) t xParent) (\<lambda>t.
                   andThen (rotateTo s t xParent) (\<lambda>t.
                   andThen (load (childOf (other s)) t xParent) (\<lambda>w.
                   Inr (w, t)))))
              else Inr (w, t)) (\<lambda>(w, t).
     removeSibling s t xParent w))))"

fun removeFixupLoop :: "nat \<Rightarrow> 'k rbTree \<Rightarrow> ptr \<Rightarrow> ptr \<Rightarrow> (rb_error, ptr \<times> 'k rbTree) result" where
  "removeFixupLoop remaining t x xParent =
     (if x = m_root t then Inr (x, t)
      else andThen (nullOrBlack t x) (\<lambda>b.
           if \<not> b then Inr (x, t)
           else case remaining of
             0 \<Rightarrow> Inl ReleaseAssertFailed
           | Suc remaining \<Rightarrow>
               andThen (load m_left t xParent) (\<lambda>l.
               andThen (removeCase (if x = l then LeftSide else RightSide) t xParent) (\<lambda>(x, xParent, t).
               removeFixupLoop remaining t x xParent))))"

definition removeFixup :: "'k rbTree \<Rightarrow> ptr \<Rightarrow> ptr \<Rightarrow> (rb_error, 'k rbTree) result" where
  "removeFixup t x xParent =
     andThen (removeFixupLoop s_maximumTreeDepth t x xParent) (\<lambda>(x, t).
     modifyIfNotNull (withColor Black) t x)"

text \<open>Unlinking \<open>y\<close>: its only child \<open>x\<close>, or null, takes its place. The parent of \<open>x\<close> is returned.\<close>

definition unlinkNode :: "'k rbTree \<Rightarrow> ptr \<Rightarrow> (rb_error, ptr \<times> ptr \<times> 'k rbTree) result" where
  "unlinkNode t y =
     andThen (load m_left t y) (\<lambda>l.
     andThen (if l \<noteq> 0 then Inr l else load m_right t y) (\<lambda>x.
     andThen (load parentOf t y) (\<lambda>p.
     andThen (if x \<noteq> 0
              then andThen (modify (withParent p) t x) (\<lambda>t. andThen (load parentOf t x) (\<lambda>xParent. Inr (xParent, t)))
              else Inr (p, t)) (\<lambda>(xParent, t).
     andThen (load parentOf t y) (\<lambda>p.
     andThen (replaceChild t p y x) (\<lambda>t.
     Inr (x, xParent, t)))))))"

text \<open>\<open>y\<close> takes the place of \<open>z\<close>.\<close>

definition takePlace :: "'k rbTree \<Rightarrow> ptr \<Rightarrow> ptr \<Rightarrow> (rb_error, 'k rbTree) result" where
  "takePlace t y z =
     andThen (load parentOf t z) (\<lambda>p. andThen (modify (withParent p) t y) (\<lambda>t.
     andThen (load colorOf t z) (\<lambda>c. andThen (modify (withColor c) t y) (\<lambda>t.
     andThen (load m_left t z) (\<lambda>l. andThen (modify (withChild LeftSide l) t y) (\<lambda>t.
     andThen (load m_right t z) (\<lambda>r. andThen (modify (withChild RightSide r) t y) (\<lambda>t.
     andThen (load m_left t z) (\<lambda>l. andThen (modifyIfNotNull (withParent y) t l) (\<lambda>t.
     andThen (load m_right t z) (\<lambda>r. andThen (modifyIfNotNull (withParent y) t r) (\<lambda>t.
     andThen (load parentOf t z) (\<lambda>p.
     andThen (check AssertionFailed (p \<noteq> 0 \<or> m_root t = z)) (\<lambda>_.
     replaceChild t p z y))))))))))))))"

definition removeNode :: "'k rbTree \<Rightarrow> ptr \<Rightarrow> (rb_error, ptr \<times> 'k rbTree) result" where
  "removeNode t z =
     andThen (check AssertionFailed (z \<noteq> 0)) (\<lambda>_.
     andThen (load parentOf t z) (\<lambda>p.
     andThen (check AssertionFailed (p \<noteq> 0 \<or> z = m_root t)) (\<lambda>_.
     andThen (load m_left t z) (\<lambda>l.
     andThen (load m_right t z) (\<lambda>r.
     andThen (if l = 0 \<or> r = 0 then Inr z else successor t z) (\<lambda>y.
     andThen (unlinkNode t y) (\<lambda>(x, xParent, t).
     andThen (load colorOf t y) (\<lambda>c.
     andThen (if c = Black then removeFixup t x xParent else Inr t) (\<lambda>t.
     andThen (if y \<noteq> z then takePlace t y z else Inr t) (\<lambda>t.
     Inr (z, t)))))))))))"

text \<open>The node is null when no node has the key.\<close>

definition removeKey :: "'k::linorder rbTree \<Rightarrow> 'k \<Rightarrow> (rb_error, ptr \<times> 'k rbTree) result" where
  "removeKey t k = andThen (findExact t k) (\<lambda>result. if result = 0 then Inr (0, t) else removeNode t result)"

end
