(* ===== verification/Red_Black_Heap.thy ===== *)
theory Red_Black_Heap
  imports Red_Black_Tree
begin

text \<open>
  Trees in the store. A functional tree is the abstraction of the nodes reachable from a pointer; a path of frames, innermost first, is the
  abstraction of the rest of the tree around it. A state is described by such a zipper, the pointer at its hole and its parent. Every
  operation of the code is a change at the hole: colouring, rotating, linking and unlinking a node.
\<close>

unbundle bit_operations_syntax

declare insertPosition.simps [simp del] insertFixup.simps [simp del] treeExtremum.simps [simp del] climb.simps [simp del]
  findExactFrom.simps [simp del] findLeastFrom.simps [simp del] findGreatestFrom.simps [simp del] removeFixupLoop.simps [simp del]


section \<open>The packed word of a node\<close>

text \<open>Nodes are aligned: the least significant bit of their addresses is not set.\<close>

definition aligned :: "ptr \<Rightarrow> bool" where
  "aligned p \<longleftrightarrow> \<not> bit p 0"

lemma aligned_0 [simp]: "aligned 0"
  by (simp add: aligned_def)

lemma colorOf_bit: "colorOf n = (if bit (m_parentAndRed n) 0 then Red else Black)"
proof -
  have "m_parentAndRed n AND 1 = of_bool (bit (m_parentAndRed n) 0)" by (simp add: and_one_eq bit_0 mod2_eq_if)
  then show ?thesis by (simp add: colorOf_def)
qed

lemma packed_simps [simp]:
  "aligned p \<Longrightarrow> parentOf (withParent p n) = p" "aligned p \<Longrightarrow> colorOf (withParent p n) = colorOf n"
  "parentOf (withColor c n) = parentOf n" "colorOf (withColor c n) = c"
  "parentOf (resetNode n) = 0" "colorOf (resetNode n) = Red"
proof -
  show "aligned p \<Longrightarrow> parentOf (withParent p n) = p"
    by (auto simp: parentOf_def withParent_def aligned_def bit_simps intro!: bit_word_eqI) (metis gr0I)+
  show "aligned p \<Longrightarrow> colorOf (withParent p n) = colorOf n" by (simp add: colorOf_bit withParent_def aligned_def bit_simps)
  show "parentOf (withColor c n) = parentOf n"
    by (cases c) (auto simp: parentOf_def withColor_def bit_simps intro!: bit_word_eqI)
  show "colorOf (withColor c n) = c" by (cases c) (simp_all add: colorOf_bit withColor_def bit_simps)
  show "parentOf (resetNode n) = 0" "colorOf (resetNode n) = Red" by (simp_all add: parentOf_def colorOf_def resetNode_def)
qed

lemma node_field_simps [simp]:
  "m_left (withParent p n) = m_left n" "m_right (withParent p n) = m_right n" "key (withParent p n) = key n"
  "m_left (withColor c n) = m_left n" "m_right (withColor c n) = m_right n" "key (withColor c n) = key n"
  "m_left (resetNode n) = 0" "m_right (resetNode n) = 0" "key (resetNode n) = key n"
  "parentOf (withChild s p n) = parentOf n" "colorOf (withChild s p n) = colorOf n" "key (withChild s p n) = key n"
  by (cases s; simp add: withParent_def withColor_def resetNode_def parentOf_def colorOf_def)+

lemma child_simps [simp]:
  "childOf s (withChild s p n) = p" "childOf (other s) (withChild s p n) = childOf (other s) n" "childOf s (withChild (other s) p n) = childOf s n"
  "childOf s (withParent p n) = childOf s n" "childOf s (withColor c n) = childOf s n" "childOf s (resetNode n) = 0" "other (other s) = s" "other s \<noteq> s"
  by (cases s; simp)+


section \<open>Trees and zippers\<close>

datatype rbt = Lf | Nd color rbt ptr rbt

fun inorder :: "rbt \<Rightarrow> ptr list" where
  "inorder Lf = []"
| "inorder (Nd c l a r) = inorder l @ a # inorder r"

text \<open>A node given by its child on the side \<open>s\<close> and its child on the other side.\<close>

fun mk :: "side \<Rightarrow> color \<Rightarrow> rbt \<Rightarrow> ptr \<Rightarrow> rbt \<Rightarrow> rbt" where
  "mk LeftSide c u a v = Nd c u a v"
| "mk RightSide c u a v = Nd c v a u"

lemma mk_other: "mk (other s) c u a v = mk s c v a u"
  by (cases s) simp_all

lemma mk_neq_Lf [simp]: "mk s c u a v \<noteq> Lf" "Lf \<noteq> mk s c u a v"
  by (cases s; simp)+

lemma mk_inject [simp]: "mk s c u a v = mk s c' u' a' v' \<longleftrightarrow> c = c' \<and> u = u' \<and> a = a' \<and> v = v'"
  by (cases s) auto

lemma mk_cases: obtains "T = Lf" | c u a v where "T = mk s c u a v"
  by (cases T; cases s) auto

text \<open>A frame: the side of the hole, and the colour, the pointer and the other subtree of the parent.\<close>

type_synonym frame = "side \<times> color \<times> ptr \<times> rbt"

fun plug :: "frame list \<Rightarrow> rbt \<Rightarrow> rbt" where
  "plug [] T = T"
| "plug ((s, c, a, u) # fs) T = plug fs (mk s c T a u)"

lemma plug_append: "plug (fs @ gs) T = plug gs (plug fs T)"
  by (induction fs T rule: plug.induct) auto

text \<open>The pointers left and right of the hole.\<close>

fun before :: "frame list \<Rightarrow> ptr list" where
  "before [] = []"
| "before ((LeftSide, c, a, u) # fs) = before fs"
| "before ((RightSide, c, a, u) # fs) = before fs @ inorder u @ [a]"

fun after :: "frame list \<Rightarrow> ptr list" where
  "after [] = []"
| "after ((LeftSide, c, a, u) # fs) = a # inorder u @ after fs"
| "after ((RightSide, c, a, u) # fs) = after fs"

lemma before_append: "before (gs @ fs) = before fs @ before gs"
  by (induction gs rule: before.induct) auto

lemma after_append: "after (gs @ fs) = after gs @ after fs"
  by (induction gs rule: after.induct) auto

lemma inorder_plug: "inorder (plug fs T) = before fs @ inorder T @ after fs"
proof (induction fs T rule: plug.induct)
  case (2 s c a u fs T)
  then show ?case by (cases s) simp_all
qed simp

definition sequence :: "frame list \<Rightarrow> rbt \<Rightarrow> ptr list" where
  "sequence fs T = before fs @ inorder T @ after fs"

lemma sequence_frame [simp]: "sequence ((s, c, a, u) # fs) T = sequence fs (mk s c T a u)"
  by (cases s) (simp_all add: sequence_def)

lemma sequence_Nil [simp]: "sequence [] T = inorder T"
  by (simp add: sequence_def)

lemma sequence_rotate: "sequence fs (mk s c (mk s c' u x v) y w) = sequence fs (mk s d u x (mk s d' v y w))"
  by (cases s) (simp_all add: sequence_def)

lemma sequence_color: "sequence fs (mk s c u a v) = sequence fs (mk s c' u a v)"
  by (cases s) (simp_all add: sequence_def)


section \<open>Trees in the store\<close>

text \<open>The tree at the pointer \<open>p\<close>, whose parent is \<open>q\<close>.\<close>

fun treeAt :: "(ptr \<Rightarrow> 'k rbNode) \<Rightarrow> ptr \<Rightarrow> ptr \<Rightarrow> rbt \<Rightarrow> bool" where
  "treeAt h q p Lf \<longleftrightarrow> p = 0"
| "treeAt h q p (Nd c l a r) \<longleftrightarrow> p = a \<and> a \<noteq> 0 \<and> aligned a \<and> parentOf (h a) = q \<and> colorOf (h a) = c
     \<and> treeAt h a (m_left (h a)) l \<and> treeAt h a (m_right (h a)) r"

text \<open>The frames around the pointer \<open>p\<close>, whose parent is \<open>q\<close>, up to the root.\<close>

fun framesAt :: "(ptr \<Rightarrow> 'k rbNode) \<Rightarrow> ptr \<Rightarrow> ptr \<Rightarrow> ptr \<Rightarrow> frame list \<Rightarrow> bool" where
  "framesAt h root q p [] \<longleftrightarrow> p = root \<and> q = 0"
| "framesAt h root q p ((s, c, a, u) # fs) \<longleftrightarrow> q = a \<and> a \<noteq> 0 \<and> aligned a \<and> childOf s (h a) = p \<and> colorOf (h a) = c
     \<and> treeAt h a (childOf (other s) (h a)) u \<and> framesAt h root (parentOf (h a)) a fs"

definition zipperAt :: "'k rbTree \<Rightarrow> frame list \<Rightarrow> ptr \<Rightarrow> ptr \<Rightarrow> rbt \<Rightarrow> bool" where
  "zipperAt t fs q p T \<longleftrightarrow> framesAt (nodes t) (m_root t) q p fs \<and> treeAt (nodes t) q p T \<and> distinct (sequence fs T)"

lemma treeAt_mk [simp]:
  "treeAt h q p (mk s c u a v) \<longleftrightarrow> p = a \<and> a \<noteq> 0 \<and> aligned a \<and> parentOf (h a) = q \<and> colorOf (h a) = c
     \<and> treeAt h a (childOf s (h a)) u \<and> treeAt h a (childOf (other s) (h a)) v"
  by (cases s) auto

text \<open>Moving the hole.\<close>

lemma zipperAt_up: "zipperAt t ((s, c, a, u) # fs) q p T \<longleftrightarrow> q = a \<and> p = childOf s (nodes t a) \<and> zipperAt t fs (parentOf (nodes t a)) a (mk s c T a u)"
  by (auto simp: zipperAt_def)

lemma zipperAt_null: "zipperAt t fs q p T \<Longrightarrow> p = 0 \<longleftrightarrow> T = Lf"
  by (cases T) (auto simp: zipperAt_def)

lemma zipperAt_node: "zipperAt t fs q p (mk s c u a v) \<Longrightarrow> p = a \<and> a \<noteq> 0 \<and> aligned a \<and> parentOf (nodes t a) = q \<and> colorOf (nodes t a) = c"
  by (simp add: zipperAt_def)

lemma zipperAt_aligned: "zipperAt t fs q p T \<Longrightarrow> aligned p \<and> aligned q"
proof -
  assume z: "zipperAt t fs q p T"
  have "aligned p" using z by (cases T) (auto simp: zipperAt_def)
  moreover have "aligned q" using z by (cases fs) (auto simp: zipperAt_def)
  ultimately show ?thesis by simp
qed

text \<open>What is in the store elsewhere does not matter.\<close>

lemma treeAt_cong: "(\<And>a. a \<in> set (inorder T) \<Longrightarrow> h a = h' a) \<Longrightarrow> treeAt h q p T \<longleftrightarrow> treeAt h' q p T"
  by (induction T arbitrary: q p) auto

lemma framesAt_cong: "(\<And>a. a \<in> set (before fs) \<union> set (after fs) \<Longrightarrow> h a = h' a) \<Longrightarrow> framesAt h root q p fs \<longleftrightarrow> framesAt h' root q p fs"
proof (induction fs arbitrary: q p)
  case (Cons f fs)
  obtain s c a u where f: "f = (s, c, a, u)" by (cases f) auto
  have "set (before (f # fs)) \<union> set (after (f # fs)) = insert a (set (inorder u) \<union> (set (before fs) \<union> set (after fs)))" by (cases s) (auto simp: f)
  then have e: "h a = h' a" "\<And>b. b \<in> set (inorder u) \<Longrightarrow> h b = h' b" "\<And>b. b \<in> set (before fs) \<union> set (after fs) \<Longrightarrow> h b = h' b" using Cons.prems by auto
  show ?case using Cons.IH [OF e(3)] treeAt_cong [OF e(2)] e(1) by (simp add: f)
qed simp

lemma treeAt_reparent:
  assumes "treeAt h q p T" and "distinct (inorder T)" and "aligned q'"
  shows "treeAt (if p = 0 then h else h(p := withParent q' (h p))) q' p T"
proof (cases T)
  case (Nd c l a r)
  have "treeAt (h(a := withParent q' (h a))) a (m_left (h a)) l" "treeAt (h(a := withParent q' (h a))) a (m_right (h a)) r"
    using assms Nd by (auto intro!: treeAt_cong [THEN iffD1, of l h] treeAt_cong [THEN iffD1, of r h])
  then show ?thesis using assms Nd by auto
qed (use assms in auto)


section \<open>Changes at the hole\<close>

abbreviation around :: "frame list \<Rightarrow> ptr set" where
  "around fs \<equiv> set (before fs) \<union> set (after fs)"

lemma around_Cons: "around ((s, c, a, u) # fs) = insert a (set (inorder u) \<union> around fs)"
  by (cases s) auto

lemma set_inorder_mk: "set (inorder (mk s c u a v)) = insert a (set (inorder u) \<union> set (inorder v))"
  by (cases s) auto

lemma distinct_sequence: "distinct (sequence fs T) \<longleftrightarrow> distinct (before fs @ after fs) \<and> distinct (inorder T) \<and> set (inorder T) \<inter> around fs = {}"
  by (auto simp: sequence_def)

lemma distinct_mk: "distinct (inorder (mk s c u a v)) \<longleftrightarrow> a \<notin> set (inorder u) \<and> a \<notin> set (inorder v) \<and> distinct (inorder u) \<and> distinct (inorder v)
    \<and> set (inorder u) \<inter> set (inorder v) = {}"
  by (cases s) auto

lemma distinct_frame: "distinct (before ((s, c, a, u) # fs) @ after ((s, c, a, u) # fs)) \<longleftrightarrow>
    distinct (before fs @ after fs) \<and> a \<notin> set (inorder u) \<and> a \<notin> around fs \<and> distinct (inorder u) \<and> set (inorder u) \<inter> around fs = {}"
  by (cases s) auto

lemma treeAt_pointer: "treeAt h q p T \<Longrightarrow> p \<noteq> 0 \<Longrightarrow> p \<in> set (inorder T)"
  by (cases T) auto

lemma treeAt_not_null: "treeAt h q p T \<Longrightarrow> a \<in> set (inorder T) \<Longrightarrow> a \<noteq> 0 \<and> aligned a"
  by (induction T arbitrary: q p) auto

lemma framesAt_root: "framesAt h root q p fs \<Longrightarrow> fs \<noteq> [] \<Longrightarrow> root \<in> around fs \<and> root \<noteq> 0"
proof (induction fs arbitrary: q p)
  case (Cons f fs)
  obtain s c a u where f: "f = (s, c, a, u)" by (cases f) auto
  show ?case using Cons unfolding f around_Cons by (cases "fs = []") auto
qed simp

lemma framesAt_not_null: "framesAt h root q p fs \<Longrightarrow> a \<in> around fs \<Longrightarrow> a \<noteq> 0 \<and> aligned a"
proof (induction fs arbitrary: q p)
  case (Cons f fs)
  obtain s c b u where f: "f = (s, c, b, u)" by (cases f) auto
  show ?case using Cons treeAt_not_null [of h b _ u a] unfolding f around_Cons by auto
qed simp

lemma zipperAt_root: "zipperAt t fs q p T \<Longrightarrow> p = m_root t \<longleftrightarrow> fs = []"
  using framesAt_root [of "nodes t" "m_root t" q p fs] treeAt_pointer [of "nodes t" q p T] by (auto simp: zipperAt_def distinct_sequence)

text \<open>The keys do not change.\<close>

definition sameKeys :: "'k rbTree \<Rightarrow> 'k rbTree \<Rightarrow> bool" where
  "sameKeys t t' \<longleftrightarrow> (\<forall>a. key (nodes t' a) = key (nodes t a))"

lemma sameKeys_refl [simp]: "sameKeys t t"
  by (simp add: sameKeys_def)

lemma sameKeys_trans [trans]: "sameKeys t t' \<Longrightarrow> sameKeys t' t'' \<Longrightarrow> sameKeys t t''"
  by (simp add: sameKeys_def)

lemma load_Inr [simp]: "p \<noteq> 0 \<Longrightarrow> load f t p = Inr (f (nodes t p))"
  by (simp add: load_def)

lemma replaceChild_frames:
  assumes f: "framesAt (nodes t) (m_root t) q x fs" and x: "x \<noteq> 0" "x \<notin> around fs" and d: "distinct (before fs @ after fs)"
  obtains t' where "replaceChild t q x y = Inr t'" and "framesAt (nodes t') (m_root t') q y fs" and "\<forall>a. a \<notin> around fs \<longrightarrow> nodes t' a = nodes t a" and "sameKeys t t'"
proof (cases fs)
  case Nil
  then show ?thesis using f that [of "t\<lparr>m_root := y\<rparr>"] by (simp add: replaceChild_def sameKeys_def)
next
  case (Cons f' gs)
  obtain s c a u where f': "f' = (s, c, a, u)" by (cases f') auto
  define t' where "t' = t\<lparr>nodes := (nodes t)(a := withChild s y (nodes t a))\<rparr>"
  note d' = d [unfolded Cons f' distinct_frame]
  have a: "q = a" "a \<noteq> 0" "childOf s (nodes t a) = x" "treeAt (nodes t) a (childOf (other s) (nodes t a)) u" "framesAt (nodes t) (m_root t) (parentOf (nodes t a)) a gs"
    using f by (simp_all add: Cons f')
  have "childOf (other s) (nodes t a) \<noteq> x" using treeAt_pointer [OF a(4)] x unfolding Cons f' around_Cons by auto
  then have "x = m_left (nodes t a) \<longleftrightarrow> s = LeftSide" using a(3) by (cases s) auto
  then have r: "replaceChild t q x y = Inr t'" using a by (cases s) (simp_all add: replaceChild_def modify_def t'_def)
  have "treeAt (nodes t') a (childOf (other s) (nodes t a)) u" using a(4) d' by (subst treeAt_cong [of u _ "nodes t"]) (auto simp: t'_def)
  moreover have "framesAt (nodes t') (m_root t) (parentOf (nodes t a)) a gs" using a(5) d' by (subst framesAt_cong [of gs _ "nodes t"]) (auto simp: t'_def)
  ultimately have "framesAt (nodes t') (m_root t') q y fs" using f a(1) by (simp add: Cons f' t'_def)
  moreover have "nodes t' b = nodes t b" if "b \<notin> around fs" for b using that unfolding Cons f' around_Cons by (auto simp: t'_def)
  moreover have "sameKeys t t'" by (simp add: sameKeys_def t'_def)
  ultimately show ?thesis using that r by blast
qed

lemma modify_color:
  assumes z: "zipperAt t fs q p (mk s c u a v)"
  obtains t' where "modify (withColor c') t a = Inr t'" and "zipperAt t' fs q a (mk s c' u a v)" and "sameKeys t t'"
proof -
  define t' where "t' = t\<lparr>nodes := (nodes t)(a := withColor c' (nodes t a))\<rparr>"
  note d = z [unfolded zipperAt_def distinct_sequence distinct_mk set_inorder_mk]
  have n: "a \<noteq> 0" "p = a" using z by (auto simp: zipperAt_def)
  have tr: "treeAt (nodes t') a b T \<longleftrightarrow> treeAt (nodes t) a b T" if "a \<notin> set (inorder T)" for b T using that by (intro treeAt_cong) (auto simp: t'_def)
  have "framesAt (nodes t') (m_root t') q a fs" using d n(2) by (subst framesAt_cong [of fs _ "nodes t"]) (auto simp: t'_def)
  moreover have "treeAt (nodes t') q a (mk s c' u a v)" using d tr [of u] tr [of v] by (simp add: t'_def)
  moreover have "distinct (sequence fs (mk s c' u a v))" using z sequence_color [of fs s c' u a v c] by (simp add: zipperAt_def)
  ultimately have "zipperAt t' fs q a (mk s c' u a v)" by (simp add: zipperAt_def)
  moreover have "modify (withColor c') t a = Inr t'" using n by (simp add: modify_def t'_def)
  moreover have "sameKeys t t'" by (simp add: sameKeys_def t'_def)
  ultimately show ?thesis using that by blast
qed


lemma modify_Inr: "p \<noteq> 0 \<Longrightarrow> modify f t p = Inr (t\<lparr>nodes := (nodes t)(p := f (nodes t p))\<rparr>)"
  by (simp add: modify_def)

lemma modifyIfNotNull_Inr: "modifyIfNotNull f t p = Inr (t\<lparr>nodes := (if p = 0 then nodes t else (nodes t)(p := f (nodes t p)))\<rparr>)"
  by (simp add: modifyIfNotNull_def modify_def)

lemma rotate_zipperAt:
  assumes z: "zipperAt t fs q p (mk s c u x (mk s d v y w))"
  obtains t' where "rotate s t x = Inr (y, t')" and "zipperAt t' fs q y (mk s d (mk s c u x v) y w)" and "sameKeys t t'"
proof -
  define h b where "h = nodes t" and "b = childOf s (nodes t y)"
  have n: "x \<noteq> 0" "y \<noteq> 0" "aligned x" "aligned y" "childOf (other s) (h x) = y" "childOf s (h y) = b" "parentOf (h x) = q"
    "treeAt h x (childOf s (h x)) u" "treeAt h y b v" "treeAt h y (childOf (other s) (h y)) w" "colorOf (h x) = c" "colorOf (h y) = d"
    "framesAt h (m_root t) q x fs" "aligned q"
    using z zipperAt_aligned [OF z] by (auto simp: zipperAt_def h_def b_def)
  have dist: "distinct (sequence fs (mk s c u x (mk s d v y w)))" using z by (simp add: zipperAt_def)
  note ds = dist [unfolded distinct_sequence distinct_mk set_inorder_mk]
  have d: "distinct (before fs @ after fs)" "x \<notin> around fs" "y \<notin> around fs" "x \<noteq> y" "x \<notin> set (inorder u)" "x \<notin> set (inorder v)" "x \<notin> set (inorder w)"
    "y \<notin> set (inorder u)" "y \<notin> set (inorder v)" "y \<notin> set (inorder w)" "set (inorder u) \<inter> around fs = {}" "set (inorder v) \<inter> around fs = {}"
    "set (inorder w) \<inter> around fs = {}" "distinct (inorder v)" "set (inorder u) \<inter> set (inorder v) = {}" "set (inorder v) \<inter> set (inorder w) = {}"
    using ds by blast+
  have b: "b \<in> set (inorder v)" if "b \<noteq> 0" using treeAt_pointer [OF n(9) that] .
  define g where "g = (if b = 0 then h else h(b := withParent x (h b)))"
  have ne: "b \<noteq> 0 \<Longrightarrow> b \<noteq> x" "b \<noteq> 0 \<Longrightarrow> b \<noteq> y" "b \<noteq> 0 \<Longrightarrow> b \<notin> around fs" using b d by blast+
  have gxy: "g x = h x" "g y = h y" using ne by (auto simp: g_def)
  have goff: "g a = h a" if "a \<notin> set (inorder v)" for a using that b by (auto simp: g_def)
  define t3 where "t3 = t\<lparr>nodes := g(x := withChild (other s) b (h x), y := withParent q (h y))\<rparr>"
  have "nodes t3 a = h a" if "a \<in> around fs" for a using that d goff [of a] by (auto simp: t3_def)
  then have "framesAt (nodes t3) (m_root t3) q x fs" using framesAt_cong [of fs "nodes t3" h] n(13) by (simp add: t3_def)
  then obtain t4 where t4: "replaceChild t3 q x y = Inr t4" "framesAt (nodes t4) (m_root t4) q y fs" "\<forall>a. a \<notin> around fs \<longrightarrow> nodes t4 a = nodes t3 a" "sameKeys t3 t4"
    by (rule replaceChild_frames [OF _ n(1) d(2,1), where y = y])
  define t' where "t' = t4\<lparr>nodes := (nodes t4)(y := withChild s x (nodes t4 y), x := withParent y (nodes t4 x))\<rparr>"
  have rot: "rotate s t x = Inr (y, t')"
  proof -
    define t1 where "t1 = t\<lparr>nodes := h(x := withChild (other s) b (h x))\<rparr>"
    define t2 where "t2 = t1\<lparr>nodes := (if b = 0 then nodes t1 else (nodes t1)(b := withParent x (nodes t1 b)))\<rparr>"
    define t5 where "t5 = t4\<lparr>nodes := (nodes t4)(y := withChild s x (nodes t4 y))\<rparr>"
    have "t2\<lparr>nodes := (nodes t2)(y := withParent q (nodes t2 y))\<rparr> = t3"
      using d(4) ne by (auto simp: t1_def t2_def t3_def g_def fun_upd_twist)
    then have e: "load (childOf (other s)) t x = Inr y" "load (childOf s) t y = Inr b" "modify (withChild (other s) b) t x = Inr t1"
      "load (childOf s) t1 y = Inr b" "modifyIfNotNull (withParent x) t1 b = Inr t2" "load parentOf t2 x = Inr q" "modify (withParent q) t2 y = Inr t3"
      "load parentOf t3 x = Inr q" "modify (withChild s x) t4 y = Inr t5" "modify (withParent y) t5 x = Inr t'"
      using n ne d(4) by (auto simp: modify_Inr modifyIfNotNull_Inr t1_def t2_def t3_def t5_def t'_def h_def)
    show ?thesis by (simp only: rotate_def e t4(1) andThen.simps)
  qed
  have t'x: "nodes t' x = withParent y (withChild (other s) b (h x))" "nodes t' y = withChild s x (withParent q (h y))"
    using d t4(3) by (simp_all add: t'_def t3_def)
  have off: "nodes t' a = g a" if "a \<notin> around fs" "a \<noteq> x" "a \<noteq> y" for a using that t4(3) by (simp add: t'_def t3_def)
  have same: "treeAt (nodes t') r a S \<longleftrightarrow> treeAt f r a S"
    if "set (inorder S) \<inter> around fs = {}" "x \<notin> set (inorder S)" "y \<notin> set (inorder S)" "\<And>a. a \<in> set (inorder S) \<Longrightarrow> g a = f a" for r a S f
    using that by (intro treeAt_cong) (metis off disjoint_iff)
  have U: "treeAt (nodes t') x (childOf s (h x)) u" using n(8) same [OF d(11,5,8)] goff d(15) by (metis disjoint_iff)
  have W: "treeAt (nodes t') y (childOf (other s) (h y)) w" using n(10) same [OF d(13,7,10)] goff d(16) by (metis disjoint_iff)
  have "treeAt g x b v" using treeAt_reparent [OF n(9) d(14) n(3)] by (simp add: g_def)
  then have V: "treeAt (nodes t') x b v" using same [OF d(12,6,9)] by simp
  have F: "framesAt (nodes t') (m_root t') q y fs" using t4(2) d(2,3) by (subst framesAt_cong [of fs _ "nodes t4"]) (auto simp: t'_def)
  have "zipperAt t' fs q y (mk s d (mk s c u x v) y w)"
    using U V W F n dist sequence_rotate [of fs s d c u x v y w c d] by (simp add: zipperAt_def t'x)
  moreover have "sameKeys t t'" using t4(4) d(4) by (auto simp: sameKeys_def t'_def t3_def g_def h_def)
  ultimately show ?thesis using that [OF rot] by blast
qed


section \<open>Zippers\<close>

text \<open>The pointer at the hole and its parent are determined by the zipper.\<close>

fun rootPtr :: "rbt \<Rightarrow> ptr" where
  "rootPtr Lf = 0"
| "rootPtr (Nd c l a r) = a"

fun parentPtr :: "frame list \<Rightarrow> ptr" where
  "parentPtr [] = 0"
| "parentPtr ((s, c, a, u) # fs) = a"

definition zipper :: "'k rbTree \<Rightarrow> frame list \<Rightarrow> rbt \<Rightarrow> bool" where
  "zipper t fs T \<longleftrightarrow> zipperAt t fs (parentPtr fs) (rootPtr T) T"

lemma rootPtr_mk [simp]: "rootPtr (mk s c u a v) = a"
  by (cases s) simp_all

lemma treeAt_rootPtr: "treeAt h q p T \<Longrightarrow> p = rootPtr T"
  by (cases T) auto

lemma framesAt_parentPtr: "framesAt h root q p fs \<Longrightarrow> q = parentPtr fs"
  by (cases fs rule: parentPtr.cases) auto

lemma zipperAt_iff: "zipperAt t fs q p T \<longleftrightarrow> q = parentPtr fs \<and> p = rootPtr T \<and> zipper t fs T"
  using treeAt_rootPtr [of "nodes t" q p T] framesAt_parentPtr [of "nodes t" "m_root t" q p fs] by (auto simp: zipper_def zipperAt_def)

lemma zipper_up: "zipper t ((s, c, a, u) # fs) T \<longleftrightarrow> zipper t fs (mk s c T a u)"
proof
  assume "zipper t ((s, c, a, u) # fs) T"
  then show "zipper t fs (mk s c T a u)" unfolding zipper_def [of t "(s, c, a, u) # fs"] zipperAt_up by (simp add: zipperAt_iff)
next
  assume z: "zipper t fs (mk s c T a u)"
  then have "treeAt (nodes t) a (childOf s (nodes t a)) T" by (simp add: zipper_def zipperAt_def)
  then have "rootPtr T = childOf s (nodes t a)" using treeAt_rootPtr by metis
  moreover have "parentOf (nodes t a) = parentPtr fs" using z by (simp add: zipper_def zipperAt_def)
  ultimately show "zipper t ((s, c, a, u) # fs) T" using z unfolding zipper_def [of t "(s, c, a, u) # fs"] zipperAt_up by (simp add: zipper_def)
qed

lemma zipper_across: "zipper t ((s, c, a, u) # fs) T \<longleftrightarrow> zipper t ((other s, c, a, T) # fs) u"
  by (simp add: zipper_up mk_other)

lemma zipper_null: "zipper t fs T \<Longrightarrow> rootPtr T = 0 \<longleftrightarrow> T = Lf"
  by (metis zipperAt_iff zipperAt_null)

lemma zipper_node:
  assumes "zipper t fs (mk s c u a v)"
  shows "a \<noteq> 0" "aligned a" "parentOf (nodes t a) = parentPtr fs" "colorOf (nodes t a) = c" "childOf s (nodes t a) = rootPtr u" "childOf (other s) (nodes t a) = rootPtr v"
  using assms treeAt_rootPtr [of "nodes t" a] by (auto simp: zipper_def zipperAt_def)

lemma zipper_frame:
  assumes "zipper t ((s, c, a, u) # fs) T"
  shows "a \<noteq> 0" "aligned a" "parentOf (nodes t a) = parentPtr fs" "colorOf (nodes t a) = c" "childOf s (nodes t a) = rootPtr T" "childOf (other s) (nodes t a) = rootPtr u"
  using zipper_node [OF assms [unfolded zipper_up]] by simp_all

lemma zipper_parent: "zipper t fs T \<Longrightarrow> T \<noteq> Lf \<Longrightarrow> parentOf (nodes t (rootPtr T)) = parentPtr fs"
  by (cases T) (auto simp: zipper_def zipperAt_def)

lemma zipper_root: "zipper t fs T \<Longrightarrow> rootPtr T = m_root t \<longleftrightarrow> fs = []"
  by (metis zipperAt_iff zipperAt_root)

lemma zipper_distinct: "zipper t fs T \<Longrightarrow> distinct (sequence fs T)"
  by (simp add: zipper_def zipperAt_def)

lemma color_zipper:
  assumes "zipper t fs (mk s c u a v)"
  obtains t' where "modify (withColor c') t a = Inr t'" and "zipper t' fs (mk s c' u a v)" and "sameKeys t t'"
  using assms modify_color [of t fs "parentPtr fs" a s c u a v c'] by (metis rootPtr_mk zipperAt_iff)

lemma rotateTo_zipper:
  assumes "zipper t fs (mk s c u x (mk s d v y w))"
  obtains t' where "rotateTo s t x = Inr t'" and "zipper t' fs (mk s d (mk s c u x v) y w)" and "sameKeys t t'"
proof -
  obtain t' where "rotate s t x = Inr (y, t')" "zipper t' fs (mk s d (mk s c u x v) y w)" "sameKeys t t'"
    using rotate_zipperAt [OF assms [unfolded zipper_def]] by (metis zipperAt_iff)
  then show ?thesis using that [of t'] by (cases s) (simp_all add: leftRotate_def rightRotate_def)
qed

lemma nullOrBlack_root: "zipper t fs T \<Longrightarrow> nullOrBlack t (rootPtr T) = Inr (case T of Lf \<Rightarrow> True | Nd c l a r \<Rightarrow> c = Black)"
  by (cases T) (auto simp: zipper_def zipperAt_def nullOrBlack_def)

lemma zipper_plug: "zipper t fs T \<longleftrightarrow> zipper t [] (plug fs T)"
  by (induction fs T rule: plug.induct) (auto simp: zipper_up)

lemma zipper_top: "zipper t [] T \<Longrightarrow> rootPtr T = m_root t"
  using zipper_root by metis

lemma zipper_cong:
  assumes "\<And>a. a \<in> set (sequence fs T) \<Longrightarrow> nodes t' a = nodes t a" and "m_root t' = m_root t"
  shows "zipper t' fs T \<longleftrightarrow> zipper t fs T"
proof -
  have "framesAt (nodes t') root q p fs \<longleftrightarrow> framesAt (nodes t) root q p fs" for root q p using assms(1) by (intro framesAt_cong) (auto simp: sequence_def)
  moreover have "treeAt (nodes t') q p T \<longleftrightarrow> treeAt (nodes t) q p T" for q p using assms(1) by (intro treeAt_cong) (auto simp: sequence_def)
  ultimately show ?thesis using assms(2) by (simp add: zipper_def zipperAt_def)
qed

text \<open>The side of a node below its parent.\<close>

lemma zipper_siblings: "zipper t ((s, c, a, u) # fs) T \<Longrightarrow> T \<noteq> Lf \<or> u \<noteq> Lf \<Longrightarrow> rootPtr T \<noteq> rootPtr u"
proof -
  assume z: "zipper t ((s, c, a, u) # fs) T" and "T \<noteq> Lf \<or> u \<noteq> Lf"
  moreover have "set (inorder T) \<inter> set (inorder u) = {}" using zipper_distinct [OF z] by (cases s) (auto simp: sequence_def)
  ultimately show ?thesis using zipper_null [OF z] zipper_null [OF z [unfolded zipper_across [of t s]]] by (cases T; cases u) auto
qed

lemma zipper_side: "zipper t ((s, c, a, u) # fs) T \<Longrightarrow> T \<noteq> Lf \<or> u \<noteq> Lf \<Longrightarrow> (if rootPtr T = m_left (nodes t a) then LeftSide else RightSide) = s"
  using zipper_siblings [of t s c a u fs T] zipper_frame [of t s c a u fs T] by (cases s) auto

end
