(* ===== verification/Red_Black_Balance.thy ===== *)
theory Red_Black_Balance
  imports Red_Black_Heap
begin

text \<open>
  The invariants of red-black trees, for a whole tree and for a zipper: a path of frames says which trees may stand in its hole. A tree of
  aligned pointers is never deeper than the code allows.
\<close>

unbundle bit_operations_syntax


section \<open>The invariants\<close>

fun colorT :: "rbt \<Rightarrow> color" where
  "colorT Lf = Black"
| "colorT (Nd c l a r) = c"

fun bheight :: "rbt \<Rightarrow> nat" where
  "bheight Lf = 0"
| "bheight (Nd c l a r) = (if c = Black then Suc (bheight l) else bheight l)"

fun invc :: "rbt \<Rightarrow> bool" where
  "invc Lf \<longleftrightarrow> True"
| "invc (Nd c l a r) \<longleftrightarrow> (c = Red \<longrightarrow> colorT l = Black \<and> colorT r = Black) \<and> invc l \<and> invc r"

fun invh :: "rbt \<Rightarrow> bool" where
  "invh Lf \<longleftrightarrow> True"
| "invh (Nd c l a r) \<longleftrightarrow> bheight l = bheight r \<and> invh l \<and> invh r"

definition redBlack :: "rbt \<Rightarrow> bool" where
  "redBlack T \<longleftrightarrow> invc T \<and> invh T \<and> colorT T = Black"

fun height :: "rbt \<Rightarrow> nat" where
  "height Lf = 0"
| "height (Nd c l a r) = Suc (max (height l) (height r))"

fun paint :: "color \<Rightarrow> rbt \<Rightarrow> rbt" where
  "paint c Lf = Lf"
| "paint c (Nd c' l a r) = Nd c l a r"

lemma not_Black [simp]: "c \<noteq> Black \<longleftrightarrow> c = Red" "c \<noteq> Red \<longleftrightarrow> c = Black"
  by (cases c; simp)+

lemma mk_simps [simp]:
  "colorT (mk s c u a v) = c"
  "invc (mk s c u a v) \<longleftrightarrow> (c = Red \<longrightarrow> colorT u = Black \<and> colorT v = Black) \<and> invc u \<and> invc v"
  "invh (mk s c u a v) \<longleftrightarrow> bheight u = bheight v \<and> invh u \<and> invh v"
  "bheight u = bheight v \<Longrightarrow> bheight (mk s c u a v) = (if c = Black then Suc (bheight v) else bheight v)"
  "height (mk s c u a v) = Suc (max (height u) (height v))"
  "paint c' (mk s c u a v) = mk s c' u a v"
  by (cases s; auto)+

lemma paint_simps [simp]:
  "invc T \<Longrightarrow> invc (paint Black T)" "invh (paint c T) \<longleftrightarrow> invh T" "inorder (paint c T) = inorder T" "colorT (paint Black T) = Black"
  "bheight (paint Black T) = (if colorT T = Red then Suc (bheight T) else bheight T)"
  by (cases T; simp)+


section \<open>What may stand in a hole\<close>

text \<open>A tree of black height \<open>n\<close>, and a tree of colour \<open>d\<close>.\<close>

fun fitsHeight :: "frame list \<Rightarrow> nat \<Rightarrow> bool" where
  "fitsHeight [] n \<longleftrightarrow> True"
| "fitsHeight ((s, c, a, u) # fs) n \<longleftrightarrow> invh u \<and> bheight u = n \<and> fitsHeight fs (if c = Black then Suc n else n)"

fun fitsColor :: "frame list \<Rightarrow> color \<Rightarrow> bool" where
  "fitsColor [] d \<longleftrightarrow> True"
| "fitsColor ((s, c, a, u) # fs) d \<longleftrightarrow> (c = Red \<longrightarrow> d = Black \<and> colorT u = Black) \<and> invc u \<and> fitsColor fs c"

definition rootBlack :: "frame list \<Rightarrow> bool" where
  "rootBlack fs \<longleftrightarrow> fs = [] \<or> fst (snd (last fs)) = Black"

lemma rootBlack_Nil [simp]: "rootBlack []"
  by (simp add: rootBlack_def)

lemma rootBlack_Cons: "rootBlack ((s, c, a, u) # fs) \<longleftrightarrow> (if fs = [] then c = Black else rootBlack fs)"
  by (simp add: rootBlack_def)

lemma invh_plug: "invh (plug fs T) \<longleftrightarrow> invh T \<and> fitsHeight fs (bheight T)"
proof (induction fs T rule: plug.induct)
  case (2 s c a u fs T)
  then show ?case by (cases "bheight T = bheight u") auto
qed simp

lemma invc_plug: "invc (plug fs T) \<longleftrightarrow> invc T \<and> fitsColor fs (colorT T)"
  by (induction fs T rule: plug.induct) auto

lemma colorT_plug: "colorT (plug fs T) = Black \<longleftrightarrow> (if fs = [] then colorT T = Black else rootBlack fs)"
  by (induction fs T rule: plug.induct) (auto simp: rootBlack_Cons)

lemma fitsColor_Black: "fitsColor fs c \<Longrightarrow> fitsColor fs Black"
  by (induction fs c rule: fitsColor.induct) auto

lemma redBlack_plug:
  "redBlack (plug fs T) \<longleftrightarrow> invc T \<and> invh T \<and> fitsColor fs (colorT T) \<and> fitsHeight fs (bheight T) \<and> (if fs = [] then colorT T = Black else rootBlack fs)"
  by (auto simp: redBlack_def invc_plug invh_plug colorT_plug)


section \<open>The depth of a tree\<close>

lemma bheight_size: "invh T \<Longrightarrow> 2 ^ bheight T \<le> Suc (length (inorder T))"
proof (induction T)
  case (Nd c l a r)
  then show ?case by (auto simp: algebra_simps)
qed simp

lemma height_bheight: "invc T \<Longrightarrow> invh T \<Longrightarrow> height T \<le> 2 * bheight T + (if colorT T = Black then 0 else 1)"
proof (induction T)
  case (Nd c l a r)
  then show ?case by (cases c; cases "colorT l"; cases "colorT r") auto
qed simp

lemma aligned_pointers:
  assumes "distinct as" and "\<And>a. a \<in> set as \<Longrightarrow> a \<noteq> 0 \<and> aligned a"
  shows "Suc (length as) \<le> 2 ^ 63"
proof -
  define f where "f a = nat (uint a div 2)" for a :: ptr
  obtain N :: nat where N: "2 ^ 63 = N" by simp
  have half: "uint a = 2 * (uint a div 2)" "0 < uint a" if "a \<in> set as" for a
  proof -
    have "\<not> bit (uint a) 0" unfolding bit_uint_iff using assms(2) [OF that] unfolding aligned_def by blast
    then have "even (uint a)" unfolding bit_0 by simp
    then show "uint a = 2 * (uint a div 2)" by (rule dvd_mult_div_cancel [symmetric])
    have "uint a \<noteq> 0" using assms(2) [OF that] by (simp add: unsigned_eq_0_iff)
    then show "0 < uint a" using uint_nonneg [of a] by linarith
  qed
  have "inj_on f (set as)"
  proof (rule inj_onI)
    fix a b assume ab: "a \<in> set as" "b \<in> set as" "f a = f b"
    then have "uint a div 2 = uint b div 2" by (simp add: f_def eq_nat_nat_iff pos_imp_zdiv_nonneg_iff)
    then show "a = b" using half(1) [OF ab(1)] half(1) [OF ab(2)] by (simp add: word_uint_eq_iff)
  qed
  moreover have "f ` set as \<subseteq> {1..<N}"
  proof
    fix n assume "n \<in> f ` set as"
    then obtain a where a: "a \<in> set as" "n = f a" by blast
    have "uint a < 2 ^ 64" using uint_lt2p [of a] by simp
    then have "1 \<le> f a" "f a < 2 ^ 63" using half [OF a(1)] by (auto simp: f_def)
    then show "n \<in> {1..<N}" unfolding N [symmetric] a(2) by (simp only: atLeastLessThan_iff)
  qed
  ultimately have "card (set as) \<le> card {1..<N}" by (intro card_inj_on_le) auto
  moreover have "1 \<le> N" unfolding N [symmetric] by simp
  ultimately show ?thesis unfolding N using distinct_card [OF assms(1)] by simp
qed

lemma height_plug: "length fs + height T \<le> height (plug fs T)"
proof (induction fs T rule: plug.induct)
  case (2 s c a u fs T)
  then show ?case by auto
qed simp

text \<open>No path in a tree in the store is longer than 126 nodes.\<close>

lemma zipper_depth:
  assumes z: "zipper t fs T" and rb: "redBlack (plug fs T)"
  shows "length fs + height T \<le> 126"
proof -
  let ?T = "plug fs T"
  have "a \<noteq> 0 \<and> aligned a" if "a \<in> set (inorder ?T)" for a
    using that z framesAt_not_null [of "nodes t" "m_root t" _ _ fs a] treeAt_not_null [of "nodes t" _ _ T a]
    unfolding inorder_plug zipper_def zipperAt_def by auto
  moreover have "distinct (inorder ?T)" using zipper_distinct [OF z] by (simp add: sequence_def inorder_plug)
  ultimately have "Suc (length (inorder ?T)) \<le> 2 ^ 63" by (intro aligned_pointers) auto
  then have "(2 :: nat) ^ bheight ?T \<le> 2 ^ 63" using bheight_size [of ?T] rb by (simp add: redBlack_def)
  then have "bheight ?T \<le> 63" by (simp only: power_increasing_iff)
  then show ?thesis using height_bheight [of ?T] height_plug [of fs T] rb by (auto simp: redBlack_def)
qed

end
