(* ===== verification/Red_Black_Insert.thy ===== *)
theory Red_Black_Insert
  imports Red_Black_Balance
begin

text \<open>
  Insertion into a red-black tree: the search for the position, linking the node, and the loop that restores the colours.
\<close>

unbundle bit_operations_syntax


section \<open>Linking a node\<close>

text \<open>Where the new key goes: after the keys that are not greater.\<close>

definition splitsAt :: "'k::linorder rbTree \<Rightarrow> 'k \<Rightarrow> frame list \<Rightarrow> bool" where
  "splitsAt t k fs \<longleftrightarrow> (\<forall>a \<in> set (before fs). key (nodes t a) \<le> k) \<and> (\<forall>a \<in> set (after fs). k < key (nodes t a))"

fun headSide :: "'k::linorder rbTree \<Rightarrow> 'k \<Rightarrow> frame list \<Rightarrow> bool" where
  "headSide t k [] \<longleftrightarrow> True"
| "headSide t k ((s, c, a, u) # fs) \<longleftrightarrow> (s = LeftSide \<longleftrightarrow> k < key (nodes t a))"

lemma insertPosition_zipper:
  assumes "zipper t fs T" and "height T \<le> n" and "z \<noteq> 0" and "headSide t (key (nodes t z)) fs"
    and "splitsAt t (key (nodes t z)) fs" and "sorted (map (\<lambda>a. key (nodes t a)) (inorder T))"
  shows "\<exists>fs'. insertPosition n t z (parentPtr fs) (rootPtr T) = Inr (parentPtr fs') \<and> zipper t fs' Lf \<and> plug fs' Lf = plug fs T
    \<and> headSide t (key (nodes t z)) fs' \<and> splitsAt t (key (nodes t z)) fs'"
  using assms
proof (induction T arbitrary: fs n)
  case Lf
  then show ?case by (auto simp: insertPosition.simps)
next
  case (Nd c l a r)
  let ?k = "key (nodes t z)"
  obtain m where n: "n = Suc m" using Nd.prems(2) by (cases n) auto
  note node = zipper_node [of t fs LeftSide c l a r, simplified, OF Nd.prems(1)]
  have s: "sorted (map (\<lambda>a. key (nodes t a)) (inorder l))" "sorted (map (\<lambda>a. key (nodes t a)) (inorder r))"
    "\<forall>b \<in> set (inorder l). key (nodes t b) \<le> key (nodes t a)" "\<forall>b \<in> set (inorder r). key (nodes t a) \<le> key (nodes t b)"
    using Nd.prems(6) by (auto simp: sorted_append)
  show ?case
  proof (cases "?k < key (nodes t a)")
    case True
    have "zipper t ((LeftSide, c, a, r) # fs) l" using Nd.prems(1) by (simp add: zipper_up)
    moreover have "splitsAt t ?k ((LeftSide, c, a, r) # fs)" using Nd.prems(5) True s(4) by (auto simp: splitsAt_def)
    ultimately show ?thesis
      using Nd.IH(1) [of "(LeftSide, c, a, r) # fs" m] Nd.prems(2,3) s(1) True node by (simp add: insertPosition.simps [of "Suc m"] n)
  next
    case False
    have "zipper t ((RightSide, c, a, l) # fs) r" using Nd.prems(1) by (simp add: zipper_up)
    moreover have "splitsAt t ?k ((RightSide, c, a, l) # fs)" using Nd.prems(5) False s(3) by (fastforce simp: splitsAt_def)
    ultimately show ?thesis
      using Nd.IH(2) [of "(RightSide, c, a, l) # fs" m] Nd.prems(2,3) s(2) False node by (simp add: insertPosition.simps [of "Suc m"] n)
  qed
qed

lemma link_zipper:
  assumes z: "zipper t fs Lf" and new: "x \<noteq> 0" "aligned x" "x \<notin> around fs" "m_left (nodes t x) = 0" "m_right (nodes t x) = 0" "colorOf (nodes t x) = Red"
    and side: "headSide t (key (nodes t x)) fs"
  obtains t' where "andThen (modify (withParent (parentPtr fs)) t x) (\<lambda>t. if parentPtr fs = 0 then Inr (t\<lparr>m_root := x\<rparr>)
       else andThen (load key t x) (\<lambda>kz. andThen (load key t (parentPtr fs)) (\<lambda>ky.
         if kz < ky then modify (withChild LeftSide x) t (parentPtr fs) else modify (withChild RightSide x) t (parentPtr fs)))) = Inr t'"
    and "zipper t' fs (Nd Red Lf x Lf)" and "sameKeys t t'"
proof (cases fs)
  case Nil
  define t' where "t' = t\<lparr>nodes := (nodes t)(x := withParent 0 (nodes t x)), m_root := x\<rparr>"
  have "zipper t' fs (Nd Red Lf x Lf)" using new by (simp add: zipper_def zipperAt_def Nil t'_def)
  then show ?thesis using that [of t'] new Nil by (auto simp: modify_Inr t'_def sameKeys_def)
next
  case (Cons f gs)
  obtain s c a u where f: "f = (s, c, a, u)" by (cases f) auto
  have a: "a \<noteq> 0" "aligned a" "childOf s (nodes t a) = 0" "colorOf (nodes t a) = c" "treeAt (nodes t) a (childOf (other s) (nodes t a)) u" "framesAt (nodes t) (m_root t) (parentOf (nodes t a)) a gs"
    using z by (auto simp: zipper_def zipperAt_def Cons f)
  have d: "distinct (before fs @ after fs)" using zipper_distinct [OF z] by (simp add: sequence_def)
  note d' = d [unfolded Cons f distinct_frame]
  have new': "x \<noteq> a" "x \<notin> set (inorder u)" "x \<notin> around gs" using new(3) unfolding Cons f around_Cons by auto
  define t' where "t' = t\<lparr>nodes := (nodes t)(x := withParent a (nodes t x), a := withChild s x (nodes t a))\<rparr>"
  have "treeAt (nodes t') a (childOf (other s) (nodes t a)) u" using a(5) d' new' by (subst treeAt_cong [of u _ "nodes t"]) (auto simp: t'_def)
  moreover have "framesAt (nodes t') (m_root t) (parentOf (nodes t a)) a gs" using a(6) d' new' by (subst framesAt_cong [of gs _ "nodes t"]) (auto simp: t'_def)
  moreover have "distinct (sequence fs (Nd Red Lf x Lf))" using d new(3) by (auto simp: sequence_def)
  ultimately have "zipper t' fs (Nd Red Lf x Lf)" using a new new' by (simp add: zipper_def zipperAt_def Cons f t'_def)
  moreover have "sameKeys t t'" using new' by (simp add: sameKeys_def t'_def)
  moreover have "s = (if key (nodes t x) < key (nodes t a) then LeftSide else RightSide)" using side unfolding Cons f by (cases s) auto
  ultimately show ?thesis using that [of t'] new(1) new' a(1) by (auto simp: modify_Inr t'_def Cons f)
qed


section \<open>Restoring the colours\<close>

text \<open>The state of the loop: the tree at the hole is red, and it may be below a red parent.\<close>

definition insertLoop :: "frame list \<Rightarrow> rbt \<Rightarrow> bool" where
  "insertLoop fs T \<longleftrightarrow> colorT T = Red \<and> invc T \<and> invh T \<and> fitsColor fs Black \<and> fitsHeight fs (bheight T) \<and> rootBlack fs"

lemma insertLoop_done: "insertLoop fs T \<Longrightarrow> fs = [] \<or> fst (snd (hd fs)) = Black \<Longrightarrow> redBlack (paint Black (plug fs T))"
proof -
  assume i: "insertLoop fs T" and top: "fs = [] \<or> fst (snd (hd fs)) = Black"
  have "fitsColor fs Red" using i top by (cases fs) (auto simp: insertLoop_def)
  then show ?thesis using i by (auto simp: redBlack_def insertLoop_def invc_plug invh_plug)
qed

lemma insertLoop_grandparent:
  assumes "insertLoop ((s, Red, p, u) # fs) T"
  obtains s' g U gs where "fs = (s', Black, g, U) # gs"
proof (cases fs)
  case (Cons f gs)
  obtain s' c g U where "f = (s', c, g, U)" by (cases f) auto
  then show ?thesis using that Cons assms by (cases c) (auto simp: insertLoop_def)
qed (use assms in \<open>simp add: insertLoop_def rootBlack_def\<close>)

lemma insertCase_recolor:
  assumes z: "zipper t ((s', Red, p, u) # (s, Black, g, mk s Red U y U') # gs) T" and T: "T \<noteq> Lf"
  obtains t' where "insertCase s t (rootPtr T) = Inr (g, t')" and "zipper t' gs (mk s Red (mk s' Black T p u) g (mk s Black U y U'))" and "sameKeys t t'"
proof -
  have x: "rootPtr T \<noteq> 0" "parentOf (nodes t (rootPtr T)) = p" using zipper_null [OF z] zipper_parent [OF z T] T by simp_all
  have z1: "zipper t ((s, Black, g, mk s Red U y U') # gs) (mk s' Red T p u)" using z by (simp add: zipper_up)
  have zy: "zipper t ((other s, Black, g, mk s' Red T p u) # gs) (mk s Red U y U')" using z1 by (simp only: zipper_across [of t s])
  note pg = zipper_frame [OF z] zipper_frame [OF z1] zipper_node [OF zy]
  obtain t1 where t1: "modify (withColor Black) t p = Inr t1" "zipper t1 ((s, Black, g, mk s Red U y U') # gs) (mk s' Black T p u)" "sameKeys t t1"
    by (rule color_zipper [OF z1])
  obtain t2 where t2: "modify (withColor Black) t1 y = Inr t2" "zipper t2 ((other s, Black, g, mk s' Black T p u) # gs) (mk s Black U y U')" "sameKeys t1 t2"
    by (rule color_zipper [OF t1(2) [unfolded zipper_across [of t1 s]]])
  obtain t3 where t3: "modify (withColor Red) t2 g = Inr t3" "zipper t3 gs (mk (other s) Red (mk s Black U y U') g (mk s' Black T p u))" "sameKeys t2 t3"
    by (rule color_zipper [OF t2(2) [unfolded zipper_up]])
  have "insertCase s t (rootPtr T) = Inr (g, t3)" using x pg t1(1) t2(1) t3(1) by (simp add: insertCase_def nullOrBlack_def)
  moreover have "sameKeys t t3" using t1(3) t2(3) t3(3) by (metis sameKeys_trans)
  ultimately show ?thesis using that t3(2) by (simp add: mk_other)
qed

lemma insertOuter_zipper:
  assumes z: "zipper t ((s, Red, p, u) # (s, Black, g, U) # gs) T" and T: "T \<noteq> Lf"
  obtains t' where "insertOuter s t (rootPtr T) = Inr (rootPtr T, t')" and "zipper t' ((s, Black, p, mk s Red u g U) # gs) T" and "sameKeys t t'"
proof -
  have x: "rootPtr T \<noteq> 0" "parentOf (nodes t (rootPtr T)) = p" using zipper_null [OF z] zipper_parent [OF z T] T by simp_all
  have z1: "zipper t ((s, Black, g, U) # gs) (mk s Red T p u)" using z by (simp add: zipper_up)
  obtain t1 where t1: "modify (withColor Black) t p = Inr t1" "zipper t1 ((s, Black, g, U) # gs) (mk s Black T p u)" "sameKeys t t1"
    by (rule color_zipper [OF z1])
  obtain t2 where t2: "modify (withColor Red) t1 g = Inr t2" "zipper t2 gs (mk s Red (mk s Black T p u) g U)" "sameKeys t1 t2"
    by (rule color_zipper [OF t1(2) [unfolded zipper_up]])
  have "zipper t2 gs (mk (other s) Red U g (mk (other s) Black u p T))" using t2(2) by (simp add: mk_other)
  then obtain t3 where t3: "rotateTo (other s) t2 g = Inr t3" "zipper t3 gs (mk (other s) Black (mk (other s) Red U g u) p T)" "sameKeys t2 t3"
    by (rule rotateTo_zipper)
  have "zipper t3 ((s, Black, p, mk s Red u g U) # gs) T" using t3(2) by (simp add: zipper_up mk_other)
  moreover have "sameKeys t t3" using t1(3) t2(3) t3(3) by (metis sameKeys_trans)
  ultimately show ?thesis using that [of t3] x zipper_frame [OF z] zipper_node [OF t1(2)] t1(1) t2(1) t3(1) by (simp add: insertOuter_def)
qed

lemma insertCase_rotate:
  assumes z: "zipper t ((s', Red, p, u) # (s, Black, g, U) # gs) (mk s Red v x w)" and U: "colorT U = Black"
  obtains t' y u' T' where "insertCase s t x = Inr (rootPtr T', t')" and "zipper t' ((s, Black, y, mk s Red u' g U) # gs) T'" and "sameKeys t t'"
    and "if s' = s then y = p \<and> u' = u \<and> T' = mk s Red v x w else y = x \<and> u' = w \<and> T' = mk s Red u p v"
proof -
  have z1: "zipper t ((s, Black, g, U) # gs) (mk s' Red (mk s Red v x w) p u)" using z by (simp add: zipper_up)
  have "zipper t ((other s, Black, g, mk s' Red (mk s Red v x w) p u) # gs) U" using z1 by (simp only: zipper_across [of t s])
  then have black: "nullOrBlack t (rootPtr U) = Inr True" using nullOrBlack_root U by (cases U) fastforce+
  note pg = zipper_node [OF z] zipper_frame [OF z] zipper_frame [OF z1]
  show ?thesis
  proof (cases "s' = s")
    case True
    have "childOf (other s) (nodes t p) \<noteq> x"
    proof
      assume "childOf (other s) (nodes t p) = x"
      then have "rootPtr u = x" using pg True by simp
      moreover have "x \<notin> set (inorder u)" using zipper_distinct [OF z] by (simp add: distinct_sequence distinct_mk set_inorder_mk)
      ultimately show False using pg(1) by (cases u) auto
    qed
    moreover obtain t' where "insertOuter s t (rootPtr (mk s Red v x w)) = Inr (rootPtr (mk s Red v x w), t')"
      "zipper t' ((s, Black, p, mk s Red u g U) # gs) (mk s Red v x w)" "sameKeys t t'"
      by (rule insertOuter_zipper [OF z [unfolded True] mk_neq_Lf(1)])
    note t' = this [unfolded rootPtr_mk]
    ultimately have "insertCase s t x = Inr (x, t')" using pg black by (simp add: insertCase_def)
    then show ?thesis using that [of "mk s Red v x w" t' p u] t' True by simp
  next
    case False
    then have s': "s' = other s" by (cases s; cases s') auto
    have "zipper t ((s, Black, g, U) # gs) (mk s Red u p (mk s Red v x w))" using z1 by (simp add: s' mk_other)
    then obtain t1 where t1: "rotateTo s t p = Inr t1" "zipper t1 ((s, Black, g, U) # gs) (mk s Red (mk s Red u p v) x w)" "sameKeys t t1" by (rule rotateTo_zipper)
    have "zipper t1 ((s, Red, x, w) # (s, Black, g, U) # gs) (mk s Red u p v)" using t1(2) by (simp add: zipper_up)
    then obtain t2 where "insertOuter s t1 (rootPtr (mk s Red u p v)) = Inr (rootPtr (mk s Red u p v), t2)"
      "zipper t2 ((s, Black, x, mk s Red w g U) # gs) (mk s Red u p v)" "sameKeys t1 t2"
      by (rule insertOuter_zipper [OF _ mk_neq_Lf(1)])
    note t2 = this [unfolded rootPtr_mk]
    have "childOf (other s) (nodes t p) = x" using pg s' by simp
    then have "insertCase s t x = Inr (p, t2)" using pg black t1(1) t2(1) by (simp add: insertCase_def)
    then show ?thesis using that [of "mk s Red u p v" t2 x w] t2 t1(3) False by (simp add: sameKeys_trans [OF t1(3)])
  qed
qed

text \<open>One iteration keeps the state of the loop. The hole moves up by two frames, or the loop ends.\<close>

lemma insertCase_zipper:
  assumes z: "zipper t ((s', Red, p, u) # (s, Black, g, U) # gs) T" and i: "insertLoop ((s', Red, p, u) # (s, Black, g, U) # gs) T"
  obtains t' fs' T' where "insertCase s t (rootPtr T) = Inr (rootPtr T', t')" and "zipper t' fs' T'" and "insertLoop fs' T'"
    and "sequence fs' T' = sequence ((s', Red, p, u) # (s, Black, g, U) # gs) T" and "sameKeys t t'"
    and "fs' = gs \<or> (\<exists>s c v. fs' = (s, Black, c, v) # gs)"
proof -
  obtain v x w where T: "T = mk s Red v x w" using i by (cases T rule: mk_cases [where s = s]) (auto simp: insertLoop_def)
  show ?thesis
  proof (cases "colorT U")
    case Red
    then obtain U1 y U2 where U: "U = mk s Red U1 y U2" by (cases U rule: mk_cases [where s = s]) auto
    let ?T = "mk s Red (mk s' Black T p u) g (mk s Black U1 y U2)"
    obtain t' where "insertCase s t (rootPtr T) = Inr (g, t')" "zipper t' gs ?T" "sameKeys t t'"
      by (rule insertCase_recolor [OF z [unfolded U]]) (simp add: T)
    moreover have "insertLoop gs ?T" using i by (auto simp: insertLoop_def U rootBlack_Cons split: if_splits)
    moreover have "sequence gs ?T = sequence ((s', Red, p, u) # (s, Black, g, U) # gs) T" by (cases s; cases s') (simp_all add: sequence_def U)
    ultimately show ?thesis using that [of ?T t' gs] by simp
  next
    case Black
    obtain t' y u' T' where r: "insertCase s t x = Inr (rootPtr T', t')" "zipper t' ((s, Black, y, mk s Red u' g U) # gs) T'" "sameKeys t t'"
      "if s' = s then y = p \<and> u' = u \<and> T' = mk s Red v x w else y = x \<and> u' = w \<and> T' = mk s Red u p v"
      by (rule insertCase_rotate [OF z [unfolded T] Black])
    have s': "s' = s \<or> s' = other s" by (cases s; cases s') auto
    have "insertLoop ((s, Black, y, mk s Red u' g U) # gs) T'"
      using i Black r(4) by (auto simp: insertLoop_def T rootBlack_Cons split: if_splits)
    moreover have "sequence ((s, Black, y, mk s Red u' g U) # gs) T' = sequence ((s', Red, p, u) # (s, Black, g, U) # gs) T"
      using r(4) s' by (cases s; cases s') (auto simp: sequence_def T split: if_splits)
    ultimately show ?thesis using that [of T' t' "(s, Black, y, mk s Red u' g U) # gs"] r T by auto
  qed
qed

lemma insertFixup_zipper:
  assumes "zipper t fs T" and "insertLoop fs T" and "length fs \<le> n"
  shows "\<exists>t' T'. insertFixup n t (rootPtr T) = Inr t' \<and> zipper t' [] T' \<and> redBlack (paint Black T') \<and> inorder T' = sequence fs T \<and> sameKeys t t'"
  using assms
proof (induction n arbitrary: t fs T)
  case 0
  then have "rootPtr T = m_root t" using zipper_top by simp
  then show ?case using 0 insertLoop_done [of "[]" T] by (auto simp: insertFixup.simps)
next
  case (Suc n)
  note z = Suc.prems(1) and i = Suc.prems(2)
  have T: "T \<noteq> Lf" using i by (auto simp: insertLoop_def)
  show ?case
  proof (cases fs)
    case Nil
    then have "rootPtr T = m_root t" using z zipper_top by simp
    then show ?thesis using z i Nil insertLoop_done [of "[]" T] by (auto simp: insertFixup.simps)
  next
    case (Cons f gs)
    obtain s c p u where f: "f = (s, c, p, u)" by (cases f) auto
    have x: "rootPtr T \<noteq> 0" "rootPtr T \<noteq> m_root t" "parentOf (nodes t (rootPtr T)) = p" "p \<noteq> 0" "colorOf (nodes t p) = c"
      using zipper_null [OF z] zipper_root [OF z] zipper_parent [OF z T] zipper_frame [OF z [unfolded Cons f]] T by (simp_all add: Cons f)
    show ?thesis
    proof (cases c)
      case Black
      have "zipper t [] (plug fs T)" using z zipper_plug by blast
      moreover have "redBlack (paint Black (plug fs T))" using insertLoop_done [OF i] by (simp add: Cons f Black)
      moreover have "insertFixup (Suc n) t (rootPtr T) = Inr t" using x Black by (simp add: insertFixup.simps)
      ultimately show ?thesis using sameKeys_refl by (metis inorder_plug sequence_def)
    next
      case Red
      obtain s' g U hs where gs: "gs = (s', Black, g, U) # hs" using insertLoop_grandparent i unfolding Cons f Red by metis
      have zp: "zipper t ((s', Black, g, U) # hs) (mk s Red T p u)" using z by (simp add: Cons f Red gs zipper_up)
      have g: "parentOf (nodes t p) = g" "g \<noteq> 0" "(if p = m_left (nodes t g) then LeftSide else RightSide) = s'"
        using zipper_node [OF zp] zipper_frame [OF zp] zipper_side [OF zp] by simp_all
      obtain t' fs' T' where st: "insertCase s' t (rootPtr T) = Inr (rootPtr T', t')" "zipper t' fs' T'" "insertLoop fs' T'"
        "sequence fs' T' = sequence ((s, Red, p, u) # (s', Black, g, U) # hs) T" "sameKeys t t'" "fs' = hs \<or> (\<exists>s c v. fs' = (s, Black, c, v) # hs)"
        by (rule insertCase_zipper [OF z [unfolded Cons f Red gs] i [unfolded Cons f Red gs]])
      have "length fs' \<le> n" using st(6) Suc.prems(3) by (auto simp: Cons gs)
      from Suc.IH [OF st(2,3) this] obtain t'' T'' where "insertFixup n t' (rootPtr T') = Inr t''" "zipper t'' [] T''" "redBlack (paint Black T'')"
        "inorder T'' = sequence fs' T'" "sameKeys t' t''" by blast
      moreover have "insertFixup (Suc n) t (rootPtr T) = insertFixup n t' (rootPtr T')"
        using x g st(1) Red by (simp add: insertFixup.simps [of "Suc n"])
      ultimately show ?thesis using st(4) sameKeys_trans [OF st(5)] unfolding Cons f Red gs by metis
    qed
  qed
qed


section \<open>Insertion\<close>

text \<open>The nodes of a red-black tree in the store, in the order of their keys.\<close>

definition holdsNodes :: "'k::linorder rbTree \<Rightarrow> ptr list \<Rightarrow> bool" where
  "holdsNodes t L \<longleftrightarrow> (\<exists>T. zipper t [] T \<and> redBlack T \<and> inorder T = L) \<and> sorted (map (\<lambda>a. key (nodes t a)) L)"

definition insertInto :: "(ptr \<Rightarrow> 'k::linorder) \<Rightarrow> ptr \<Rightarrow> ptr list \<Rightarrow> ptr list" where
  "insertInto k x L = takeWhile (\<lambda>a. k a \<le> k x) L @ x # dropWhile (\<lambda>a. k a \<le> k x) L"

lemma insertNode_zipper:
  assumes T: "zipper t [] T" "redBlack T" "sorted (map (\<lambda>a. key (nodes t a)) (inorder T))" and x: "x \<noteq> 0" "aligned x" "x \<notin> set (inorder T)"
  obtains t' T' where "insertNode t x = Inr t'" and "zipper t' [] T'" and "redBlack T'" and "inorder T' = insertInto (\<lambda>a. key (nodes t a)) x (inorder T)" and "sameKeys t t'"
proof -
  let ?k = "\<lambda>a. key (nodes t a)"
  define t0 where "t0 = t\<lparr>nodes := (nodes t)(x := resetNode (nodes t x))\<rparr>"
  have k0: "key (nodes t0 a) = ?k a" for a by (simp add: t0_def)
  have z0: "zipper t0 [] T" using T(1) x(3) by (subst zipper_cong [of _ _ _ t]) (auto simp: t0_def)
  have new: "m_left (nodes t0 x) = 0" "m_right (nodes t0 x) = 0" "parentOf (nodes t0 x) = 0" "colorOf (nodes t0 x) = Red" by (simp_all add: t0_def)
  have depth: "height T \<le> 126" using zipper_depth [OF T(1)] T(2) by simp
  have "\<exists>fs. insertPosition s_maximumTreeDepth t0 x (parentPtr []) (rootPtr T) = Inr (parentPtr fs) \<and> zipper t0 fs Lf \<and> plug fs Lf = plug [] T
      \<and> headSide t0 (key (nodes t0 x)) fs \<and> splitsAt t0 (key (nodes t0 x)) fs"
    using depth T(3) x(1) by (intro insertPosition_zipper [OF z0]) (simp_all add: s_maximumTreeDepth_def splitsAt_def k0)
  then obtain fs where fs: "insertPosition s_maximumTreeDepth t0 x 0 (m_root t0) = Inr (parentPtr fs)" "zipper t0 fs Lf" "plug fs Lf = T"
    "headSide t0 (key (nodes t0 x)) fs" "splitsAt t0 (key (nodes t0 x)) fs" using zipper_top [OF z0] by auto
  have L: "inorder T = before fs @ after fs" using fs(3) inorder_plug [of fs Lf] by simp
  have out: "x \<notin> around fs" using x(3) L by simp
  obtain t1 where "andThen (modify (withParent (parentPtr fs)) t0 x) (\<lambda>t. if parentPtr fs = 0 then Inr (t\<lparr>m_root := x\<rparr>)
       else andThen (load key t x) (\<lambda>kz. andThen (load key t (parentPtr fs)) (\<lambda>ky.
         if kz < ky then modify (withChild LeftSide x) t (parentPtr fs) else modify (withChild RightSide x) t (parentPtr fs)))) = Inr t1"
    and t1: "zipper t1 fs (Nd Red Lf x Lf)" "sameKeys t0 t1"
    by (rule link_zipper [OF fs(2) x(1,2) out new(1,2,4) fs(4)])
  then have ti: "treeInsert t0 x = Inr t1" using new x(1) fs(1) by (simp add: treeInsert_def check_def)
  obtain t2 where t2: "modify (withColor Red) t1 x = Inr t2" "zipper t2 fs (Nd Red Lf x Lf)" "sameKeys t1 t2"
    by (rule color_zipper [of t1 fs LeftSide Red Lf x Lf Red, unfolded mk.simps, OF t1(1)])
  have "insertLoop fs (Nd Red Lf x Lf)" using T(2) unfolding fs(3) [symmetric] redBlack_plug by (cases "fs = []") (auto simp: insertLoop_def)
  moreover have "length fs \<le> s_maximumTreeDepth" using height_plug [of fs Lf] depth by (simp add: fs(3) s_maximumTreeDepth_def)
  ultimately obtain t3 T3 where t3: "insertFixup s_maximumTreeDepth t2 x = Inr t3" "zipper t3 [] T3" "redBlack (paint Black T3)" "inorder T3 = sequence fs (Nd Red Lf x Lf)" "sameKeys t2 t3"
    using insertFixup_zipper [OF t2(2), of s_maximumTreeDepth] by auto
  obtain c l r where T3: "T3 = Nd c l (m_root t3) r" using t3(4) zipper_top [OF t3(2)] by (cases T3) (auto simp: sequence_def)
  obtain t4 where t4: "modify (withColor Black) t3 (m_root t3) = Inr t4" "zipper t4 [] (paint Black T3)" "sameKeys t3 t4"
    using color_zipper [of t3 "[]" LeftSide c l "m_root t3" r Black, unfolded mk.simps] t3(2) unfolding T3 paint.simps by blast
  have keys: "sameKeys t t4"
    using k0 t1(2) t2(3) t3(5) t4(3) by (simp add: sameKeys_def)
  have "\<forall>a \<in> set (before fs). ?k a \<le> ?k x" "\<forall>a \<in> set (after fs). \<not> ?k a \<le> ?k x" using fs(5) by (auto simp: splitsAt_def k0)
  then have "insertInto ?k x (inorder T) = before fs @ x # after fs"
    unfolding insertInto_def L by (simp add: takeWhile_append dropWhile_append) (cases "after fs"; simp)
  moreover have "inorder (paint Black T3) = before fs @ x # after fs" using t3(4) by (simp add: sequence_def)
  moreover have "insertNode t x = Inr t4" using x(1) ti t2(1) t3(1) t4(1) by (simp add: insertNode_def modify_Inr t0_def)
  ultimately show ?thesis using that t4(2) t3(3) keys by simp
qed

end
