(* ===== verification/Red_Black_Search.thy ===== *)
theory Red_Black_Search
  imports Red_Black_Insert
begin

text \<open>
  Searching in a red-black tree: the first and the last node, the neighbours of a node, and the nodes with or next to a key.
\<close>

unbundle bit_operations_syntax


section \<open>Neighbours\<close>

text \<open>The first and the last element of a list of nodes, or null.\<close>

definition firstOf :: "ptr list \<Rightarrow> ptr" where
  "firstOf L = (if L = [] then 0 else hd L)"

definition lastOf :: "ptr list \<Rightarrow> ptr" where
  "lastOf L = (if L = [] then 0 else last L)"

lemma firstOf_simps [simp]: "firstOf [] = 0" "firstOf (a # L) = a"
  by (simp_all add: firstOf_def)

lemma lastOf_simps [simp]: "lastOf [] = 0" "lastOf (L @ [a]) = a" "L' \<noteq> [] \<Longrightarrow> lastOf (L @ L') = lastOf L'"
  by (simp_all add: lastOf_def)

lemma treeExtremum_zipper:
  assumes "zipper t fs T" and "T \<noteq> Lf" and "height T \<le> Suc n"
  shows "\<exists>gs c y u. treeExtremum s n t (rootPtr T) = Inr y \<and> zipper t (gs @ fs) (mk s c Lf y u) \<and> plug gs (mk s c Lf y u) = T
    \<and> (\<forall>f \<in> set gs. fst f = s)"
  using assms
proof (induction n arbitrary: fs T)
  case 0
  then obtain c u a v where T: "T = mk s c u a v" by (cases T rule: mk_cases [where s = s]) auto
  then have "u = Lf" using 0 by (cases u) auto
  then show ?case using 0 T zipper_node [of t fs s c u a v] by (intro exI [of _ "[]"]) (auto simp: treeExtremum.simps)
next
  case (Suc n)
  then obtain c u a v where T: "T = mk s c u a v" by (cases T rule: mk_cases [where s = s]) auto
  note n = zipper_node [of t fs s c u a v, OF Suc.prems(1) [unfolded T]]
  show ?case
  proof (cases "u = Lf")
    case True
    then show ?thesis using Suc.prems T n by (intro exI [of _ "[]"]) (auto simp: treeExtremum.simps)
  next
    case False
    have z: "zipper t ((s, c, a, v) # fs) u" using Suc.prems(1) by (simp add: T zipper_up)
    have "height u \<le> Suc n" using Suc.prems(3) by (simp add: T)
    from Suc.IH [OF z False this] obtain gs d y w where g: "treeExtremum s n t (rootPtr u) = Inr y" "zipper t (gs @ (s, c, a, v) # fs) (mk s d Lf y w)"
      "plug gs (mk s d Lf y w) = u" "\<forall>f \<in> set gs. fst f = s" by blast
    have "rootPtr u \<noteq> 0" using zipper_null [OF z] False by simp
    then have "treeExtremum s (Suc n) t (rootPtr T) = Inr y" using n g(1) by (simp add: T treeExtremum.simps [of s "Suc n"])
    moreover have "plug (gs @ [(s, c, a, v)]) (mk s d Lf y w) = T" using g(3) by (simp add: T plug_append)
    ultimately show ?thesis using g by (intro exI [of _ "gs @ [(s, c, a, v)]"] exI [of _ d] exI [of _ y] exI [of _ w]) auto
  qed
qed

lemma one_sided: "\<forall>f \<in> set gs. fst f = LeftSide \<Longrightarrow> before gs = []" "\<forall>f \<in> set gs. fst f = RightSide \<Longrightarrow> after gs = []"
  by (induction gs) auto

lemma treeMinimum_zipper:
  assumes "zipper t fs T" and "T \<noteq> Lf" and "height T \<le> 126"
  obtains gs c y u where "treeMinimum t (rootPtr T) = Inr y" and "zipper t (gs @ fs) (Nd c Lf y u)" and "plug gs (Nd c Lf y u) = T" and "before gs = []"
  using treeExtremum_zipper [OF assms(1,2), of s_maximumTreeDepth LeftSide] assms(3) one_sided(1)
  by (auto simp: treeMinimum_def s_maximumTreeDepth_def)

lemma treeMinimum_first: "zipper t fs T \<Longrightarrow> T \<noteq> Lf \<Longrightarrow> height T \<le> 126 \<Longrightarrow> treeMinimum t (rootPtr T) = Inr (firstOf (inorder T))"
  by (rule treeMinimum_zipper [of t fs T]) (auto simp: inorder_plug)

lemma treeMaximum_last: "zipper t fs T \<Longrightarrow> T \<noteq> Lf \<Longrightarrow> height T \<le> 126 \<Longrightarrow> treeMaximum t (rootPtr T) = Inr (lastOf (inorder T))"
proof -
  assume a: "zipper t fs T" "T \<noteq> Lf" "height T \<le> 126"
  obtain gs c y u where g: "treeExtremum RightSide s_maximumTreeDepth t (rootPtr T) = Inr y" "plug gs (mk RightSide c Lf y u) = T" "after gs = []"
    using treeExtremum_zipper [OF a(1,2), of s_maximumTreeDepth RightSide] a(3) one_sided(2) by (auto simp: s_maximumTreeDepth_def)
  have "inorder T = (before gs @ inorder u) @ [y]" unfolding g(2) [symmetric] inorder_plug by (simp add: g(3))
  then show ?thesis using g(1) by (simp add: treeMaximum_def)
qed

lemma climb_zipper:
  assumes "zipper t fs T" and "T \<noteq> Lf" and "length fs \<le> n"
  shows "climb s n t (rootPtr T) (parentPtr fs) = Inr (case s of RightSide \<Rightarrow> firstOf (after fs) | LeftSide \<Rightarrow> lastOf (before fs))"
  using assms
proof (induction n arbitrary: fs T)
  case 0
  then show ?case by (cases s) (simp_all add: climb.simps)
next
  case (Suc n)
  show ?case
  proof (cases fs)
    case Nil
    then show ?thesis by (cases s) (simp_all add: climb.simps)
  next
    case (Cons f gs)
    obtain s' c a u where f: "f = (s', c, a, u)" by (cases f) auto
    note z = Suc.prems(1) [unfolded Cons f]
    note n = zipper_frame [OF z]
    have side: "rootPtr T = childOf s (nodes t a) \<longleftrightarrow> s' = s" using n zipper_siblings [OF z] Suc.prems(2) by (cases s; cases s') auto
    show ?thesis
    proof (cases "s' = s")
      case True
      have "climb s n t (rootPtr (mk s' c T a u)) (parentPtr gs) = Inr (case s of RightSide \<Rightarrow> firstOf (after gs) | LeftSide \<Rightarrow> lastOf (before gs))"
        using Suc.prems z by (intro Suc.IH) (simp_all add: zipper_up Cons)
      then show ?thesis using n side True by (cases s) (simp_all add: climb.simps [of _ "Suc n"] Cons f)
    next
      case False
      then show ?thesis using n side by (cases s; cases s') (simp_all add: climb.simps [of _ "Suc n"] Cons f)
    qed
  qed
qed

lemma neighbours_zipper:
  assumes z: "zipper t fs (Nd c l x r)" and rb: "redBlack (plug fs (Nd c l x r))"
  shows "successor t x = Inr (firstOf (inorder r @ after fs))" and "predecessor t x = Inr (lastOf (before fs @ inorder l))"
proof -
  note n = zipper_node [of t fs LeftSide c l x r, unfolded mk.simps, OF z]
  have d: "length fs + height (Nd c l x r) \<le> 126" by (rule zipper_depth [OF z rb])
  have zl: "zipper t ((LeftSide, c, x, r) # fs) l" and zr: "zipper t ((RightSide, c, x, l) # fs) r" using z by (simp_all add: zipper_up)
  have up: "climb s s_maximumTreeDepth t x (parentPtr fs) = Inr (case s of RightSide \<Rightarrow> firstOf (after fs) | LeftSide \<Rightarrow> lastOf (before fs))" for s
    using climb_zipper [OF z] d by (simp add: s_maximumTreeDepth_def)
  show "successor t x = Inr (firstOf (inorder r @ after fs))"
  proof (cases "r = Lf")
    case False
    then have "inorder r \<noteq> []" by (cases r) auto
    then have "firstOf (inorder r @ after fs) = firstOf (inorder r)" by (simp add: firstOf_def)
    then show ?thesis using n False zipper_null [OF zr] treeMinimum_first [OF zr False] d by (simp add: successor_def)
  qed (use n up in \<open>simp add: successor_def\<close>)
  show "predecessor t x = Inr (lastOf (before fs @ inorder l))"
  proof (cases "l = Lf")
    case False
    then have "inorder l \<noteq> []" by (cases l) auto
    then show ?thesis using n False zipper_null [OF zl] treeMaximum_last [OF zl False] d by (simp add: predecessor_def)
  qed (use n up in \<open>simp add: predecessor_def\<close>)
qed


section \<open>Searching for a key\<close>

abbreviation keyAt :: "'k rbTree \<Rightarrow> ptr \<Rightarrow> 'k" where
  "keyAt t a \<equiv> key (nodes t a)"

lemma sorted_node:
  assumes "sorted (map k (inorder (Nd c l a r)))"
  shows "sorted (map k (inorder l))" and "sorted (map k (inorder r))" and "\<forall>b \<in> set (inorder l). k b \<le> k a" and "\<forall>b \<in> set (inorder r). k a \<le> k b"
  using assms by (auto simp: sorted_append)

lemma findExactFrom_zipper:
  assumes "zipper t fs T" and "height T \<le> n" and "sorted (map (keyAt t) (inorder T))"
  shows "\<exists>p. findExactFrom n t k (rootPtr T) = Inr p \<and> (if p = 0 then \<forall>a \<in> set (inorder T). keyAt t a \<noteq> k else p \<in> set (inorder T) \<and> keyAt t p = k)"
  using assms
proof (induction T arbitrary: fs n)
  case Lf
  then show ?case by (simp add: findExactFrom.simps)
next
  case (Nd c l a r)
  obtain m where n: "n = Suc m" using Nd.prems(2) by (cases n) auto
  note node = zipper_node [of t fs LeftSide c l a r, unfolded mk.simps, OF Nd.prems(1)]
  note srt = sorted_node [OF Nd.prems(3)]
  have zl: "zipper t ((LeftSide, c, a, r) # fs) l" and zr: "zipper t ((RightSide, c, a, l) # fs) r" using Nd.prems(1) by (simp_all add: zipper_up)
  consider "keyAt t a = k" | "k < keyAt t a" | "keyAt t a < k" using less_linear by blast
  then show ?case
  proof cases
    case 1
    then show ?thesis using node by (auto simp: findExactFrom.simps [of "Suc m"] n)
  next
    case 2
    obtain p where p: "findExactFrom m t k (rootPtr l) = Inr p" "if p = 0 then \<forall>a \<in> set (inorder l). keyAt t a \<noteq> k else p \<in> set (inorder l) \<and> keyAt t p = k"
      using Nd.IH(1) [OF zl _ srt(1)] Nd.prems(2) n by fastforce
    have "\<forall>b \<in> set (inorder r). keyAt t b \<noteq> k" using 2 srt(4) by force
    then show ?thesis using 2 node p by (auto simp: findExactFrom.simps [of "Suc m"] n split: if_splits)
  next
    case 3
    obtain p where p: "findExactFrom m t k (rootPtr r) = Inr p" "if p = 0 then \<forall>a \<in> set (inorder r). keyAt t a \<noteq> k else p \<in> set (inorder r) \<and> keyAt t p = k"
      using Nd.IH(2) [OF zr _ srt(2)] Nd.prems(2) n by fastforce
    have "\<forall>b \<in> set (inorder l). keyAt t b \<noteq> k" using 3 srt(3) by force
    then show ?thesis using 3 node p by (auto simp: findExactFrom.simps [of "Suc m"] n split: if_splits)
  qed
qed

text \<open>The node with the least key that is not less than \<open>k\<close>, and the mirror image; \<open>best\<close> is the answer when the tree has none.\<close>

definition leastFrom :: "(ptr \<Rightarrow> 'k::linorder) \<Rightarrow> 'k \<Rightarrow> ptr \<Rightarrow> ptr set \<Rightarrow> ptr \<Rightarrow> bool" where
  "leastFrom f k best A p \<longleftrightarrow> (p = best \<and> (\<forall>a \<in> A. f a < k)) \<or> (p \<in> A \<and> k \<le> f p \<and> (\<forall>a \<in> A. k \<le> f a \<longrightarrow> f p \<le> f a))"

definition greatestFrom :: "(ptr \<Rightarrow> 'k::linorder) \<Rightarrow> 'k \<Rightarrow> ptr \<Rightarrow> ptr set \<Rightarrow> ptr \<Rightarrow> bool" where
  "greatestFrom f k best A p \<longleftrightarrow> (p = best \<and> (\<forall>a \<in> A. k < f a)) \<or> (p \<in> A \<and> f p \<le> k \<and> (\<forall>a \<in> A. f a \<le> k \<longrightarrow> f a \<le> f p))"

lemma leastFrom_node:
  assumes "\<forall>b \<in> L. f b \<le> f a" and "\<forall>b \<in> R. f a \<le> f b"
  shows "f a < k \<Longrightarrow> leastFrom f k best R p \<Longrightarrow> leastFrom f k best (L \<union> {a} \<union> R) p" and "k < f a \<Longrightarrow> leastFrom f k a L p \<Longrightarrow> leastFrom f k best (L \<union> {a} \<union> R) p"
    and "f a = k \<Longrightarrow> leastFrom f k best (L \<union> {a} \<union> R) a"
proof -
  assume "f a < k" "leastFrom f k best R p"
  moreover from this(1) have "\<forall>b \<in> L. f b < k" using assms(1) by (meson le_less_trans)
  ultimately show "leastFrom f k best (L \<union> {a} \<union> R) p" unfolding leastFrom_def by (auto simp: not_less [symmetric])
next
  assume a: "k < f a" "leastFrom f k a L p"
  show "leastFrom f k best (L \<union> {a} \<union> R) p"
  proof (cases "p = a \<and> (\<forall>b \<in> L. f b < k)")
    case True
    then show ?thesis using a(1) assms by (fastforce simp: leastFrom_def)
  next
    case False
    then have "p \<in> L" "k \<le> f p" "\<forall>b \<in> L. k \<le> f b \<longrightarrow> f p \<le> f b" using a(2) by (auto simp: leastFrom_def)
    then show ?thesis using assms by (fastforce simp: leastFrom_def)
  qed
next
  assume "f a = k"
  then show "leastFrom f k best (L \<union> {a} \<union> R) a" by (auto simp: leastFrom_def)
qed

lemma greatestFrom_node:
  assumes "\<forall>b \<in> L. f b \<le> f a" and "\<forall>b \<in> R. f a \<le> f b"
  shows "k < f a \<Longrightarrow> greatestFrom f k best L p \<Longrightarrow> greatestFrom f k best (L \<union> {a} \<union> R) p" and "f a < k \<Longrightarrow> greatestFrom f k a R p \<Longrightarrow> greatestFrom f k best (L \<union> {a} \<union> R) p"
    and "f a = k \<Longrightarrow> greatestFrom f k best (L \<union> {a} \<union> R) a"
proof -
  assume "k < f a" "greatestFrom f k best L p"
  moreover from this(1) have "\<forall>b \<in> R. k < f b" using assms(2) by (meson less_le_trans)
  ultimately show "greatestFrom f k best (L \<union> {a} \<union> R) p" unfolding greatestFrom_def by (auto simp: not_less [symmetric])
next
  assume a: "f a < k" "greatestFrom f k a R p"
  show "greatestFrom f k best (L \<union> {a} \<union> R) p"
  proof (cases "p = a \<and> (\<forall>b \<in> R. k < f b)")
    case True
    then show ?thesis using a(1) assms by (fastforce simp: greatestFrom_def)
  next
    case False
    then have "p \<in> R" "f p \<le> k" "\<forall>b \<in> R. f b \<le> k \<longrightarrow> f b \<le> f p" using a(2) by (auto simp: greatestFrom_def)
    then show ?thesis using assms by (fastforce simp: greatestFrom_def)
  qed
next
  assume "f a = k"
  then show "greatestFrom f k best (L \<union> {a} \<union> R) a" by (auto simp: greatestFrom_def)
qed

lemma inorder_set_node: "set (inorder (Nd c l a r)) = set (inorder l) \<union> {a} \<union> set (inorder r)"
  by auto

lemma findLeastFrom_zipper:
  assumes "zipper t fs T" and "height T \<le> n" and "sorted (map (keyAt t) (inorder T))"
  shows "\<exists>p. findLeastFrom n t k best (rootPtr T) = Inr p \<and> leastFrom (keyAt t) k best (set (inorder T)) p"
  using assms
proof (induction T arbitrary: fs n best)
  case Lf
  then show ?case by (simp add: findLeastFrom.simps leastFrom_def)
next
  case (Nd c l a r)
  obtain m where n: "n = Suc m" using Nd.prems(2) by (cases n) auto
  note node = zipper_node [of t fs LeftSide c l a r, unfolded mk.simps, OF Nd.prems(1)]
  note srt = sorted_node [OF Nd.prems(3)]
  note least = leastFrom_node [OF srt(3,4), folded inorder_set_node [of c l a r]]
  have zl: "zipper t ((LeftSide, c, a, r) # fs) l" and zr: "zipper t ((RightSide, c, a, l) # fs) r" using Nd.prems(1) by (simp_all add: zipper_up)
  have h: "height l \<le> m" "height r \<le> m" using Nd.prems(2) n by simp_all
  consider "keyAt t a = k" | "k < keyAt t a" | "keyAt t a < k" using less_linear by blast
  then show ?case
  proof cases
    case 1
    then show ?thesis using node least(3) by (simp add: findLeastFrom.simps [of "Suc m"] n del: inorder.simps)
  next
    case 2
    then show ?thesis using Nd.IH(1) [OF zl h(1) srt(1), of a] node least(2) by (auto simp: findLeastFrom.simps [of "Suc m"] n simp del: inorder.simps)
  next
    case 3
    then show ?thesis using Nd.IH(2) [OF zr h(2) srt(2), of best] node least(1) by (auto simp: findLeastFrom.simps [of "Suc m"] n simp del: inorder.simps)
  qed
qed

lemma findGreatestFrom_zipper:
  assumes "zipper t fs T" and "height T \<le> n" and "sorted (map (keyAt t) (inorder T))"
  shows "\<exists>p. findGreatestFrom n t k best (rootPtr T) = Inr p \<and> greatestFrom (keyAt t) k best (set (inorder T)) p"
  using assms
proof (induction T arbitrary: fs n best)
  case Lf
  then show ?case by (simp add: findGreatestFrom.simps greatestFrom_def)
next
  case (Nd c l a r)
  obtain m where n: "n = Suc m" using Nd.prems(2) by (cases n) auto
  note node = zipper_node [of t fs LeftSide c l a r, unfolded mk.simps, OF Nd.prems(1)]
  note srt = sorted_node [OF Nd.prems(3)]
  note greatest = greatestFrom_node [OF srt(3,4), folded inorder_set_node [of c l a r]]
  have zl: "zipper t ((LeftSide, c, a, r) # fs) l" and zr: "zipper t ((RightSide, c, a, l) # fs) r" using Nd.prems(1) by (simp_all add: zipper_up)
  have h: "height l \<le> m" "height r \<le> m" using Nd.prems(2) n by simp_all
  consider "keyAt t a = k" | "k < keyAt t a" | "keyAt t a < k" using less_linear by blast
  then show ?case
  proof cases
    case 1
    then show ?thesis using node greatest(3) by (simp add: findGreatestFrom.simps [of "Suc m"] n del: inorder.simps)
  next
    case 2
    then show ?thesis using Nd.IH(1) [OF zl h(1) srt(1), of best] node greatest(1) by (auto simp: findGreatestFrom.simps [of "Suc m"] n simp del: inorder.simps)
  next
    case 3
    then show ?thesis using Nd.IH(2) [OF zr h(2) srt(2), of a] node greatest(2) by (auto simp: findGreatestFrom.simps [of "Suc m"] n simp del: inorder.simps)
  qed
qed


section \<open>The number of nodes\<close>

lemma find_zipper: "a \<in> set (inorder T) \<Longrightarrow> \<exists>fs c l r. plug fs (Nd c l a r) = T"
proof (induction T)
  case (Nd c l b r)
  consider "a \<in> set (inorder l)" | "a = b" | "a \<in> set (inorder r)" using Nd.prems by auto
  then show ?case
  proof cases
    case 1
    then obtain fs c' l' r' where "plug fs (Nd c' l' a r') = l" using Nd.IH(1) by blast
    then have "plug (fs @ [(LeftSide, c, b, r)]) (Nd c' l' a r') = Nd c l b r" by (simp add: plug_append)
    then show ?thesis by blast
  next
    case 2
    have "plug [] (Nd c l a r) = Nd c l b r" by (simp add: 2)
    then show ?thesis by blast
  next
    case 3
    then obtain fs c' l' r' where "plug fs (Nd c' l' a r') = r" using Nd.IH(2) by blast
    then have "plug (fs @ [(RightSide, c, b, l)]) (Nd c' l' a r') = Nd c l b r" by (simp add: plug_append)
    then show ?thesis by blast
  qed
qed simp

lemma split_unique: "distinct (A @ x # B) \<Longrightarrow> A @ x # B = A' @ x # B' \<Longrightarrow> A = A' \<and> B = B'"
  by (metis append_Cons_eq_iff distinct.simps(2) distinct_append not_distinct_conv_prefix)

lemma neighbours:
  assumes z: "zipper t [] T" and rb: "redBlack T" and L: "inorder T = A @ x # B"
  shows "successor t x = Inr (firstOf B)" and "predecessor t x = Inr (lastOf A)"
proof -
  obtain fs c l r where p: "plug fs (Nd c l x r) = T" using find_zipper [of x T] L by auto
  have z': "zipper t fs (Nd c l x r)" using z zipper_plug [of t fs "Nd c l x r"] by (simp add: p)
  have "inorder T = (before fs @ inorder l) @ x # (inorder r @ after fs)" using inorder_plug [of fs "Nd c l x r"] by (simp add: p)
  moreover have "distinct (inorder T)" using zipper_distinct [OF z] by simp
  ultimately have "A = before fs @ inorder l" "B = inorder r @ after fs" using L split_unique by metis+
  then show "successor t x = Inr (firstOf B)" "predecessor t x = Inr (lastOf A)" using neighbours_zipper [OF z'] rb p by simp_all
qed

lemma countNodes_suffix:
  assumes z: "zipper t [] T" and rb: "redBlack T" and L: "inorder T = A @ B"
  shows "countNodes t (firstOf B) n = Some (Inr (n + length B))"
  using L
proof (induction B arbitrary: A n)
  case Nil
  then show ?case by (simp add: countNodes.simps)
next
  case (Cons x B)
  have "x \<noteq> 0" using z Cons.prems treeAt_not_null [of "nodes t" _ _ T x] by (auto simp: zipper_def zipperAt_def)
  then show ?case using Cons.IH [of "A @ [x]" "n + 1"] Cons.prems neighbours(1) [OF z rb Cons.prems] by (simp add: countNodes.simps [of t x])
qed


section \<open>Visiting the nodes\<close>

text \<open>The order of the visits: a node, then what it asks for of its right subtree, then of its left subtree.\<close>

fun visit :: "('s \<Rightarrow> ptr \<Rightarrow> bool \<times> bool \<times> 's) \<Rightarrow> rbt \<Rightarrow> 's \<Rightarrow> 's" where
  "visit f Lf st = st"
| "visit f (Nd c l a r) st = (case f st a of (iterateLeft, iterateRight, st') \<Rightarrow>
     let st'' = if iterateRight then visit f r st' else st' in if iterateLeft then visit f l st'' else st'')"

text \<open>A callback that leaves the tree alone.\<close>

definition reading :: "('s \<Rightarrow> ptr \<Rightarrow> bool \<times> bool \<times> 's) \<Rightarrow> ('k, 's) visitor" where
  "reading f p = (\<lambda>(t, st). case f st p of (l, r, st') \<Rightarrow> (l, r, t, st'))"

abbreviation nodeCount :: "rbt list \<Rightarrow> nat" where
  "nodeCount Ts \<equiv> sum_list (map (length \<circ> inorder) Ts)"

lemma iterateLoop_visits:
  assumes "list_all2 (\<lambda>p T. p \<noteq> 0 \<and> (\<exists>q. treeAt (nodes t) q p T)) ps Ts" and "count + nodeCount Ts < 2 ^ 32 - 1"
  shows "iterateLoop (reading f) count ps (t, st) = Some (Inr (t, fold (visit f) Ts st))"
  using assms
proof (induction "nodeCount Ts" arbitrary: ps Ts count st rule: less_induct)
  case less
  show ?case
  proof (cases ps)
    case Nil
    then show ?thesis using less.prems by (simp add: iterateLoop.simps)
  next
    case (Cons p ps')
    then obtain T Ts' q where Ts: "Ts = T # Ts'" "p \<noteq> 0" "treeAt (nodes t) q p T"
        "list_all2 (\<lambda>p T. p \<noteq> 0 \<and> (\<exists>q. treeAt (nodes t) q p T)) ps' Ts'"
      using less.prems by (auto simp: list_all2_Cons1)
    then obtain c l r where T: "T = Nd c l p r" by (cases T) auto
    obtain gl gr st' where f: "f st p = (gl, gr, st')" by (metis prod_cases3)
    define push where "push = (\<lambda>g U Us. if g \<and> U \<noteq> Lf then U # Us else Us)"
    let ?Us = "push gr r (push gl l Ts')"
    have step: "iterateStep (reading f) p ps' (t, st) = Inr (pushChild gr (m_right (nodes t p)) (pushChild gl (m_left (nodes t p)) ps'), t, st')"
      using Ts(2) f by (simp add: iterateStep_def reading_def load_def)
    have null: "treeAt (nodes t) q' c' U \<Longrightarrow> c' = 0 \<longleftrightarrow> U = Lf" for q' c' U by (cases U) auto
    have "list_all2 (\<lambda>p T. p \<noteq> 0 \<and> (\<exists>q. treeAt (nodes t) q p T)) (pushChild gr (m_right (nodes t p)) (pushChild gl (m_left (nodes t p)) ps')) ?Us"
      using Ts(3,4) null [of p "m_left (nodes t p)" l] null [of p "m_right (nodes t p)" r] unfolding T by (auto simp: pushChild_def push_def)
    moreover have "nodeCount ?Us < nodeCount Ts" unfolding Ts T push_def by auto
    moreover have "fold (visit f) ?Us st' = fold (visit f) Ts st" unfolding Ts T push_def by (auto simp: f Let_def)
    ultimately show ?thesis using less.hyps [of ?Us _ "count + 1" st'] less.prems(2) step unfolding Cons by (subst iterateLoop.simps) auto
  qed
qed

lemma iterateNodes_visits: "zipper t [] T \<Longrightarrow> length (inorder T) < 2 ^ 32 - 1 \<Longrightarrow> iterateNodes (reading f) t st = Some (Inr (t, visit f T st))"
  using iterateLoop_visits [of t "[m_root t]" "[T]" 0 f st] by (cases T) (auto simp: iterateNodes_def zipper_def zipperAt_def)

definition collect :: "ptr list \<Rightarrow> ptr \<Rightarrow> bool \<times> bool \<times> ptr list" where
  "collect ps p = (True, True, ps @ [p])"

lemma visit_collect: "\<exists>P. visit collect T ps = ps @ P \<and> set P = set (inorder T) \<and> length P = length (inorder T)"
proof (induction T arbitrary: ps)
  case (Nd c l a r)
  obtain P where P: "visit collect r (ps @ [a]) = (ps @ [a]) @ P" "set P = set (inorder r)" "length P = length (inorder r)" using Nd.IH(2) by blast
  obtain Q where Q: "visit collect l ((ps @ [a]) @ P) = ((ps @ [a]) @ P) @ Q" "set Q = set (inorder l)" "length Q = length (inorder l)" using Nd.IH(1) by blast
  show ?case using P Q by (intro exI [of _ "a # P @ Q"]) (auto simp: collect_def [of ps a])
qed simp

end
