(* ===== verification/Red_Black_Remove.thy ===== *)
theory Red_Black_Remove
  imports Red_Black_Search
begin

text \<open>
  Removal from a red-black tree: unlinking a node that has at most one child, the loop that makes up for a missing black node, and the
  successor taking the place of a node with two children.
\<close>

unbundle bit_operations_syntax


section \<open>Unlinking a node\<close>

lemma unlink_zipper:
  assumes z: "zipper t fs (Nd c l y r)" and lr: "l = Lf \<or> r = Lf"
  defines "T \<equiv> if l = Lf then r else l"
  obtains t' where "unlinkNode t y = Inr (rootPtr T, parentPtr fs, t')" and "zipper t' fs T" and "nodes t' y = nodes t y" and "sameKeys t t'"
proof -
  define h q where "h = nodes t" and "q = parentPtr fs"
  have n: "y \<noteq> 0" "aligned y" "parentOf (h y) = q" "treeAt h y (rootPtr l) l" "treeAt h y (rootPtr r) r" "framesAt h (m_root t) q y fs"
    using z treeAt_rootPtr [of h y] by (auto simp: zipper_def zipperAt_def h_def q_def)
  have ch: "m_left (h y) = rootPtr l" "m_right (h y) = rootPtr r" using zipper_node [of t fs LeftSide c l y r] z by (simp_all add: h_def)
  have aq: "aligned q" using z zipperAt_aligned unfolding zipper_def q_def by blast
  have d: "distinct (before fs @ after fs)" "y \<notin> around fs" "y \<notin> set (inorder T)" "set (inorder T) \<inter> around fs = {}" "distinct (inorder T)"
    using zipper_distinct [OF z] by (auto simp: distinct_sequence T_def)
  define b g where "b = rootPtr T" and "g = (if b = 0 then h else h(b := withParent q (h b)))"
  have T: "treeAt h y b T" using n(4,5) by (simp add: T_def b_def)
  have b: "b \<in> set (inorder T)" if "b \<noteq> 0" using treeAt_pointer [OF T that] .
  have goff: "g a = h a" if "a \<notin> set (inorder T)" for a using that b by (auto simp: g_def)
  define t1 where "t1 = t\<lparr>nodes := g\<rparr>"
  have "g a = h a" if "a \<in> around fs" for a using that goff d(4) by blast
  then have "framesAt (nodes t1) (m_root t1) q y fs" using n(6) framesAt_cong [of fs g h] by (simp add: t1_def)
  then obtain t2 where t2: "replaceChild t1 q y b = Inr t2" "framesAt (nodes t2) (m_root t2) q b fs" "\<forall>a. a \<notin> around fs \<longrightarrow> nodes t2 a = nodes t1 a" "sameKeys t1 t2"
    by (rule replaceChild_frames [OF _ n(1) d(2,1)])
  have "treeAt g q b T" using treeAt_reparent [OF T d(5) aq] by (simp add: g_def)
  then have "treeAt (nodes t2) q b T" using t2(3) d(4) by (subst treeAt_cong [of T _ g]) (auto simp: t1_def)
  moreover have "distinct (sequence fs T)" using d by (auto simp: distinct_sequence)
  ultimately have "zipper t2 fs T" using t2(2) by (simp add: zipper_def zipperAt_def q_def b_def)
  moreover have y2: "nodes t2 y = h y" using t2(3) d(2) goff [OF d(3)] by (simp add: t1_def)
  moreover have "sameKeys t t2" using t2(4) by (simp add: sameKeys_def t1_def g_def h_def)
  moreover have "unlinkNode t y = Inr (b, q, t2)"
  proof -
    have lf: "rootPtr l = 0 \<longleftrightarrow> l = Lf" using n(4) by (cases l) auto
    have x: "(if rootPtr l \<noteq> 0 then Inr (rootPtr l) else Inr (rootPtr r)) = Inr b" using lf by (simp add: b_def T_def)
    have p: "parentOf (g y) = q" using goff [OF d(3)] n(3) by simp
    show ?thesis
      using n(1) x p t2(1) aq unfolding unlinkNode_def
      by (cases "b = 0") (auto simp: ch [unfolded h_def] n(3) [unfolded h_def] modify_Inr t1_def g_def h_def split: if_splits)
  qed
  ultimately show ?thesis using that [of t2] by (simp add: b_def q_def h_def)
qed

lemma takePlace_zipper:
  assumes z: "zipper t fs (Nd c l z r)" and y: "y \<noteq> 0" "aligned y" "y \<notin> set (sequence fs (Nd c l z r))"
  obtains t' where "takePlace t y z = Inr t'" and "zipper t' fs (Nd c l y r)" and "sameKeys t t'"
proof -
  define h q bl br where "h = nodes t" and "q = parentPtr fs" and "bl = rootPtr l" and "br = rootPtr r"
  have n: "z \<noteq> 0" "parentOf (h z) = q" "colorOf (h z) = c" "m_left (h z) = bl" "m_right (h z) = br"
    using zipper_node [of t fs LeftSide c l z r] z by (simp_all add: h_def q_def bl_def br_def)
  have tr: "treeAt h z bl l" "treeAt h z br r" "framesAt h (m_root t) q z fs"
    using z n(4,5) by (auto simp: zipper_def zipperAt_def h_def q_def)
  have aq: "aligned q" using z zipperAt_aligned unfolding zipper_def q_def by blast
  have d: "distinct (before fs @ after fs)" "z \<notin> around fs" "z \<notin> set (inorder l)" "z \<notin> set (inorder r)" "set (inorder l) \<inter> around fs = {}" "set (inorder r) \<inter> around fs = {}"
    "distinct (inorder l)" "distinct (inorder r)" "set (inorder l) \<inter> set (inorder r) = {}" using zipper_distinct [OF z] by (auto simp: distinct_sequence)
  have out: "y \<notin> around fs" "y \<noteq> z" "y \<notin> set (inorder l)" "y \<notin> set (inorder r)" using y(3) by (auto simp: sequence_def)
  have bl: "bl \<in> set (inorder l)" if "bl \<noteq> 0" using treeAt_pointer [OF tr(1) that] .
  have br: "br \<in> set (inorder r)" if "br \<noteq> 0" using treeAt_pointer [OF tr(2) that] .
  define n4 where "n4 = withChild RightSide br (withChild LeftSide bl (withColor c (withParent q (h y))))"
  define f where "f b g = (if b = 0 then g else g(b := withParent y (g b)))" for b and g :: "ptr \<Rightarrow> 'a rbNode"
  define t6 where "t6 = t\<lparr>nodes := f br (f bl (h(y := n4)))\<rparr>"
  have foff: "f b g a = g a" if "a \<noteq> b \<or> b = 0" for b g a using that by (auto simp: f_def)
  have off: "nodes t6 a = h a" if "a \<noteq> y" "a \<notin> set (inorder l)" "a \<notin> set (inorder r)" for a
    using that bl br foff [of a br] foff [of a bl] unfolding t6_def by (auto simp: f_def)
  have "framesAt (nodes t6) (m_root t6) q z fs"
  proof -
    have "nodes t6 a = h a" if "a \<in> around fs" for a using that off out(1) d(5,6) by (metis disjoint_iff)
    then show ?thesis using framesAt_cong [of fs "nodes t6" h] tr(3) by (simp add: t6_def)
  qed
  then obtain t7 where t7: "replaceChild t6 q z y = Inr t7" "framesAt (nodes t7) (m_root t7) q y fs" "\<forall>a. a \<notin> around fs \<longrightarrow> nodes t7 a = nodes t6 a" "sameKeys t6 t7"
    by (rule replaceChild_frames [OF _ n(1) d(2,1)])
  have ne: "bl \<noteq> 0 \<Longrightarrow> bl \<noteq> y \<and> bl \<noteq> z \<and> bl \<noteq> br" "br \<noteq> 0 \<Longrightarrow> br \<noteq> y \<and> br \<noteq> z" using bl br out d by blast+
  have y7: "nodes t7 y = n4" using t7(3) out(1) ne by (auto simp: t6_def f_def)
  have "treeAt (f bl h) y bl l" using treeAt_reparent [OF tr(1) d(7) y(2)] by (simp add: f_def)
  moreover have "nodes t7 a = f bl h a" if a: "a \<in> set (inorder l)" for a
  proof -
    have "a \<notin> around fs" "a \<noteq> y" "br \<noteq> 0 \<Longrightarrow> a \<noteq> br" using a d out br by blast+
    then show ?thesis using t7(3) ne by (simp add: t6_def f_def)
  qed
  ultimately have L: "treeAt (nodes t7) y bl l" using treeAt_cong [of l "nodes t7" "f bl h"] by simp
  have "treeAt (f br h) y br r" using treeAt_reparent [OF tr(2) d(8) y(2)] by (simp add: f_def)
  moreover have "nodes t7 a = f br h a" if a: "a \<in> set (inorder r)" for a
  proof -
    have "a \<notin> around fs" "a \<noteq> y" "bl \<noteq> 0 \<Longrightarrow> a \<noteq> bl" using a d out bl by blast+
    then show ?thesis using t7(3) ne by (simp add: t6_def f_def)
  qed
  ultimately have R: "treeAt (nodes t7) y br r" using treeAt_cong [of r "nodes t7" "f br h"] by simp
  have n4: "parentOf n4 = q" "colorOf n4 = c" "m_left n4 = bl" "m_right n4 = br"
    using aq by (simp_all add: n4_def del: withChild.simps) simp_all
  have "distinct (sequence fs (Nd c l y r))" using zipper_distinct [OF z] out by (auto simp: distinct_sequence)
  then have "zipper t7 fs (Nd c l y r)"
    using t7(2) y7 L R y(1,2) aq by (simp add: zipper_def zipperAt_def n4 q_def [symmetric])
  moreover have "takePlace t y z = Inr t7"
  proof -
    define t4 t5 where "t4 = t\<lparr>nodes := h(y := n4)\<rparr>" and "t5 = t\<lparr>nodes := f bl (h(y := n4))\<rparr>"
    have z4: "nodes t4 z = h z" "nodes t5 z = h z" "nodes t6 z = h z" using out(2) ne by (auto simp: t4_def t5_def t6_def f_def)
    have "q \<noteq> 0 \<or> m_root t6 = z" using tr(3) by (cases fs) (auto simp: t6_def)
    then have e: "modifyIfNotNull (withParent y) t4 bl = Inr t5" "modifyIfNotNull (withParent y) t5 br = Inr t6" "check AssertionFailed (q \<noteq> 0 \<or> m_root t6 = z) = Inr ()"
      by (simp_all add: modifyIfNotNull_Inr t4_def t5_def t6_def f_def check_def)
    have w: "t\<lparr>nodes := h(y := n4)\<rparr> = t4" by (simp add: t4_def)
    show ?thesis
      unfolding takePlace_def
      using n(1) y(1) out(2) e z4 t7(1) n(2-5) w
      by (simp add: modify_Inr n4_def h_def)
  qed
  moreover have "sameKeys t t7" using t7(4) by (simp add: sameKeys_def t6_def f_def n4_def h_def)
  ultimately show ?thesis using that by blast
qed


section \<open>Making up for a black node\<close>

text \<open>The state of the loop: the tree at the hole has one black node too few on every path. Its root may be red below a red node.\<close>

definition removeLoop :: "frame list \<Rightarrow> rbt \<Rightarrow> bool" where
  "removeLoop fs T \<longleftrightarrow> invc (paint Black T) \<and> invh T \<and> fitsColor fs Black \<and> fitsHeight fs (Suc (bheight T)) \<and> rootBlack fs"

lemma paint_Black_id: "colorT T = Black \<Longrightarrow> paint Black T = T"
  by (cases T) auto

lemma removeLoop_done: "removeLoop fs T \<Longrightarrow> fs = [] \<or> colorT T = Red \<Longrightarrow> redBlack (plug fs (paint Black T))"
  by (auto simp: removeLoop_def redBlack_plug)

lemma nullOrBlack_zipper: "zipper t fs T \<Longrightarrow> nullOrBlack t (rootPtr T) = Inr (colorT T = Black)"
  using nullOrBlack_root [of t fs T] by (cases T) auto

text \<open>Case 3, when the far child of the sibling is black.\<close>

lemma remove_case3:
  assumes z: "zipper t ((s, c, p, mk s Black (mk s Red a n b) w F) # fs) T"
  obtains t' where "removeInner s t p w = Inr (n, t')"
    and "zipper t' ((s, c, p, mk s Black a n (mk s Red b w F)) # fs) T" and "sameKeys t t'"
proof -
  let ?fs = "(other s, c, p, T) # fs"
  have z0: "zipper t ?fs (mk s Black (mk s Red a n b) w F)" using z by (simp only: zipper_across [of t s])
  have z1: "zipper t ((s, Black, w, F) # ?fs) (mk s Red a n b)" using z0 by (simp add: zipper_up)
  obtain t1 where t1: "modify (withColor Black) t n = Inr t1" "zipper t1 ((s, Black, w, F) # ?fs) (mk s Black a n b)" "sameKeys t t1" by (rule color_zipper [OF z1])
  obtain t2 where t2: "modify (withColor Red) t1 w = Inr t2" "zipper t2 ?fs (mk s Red (mk s Black a n b) w F)" "sameKeys t1 t2"
    by (rule color_zipper [OF t1(2) [unfolded zipper_up [of t1 s]]])
  have "zipper t2 ?fs (mk (other s) Red F w (mk (other s) Black b n a))" using t2(2) by (simp only: mk_other)
  then obtain t3 where t3: "rotateTo (other s) t2 w = Inr t3" "zipper t3 ?fs (mk (other s) Black (mk (other s) Red F w b) n a)" "sameKeys t2 t3" by (rule rotateTo_zipper)
  have z3: "zipper t3 ((s, c, p, mk s Black a n (mk s Red b w F)) # fs) T" using t3(2) by (simp add: zipper_up mk_other)
  have "sameKeys t t3" using t1(3) t2(3) t3(3) by (metis sameKeys_trans)
  then show ?thesis using that [of t3] z3 zipper_node [OF z0] zipper_frame [OF z3] t1(1) t2(1) t3(1) by (simp add: removeInner_def)
qed

text \<open>Case 4, when the far child of the sibling is red.\<close>

lemma remove_case4:
  assumes z: "zipper t ((s, c, p, mk s Black N w (mk s Red a f b)) # fs) T"
  obtains t' where "removeOuter s t p w = Inr (m_root t', 0, t')"
    and "zipper t' [] (plug fs (mk s c (mk s Black T p N) w (mk s Black a f b)))" and "sameKeys t t'"
proof -
  let ?fs = "(other s, c, p, T) # fs"
  have z0: "zipper t ?fs (mk s Black N w (mk s Red a f b))" using z by (simp only: zipper_across [of t s])
  obtain t1 where t1: "modify (withColor c) t w = Inr t1" "zipper t1 ?fs (mk s c N w (mk s Red a f b))" "sameKeys t t1" by (rule color_zipper [OF z0])
  obtain t2 where t2: "modify (withColor Black) t1 p = Inr t2" "zipper t2 fs (mk (other s) Black (mk s c N w (mk s Red a f b)) p T)" "sameKeys t1 t2"
    by (rule color_zipper [OF t1(2) [unfolded zipper_up [of t1 "other s"]]])
  have z2: "zipper t2 ((other s, Black, p, T) # fs) (mk s c N w (mk s Red a f b))" using t2(2) by (simp add: zipper_up)
  have "zipper t2 ((other s, c, w, N) # (other s, Black, p, T) # fs) (mk s Red a f b)" using z2 by (simp add: zipper_up mk_other)
  then obtain t3 where t3: "modify (withColor Black) t2 f = Inr t3" "zipper t3 ((other s, c, w, N) # (other s, Black, p, T) # fs) (mk s Black a f b)" "sameKeys t2 t3"
    by (rule color_zipper)
  have "zipper t3 fs (mk s Black T p (mk s c N w (mk s Black a f b)))" using t3(2) by (simp add: zipper_up mk_other)
  then obtain t4 where t4: "rotateTo s t3 p = Inr t4" "zipper t4 fs (mk s c (mk s Black T p N) w (mk s Black a f b))" "sameKeys t3 t4" by (rule rotateTo_zipper)
  let ?T = "plug fs (mk s c (mk s Black T p N) w (mk s Black a f b))"
  have z4: "zipper t4 [] ?T" using t4(2) zipper_plug by blast
  have ne: "?T \<noteq> Lf" by (metis append_is_Nil_conv inorder.simps(1) inorder_plug list.set_intros(1) set_inorder_mk list.set(1) insert_not_empty)
  have root: "m_root t4 \<noteq> 0" "parentOf (nodes t4 (m_root t4)) = 0" using zipper_null [OF z4] zipper_parent [OF z4 ne] zipper_top [OF z4] ne by simp_all
  have keys: "sameKeys t t4" using t1(3) t2(3) t3(3) t4(3) by (metis sameKeys_trans)
  show ?thesis using that [of t4, OF _ z4 keys] zipper_frame [OF z] zipper_node [OF z2] zipper_node(1) [OF t3(2)] t1(1) t2(1) t3(1) t4(1) root
    by (simp add: removeOuter_def modifyIfNotNull_def)
qed

lemma remove_rotate:
  assumes z: "zipper t ((s, c, p, mk s Black N w F) # fs) T" and i: "removeLoop ((s, c, p, mk s Black N w F) # fs) T"
    and red: "colorT N = Red \<or> colorT F = Red" and T: "colorT T = Black"
  obtains t' T' where "andThen (nullOrBlack t (rootPtr F)) (\<lambda>farBlack. andThen (if farBlack then removeInner s t p w else Inr (w, t)) (\<lambda>(w, t). removeOuter s t p w)) = Inr (m_root t', 0, t')" and "zipper t' [] T'" and "removeLoop [] T'"
    and "inorder T' = sequence ((s, c, p, mk s Black N w F) # fs) T" and "sameKeys t t'"
proof -
  have z0: "zipper t ((other s, c, p, T) # fs) (mk s Black N w F)" using z by (simp only: zipper_across [of t s])
  have "zipper t ((other s, Black, w, N) # (other s, c, p, T) # fs) F" using z0 by (simp add: zipper_up mk_other)
  then have far: "nullOrBlack t (rootPtr F) = Inr (colorT F = Black)" by (rule nullOrBlack_zipper)
  show ?thesis
  proof (cases "colorT F")
    case Red
    then obtain a f b where F: "F = mk s Red a f b" by (cases F rule: mk_cases [where s = s]) auto
    let ?T = "plug fs (mk s c (mk s Black T p N) w (mk s Black a f b))"
    obtain t' where t': "removeOuter s t p w = Inr (m_root t', 0, t')"
      "zipper t' [] ?T" "sameKeys t t'" by (rule remove_case4 [OF z [unfolded F]])
    have "andThen (nullOrBlack t (rootPtr F)) (\<lambda>farBlack. andThen (if farBlack then removeInner s t p w else Inr (w, t)) (\<lambda>(w, t). removeOuter s t p w)) = Inr (m_root t', 0, t')"
      using far Red t'(1) by simp
    moreover have "removeLoop [] ?T" using i by (auto simp: removeLoop_def F invc_plug invh_plug paint_Black_id [OF T])
    moreover have "inorder ?T = sequence ((s, c, p, mk s Black N w F) # fs) T" by (cases s) (simp_all add: inorder_plug sequence_def F)
    ultimately show ?thesis using that t' by blast
  next
    case Black
    then obtain a n b where N: "N = mk s Red a n b" using red by (cases N rule: mk_cases [where s = s]) auto
    obtain t1 where t1: "removeInner s t p w = Inr (n, t1)"
      "zipper t1 ((s, c, p, mk s Black a n (mk s Red b w F)) # fs) T" "sameKeys t t1" by (rule remove_case3 [OF z [unfolded N]])
    let ?T = "plug fs (mk s c (mk s Black T p a) n (mk s Black b w F))"
    obtain t' where t': "removeOuter s t1 p n = Inr (m_root t', 0, t')"
      "zipper t' [] ?T" "sameKeys t1 t'" by (rule remove_case4 [OF t1(2)])
    have "andThen (nullOrBlack t (rootPtr F)) (\<lambda>farBlack. andThen (if farBlack then removeInner s t p w else Inr (w, t)) (\<lambda>(w, t). removeOuter s t p w)) = Inr (m_root t', 0, t')"
      using far Black t1(1) t'(1) by simp
    moreover have "removeLoop [] ?T" using i Black by (auto simp: removeLoop_def N invc_plug invh_plug paint_Black_id [OF T])
    moreover have "inorder ?T = sequence ((s, c, p, mk s Black N w F) # fs) T" by (cases s) (simp_all add: inorder_plug sequence_def N)
    ultimately show ?thesis using that t'(2) sameKeys_trans [OF t1(3) t'(3)] by blast
  qed
qed

text \<open>The body of the loop when the sibling is black.\<close>

lemma remove_black_sibling:
  assumes z: "zipper t ((s, c, p, mk s Black N w F) # fs) T" and i: "removeLoop ((s, c, p, mk s Black N w F) # fs) T" and T: "colorT T = Black"
  obtains t' fs' T' where "removeSibling s t p w = Inr (rootPtr T', parentPtr fs', t')"
    and "zipper t' fs' T'" and "removeLoop fs' T'" and "sequence fs' T' = sequence ((s, c, p, mk s Black N w F) # fs) T" and "sameKeys t t'"
    and "fs' = [] \<or> fs' = fs \<and> (c = Red \<longrightarrow> colorT T' = Red)"
proof -
  have z0: "zipper t ((other s, c, p, T) # fs) (mk s Black N w F)" using z by (simp only: zipper_across [of t s])
  have zn: "zipper t ((s, Black, w, F) # (other s, c, p, T) # fs) N" "zipper t ((other s, Black, w, N) # (other s, c, p, T) # fs) F"
    using z0 by (simp_all add: zipper_up mk_other)
  note w = zipper_node [OF z0] nullOrBlack_zipper [OF zn(1)] nullOrBlack_zipper [OF zn(2)]
  show ?thesis
  proof (cases "colorT N = Black \<and> colorT F = Black")
    case True
    let ?T = "mk s c T p (mk s Red N w F)"
    obtain t' where t': "modify (withColor Red) t w = Inr t'" "zipper t' ((other s, c, p, T) # fs) (mk s Red N w F)" "sameKeys t t'" by (rule color_zipper [OF z0])
    have z': "zipper t' fs ?T" using t'(2) by (simp add: zipper_up mk_other)
    moreover have "removeLoop fs ?T" using i True T by (auto simp: removeLoop_def rootBlack_Cons fitsColor_Black paint_Black_id [OF T] split: if_splits)
    moreover have "sequence fs ?T = sequence ((s, c, p, mk s Black N w F) # fs) T" by (cases s) (simp_all add: sequence_def)
    ultimately show ?thesis using that [of ?T fs t'] t' w True zipper_node [OF z'] by (simp add: removeSibling_def)
  next
    case False
    obtain t' T' where r: "andThen (nullOrBlack t (rootPtr F)) (\<lambda>farBlack. andThen (if farBlack then removeInner s t p w else Inr (w, t)) (\<lambda>(w, t). removeOuter s t p w)) = Inr (m_root t', 0, t')" "zipper t' [] T'" "removeLoop [] T'"
      "inorder T' = sequence ((s, c, p, mk s Black N w F) # fs) T" "sameKeys t t'" by (rule remove_rotate [OF z i _ T]) (use False in auto)
    have "removeSibling s t p w = Inr (m_root t', 0, t')" using r(1) w False by (cases "colorT N") (simp_all add: removeSibling_def)
    then show ?thesis using that [of T' "[]" t'] r zipper_top [OF r(2)] by simp
  qed
qed

lemma removeCase_zipper:
  assumes z: "zipper t ((s, c, p, W) # fs) T" and i: "removeLoop ((s, c, p, W) # fs) T" and T: "colorT T = Black"
  obtains t' fs' T' where "removeCase s t p = Inr (rootPtr T', parentPtr fs', t')" and "zipper t' fs' T'" and "removeLoop fs' T'"
    and "sequence fs' T' = sequence ((s, c, p, W) # fs) T" and "sameKeys t t'" and "length fs' \<le> length fs \<or> colorT T' = Red"
proof -
  obtain d N w F where W: "W = mk s d N w F" using i by (cases W rule: mk_cases [where s = s]) (auto simp: removeLoop_def)
  have zw: "zipper t ((other s, c, p, T) # fs) (mk s d N w F)" using z unfolding W by (simp only: zipper_across [of t s])
  note n = zipper_frame [OF z] zipper_node [OF zw]
  show ?thesis
  proof (cases d)
    case Black
    obtain t' fs' T' where r: "removeSibling s t p w = Inr (rootPtr T', parentPtr fs', t')"
      "zipper t' fs' T'" "removeLoop fs' T'" "sequence fs' T' = sequence ((s, c, p, mk s Black N w F) # fs) T" "sameKeys t t'"
      "fs' = [] \<or> fs' = fs \<and> (c = Red \<longrightarrow> colorT T' = Red)"
      by (rule remove_black_sibling [OF z [unfolded W Black] i [unfolded W Black] T])
    have "removeCase s t p = Inr (rootPtr T', parentPtr fs', t')" using n r(1) Black by (simp add: removeCase_def check_def W)
    then show ?thesis using that [OF _ r(2,3)] r(4-6) unfolding W Black by auto
  next
    case Red
    have c: "c = Black" "colorT N = Black" "invc N" "invh N" "bheight N = Suc (bheight T)" using i by (auto simp: removeLoop_def W Red)
    then obtain N1 m N2 where N: "N = mk s Black N1 m N2" by (cases N rule: mk_cases [where s = s]) auto
    obtain t1 where t1: "modify (withColor Black) t w = Inr t1" "zipper t1 ((other s, c, p, T) # fs) (mk s Black N w F)" "sameKeys t t1" by (rule color_zipper [OF zw])
    obtain t2 where t2: "modify (withColor Red) t1 p = Inr t2" "zipper t2 fs (mk (other s) Red (mk s Black N w F) p T)" "sameKeys t1 t2"
      by (rule color_zipper [OF t1(2) [unfolded zipper_up]])
    have "zipper t2 fs (mk s Red T p (mk s Black N w F))" using t2(2) by (simp only: mk_other)
    then obtain t3 where t3: "rotateTo s t2 p = Inr t3" "zipper t3 fs (mk s Black (mk s Red T p N) w F)" "sameKeys t2 t3" by (rule rotateTo_zipper)
    let ?fs = "(s, Black, w, F) # fs"
    have z3: "zipper t3 ((s, Red, p, mk s Black N1 m N2) # ?fs) T" using t3(2) by (simp add: zipper_up N)
    have i3: "removeLoop ((s, Red, p, mk s Black N1 m N2) # ?fs) T" using i T by (auto simp: removeLoop_def W Red N rootBlack_Cons split: if_splits)
    obtain t' fs' T' where r: "removeSibling s t3 p m = Inr (rootPtr T', parentPtr fs', t')"
      "zipper t' fs' T'" "removeLoop fs' T'" "sequence fs' T' = sequence ((s, Red, p, mk s Black N1 m N2) # ?fs) T" "sameKeys t3 t'"
      "fs' = [] \<or> fs' = ?fs \<and> (Red = Red \<longrightarrow> colorT T' = Red)"
      by (rule remove_black_sibling [OF z3 i3 T])
    have "removeCase s t p = Inr (rootPtr T', parentPtr fs', t')"
      using n t1(1) t2(1) t3(1) zipper_frame [OF z3] r(1) Red by (simp add: removeCase_def check_def W)
    moreover have "sequence fs' T' = sequence ((s, c, p, W) # fs) T" unfolding r(4) by (cases s) (simp_all add: sequence_def W N)
    moreover have "sameKeys t t'" using t1(3) t2(3) t3(3) r(5) by (metis sameKeys_trans)
    ultimately show ?thesis using that [OF _ r(2,3)] r(6) by auto
  qed
qed

lemma removeFixupLoop_exit: "zipper t fs T \<Longrightarrow> fs = [] \<or> colorT T = Red \<Longrightarrow> removeFixupLoop n t (rootPtr T) q = Inr (rootPtr T, t)"
  using zipper_top [of t T] nullOrBlack_zipper [of t fs T] by (auto simp: removeFixupLoop.simps)

lemma removeFixupLoop_zipper:
  assumes "zipper t fs T" and "removeLoop fs T" and "length fs \<le> n"
  shows "\<exists>t' fs' T'. removeFixupLoop n t (rootPtr T) (parentPtr fs) = Inr (rootPtr T', t') \<and> zipper t' fs' T' \<and> removeLoop fs' T'
    \<and> (fs' = [] \<or> colorT T' = Red) \<and> sequence fs' T' = sequence fs T \<and> sameKeys t t'"
  using assms
proof (induction n arbitrary: t fs T)
  case 0
  then show ?case using removeFixupLoop_exit [of t fs T 0] sameKeys_refl by (metis le_zero_eq length_0_conv)
next
  case (Suc n)
  note z = Suc.prems(1)
  show ?case
  proof (cases "fs = [] \<or> colorT T = Red")
    case True
    then show ?thesis using removeFixupLoop_exit [OF z True] Suc.prems(1,2) sameKeys_refl by blast
  next
    case False
    then obtain s c p W gs where fs: "fs = (s, c, p, W) # gs" by (cases fs) auto
    have T: "colorT T = Black" using False by simp
    have W: "W \<noteq> Lf" using Suc.prems(2) by (auto simp: removeLoop_def fs)
    obtain t1 fs1 T1 where st: "removeCase s t p = Inr (rootPtr T1, parentPtr fs1, t1)" "zipper t1 fs1 T1" "removeLoop fs1 T1"
      "sequence fs1 T1 = sequence ((s, c, p, W) # gs) T" "sameKeys t t1" "length fs1 \<le> length gs \<or> colorT T1 = Red"
      by (rule removeCase_zipper [OF z [unfolded fs] Suc.prems(2) [unfolded fs] T])
    have x: "rootPtr T \<noteq> m_root t" "nullOrBlack t (rootPtr T) = Inr True" "p \<noteq> 0" "(if rootPtr T = m_left (nodes t p) then LeftSide else RightSide) = s"
      using zipper_root [OF z] False nullOrBlack_zipper [OF z] T zipper_frame [OF z [unfolded fs]] zipper_side [OF z [unfolded fs]] W by auto
    have run: "removeFixupLoop (Suc n) t (rootPtr T) (parentPtr fs) = removeFixupLoop n t1 (rootPtr T1) (parentPtr fs1)"
      using x st(1) by (simp add: removeFixupLoop.simps [of "Suc n"] fs)
    have "\<exists>t' fs' T'. removeFixupLoop n t1 (rootPtr T1) (parentPtr fs1) = Inr (rootPtr T', t') \<and> zipper t' fs' T' \<and> removeLoop fs' T'
      \<and> (fs' = [] \<or> colorT T' = Red) \<and> sequence fs' T' = sequence fs1 T1 \<and> sameKeys t1 t'"
    proof (cases "colorT T1 = Red")
      case True
      then show ?thesis using removeFixupLoop_exit [OF st(2)] st(2,3) sameKeys_refl by blast
    next
      case False
      then show ?thesis using Suc.IH [OF st(2,3)] st(6) Suc.prems(3) by (simp add: fs)
    qed
    then show ?thesis unfolding run using st(4) sameKeys_trans [OF st(5)] unfolding fs by metis
  qed
qed

lemma removeFixup_zipper:
  assumes z: "zipper t fs T" and i: "removeLoop fs T" and n: "length fs \<le> s_maximumTreeDepth"
  obtains t' T' where "removeFixup t (rootPtr T) (parentPtr fs) = Inr t'" and "zipper t' [] T'" and "redBlack T'" and "inorder T' = sequence fs T" and "sameKeys t t'"
proof -
  obtain t1 fs1 T1 where r: "removeFixupLoop s_maximumTreeDepth t (rootPtr T) (parentPtr fs) = Inr (rootPtr T1, t1)" "zipper t1 fs1 T1" "removeLoop fs1 T1"
    "fs1 = [] \<or> colorT T1 = Red" "sequence fs1 T1 = sequence fs T" "sameKeys t t1" using removeFixupLoop_zipper [OF assms] by blast
  have "\<exists>t'. modifyIfNotNull (withColor Black) t1 (rootPtr T1) = Inr t' \<and> zipper t' fs1 (paint Black T1) \<and> sameKeys t1 t'"
  proof (cases T1)
    case Lf
    then show ?thesis using r(2) by (simp add: modifyIfNotNull_def)
  next
    case (Nd c l a u)
    then have "zipper t1 fs1 (mk LeftSide c l a u)" using r(2) by simp
    then obtain t' where "modify (withColor Black) t1 a = Inr t'" "zipper t' fs1 (mk LeftSide Black l a u)" "sameKeys t1 t'" by (rule color_zipper)
    then show ?thesis using Nd zipper_node(1) [of t1 fs1 LeftSide c l a u] r(2) by (simp add: modifyIfNotNull_def)
  qed
  then obtain t' where t': "modifyIfNotNull (withColor Black) t1 (rootPtr T1) = Inr t'" "zipper t' fs1 (paint Black T1)" "sameKeys t1 t'" by blast
  show ?thesis
  proof (rule that)
    show "removeFixup t (rootPtr T) (parentPtr fs) = Inr t'" using r(1) t'(1) by (simp add: removeFixup_def)
    show "zipper t' [] (plug fs1 (paint Black T1))" using t'(2) zipper_plug by blast
    show "redBlack (plug fs1 (paint Black T1))" by (rule removeLoop_done [OF r(3,4)])
    show "inorder (plug fs1 (paint Black T1)) = sequence fs T" using r(5) by (simp add: inorder_plug sequence_def)
    show "sameKeys t t'" by (rule sameKeys_trans [OF r(6) t'(3)])
  qed
qed


section \<open>Removal\<close>

lemma unlink_and_fix:
  assumes z: "zipper t fs (Nd c l y r)" and lr: "l = Lf \<or> r = Lf" and rb: "redBlack (plug fs (Nd c l y r))"
  obtains t' T' where "andThen (unlinkNode t y) (\<lambda>(x, xParent, t). andThen (load colorOf t y) (\<lambda>c.
      if c = Black then removeFixup t x xParent else Inr t)) = Inr t'"
    and "zipper t' [] T'" and "redBlack T'" and "inorder T' = before fs @ inorder l @ inorder r @ after fs" and "sameKeys t t'"
proof -
  define u where "u = (if l = Lf then r else l)"
  obtain t1 where t1: "unlinkNode t y = Inr (rootPtr u, parentPtr fs, t1)" "zipper t1 fs u" "nodes t1 y = nodes t y" "sameKeys t t1"
    using unlink_zipper [OF z lr] unfolding u_def [symmetric] by blast
  have y: "y \<noteq> 0" "colorOf (nodes t1 y) = c" using zipper_node [of t fs LeftSide c l y r, unfolded mk.simps, OF z] t1(3) by simp_all
  have L: "sequence fs u = before fs @ inorder l @ inorder r @ after fs" using lr by (auto simp: u_def sequence_def)
  have n: "length fs \<le> s_maximumTreeDepth" using zipper_depth [OF z rb] by (simp add: s_maximumTreeDepth_def)
  note b = rb [unfolded redBlack_plug]
  show ?thesis
  proof (cases c)
    case Black
    have "removeLoop fs u" using b lr by (cases "fs = []") (auto simp: removeLoop_def u_def Black)
    then obtain t' T' where "removeFixup t1 (rootPtr u) (parentPtr fs) = Inr t'" "zipper t' [] T'" "redBlack T'" "inorder T' = sequence fs u" "sameKeys t1 t'"
      by (rule removeFixup_zipper [OF t1(2) _ n])
    then show ?thesis using that [of t' T'] t1(1,4) y Black L sameKeys_trans by auto
  next
    case Red
    have "redBlack (plug fs u)" using b lr unfolding redBlack_plug by (auto simp: u_def Red fitsColor_Black split: if_splits)
    moreover have "zipper t1 [] (plug fs u)" using t1(2) zipper_plug by blast
    moreover have "inorder (plug fs u) = before fs @ inorder l @ inorder r @ after fs" using L by (simp add: inorder_plug sequence_def)
    ultimately show ?thesis using that [of t1 "plug fs u"] t1(1,4) y Red by simp
  qed
qed

lemma andThen_assoc: "andThen (andThen r f) g = andThen r (\<lambda>a. andThen (f a) g)"
  by (cases r) simp_all

lemma removeNode_zipper:
  assumes z: "zipper t [] T" and rb: "redBlack T" and x: "x \<in> set (inorder T)"
  obtains t' T' where "removeNode t x = Inr (x, t')" and "zipper t' [] T'" and "redBlack T'" and "inorder T' = remove1 x (inorder T)" and "sameKeys t t'"
proof -
  obtain fs c l r where p: "plug fs (Nd c l x r) = T" using find_zipper [OF x] by blast
  have zx: "zipper t fs (Nd c l x r)" using z zipper_plug [of t fs "Nd c l x r"] by (simp add: p)
  note n = zipper_node [of t fs LeftSide c l x r, unfolded mk.simps, OF zx]
  have zl: "zipper t ((LeftSide, c, x, r) # fs) l" and zr: "zipper t ((RightSide, c, x, l) # fs) r" using zx by (simp_all add: zipper_up)
  have top: "parentPtr fs \<noteq> 0 \<or> x = m_root t"
    using zipper_root [OF zx] zipper_frame(1) [of t _ _ _ _ _ "Nd c l x r"] zx by (cases fs rule: parentPtr.cases) auto
  have D: "distinct (inorder T)" using zipper_distinct [OF z] by simp
  have L: "inorder T = before fs @ inorder l @ x # inorder r @ after fs" using inorder_plug [of fs "Nd c l x r"] by (simp add: p)
  have null: "m_left (nodes t x) = 0 \<or> m_right (nodes t x) = 0 \<longleftrightarrow> l = Lf \<or> r = Lf" using n zipper_null [OF zl] zipper_null [OF zr] by simp
  have start: "removeNode t x = andThen (if l = Lf \<or> r = Lf then Inr x else successor t x) (\<lambda>y.
      andThen (andThen (unlinkNode t y) (\<lambda>(x, xParent, t). andThen (load colorOf t y) (\<lambda>c. if c = Black then removeFixup t x xParent else Inr t))) (\<lambda>t.
      andThen (if y \<noteq> x then takePlace t y x else Inr t) (\<lambda>t. Inr (x, t))))"
  proof -
    have assoc: "andThen (unlinkNode t y) (\<lambda>(x, xParent, t). andThen (load colorOf t y) (\<lambda>c. andThen (if c = Black then removeFixup t x xParent else Inr t) K))
        = andThen (andThen (unlinkNode t y) (\<lambda>(x, xParent, t). andThen (load colorOf t y) (\<lambda>c. if c = Black then removeFixup t x xParent else Inr t))) K" for y K
      by (cases "unlinkNode t y") (auto simp: andThen_assoc)
    show ?thesis unfolding removeNode_def assoc using n(1,3) null top by (simp add: check_def)
  qed
  show ?thesis
  proof (cases "l = Lf \<or> r = Lf")
    case True
    obtain t' T' where "andThen (unlinkNode t x) (\<lambda>(x', xParent, t). andThen (load colorOf t x) (\<lambda>c. if c = Black then removeFixup t x' xParent else Inr t)) = Inr t'"
      "zipper t' [] T'" "redBlack T'" "inorder T' = before fs @ inorder l @ inorder r @ after fs" "sameKeys t t'"
      by (rule unlink_and_fix [OF zx True]) (use rb p in simp)
    moreover have "remove1 x (inorder T) = before fs @ inorder l @ inorder r @ after fs" using D unfolding L by (simp add: remove1_append)
    ultimately show ?thesis using that [of t' T'] start True by simp
  next
    case False
    have h: "height r \<le> 126" using zipper_depth [OF zx] rb p by simp
    obtain gs d y u where g: "treeMinimum t (rootPtr r) = Inr y" "zipper t (gs @ (RightSide, c, x, l) # fs) (Nd d Lf y u)" "plug gs (Nd d Lf y u) = r" "before gs = []"
      by (rule treeMinimum_zipper [OF zr _ h]) (use False in auto)
    have succ: "successor t x = Inr y" using n g(1) False zipper_null [OF zr] by (simp add: successor_def)
    have r: "inorder r = y # inorder u @ after gs" using inorder_plug [of gs "Nd d Lf y u"] g(3,4) by simp
    have whole: "plug (gs @ (RightSide, c, x, l) # fs) (Nd d Lf y u) = T" using g(3) p by (simp add: plug_append)
    let ?A = "before fs @ inorder l" and ?B = "inorder u @ after gs @ after fs"
    have LT: "inorder T = ?A @ x # y # ?B" using L r by simp
    obtain t1 T1 where t1: "andThen (unlinkNode t y) (\<lambda>(x', xParent, t). andThen (load colorOf t y) (\<lambda>c. if c = Black then removeFixup t x' xParent else Inr t)) = Inr t1"
      "zipper t1 [] T1" "redBlack T1" "inorder T1 = before (gs @ (RightSide, c, x, l) # fs) @ inorder Lf @ inorder u @ after (gs @ (RightSide, c, x, l) # fs)" "sameKeys t t1"
      by (rule unlink_and_fix [OF g(2)]) (use rb whole in simp_all)
    have L1: "inorder T1 = ?A @ x # ?B" using t1(4) g(4) by (simp add: before_append after_append)
    obtain fs' c' l' r' where p': "plug fs' (Nd c' l' x r') = T1" using find_zipper [of x T1] L1 by auto
    have z1: "zipper t1 fs' (Nd c' l' x r')" using t1(2) zipper_plug [of t1 fs' "Nd c' l' x r'"] by (simp add: p')
    have L1': "inorder T1 = (before fs' @ inorder l') @ x # (inorder r' @ after fs')" using inorder_plug [of fs' "Nd c' l' x r'"] by (simp add: p')
    have split: "?A = before fs' @ inorder l'" "?B = inorder r' @ after fs'"
      using split_unique [of ?A x ?B "before fs' @ inorder l'" "inorder r' @ after fs'"] zipper_distinct [OF t1(2)] L1 L1' by simp_all
    have y: "y \<noteq> 0" "aligned y" "y \<noteq> x" "y \<notin> set (sequence fs' (Nd c' l' x r'))"
      using zipper_node [of t _ LeftSide d Lf y u, unfolded mk.simps, OF g(2)] D LT L1 L1' by (auto simp: sequence_def)
    obtain t2 where t2: "takePlace t1 y x = Inr t2" "zipper t2 fs' (Nd c' l' y r')" "sameKeys t1 t2" by (rule takePlace_zipper [OF z1 y(1,2,4)])
    have "removeNode t x = Inr (x, t2)" using start succ False t1(1) t2(1) y(3) by simp
    moreover have "zipper t2 [] (plug fs' (Nd c' l' y r'))" using t2(2) zipper_plug by blast
    moreover have "redBlack (plug fs' (Nd c' l' y r'))" using t1(3) unfolding p' [symmetric] redBlack_plug by (cases "fs' = []") simp_all
    moreover have "inorder (plug fs' (Nd c' l' y r')) = remove1 x (inorder T)"
    proof -
      have "remove1 x (inorder T) = ?A @ y # ?B" using D unfolding LT by (simp add: remove1_append)
      then show ?thesis unfolding split by (simp add: inorder_plug)
    qed
    ultimately show ?thesis using that sameKeys_trans [OF t1(5) t2(3)] by blast
  qed
qed

end
