(* ===== verification/Red_Black_Index.thy ===== *)
theory Red_Black_Index
  imports Red_Black_Remove
begin

text \<open>
  What the red-black tree promises to its clients: an index of nodes that is ordered by the keys. The contract is a locale over the list of
  the nodes in order; the operations of the tree discharge it.
\<close>


section \<open>The contract\<close>

text \<open>Insertions and removals, and their effect on the ordered list of nodes, where they are admissible.\<close>

datatype indexOp = Insert ptr | Remove ptr

fun admissible :: "indexOp \<Rightarrow> ptr list \<Rightarrow> bool" where
  "admissible (Insert x) L \<longleftrightarrow> x \<noteq> 0 \<and> aligned x \<and> x \<notin> set L"
| "admissible (Remove x) L \<longleftrightarrow> x \<in> set L"

fun specOp :: "(ptr \<Rightarrow> 'k::linorder) \<Rightarrow> indexOp \<Rightarrow> ptr list \<Rightarrow> ptr list" where
  "specOp k (Insert x) L = insertInto k x L"
| "specOp k (Remove x) L = remove1 x L"

fun specOps :: "(ptr \<Rightarrow> 'k::linorder) \<Rightarrow> indexOp list \<Rightarrow> ptr list \<Rightarrow> ptr list option" where
  "specOps k [] L = Some L"
| "specOps k (f # fs) L = (if admissible f L then specOps k fs (specOp k f L) else None)"

fun applyAll :: "('t \<Rightarrow> indexOp \<Rightarrow> (rb_error, 't) result) \<Rightarrow> 't \<Rightarrow> indexOp list \<Rightarrow> (rb_error, 't) result" where
  "applyAll step t [] = Inr t"
| "applyAll step t (f # fs) = andThen (step t f) (\<lambda>t. applyAll step t fs)"

lemma set_insertInto: "set (insertInto k x L) = insert x (set L)"
proof -
  have "set (takeWhile P L) \<union> set (dropWhile P L) = set L" for P by (metis set_append takeWhile_dropWhile_id)
  then show ?thesis by (auto simp: insertInto_def)
qed

locale ordered_index =
  fixes holds :: "'t \<Rightarrow> ptr list \<Rightarrow> bool"
    and keyOf :: "'t \<Rightarrow> ptr \<Rightarrow> 'k::linorder"
    and apply_op :: "'t \<Rightarrow> indexOp \<Rightarrow> (rb_error, 't) result"
    and lookup :: "'t \<Rightarrow> 'k \<Rightarrow> (rb_error, ptr) result"
  assumes holds_sorted: "holds t L \<Longrightarrow> distinct L \<and> 0 \<notin> set L \<and> sorted (map (keyOf t) L)"
    and apply_law: "holds t L \<Longrightarrow> admissible f L \<Longrightarrow> \<exists>t'. apply_op t f = Inr t' \<and> holds t' (specOp (keyOf t) f L) \<and> keyOf t' = keyOf t"
    and lookup_law: "holds t L \<Longrightarrow> \<exists>p. lookup t k = Inr p \<and> (if p = 0 then k \<notin> keyOf t ` set L else p \<in> set L \<and> keyOf t p = k)"
begin

lemma run_law: "holds t L \<Longrightarrow> specOps (keyOf t) fs L = Some L' \<Longrightarrow> \<exists>t'. applyAll apply_op t fs = Inr t' \<and> holds t' L' \<and> keyOf t' = keyOf t"
proof (induction fs arbitrary: t L)
  case (Cons f fs)
  have a: "admissible f L" "specOps (keyOf t) fs (specOp (keyOf t) f L) = Some L'" using Cons.prems(2) by (auto split: if_splits)
  from apply_law [OF Cons.prems(1) a(1)] obtain t1 where t1: "apply_op t f = Inr t1" "holds t1 (specOp (keyOf t) f L)" "keyOf t1 = keyOf t" by blast
  then show ?case using Cons.IH [OF t1(2)] a(2) by simp
qed simp

text \<open>Removing the node that was just inserted restores the index.\<close>

lemma insert_remove:
  assumes "holds t L" and "admissible (Insert x) L"
  shows "\<exists>t'. applyAll apply_op t [Insert x, Remove x] = Inr t' \<and> holds t' L"
proof -
  have "remove1 x (insertInto (keyOf t) x L) = L" using assms(2) by (simp add: insertInto_def remove1_append) (metis set_takeWhileD)
  then have "specOps (keyOf t) [Insert x, Remove x] L = Some L" using assms(2) by (simp add: insertInto_def)
  then show ?thesis using run_law [OF assms(1)] by metis
qed

text \<open>A node that was inserted is found, if no other node has its key.\<close>

lemma lookup_inserted:
  assumes "holds t L" and "admissible (Insert x) L" and "keyOf t x \<notin> keyOf t ` set L"
  shows "\<exists>t'. apply_op t (Insert x) = Inr t' \<and> lookup t' (keyOf t x) = Inr x"
proof -
  from apply_law [OF assms(1,2)] obtain t' where t': "apply_op t (Insert x) = Inr t'" "holds t' (insertInto (keyOf t) x L)" "keyOf t' = keyOf t" by auto
  obtain p where p: "lookup t' (keyOf t x) = Inr p"
    "if p = 0 then keyOf t x \<notin> keyOf t' ` set (insertInto (keyOf t) x L) else p \<in> set (insertInto (keyOf t) x L) \<and> keyOf t' p = keyOf t x"
    using lookup_law [OF t'(2)] by blast
  have "keyOf t p \<noteq> keyOf t x" if "p \<in> set L" using that assms(3) by (metis imageI)
  then show ?thesis using p t' by (auto simp: set_insertInto split: if_splits)
qed

end


section \<open>The tree as an index\<close>

definition applyOp :: "'k::linorder rbTree \<Rightarrow> indexOp \<Rightarrow> (rb_error, 'k rbTree) result" where
  "applyOp t f = (case f of Insert x \<Rightarrow> insertNode t x | Remove x \<Rightarrow> andThen (removeNode t x) (\<lambda>(_, t). Inr t))"

lemma holdsNodes_sorted: "holdsNodes t L \<Longrightarrow> distinct L \<and> 0 \<notin> set L \<and> sorted (map (keyAt t) L)"
proof -
  assume "holdsNodes t L"
  then obtain T where T: "zipper t [] T" "inorder T = L" "sorted (map (keyAt t) L)" by (auto simp: holdsNodes_def)
  have "0 \<notin> set L" using T(1,2) treeAt_not_null [of "nodes t" _ _ T 0] by (auto simp: zipper_def zipperAt_def)
  then show ?thesis using T zipper_distinct [OF T(1)] by simp
qed

lemma sorted_insertInto: "sorted (map k L) \<Longrightarrow> sorted (map k (insertInto k x L))"
proof -
  assume s: "sorted (map k L)"
  define P where "P a \<longleftrightarrow> k a \<le> k x" for a
  define A B where "A = takeWhile P L" and "B = dropWhile P L"
  have L: "L = A @ B" by (simp add: A_def B_def)
  have A: "\<forall>a \<in> set A. k a \<le> k x" using set_takeWhileD [of _ P L] by (auto simp: A_def P_def)
  have B: "\<forall>b \<in> set B. k x \<le> k b"
  proof (cases B)
    case (Cons c D)
    then have "\<not> P c" using hd_dropWhile [of P L] by (auto simp: B_def)
    then show ?thesis using s unfolding L Cons by (auto simp: sorted_append P_def)
  qed simp
  have "insertInto k x L = A @ x # B" by (simp add: insertInto_def A_def B_def P_def [abs_def])
  then show ?thesis using s A B unfolding L by (auto simp: sorted_append)
qed

lemma sameKeys_iff: "sameKeys t t' \<longleftrightarrow> keyAt t' = keyAt t"
  by (auto simp: sameKeys_def fun_eq_iff)

lemma applyOp_law:
  assumes h: "holdsNodes t L" and a: "admissible f L"
  shows "\<exists>t'. applyOp t f = Inr t' \<and> holdsNodes t' (specOp (keyAt t) f L) \<and> keyAt t' = keyAt t"
proof -
  obtain T where T: "zipper t [] T" "redBlack T" "inorder T = L" and s: "sorted (map (keyAt t) L)" using h by (auto simp: holdsNodes_def)
  show ?thesis
  proof (cases f)
    case (Insert x)
    obtain t' T' where "insertNode t x = Inr t'" "zipper t' [] T'" "redBlack T'" "inorder T' = insertInto (keyAt t) x (inorder T)" "sameKeys t t'"
      by (rule insertNode_zipper [OF T(1,2)]) (use T(3) s a Insert in auto)
    then show ?thesis using T(3) sorted_insertInto [OF s, of x] unfolding sameKeys_iff holdsNodes_def by (auto simp: applyOp_def Insert)
  next
    case (Remove x)
    obtain t' T' where "removeNode t x = Inr (x, t')" "zipper t' [] T'" "redBlack T'" "inorder T' = remove1 x (inorder T)" "sameKeys t t'"
      by (rule removeNode_zipper [OF T(1,2)]) (use T(3) a Remove in auto)
    then show ?thesis using T(3) sorted_map_remove1 [OF s, of x] unfolding sameKeys_iff holdsNodes_def by (auto simp: applyOp_def Remove)
  qed
qed

lemma findExact_law:
  assumes "holdsNodes t L"
  shows "\<exists>p. findExact t k = Inr p \<and> (if p = 0 then k \<notin> keyAt t ` set L else p \<in> set L \<and> keyAt t p = k)"
proof -
  obtain T where T: "zipper t [] T" "redBlack T" "inorder T = L" "sorted (map (keyAt t) (inorder T))" using assms by (auto simp: holdsNodes_def)
  have "height T \<le> s_maximumTreeDepth" using zipper_depth [OF T(1)] T(2) by (simp add: s_maximumTreeDepth_def)
  then obtain p where "findExact t k = Inr p" "if p = 0 then \<forall>a \<in> set L. keyAt t a \<noteq> k else p \<in> set L \<and> keyAt t p = k"
    using findExactFrom_zipper [OF T(1) _ T(4), of s_maximumTreeDepth k] T(3) zipper_top [OF T(1)] by (auto simp: findExact_def)
  then show ?thesis by (intro exI [of _ p]) auto
qed

interpretation index: ordered_index holdsNodes keyAt applyOp findExact
  using holdsNodes_sorted applyOp_law findExact_law by unfold_locales


section \<open>Properties\<close>

lemma empty_holds: "m_root t = 0 \<Longrightarrow> holdsNodes t []"
  unfolding holdsNodes_def by (auto simp: zipper_def zipperAt_def redBlack_def intro!: exI [of _ Lf])

text \<open>
  C28. The red-black tree implements an ordered list. Every sequence of admissible insertions (of an aligned node that is not in the tree) and
  removals (of a node in the tree), starting with the empty tree, returns: no null pointer is followed, no assertion fails, and no loop exceeds the
  depth of 128 that the code allows. The result is a red-black tree in the store with consistent parent pointers, no path in it has more than 126
  nodes, and its nodes in order are those of the list, an inserted node being placed after the nodes with the same key.
\<close>

theorem red_black_refines_list:
  assumes "m_root t = 0" and "specOps (keyAt t) fs [] = Some L"
  shows "\<exists>t' T. applyAll applyOp t fs = Inr t' \<and> zipper t' [] T \<and> redBlack T \<and> height T \<le> 126 \<and> inorder T = L
    \<and> keyAt t' = keyAt t \<and> sorted (map (keyAt t) L)"
proof -
  obtain t' where t': "applyAll applyOp t fs = Inr t'" "holdsNodes t' L" "keyAt t' = keyAt t"
    using index.run_law [OF empty_holds [OF assms(1)] assms(2)] by blast
  then obtain T where "zipper t' [] T" "redBlack T" "inorder T = L" by (auto simp: holdsNodes_def)
  then show ?thesis using t' zipper_depth [of t' "[]" T] index.holds_sorted [OF t'(2)] by auto
qed

text \<open>The nodes 2, 4, 6 and 8 with their addresses as keys.\<close>

theorem red_black_refines_list_witness:
  "\<exists>t' T. applyAll applyOp \<lparr>nodes = (\<lambda>p. \<lparr>m_left = 0, m_right = 0, m_parentAndRed = 0, key = uint p\<rparr>), m_root = 0\<rparr>
      [Insert 4, Insert 2, Insert 8, Insert 6, Remove 4] = Inr t' \<and> zipper t' [] T \<and> redBlack T \<and> inorder T = [2, 6, 8]"
proof -
  let ?t = "\<lparr>nodes = (\<lambda>p. \<lparr>m_left = 0, m_right = 0, m_parentAndRed = 0, key = uint p\<rparr>), m_root = 0\<rparr> :: int rbTree"
  have "specOps (keyAt ?t) [Insert 4, Insert 2, Insert 8, Insert 6, Remove 4] [] = Some [2, 6, 8]"
    by (simp add: aligned_def insertInto_def bit_iff_odd)
  then show ?thesis using red_black_refines_list [of ?t "[Insert 4, Insert 2, Insert 8, Insert 6, Remove 4]" "[2, 6, 8]"] by auto
qed

text \<open>
  C29. Searching a tree that holds the nodes of an ordered list, without errors: \<^verbatim>\<open>findExact\<close> returns a node with the key, or null if there is none;
  \<^verbatim>\<open>findLeastGreaterThanOrEqual\<close> and \<^verbatim>\<open>findGreatestLessThanOrEqual\<close> return a node with the nearest key, or null; \<^verbatim>\<open>first\<close>, \<^verbatim>\<open>last\<close>, \<^verbatim>\<open>successor\<close> and
  \<^verbatim>\<open>predecessor\<close> walk the list; \<^verbatim>\<open>size\<close> terminates with its length;
  \<^verbatim>\<open>iterate\<close> with a callback that wants all children visits every node once, as long as its 32-bit counter suffices; and \<^verbatim>\<open>remove\<close> of a key removes one node with that key.
\<close>

theorem red_black_searches:
  assumes h: "holdsNodes t L"
  shows "(\<exists>p. findExact t k = Inr p \<and> (if p = 0 then k \<notin> keyAt t ` set L else p \<in> set L \<and> keyAt t p = k))
    \<and> (\<exists>p. findLeastGreaterThanOrEqual t k = Inr p \<and> leastFrom (keyAt t) k 0 (set L) p)
    \<and> (\<exists>p. findGreatestLessThanOrEqual t k = Inr p \<and> greatestFrom (keyAt t) k 0 (set L) p)
    \<and> firstNode t = Inr (firstOf L) \<and> lastNode t = Inr (lastOf L)
    \<and> (L = A @ x # B \<longrightarrow> successor t x = Inr (firstOf B) \<and> predecessor t x = Inr (lastOf A))
    \<and> treeSize t = Some (Inr (length L)) \<and> (isEmptyTree t \<longleftrightarrow> L = [])
    \<and> (length L < 2 ^ 32 - 1 \<longrightarrow> (\<exists>P. iterateNodes (reading collect) t [] = Some (Inr (t, P)) \<and> distinct P \<and> set P = set L))
    \<and> (\<exists>p t'. removeKey t k = Inr (p, t') \<and> (if p = 0 then k \<notin> keyAt t ` set L \<and> t' = t else p \<in> set L \<and> keyAt t p = k \<and> holdsNodes t' (remove1 p L)))"
proof -
  obtain T where T: "zipper t [] T" "redBlack T" "inorder T = L" "sorted (map (keyAt t) (inorder T))" using h by (auto simp: holdsNodes_def)
  note top = zipper_top [OF T(1)]
  have d: "height T \<le> 126" "height T \<le> s_maximumTreeDepth" using zipper_depth [OF T(1)] T(2) by (simp_all add: s_maximumTreeDepth_def)
  have null: "m_root t = 0 \<longleftrightarrow> L = []" using zipper_null [OF T(1)] top T(3) by (cases T) auto
  have ext: "firstNode t = Inr (firstOf L)" "lastNode t = Inr (lastOf L)"
    using treeMinimum_first [OF T(1) _ d(1)] treeMaximum_last [OF T(1) _ d(1)] null T(3) top by (cases T; auto simp: firstNode_def lastNode_def)+
  have exact: "\<exists>p. findExact t k = Inr p \<and> (if p = 0 then k \<notin> keyAt t ` set L else p \<in> set L \<and> keyAt t p = k)" by (rule index.lookup_law [OF h])
  then obtain p where p: "findExact t k = Inr p" "if p = 0 then k \<notin> keyAt t ` set L else p \<in> set L \<and> keyAt t p = k" by blast
  have "\<exists>q t'. removeKey t k = Inr (q, t') \<and> (if q = 0 then k \<notin> keyAt t ` set L \<and> t' = t else q \<in> set L \<and> keyAt t q = k \<and> holdsNodes t' (remove1 q L))"
  proof (cases "p = 0")
    case True
    then show ?thesis using p by (simp add: removeKey_def)
  next
    case False
    then obtain t' T' where r: "removeNode t p = Inr (p, t')" "zipper t' [] T'" "redBlack T'" "inorder T' = remove1 p (inorder T)" "sameKeys t t'"
      using removeNode_zipper [OF T(1,2), of p] p(2) T(3) by metis
    moreover have "holdsNodes t' (remove1 p L)" using r T(3,4) sorted_map_remove1 [of "keyAt t" L p] unfolding holdsNodes_def sameKeys_iff by metis
    ultimately show ?thesis using p False by (intro exI [of _ p] exI [of _ t']) (simp add: removeKey_def)
  qed
  moreover have "treeSize t = Some (Inr (length L))" using countNodes_suffix [OF T(1,2), of "[]" L 0] T(3) ext(1) by (simp add: treeSize_def)
  moreover have "\<exists>p. findLeastGreaterThanOrEqual t k = Inr p \<and> leastFrom (keyAt t) k 0 (set L) p"
    using findLeastFrom_zipper [OF T(1) d(2) T(4), of k 0] top T(3) by (simp add: findLeastGreaterThanOrEqual_def)
  moreover have "\<exists>p. findGreatestLessThanOrEqual t k = Inr p \<and> greatestFrom (keyAt t) k 0 (set L) p"
    using findGreatestFrom_zipper [OF T(1) d(2) T(4), of k 0] top T(3) by (simp add: findGreatestLessThanOrEqual_def)
  moreover have "L = A @ x # B \<longrightarrow> successor t x = Inr (firstOf B) \<and> predecessor t x = Inr (lastOf A)" using neighbours [OF T(1,2)] T(3) by blast
  moreover have "\<exists>P. iterateNodes (reading collect) t [] = Some (Inr (t, P)) \<and> distinct P \<and> set P = set L" if "length L < 2 ^ 32 - 1"
  proof -
    obtain P where P: "visit collect T [] = P" "set P = set L" "length P = length L" using visit_collect [of T "[]"] T(3) by auto
    then have "distinct P" using index.holds_sorted [OF h] by (metis card_distinct distinct_card)
    then show ?thesis using iterateNodes_visits [OF T(1), of collect "[]"] P that T(3) by simp
  qed
  ultimately show ?thesis using exact ext null by (simp only: isEmptyTree_def simp_thms) blast
qed

theorem red_black_searches_witness:
  "\<exists>p. findExact \<lparr>nodes = (\<lambda>_. \<lparr>m_left = 0, m_right = 0, m_parentAndRed = 0, key = 7\<rparr>), m_root = 2\<rparr> (7 :: int) = Inr p \<and> p \<in> {2}"
proof -
  let ?t = "\<lparr>nodes = (\<lambda>_. \<lparr>m_left = 0, m_right = 0, m_parentAndRed = 0, key = 7\<rparr>), m_root = 2\<rparr> :: int rbTree"
  have "holdsNodes ?t [2]" unfolding holdsNodes_def
    by (auto simp: zipper_def zipperAt_def redBlack_def aligned_def parentOf_def colorOf_def bit_iff_odd intro!: exI [of _ "Nd Black Lf 2 Lf"])
  then show ?thesis using red_black_searches [of ?t "[2]" 7] by (fastforce split: if_splits)
qed

end
