(* ===== verification/Spec2Isabelle.thy ===== *)
theory Spec2Isabelle
  imports JS_Relations Digit_Multiply Lock_Algorithm Parking_Hashtable Red_Black_Index
begin

text \<open>
  A verification library for parts of JavaScriptCore and its support library WTF, the JavaScript engine that this repository builds for
  Android. Paths are relative to \<^verbatim>\<open>src/webkit/Source\<close>; \<^verbatim>\<open>runtime/\<close> is \<^verbatim>\<open>JavaScriptCore/runtime/\<close> and \<^verbatim>\<open>wtf/\<close> is \<^verbatim>\<open>WTF/wtf/\<close>.

  \<^bold>\<open>The parts and how they interact.\<close> The operators of the language (\<^verbatim>\<open>runtime/Operations.h\<close>) convert their operands, which are 64-bit words
  (\<^verbatim>\<open>runtime/JSCJSValue.h\<close>), and call the arbitrary-precision integers (\<^verbatim>\<open>runtime/JSBigInt.cpp\<close>), whose parser uses the checked integers of
  \<^verbatim>\<open>wtf/CheckedArithmetic.h\<close>. Separately, the lock of \<^verbatim>\<open>wtf/LockAlgorithm.h\<close> parks threads in the parking lot (\<^verbatim>\<open>wtf/ParkingLot.cpp\<close>), a hash table of
  queues, which hashes addresses with \<^verbatim>\<open>wtf/HashFunctions.h\<close>; and \<^verbatim>\<open>wtf/RedBlackTree.h\<close> is the index of the allocator of executable memory.

  \<^bold>\<open>Conventions.\<close> A fallible operation returns \<open>(e, a) result\<close>, that is \<open>e + a\<close>, and operations are sequenced with \<open>andThen\<close>; every throw, failed
  assertion and null dereference is an error value (\<open>js_error\<close>, \<open>lot_error\<close>, \<open>rb_error\<close>, \<open>arith_error\<close>). Digits, doubles, pointers and boxed values are
  words of their width. A loop over an array is a fold over its indices. What is not in the source is an argument: which
  BigInt lengths the heap grants (\<open>js_env\<close>), conversions of objects and floating-point operations (\<open>js_host\<close>), ICU's space
  separators, the clock, random delays and the addresses of new buckets.

  \<^bold>\<open>BigInts.\<close>
  \<^item> \<open>Prelude\<close>: results, their outcomes, folds over ranges of indices, and lemmas on words and lists.
  \<^item> \<open>Digits\<close>, \<open>Digit_Multiply\<close>, \<open>Digit_Division\<close>, \<open>Digit_Shift\<close>, \<open>MathExtras\<close>: \<^verbatim>\<open>digitAdd\<close>, \<^verbatim>\<open>digitSub\<close>, \<^verbatim>\<open>digitMul\<close> (with 128 bits and with halves, which
    are shown equal), \<^verbatim>\<open>digitDiv\<close>, \<^verbatim>\<open>digitPow\<close>, digit shifts, \<^verbatim>\<open>clz\<close>. The locale \<open>carry_chain\<close> is the contract of a loop that passes a carry from digit
    to digit; the loops of addition, subtraction, multiplication, shifting and truncation are its interpretations.
  \<^item> \<open>BigInt_Core\<close>: the object (\<open>jsBigInt\<close>), allocation, trimming, conversions from machine integers. \<open>canonical\<close> is the invariant of every object that
    the code hands out (no leading zero digit, no negative zero, bounded length), \<open>bval\<close> the integer that it denotes, and \<open>computes env L r v\<close> the
    contract of an operation: a canonical object of value \<open>v\<close>, or an out-of-memory error because a length of at most \<open>L\<close> was refused.
  \<^item> \<open>BigInt_Compare\<close>, \<open>BigInt_AddSub\<close>, \<open>BigInt_Mul\<close>, \<open>BigInt_Division\<close>, \<open>BigInt_API\<close>: comparison, addition, subtraction, increment, decrement, long
    multiplication, powers, and division by Knuth's Algorithm D. The locale \<open>bigint_binop\<close> and its extensions are the contract of a
    two-operand entry point, interpreted on every one of them. The theorems say that the results are exact (C1 to C8, and the order of values).
  \<^item> \<open>BigInt_Bitwise\<close>, \<open>BigInt_Shift\<close>, \<open>BigInt_Bits_API\<close>, \<open>BigInt_AsN\<close>: bitwise operators on two's complement of unbounded width, shifts that round down,
    \<^verbatim>\<open>asIntN\<close>, \<^verbatim>\<open>asUintN\<close> and the conversions to 64-bit integers.
  \<^item> \<open>Radix\<close>, \<open>BigInt_ToString\<close>, \<open>BigInt_Parse\<close>: printing in every radix by both algorithms, parsing, and that they are inverse.
  \<^item> \<open>BigInt_Double\<close>, \<open>BigInt_ToNumber\<close>: comparison with a double, conversion of a double and rounding to the nearest double, on the bits of the
    double. The value of a double is an integer in units of \<open>2\<^sup>-\<^sup>1\<^sup>0\<^sup>7\<^sup>4\<close> (\<open>scaledValue\<close>), so that no real numbers are needed.

  \<^bold>\<open>Values and operators.\<close>
  \<^item> \<open>JSValue_Boxing\<close>: the tags, constructors, tests and accessors of \<^verbatim>\<open>USE(JSVALUE64)\<close>, and that they recover what was boxed.
  \<^item> \<open>JS_Number\<close>: \<^verbatim>\<open>toInt32\<close> and its kin (\<^verbatim>\<open>runtime/MathCommon.h\<close>), shown to select the low bits of the integer part.
  \<^item> \<open>JS_Operators\<close>: the conversions, the arithmetic, bitwise, relational and equality operators, and the functions of the \<^verbatim>\<open>BigInt\<close> object.
  \<^item> \<open>JS_Types\<close>: an expression language over all of these and its type soundness. \<open>JS_Relations\<close>: relations with BigInts compare exact values.

  \<^bold>\<open>Checked arithmetic.\<close> \<open>Checked_Arithmetic\<close> has an integer type as its signedness and width, promotes operands narrower than \<^verbatim>\<open>int\<close>, and makes signed
  overflow an error. The portable operations detect every overflow without one, \<^verbatim>\<open>Checked<T>\<close> refines the integers, and division is shown to miss
  an overflow. The mixed operations are those of \<^verbatim>\<open>int\<close> and \<^verbatim>\<open>unsigned\<close>; the portable code is modelled for operands of the result's type.

  \<^bold>\<open>Threads.\<close>
  \<^item> \<open>Parking_Lot\<close>: a bucket's queue as a linked list in a store of thread data; parking, unparking and leaving after a timeout, each under the bucket's
    lock. \<open>Hash_Functions\<close>: the hashes and their uniformity. \<open>Parking_Hashtable\<close>: the table of buckets and its growth; the locale \<open>queue_service\<close> is the
    contract (a queue per address), interpreted on the table.
  \<^item> \<open>Lock_Algorithm\<close>: the lock's byte, its fast and slow paths and any number of threads as the step relation \<open>threadStep\<close>, with an invariant kept by every
    step. Theorems: mutual exclusion, no failing assertion, and that a thread that wants the lock can still get it by the steps of the threads that
    are inside an operation already (\<open>innerStep\<close>).

  \<^bold>\<open>Red-black trees.\<close> \<open>Red_Black_Tree\<close> is the code on nodes in a store with packed parent and colour; \<open>Red_Black_Heap\<close> says which tree a store holds and
  \<open>Red_Black_Balance\<close> when it is balanced; \<open>Red_Black_Insert\<close>, \<open>Red_Black_Search\<close> and \<open>Red_Black_Remove\<close> verify the operations; the locale
  \<open>ordered_index\<close> of \<open>Red_Black_Index\<close> is the contract (an ordered list), interpreted on them.

  \<^bold>\<open>Bounds and fuel.\<close> The loops that follow links (\<open>dequeueLoop\<close>, \<open>drainBucket\<close>, \<open>countNodes\<close>, \<open>iterateLoop\<close>) are partial functions, and the theorems say that
  they return. The loops of the red-black tree count down from \<^verbatim>\<open>s_maximumTreeDepth\<close>, as their \<^verbatim>\<open>RELEASE_ASSERT\<close> does in the code; a balanced
  tree in a 64-bit address space is shallower. The outer loop of the parser takes the length of the text plus one as fuel, and each round
  reads a character; running out would be an assertion failure, which its theorem excludes. Every other recursion has a termination proof.

  \<^bold>\<open>Not modelled.\<close>
  \<^item> The debug assertions of the BigInt accessors (an index in range, a zero without sign), of \<^verbatim>\<open>absoluteCompare\<close> and of \<^verbatim>\<open>digitDiv\<close>: they are premises of
    the lemmas and not branches. \<^verbatim>\<open>digitDiv\<close> is its portable code; the assembly variants are the processor's division instruction.
  \<^item> BigInt32 (\<^verbatim>\<open>USE(BIGINT32)\<close>), which \<^verbatim>\<open>PlatformUse.h\<close> switches off, and the 32-bit value representation.
  \<^item> Memory orders: the steps of the lock are sequentially consistent. The retry loops of the parking lot around its own word locks, its thread counter
    and \<^verbatim>\<open>forEach\<close>.
  \<^item> \<^verbatim>\<open>toLocaleString\<close>, floating-point arithmetic itself, the conversions between strings and doubles, and the code that objects run when they are
    converted: they are parameters or left out.
  \<^item> The rest of the engine: the parser, the bytecode and its interpreters and compilers, the garbage collector, the other built-in objects, regular
    expressions, WebAssembly, the inspector, the allocators, ICU. They are generated or assembly code, third-party code, or work on a heap of objects
    that has no model here, and the modelled parts do not depend on them beyond the parameters above.
\<close>

end
